(* ===== verification/Prelude.thy ===== *)
theory Prelude
  imports
    Main
    "HOL-Library.Word"
    "HOL-Library.Finite_Map"
    "HOL-Library.Char_ord"
    "HOL-Library.Multiset"
    "HOL-Library.List_Lexorder"
    "HOL-Library.Product_Lexorder"
begin

text \<open>
  Shared vocabulary of the development: the Go types the components use, the standard-library
  routines they call (hexadecimal text, cancellation polling, map sizes), the collections of
  rewrite rules and the generic lemmas on lists, options and finite maps.

  A Go string is its byte sequence, so it is a \<^typ>\<open>string\<close> (a list of 8-bit characters) and
  \<^const>\<open>length\<close> is Go's \<^verbatim>\<open>len\<close>. A Go \<^verbatim>\<open>map[string]string\<close> is a finite map: it has no
  order, and every loop of the source over one is order independent. A nil map or slice is
  \<^const>\<open>None\<close> where the source can tell it from an empty one.
\<close>

unbundle bit_operations_syntax

type_synonym byte = "8 word"
type_synonym u16 = "16 word"
type_synonym u64 = "64 word"
type_synonym bytes = "byte list"
type_synonym digest_fun = "bytes \<Rightarrow> bytes"

named_theorems collab_simps \<open>unfolding rules of the small helper definitions\<close>
named_theorems view_simps \<open>rules that rewrite states to their abstract views\<close>
named_theorems inv_intros \<open>preservation rules of the component invariants\<close>

section \<open>Cancellation\<close>

text \<open>
  A \<^verbatim>\<open>context.Context\<close> is read through \<^verbatim>\<open>ctx.Err()\<close> only, and once cancelled it stays
  cancelled. A run of the program fixes after how many reads the cancellation becomes visible:
  \<open>Until n\<close> answers \<open>n\<close> reads with nil and every later one with the error; \<open>Background\<close> is
  never cancelled.
\<close>

datatype ctx = Background | Until nat

fun ctx_poll :: "ctx \<Rightarrow> ctx option" where
  "ctx_poll Background = Some Background"
| "ctx_poll (Until 0) = None"
| "ctx_poll (Until (Suc n)) = Some (Until n)"

lemma ctx_poll_Background_iff [simp]: "ctx_poll Background = Some c \<longleftrightarrow> c = Background"
  by auto

section \<open>Results\<close>

text \<open>A Go function that returns a value and an error returns \<^const>\<open>Inl\<close> of the error or
  \<^const>\<open>Inr\<close> of the value. \<open>sum_bind\<close> is the \<^verbatim>\<open>if err != nil { return err }\<close> that follows such a
  call, \<open>guard\<close> an \<^verbatim>\<open>if\<close> whose body only returns an error.\<close>

definition sum_bind :: "'e + 'a \<Rightarrow> ('a \<Rightarrow> 'e + 'b) \<Rightarrow> 'e + 'b" where
  "sum_bind x f = (case x of Inl e \<Rightarrow> Inl e | Inr a \<Rightarrow> f a)"

definition guard :: "bool \<Rightarrow> 'e \<Rightarrow> 'e + unit" where
  "guard fails e = (if fails then Inl e else Inr ())"

definition check :: "'x option \<Rightarrow> ('x \<Rightarrow> 'e) \<Rightarrow> 'e + unit" where
  "check r wrap = (case r of None \<Rightarrow> Inr () | Some x \<Rightarrow> Inl (wrap x))"

lemma sum_bind_simps [simp]: "sum_bind (Inl e) f = Inl e" "sum_bind (Inr a) f = f a"
  by (simp_all add: sum_bind_def)

lemma sum_bind_Inr_iff: "sum_bind x f = Inr b \<longleftrightarrow> (\<exists>a. x = Inr a \<and> f a = Inr b)"
  by (cases x) simp_all

lemma sum_bind_Inl_iff: "sum_bind x f = Inl e \<longleftrightarrow> x = Inl e \<or> (\<exists>a. x = Inr a \<and> f a = Inl e)"
  by (cases x) auto

lemma guard_iff [simp]: "guard c e = Inr u \<longleftrightarrow> \<not> c" "guard c e = Inl e' \<longleftrightarrow> c \<and> e' = e"
  by (auto simp: guard_def)

lemma check_iff [simp]: "check r w = Inr u \<longleftrightarrow> r = None" "check r w = Inl e \<longleftrightarrow> (\<exists>x. r = Some x \<and> e = w x)"
  by (auto simp: check_def split: option.splits)

section \<open>Hexadecimal text\<close>

definition hex_digits :: string where
  "hex_digits = ''0123456789abcdef''"

definition hex_char :: "nat \<Rightarrow> char" where
  "hex_char n = hex_digits ! n"

definition hex_val :: "char \<Rightarrow> nat option" where
  "hex_val c =
     (let n = of_char c :: nat in
      if 48 \<le> n \<and> n \<le> 57 then Some (n - 48)
      else if 97 \<le> n \<and> n \<le> 102 then Some (n - 87)
      else if 65 \<le> n \<and> n \<le> 70 then Some (n - 55)
      else None)"

definition hex_pair :: "byte \<Rightarrow> string" where
  "hex_pair b = [hex_char (unat b div 16), hex_char (unat b mod 16)]"

definition hex_encode :: "bytes \<Rightarrow> string" where
  "hex_encode bs = concat (map hex_pair bs)"

fun hex_decode :: "string \<Rightarrow> bytes option" where
  "hex_decode [] = Some []"
| "hex_decode [a] = None"
| "hex_decode (a # b # cs) =
     (case hex_val a of None \<Rightarrow> None
      | Some h \<Rightarrow> (case hex_val b of None \<Rightarrow> None
         | Some l \<Rightarrow> (case hex_decode cs of None \<Rightarrow> None
            | Some bs \<Rightarrow> Some (of_nat (16 * h + l) # bs))))"

lemma hex_val_digits: "list_all (\<lambda>d. hex_val (hex_char d) = Some d) [0..<16]"
  by code_simp

lemma hex_val_char [simp]: "n < 16 \<Longrightarrow> hex_val (hex_char n) = Some n"
  using hex_val_digits by (simp only: list_all_iff set_upt) simp

lemma unat_byte_lt [simp]: "unat (b::byte) < 256"
  using unsigned_less [of b] by simp

lemma all_bytes:
  assumes "list_all (\<lambda>n. P (word_of_nat n :: byte)) [0..<256]"
  shows "P b"
proof -
  have "b = word_of_nat (unat b)" by simp
  moreover have "unat b \<in> set [0..<256]" by simp
  ultimately show ?thesis using assms by (metis list_all_iff)
qed

lemma hex_decode_encode [simp]: "hex_decode (hex_encode bs) = Some bs"
proof (induction bs)
  case Nil
  then show ?case by (simp add: hex_encode_def)
next
  case (Cons b bs)
  have "unat b div 16 < 16" using unat_byte_lt [of b] by (simp add: less_mult_imp_div_less)
  moreover have "(16::nat) * (unat b div 16) + unat b mod 16 = unat b" by simp
  ultimately show ?case using Cons by (simp add: hex_encode_def hex_pair_def)
qed

lemma length_hex_encode [simp]: "length (hex_encode bs) = 2 * length bs"
  by (induction bs) (simp_all add: hex_encode_def hex_pair_def)

lemma hex_encode_inj: "hex_encode a = hex_encode b \<Longrightarrow> a = b"
  by (metis hex_decode_encode option.inject)

section \<open>Finite maps\<close>

definition map_len :: "('k, 'v) fmap \<Rightarrow> nat" where
  "map_len m = fcard (fmdom m)"

text \<open>\<open>map_entries\<close> lists a map in ascending key order; the loops of the source over a map
  visit each entry once, in an order their results do not depend on.\<close>

definition map_entries :: "('k::linorder, 'v) fmap \<Rightarrow> ('k \<times> 'v) list" where
  "map_entries m = sorted_list_of_fmap m"

lemma submap_same_len:
  assumes sub: "\<And>k v. fmlookup m k = Some v \<Longrightarrow> fmlookup n k = Some v"
    and len: "map_len m = map_len n"
  shows "m = n"
proof -
  have "fmdom m |\<subseteq>| fmdom n"
    using sub by (meson fmdomE fmdomI fsubsetI)
  then have dom: "fmdom m = fmdom n"
    using len by (metis fcard_seteq map_len_def order_refl)
  show ?thesis
  proof (rule fmap_ext)
    fix k
    show "fmlookup m k = fmlookup n k"
      using sub [of k] dom by (cases "fmlookup m k") (metis fmdom_notD fmdom_notI, simp)
  qed
qed

lemma submap_len_iff:
  "(map_len m = map_len n \<and> (\<forall>k v. fmlookup m k = Some v \<longrightarrow> fmlookup n k = Some v)) \<longleftrightarrow> m = n"
  using submap_same_len [of m n] by auto

section \<open>Integers\<close>

lemma le_div_iff_mult:
  fixes a b c :: int
  assumes "0 < b"
  shows "a \<le> c div b \<longleftrightarrow> a * b \<le> c"
proof
  assume "a \<le> c div b"
  then have "a * b \<le> c div b * b" using assms by simp
  also have "\<dots> \<le> c" using assms by (metis div_mult_mod_eq le_add_same_cancel1 pos_mod_sign)
  finally show "a * b \<le> c" .
next
  assume "a * b \<le> c"
  then have "a * b div b \<le> c div b" using assms by (rule zdiv_mono1)
  then show "a \<le> c div b" using assms by simp
qed

lemma div_less_iff_mult: "0 < (b::int) \<Longrightarrow> c div b < a \<longleftrightarrow> c < a * b"
  using le_div_iff_mult [of b a c] by linarith

section \<open>Lists\<close>

lemma update_append_same_length:
  "i < length xs \<Longrightarrow> (xs @ ys)[i := v] = xs[i := v] @ ys"
  by (simp add: list_update_append)

lemma take_drop_join: "take n (drop m xs) @ drop (m + n) xs = drop m xs"
  by (metis add.commute append_take_drop_id drop_drop)

lemma map_list_update [collab_simps]: "map f (xs[i := v]) = (map f xs)[i := f v]"
  by (rule map_update)

lemma sorted_key_list_unique:
  fixes f :: "'a \<Rightarrow> 'k::linorder"
  assumes "sorted (map f xs)" and "sorted (map f ys)" and "distinct (map f xs)"
    and "set xs = set ys" and "distinct (map f ys)"
  shows "xs = ys"
proof -
  have inj: "inj_on f (set xs)" using assms(3) by (simp add: distinct_map)
  have "map f xs = map f ys"
    using assms by (intro sorted_distinct_set_unique) (simp_all add: image_set [symmetric])
  then show ?thesis
    using inj assms(4) by (metis inj_on_map_eq_map sup.idem)
qed

section \<open>Decimal text\<close>

text \<open>\<^verbatim>\<open>strconv\<close> in base 10.\<close>

function decimal :: "nat \<Rightarrow> string" where
  "decimal n = (if n < 10 then [char_of (48 + n)] else decimal (n div 10) @ [char_of (48 + n mod 10)])"
  by pat_completeness auto
termination
  by (relation "measure id") auto

declare decimal.simps [simp del]

definition signed_decimal :: "int \<Rightarrow> string" where
  "signed_decimal i = (if i < 0 then CHR ''-'' # decimal (nat (- i)) else decimal (nat i))"

end
