(* ===== verification/Ids.thy ===== *)
theory Ids
  imports Prelude
begin

text \<open>
  Identifiers of the collaboration model (\<^verbatim>\<open>internal/aphelion/collab/model/ids.go\<close>): version-7
  UUIDs, their textual validation and the process-wide monotone generator. The five Go string
  types for identifiers (document, actor, operation, stable, checkpoint) are all \<^typ>\<open>string\<close>.
  The clock and the random source are arguments of the generator; its state is explicit.
\<close>

type_synonym document_id = string
type_synonym actor_id = string
type_synonym operation_id = string
type_synonym stable_id = string
type_synonym checkpoint_id = string

section \<open>Validation of the text form\<close>

datatype id_error =
    UuidText string          \<comment> \<open>UUID must use canonical 8-4-4-4-12 text\<close>
  | UuidParse string         \<comment> \<open>parse UUID\<close>
  | UuidVersion string byte  \<comment> \<open>UUID version is not 7\<close>
  | UuidVariant string       \<comment> \<open>UUID variant is not RFC 4122\<close>
  | UuidRandom               \<comment> \<open>generate UUIDv7 randomness\<close>

definition uuid_compact :: "string \<Rightarrow> string" where
  "uuid_compact value =
     take 8 value @ take 4 (drop 9 value) @ take 4 (drop 14 value) @
     take 4 (drop 19 value) @ take 12 (drop 24 value)"

definition validateUUIDv7 :: "string \<Rightarrow> string \<Rightarrow> id_error option" where
  "validateUUIDv7 name value =
     (if length value \<noteq> 36 \<or> value ! 8 \<noteq> CHR ''-'' \<or> value ! 13 \<noteq> CHR ''-'' \<or>
         value ! 18 \<noteq> CHR ''-'' \<or> value ! 23 \<noteq> CHR ''-''
      then Some (UuidText name)
      else case hex_decode (uuid_compact value) of
          None \<Rightarrow> Some (UuidParse name)
        | Some decoded \<Rightarrow>
            if drop_bit 4 (decoded ! 6) \<noteq> 7 then Some (UuidVersion name (drop_bit 4 (decoded ! 6)))
            else if decoded ! 8 AND 0xc0 \<noteq> 0x80 then Some (UuidVariant name)
            else None)"

definition DocumentID_Validate :: "document_id \<Rightarrow> id_error option" where
  "DocumentID_Validate i = validateUUIDv7 ''document id'' i"

definition ActorID_Validate :: "actor_id \<Rightarrow> id_error option" where
  "ActorID_Validate i = validateUUIDv7 ''actor id'' i"

definition OperationID_Validate :: "operation_id \<Rightarrow> id_error option" where
  "OperationID_Validate i = validateUUIDv7 ''operation id'' i"

definition StableID_Validate :: "stable_id \<Rightarrow> id_error option" where
  "StableID_Validate i = validateUUIDv7 ''stable id'' i"

definition CheckpointID_Validate :: "checkpoint_id \<Rightarrow> id_error option" where
  "CheckpointID_Validate i = validateUUIDv7 ''checkpoint id'' i"

section \<open>The generator\<close>

text \<open>\<^verbatim>\<open>uuidV7State\<close> under its mutex: whether a value was issued and the last 16 bytes.\<close>

record uuid_state =
  initialized :: bool
  last_uuid :: bytes

definition uuidV7Timestamp :: "bytes \<Rightarrow> u64" where
  "uuidV7Timestamp v =
     push_bit 40 (ucast (v ! 0)) OR push_bit 32 (ucast (v ! 1)) OR push_bit 24 (ucast (v ! 2)) OR
     push_bit 16 (ucast (v ! 3)) OR push_bit 8 (ucast (v ! 4)) OR ucast (v ! 5)"

definition setUUIDv7Timestamp :: "bytes \<Rightarrow> u64 \<Rightarrow> bytes" where
  "setUUIDv7Timestamp v timestamp =
     v[0 := ucast (drop_bit 40 timestamp), 1 := ucast (drop_bit 32 timestamp),
       2 := ucast (drop_bit 24 timestamp), 3 := ucast (drop_bit 16 timestamp),
       4 := ucast (drop_bit 8 timestamp), 5 := ucast timestamp]"

text \<open>The loop of \<^verbatim>\<open>incrementUUIDv7Random\<close> over the indexes 15 down to 9.\<close>

fun increment_tail :: "nat \<Rightarrow> bytes \<Rightarrow> bytes \<times> bool" where
  "increment_tail i v =
     (if i < 9 then (v, False)
      else let v' = v[i := v ! i + 1]
           in if v' ! i \<noteq> 0 then (v', True) else increment_tail (i - 1) v')"

declare increment_tail.simps [simp del]

definition incrementUUIDv7Random :: "bytes \<Rightarrow> bytes \<times> bool" where
  "incrementUUIDv7Random v0 =
     (case increment_tail 15 v0 of
        (v, True) \<Rightarrow> (v, True)
      | (v, False) \<Rightarrow>
          let variantRandom = v ! 8 AND 0x3f in
          if variantRandom \<noteq> 0x3f then (v[8 := 0x80 OR (variantRandom + 1)], True)
          else let v8 = v[8 := 0x80]; v7 = v8[7 := v8 ! 7 + 1] in
            if v7 ! 7 \<noteq> 0 then (v7, True)
            else let versionRandom = v7 ! 6 AND 0x0f in
              if versionRandom \<noteq> 0x0f then (v7[6 := 0x70 OR (versionRandom + 1)], True)
              else (v7, False))"

definition zero_from_6 :: "bytes \<Rightarrow> bytes" where
  "zero_from_6 v = take 6 v @ replicate (length v - 6) 0"

definition uuid_encode :: "bytes \<Rightarrow> string" where
  "uuid_encode value =
     (let compact = hex_encode value in
      take 8 compact @ ''-'' @ take 4 (drop 8 compact) @ ''-'' @ take 4 (drop 12 compact) @ ''-'' @
      take 4 (drop 16 compact) @ ''-'' @ take 12 (drop 20 compact))"

text \<open>
  The value the generator issues next. \<open>rand\<close> is the outcome of \<^verbatim>\<open>rand.Read(value[6:])\<close>: ten
  bytes, or \<^const>\<open>None\<close> when the system source fails.
\<close>

definition next_uuid_value :: "u64 \<Rightarrow> bytes option \<Rightarrow> uuid_state \<Rightarrow> bytes option" where
  "next_uuid_value timestamp rand st =
     (if initialized st \<and> timestamp \<le> uuidV7Timestamp (last_uuid st) then
        (case incrementUUIDv7Random (last_uuid st) of
           (v, True) \<Rightarrow> Some v
         | (v, False) \<Rightarrow>
             Some ((zero_from_6 (setUUIDv7Timestamp v (uuidV7Timestamp (last_uuid st) + 1)))
                     [6 := 0x70, 8 := 0x80]))
      else
        (case rand of
           None \<Rightarrow> None
         | Some r \<Rightarrow>
             let v = setUUIDv7Timestamp (replicate 6 0 @ r) timestamp in
             Some (v[6 := (v ! 6 AND 0x0f) OR 0x70, 8 := (v ! 8 AND 0x3f) OR 0x80])))"

definition newUUIDv7 ::
  "u64 \<Rightarrow> bytes option \<Rightarrow> uuid_state \<Rightarrow> (id_error + string) \<times> uuid_state" where
  "newUUIDv7 timestamp rand st =
     (case next_uuid_value timestamp rand st of
        None \<Rightarrow> (Inl UuidRandom, st)
      | Some value \<Rightarrow> (Inr (uuid_encode value), st\<lparr>last_uuid := value, initialized := True\<rparr>))"

text \<open>A process issuing identifiers: one clock reading and one random outcome per call; failed
  calls issue nothing and leave the state alone.\<close>

fun uuid_run :: "(u64 \<times> bytes option) list \<Rightarrow> uuid_state \<Rightarrow> string list" where
  "uuid_run [] st = []"
| "uuid_run ((timestamp, rand) # calls) st =
     (case newUUIDv7 timestamp rand st of
        (Inl e, st') \<Rightarrow> uuid_run calls st'
      | (Inr s, st') \<Rightarrow> s # uuid_run calls st')"

definition uuid_state0 :: uuid_state where
  "uuid_state0 = \<lparr>initialized = False, last_uuid = replicate 16 0\<rparr>"

section \<open>Well-formed values\<close>

definition uuid_bytes_ok :: "bytes \<Rightarrow> bool" where
  "uuid_bytes_ok v \<longleftrightarrow> length v = 16 \<and> drop_bit 4 (v ! 6) = 7 \<and> v ! 8 AND 0xc0 = 0x80"

definition uuid_state_ok :: "uuid_state \<Rightarrow> bool" where
  "uuid_state_ok st \<longleftrightarrow> (initialized st \<longrightarrow> uuid_bytes_ok (last_uuid st))"

section \<open>Text round trip\<close>

lemma length_uuid_encode [simp]: "length v = 16 \<Longrightarrow> length (uuid_encode v) = 36"
  by (simp add: uuid_encode_def Let_def)

lemma list_32_split:
  assumes "length c = 32"
  shows "take 8 c @ take 4 (drop 8 c) @ take 4 (drop 12 c) @ take 4 (drop 16 c) @ take 12 (drop 20 c) = c"
proof -
  have "take 12 (drop 20 c) = drop 20 c" using assms by simp
  then show ?thesis
    using take_drop_join [of 4 16 c] take_drop_join [of 4 12 c] take_drop_join [of 4 8 c] by simp
qed

lemma uuid_compact_encode [simp]:
  assumes "length v = 16"
  shows "uuid_compact (uuid_encode v) = hex_encode v"
  using assms list_32_split [of "hex_encode v"] by (simp add: uuid_compact_def uuid_encode_def Let_def)

lemma uuid_encode_dashes:
  assumes "length v = 16"
  shows "uuid_encode v ! 8 = CHR ''-''" "uuid_encode v ! 13 = CHR ''-''"
    "uuid_encode v ! 18 = CHR ''-''" "uuid_encode v ! 23 = CHR ''-''"
  using assms by (simp_all add: uuid_encode_def Let_def nth_append)

lemma uuid_encode_inj:
  "length v = 16 \<Longrightarrow> length w = 16 \<Longrightarrow> uuid_encode v = uuid_encode w \<Longrightarrow> v = w"
  by (metis hex_encode_inj uuid_compact_encode)

lemma validate_uuid_encode_iff:
  assumes "length v = 16"
  shows "validateUUIDv7 name (uuid_encode v) = None \<longleftrightarrow> uuid_bytes_ok v"
  using assms by (simp add: validateUUIDv7_def uuid_encode_dashes uuid_bytes_ok_def)

section \<open>Byte facts\<close>

lemma version_byte_ok [simp]: "drop_bit 4 ((b AND 0x0f) OR 0x70 :: byte) = 7"
  by (rule all_bytes [where P = "\<lambda>b. drop_bit 4 ((b AND 0x0f) OR 0x70) = 7"]) code_simp

lemma variant_byte_ok [simp]: "((b AND 0x3f) OR 0x80) AND 0xc0 = (0x80 :: byte)"
  by (rule all_bytes [where P = "\<lambda>b. ((b AND 0x3f) OR 0x80) AND 0xc0 = 0x80"]) code_simp

lemma variant_byte_step:
  fixes b :: byte
  assumes "b AND 0xc0 = 0x80" and "b AND 0x3f \<noteq> 0x3f"
  shows "b < 0x80 OR ((b AND 0x3f) + 1) \<and> (0x80 OR ((b AND 0x3f) + 1)) AND 0xc0 = 0x80"
proof -
  have "b AND 0xc0 = 0x80 \<longrightarrow> b AND 0x3f \<noteq> 0x3f \<longrightarrow>
      b < 0x80 OR ((b AND 0x3f) + 1) \<and> (0x80 OR ((b AND 0x3f) + 1)) AND 0xc0 = 0x80"
    by (rule all_bytes [where P = "\<lambda>b. b AND 0xc0 = 0x80 \<longrightarrow> b AND 0x3f \<noteq> 0x3f \<longrightarrow>
      b < 0x80 OR ((b AND 0x3f) + 1) \<and> (0x80 OR ((b AND 0x3f) + 1)) AND 0xc0 = 0x80"]) code_simp
  with assms show ?thesis by blast
qed

lemma version_byte_step:
  fixes b :: byte
  assumes "drop_bit 4 b = 7" and "b AND 0x0f \<noteq> 0x0f"
  shows "b < 0x70 OR ((b AND 0x0f) + 1) \<and> drop_bit 4 (0x70 OR ((b AND 0x0f) + 1)) = 7"
proof -
  have "drop_bit 4 b = 7 \<longrightarrow> b AND 0x0f \<noteq> 0x0f \<longrightarrow>
      b < 0x70 OR ((b AND 0x0f) + 1) \<and> drop_bit 4 (0x70 OR ((b AND 0x0f) + 1)) = 7"
    by (rule all_bytes [where P = "\<lambda>b. drop_bit 4 b = 7 \<longrightarrow> b AND 0x0f \<noteq> 0x0f \<longrightarrow>
      b < 0x70 OR ((b AND 0x0f) + 1) \<and> drop_bit 4 (0x70 OR ((b AND 0x0f) + 1)) = 7"]) code_simp
  with assms show ?thesis by blast
qed

lemma byte_succ_less: "(b::byte) + 1 \<noteq> 0 \<Longrightarrow> b < b + 1"
  by (metis add.commute lessI unatSuc word_less_nat_alt)

section \<open>The generator is strictly increasing\<close>

lemma lex_less_at:
  fixes xs ys :: bytes
  assumes "length xs = length ys" "i < length xs" "take i xs = take i ys" "xs ! i < ys ! i"
  shows "xs < ys"
  using assms by (auto simp: list_less_def lexord_take_index_conv)

lemma take_less_less:
  fixes xs ys :: bytes
  assumes "take n xs < take n ys" "length xs = length ys"
  shows "xs < ys"
proof -
  have "(take n xs @ drop n xs, take n ys @ drop n ys) \<in> lexord {(u, v). u < v}"
    using assms by (intro lexord_sufI) (simp_all add: list_less_def)
  then show ?thesis by (simp add: list_less_def)
qed

definition bumped_at :: "nat \<Rightarrow> bytes \<Rightarrow> bytes \<Rightarrow> bool" where
  "bumped_at j v w \<longleftrightarrow> j < length v \<and> take j w = take j v \<and> v ! j < w ! j"

lemma bumped_at_less: "bumped_at j v w \<Longrightarrow> length w = length v \<Longrightarrow> v < w"
  by (rule lex_less_at [of _ _ j]) (simp_all add: bumped_at_def)

lemma increment_tail_spec:
  assumes "i < length v"
  shows "case increment_tail i v of (w, ok) \<Rightarrow>
      length w = length v \<and> take 9 w = take 9 v \<and>
      (ok \<longrightarrow> (\<exists>j\<le>i. bumped_at j v w))"
  using assms
proof (induction i v rule: increment_tail.induct)
  case (1 i v)
  let ?v = "v[i := v ! i + 1]"
  show ?case
  proof (cases "i < 9 \<or> ?v ! i \<noteq> 0")
    case True
    then show ?thesis
      using "1.prems"
      by (auto simp: increment_tail.simps [of i v] Let_def byte_succ_less bumped_at_def intro!: exI [of _ i])
  next
    case False
    obtain w ok where w: "increment_tail (i - 1) ?v = (w, ok)" by fastforce
    have eq: "increment_tail i v = (w, ok)"
      using False w by (simp add: increment_tail.simps [of i v] Let_def)
    have IH: "length w = length v" "take 9 w = take 9 v" "ok \<longrightarrow> (\<exists>j\<le>i - 1. bumped_at j ?v w)"
      using "1.IH" [of ?v] False w "1.prems" by auto
    have "bumped_at j v w" if "j \<le> i - 1" "bumped_at j ?v w" for j
      using that False by (auto simp: bumped_at_def)
    then have "ok \<longrightarrow> (\<exists>j\<le>i. bumped_at j v w)" using IH(3) by (meson diff_le_self le_trans)
    then show ?thesis using IH eq by simp
  qed
qed

lemma increment_spec:
  assumes "uuid_bytes_ok v"
  shows "case incrementUUIDv7Random v of (w, ok) \<Rightarrow>
     length w = 16 \<and> take 6 w = take 6 v \<and> (ok \<longrightarrow> uuid_bytes_ok w \<and> v < w)"
proof -
  have v: "length v = 16" "drop_bit 4 (v ! 6) = 7" "v ! 8 AND 0xc0 = 0x80"
    using assms by (simp_all add: uuid_bytes_ok_def)
  obtain u ok where u: "increment_tail 15 v = (u, ok)" by fastforce
  have lu: "length u = 16" and tu: "take 9 u = take 9 v" and bu: "ok \<longrightarrow> v < u"
    using increment_tail_spec [of 15 v] v u bumped_at_less by auto
  have nu: "u ! k = v ! k" if "k < 9" for k
    using tu that by (metis nth_take)
  have pre: "take k u = take k v" if "k \<le> 9" for k
    using tu that by (metis min.absorb2 take_take min.commute)
  show ?thesis
  proof (cases ok)
    case True
    then show ?thesis
      using u bu v lu nu pre by (simp add: incrementUUIDv7Random_def uuid_bytes_ok_def)
  next
    case False
    show ?thesis
    proof (cases "v ! 8 AND 0x3f \<noteq> 0x3f")
      case True
      let ?w = "u[8 := 0x80 OR ((v ! 8 AND 0x3f) + 1)]"
      have "bumped_at 8 v ?w"
        using variant_byte_step [OF v(3) True] lu v pre by (simp add: bumped_at_def)
      then have "v < ?w" using bumped_at_less lu v by simp
      then show ?thesis
        using True False u v lu nu pre variant_byte_step [OF v(3) True]
        by (simp add: incrementUUIDv7Random_def uuid_bytes_ok_def)
    next
      case var: False
      let ?w = "u[8 := 0x80, 7 := v ! 7 + 1]"
      show ?thesis
      proof (cases "v ! 7 + 1 \<noteq> 0")
        case True
        have "bumped_at 7 v ?w"
          using byte_succ_less [OF True] lu v pre by (simp add: bumped_at_def)
        then have "v < ?w" using bumped_at_less lu v by simp
        then show ?thesis
          using True var False u v lu nu pre
          by (simp add: incrementUUIDv7Random_def uuid_bytes_ok_def Let_def)
      next
        case c7: False
        show ?thesis
        proof (cases "v ! 6 AND 0x0f \<noteq> 0x0f")
          case True
          let ?x = "?w[6 := 0x70 OR ((v ! 6 AND 0x0f) + 1)]"
          have "bumped_at 6 v ?x"
            using version_byte_step [OF v(2) True] lu v pre by (simp add: bumped_at_def)
          then have "v < ?x" using bumped_at_less lu v by simp
          then show ?thesis
            using True var c7 False u v lu nu pre version_byte_step [OF v(2) True]
            by (simp add: incrementUUIDv7Random_def uuid_bytes_ok_def Let_def)
        next
          case c6: False
          then show ?thesis
            using var c7 False u v lu nu pre
            by (simp add: incrementUUIDv7Random_def Let_def)
        qed
      qed
    qed
  qed
qed


section \<open>Timestamps\<close>

definition be_val :: "bytes \<Rightarrow> nat" where
  "be_val bs = foldl (\<lambda>acc b. acc * 256 + unat b) 0 bs"

lemma or_nat_shift: "(y::nat) < 2 ^ n \<Longrightarrow> push_bit n x OR y = x * 2 ^ n + y"
proof -
  assume y: "y < 2 ^ n"
  have "bit y m \<Longrightarrow> m < n" for m
    using y by (metis bit_take_bit_iff take_bit_nat_eq_self)
  then have "push_bit n x AND y = 0"
    by (fastforce simp: bit_eq_iff bit_simps dest: leD)
  then have "push_bit n x OR y = push_bit n x + y"
    by (simp add: disjunctive_add_eq_or)
  then show ?thesis by (simp add: push_bit_eq_mult)
qed

lemma unat_byte_shift:
  "k \<le> 56 \<Longrightarrow> unat (push_bit k (ucast (b::byte)) :: u64) = push_bit k (unat b)"
proof -
  assume k: "k \<le> 56"
  have "unat b * 2 ^ k < 256 * 2 ^ k" by simp
  also have "(256::nat) * 2 ^ k = 2 ^ (8 + k)" by (simp add: power_add)
  also have "\<dots> \<le> 2 ^ 64" using k by (intro power_increasing) simp_all
  finally have lt: "push_bit k (unat b) < 2 ^ 64" by (simp add: push_bit_eq_mult)
  have "unat b < 2 ^ 64" using unat_byte_lt [of b] by (rule less_trans) simp
  then show ?thesis
    using lt unfolding unsigned_push_bit_eq unsigned_ucast_eq
    by (simp add: take_bit_nat_eq_self del: push_bit_of_nat)
qed

lemma be_val_6: "length v = 6 \<Longrightarrow> be_val v =
   unat (v ! 0) * 2 ^ 40 + (unat (v ! 1) * 2 ^ 32 + (unat (v ! 2) * 2 ^ 24 +
   (unat (v ! 3) * 2 ^ 16 + (unat (v ! 4) * 2 ^ 8 + unat (v ! 5)))))"
proof -
  assume "length v = 6"
  then obtain a b c d e f where "v = [a, b, c, d, e, f]"
    by (auto simp: length_Suc_conv numeral_eq_Suc)
  then show ?thesis by (simp add: be_val_def)
qed

lemma or6_val:
  fixes a b c d e f :: nat
  assumes "b < 256" "c < 256" "d < 256" "e < 256" "f < 256"
  shows "push_bit 40 a OR (push_bit 32 b OR (push_bit 24 c OR (push_bit 16 d OR (push_bit 8 e OR f))))
    = a * 2 ^ 40 + (b * 2 ^ 32 + (c * 2 ^ 24 + (d * 2 ^ 16 + (e * 2 ^ 8 + f))))"
  using assms by (simp add: or_nat_shift)

lemma uuidV7Timestamp_val:
  assumes "6 \<le> length v"
  shows "unat (uuidV7Timestamp v) = be_val (take 6 v)"
proof -
  have u: "unat (ucast (v ! 5) :: u64) = unat (v ! 5)"
    using unat_byte_shift [of 0 "v ! 5"] by simp
  have "unat (uuidV7Timestamp v) =
    push_bit 40 (unat (v ! 0)) OR (push_bit 32 (unat (v ! 1)) OR (push_bit 24 (unat (v ! 2)) OR
    (push_bit 16 (unat (v ! 3)) OR (push_bit 8 (unat (v ! 4)) OR unat (v ! 5)))))"
    by (simp only: uuidV7Timestamp_def unsigned_or_eq unat_byte_shift u)
  then show ?thesis using assms be_val_6 [of "take 6 v"] or6_val by simp
qed

lemma be_val_step: "foldl (\<lambda>acc b. acc * 256 + unat (b::byte)) a bs = a * 256 ^ length bs + be_val bs"
proof (induction bs arbitrary: a)
  case Nil
  then show ?case by (simp add: be_val_def)
next
  case (Cons b bs)
  have "be_val (b # bs) = unat b * 256 ^ length bs + be_val bs"
    using Cons.IH [of "unat b"] by (simp add: be_val_def)
  moreover have "foldl (\<lambda>acc b. acc * 256 + unat b) a (b # bs) = (a * 256 + unat b) * 256 ^ length bs + be_val bs"
    using Cons.IH [of "a * 256 + unat b"] by simp
  ultimately show ?case by (simp add: algebra_simps)
qed

lemma be_val_Cons: "be_val (b # bs) = unat b * 256 ^ length bs + be_val bs"
  using be_val_step [of "unat b" bs] by (simp add: be_val_def)

lemma be_val_lt: "be_val bs < 256 ^ length bs"
proof (induction bs)
  case Nil
  then show ?case by (simp add: be_val_def)
next
  case (Cons b bs)
  have "(unat b + 1) * 256 ^ length bs \<le> 256 * 256 ^ length bs"
    using unat_byte_lt [of b] by (intro mult_right_mono) linarith+
  then have "unat b * 256 ^ length bs + 256 ^ length bs \<le> 256 * 256 ^ length bs"
    by (simp only: distrib_right mult_1)
  then have "be_val (b # bs) < 256 * 256 ^ length bs"
    using Cons.IH unfolding be_val_Cons by linarith
  then show ?case by simp
qed

lemma be_val_less_lex:
  "length xs = length ys \<Longrightarrow> be_val xs < be_val ys \<Longrightarrow> xs < ys"
proof (induction xs ys rule: list_induct2)
  case Nil
  then show ?case by simp
next
  case (Cons x xs y ys)
  show ?case
  proof (cases "unat x = unat y")
    case True
    then have "x = y" by (simp add: word_unat_eq_iff)
    with Cons show ?thesis by (simp add: be_val_Cons)
  next
    case False
    have "unat x < unat y"
    proof (rule ccontr)
      assume "\<not> unat x < unat y"
      with False have "unat y + 1 \<le> unat x" by simp
      then have "(unat y + 1) * 256 ^ length xs \<le> unat x * 256 ^ length xs"
        by (intro mult_right_mono) simp_all
      then show False
        using Cons.prems Cons.hyps be_val_lt [of ys] by (simp add: be_val_Cons algebra_simps)
    qed
    then show ?thesis by (simp add: word_less_nat_alt)
  qed
qed

lemma set_timestamp_bytes:
  assumes "6 \<le> length v"
  shows "take 6 (setUUIDv7Timestamp v ts) =
     [ucast (drop_bit 40 ts), ucast (drop_bit 32 ts), ucast (drop_bit 24 ts),
      ucast (drop_bit 16 ts), ucast (drop_bit 8 ts), ucast ts]"
    and "length (setUUIDv7Timestamp v ts) = length v"
    and "drop 6 (setUUIDv7Timestamp v ts) = drop 6 v"
proof -
  obtain a b c d e f w where "v = a # b # c # d # e # f # w"
    using assms by (auto simp: Suc_le_length_iff numeral_eq_Suc)
  then show "take 6 (setUUIDv7Timestamp v ts) =
     [ucast (drop_bit 40 ts), ucast (drop_bit 32 ts), ucast (drop_bit 24 ts),
      ucast (drop_bit 16 ts), ucast (drop_bit 8 ts), ucast ts]"
    and "length (setUUIDv7Timestamp v ts) = length v"
    and "drop 6 (setUUIDv7Timestamp v ts) = drop 6 v"
    by (simp_all add: setUUIDv7Timestamp_def)
qed

lemma unat_ucast_drop: "unat (ucast (drop_bit k (ts::u64)) :: byte) = unat ts div 2 ^ k mod 256"
  using unsigned_less [of ts, where ?'a = nat] unfolding unsigned_ucast_eq unsigned_drop_bit_eq
  by (simp add: take_bit_eq_mod drop_bit_eq_div)

lemma digits6:
  fixes n :: nat
  assumes "n = q1 * 256 + r0" "q1 = q2 * 256 + r1" "q2 = q3 * 256 + r2" "q3 = q4 * 256 + r3"
    "q4 = q5 * 256 + r4"
  shows "q5 * 2 ^ 40 + (r4 * 2 ^ 32 + (r3 * 2 ^ 24 + (r2 * 2 ^ 16 + (r1 * 2 ^ 8 + r0)))) = n"
  using assms by simp

lemma set_timestamp_val:
  assumes "6 \<le> length v" and "unat ts < 2 ^ 48"
  shows "be_val (take 6 (setUUIDv7Timestamp v ts)) = unat ts"
proof -
  have d: "n div 1099511627776 mod 256 * 2 ^ 40 + (n div 4294967296 mod 256 * 2 ^ 32 +
      (n div 16777216 mod 256 * 2 ^ 24 + (n div 65536 mod 256 * 2 ^ 16 + (n div 256 mod 256 * 2 ^ 8 + n mod 256)))) = n"
    if "n < 2 ^ 48" for n :: nat
  proof -
    have q: "n div 65536 = n div 256 div 256" "n div 16777216 = n div 65536 div 256"
      "n div 4294967296 = n div 16777216 div 256" "n div 1099511627776 = n div 4294967296 div 256"
      by (simp_all add: div_mult2_eq [symmetric])
    have "n div 1099511627776 mod 256 = n div 1099511627776" using that by simp
    then show ?thesis
      using digits6 [of n "n div 256" "n mod 256" "n div 65536" "n div 256 mod 256" "n div 16777216"
          "n div 65536 mod 256" "n div 4294967296" "n div 16777216 mod 256" "n div 1099511627776"
          "n div 4294967296 mod 256"]
      unfolding q by (simp only: div_mult_mod_eq)
  qed
  have "unat (ucast ts :: byte) = unat ts mod 256" using unat_ucast_drop [of 0 ts] by simp
  then show ?thesis
    using assms d [of "unat ts"]
    by (simp add: set_timestamp_bytes be_val_6 unat_ucast_drop)
qed


lemma unat_succ: "unat (t::u64) + 1 < 2 ^ 48 \<Longrightarrow> unat (t + 1) = unat t + 1"
  by (simp add: unat_word_ariths)

text \<open>The three ways the generator finds its next value: the random part of the last value
  counted up, the clock field of the last value counted up, or a fresh value. Each is a
  well-formed version-7 UUID.\<close>

definition rand_ok :: "bytes option \<Rightarrow> bool" where
  "rand_ok rand \<longleftrightarrow> (case rand of None \<Rightarrow> True | Some r \<Rightarrow> length r = 10)"

lemma next_uuid_value_cases:
  assumes "uuid_state_ok st" and "rand_ok rand"
    and "next_uuid_value timestamp rand st = Some v"
  obtains
    (random) "initialized st" "uuid_bytes_ok v" "take 6 v = take 6 (last_uuid st)" "last_uuid st < v"
  | (clock) w where "initialized st" "uuid_bytes_ok v" "length w = 16"
      "take 6 v = take 6 (setUUIDv7Timestamp w (uuidV7Timestamp (last_uuid st) + 1))"
  | (fresh) w where "initialized st \<Longrightarrow> uuidV7Timestamp (last_uuid st) < timestamp" "uuid_bytes_ok v"
      "length w = 16" "take 6 v = take 6 (setUUIDv7Timestamp w timestamp)"
proof (cases "initialized st \<and> timestamp \<le> uuidV7Timestamp (last_uuid st)")
  case True
  then have ok: "uuid_bytes_ok (last_uuid st)" using assms(1) by (simp add: uuid_state_ok_def)
  obtain w b where w: "incrementUUIDv7Random (last_uuid st) = (w, b)" by fastforce
  have ws: "length w = 16" "take 6 w = take 6 (last_uuid st)" "b \<longrightarrow> uuid_bytes_ok w \<and> last_uuid st < w"
    using increment_spec [OF ok] w by auto
  show thesis
  proof (cases b)
    case True
    then have "v = w" using \<open>initialized st \<and> _\<close> w assms(3) by (simp add: next_uuid_value_def)
    then show thesis using \<open>initialized st \<and> _\<close> ws True random by blast
  next
    case False
    let ?s = "setUUIDv7Timestamp w (uuidV7Timestamp (last_uuid st) + 1)"
    have v: "v = (zero_from_6 ?s)[6 := 0x70, 8 := 0x80]"
      using False \<open>initialized st \<and> _\<close> w assms(3) by (simp add: next_uuid_value_def)
    then have "take 6 v = take 6 ?s" "uuid_bytes_ok v"
      using ws by (simp_all add: zero_from_6_def set_timestamp_bytes uuid_bytes_ok_def)
    then show thesis using clock \<open>initialized st \<and> _\<close> ws by blast
  qed
next
  case False
  then obtain r where r: "rand = Some r" "length r = 10"
    using assms(2,3) by (auto simp: next_uuid_value_def rand_ok_def split: option.splits)
  let ?s = "setUUIDv7Timestamp (replicate 6 0 @ r) timestamp"
  have "v = ?s[6 := (?s ! 6 AND 0x0f) OR 0x70, 8 := (?s ! 8 AND 0x3f) OR 0x80]"
    using assms(3) False r(1) by (auto simp: next_uuid_value_def Let_def)
  then have "take 6 v = take 6 ?s" "uuid_bytes_ok v"
    using r(2) by (simp_all add: set_timestamp_bytes uuid_bytes_ok_def)
  then show thesis using fresh [of "replicate 6 0 @ r"] False r(2) by auto
qed

text \<open>While the 48-bit clock field does not overflow, each value is lexicographically larger
  than the one before, also when the clock stands still or runs backwards.\<close>

lemma later_timestamp_less:
  assumes "uuid_bytes_ok l" "uuid_bytes_ok v" "length w = 16"
    and "take 6 v = take 6 (setUUIDv7Timestamp w ts)"
    and "unat (uuidV7Timestamp l) < unat ts" "unat ts < 2 ^ 48"
  shows "l < v" and "unat (uuidV7Timestamp v) = unat ts"
proof -
  have len: "length l = 16" "length v = 16" using assms(1,2) by (simp_all add: uuid_bytes_ok_def)
  show ts: "unat (uuidV7Timestamp v) = unat ts"
    using len assms(3,4,6) uuidV7Timestamp_val [of v] set_timestamp_val [of w ts] by simp
  then have "be_val (take 6 l) < be_val (take 6 v)"
    using assms(5) uuidV7Timestamp_val [of l] uuidV7Timestamp_val [of v] len by simp
  then have "take 6 l < take 6 v" using len by (intro be_val_less_lex) simp_all
  then show "l < v" using len take_less_less [of 6 l v] by simp
qed

lemma next_uuid_value_step:
  assumes "uuid_state_ok st" and "rand_ok rand"
    and "next_uuid_value timestamp rand st = Some v" and "unat timestamp + n < 2 ^ 48"
    and "initialized st \<Longrightarrow> unat (uuidV7Timestamp (last_uuid st)) + 1 + n < 2 ^ 48"
  shows "uuid_bytes_ok v" and "initialized st \<Longrightarrow> last_uuid st < v"
    and "unat (uuidV7Timestamp v) + n < 2 ^ 48"
proof -
  let ?t = "uuidV7Timestamp (last_uuid st)"
  have lok: "initialized st \<Longrightarrow> uuid_bytes_ok (last_uuid st)"
    using assms(1) by (simp add: uuid_state_ok_def)
  have "uuid_bytes_ok v \<and> (initialized st \<longrightarrow> last_uuid st < v) \<and> unat (uuidV7Timestamp v) + n < 2 ^ 48"
  proof (cases rule: next_uuid_value_cases [OF assms(1) assms(2) assms(3), case_names random clock fresh])
    case random
    then have "unat (uuidV7Timestamp v) = unat ?t"
      using lok by (simp add: uuidV7Timestamp_val uuid_bytes_ok_def)
    then show ?thesis using random assms(5) by simp
  next
    case (clock w)
    have "unat (?t + 1) = unat ?t + 1" using clock(1) assms(5) by (intro unat_succ) simp
    then show ?thesis
      using clock later_timestamp_less [OF lok [OF clock(1)] clock(2,3,4)] assms(5) by simp
  next
    case (fresh w)
    have "unat (uuidV7Timestamp v) = unat timestamp"
      using fresh assms(4) by (simp add: uuidV7Timestamp_val set_timestamp_val uuid_bytes_ok_def)
    moreover have "initialized st \<Longrightarrow> last_uuid st < v"
      using fresh assms(4) later_timestamp_less(1) [OF lok fresh(2,3,4)] by (simp add: word_less_nat_alt)
    ultimately show ?thesis using fresh(2) assms(4) by simp
  qed
  then show "uuid_bytes_ok v" and "initialized st \<Longrightarrow> last_uuid st < v"
    and "unat (uuidV7Timestamp v) + n < 2 ^ 48" by blast+
qed

definition uuid_call_ok :: "nat \<Rightarrow> u64 \<times> bytes option \<Rightarrow> bool" where
  "uuid_call_ok n call \<longleftrightarrow> unat (fst call) + n < 2 ^ 48 \<and> rand_ok (snd call)"

lemma uuid_run_above:
  assumes "uuid_state_ok st" "list_all (uuid_call_ok (length calls)) calls"
    and "initialized st \<Longrightarrow> unat (uuidV7Timestamp (last_uuid st)) + length calls < 2 ^ 48"
  shows "\<exists>vs. uuid_run calls st = map uuid_encode vs \<and> list_all uuid_bytes_ok vs \<and>
    sorted_wrt (<) vs \<and> (initialized st \<longrightarrow> list_all (\<lambda>v. last_uuid st < v) vs)"
  using assms
proof (induction calls arbitrary: st)
  case Nil
  then show ?case by simp
next
  case (Cons call calls)
  obtain t r where call: "call = (t, r)" by fastforce
  have rl: "rand_ok r" and tb: "unat t + Suc (length calls) < 2 ^ 48"
    and rest: "list_all (uuid_call_ok (length calls)) calls"
    using Cons.prems(2) call by (auto simp: uuid_call_ok_def list_all_iff)
  show ?case
  proof (cases "next_uuid_value t r st")
    case None
    then have "uuid_run (call # calls) st = uuid_run calls st" by (simp add: call newUUIDv7_def)
    moreover have "initialized st \<Longrightarrow> unat (uuidV7Timestamp (last_uuid st)) + length calls < 2 ^ 48"
      using Cons.prems(3) by fastforce
    ultimately show ?thesis using Cons.IH [OF Cons.prems(1) rest] by simp
  next
    case (Some v)
    let ?st = "st\<lparr>last_uuid := v, initialized := True\<rparr>"
    have v: "uuid_bytes_ok v" "initialized st \<Longrightarrow> last_uuid st < v"
      "unat (uuidV7Timestamp v) + length calls < 2 ^ 48"
      using next_uuid_value_step [OF Cons.prems(1) rl Some, of "length calls"] tb Cons.prems(3)
      by (auto simp del: One_nat_def)
    have run: "uuid_run (call # calls) st = uuid_encode v # uuid_run calls ?st"
      using Some by (simp add: call newUUIDv7_def)
    obtain vs where vs: "uuid_run calls ?st = map uuid_encode vs" "list_all uuid_bytes_ok vs"
        "sorted_wrt (<) vs" "list_all (\<lambda>w. v < w) vs"
      using Cons.IH [of ?st, OF _ rest] v by (auto simp: uuid_state_ok_def)
    show ?thesis
      using run vs v by (intro exI [of _ "v # vs"]) (auto simp: list_all_iff intro: less_trans)
  qed
qed

text \<open>C17: within one process, for as long as the clock field stays below its 48 bits, the
  generator never issues the same identifier twice, even when the clock stands still or runs
  backwards, and everything it issues passes the validation applied to identifiers on the wire.\<close>

theorem uuid_run_distinct_valid:
  assumes "list_all (uuid_call_ok (length calls)) calls"
  shows "distinct (uuid_run calls uuid_state0) \<and>
    list_all (\<lambda>s. validateUUIDv7 name s = None) (uuid_run calls uuid_state0)"
proof -
  obtain vs where vs: "uuid_run calls uuid_state0 = map uuid_encode vs" "list_all uuid_bytes_ok vs"
      "sorted_wrt (<) vs"
    using uuid_run_above [of uuid_state0 calls] assms by (auto simp: uuid_state_ok_def uuid_state0_def)
  have "distinct vs" using vs(3) by (induction vs) auto
  moreover have len: "length v = 16" if "v \<in> set vs" for v
    using that vs(2) by (simp add: list_all_iff uuid_bytes_ok_def)
  ultimately show ?thesis
    using vs by (auto simp: distinct_map list_all_iff validate_uuid_encode_iff inj_on_def
        dest: uuid_encode_inj)
qed

theorem uuid_run_distinct_valid_witness:
  "distinct (uuid_run [(5, Some [1,2,3,4,5,6,7,8,9,10]), (4, None), (5, None)] uuid_state0) \<and>
   list_all (\<lambda>s. validateUUIDv7 ''document id'' s = None)
     (uuid_run [(5, Some [1,2,3,4,5,6,7,8,9,10]), (4, None), (5, None)] uuid_state0)"
  by (rule uuid_run_distinct_valid) (simp add: uuid_call_ok_def rand_ok_def)

end
