(* ===== verification/State.thy ===== *)
theory State
  imports Ids
begin

text \<open>
  The values of the collaboration model (\<^verbatim>\<open>internal/aphelion/collab/model\<close>): coordinates, prefab
  and tile states, snapshots and operations (\<^verbatim>\<open>state.go\<close>, \<^verbatim>\<open>operation.go\<close>), their limits
  (\<^verbatim>\<open>limits.go\<close>), comparison and detached copies (\<^verbatim>\<open>clone.go\<close>, \<^verbatim>\<open>operation_identity.go\<close>) and the
  validation of snapshots (\<^verbatim>\<open>hash.go\<close>).

  Revisions are 64-bit words and wrap around as \<^verbatim>\<open>uint64\<close> does. Coordinates and dimensions are
  Go \<^verbatim>\<open>int\<close>s; the code does arithmetic on them only after the bounds checks below, so no
  overflow can occur and they are \<^typ>\<open>int\<close>. A nil prefab slice or variable map is \<^const>\<open>None\<close>.
\<close>

section \<open>Coordinates\<close>

datatype coord = Coord (cX: int) (cY: int) (cZ: int)

definition coordLess :: "coord \<Rightarrow> coord \<Rightarrow> bool" where
  "coordLess left right =
     (if cZ left \<noteq> cZ right then cZ left < cZ right
      else if cY left \<noteq> cY right then cY left < cY right
      else cX left < cX right)"

text \<open>The canonical (z, y, x) order is the order of the type, so the library's sorting applies.\<close>

instantiation coord :: linorder
begin

definition less_coord :: "coord \<Rightarrow> coord \<Rightarrow> bool" where
  "less_coord a b = coordLess a b"

definition less_eq_coord :: "coord \<Rightarrow> coord \<Rightarrow> bool" where
  "less_eq_coord a b \<longleftrightarrow> a = b \<or> coordLess a b"

instance
  by standard (auto simp: less_coord_def less_eq_coord_def coordLess_def coord.expand
      intro: coord.expand split: if_splits)

end

section \<open>Tiles, snapshots and operations\<close>

type_synonym revision = u64

record prefab_state =
  prefab_id :: stable_id
  prefab_path :: string
  prefab_vars :: "(string, string) fmap option"

record tile_state =
  prefabs :: "prefab_state list option"

record tile =
  tile_coord :: coord
  tile_st :: tile_state

record snapshot =
  protocol_version :: u16
  schema_version :: u16
  snap_document :: document_id
  snap_revision :: revision
  environment_hash :: string
  max_x :: int
  max_y :: int
  max_z :: int
  tiles :: "tile list"

datatype operation_kind = TileChangeKind | InverseKind | OtherKind string

record tile_change =
  ch_coord :: coord
  before :: tile_state
  after :: tile_state

record operation =
  op_protocol :: u16
  op_document :: document_id
  op_actor :: actor_id
  op_id :: operation_id
  base_revision :: revision
  op_environment :: string
  base_map_hash :: string
  op_kind :: operation_kind
  changes :: "tile_change list"
  inverse_of :: "operation_id option"

record accepted_operation =
  acc_op :: operation
  acc_revision :: revision
  accepted_at :: int

definition ProtocolVersion :: u16 where "ProtocolVersion = 2"
definition SchemaVersion :: u16 where "SchemaVersion = 1"

definition empty_tile :: tile_state where
  "empty_tile = \<lparr>prefabs = None\<rparr>"

definition prefab_list :: "tile_state \<Rightarrow> prefab_state list" where
  "prefab_list s = (case prefabs s of None \<Rightarrow> [] | Some ps \<Rightarrow> ps)"

definition vars_of :: "prefab_state \<Rightarrow> (string, string) fmap" where
  "vars_of p = (case prefab_vars p of None \<Rightarrow> fmempty | Some m \<Rightarrow> m)"

definition tile_ids :: "tile_state \<Rightarrow> stable_id list" where
  "tile_ids s = map prefab_id (prefab_list s)"

section \<open>Errors of the model package\<close>

datatype model_error =
    UnsupportedProtocolError u16
  | SchemaVersionError u16
  | IdError id_error
  | Sha256Error string
  | DimensionsError
  | CellCountError
  | OutsideDimensions coord
  | DuplicateCoordinate coord
  | DuplicateStableID stable_id

section \<open>Limits\<close>

definition MaxMapDimension :: int where "MaxMapDimension = 4096"
definition MaxMapCells :: int where "MaxMapCells = 16777216"

definition CellCount :: "snapshot \<Rightarrow> model_error + int" where
  "CellCount s =
     (if max_x s \<le> 0 \<or> max_y s \<le> 0 \<or> max_z s \<le> 0 then Inl DimensionsError
      else if max_x s > MaxMapDimension \<or> max_y s > MaxMapDimension \<or> max_z s > MaxMapDimension
      then Inl DimensionsError
      else if max_x s > MaxMapCells div max_y s then Inl CellCountError
      else let xy = max_x s * max_y s in
        if xy > MaxMapCells div max_z s then Inl CellCountError
        else Inr (xy * max_z s))"

definition Contains :: "snapshot \<Rightarrow> coord \<Rightarrow> bool" where
  "Contains s c \<longleftrightarrow> cX c \<ge> 1 \<and> cX c \<le> max_x s \<and> cY c \<ge> 1 \<and> cY c \<le> max_y s \<and>
     cZ c \<ge> 1 \<and> cZ c \<le> max_z s"

section \<open>Comparison and copies\<close>

definition prefab_equal :: "prefab_state \<Rightarrow> prefab_state \<Rightarrow> bool" where
  "prefab_equal p q \<longleftrightarrow>
     prefab_id p = prefab_id q \<and> prefab_path p = prefab_path q \<and>
     map_len (vars_of p) = map_len (vars_of q) \<and>
     list_all (\<lambda>(name, value). fmlookup (vars_of q) name = Some value) (map_entries (vars_of p))"

definition TileState_Equal :: "tile_state \<Rightarrow> tile_state \<Rightarrow> bool" where
  "TileState_Equal s t \<longleftrightarrow>
     length (prefab_list s) = length (prefab_list t) \<and>
     list_all (\<lambda>(p, q). prefab_equal p q) (zip (prefab_list s) (prefab_list t))"

definition ClonePrefab :: "prefab_state \<Rightarrow> prefab_state" where
  "ClonePrefab p =
     \<lparr>prefab_id = prefab_id p, prefab_path = prefab_path p,
      prefab_vars = (case prefab_vars p of None \<Rightarrow> None
                     | Some m \<Rightarrow> Some (fmap_of_list (map_entries m)))\<rparr>"

definition CloneTileState :: "tile_state \<Rightarrow> tile_state" where
  "CloneTileState s =
     (case prefabs s of None \<Rightarrow> \<lparr>prefabs = None\<rparr>
      | Some ps \<Rightarrow> \<lparr>prefabs = Some (map ClonePrefab ps)\<rparr>)"

definition CloneSnapshot :: "snapshot \<Rightarrow> snapshot" where
  "CloneSnapshot s =
     s\<lparr>tiles := map (\<lambda>t. \<lparr>tile_coord = tile_coord t, tile_st = CloneTileState (tile_st t)\<rparr>) (tiles s)\<rparr>"

definition CloneChange :: "tile_change \<Rightarrow> tile_change" where
  "CloneChange c =
     \<lparr>ch_coord = ch_coord c, before = CloneTileState (before c), after = CloneTileState (after c)\<rparr>"

definition CloneOperation :: "operation \<Rightarrow> operation" where
  "CloneOperation op = op\<lparr>changes := map CloneChange (changes op)\<rparr>"

definition CloneAcceptedOperation :: "accepted_operation \<Rightarrow> accepted_operation" where
  "CloneAcceptedOperation a =
     \<lparr>acc_op = CloneOperation (acc_op a), acc_revision = acc_revision a, accepted_at = accepted_at a\<rparr>"

definition sort_changes :: "tile_change list \<Rightarrow> tile_change list" where
  "sort_changes cs = sort_key ch_coord cs"

definition same_change :: "tile_change \<Rightarrow> tile_change \<Rightarrow> bool" where
  "same_change c d \<longleftrightarrow> ch_coord c = ch_coord d \<and> TileState_Equal (before c) (before d) \<and>
     TileState_Equal (after c) (after d)"

definition SameOperation :: "operation \<Rightarrow> operation \<Rightarrow> bool" where
  "SameOperation left right =
     (if left\<lparr>changes := []\<rparr> \<noteq> right\<lparr>changes := []\<rparr> \<or> length (changes left) \<noteq> length (changes right)
      then False
      else list_all (\<lambda>(c, d). same_change c d)
             (zip (sort_changes (changes left)) (sort_changes (changes right))))"

section \<open>Validation of snapshots\<close>

definition ValidateSHA256 :: "string \<Rightarrow> string \<Rightarrow> model_error option" where
  "ValidateSHA256 name value =
     (if length value \<noteq> 64 then Some (Sha256Error name)
      else case hex_decode value of
          None \<Rightarrow> Some (Sha256Error name)
        | Some decoded \<Rightarrow> if hex_encode decoded \<noteq> value then Some (Sha256Error name) else None)"

fun validate_prefabs :: "prefab_state list \<Rightarrow> stable_id set \<Rightarrow> model_error + stable_id set" where
  "validate_prefabs [] ids = Inr ids"
| "validate_prefabs (p # ps) ids =
     (case StableID_Validate (prefab_id p) of
        Some e \<Rightarrow> Inl (IdError e)
      | None \<Rightarrow>
          if prefab_id p \<in> ids then Inl (DuplicateStableID (prefab_id p))
          else validate_prefabs ps (insert (prefab_id p) ids))"

fun validate_tiles :: "snapshot \<Rightarrow> tile list \<Rightarrow> coord set \<Rightarrow> stable_id set \<Rightarrow> model_error option" where
  "validate_tiles s [] coords ids = None"
| "validate_tiles s (t # ts) coords ids =
     (if \<not> Contains s (tile_coord t) then Some (OutsideDimensions (tile_coord t))
      else if tile_coord t \<in> coords then Some (DuplicateCoordinate (tile_coord t))
      else case validate_prefabs (prefab_list (tile_st t)) ids of
          Inl e \<Rightarrow> Some e
        | Inr ids' \<Rightarrow> validate_tiles s ts (insert (tile_coord t) coords) ids')"

definition Snapshot_Validate :: "snapshot \<Rightarrow> model_error option" where
  "Snapshot_Validate s =
     (if protocol_version s \<noteq> ProtocolVersion then Some (UnsupportedProtocolError (protocol_version s))
      else if schema_version s \<noteq> SchemaVersion then Some (SchemaVersionError (schema_version s))
      else case DocumentID_Validate (snap_document s) of
          Some e \<Rightarrow> Some (IdError e)
        | None \<Rightarrow>
      (case ValidateSHA256 ''environment hash'' (environment_hash s) of
          Some e \<Rightarrow> Some e
        | None \<Rightarrow>
      (case CellCount s of
          Inl e \<Rightarrow> Some e
        | Inr _ \<Rightarrow> validate_tiles s (tiles s) {} {})))"

section \<open>Views: what the code can observe of a value\<close>

type_synonym prefab_view = "stable_id \<times> string \<times> (string, string) fmap"
type_synonym tile_view = "prefab_view list"

definition prefab_view :: "prefab_state \<Rightarrow> prefab_view" where
  "prefab_view p = (prefab_id p, prefab_path p, vars_of p)"

definition tile_view :: "tile_state \<Rightarrow> tile_view" where
  "tile_view s = map prefab_view (prefab_list s)"

definition change_view :: "tile_change \<Rightarrow> coord \<times> tile_view \<times> tile_view" where
  "change_view c = (ch_coord c, tile_view (before c), tile_view (after c))"

lemma tile_view_empty [simp]: "tile_view empty_tile = []"
  by (simp add: tile_view_def prefab_list_def empty_tile_def)

lemma tile_ids_view: "tile_ids s = map fst (tile_view s)"
  by (simp add: tile_ids_def tile_view_def prefab_view_def comp_def)

lemma prefab_equal_view: "prefab_equal p q \<longleftrightarrow> prefab_view p = prefab_view q"
proof -
  have "list_all (\<lambda>(name, value). fmlookup (vars_of q) name = Some value) (map_entries (vars_of p)) \<longleftrightarrow>
      (\<forall>k v. fmlookup (vars_of p) k = Some v \<longrightarrow> fmlookup (vars_of q) k = Some v)"
    by (simp add: map_entries_def fmpred_iff)
  then have "prefab_equal p q \<longleftrightarrow> prefab_id p = prefab_id q \<and> prefab_path p = prefab_path q \<and>
      map_len (vars_of p) = map_len (vars_of q) \<and>
      (\<forall>k v. fmlookup (vars_of p) k = Some v \<longrightarrow> fmlookup (vars_of q) k = Some v)"
    by (simp only: prefab_equal_def)
  also have "\<dots> \<longleftrightarrow> prefab_id p = prefab_id q \<and> prefab_path p = prefab_path q \<and> vars_of p = vars_of q"
    by (simp only: submap_len_iff)
  finally show ?thesis by (simp add: prefab_view_def)
qed

lemma TileState_Equal_view [view_simps]: "TileState_Equal s t \<longleftrightarrow> tile_view s = tile_view t"
  by (auto simp: TileState_Equal_def tile_view_def prefab_equal_view list_all_length
      list_eq_iff_nth_eq)

lemma same_change_view: "same_change c d \<longleftrightarrow> change_view c = change_view d"
  by (auto simp: same_change_def change_view_def TileState_Equal_view)

section \<open>Copies keep every value\<close>

lemma fmap_of_map_entries [simp]: "fmap_of_list (map_entries m) = m"
  by (rule fmap_ext) (simp add: map_entries_def fmlookup_of_list)

lemma ClonePrefab_id [simp]: "ClonePrefab p = p"
  by (cases p) (simp add: ClonePrefab_def split: option.splits)

lemma CloneTileState_id [simp]: "CloneTileState s = s"
  by (cases s) (auto simp: CloneTileState_def map_idI split: option.splits)

lemma CloneSnapshot_id [simp]: "CloneSnapshot s = s"
  by (cases s) (simp add: CloneSnapshot_def map_idI)

lemma CloneChange_id [simp]: "CloneChange c = c"
  by (cases c) (simp add: CloneChange_def)

lemma CloneOperation_id [simp]: "CloneOperation op = op"
  by (cases op) (simp add: CloneOperation_def map_idI)

lemma CloneAcceptedOperation_id [simp]: "CloneAcceptedOperation a = a"
  by (cases a) (simp add: CloneAcceptedOperation_def)

section \<open>Limits\<close>

definition dims_ok :: "snapshot \<Rightarrow> bool" where
  "dims_ok s \<longleftrightarrow> 1 \<le> max_x s \<and> max_x s \<le> 4096 \<and> 1 \<le> max_y s \<and> max_y s \<le> 4096 \<and>
     1 \<le> max_z s \<and> max_z s \<le> 4096 \<and> max_x s * max_y s * max_z s \<le> 16777216"

lemma CellCount_Inr_iff: "CellCount s = Inr n \<longleftrightarrow> dims_ok s \<and> n = max_x s * max_y s * max_z s"
proof -
  have "max_x s * max_y s \<le> 16777216" if "dims_ok s"
  proof -
    have "max_x s * max_y s * 1 \<le> max_x s * max_y s * max_z s"
      using that by (intro mult_left_mono) (simp_all add: dims_ok_def)
    then show ?thesis using that unfolding dims_ok_def by linarith
  qed
  then show ?thesis
    by (auto simp: CellCount_def Let_def dims_ok_def MaxMapDimension_def MaxMapCells_def
        div_less_iff_mult not_less split: if_splits)
qed

lemma ValidateSHA256_encode:
  "length d = 32 \<Longrightarrow> ValidateSHA256 name (hex_encode d) = None"
  by (simp add: ValidateSHA256_def)

lemma ValidateSHA256_None_iff:
  "ValidateSHA256 name h = None \<longleftrightarrow> (\<exists>d. length d = 32 \<and> h = hex_encode d)"
proof
  assume ok: "ValidateSHA256 name h = None"
  then obtain d where d: "hex_decode h = Some d" and h: "hex_encode d = h" "length h = 64"
    by (auto simp: ValidateSHA256_def split: option.splits if_splits)
  have "2 * length d = 64" using h length_hex_encode [of d] by simp
  then show "\<exists>d. length d = 32 \<and> h = hex_encode d" using h by auto
qed (auto simp: ValidateSHA256_encode)

section \<open>What snapshot validation establishes\<close>

definition snapshot_ids :: "snapshot \<Rightarrow> stable_id list" where
  "snapshot_ids s = concat (map (tile_ids \<circ> tile_st) (tiles s))"

definition header_ok :: "snapshot \<Rightarrow> bool" where
  "header_ok s \<longleftrightarrow> protocol_version s = ProtocolVersion \<and> schema_version s = SchemaVersion \<and>
     DocumentID_Validate (snap_document s) = None \<and>
     ValidateSHA256 ''environment hash'' (environment_hash s) = None \<and> dims_ok s"

definition snapshot_ok :: "snapshot \<Rightarrow> bool" where
  "snapshot_ok s \<longleftrightarrow> header_ok s \<and> distinct (map tile_coord (tiles s)) \<and>
     (\<forall>t\<in>set (tiles s). Contains s (tile_coord t)) \<and>
     distinct (snapshot_ids s) \<and> (\<forall>i\<in>set (snapshot_ids s). StableID_Validate i = None)"

lemma validate_prefabs_iff:
  "validate_prefabs ps ids = Inr ids' \<longleftrightarrow>
     (\<forall>p\<in>set ps. StableID_Validate (prefab_id p) = None) \<and> distinct (map prefab_id ps) \<and>
     set (map prefab_id ps) \<inter> ids = {} \<and> ids' = ids \<union> set (map prefab_id ps)"
  by (induction ps arbitrary: ids) (auto split: option.splits)

lemma validate_tile_prefabs_iff:
  "validate_prefabs (prefab_list st) ids = Inr ids' \<longleftrightarrow>
     (\<forall>i\<in>set (tile_ids st). StableID_Validate i = None) \<and> distinct (tile_ids st) \<and>
     set (tile_ids st) \<inter> ids = {} \<and> ids' = ids \<union> set (tile_ids st)"
  by (simp add: validate_prefabs_iff tile_ids_def)

lemma validate_tiles_iff:
  "validate_tiles s ts coords ids = None \<longleftrightarrow>
     (\<forall>t\<in>set ts. Contains s (tile_coord t)) \<and> distinct (map tile_coord ts) \<and>
     set (map tile_coord ts) \<inter> coords = {} \<and>
     distinct (concat (map (tile_ids \<circ> tile_st) ts)) \<and>
     set (concat (map (tile_ids \<circ> tile_st) ts)) \<inter> ids = {} \<and>
     (\<forall>i\<in>set (concat (map (tile_ids \<circ> tile_st) ts)). StableID_Validate i = None)"
proof (induction ts arbitrary: coords ids)
  case Nil
  then show ?case by simp
next
  case (Cons t ts)
  define R where "R = concat (map (tile_ids \<circ> tile_st) ts)"
  define A where "A = tile_ids (tile_st t)"
  have split: "concat (map (tile_ids \<circ> tile_st) (t # ts)) = A @ R" by (simp add: A_def R_def)
  show ?case
  proof (cases "validate_prefabs (prefab_list (tile_st t)) ids")
    case (Inl e)
    then have "\<not> ((\<forall>i\<in>set A. StableID_Validate i = None) \<and> distinct A \<and> set A \<inter> ids = {})"
      using validate_tile_prefabs_iff [of "tile_st t" ids "ids \<union> set A"] by (auto simp: A_def)
    then show ?thesis
      using Inl unfolding split by auto
  next
    case (Inr ids')
    then have A: "\<forall>i\<in>set A. StableID_Validate i = None" "distinct A" "set A \<inter> ids = {}"
        and ids': "ids' = ids \<union> set A"
      unfolding validate_tile_prefabs_iff A_def by simp_all
    have "validate_tiles s (t # ts) coords ids = None \<longleftrightarrow> Contains s (tile_coord t) \<and>
        tile_coord t \<notin> coords \<and> validate_tiles s ts (insert (tile_coord t) coords) (ids \<union> set A) = None"
      using Inr ids' by simp
    then show ?thesis
      unfolding split Cons.IH R_def [symmetric] using A by auto
  qed
qed

theorem Snapshot_Validate_iff: "Snapshot_Validate s = None \<longleftrightarrow> snapshot_ok s"
proof (cases "CellCount s")
  case (Inl e)
  then have "\<not> dims_ok s" using CellCount_Inr_iff [of s "max_x s * max_y s * max_z s"] by simp
  then show ?thesis
    using Inl by (simp add: Snapshot_Validate_def snapshot_ok_def header_ok_def split: option.splits)
next
  case (Inr n)
  then have "dims_ok s" by (simp add: CellCount_Inr_iff)
  then show ?thesis
    using Inr validate_tiles_iff [of s "tiles s" "{}" "{}"]
    by (simp add: Snapshot_Validate_def snapshot_ok_def header_ok_def snapshot_ids_def
        split: option.splits) blast
qed

section \<open>Same submitted intent\<close>

lemma sorted_sort_changes [simp]: "sorted (map ch_coord (sort_changes cs))"
  by (simp add: sort_changes_def)

lemma set_sort_changes [simp]: "set (sort_changes cs) = set cs"
  by (simp add: sort_changes_def)

lemma length_sort_changes [simp]: "length (sort_changes cs) = length cs"
  by (simp add: sort_changes_def)

lemma distinct_sort_changes [simp]: "distinct (map ch_coord (sort_changes cs)) = distinct (map ch_coord cs)"
  by (simp add: distinct_map sort_changes_def)

lemma list_all2_views: "length cs = length ds \<Longrightarrow>
  list_all (\<lambda>(c, d). same_change c d) (zip cs ds) \<longleftrightarrow> map change_view cs = map change_view ds"
  by (auto simp: same_change_view list_all_length list_eq_iff_nth_eq)

lemma SameOperation_views:
  "SameOperation a b \<longleftrightarrow> a\<lparr>changes := []\<rparr> = b\<lparr>changes := []\<rparr> \<and>
     map change_view (sort_changes (changes a)) = map change_view (sort_changes (changes b))"
proof (cases "length (changes a) = length (changes b)")
  case True
  then show ?thesis by (simp add: SameOperation_def list_all2_views)
next
  case False
  then have "map change_view (sort_changes (changes a)) \<noteq> map change_view (sort_changes (changes b))"
    by (metis length_map length_sort_changes)
  then show ?thesis using False by (simp add: SameOperation_def)
qed

lemma sorted_views: "sorted (map fst (map change_view (sort_changes cs)))"
  using sorted_sort_changes [of cs] by (simp add: change_view_def comp_def)

lemma sort_changes_views_eq:
  assumes "distinct (map ch_coord cs)" "distinct (map ch_coord ds)"
    and "change_view ` set cs = change_view ` set ds"
  shows "map change_view (sort_changes cs) = map change_view (sort_changes ds)"
proof (rule sorted_key_list_unique [of fst])
  have d: "distinct (map fst (map change_view (sort_changes xs)))" if "distinct (map ch_coord xs)" for xs
    using that by (simp add: change_view_def comp_def)
  show "distinct (map fst (map change_view (sort_changes cs)))"
    and "distinct (map fst (map change_view (sort_changes ds)))" using d assms by blast+
  show "set (map change_view (sort_changes cs)) = set (map change_view (sort_changes ds))"
    using assms(3) by simp
qed (simp_all only: sorted_views)

text \<open>C18: two operations are the same submitted intent exactly when every header field agrees and
  they make the same changes, whatever order the changes were listed in and whichever empty
  collections are nil; a duplicate coordinate on either side is never mistaken for intent that
  names each tile once.\<close>

theorem SameOperation_iff:
  assumes "distinct (map ch_coord (changes a))"
  shows "SameOperation a b \<longleftrightarrow>
    a\<lparr>changes := []\<rparr> = b\<lparr>changes := []\<rparr> \<and> distinct (map ch_coord (changes b)) \<and>
    change_view ` set (changes a) = change_view ` set (changes b)"
proof
  assume same: "SameOperation a b"
  let ?A = "sort_changes (changes a)" and ?B = "sort_changes (changes b)"
  have v: "map change_view ?A = map change_view ?B" using same by (simp add: SameOperation_views)
  then have "map fst (map change_view ?A) = map fst (map change_view ?B)" by simp
  then have "map ch_coord ?A = map ch_coord ?B" by (simp add: change_view_def comp_def)
  then have "distinct (map ch_coord ?B)" using assms distinct_sort_changes [of "changes a"] by simp
  then have "distinct (map ch_coord (changes b))" by simp
  moreover have "change_view ` set (changes a) = change_view ` set (changes b)"
    using arg_cong [OF v, of set] by simp
  moreover have "a\<lparr>changes := []\<rparr> = b\<lparr>changes := []\<rparr>" using same unfolding SameOperation_views ..
  ultimately show "a\<lparr>changes := []\<rparr> = b\<lparr>changes := []\<rparr> \<and> distinct (map ch_coord (changes b)) \<and>
    change_view ` set (changes a) = change_view ` set (changes b)" by blast
next
  assume "a\<lparr>changes := []\<rparr> = b\<lparr>changes := []\<rparr> \<and> distinct (map ch_coord (changes b)) \<and>
    change_view ` set (changes a) = change_view ` set (changes b)"
  then show "SameOperation a b"
    using assms sort_changes_views_eq unfolding SameOperation_views by blast
qed

end
