(* ===== verification/Canonical_Hash.thy ===== *)
theory Canonical_Hash
  imports State
begin

text \<open>
  The protocol-v2 canonical map hash (\<^verbatim>\<open>hash.go\<close>, \<^verbatim>\<open>canonical_hasher.go\<close>): the buffered
  encoder, tile, row and map digests, the full hash and the incremental \<^verbatim>\<open>Update\<close>. SHA-256 is
  the argument \<open>H\<close> of every definition, a function from the bytes written to the digest bytes;
  where the development needs more it assumes that a digest has 32 bytes.
\<close>

section \<open>The canonical encoder\<close>

text \<open>The encoder's state: the bytes already handed to the digest and the used part of its
  2048-byte scratch array.\<close>

record encoder =
  written :: bytes
  pending :: bytes

definition buffer_size :: nat where "buffer_size = 2048"

definition new_encoder :: encoder where
  "new_encoder = \<lparr>written = [], pending = []\<rparr>"

definition be64 :: "u64 \<Rightarrow> bytes" where
  "be64 w = map (\<lambda>k. ucast (drop_bit k w)) [56, 48, 40, 32, 24, 16, 8, 0]"

definition flush :: "encoder \<Rightarrow> encoder" where
  "flush e = (if length (pending e) \<noteq> 0 then e\<lparr>written := written e @ pending e, pending := []\<rparr> else e)"

definition writeUint64 :: "encoder \<Rightarrow> u64 \<Rightarrow> encoder" where
  "writeUint64 e value =
     (let e' = (if buffer_size - length (pending e) < 8 then flush e else e)
      in e'\<lparr>pending := pending e' @ be64 value\<rparr>)"

text \<open>The copy loop of \<^verbatim>\<open>writeString\<close>: it fills the array, flushes it when it is full (the used
  part never exceeds the array) and goes on with the rest of the value.\<close>

function write_bytes :: "encoder \<Rightarrow> bytes \<Rightarrow> encoder" where
  "write_bytes e value =
     (if length value = 0 then e
      else let copied = min (buffer_size - length (pending e)) (length value);
               e' = e\<lparr>pending := pending e @ take copied value\<rparr>;
               e'' = (if length (pending e') \<ge> buffer_size then flush e' else e')
           in write_bytes e'' (drop copied value))"
  by pat_completeness auto
termination
  by (relation "measure (\<lambda>(e, v). 2 * length v + (if length (pending e) \<ge> buffer_size then 1 else 0))")
    (auto simp: flush_def Let_def buffer_size_def min_def split: if_splits)

declare write_bytes.simps [simp del]

definition string_bytes :: "string \<Rightarrow> bytes" where
  "string_bytes s = map of_char s"

definition writeString :: "encoder \<Rightarrow> string \<Rightarrow> encoder" where
  "writeString e value = write_bytes (writeUint64 e (of_nat (length value))) (string_bytes value)"

definition writeDigest :: "encoder \<Rightarrow> bytes \<Rightarrow> encoder" where
  "writeDigest e value =
     (let e' = (if buffer_size - length (pending e) < length value then flush e else e)
      in e'\<lparr>pending := pending e' @ take (buffer_size - length (pending e')) value\<rparr>)"

definition digest_sum :: "digest_fun \<Rightarrow> encoder \<Rightarrow> bytes" where
  "digest_sum H e = H (written (flush e))"

section \<open>Tile digests\<close>

definition canonicalTileDomain :: string where "canonicalTileDomain = ''apheliondmm.tile.v2''"
definition canonicalRowDomain :: string where "canonicalRowDomain = ''apheliondmm.row.v2''"
definition canonicalMapDomain :: string where "canonicalMapDomain = ''apheliondmm.map.v2''"

definition write_prefab :: "encoder \<Rightarrow> prefab_state \<Rightarrow> encoder" where
  "write_prefab e prefab =
     (let e1 = writeString e (prefab_id prefab);
          e2 = writeString e1 (prefab_path prefab);
          entries = map_entries (vars_of prefab);
          e3 = writeUint64 e2 (of_nat (length entries))
      in foldl (\<lambda>e (key, value). writeString (writeString e key) value) e3 entries)"

definition tile_digest :: "digest_fun \<Rightarrow> tile \<Rightarrow> bytes" where
  "tile_digest H t =
     (let e1 = writeString new_encoder canonicalTileDomain;
          e2 = writeUint64 e1 (of_int (cX (tile_coord t)));
          e3 = writeUint64 e2 (of_int (cY (tile_coord t)));
          e4 = writeUint64 e3 (of_int (cZ (tile_coord t)));
          e5 = writeUint64 e4 (of_nat (length (prefab_list (tile_st t))))
      in digest_sum H (foldl write_prefab e5 (prefab_list (tile_st t))))"

definition parallelTileThreshold :: nat where "parallelTileThreshold = 4096"

text \<open>\<^verbatim>\<open>tileDigests\<close> with \<open>procs\<close> usable processors. Each goroutine fills its own range of the
  result, so the ranges joined in order are the result whatever the interleaving.\<close>

function digest_chunks :: "digest_fun \<Rightarrow> nat \<Rightarrow> tile list \<Rightarrow> bytes list" where
  "digest_chunks H chunk ts =
     (if ts = [] \<or> chunk = 0 then []
      else map (tile_digest H) (take chunk ts) @ digest_chunks H chunk (drop chunk ts))"
  by pat_completeness auto
termination
  by (relation "measure (\<lambda>(H, c, ts). length ts)") auto

declare digest_chunks.simps [simp del]

definition tileDigests :: "digest_fun \<Rightarrow> nat \<Rightarrow> tile list \<Rightarrow> bytes list" where
  "tileDigests H procs ts =
     (let workers = min procs (length ts div parallelTileThreshold + 1) in
      if workers \<le> 1 then map (tile_digest H) ts
      else digest_chunks H ((length ts + workers - 1) div workers) ts)"

section \<open>Rows and the full hash\<close>

type_synonym row_key = "int \<times> int"

record hash_row =
  row_key :: row_key
  row_xs :: "int list"
  row_tiles :: "bytes list"
  row_digest :: bytes

record hasher =
  h_max_x :: int
  h_max_y :: int
  h_max_z :: int
  h_tiles :: int
  h_rows :: "hash_row list"
  h_positions :: "row_key \<rightharpoonup> nat"
  h_digest :: string

definition coord_row :: "coord \<Rightarrow> row_key" where
  "coord_row c = (cZ c, cY c)"

definition rowDigest :: "digest_fun \<Rightarrow> row_key \<Rightarrow> bytes list \<Rightarrow> bytes" where
  "rowDigest H key ds =
     (let e1 = writeString new_encoder canonicalRowDomain;
          e2 = writeUint64 e1 (of_int (fst key));
          e3 = writeUint64 e2 (of_int (snd key));
          e4 = writeUint64 e3 (of_nat (length ds))
      in digest_sum H (foldl writeDigest e4 ds))"

definition mapDigest :: "digest_fun \<Rightarrow> hasher \<Rightarrow> string" where
  "mapDigest H h =
     (let e1 = writeString new_encoder canonicalMapDomain;
          e2 = writeUint64 e1 (of_int (h_max_x h));
          e3 = writeUint64 e2 (of_int (h_max_y h));
          e4 = writeUint64 e3 (of_int (h_max_z h));
          e5 = writeUint64 e4 (of_int (h_tiles h));
          e6 = writeUint64 e5 (of_nat (length (h_rows h)));
          e7 = foldl (\<lambda>e row. writeDigest (writeUint64 (writeUint64 e (of_int (fst (row_key row))))
                 (of_int (snd (row_key row)))) (row_digest row)) e6 (h_rows h)
      in hex_encode (digest_sum H e7))"

fun position_map :: "nat \<Rightarrow> hash_row list \<Rightarrow> (row_key \<rightharpoonup> nat) \<Rightarrow> (row_key \<rightharpoonup> nat)" where
  "position_map i [] m = m"
| "position_map i (row # rows) m = position_map (Suc i) rows (m(row_key row \<mapsto> i))"

definition rowPositions :: "hash_row list \<Rightarrow> (row_key \<rightharpoonup> nat)" where
  "rowPositions rows = position_map 0 rows Map.empty"

definition canonicalTiles :: "snapshot \<Rightarrow> tile list" where
  "canonicalTiles s = sort_key tile_coord (tiles s)"

definition make_row :: "digest_fun \<Rightarrow> row_key \<Rightarrow> int list \<Rightarrow> bytes list \<Rightarrow> hash_row" where
  "make_row H key xs ds = \<lparr>row_key = key, row_xs = xs, row_tiles = ds, row_digest = rowDigest H key ds\<rparr>"

text \<open>The outer loop of \<^verbatim>\<open>newCanonicalHasher\<close> over tiles paired with their digests: the longest
  run of one (z, y) key becomes a row.\<close>

function group_rows :: "digest_fun \<Rightarrow> (coord \<times> bytes) list \<Rightarrow> hash_row list" where
  "group_rows H [] = []"
| "group_rows H (cd # cds) =
     (let key = coord_row (fst cd);
          run = takeWhile (\<lambda>(c, d). coord_row c = key) (cd # cds)
      in make_row H key (map (cX \<circ> fst) run) (map snd run) #
         group_rows H (dropWhile (\<lambda>(c, d). coord_row c = key) (cd # cds)))"
  by pat_completeness auto
termination
  by (relation "measure (\<lambda>(H, cds). length cds)")
    (auto simp: case_prod_beta intro: le_imp_less_Suc length_dropWhile_le)

declare group_rows.simps [simp del]

definition newCanonicalHasher :: "digest_fun \<Rightarrow> nat \<Rightarrow> snapshot \<Rightarrow> hasher" where
  "newCanonicalHasher H procs s =
     (let ts = canonicalTiles s;
          ds = tileDigests H procs ts;
          rows = group_rows H (zip (map tile_coord ts) ds);
          h = \<lparr>h_max_x = max_x s, h_max_y = max_y s, h_max_z = max_z s, h_tiles = int (length ts),
               h_rows = rows, h_positions = rowPositions rows, h_digest = []\<rparr>
      in h\<lparr>h_digest := mapDigest H h\<rparr>)"

definition NewCanonicalHasher :: "digest_fun \<Rightarrow> nat \<Rightarrow> snapshot \<Rightarrow> model_error + hasher" where
  "NewCanonicalHasher H procs s =
     (case Snapshot_Validate s of Some e \<Rightarrow> Inl e | None \<Rightarrow> Inr (newCanonicalHasher H procs s))"

definition Hasher_Digest :: "hasher option \<Rightarrow> string" where
  "Hasher_Digest h = (case h of None \<Rightarrow> [] | Some h' \<Rightarrow> h_digest h')"

definition Snapshot_Hash :: "digest_fun \<Rightarrow> nat \<Rightarrow> snapshot \<Rightarrow> model_error + string" where
  "Snapshot_Hash H procs s =
     (case Snapshot_Validate s of Some e \<Rightarrow> Inl e | None \<Rightarrow> Inr (h_digest (newCanonicalHasher H procs s)))"

section \<open>The incremental update\<close>

text \<open>\<open>byRow\<close> groups the changed coordinates by row, each once. The source then ranges over that
  Go map; the model visits the rows in the order their keys were added.\<close>

fun add_to_row :: "coord \<Rightarrow> (row_key \<times> coord list) list \<Rightarrow> (row_key \<times> coord list) list" where
  "add_to_row c [] = [(coord_row c, [c])]"
| "add_to_row c ((key, cs) # rest) =
     (if key = coord_row c then (key, if c \<in> set cs then cs else cs @ [c]) # rest
      else (key, cs) # add_to_row c rest)"

definition by_row :: "coord list \<Rightarrow> (row_key \<times> coord list) list" where
  "by_row changed = foldl (\<lambda>m c. add_to_row c m) [] changed"

text \<open>\<^verbatim>\<open>slices.BinarySearch\<close> on an ascending slice: the first position whose element is not
  smaller, and whether that element is the target.\<close>

definition search_pos :: "int list \<Rightarrow> int \<Rightarrow> nat" where
  "search_pos xs x = length (takeWhile (\<lambda>v. v < x) xs)"

definition search_found :: "int list \<Rightarrow> int \<Rightarrow> bool" where
  "search_found xs x \<longleftrightarrow> search_pos xs x < length xs \<and> xs ! search_pos xs x = x"

definition insert_at :: "nat \<Rightarrow> 'a \<Rightarrow> 'a list \<Rightarrow> 'a list" where
  "insert_at i x xs = take i xs @ x # drop i xs"

definition delete_at :: "nat \<Rightarrow> 'a list \<Rightarrow> 'a list" where
  "delete_at i xs = take i xs @ drop (Suc i) xs"

definition index_mismatch :: "snapshot \<Rightarrow> coord \<Rightarrow> nat \<Rightarrow> bool" where
  "index_mismatch s c i \<longleftrightarrow> i \<ge> length (tiles s) \<or> tile_coord (tiles s ! i) \<noteq> c"

text \<open>The inner loop over the changed coordinates of one row; \<^const>\<open>None\<close> when an index does not
  describe the snapshot and the source falls back to the full hash.\<close>

fun update_row ::
  "digest_fun \<Rightarrow> snapshot \<Rightarrow> (coord \<rightharpoonup> nat) \<Rightarrow> coord list \<Rightarrow> int list \<Rightarrow> bytes list \<Rightarrow> int \<Rightarrow>
     (int list \<times> bytes list \<times> int) option" where
  "update_row H s indexes [] xs ds n = Some (xs, ds, n)"
| "update_row H s indexes (c # cs) xs ds n =
     (let at = search_pos xs (cX c); present = search_found xs (cX c) in
      case indexes c of
        Some i \<Rightarrow>
          if index_mismatch s c i then None
          else if present then
            update_row H s indexes cs xs (ds[at := tile_digest H (tiles s ! i)]) n
          else
            update_row H s indexes cs (insert_at at (cX c) xs)
              (insert_at at (tile_digest H (tiles s ! i)) ds) (n + 1)
      | None \<Rightarrow>
          if present then update_row H s indexes cs (delete_at at xs) (delete_at at ds) (n - 1)
          else update_row H s indexes cs xs ds n)"

text \<open>The loop over the rows. A removed row stays as a nil slot until the rows are compacted.\<close>

fun update_rows ::
  "digest_fun \<Rightarrow> snapshot \<Rightarrow> (coord \<rightharpoonup> nat) \<Rightarrow> hasher \<Rightarrow> (row_key \<times> coord list) list \<Rightarrow>
     hash_row option list \<Rightarrow> int \<Rightarrow> bool \<Rightarrow> (hash_row option list \<times> int \<times> bool) option" where
  "update_rows H s indexes h [] slots n reshaped = Some (slots, n, reshaped)"
| "update_rows H s indexes h ((key, cs) # rest) slots n reshaped =
     (let old = (case h_positions h key of None \<Rightarrow> None | Some p \<Rightarrow> Some (h_rows h ! p)) in
      case update_row H s indexes cs (case old of None \<Rightarrow> [] | Some r \<Rightarrow> row_xs r)
             (case old of None \<Rightarrow> [] | Some r \<Rightarrow> row_tiles r) n of
        None \<Rightarrow> None
      | Some (xs, ds, n') \<Rightarrow>
          (case h_positions h key of
             Some p \<Rightarrow>
               if xs = [] then update_rows H s indexes h rest (slots[p := None]) n' True
               else update_rows H s indexes h rest (slots[p := Some (make_row H key xs ds)]) n' reshaped
           | None \<Rightarrow>
               if xs = [] then update_rows H s indexes h rest slots n' reshaped
               else update_rows H s indexes h rest (slots @ [Some (make_row H key xs ds)]) n' True))"

definition rows_of_slots :: "hash_row option list \<Rightarrow> hash_row list" where
  "rows_of_slots slots = map the (filter (\<lambda>slot. slot \<noteq> None) slots)"

definition Hasher_Update_some ::
  "digest_fun \<Rightarrow> nat \<Rightarrow> hasher \<Rightarrow> snapshot \<Rightarrow> (coord \<rightharpoonup> nat) \<Rightarrow> coord list \<Rightarrow> hasher" where
  "Hasher_Update_some H procs h s indexes changed =
     (if max_x s \<noteq> h_max_x h \<or> max_y s \<noteq> h_max_y h \<or> max_z s \<noteq> h_max_z h
      then newCanonicalHasher H procs s
      else case update_rows H s indexes h (by_row changed) (map Some (h_rows h)) (h_tiles h) False of
          None \<Rightarrow> newCanonicalHasher H procs s
        | Some (slots, n, reshaped) \<Rightarrow>
            if n \<noteq> int (length (tiles s)) then newCanonicalHasher H procs s
            else let rows = rows_of_slots slots;
                     h' = (if reshaped
                           then let rows' = sort_key row_key rows in
                             h\<lparr>h_tiles := n, h_rows := rows', h_positions := rowPositions rows'\<rparr>
                           else h\<lparr>h_tiles := n, h_rows := rows\<rparr>)
                 in h'\<lparr>h_digest := mapDigest H h'\<rparr>)"

definition Hasher_Update ::
  "digest_fun \<Rightarrow> nat \<Rightarrow> hasher option \<Rightarrow> snapshot \<Rightarrow> (coord \<rightharpoonup> nat) \<Rightarrow> coord list \<Rightarrow>
     model_error + hasher \<times> string" where
  "Hasher_Update H procs h s indexes changed =
     (case h of
        None \<Rightarrow> (case NewCanonicalHasher H procs s of Inl e \<Rightarrow> Inl e | Inr n \<Rightarrow> Inr (n, h_digest n))
      | Some h' \<Rightarrow> let n = Hasher_Update_some H procs h' s indexes changed in Inr (n, h_digest n))"

section \<open>Buffering is transparent\<close>

definition enc_all :: "encoder \<Rightarrow> bytes" where
  "enc_all e = written e @ pending e"

definition enc_ok :: "encoder \<Rightarrow> bool" where
  "enc_ok e \<longleftrightarrow> length (pending e) \<le> buffer_size"

lemma length_be64 [simp]: "length (be64 w) = 8"
  by (simp add: be64_def)

lemma enc_flush [simp]: "enc_all (flush e) = enc_all e" "enc_ok (flush e) \<longleftrightarrow> enc_ok e \<or> pending e \<noteq> []"
  "written (flush e) = enc_all e" "pending (flush e) = []"
  by (auto simp: enc_all_def flush_def enc_ok_def)

lemma enc_new [simp]: "enc_all new_encoder = []" "enc_ok new_encoder"
  by (simp_all add: enc_all_def new_encoder_def enc_ok_def)

lemma enc_writeUint64 [simp]:
  assumes "enc_ok e"
  shows "enc_all (writeUint64 e v) = enc_all e @ be64 v" "enc_ok (writeUint64 e v)"
  using assms by (auto simp: writeUint64_def enc_all_def enc_ok_def flush_def Let_def buffer_size_def)

lemma enc_write_bytes:
  "enc_ok e \<Longrightarrow> enc_all (write_bytes e v) = enc_all e @ v \<and> enc_ok (write_bytes e v)"
proof (induction e v rule: write_bytes.induct)
  case (1 e v)
  show ?case
  proof (cases "length v = 0")
    case True
    then show ?thesis using 1 by (simp add: write_bytes.simps [of e "[]"])
  next
    case False
    define k where "k = min (buffer_size - length (pending e)) (length v)"
    define e' where "e' = e\<lparr>pending := pending e @ take k v\<rparr>"
    define e'' where "e'' = (if length (pending e') \<ge> buffer_size then flush e' else e')"
    have "enc_all e'' = enc_all e @ take k v" by (simp add: e''_def e'_def enc_all_def flush_def)
    moreover have "enc_ok e''" using 1(2) by (auto simp: e''_def e'_def enc_ok_def flush_def k_def)
    moreover have "write_bytes e v = write_bytes e'' (drop k v)"
      using False unfolding write_bytes.simps [of e v] Let_def k_def e'_def e''_def by simp
    moreover have "enc_all (write_bytes e'' (drop k v)) = enc_all e'' @ drop k v \<and>
        enc_ok (write_bytes e'' (drop k v))"
      using "1.IH" [OF False k_def e'_def e''_def] \<open>enc_ok e''\<close> by blast
    ultimately show ?thesis by simp
  qed
qed

lemma length_string_bytes [simp]: "length (string_bytes s) = length s"
  by (simp add: string_bytes_def)

definition str_enc :: "string \<Rightarrow> bytes" where
  "str_enc s = be64 (of_nat (length s)) @ string_bytes s"

lemma enc_writeString [simp]:
  assumes "enc_ok e"
  shows "enc_all (writeString e v) = enc_all e @ str_enc v" "enc_ok (writeString e v)"
  using assms by (simp_all add: writeString_def enc_write_bytes str_enc_def)

lemma enc_writeDigest [simp]:
  assumes "enc_ok e" "length d = 32"
  shows "enc_all (writeDigest e d) = enc_all e @ d" "enc_ok (writeDigest e d)"
  using assms by (auto simp: writeDigest_def enc_all_def enc_ok_def flush_def Let_def buffer_size_def)

lemma digest_sum_enc [simp]: "digest_sum H e = H (enc_all e)"
  by (simp add: digest_sum_def)

lemma enc_foldl:
  assumes "\<And>e x. enc_ok e \<Longrightarrow> x \<in> set xs \<Longrightarrow> enc_all (f e x) = enc_all e @ g x \<and> enc_ok (f e x)"
  shows "enc_ok e \<Longrightarrow> enc_all (foldl f e xs) = enc_all e @ concat (map g xs) \<and> enc_ok (foldl f e xs)"
  using assms by (induction xs arbitrary: e) auto

text \<open>The canonical bytes the encoder hashes.\<close>

definition entry_enc :: "string \<times> string \<Rightarrow> bytes" where
  "entry_enc kv = str_enc (fst kv) @ str_enc (snd kv)"

definition prefab_enc :: "prefab_view \<Rightarrow> bytes" where
  "prefab_enc v = (case v of (i, path, vars) \<Rightarrow>
     str_enc i @ str_enc path @ be64 (of_nat (length (map_entries vars))) @
     concat (map entry_enc (map_entries vars)))"

definition tile_enc :: "coord \<Rightarrow> tile_view \<Rightarrow> bytes" where
  "tile_enc c v = str_enc canonicalTileDomain @ be64 (of_int (cX c)) @ be64 (of_int (cY c)) @
     be64 (of_int (cZ c)) @ be64 (of_nat (length v)) @ concat (map prefab_enc v)"

lemma enc_write_prefab:
  assumes "enc_ok e"
  shows "enc_all (write_prefab e p) = enc_all e @ prefab_enc (prefab_view p) \<and> enc_ok (write_prefab e p)"
proof -
  let ?e = "writeUint64 (writeString (writeString e (prefab_id p)) (prefab_path p))
    (of_nat (length (map_entries (vars_of p))))"
  have "enc_all (foldl (\<lambda>e (k, v). writeString (writeString e k) v) ?e (map_entries (vars_of p))) =
      enc_all ?e @ concat (map entry_enc (map_entries (vars_of p))) \<and>
      enc_ok (foldl (\<lambda>e (k, v). writeString (writeString e k) v) ?e (map_entries (vars_of p)))"
    using assms by (intro enc_foldl) (auto simp: entry_enc_def)
  then show ?thesis
    using assms by (simp add: write_prefab_def prefab_enc_def prefab_view_def Let_def)
qed

lemma tile_digest_enc: "tile_digest H t = H (tile_enc (tile_coord t) (tile_view (tile_st t)))"
proof -
  have "enc_all (foldl write_prefab e ps) = enc_all e @ concat (map (prefab_enc \<circ> prefab_view) ps)"
    if "enc_ok e" for e ps
    using enc_foldl [of ps write_prefab "prefab_enc \<circ> prefab_view" e] enc_write_prefab that by simp
  then show ?thesis by (simp add: tile_digest_def Let_def tile_enc_def tile_view_def)
qed

lemma tile_digest_view:
  "tile_coord t = tile_coord u \<Longrightarrow> tile_view (tile_st t) = tile_view (tile_st u) \<Longrightarrow>
     tile_digest H t = tile_digest H u"
  by (simp add: tile_digest_enc)

lemma digest_chunks_map: "chunk > 0 \<Longrightarrow> digest_chunks H chunk ts = map (tile_digest H) ts"
proof (induction H chunk ts rule: digest_chunks.induct)
  case (1 H chunk ts)
  then show ?case
    by (cases "ts = []") (auto simp: digest_chunks.simps [of H chunk ts] digest_chunks.simps [of H chunk "[]"]
        map_append [symmetric] simp del: map_append)
qed

lemma tileDigests_map [simp]: "tileDigests H procs ts = map (tile_digest H) ts"
proof -
  have "0 < (length ts + w - 1) div w" if "ts \<noteq> []" "1 < w" for w
    using that by (cases ts) (auto simp: div_greater_zero_iff)
  moreover have "\<not> min procs (length ts div parallelTileThreshold + 1) \<le> 1 \<Longrightarrow> ts \<noteq> []"
    by auto
  ultimately show ?thesis
    by (auto simp: tileDigests_def Let_def digest_chunks_map not_le)
qed

section \<open>The canonical bytes are unambiguous\<close>

lemma be64_inj: "be64 w = be64 w' \<Longrightarrow> w = w'"
proof -
  assume eq: "be64 w = be64 w'"
  have parts: "(ucast (drop_bit k w) :: byte) = ucast (drop_bit k w')"
    if "k \<in> {56, 48, 40, 32, 24, 16, 8, 0}" for k
    using eq that by (auto simp: be64_def)
  show "w = w'"
  proof (rule bit_word_eqI)
    fix n assume n: "n < LENGTH(64)"
    let ?k = "8 * (n div 8)"
    have "n div 8 < 8" using n by simp
    then have "n div 8 \<in> {0, 1, 2, 3, 4, 5, 6, 7}" by auto
    then have k: "?k \<in> {56, 48, 40, 32, 24, 16, 8, 0}" by auto
    have "bit (ucast (drop_bit ?k w) :: byte) (n mod 8) = bit (ucast (drop_bit ?k w') :: byte) (n mod 8)"
      using parts [OF k] by simp
    then show "bit w n = bit w' n"
      using n by (simp add: bit_simps)
  qed
qed

lemma be64_append_inj: "be64 w @ r = be64 w' @ r' \<Longrightarrow> w = w' \<and> r = r'"
  by (auto dest: be64_inj simp: append_eq_append_conv)

lemma of_nat_u64_inj: "(of_nat m :: u64) = of_nat n \<Longrightarrow> m < 2 ^ 64 \<Longrightarrow> n < 2 ^ 64 \<Longrightarrow> m = n"
  by (drule arg_cong [of _ _ unat]) (simp add: unsigned_of_nat take_bit_nat_eq_self)

lemma unat_of_char: "unat (of_char c :: byte) = of_char c"
proof -
  have "unat (of_nat (of_char c) :: byte) = take_bit 8 (of_char c :: nat)"
    by (simp only: unsigned_of_nat) simp
  then show ?thesis by (simp add: take_bit_eq_mod of_nat_of_char)
qed

lemma of_char_byte_inj: "(of_char x :: byte) = of_char y \<Longrightarrow> x = y"
  using unat_of_char [of x] unat_of_char [of y] char_of_char [of x] char_of_char [of y] by metis

lemma string_bytes_inj: "string_bytes s = string_bytes t \<Longrightarrow> s = t"
  unfolding string_bytes_def by (erule map_inj_on) (auto intro!: inj_onI dest: of_char_byte_inj)

lemma str_enc_append_inj:
  assumes "str_enc s @ r = str_enc t @ q" "length s < 2 ^ 64" "length t < 2 ^ 64"
  shows "s = t \<and> r = q"
proof -
  have "of_nat (length s) = (of_nat (length t) :: u64) \<and> string_bytes s @ r = string_bytes t @ q"
    using assms(1) by (intro be64_append_inj) (simp add: str_enc_def)
  then have "length s = length t" "string_bytes s @ r = string_bytes t @ q"
    using assms(2,3) of_nat_u64_inj by blast+
  then show ?thesis by (auto simp: append_eq_append_conv dest: string_bytes_inj)
qed

text \<open>A view whose sizes fit Go's 64-bit lengths, which every value in memory does.\<close>

definition prefab_sized :: "prefab_view \<Rightarrow> bool" where
  "prefab_sized v \<longleftrightarrow> (case v of (i, path, vars) \<Rightarrow>
     length i < 2 ^ 64 \<and> length path < 2 ^ 64 \<and> length (map_entries vars) < 2 ^ 64 \<and>
     list_all (\<lambda>kv. length (fst kv) < 2 ^ 64 \<and> length (snd kv) < 2 ^ 64) (map_entries vars))"

definition view_sized :: "tile_view \<Rightarrow> bool" where
  "view_sized v \<longleftrightarrow> length v < 2 ^ 64 \<and> list_all prefab_sized v"

lemma concat_enc_inj:
  assumes "\<And>x y r q. P x \<Longrightarrow> P y \<Longrightarrow> f x @ r = f y @ q \<Longrightarrow> x = y \<and> r = q"
  shows "length xs = length ys \<Longrightarrow> list_all P xs \<Longrightarrow> list_all P ys \<Longrightarrow>
    concat (map f xs) @ r = concat (map f ys) @ q \<Longrightarrow> xs = ys \<and> r = q"
proof (induction xs ys rule: list_induct2)
  case Nil
  then show ?case by simp
next
  case (Cons x xs y ys)
  have "x = y \<and> concat (map f xs) @ r = concat (map f ys) @ q"
    using Cons.prems by (intro assms) simp_all
  then show ?case using Cons by simp
qed

lemma entry_enc_append_inj:
  assumes "length (fst kv) < 2 ^ 64 \<and> length (snd kv) < 2 ^ 64"
    and "length (fst lw) < 2 ^ 64 \<and> length (snd lw) < 2 ^ 64"
    and "entry_enc kv @ r = entry_enc lw @ q"
  shows "kv = lw \<and> r = q"
proof -
  have "fst kv = fst lw \<and> str_enc (snd kv) @ r = str_enc (snd lw) @ q"
    using assms by (intro str_enc_append_inj) (simp_all add: entry_enc_def)
  then show ?thesis
    using assms str_enc_append_inj by (metis prod.expand)
qed

lemma map_entries_inj: "map_entries m = map_entries n \<Longrightarrow> m = n"
  by (metis fmap_of_map_entries)

lemma prefab_enc_append_inj:
  assumes "prefab_sized v" "prefab_sized w" "prefab_enc v @ r = prefab_enc w @ q"
  shows "v = w \<and> r = q"
proof -
  obtain i p m where v: "v = (i, p, m)" by (cases v)
  obtain j u n where w: "w = (j, u, n)" by (cases w)
  let ?m = "map_entries m" and ?n = "map_entries n"
  let ?P = "\<lambda>kv. length (fst kv) < 2 ^ 64 \<and> length (snd kv) < 2 ^ 64"
  have sz: "length i < 2 ^ 64" "length j < 2 ^ 64" "length p < 2 ^ 64" "length u < 2 ^ 64"
    "length ?m < 2 ^ 64" "length ?n < 2 ^ 64" "list_all ?P ?m" "list_all ?P ?n"
    using assms(1,2) by (simp_all add: v w prefab_sized_def)
  have 1: "i = j" "str_enc p @ (be64 (of_nat (length ?m)) @ concat (map entry_enc ?m) @ r) =
      str_enc u @ (be64 (of_nat (length ?n)) @ concat (map entry_enc ?n) @ q)"
    using str_enc_append_inj [of i _ j] assms(3) sz(1,2) by (auto simp: v w prefab_enc_def)
  have 2: "p = u" "be64 (of_nat (length ?m)) @ (concat (map entry_enc ?m) @ r) =
      be64 (of_nat (length ?n)) @ (concat (map entry_enc ?n) @ q)"
    using str_enc_append_inj [OF 1(2) sz(3,4)] by auto
  have 3: "length ?m = length ?n" "concat (map entry_enc ?m) @ r = concat (map entry_enc ?n) @ q"
    using be64_append_inj [OF 2(2)] of_nat_u64_inj sz(5,6) by blast+
  have "?m = ?n \<and> r = q"
    by (rule concat_enc_inj [of ?P entry_enc, OF _ 3(1) sz(7,8) 3(2)]) (erule (2) entry_enc_append_inj)
  then show ?thesis using 1(1) 2(1) by (auto simp: v w dest: map_entries_inj)
qed

lemma of_int_u64_inj:
  assumes "(of_int a :: u64) = of_int b" "\<bar>a\<bar> < 2 ^ 63" "\<bar>b\<bar> < 2 ^ 63"
  shows "a = b"
proof -
  have "sint (of_int a :: u64) = sint (of_int b :: u64)" using assms(1) by simp
  then show ?thesis using assms(2,3) by (simp add: signed_of_int signed_take_bit_int_eq_self)
qed

definition coord_sized :: "coord \<Rightarrow> bool" where
  "coord_sized c \<longleftrightarrow> \<bar>cX c\<bar> < 2 ^ 63 \<and> \<bar>cY c\<bar> < 2 ^ 63 \<and> \<bar>cZ c\<bar> < 2 ^ 63"

lemma tile_enc_injective:
  assumes "tile_enc c v = tile_enc d w" "coord_sized c" "coord_sized d" "view_sized v" "view_sized w"
  shows "c = d \<and> v = w"
proof -
  have "be64 (of_int (cX c)) @ be64 (of_int (cY c)) @ be64 (of_int (cZ c)) @
      be64 (of_nat (length v)) @ concat (map prefab_enc v) @ [] =
    be64 (of_int (cX d)) @ be64 (of_int (cY d)) @ be64 (of_int (cZ d)) @
      be64 (of_nat (length w)) @ concat (map prefab_enc w) @ []"
    using assms(1) by (simp add: tile_enc_def)
  then have eq: "(of_int (cX c) :: u64) = of_int (cX d)" "(of_int (cY c) :: u64) = of_int (cY d)"
      "(of_int (cZ c) :: u64) = of_int (cZ d)" "(of_nat (length v) :: u64) = of_nat (length w)"
      "concat (map prefab_enc v) @ [] = concat (map prefab_enc w) @ []"
    using be64_append_inj by metis+
  have "length v = length w" using eq(4) assms(4,5) of_nat_u64_inj by (auto simp: view_sized_def)
  moreover have "list_all prefab_sized v" "list_all prefab_sized w"
    using assms(4,5) by (simp_all add: view_sized_def)
  ultimately have "v = w \<and> [] = ([] :: bytes)"
    using concat_enc_inj [of prefab_sized prefab_enc, OF _ _ _ _ eq(5)] prefab_enc_append_inj by blast
  moreover have "c = d"
    using eq(1,2,3) assms(2,3) of_int_u64_inj by (auto simp: coord_sized_def intro: coord.expand)
  ultimately show ?thesis by blast
qed

end
