(* ===== verification/Samples.thy ===== *)
theory Samples
  imports State
begin

text \<open>
  Concrete values on which the conditional properties are evaluated: well-formed identifiers, a
  small map and edits of it.
\<close>

definition sample_id :: "char \<Rightarrow> string" where
  "sample_id c = ''00000000-0000-7000-8000-00000000000'' @ [c]"

definition sample_env :: string where
  "sample_env = replicate 64 CHR ''0''"

definition sample_prefab :: "char \<Rightarrow> prefab_state" where
  "sample_prefab c = \<lparr>prefab_id = sample_id c, prefab_path = ''/turf/floor'',
     prefab_vars = Some (fmap_of_list [(''dir'', ''4'')])\<rparr>"

definition sample_tile_state :: "char \<Rightarrow> tile_state" where
  "sample_tile_state c = \<lparr>prefabs = Some [sample_prefab c]\<rparr>"

definition sample_tile :: "int \<Rightarrow> tile_state \<Rightarrow> tile" where
  "sample_tile x st = \<lparr>tile_coord = Coord x 1 1, tile_st = st\<rparr>"

definition sample_map :: "u64 \<Rightarrow> tile list \<Rightarrow> snapshot" where
  "sample_map r ts = \<lparr>protocol_version = ProtocolVersion, schema_version = SchemaVersion,
     snap_document = sample_id CHR ''1'', snap_revision = r, environment_hash = sample_env,
     max_x = 2, max_y = 1, max_z = 1, tiles = ts\<rparr>"

definition sample_snapshot :: snapshot where
  "sample_snapshot = sample_map 0 [sample_tile 1 (sample_tile_state CHR ''a'')]"

definition sample_snapshot2 :: snapshot where
  "sample_snapshot2 = sample_map 1 [sample_tile 1 (sample_tile_state CHR ''a''),
     sample_tile 2 (sample_tile_state CHR ''b'')]"

definition sample_change :: "int \<Rightarrow> tile_state \<Rightarrow> tile_state \<Rightarrow> tile_change" where
  "sample_change x b a = \<lparr>ch_coord = Coord x 1 1, before = b, after = a\<rparr>"

definition sample_op :: "char \<Rightarrow> u64 \<Rightarrow> string \<Rightarrow> tile_change list \<Rightarrow> operation" where
  "sample_op c r h cs = \<lparr>op_protocol = ProtocolVersion, op_document = sample_id CHR ''1'',
     op_actor = sample_id CHR ''2'', op_id = sample_id c, base_revision = r,
     op_environment = sample_env, base_map_hash = h, op_kind = TileChangeKind, changes = cs,
     inverse_of = None\<rparr>"

text \<open>A stand-in for SHA-256 with the documented width, which tells inputs of different length
  apart.\<close>

definition sample_digest :: digest_fun where
  "sample_digest x = replicate 31 0 @ [of_nat (length x)]"

lemma length_sample_digest [simp]: "length (sample_digest x) = 32"
  by (simp add: sample_digest_def)

lemma sample_id_valid: "validateUUIDv7 name (sample_id CHR ''1'') = None" "validateUUIDv7 name (sample_id CHR ''2'') = None"
  "validateUUIDv7 name (sample_id CHR ''3'') = None" "validateUUIDv7 name (sample_id CHR ''4'') = None"
  "validateUUIDv7 name (sample_id CHR ''a'') = None" "validateUUIDv7 name (sample_id CHR ''b'') = None"
  by code_simp+

lemma sample_snapshot_valid: "Snapshot_Validate sample_snapshot = None" "Snapshot_Validate sample_snapshot2 = None"
  by code_simp+

text \<open>The same two changes in either order, one with a nil and one with an empty prefab list.\<close>

theorem SameOperation_iff_witness:
  "SameOperation
     (sample_op CHR ''3'' 0 [] [sample_change 1 empty_tile (sample_tile_state CHR ''a''), sample_change 2 empty_tile empty_tile])
     (sample_op CHR ''3'' 0 [] [sample_change 2 \<lparr>prefabs = Some []\<rparr> empty_tile, sample_change 1 empty_tile (sample_tile_state CHR ''a'')])"
  by (rule SameOperation_iff [THEN iffD2])
    (simp_all add: sample_op_def sample_change_def change_view_def tile_view_def prefab_list_def empty_tile_def insert_commute)

end
