(* ===== verification/Hash_Update.thy ===== *)
theory Hash_Update
  imports Canonical_Hash Samples
begin

text \<open>
  Correctness of \<^verbatim>\<open>CanonicalHasher.Update\<close> (model/canonical_hasher.go): the incremental row table and
  map hash are those of a full hash of the new snapshot. A row table is related to its set of cells
  (coordinate, tile digest); the update of one row, of the slots and of the whole table are set
  updates of these cells.
\<close>

section \<open>Rows as sets of cells\<close>

text \<open>A cell is a coordinate with the digest of its tile. A row table that is in order is
  determined by its cells, and the grouping loop builds exactly that table.\<close>

definition row_cells :: "hash_row \<Rightarrow> (coord \<times> bytes) list" where
  "row_cells r = map (\<lambda>(x, d). (Coord x (snd (row_key r)) (fst (row_key r)), d)) (zip (row_xs r) (row_tiles r))"

definition rows_cells :: "hash_row list \<Rightarrow> (coord \<times> bytes) list" where
  "rows_cells rows = concat (map row_cells rows)"

definition row_ok :: "digest_fun \<Rightarrow> hash_row \<Rightarrow> bool" where
  "row_ok H r \<longleftrightarrow> r = make_row H (row_key r) (row_xs r) (row_tiles r) \<and>
     length (row_xs r) = length (row_tiles r) \<and> row_xs r \<noteq> [] \<and> sorted_wrt (<) (row_xs r)"

definition rows_ok :: "digest_fun \<Rightarrow> hash_row list \<Rightarrow> bool" where
  "rows_ok H rows \<longleftrightarrow> list_all (row_ok H) rows \<and> sorted_wrt (<) (map row_key rows)"

lemma make_row_sel [simp]:
  "row_key (make_row H k xs ds) = k" "row_xs (make_row H k xs ds) = xs"
  "row_tiles (make_row H k xs ds) = ds"
  by (simp_all add: make_row_def)

lemma rows_cells_simps [simp]:
  "rows_cells [] = []" "rows_cells (r # rs) = row_cells r @ rows_cells rs"
  "rows_cells (rs @ qs) = rows_cells rs @ rows_cells qs"
  by (simp_all add: rows_cells_def)

lemma coord_row_Coord [simp]: "coord_row (Coord x y z) = (z, y)"
  by (simp add: coord_row_def)

lemma coord_of_row: "Coord (cX c) (snd (coord_row c)) (fst (coord_row c)) = c"
  by (cases c) simp

lemma in_row_cells:
  "(c, d) \<in> set (row_cells r) \<longleftrightarrow> coord_row c = row_key r \<and> (cX c, d) \<in> set (zip (row_xs r) (row_tiles r))"
  by (cases c, cases "row_key r") (auto simp: row_cells_def)

lemma coord_less_iff: "c < d \<longleftrightarrow> coord_row c < coord_row d \<or> coord_row c = coord_row d \<and> cX c < cX d"
  by (cases c; cases d) (auto simp: less_coord_def coordLess_def coord_row_def less_prod_def)

lemma row_cells_fst: "length (row_xs r) = length (row_tiles r) \<Longrightarrow>
  map fst (row_cells r) = map (\<lambda>x. Coord x (snd (row_key r)) (fst (row_key r))) (row_xs r)"
proof -
  assume len: "length (row_xs r) = length (row_tiles r)"
  have "map fst (row_cells r) =
      map (\<lambda>x. Coord x (snd (row_key r)) (fst (row_key r))) (map fst (zip (row_xs r) (row_tiles r)))"
    by (auto simp: row_cells_def)
  then show ?thesis using len by simp
qed

lemma row_cells_snd: "length (row_xs r) = length (row_tiles r) \<Longrightarrow> map snd (row_cells r) = row_tiles r"
proof -
  assume len: "length (row_xs r) = length (row_tiles r)"
  have "map snd (row_cells r) = map snd (zip (row_xs r) (row_tiles r))"
    by (simp add: row_cells_def case_prod_beta comp_def)
  then show ?thesis using len by simp
qed

lemma rows_cells_sorted: "rows_ok H rows \<Longrightarrow> sorted_wrt (<) (map fst (rows_cells rows))"
proof (induction rows)
  case Nil
  then show ?case by simp
next
  case (Cons r rows)
  have r: "row_ok H r" and rows: "rows_ok H rows" and less: "\<forall>q\<in>set rows. row_key r < row_key q"
    using Cons.prems by (auto simp: rows_ok_def)
  have "sorted_wrt (<) (map fst (row_cells r))"
    using r by (simp add: row_ok_def row_cells_fst sorted_wrt_map coord_less_iff)
  moreover have "c < e" if "(c, d) \<in> set (row_cells r)" "(e, f) \<in> set (rows_cells rows)" for c d e f
    using that less by (auto simp: rows_cells_def in_row_cells coord_less_iff)
  ultimately show ?case
    using Cons.IH [OF rows] by (auto simp: sorted_wrt_append)
qed

lemma takeWhile_append_all: "\<forall>x\<in>set xs. P x \<Longrightarrow> (ys \<noteq> [] \<Longrightarrow> \<not> P (hd ys)) \<Longrightarrow>
   takeWhile P (xs @ ys) = xs \<and> dropWhile P (xs @ ys) = ys"
  by (cases ys) (auto simp: takeWhile_append2 dropWhile_append2)

lemma group_rows_cells: "rows_ok H rows \<Longrightarrow> group_rows H (rows_cells rows) = rows"
proof (induction rows)
  case Nil
  then show ?case by (simp add: group_rows.simps)
next
  case (Cons r rows)
  have r: "row_ok H r" and rows: "rows_ok H rows" and less: "\<forall>q\<in>set rows. row_key r < row_key q"
    using Cons.prems by (auto simp: rows_ok_def)
  then have len: "length (row_xs r) = length (row_tiles r)" "row_cells r \<noteq> []"
    by (auto simp: row_ok_def row_cells_def)
  then obtain cd cds where cd: "row_cells r = cd # cds" by (cases "row_cells r") auto
  have key: "coord_row (fst cd) = row_key r" using cd in_row_cells [of "fst cd" "snd cd" r] by simp
  let ?P = "\<lambda>(c, d). coord_row c = row_key r"
  have "\<forall>x\<in>set (row_cells r). ?P x" using in_row_cells by auto
  moreover have "\<not> ?P (hd (rows_cells rows))" if "rows_cells rows \<noteq> []"
  proof -
    have "hd (rows_cells rows) \<in> set (rows_cells rows)" using that by simp
    then show ?thesis using less by (auto simp: rows_cells_def in_row_cells)
  qed
  ultimately have split: "takeWhile ?P (row_cells r @ rows_cells rows) = row_cells r"
      "dropWhile ?P (row_cells r @ rows_cells rows) = rows_cells rows"
    using takeWhile_append_all [of "row_cells r" ?P "rows_cells rows"] by auto
  have "map cX (map fst (row_cells r)) = row_xs r"
    unfolding row_cells_fst [OF len(1)] by (simp add: comp_def)
  then have "map (cX \<circ> fst) (row_cells r) = row_xs r" by simp
  moreover have "map snd (row_cells r) = row_tiles r" by (rule row_cells_snd [OF len(1)])
  ultimately have "group_rows H (row_cells r @ rows_cells rows) =
      make_row H (row_key r) (row_xs r) (row_tiles r) # group_rows H (rows_cells rows)"
    using group_rows.simps(2) [of H cd "cds @ rows_cells rows"] split key cd by (simp add: Let_def)
  then show ?case using Cons.IH [OF rows] r by (simp add: row_ok_def)
qed

lemma rows_determined:
  assumes "rows_ok H A" "rows_ok H B" "set (rows_cells A) = set (rows_cells B)"
  shows "A = B"
proof -
  have "rows_cells A = rows_cells B"
    using assms rows_cells_sorted strict_sorted_iff
    by (intro sorted_key_list_unique [of fst]) blast+
  then show ?thesis using group_rows_cells assms(1,2) by metis
qed


lemma group_rows_ok:
  assumes "sorted_wrt (<) (map fst cds)"
  shows "rows_ok H (group_rows H cds) \<and> rows_cells (group_rows H cds) = cds \<and>
    (\<forall>r\<in>set (group_rows H cds). row_key r \<in> (coord_row \<circ> fst) ` set cds)"
  using assms
proof (induction H cds rule: group_rows.induct)
  case (1 H)
  then show ?case by (simp add: group_rows.simps rows_ok_def)
next
  case (2 H cd cds)
  let ?k = "coord_row (fst cd)"
  let ?P = "\<lambda>(c, d). coord_row c = ?k"
  define run where "run = takeWhile ?P (cd # cds)"
  define rest where "rest = dropWhile ?P (cd # cds)"
  have split: "cd # cds = run @ rest" by (simp add: run_def rest_def)
  have srt: "sorted_wrt (<) (map fst run)" "sorted_wrt (<) (map fst rest)"
      "\<forall>c\<in>set run. \<forall>d\<in>set rest. fst c < fst d"
    using "2.prems" unfolding split by (auto simp: sorted_wrt_append)
  have run: "\<forall>c\<in>set run. coord_row (fst c) = ?k" unfolding run_def
    by (auto dest: set_takeWhileD)
  have ne: "run \<noteq> []" by (simp add: run_def case_prod_beta)
  have IH: "rows_ok H (group_rows H rest)" "rows_cells (group_rows H rest) = rest"
      "\<forall>r\<in>set (group_rows H rest). row_key r \<in> (coord_row \<circ> fst) ` set rest"
    using "2.IH" [OF refl run_def] srt(2) unfolding rest_def by auto
  let ?r = "make_row H ?k (map (cX \<circ> fst) run) (map snd run)"
  have eq: "group_rows H (cd # cds) = ?r # group_rows H rest"
    by (simp add: group_rows.simps Let_def run_def rest_def)
  have "Coord (cX (fst c)) (snd ?k) (fst ?k) = fst c" if "c \<in> set run" for c
    using run that coord_of_row [of "fst c"] by simp
  then have cells: "row_cells ?r = run"
    by (force simp: row_cells_def zip_map_map zip_same_conv_map intro!: map_idI)
  have "sorted_wrt (\<lambda>c d. cX (fst c) < cX (fst d)) run"
    using srt(1) run unfolding sorted_wrt_map
    by (rule_tac sorted_wrt_mono_rel) (auto simp: coord_less_iff)
  then have "row_ok H ?r" using ne by (simp add: row_ok_def sorted_wrt_map)
  moreover have "?k < row_key r" if r: "r \<in> set (group_rows H rest)" for r
  proof -
    obtain cd' where cd': "cd' \<in> set rest" "row_key r = coord_row (fst cd')" using IH(3) r by auto
    obtain h t where h: "rest = h # t" using cd'(1) by (cases rest) auto
    have "\<not> ?P h" using hd_dropWhile [of ?P "cd # cds"] h unfolding rest_def [symmetric] by auto
    moreover have "fst cd < fst h" using srt(3) h split ne by (cases run) auto
    ultimately have "?k < coord_row (fst h)" by (auto simp: coord_less_iff)
    moreover have "coord_row (fst h) \<le> coord_row (fst cd')"
      using cd'(1) srt(2) h by (auto simp: coord_less_iff order_le_less)
    ultimately show ?thesis using cd'(2) by simp
  qed
  moreover have "cd \<in> set run" using split ne by (cases run) auto
  ultimately show ?case
    using eq IH cells split by (auto simp: rows_ok_def)
qed


section \<open>One row of the incremental update\<close>

lemma search_split:
  assumes "sorted_wrt (<) xs"
  obtains A B where "xs = A @ B" "search_pos xs x = length A" "\<forall>a\<in>set A. a < x" "\<forall>b\<in>set B. x \<le> b"
    "search_found xs x \<longleftrightarrow> (\<exists>B'. B = x # B')"
proof
  let ?A = "takeWhile (\<lambda>v. v < x) xs" and ?B = "dropWhile (\<lambda>v. v < x) xs"
  show 1: "xs = ?A @ ?B" by simp
  show 2: "search_pos xs x = length ?A" by (simp add: search_pos_def)
  show "\<forall>a\<in>set ?A. a < x" by (auto dest: set_takeWhileD)
  have "sorted_wrt (<) ?B" using assms by (metis 1 sorted_wrt_append)
  then show "\<forall>b\<in>set ?B. x \<le> b"
  proof (cases ?B)
    case (Cons b B)
    then have "\<not> b < x" using hd_dropWhile [of "\<lambda>v. v < x" xs] by simp
    then show ?thesis using Cons \<open>sorted_wrt (<) ?B\<close> by auto
  qed (simp only: list.set ball_empty)
  show "search_found xs x \<longleftrightarrow> (\<exists>B'. ?B = x # B')"
  proof (cases ?B)
    case Nil
    then show ?thesis using 1 2 unfolding search_found_def by (metis append_Nil2 less_irrefl list.distinct(1))
  next
    case (Cons b B)
    then have "length ?A < length xs" "xs ! length ?A = b" using 1
      by (metis append_Nil2 append_eq_conv_conj length_append less_add_same_cancel1 list.size(4) zero_less_Suc add_Suc_right nth_append_length)+
    then show ?thesis using 2 Cons unfolding search_found_def by auto
  qed
qed

definition row_upd :: "digest_fun \<Rightarrow> snapshot \<Rightarrow> (coord \<rightharpoonup> nat) \<Rightarrow> (int \<rightharpoonup> bytes) \<Rightarrow> coord \<Rightarrow> (int \<rightharpoonup> bytes)" where
  "row_upd H s indexes m c = m(cX c := map_option (\<lambda>i. tile_digest H (tiles s ! i)) (indexes c))"

definition row_rep :: "int list \<Rightarrow> bytes list \<Rightarrow> bool" where
  "row_rep xs ds \<longleftrightarrow> sorted_wrt (<) xs \<and> length xs = length ds"

lemma map_of_zip_mid:
  assumes "length A = length DA" "\<forall>a\<in>set A. a < (x::int)"
  shows "map_of (zip (A @ x # B) (DA @ d # DB)) = (map_of (zip (A @ B) (DA @ DB)))(x \<mapsto> d)"
  using assms by (auto simp: zip_append fun_eq_iff map_add_def split: option.splits dest!: map_of_SomeD set_zip_leftD)

lemma map_of_zip_del:
  assumes "length A = length DA" "\<forall>a\<in>set A. a < (x::int)" "\<forall>b\<in>set B. x < b" 
  shows "map_of (zip (A @ B) (DA @ DB)) = (map_of (zip (A @ x # B) (DA @ d # DB)))(x := None)"
proof -
  have "map_of (zip B DB) x = None"
    using assms(3) by (cases "map_of (zip B DB) x") (auto dest!: map_of_SomeD set_zip_leftD)
  then show ?thesis
    using assms by (auto simp: zip_append fun_eq_iff map_add_def split: option.splits dest!: map_of_SomeD set_zip_leftD)
qed

lemma update_row_spec:
  assumes "row_rep xs ds" "update_row H s indexes cs xs ds n = Some (xs', ds', n')"
  shows "row_rep xs' ds' \<and> map_of (zip xs' ds') = foldl (row_upd H s indexes) (map_of (zip xs ds)) cs \<and>
    n' - int (length xs') = n - int (length xs) \<and>
    (\<forall>c\<in>set cs. \<forall>i. indexes c = Some i \<longrightarrow> \<not> index_mismatch s c i)"
  using assms
proof (induction cs arbitrary: xs ds n)
  case Nil
  then show ?case by simp
next
  case (Cons c cs)
  let ?x = "cX c"
  have rep: "sorted_wrt (<) xs" "length xs = length ds" using Cons.prems(1) by (simp_all add: row_rep_def)
  obtain A B where AB: "xs = A @ B" "search_pos xs ?x = length A" "\<forall>a\<in>set A. a < ?x" "\<forall>b\<in>set B. ?x \<le> b"
      "search_found xs ?x \<longleftrightarrow> (\<exists>B'. B = ?x # B')"
    using search_split [OF rep(1)] by metis
  define DA DB where "DA = take (length A) ds" and "DB = drop (length A) ds"
  have D: "ds = DA @ DB" "length DA = length A" "length DB = length B"
    using rep AB(1) by (simp_all add: DA_def DB_def)
  have sAB: "sorted_wrt (<) A" "sorted_wrt (<) B" using rep(1) AB(1) by (simp_all add: sorted_wrt_append)
  have step: ?case if "row_rep ys es" "map_of (zip ys es) = row_upd H s indexes (map_of (zip xs ds)) c"
      "m - int (length ys) = n - int (length xs)" "update_row H s indexes cs ys es m = Some (xs', ds', n')"
      "\<forall>i. indexes c = Some i \<longrightarrow> \<not> index_mismatch s c i" for ys es m
    using Cons.IH [OF that(1,4)] that by auto
  show ?case
  proof (cases "\<exists>B'. B = ?x # B'")
    case True
    then obtain B' d DB' where B: "B = ?x # B'" "DB = d # DB'" "length DB' = length B'"
      using D(3) by (cases DB) auto
    have B': "\<forall>b\<in>set B'. ?x < b" using sAB B by auto
    show ?thesis
    proof (cases "indexes c")
      case None
      show ?thesis
      proof (rule step)
        show "row_rep (A @ B') (DA @ DB')" using rep AB B D by (auto simp: row_rep_def sorted_wrt_append)
        show "map_of (zip (A @ B') (DA @ DB')) = row_upd H s indexes (map_of (zip xs ds)) c"
          using map_of_zip_del [of A DA ?x B' DB' d] None AB B D B' by (simp add: row_upd_def)
        show "update_row H s indexes cs (A @ B') (DA @ DB') (n - 1) = Some (xs', ds', n')"
          using Cons.prems(2) None True AB B D by (simp add: Let_def delete_at_def)
      qed (use AB B None in auto)
    next
      case (Some i)
      let ?d = "tile_digest H (tiles s ! i)"
      have ok: "\<not> index_mismatch s c i" using Cons.prems(2) Some by (auto simp: Let_def split: if_splits)
      show ?thesis
      proof (rule step)
        show "row_rep xs (DA @ ?d # DB')" using rep AB B D by (auto simp: row_rep_def)
        have "map_of (zip xs ds) = (map_of (zip (A @ B') (DA @ DB')))(?x \<mapsto> d)"
          using map_of_zip_mid [of A DA ?x B' d DB'] AB B D by simp
        then show "map_of (zip xs (DA @ ?d # DB')) = row_upd H s indexes (map_of (zip xs ds)) c"
          using map_of_zip_mid [of A DA ?x B' ?d DB'] AB B D Some by (simp add: row_upd_def)
        show "update_row H s indexes cs xs (DA @ ?d # DB') n = Some (xs', ds', n')"
          using Cons.prems(2) Some ok True AB B D by (simp add: Let_def list_update_append)
      qed (use Some ok in auto)
    qed
  next
    case False
    have B: "\<forall>b\<in>set B. ?x < b"
    proof (cases B)
      case (Cons b B')
      then show ?thesis using False AB(4) sAB(2) by fastforce
    qed simp
    have notin: "?x \<notin> set xs" using AB B by auto
    show ?thesis
    proof (cases "indexes c")
      case None
      have "map_of (zip xs ds) ?x = None" using notin rep by (simp add: map_of_zip_is_None)
      then show ?thesis
        using Cons.prems step [of xs ds n] None False AB(5) by (auto simp: Let_def row_upd_def fun_upd_idem)
    next
      case (Some i)
      let ?d = "tile_digest H (tiles s ! i)"
      have ok: "\<not> index_mismatch s c i" using Cons.prems(2) Some by (auto simp: Let_def split: if_splits)
      show ?thesis
      proof (rule step)
        show "row_rep (A @ ?x # B) (DA @ ?d # DB)" using rep AB B D sAB by (auto simp: row_rep_def sorted_wrt_append)
        show "map_of (zip (A @ ?x # B) (DA @ ?d # DB)) = row_upd H s indexes (map_of (zip xs ds)) c"
          using map_of_zip_mid [of A DA ?x B ?d DB] AB D Some by (simp add: row_upd_def)
        show "update_row H s indexes cs (A @ ?x # B) (DA @ ?d # DB) (n + 1) = Some (xs', ds', n')"
          using Cons.prems(2) Some ok False AB D by (simp add: Let_def insert_at_def)
      qed (use AB Some ok in auto)
    qed
  qed
qed


lemma foldl_row_upd:
  assumes "\<forall>c\<in>set cs. coord_row c = (z, y)"
  shows "foldl (row_upd H s indexes) m cs x =
    (if Coord x y z \<in> set cs then map_option (\<lambda>i. tile_digest H (tiles s ! i)) (indexes (Coord x y z)) else m x)"
  using assms
proof (induction cs arbitrary: m)
  case Nil
  then show ?case by simp
next
  case (Cons c cs)
  have "Coord x y z = c \<longleftrightarrow> cX c = x" using Cons.prems by (cases c) auto
  then show ?case using Cons by (auto simp: row_upd_def)
qed

lemma make_row_cells:
  assumes "row_rep xs ds"
  shows "(c, d) \<in> set (row_cells (make_row H k xs ds)) \<longleftrightarrow> coord_row c = k \<and> map_of (zip xs ds) (cX c) = Some d"
proof -
  have "distinct (map fst (zip xs ds))"
    using assms strict_sorted_iff [of xs] by (simp add: row_rep_def)
  then show ?thesis by (simp add: in_row_cells)
qed

text \<open>The cells after the update of one row, in terms of the cells before it.\<close>

definition cell_upd ::
  "digest_fun \<Rightarrow> snapshot \<Rightarrow> (coord \<rightharpoonup> nat) \<Rightarrow> coord set \<Rightarrow> (coord \<times> bytes) set \<Rightarrow> (coord \<times> bytes) set" where
  "cell_upd H s indexes C cells =
     {cd \<in> cells. fst cd \<notin> C} \<union> {(c, tile_digest H (tiles s ! i)) | c i. c \<in> C \<and> indexes c = Some i}"

lemma cell_upd_cell_upd:
  "cell_upd H s indexes D (cell_upd H s indexes C cells) = cell_upd H s indexes (C \<union> D) cells"
  unfolding cell_upd_def by auto

lemma update_row_cells:
  assumes "row_rep xs ds" "update_row H s indexes cs xs ds n = Some (xs', ds', n')"
    and key: "\<forall>c\<in>set cs. coord_row c = k" and "cells = set (row_cells (make_row H k xs ds))"
  shows "row_rep xs' ds' \<and> set (row_cells (make_row H k xs' ds')) = cell_upd H s indexes (set cs) cells \<and>
    n' - int (length xs') = n - int (length xs) \<and>
    (\<forall>c\<in>set cs. \<forall>i. indexes c = Some i \<longrightarrow> \<not> index_mismatch s c i)"
proof -
  note spec = update_row_spec [OF assms(1,2)]
  obtain z y where k: "k = (z, y)" by fastforce
  have "(c, d) \<in> set (row_cells (make_row H k xs' ds')) \<longleftrightarrow> (c, d) \<in> cell_upd H s indexes (set cs) cells"
    for c d
  proof -
    have "Coord (cX c) y z = c" if "coord_row c = k" using that coord_of_row [of c] k by simp
    then show ?thesis
      using make_row_cells [OF assms(1), of c d H k] make_row_cells [of xs' ds' c d H k] spec key
        foldl_row_upd [of cs z y H s indexes "map_of (zip xs ds)" "cX c"]
      unfolding assms(4) cell_upd_def k by auto
  qed
  then show ?thesis using spec by auto
qed


section \<open>The row table of the incremental update\<close>

lemma rows_of_slots_simps [simp]:
  "rows_of_slots [] = []" "rows_of_slots (xs @ ys) = rows_of_slots xs @ rows_of_slots ys"
  "rows_of_slots [Some r] = [r]" "rows_of_slots [None] = []"
  "rows_of_slots (Some r # ys) = r # rows_of_slots ys" "rows_of_slots (None # ys) = rows_of_slots ys"
  "rows_of_slots (map Some rows) = rows"
  by (simp_all add: rows_of_slots_def comp_def filter_map)

lemma slots_replace:
  assumes "p < length slots" "slots ! p = Some r"
  obtains A B where "rows_of_slots slots = A @ r # B" "rows_of_slots (slots[p := None]) = A @ B"
    "\<And>q. rows_of_slots (slots[p := Some q]) = A @ q # B"
proof
  let ?A = "rows_of_slots (take p slots)" and ?B = "rows_of_slots (drop (Suc p) slots)"
  have upd: "slots[p := v] = take p slots @ [v] @ drop (Suc p) slots" for v
    using assms(1) by (simp add: upd_conv_take_nth_drop)
  have "slots = take p slots @ [Some r] @ drop (Suc p) slots"
    using assms by (metis append_Cons append_Nil id_take_nth_drop)
  then show "rows_of_slots slots = ?A @ r # ?B"
    by (metis append_Cons append_Nil rows_of_slots_simps(2,3))
  show "rows_of_slots (slots[p := None]) = ?A @ ?B" by (simp add: upd)
  show "rows_of_slots (slots[p := Some q]) = ?A @ q # ?B" for q by (simp add: upd)
qed

lemma cell_upd_other:
  assumes "\<forall>cd\<in>X. coord_row (fst cd) \<noteq> k" "\<forall>c\<in>C. coord_row c = k"
  shows "cell_upd H s indexes C (X \<union> Y) = X \<union> cell_upd H s indexes C Y"
  using assms unfolding cell_upd_def by fast

lemma row_ok_rep: "row_ok H r \<Longrightarrow> row_rep (row_xs r) (row_tiles r)"
  by (simp add: row_ok_def row_rep_def)

lemma row_ok_make: "row_rep xs ds \<Longrightarrow> xs \<noteq> [] \<Longrightarrow> row_ok H (make_row H k xs ds)"
  by (simp add: row_ok_def row_rep_def)

lemma length_row_cells: "row_rep (row_xs r) (row_tiles r) \<Longrightarrow> length (row_cells r) = length (row_xs r)"
  by (simp add: row_cells_def row_rep_def)

lemma other_rows_cells:
  assumes "k \<notin> row_key ` set rows"
  shows "\<forall>cd\<in>set (rows_cells rows). coord_row (fst cd) \<noteq> k"
  using assms in_row_cells by (fastforce simp: rows_cells_def)

definition table_ok :: "digest_fun \<Rightarrow> hash_row list \<Rightarrow> int \<Rightarrow> bool" where
  "table_ok H rows n \<longleftrightarrow> list_all (row_ok H) rows \<and> distinct (map row_key rows) \<and> n = int (length (rows_cells rows))"

text \<open>Replacing, removing or appending the row of one key.\<close>

lemma table_replace:
  assumes "table_ok H (A @ r # B) n" "row_rep xs ds"
    and "set (row_cells (make_row H (row_key r) xs ds)) = cell_upd H s indexes C (set (row_cells r))"
    and "\<forall>c\<in>C. coord_row c = row_key r" "n' - int (length xs) = n - int (length (row_xs r))"
  shows "xs = [] \<Longrightarrow> table_ok H (A @ B) n' \<and>
      set (rows_cells (A @ B)) = cell_upd H s indexes C (set (rows_cells (A @ r # B)))"
    and "xs \<noteq> [] \<Longrightarrow> table_ok H (A @ make_row H (row_key r) xs ds # B) n' \<and>
      set (rows_cells (A @ make_row H (row_key r) xs ds # B)) = cell_upd H s indexes C (set (rows_cells (A @ r # B)))"
proof -
  have "row_key r \<notin> row_key ` set (A @ B)" using assms(1) by (auto simp: table_ok_def)
  then have "\<forall>cd\<in>set (rows_cells (A @ B)). coord_row (fst cd) \<noteq> row_key r" by (rule other_rows_cells)
  moreover have "set (rows_cells (A @ r # B)) = set (rows_cells (A @ B)) \<union> set (row_cells r)" by auto
  ultimately have upd: "cell_upd H s indexes C (set (rows_cells (A @ r # B))) =
      set (rows_cells (A @ B)) \<union> set (row_cells (make_row H (row_key r) xs ds))"
    using assms(3,4) cell_upd_other by metis
  have len: "length (row_cells r) = length (row_xs r)"
      "length (row_cells (make_row H (row_key r) xs ds)) = length xs"
    using assms(1,2) length_row_cells row_ok_rep by (auto simp: table_ok_def)
  show "table_ok H (A @ B) n' \<and> set (rows_cells (A @ B)) = cell_upd H s indexes C (set (rows_cells (A @ r # B)))"
    if "xs = []"
    using that assms(1,5) len unfolding upd by (auto simp: table_ok_def row_cells_def)
  show "table_ok H (A @ make_row H (row_key r) xs ds # B) n' \<and>
      set (rows_cells (A @ make_row H (row_key r) xs ds # B)) = cell_upd H s indexes C (set (rows_cells (A @ r # B)))"
    if "xs \<noteq> []"
    using that assms(1,2,5) len unfolding upd by (auto simp: table_ok_def row_ok_make)
qed

lemma table_append:
  assumes "table_ok H A n" "row_rep xs ds" "k \<notin> row_key ` set A"
    and "set (row_cells (make_row H k xs ds)) = cell_upd H s indexes C {}"
    and "\<forall>c\<in>C. coord_row c = k" "n' - int (length xs) = n"
  shows "xs = [] \<Longrightarrow> table_ok H A n' \<and> set (rows_cells A) = cell_upd H s indexes C (set (rows_cells A))"
    and "xs \<noteq> [] \<Longrightarrow> table_ok H (A @ [make_row H k xs ds]) n' \<and>
      set (rows_cells (A @ [make_row H k xs ds])) = cell_upd H s indexes C (set (rows_cells A))"
proof -
  have upd: "cell_upd H s indexes C (set (rows_cells A)) = set (rows_cells A) \<union> set (row_cells (make_row H k xs ds))"
    using cell_upd_other [OF other_rows_cells [OF assms(3)] assms(5), of H s indexes "{}"] assms(4) by simp
  have len: "length (row_cells (make_row H k xs ds)) = length xs"
    using assms(2) length_row_cells [of "make_row H k xs ds"] by simp
  show "table_ok H A n' \<and> set (rows_cells A) = cell_upd H s indexes C (set (rows_cells A))" if "xs = []"
    using that assms(1,6) unfolding upd by (auto simp: table_ok_def row_cells_def)
  show "table_ok H (A @ [make_row H k xs ds]) n' \<and>
      set (rows_cells (A @ [make_row H k xs ds])) = cell_upd H s indexes C (set (rows_cells A))" if "xs \<noteq> []"
    using that assms(1,2,3,6) len unfolding upd by (auto simp: table_ok_def row_ok_make)
qed


definition slot_for :: "hasher \<Rightarrow> hash_row option list \<Rightarrow> row_key \<Rightarrow> bool" where
  "slot_for h slots k \<longleftrightarrow> (case h_positions h k of
      Some p \<Rightarrow> p < length slots \<and> slots ! p = Some (h_rows h ! p) \<and> row_key (h_rows h ! p) = k
    | None \<Rightarrow> k \<notin> row_key ` set (rows_of_slots slots))"

definition coords_of :: "(row_key \<times> coord list) list \<Rightarrow> coord set" where
  "coords_of L = (\<Union>kcs\<in>set L. set (snd kcs))"

definition index_fits :: "snapshot \<Rightarrow> (coord \<rightharpoonup> nat) \<Rightarrow> coord set \<Rightarrow> bool" where
  "index_fits s indexes C \<longleftrightarrow> (\<forall>c\<in>C. \<forall>i. indexes c = Some i \<longrightarrow> \<not> index_mismatch s c i)"

lemma slots_keys_subset: "set (rows_of_slots slots) = {r. Some r \<in> set slots}"
  by (force simp: rows_of_slots_def)

lemma slot_for_replace:
  assumes "slot_for h slots k'" "k \<noteq> k'" "h_positions h k = Some p" "slot_for h slots k"
    and "v = None \<or> (\<exists>r. v = Some r \<and> row_key r = k)"
  shows "slot_for h (slots[p := v]) k'"
proof (cases "h_positions h k'")
  case None
  have "set (slots[p := v]) \<subseteq> insert v (set slots)" by (rule set_update_subset_insert)
  then show ?thesis using assms None by (auto simp: slot_for_def slots_keys_subset)
next
  case (Some q)
  then have "q \<noteq> p" using assms by (auto simp: slot_for_def)
  then show ?thesis using assms Some by (simp add: slot_for_def)
qed

lemma slot_for_append:
  assumes "slot_for h slots k'" "k \<noteq> k'" "row_key r = k"
  shows "slot_for h (slots @ [Some r]) k'"
  using assms by (auto simp: slot_for_def nth_append split: option.splits)

lemma update_rows_spec:
  assumes "update_rows H s indexes h L slots n reshaped = Some (slots', n', reshaped')"
    and "table_ok H (rows_of_slots slots) n" "distinct (map fst L)"
    and "\<forall>(k, cs)\<in>set L. \<forall>c\<in>set cs. coord_row c = k" "\<forall>k\<in>fst ` set L. slot_for h slots k"
  shows "table_ok H (rows_of_slots slots') n' \<and>
    set (rows_cells (rows_of_slots slots')) =
      cell_upd H s indexes (coords_of L) (set (rows_cells (rows_of_slots slots))) \<and>
    index_fits s indexes (coords_of L) \<and>
    (reshaped \<longrightarrow> reshaped') \<and>
    (\<not> reshaped' \<longrightarrow> map (map_option row_key) slots' = map (map_option row_key) slots)"
  using assms
proof (induction L arbitrary: slots n reshaped)
  case Nil
  then show ?case by (auto simp: coords_of_def cell_upd_def index_fits_def)
next
  case (Cons kcs L)
  obtain k cs where kcs: "kcs = (k, cs)" by fastforce
  have key: "\<forall>c\<in>set cs. coord_row c = k" and kL: "k \<notin> fst ` set L" and slot: "slot_for h slots k"
    using Cons.prems(3,4,5) by (auto simp: kcs)
  define old where "old = (case h_positions h k of None \<Rightarrow> None | Some p \<Rightarrow> Some (h_rows h ! p))"
  define xs0 where "xs0 = (case old of None \<Rightarrow> [] | Some r \<Rightarrow> row_xs r)"
  define ds0 where "ds0 = (case old of None \<Rightarrow> [] | Some r \<Rightarrow> row_tiles r)"
  obtain xs ds m where row: "update_row H s indexes cs xs0 ds0 n = Some (xs, ds, m)"
    using Cons.prems(1) unfolding kcs update_rows.simps Let_def xs0_def ds0_def old_def
    by (auto split: option.splits prod.splits)
  have step: ?case if "update_rows H s indexes h L slots1 m reshaped1 = Some (slots', n', reshaped')"
      and "table_ok H (rows_of_slots slots1) m \<and> set (rows_cells (rows_of_slots slots1)) =
          cell_upd H s indexes (set cs) (set (rows_cells (rows_of_slots slots)))"
      and "\<And>k'. k' \<in> fst ` set L \<Longrightarrow> slot_for h slots1 k'" "index_fits s indexes (set cs)"
      and "reshaped \<Longrightarrow> reshaped1" "\<not> reshaped1 \<Longrightarrow> map (map_option row_key) slots1 = map (map_option row_key) slots"
    for slots1 reshaped1
  proof -
    have "coords_of (kcs # L) = set cs \<union> coords_of L" by (auto simp: coords_of_def kcs)
    moreover have "table_ok H (rows_of_slots slots') n' \<and>
      set (rows_cells (rows_of_slots slots')) =
        cell_upd H s indexes (coords_of L) (set (rows_cells (rows_of_slots slots1))) \<and>
      index_fits s indexes (coords_of L) \<and>
      (reshaped1 \<longrightarrow> reshaped') \<and>
      (\<not> reshaped' \<longrightarrow> map (map_option row_key) slots' = map (map_option row_key) slots1)"
      using that(2,3) Cons.prems(3,4) by (intro Cons.IH [OF that(1)]) auto
    ultimately show ?thesis
      using that by (auto simp: cell_upd_cell_upd index_fits_def)
  qed
  have rest: "slot_for h slots k' \<and> k \<noteq> k'" if "k' \<in> fst ` set L" for k'
    using that Cons.prems(5) kL by (auto simp: kcs)
  note go = Cons.prems(1) [unfolded kcs update_rows.simps Let_def, folded old_def xs0_def ds0_def,
      unfolded row]
  show ?case
  proof (cases "h_positions h k")
    case None
    then have x0: "xs0 = []" "ds0 = []" by (simp_all add: xs0_def ds0_def old_def)
    have spec: "row_rep xs ds \<and> set (row_cells (make_row H k xs ds)) = cell_upd H s indexes (set cs) {} \<and>
        m - int (length xs) = n \<and> index_fits s indexes (set cs)"
      using update_row_cells [OF _ row key, of "{}"] unfolding x0 index_fits_def
      by (simp add: row_rep_def row_cells_def)
    have notin: "k \<notin> row_key ` set (rows_of_slots slots)" using slot None by (simp add: slot_for_def)
    note app = table_append [OF Cons.prems(2) _ notin, of xs ds s indexes "set cs" m]
    show ?thesis
    proof (cases "xs = []")
      case True
      then show ?thesis
        using step [of slots reshaped] go None app(1) spec key rest by simp
    next
      case False
      have "slot_for h (slots @ [Some (make_row H k xs ds)]) k'" if "k' \<in> fst ` set L" for k'
        using rest [OF that] slot_for_append [of h slots k' k "make_row H k xs ds"] by simp
      then show ?thesis
        using step [of "slots @ [Some (make_row H k xs ds)]" True] go None app(2) spec key False by simp
    qed
  next
    case (Some p)
    define r where "r = h_rows h ! p"
    have p: "p < length slots" "slots ! p = Some r" "row_key r = k"
      using slot Some by (simp_all add: slot_for_def r_def)
    obtain A B where AB: "rows_of_slots slots = A @ r # B" "rows_of_slots (slots[p := None]) = A @ B"
        "\<And>q. rows_of_slots (slots[p := Some q]) = A @ q # B"
      using slots_replace [OF p(1,2)] by metis
    have r: "row_ok H r" using Cons.prems(2) AB(1) by (simp add: table_ok_def)
    have x0: "xs0 = row_xs r" "ds0 = row_tiles r" using Some by (simp_all add: xs0_def ds0_def old_def r_def)
    have "make_row H k (row_xs r) (row_tiles r) = r" using r p(3) by (simp add: row_ok_def)
    then have spec: "row_rep xs ds \<and> set (row_cells (make_row H k xs ds)) = cell_upd H s indexes (set cs) (set (row_cells r)) \<and>
        m - int (length xs) = n - int (length (row_xs r)) \<and> index_fits s indexes (set cs)"
      using update_row_cells [OF _ row key, of "set (row_cells r)"] row_ok_rep [OF r]
      unfolding x0 index_fits_def by simp
    note rep = table_replace [of H A r B n xs ds s indexes "set cs" m, folded AB(1), unfolded p(3), OF Cons.prems(2)]
    have sl: "slot_for h (slots[p := v]) k'"
      if "k' \<in> fst ` set L" "v = None \<or> (\<exists>r. v = Some r \<and> row_key r = k)" for k' v
      using rest [OF that(1)] slot_for_replace [OF _ _ Some slot that(2)] by simp
    show ?thesis
    proof (cases "xs = []")
      case True
      then show ?thesis
        using step [of "slots[p := None]" True] go Some AB rep(1) spec key sl [of _ None] by simp
    next
      case False
      have "map (map_option row_key) (slots[p := Some (make_row H k xs ds)]) = map (map_option row_key) slots"
        using p by (simp add: map_update list_update_same_conv)
      then show ?thesis
        using step [of "slots[p := Some (make_row H k xs ds)]" reshaped] go Some AB rep(2) spec key False
          sl [of _ "Some (make_row H k xs ds)"] by simp
    qed
  qed
qed


section \<open>The incremental hash is the full hash\<close>

lemma add_to_row_keys: "fst ` set (add_to_row c L) = insert (coord_row c) (fst ` set L)"
  by (induction c L rule: add_to_row.induct) auto

lemma add_to_row_coords: "coords_of (add_to_row c L) = insert c (coords_of L)"
  by (induction c L rule: add_to_row.induct) (auto simp: coords_of_def)

lemma by_row_step:
  "distinct (map fst L) \<Longrightarrow> distinct (map fst (add_to_row c L)) \<and>
     coords_of (add_to_row c L) = insert c (coords_of L)"
proof (induction c L rule: add_to_row.induct)
  case (2 c key cs rest)
  then show ?case
    using add_to_row_keys [of c rest] by (simp add: add_to_row_coords del: add_to_row.simps) (auto simp: add_to_row_keys)
qed (simp add: coords_of_def)

lemma by_row_keys:
  "\<forall>(k, cs)\<in>set L. \<forall>c\<in>set cs. coord_row c = k \<Longrightarrow>
     \<forall>(k, cs)\<in>set (add_to_row c L). \<forall>c\<in>set cs. coord_row c = k"
  by (induction c L rule: add_to_row.induct) (auto split: if_splits)

lemma by_row_spec:
  "distinct (map fst (by_row changed)) \<and> coords_of (by_row changed) = set changed \<and>
   (\<forall>(k, cs)\<in>set (by_row changed). \<forall>c\<in>set cs. coord_row c = k)"
proof (induction changed rule: rev_induct)
  case Nil
  then show ?case by (simp add: by_row_def coords_of_def)
next
  case (snoc c changed)
  let ?L = "by_row changed"
  have eq: "by_row (changed @ [c]) = add_to_row c ?L" by (simp add: by_row_def)
  show ?case
    using snoc by_row_step [of ?L c] by_row_keys [of ?L c] unfolding eq by simp
qed

lemma position_map_keys:
  "map row_key rows = map row_key rows' \<Longrightarrow> position_map i rows m = position_map i rows' m"
proof (induction rows arbitrary: rows' i m)
  case Nil
  then show ?case by simp
next
  case (Cons r rows)
  then obtain r' rs where rows': "rows' = r' # rs" "row_key r = row_key r'" "map row_key rows = map row_key rs"
    by (cases rows') auto
  have "position_map (Suc i) rows (m(row_key r' \<mapsto> i)) = position_map (Suc i) rs (m(row_key r' \<mapsto> i))"
    by (rule Cons.IH [OF rows'(3)])
  then show ?case unfolding rows'(1) position_map.simps rows'(2) .
qed

lemma rowPositions_keys: "map row_key rows = map row_key rows' \<Longrightarrow> rowPositions rows = rowPositions rows'"
  unfolding rowPositions_def by (rule position_map_keys)

lemma position_map_spec:
  "distinct (map row_key rows) \<Longrightarrow>
     (\<forall>p<length rows. position_map i rows m (row_key (rows ! p)) = Some (i + p)) \<and>
     (\<forall>k. k \<notin> row_key ` set rows \<longrightarrow> position_map i rows m k = m k)"
proof (induction rows arbitrary: i m)
  case Nil
  then show ?case by simp
next
  case (Cons r rows)
  define m' where "m' = m(row_key r \<mapsto> i)"
  have m': "m' (row_key r) = Some i" "\<And>k. k \<noteq> row_key r \<Longrightarrow> m' k = m k" by (simp_all add: m'_def)
  have step: "position_map i (r # rows) m = position_map (Suc i) rows m'" by (simp only: position_map.simps m'_def)
  have IH: "(\<forall>p<length rows. position_map (Suc i) rows m' (row_key (rows ! p)) = Some (Suc i + p)) \<and>
    (\<forall>k. k \<notin> row_key ` set rows \<longrightarrow> position_map (Suc i) rows m' k = m' k)"
    using Cons.prems by (intro Cons.IH) simp
  show ?case unfolding step
  proof (intro conjI allI impI)
    fix p assume "p < length (r # rows)"
    then show "position_map (Suc i) rows m' (row_key ((r # rows) ! p)) = Some (i + p)"
      using IH m'(1) Cons.prems by (cases p) (simp_all del: split_paired_All)
  next
    fix k assume "k \<notin> row_key ` set (r # rows)"
    then have k: "k \<notin> row_key ` set rows" "k \<noteq> row_key r" by auto
    show "position_map (Suc i) rows m' k = m k" using IH k m'(2) [OF k(2)] by metis
  qed
qed

lemma rowPositions_slot:
  assumes "distinct (map row_key rows)" "h_rows h = rows" "h_positions h = rowPositions rows"
  shows "slot_for h (map Some rows) k"
proof (cases "k \<in> row_key ` set rows")
  case True
  then obtain p where "p < length rows" "row_key (rows ! p) = k" by (auto simp: in_set_conv_nth)
  then show ?thesis
    using position_map_spec [OF assms(1), of 0 Map.empty] assms by (auto simp: slot_for_def rowPositions_def)
next
  case False
  then have "h_positions h k = None"
    using position_map_spec [OF assms(1), of 0 Map.empty] unfolding assms(3) rowPositions_def by blast
  then show ?thesis using False by (simp add: slot_for_def)
qed


text \<open>The cells of a snapshot, and the table its full hash holds.\<close>

definition snap_cells :: "digest_fun \<Rightarrow> snapshot \<Rightarrow> (coord \<times> bytes) set" where
  "snap_cells H s = (\<lambda>t. (tile_coord t, tile_digest H t)) ` set (tiles s)"

definition distinct_tiles :: "snapshot \<Rightarrow> bool" where
  "distinct_tiles s \<longleftrightarrow> distinct (map tile_coord (tiles s))"

lemma full_rows:
  assumes "distinct_tiles s"
  shows "rows_ok H (h_rows (newCanonicalHasher H procs s)) \<and>
    set (rows_cells (h_rows (newCanonicalHasher H procs s))) = snap_cells H s \<and>
    length (rows_cells (h_rows (newCanonicalHasher H procs s))) = length (tiles s)"
proof -
  let ?ts = "sort_key tile_coord (tiles s)"
  let ?cds = "zip (map tile_coord ?ts) (map (tile_digest H) ?ts)"
  have cds: "?cds = map (\<lambda>t. (tile_coord t, tile_digest H t)) ?ts"
    by (simp add: zip_map_map zip_same_conv_map comp_def)
  have "distinct (map tile_coord ?ts)" using assms by (simp add: distinct_tiles_def distinct_map)
  then have "sorted_wrt (<) (map fst ?cds)"
    by (simp add: strict_sorted_iff)
  moreover have "h_rows (newCanonicalHasher H procs s) = group_rows H ?cds"
    by (simp add: newCanonicalHasher_def canonicalTiles_def Let_def)
  ultimately show ?thesis
    using group_rows_ok [of ?cds H] by (simp add: cds snap_cells_def)
qed

lemma full_header [simp]:
  "h_max_x (newCanonicalHasher H procs s) = max_x s" "h_max_y (newCanonicalHasher H procs s) = max_y s"
  "h_max_z (newCanonicalHasher H procs s) = max_z s" "h_tiles (newCanonicalHasher H procs s) = int (length (tiles s))"
  "h_positions (newCanonicalHasher H procs s) = rowPositions (h_rows (newCanonicalHasher H procs s))"
  by (simp_all add: newCanonicalHasher_def canonicalTiles_def Let_def)

lemma mapDigest_cong:
  "h_max_x h = h_max_x g \<Longrightarrow> h_max_y h = h_max_y g \<Longrightarrow> h_max_z h = h_max_z g \<Longrightarrow> h_tiles h = h_tiles g \<Longrightarrow>
     h_rows h = h_rows g \<Longrightarrow> mapDigest H h = mapDigest H g"
  by (simp add: mapDigest_def)

lemma full_digest: "h_digest (newCanonicalHasher H procs s) = mapDigest H (newCanonicalHasher H procs s)"
  unfolding newCanonicalHasher_def Let_def by (simp add: mapDigest_def)

lemma hasher_eq_full:
  assumes "h_max_x h = max_x s" "h_max_y h = max_y s" "h_max_z h = max_z s"
    "h_tiles h = int (length (tiles s))" "h_rows h = h_rows (newCanonicalHasher H procs s)"
    "h_positions h = rowPositions (h_rows h)" "h_digest h = mapDigest H h"
  shows "h = newCanonicalHasher H procs s"
proof -
  have "h_digest h = h_digest (newCanonicalHasher H procs s)"
    unfolding assms(7) full_digest by (rule mapDigest_cong) (simp_all add: assms)
  then show ?thesis using assms by (simp add: hasher.equality)
qed

lemma cells_functional: "distinct_tiles s \<Longrightarrow> inj_on fst (snap_cells H s) \<and> finite (snap_cells H s) \<and>
  card (snap_cells H s) = length (tiles s)"
proof -
  assume "distinct_tiles s"
  then have d: "distinct (map tile_coord (tiles s))" by (simp add: distinct_tiles_def)
  have "inj_on (\<lambda>t. (tile_coord t, tile_digest H t)) (set (tiles s))"
    using d by (auto simp: distinct_map inj_on_def)
  then have "card (snap_cells H s) = card (set (tiles s))" by (simp add: snap_cells_def card_image)
  also have "\<dots> = length (tiles s)" using d by (simp add: distinct_card distinct_map)
  finally show ?thesis using d by (auto simp: snap_cells_def distinct_map inj_on_def)
qed


text \<open>\<open>s\<close> differs from \<open>old\<close> at most at the coordinates of \<open>changed\<close>: every other tile of \<open>old\<close> has a
  tile of \<open>s\<close> that reads the same.\<close>

definition agrees_outside :: "coord list \<Rightarrow> snapshot \<Rightarrow> snapshot \<Rightarrow> bool" where
  "agrees_outside changed old s \<longleftrightarrow>
     list_all (\<lambda>t. tile_coord t \<in> set changed \<or>
       list_ex (\<lambda>u. tile_coord u = tile_coord t \<and> tile_view (tile_st u) = tile_view (tile_st t)) (tiles s)) (tiles old)"

lemma agrees_outsideD:
  assumes "agrees_outside changed old s" "(c, d) \<in> snap_cells H old" "c \<notin> set changed"
  shows "(c, d) \<in> snap_cells H s"
proof -
  obtain t where t: "t \<in> set (tiles old)" "c = tile_coord t" "d = tile_digest H t"
    using assms(2) by (auto simp: snap_cells_def)
  obtain u where u: "u \<in> set (tiles s)" "tile_coord u = tile_coord t" "tile_view (tile_st u) = tile_view (tile_st t)"
    using assms(1,3) t by (auto simp: agrees_outside_def list_all_iff list_ex_iff)
  have "tile_digest H u = tile_digest H t" by (rule tile_digest_view) (simp_all add: u)
  then show ?thesis
    unfolding snap_cells_def by (intro image_eqI [of _ _ u]) (simp_all add: u t)
qed

lemma update_cells_subset:
  assumes "agrees_outside changed old s" "index_fits s indexes (set changed)"
  shows "cell_upd H s indexes (set changed) (snap_cells H old) \<subseteq> snap_cells H s"
proof
  fix cd assume cd: "cd \<in> cell_upd H s indexes (set changed) (snap_cells H old)"
  obtain c d where [simp]: "cd = (c, d)" by fastforce
  show "cd \<in> snap_cells H s"
  proof (cases "c \<in> set changed")
    case True
    then obtain i where i: "indexes c = Some i" "d = tile_digest H (tiles s ! i)"
      using cd by (auto simp: cell_upd_def)
    then have "i < length (tiles s)" "tile_coord (tiles s ! i) = c"
      using assms(2) True by (auto simp: index_fits_def index_mismatch_def)
    then show ?thesis using i by (auto simp: snap_cells_def image_iff intro!: bexI [of _ "tiles s ! i"])
  next
    case False
    then have "(c, d) \<in> snap_cells H old" using cd by (auto simp: cell_upd_def)
    then show ?thesis using agrees_outsideD [OF assms(1) _ False] by simp
  qed
qed


lemma table_sorted:
  assumes "table_ok H rows n"
  shows "rows_ok H (sort_key row_key rows) \<and> set (rows_cells (sort_key row_key rows)) = set (rows_cells rows) \<and>
    n = int (card (set (rows_cells rows)))"
proof -
  let ?rows = "sort_key row_key rows"
  have "distinct (map row_key ?rows)" using assms by (auto simp: table_ok_def distinct_map)
  then have ok: "rows_ok H ?rows"
    using assms by (simp add: rows_ok_def table_ok_def strict_sorted_iff list_all_iff)
  have "mset (map row_cells ?rows) = mset (map row_cells rows)" by simp
  then have len: "length (rows_cells ?rows) = length (rows_cells rows)"
    unfolding rows_cells_def length_concat by (metis mset_map sum_mset_sum_list)
  have cells: "set (rows_cells ?rows) = set (rows_cells rows)" by (simp add: rows_cells_def)
  have "distinct (rows_cells ?rows)"
    using rows_cells_sorted [OF ok] by (simp add: strict_sorted_iff distinct_map)
  then have "card (set (rows_cells rows)) = length (rows_cells rows)"
    using len cells distinct_card by metis
  then show ?thesis using ok cells assms by (simp add: table_ok_def)
qed

lemma update_full_rows:
  assumes "distinct_tiles s" "table_ok H rows (int (length (tiles s)))"
    and "set (rows_cells rows) \<subseteq> snap_cells H s"
  shows "sort_key row_key rows = h_rows (newCanonicalHasher H procs s)"
proof -
  have "set (rows_cells rows) = snap_cells H s"
    using table_sorted [OF assms(2)] cells_functional [OF assms(1)]
    by (intro card_subset_eq assms(3)) simp_all
  then show ?thesis
    using table_sorted [OF assms(2)] full_rows [OF assms(1), of H procs] by (intro rows_determined [of H]) simp_all
qed

lemma full_table:
  assumes "distinct_tiles s"
  shows "table_ok H (h_rows (newCanonicalHasher H procs s)) (int (length (tiles s)))"
  using full_rows [OF assms, of H procs] by (simp add: table_ok_def rows_ok_def strict_sorted_iff)

lemma rows_of_slots_Some [simp]: "rows_of_slots (map Some rows) = rows"
  by (induction rows) (simp_all add: rows_of_slots_def)

lemma rows_of_slots_keys:
  "map (map_option row_key) slots = map (map_option row_key) (map Some rows) \<Longrightarrow>
     map row_key (rows_of_slots slots) = map row_key rows"
proof (induction rows arbitrary: slots)
  case (Cons r rows)
  then obtain r' slots' where "slots = Some r' # slots'" "row_key r' = row_key r"
      "map (map_option row_key) slots' = map (map_option row_key) (map Some rows)"
    by (cases slots) auto
  then show ?case using Cons.IH [of slots'] by simp
qed (simp add: rows_of_slots_def)

lemma Hasher_Update_full:
  assumes "distinct_tiles old" "distinct_tiles s" "agrees_outside changed old s"
  shows "Hasher_Update_some H procs (newCanonicalHasher H procs old) s indexes changed = newCanonicalHasher H procs s"
proof -
  let ?h = "newCanonicalHasher H procs old"
  consider (full) "Hasher_Update_some H procs ?h s indexes changed = newCanonicalHasher H procs s"
    | (rows) slots reshaped where "max_x s = max_x old" "max_y s = max_y old" "max_z s = max_z old"
      "update_rows H s indexes ?h (by_row changed) (map Some (h_rows ?h)) (int (length (tiles old))) False =
         Some (slots, int (length (tiles s)), reshaped)"
    by (cases "update_rows H s indexes ?h (by_row changed) (map Some (h_rows ?h)) (int (length (tiles old))) False")
      (fastforce simp: Hasher_Update_some_def)+
  then show ?thesis
  proof cases
    case rows
    let ?rows = "rows_of_slots slots"
    note by_row = by_row_spec [of changed]
    have old: "table_ok H (h_rows ?h) (int (length (tiles old)))" by (rule full_table [OF assms(1)])
    have slots: "\<forall>k\<in>fst ` set (by_row changed). slot_for ?h (map Some (h_rows ?h)) k"
      using old rowPositions_slot [of "h_rows ?h" ?h] by (simp add: table_ok_def)
    have upd: "table_ok H ?rows (int (length (tiles s))) \<and>
        set (rows_cells ?rows) = cell_upd H s indexes (set changed) (snap_cells H old) \<and>
        index_fits s indexes (set changed) \<and> (\<not> reshaped \<longrightarrow> map row_key ?rows = map row_key (h_rows ?h))"
      using update_rows_spec [OF rows(4)] by_row slots old full_rows [OF assms(1), of H procs] rows_of_slots_keys [of slots "h_rows ?h"]
      by simp
    have sorted: "sort_key row_key ?rows = h_rows (newCanonicalHasher H procs s)"
      using upd update_cells_subset [OF assms(3)] by (intro update_full_rows assms(2)) simp_all
    have kept: "sort_key row_key ?rows = ?rows \<and> rowPositions ?rows = rowPositions (h_rows ?h)" if "\<not> reshaped"
    proof -
      have "map row_key ?rows = map row_key (h_rows ?h)" using upd that by blast
      moreover have "sorted (map row_key (h_rows ?h))"
        using full_rows [OF assms(1), of H procs] by (simp add: rows_ok_def strict_sorted_iff)
      ultimately show ?thesis using rowPositions_keys [of ?rows "h_rows ?h"] by (simp add: sorted_sort_id sort_key_id_if_sorted)
    qed
    show ?thesis
      by (rule hasher_eq_full)
        (use rows sorted kept in \<open>simp_all add: Hasher_Update_some_def Let_def mapDigest_def\<close>)
  qed
qed


text \<open>C11: an incremental update gives the same hasher and the same map hash as hashing the new
  snapshot from scratch, for every coordinate index the caller passes and every number of
  processors, as long as the two snapshots read alike outside the coordinates it names.\<close>

theorem Hasher_Update_matches_full:
  assumes "distinct_tiles old" "distinct_tiles s" "agrees_outside changed old s" "Snapshot_Hash H procs s = Inr digest"
  shows "Hasher_Update H procs (Some (newCanonicalHasher H procs' old)) s indexes changed =
    Inr (newCanonicalHasher H procs s, digest)"
proof -
  have "newCanonicalHasher H procs' old = newCanonicalHasher H procs old"
    by (simp add: newCanonicalHasher_def)
  then show ?thesis
    using assms Hasher_Update_full [OF assms(1,2,3), of H procs indexes]
    by (simp add: Hasher_Update_def Snapshot_Hash_def split: option.splits)
qed

theorem Hasher_Update_matches_full_witness:
  "Hasher_Update sample_digest 4 (Some (newCanonicalHasher sample_digest 1 sample_snapshot)) sample_snapshot2
     Map.empty [Coord 2 1 1] =
   Inr (newCanonicalHasher sample_digest 4 sample_snapshot2, h_digest (newCanonicalHasher sample_digest 4 sample_snapshot2))"
proof (rule Hasher_Update_matches_full)
  show "distinct_tiles sample_snapshot" "distinct_tiles sample_snapshot2"
    by (simp_all add: distinct_tiles_def sample_snapshot_def sample_snapshot2_def sample_map_def sample_tile_def)
  show "agrees_outside [Coord 2 1 1] sample_snapshot sample_snapshot2"
    by (simp add: agrees_outside_def sample_snapshot_def sample_snapshot2_def sample_map_def sample_tile_def)
  show "Snapshot_Hash sample_digest 4 sample_snapshot2 = Inr (h_digest (newCanonicalHasher sample_digest 4 sample_snapshot2))"
    using sample_snapshot_valid by (simp add: Snapshot_Hash_def)
qed

end
