(* ===== verification/Document.thy ===== *)
theory Document
  imports Hash_Update
begin

text \<open>
  The operation engine (engine/document.go, errors.go, local.go, metadata.go, inverse.go): a
  document with its tile table, coordinate index, identity owners and retained history; wire
  operations (\<^verbatim>\<open>ApplyContext\<close>), owner edits (\<^verbatim>\<open>ApplyLocal\<close>), inverses and their validation. The
  methods of a document are called by its serialized owner, so they are functions from the document
  to a result and the next document; a method that returns an error keeps whatever it had cached.

  A Go map that is only read and written by key is a \<open>\<rightharpoonup>\<close>; the accepted operations are also
  counted, so they are a finite map. The flags of the copy-on-write scheme are kept, a pointer to a
  reader counter is its address and its current value is an argument, and the receiver's own address
  is an argument where the code compares it.
\<close>

section \<open>Errors\<close>

datatype code = CodeInvalidOperation | CodeWrongDocument | CodeWrongEnvironment
  | CodeUnknownBaseRevision | CodeBaseHashMismatch | CodeOutOfBounds | CodePreconditionFailed
  | CodeOperationNotFound | CodeActorMismatch | CodeAlreadyInverted

text \<open>The cause of a rejection: a message of the engine or an error of the model package.\<close>

datatype cause = Text string | Caused model_error

datatype engine_error =
    Canceled
  | Rejection code revision string cause
  | Invalid model_error
  | Failure string

definition CodeOf :: "engine_error \<Rightarrow> code option" where
  "CodeOf e = (case e of Rejection c _ _ _ \<Rightarrow> Some c | _ \<Rightarrow> None)"

definition poll :: "ctx \<Rightarrow> engine_error + ctx" where
  "poll c = (case ctx_poll c of None \<Rightarrow> Inl Canceled | Some c' \<Rightarrow> Inr c')"

section \<open>State\<close>

type_synonym address = nat

record document =
  doc_snapshot :: snapshot
  map_hash :: string
  doc_hasher :: "hasher option"
  hashes :: "revision \<rightharpoonup> string"
  accepted :: "(operation_id, accepted_operation) fmap"
  inverted :: "operation_id \<rightharpoonup> operation_id"
  tile_indexes :: "coord \<rightharpoonup> nat"
  identity_owners :: "stable_id \<rightharpoonup> coord"
  shared_tiles :: bool
  scoped_readers :: "address option"
  shared_tile_indexes :: bool
  shared_identity_owners :: bool
  unshared :: bool

definition reject :: "document \<Rightarrow> code \<Rightarrow> cause \<Rightarrow> engine_error" where
  "reject d code cause = Rejection code (snap_revision (doc_snapshot d)) (map_hash d) cause"

primrec index_from :: "tile list \<Rightarrow> nat \<Rightarrow> (coord \<rightharpoonup> nat) \<Rightarrow> (coord \<rightharpoonup> nat)" where
  "index_from [] i m = m"
| "index_from (t # ts) i m = index_from ts (Suc i) (m(tile_coord t \<mapsto> i))"

definition own_ids :: "coord \<Rightarrow> tile_state \<Rightarrow> (stable_id \<rightharpoonup> coord) \<Rightarrow> (stable_id \<rightharpoonup> coord)" where
  "own_ids c st m = foldl (\<lambda>m p. m(prefab_id p \<mapsto> c)) m (prefab_list st)"

definition indexState :: "document \<Rightarrow> document" where
  "indexState d =
     d\<lparr>tile_indexes := index_from (tiles (doc_snapshot d)) 0 Map.empty,
       identity_owners := foldl (\<lambda>m t. own_ids (tile_coord t) (tile_st t) m) Map.empty (tiles (doc_snapshot d))\<rparr>"

definition NewDocument :: "digest_fun \<Rightarrow> nat \<Rightarrow> snapshot \<Rightarrow> model_error + document" where
  "NewDocument H procs s =
     sum_bind (NewCanonicalHasher H procs s) (\<lambda>hasher.
       let mapHash = Hasher_Digest (Some hasher) in
       Inr (indexState
         \<lparr>doc_snapshot = CloneSnapshot s, map_hash = mapHash, doc_hasher = Some hasher,
          hashes = [snap_revision s \<mapsto> mapHash], accepted = fmempty, inverted = Map.empty,
          tile_indexes = Map.empty, identity_owners = Map.empty, shared_tiles = False,
          scoped_readers = None, shared_tile_indexes = False, shared_identity_owners = False,
          unshared = False\<rparr>))"

definition NewUnsharedDocument :: "digest_fun \<Rightarrow> nat \<Rightarrow> snapshot \<Rightarrow> model_error + document" where
  "NewUnsharedDocument H procs s =
     sum_bind (NewDocument H procs s) (\<lambda>d. Inr (d\<lparr>unshared := True\<rparr>))"

definition CachedHash :: "document \<Rightarrow> string \<times> bool" where
  "CachedHash d = (map_hash d, map_hash d \<noteq> [])"

definition ensureHash :: "digest_fun \<Rightarrow> nat \<Rightarrow> document \<Rightarrow> engine_error + document" where
  "ensureHash H procs d =
     (if map_hash d \<noteq> [] then Inr d
      else case NewCanonicalHasher H procs (doc_snapshot d) of
          Inl e \<Rightarrow> Inl (Invalid e)
        | Inr hasher \<Rightarrow>
            let digest = Hasher_Digest (Some hasher) in
            Inr (d\<lparr>doc_hasher := Some hasher, map_hash := digest,
                   hashes := (hashes d)(snap_revision (doc_snapshot d) \<mapsto> digest)\<rparr>))"

definition current_state :: "document \<Rightarrow> coord \<Rightarrow> tile_state" where
  "current_state d c =
     (case tile_indexes d c of
        Some i \<Rightarrow> tile_st (tiles (doc_snapshot d) ! i)
      | None \<Rightarrow> empty_tile)"

definition Document_Tile :: "document \<Rightarrow> coord \<Rightarrow> tile_state" where
  "Document_Tile d c =
     (case tile_indexes d c of
        Some i \<Rightarrow> CloneTileState (tile_st (tiles (doc_snapshot d) ! i))
      | None \<Rightarrow> empty_tile)"

section \<open>Validation of changes\<close>

fun check_preconditions ::
  "document \<Rightarrow> ctx \<Rightarrow> tile_change list \<Rightarrow> coord set \<Rightarrow> engine_error + ctx \<times> coord set" where
  "check_preconditions d c [] touched = Inr (c, touched)"
| "check_preconditions d c (ch # chs) touched =
     sum_bind (poll c) (\<lambda>c'.
     sum_bind (guard (ch_coord ch \<in> touched)
       (reject d CodeInvalidOperation (Text ''duplicate change coordinate''))) (\<lambda>_.
     sum_bind (guard (\<not> Contains (doc_snapshot d) (ch_coord ch))
       (reject d CodeOutOfBounds (Text ''coordinate is outside document''))) (\<lambda>_.
     sum_bind (guard (\<not> TileState_Equal (current_state d (ch_coord ch)) (before ch))
       (reject d CodePreconditionFailed (Text ''tile precondition failed''))) (\<lambda>_.
     check_preconditions d c' chs (insert (ch_coord ch) touched)))))"

fun check_prefabs ::
  "document \<Rightarrow> coord set \<Rightarrow> ctx \<Rightarrow> prefab_state list \<Rightarrow> stable_id set \<Rightarrow> engine_error + ctx \<times> stable_id set" where
  "check_prefabs d touched c [] assigned = Inr (c, assigned)"
| "check_prefabs d touched c (p # ps) assigned =
     sum_bind (poll c) (\<lambda>c'.
     sum_bind (check (StableID_Validate (prefab_id p)) (\<lambda>e. reject d CodeInvalidOperation (Caused (IdError e)))) (\<lambda>_.
     sum_bind (guard (prefab_id p \<in> assigned)
       (reject d CodeInvalidOperation (Text ''duplicate stable id''))) (\<lambda>_.
     sum_bind (guard (case identity_owners d (prefab_id p) of Some owner \<Rightarrow> owner \<notin> touched | None \<Rightarrow> False)
       (reject d CodeInvalidOperation (Text ''stable id belongs to unchanged tile''))) (\<lambda>_.
     check_prefabs d touched c' ps (insert (prefab_id p) assigned)))))"

fun check_assignments ::
  "document \<Rightarrow> coord set \<Rightarrow> ctx \<Rightarrow> tile_change list \<Rightarrow> stable_id set \<Rightarrow> engine_error + ctx" where
  "check_assignments d touched c [] assigned = Inr c"
| "check_assignments d touched c (ch # chs) assigned =
     sum_bind (check_prefabs d touched c (prefab_list (after ch)) assigned) (\<lambda>(c', assigned').
     check_assignments d touched c' chs assigned')"

definition count_ok :: "snapshot \<Rightarrow> tile_change list \<Rightarrow> bool" where
  "count_ok s chs \<longleftrightarrow> (case CellCount s of Inl _ \<Rightarrow> False
     | Inr cells \<Rightarrow> chs \<noteq> [] \<and> int (length chs) \<le> cells)"

definition validateChanges :: "document \<Rightarrow> ctx \<Rightarrow> tile_change list \<Rightarrow> engine_error + ctx" where
  "validateChanges d c chs =
     sum_bind (guard (\<not> count_ok (doc_snapshot d) chs)
       (reject d CodeInvalidOperation (Text ''invalid tile change count''))) (\<lambda>_.
     sum_bind (check_preconditions d c chs {}) (\<lambda>(c', touched).
     check_assignments d touched c' chs {}))"

section \<open>Publication of changes\<close>

definition ownTileIndexes :: "document \<Rightarrow> document" where
  "ownTileIndexes d = (if shared_tile_indexes d then d\<lparr>shared_tile_indexes := False\<rparr> else d)"

definition release_ids :: "tile_state \<Rightarrow> (stable_id \<rightharpoonup> coord) \<Rightarrow> (stable_id \<rightharpoonup> coord)" where
  "release_ids st m = foldl (\<lambda>m p. m(prefab_id p := None)) m (prefab_list st)"

definition updateIdentityOwners :: "tile_change list \<Rightarrow> document \<Rightarrow> document" where
  "updateIdentityOwners chs d =
     (let d1 = (if shared_identity_owners d then d\<lparr>shared_identity_owners := False\<rparr> else d);
          released = foldl (\<lambda>m ch. release_ids (before ch) m) (identity_owners d1) chs
      in d1\<lparr>identity_owners := foldl (\<lambda>m ch. own_ids (ch_coord ch) (after ch) m) released chs\<rparr>)"

definition set_tile :: "nat \<Rightarrow> tile_state \<Rightarrow> tile list \<Rightarrow> tile list" where
  "set_tile i st ts = ts[i := (ts ! i)\<lparr>tile_st := st\<rparr>]"

fun install_tiles :: "tile_change list \<Rightarrow> document \<Rightarrow> document" where
  "install_tiles [] d = d"
| "install_tiles (ch # chs) d =
     (let s = doc_snapshot d in
      case tile_indexes d (ch_coord ch) of
        Some i \<Rightarrow> install_tiles chs (d\<lparr>doc_snapshot := s\<lparr>tiles := set_tile i (after ch) (tiles s)\<rparr>\<rparr>)
      | None \<Rightarrow>
          let d1 = ownTileIndexes d in
          install_tiles chs
            (d1\<lparr>tile_indexes := (tile_indexes d1)(ch_coord ch \<mapsto> length (tiles s)),
                doc_snapshot := s\<lparr>tiles := tiles s @ [\<lparr>tile_coord = ch_coord ch, tile_st = after ch\<rparr>]\<rparr>\<rparr>))"

definition installChanges :: "tile_change list \<Rightarrow> document \<Rightarrow> document" where
  "installChanges chs d = install_tiles chs (updateIdentityOwners chs d)"

fun cloneChangesContext :: "ctx \<Rightarrow> tile_change list \<Rightarrow> engine_error + ctx \<times> tile_change list" where
  "cloneChangesContext c [] = Inr (c, [])"
| "cloneChangesContext c (ch # chs) =
     sum_bind (poll c) (\<lambda>c'.
     sum_bind (cloneChangesContext c' chs) (\<lambda>(c'', rest). Inr (c'', CloneChange ch # rest)))"

definition cloneOperationContext :: "ctx \<Rightarrow> operation \<Rightarrow> engine_error + ctx \<times> operation" where
  "cloneOperationContext c op =
     sum_bind (cloneChangesContext c (changes op)) (\<lambda>(c', chs). Inr (c', op\<lparr>changes := chs\<rparr>))"

section \<open>Owner edits\<close>

record local_version =
  lv_document :: document_id
  lv_revision :: revision
  lv_owner :: "address option"

record local_request =
  lr_version :: local_version
  lr_changes :: "tile_change list"

record local_acceptance =
  la_document :: document_id
  la_revision :: revision
  la_changes :: "tile_change list"

definition LocalVersion :: "address \<Rightarrow> document \<Rightarrow> local_version" where
  "LocalVersion self d =
     (if \<not> unshared d then \<lparr>lv_document = [], lv_revision = 0, lv_owner = None\<rparr>
      else \<lparr>lv_document = snap_document (doc_snapshot d), lv_revision = snap_revision (doc_snapshot d),
            lv_owner = Some self\<rparr>)"

text \<open>\<open>loads\<close> gives the present value of each reader counter.\<close>

definition own_tiles :: "(address \<Rightarrow> int) \<Rightarrow> document \<Rightarrow> document" where
  "own_tiles loads d =
     (if shared_tiles d \<or> (case scoped_readers d of Some r \<Rightarrow> loads r \<noteq> 0 | None \<Rightarrow> False)
      then d\<lparr>shared_tiles := False, scoped_readers := None\<rparr> else d)"

definition local_accept ::
  "(address \<Rightarrow> int) \<Rightarrow> ctx \<Rightarrow> tile_change list \<Rightarrow> local_request \<Rightarrow> document \<Rightarrow>
     engine_error + local_acceptance \<times> document" where
  "local_accept loads c chs request d =
     (if chs = []
      then Inr (\<lparr>la_document = lv_document (lr_version request), la_revision = lv_revision (lr_version request),
                 la_changes = []\<rparr>, d)
      else
        sum_bind (guard (snap_revision (doc_snapshot d) = - 1)
          (reject d CodeInvalidOperation (Text ''document revision exhausted''))) (\<lambda>_.
        sum_bind (poll c) (\<lambda>_.
        let d1 = installChanges chs (own_tiles loads d);
            s = doc_snapshot d1;
            d2 = d1\<lparr>doc_snapshot := s\<lparr>snap_revision := snap_revision s + 1\<rparr>, map_hash := [], doc_hasher := None\<rparr>
        in Inr (\<lparr>la_document = lv_document (lr_version request), la_revision = snap_revision (doc_snapshot d2),
                 la_changes = map CloneChange chs\<rparr>, d2))))"

definition apply_local ::
  "(address \<Rightarrow> int) \<Rightarrow> address \<Rightarrow> ctx \<Rightarrow> local_request \<Rightarrow> document \<Rightarrow> engine_error + local_acceptance \<times> document" where
  "apply_local loads self c request d =
     sum_bind (poll c) (\<lambda>c1.
     sum_bind (guard (\<not> unshared d \<or> lv_owner (lr_version request) \<noteq> Some self \<or>
         lv_document (lr_version request) \<noteq> snap_document (doc_snapshot d))
       (reject d CodeWrongDocument (Text ''local document lifetime changed''))) (\<lambda>_.
     sum_bind (guard (lv_revision (lr_version request) \<noteq> snap_revision (doc_snapshot d))
       (reject d CodeUnknownBaseRevision (Text ''local revision changed''))) (\<lambda>_.
     sum_bind (cloneChangesContext c1 (lr_changes request)) (\<lambda>(c2, owned).
     let sorted = sort_changes owned in
     sum_bind (validateChanges d c2 sorted) (\<lambda>c3.
     local_accept loads c3 (filter (\<lambda>ch. \<not> TileState_Equal (before ch) (after ch)) sorted) request d)))))"

definition ApplyLocal ::
  "(address \<Rightarrow> int) \<Rightarrow> address \<Rightarrow> ctx \<Rightarrow> local_request \<Rightarrow> document \<Rightarrow> (engine_error + local_acceptance) \<times> document" where
  "ApplyLocal loads self c request d =
     (case apply_local loads self c request d of Inl e \<Rightarrow> (Inl e, d) | Inr (a, d') \<Rightarrow> (Inr a, d'))"

section \<open>Inverses\<close>

fun same_inverse :: "document \<Rightarrow> ctx \<Rightarrow> tile_change list \<Rightarrow> tile_change list \<Rightarrow> engine_error + ctx" where
  "same_inverse d c (ch # chs) (target # targets) =
     sum_bind (poll c) (\<lambda>c'.
     sum_bind (guard (ch_coord ch \<noteq> ch_coord target \<or> \<not> TileState_Equal (before ch) (after target) \<or>
         \<not> TileState_Equal (after ch) (before target))
       (reject d CodeInvalidOperation (Text ''inverse change does not exactly reverse target''))) (\<lambda>_.
     same_inverse d c' chs targets))"
| "same_inverse d c chs targets = Inr c"

definition validateInverseContext :: "document \<Rightarrow> ctx \<Rightarrow> operation \<Rightarrow> engine_error + ctx" where
  "validateInverseContext d c op =
     (if op_kind op \<noteq> InverseKind then Inr c
      else case inverse_of op of
          None \<Rightarrow> Inl (reject d CodeInvalidOperation (Text ''inverse operation must name its target''))
        | Some target_id \<Rightarrow>
      (case fmlookup (accepted d) target_id of
          None \<Rightarrow> Inl (reject d CodeOperationNotFound (Text ''target operation was not accepted''))
        | Some target \<Rightarrow>
            sum_bind (guard (op_actor (acc_op target) \<noteq> op_actor op)
              (reject d CodeActorMismatch (Text ''target operation belongs to another actor''))) (\<lambda>_.
            sum_bind (guard (op_kind (acc_op target) = InverseKind)
              (reject d CodeInvalidOperation (Text ''inverse operations are redone as new forward operations''))) (\<lambda>_.
            sum_bind (guard (inverted d target_id \<noteq> None)
              (reject d CodeAlreadyInverted (Text ''target operation was inverted''))) (\<lambda>_.
            sum_bind (guard (length (changes op) \<noteq> length (changes (acc_op target)))
              (reject d CodeInvalidOperation (Text ''inverse change count''))) (\<lambda>_.
            same_inverse d c (changes op) (changes (acc_op target))))))))"

fun inverse_changes ::
  "document \<Rightarrow> ctx \<Rightarrow> tile_change list \<Rightarrow> engine_error + tile_change list" where
  "inverse_changes d c [] = Inr []"
| "inverse_changes d c (target # targets) =
     sum_bind (poll c) (\<lambda>c'.
     sum_bind (guard (\<not> TileState_Equal (current_state d (ch_coord target)) (after target))
       (reject d CodePreconditionFailed (Text ''target after-value changed''))) (\<lambda>_.
     sum_bind (inverse_changes d c' targets) (\<lambda>rest.
     Inr (\<lparr>ch_coord = ch_coord target, before = CloneTileState (after target),
           after = CloneTileState (before target)\<rparr> # rest))))"

definition build_inverse ::
  "ctx \<Rightarrow> actor_id \<Rightarrow> operation_id \<Rightarrow> operation_id \<Rightarrow> document \<Rightarrow> engine_error + operation" where
  "build_inverse c actor target_id inverse_id d =
     sum_bind (check (ActorID_Validate actor) (\<lambda>e. reject d CodeInvalidOperation (Caused (IdError e)))) (\<lambda>_.
     sum_bind (check (OperationID_Validate inverse_id) (\<lambda>e. reject d CodeInvalidOperation (Caused (IdError e)))) (\<lambda>_.
     case fmlookup (accepted d) target_id of
        None \<Rightarrow> Inl (reject d CodeOperationNotFound (Text ''target operation was not accepted''))
      | Some target \<Rightarrow>
          sum_bind (guard (op_actor (acc_op target) \<noteq> actor)
            (reject d CodeActorMismatch (Text ''target operation belongs to another actor''))) (\<lambda>_.
          sum_bind (guard (inverted d target_id \<noteq> None)
            (reject d CodeAlreadyInverted (Text ''target operation was inverted''))) (\<lambda>_.
          sum_bind (guard (op_kind (acc_op target) = InverseKind)
            (reject d CodeInvalidOperation (Text ''inverse operations are redone as new forward operations''))) (\<lambda>_.
          sum_bind (inverse_changes d c (changes (acc_op target))) (\<lambda>chs.
          Inr \<lparr>op_protocol = ProtocolVersion, op_document = snap_document (doc_snapshot d), op_actor = actor,
               op_id = inverse_id, base_revision = snap_revision (doc_snapshot d),
               op_environment = environment_hash (doc_snapshot d), base_map_hash = map_hash d,
               op_kind = InverseKind, changes = chs, inverse_of = Some target_id\<rparr>))))))"

definition BuildInverseContext ::
  "digest_fun \<Rightarrow> nat \<Rightarrow> ctx \<Rightarrow> actor_id \<Rightarrow> operation_id \<Rightarrow> operation_id \<Rightarrow> document \<Rightarrow>
     (engine_error + operation) \<times> document" where
  "BuildInverseContext H procs c actor target_id inverse_id d =
     (case poll c of
        Inl e \<Rightarrow> (Inl e, d)
      | Inr c' \<Rightarrow>
          (case ensureHash H procs d of
             Inl e \<Rightarrow> (Inl e, d)
           | Inr d' \<Rightarrow> (build_inverse c' actor target_id inverse_id d', d')))"

definition BuildInverse ::
  "digest_fun \<Rightarrow> nat \<Rightarrow> actor_id \<Rightarrow> operation_id \<Rightarrow> operation_id \<Rightarrow> document \<Rightarrow>
     (engine_error + operation) \<times> document" where
  "BuildInverse H procs = BuildInverseContext H procs Background"

section \<open>Wire operations\<close>

fun candidate_tiles ::
  "(coord \<rightharpoonup> nat) \<Rightarrow> ctx \<Rightarrow> tile_change list \<Rightarrow> tile list \<Rightarrow> engine_error + ctx \<times> tile list" where
  "candidate_tiles indexes c [] ts = Inr (c, ts)"
| "candidate_tiles indexes c (ch # chs) ts =
     sum_bind (poll c) (\<lambda>c'.
     candidate_tiles indexes c' chs
       (case indexes (ch_coord ch) of
          Some i \<Rightarrow> set_tile i (after ch) ts
        | None \<Rightarrow> ts @ [\<lparr>tile_coord = ch_coord ch, tile_st = after ch\<rparr>]))"

definition validate_header :: "document \<Rightarrow> operation \<Rightarrow> engine_error + unit" where
  "validate_header d op =
     sum_bind (guard (op_protocol op \<noteq> ProtocolVersion)
       (reject d CodeInvalidOperation (Text ''protocol version''))) (\<lambda>_.
     sum_bind (check (ActorID_Validate (op_actor op)) (\<lambda>e. reject d CodeInvalidOperation (Caused (IdError e)))) (\<lambda>_.
     sum_bind (check (OperationID_Validate (op_id op)) (\<lambda>e. reject d CodeInvalidOperation (Caused (IdError e)))) (\<lambda>_.
     sum_bind (check (case inverse_of op of None \<Rightarrow> None | Some i \<Rightarrow> OperationID_Validate i)
       (\<lambda>e. reject d CodeInvalidOperation (Caused (IdError e)))) (\<lambda>_.
     sum_bind (check (ValidateSHA256 ''environment hash'' (op_environment op))
       (\<lambda>e. reject d CodeInvalidOperation (Caused e))) (\<lambda>_.
     sum_bind (guard (op_environment op \<noteq> environment_hash (doc_snapshot d))
       (reject d CodeWrongEnvironment (Text ''environment hash does not match document''))) (\<lambda>_.
     sum_bind (check (ValidateSHA256 ''base map hash'' (base_map_hash op))
       (\<lambda>e. reject d CodeInvalidOperation (Caused e))) (\<lambda>_.
     case hashes d (base_revision op) of
        None \<Rightarrow> Inl (reject d CodeUnknownBaseRevision (Text ''base revision is not retained''))
      | Some base_hash \<Rightarrow>
          sum_bind (guard (base_map_hash op \<noteq> base_hash)
            (reject d CodeBaseHashMismatch (Text ''base map hash does not match revision''))) (\<lambda>_.
          sum_bind (guard (op_kind op \<noteq> TileChangeKind \<and> op_kind op \<noteq> InverseKind)
            (reject d CodeInvalidOperation (Text ''unsupported operation kind''))) (\<lambda>_.
          sum_bind (guard (op_kind op = TileChangeKind \<and> inverse_of op \<noteq> None)
            (reject d CodeInvalidOperation (Text ''forward tile change cannot name inverse target''))) (\<lambda>_.
          guard (\<not> count_ok (doc_snapshot d) (changes op))
            (reject d CodeInvalidOperation (Text ''tile change count''))))))))))))"

definition hash_candidate ::
  "digest_fun \<Rightarrow> nat \<Rightarrow> document \<Rightarrow> snapshot \<Rightarrow> coord list \<Rightarrow> engine_error + hasher \<times> string" where
  "hash_candidate H procs d candidate changed =
     (let base = (if Hasher_Digest (doc_hasher d) \<noteq> map_hash d then None else doc_hasher d) in
      case Hasher_Update H procs base candidate (tile_indexes d) changed of
        Inl e \<Rightarrow> Inl (reject d CodeInvalidOperation (Caused e))
      | Inr r \<Rightarrow> Inr r)"

definition validateContext ::
  "digest_fun \<Rightarrow> nat \<Rightarrow> ctx \<Rightarrow> document \<Rightarrow> operation \<Rightarrow>
     engine_error + ctx \<times> operation \<times> snapshot \<times> string \<times> hasher" where
  "validateContext H procs c d op =
     sum_bind (validate_header d op) (\<lambda>_.
     sum_bind (cloneOperationContext c op) (\<lambda>(c1, owned).
     let normalized = owned\<lparr>changes := sort_changes (changes owned)\<rparr> in
     sum_bind (validateInverseContext d c1 normalized) (\<lambda>c2.
     sum_bind (validateChanges d c2 (changes normalized)) (\<lambda>c3.
     sum_bind (candidate_tiles (tile_indexes d) c3 (changes normalized) (tiles (doc_snapshot d))) (\<lambda>(c4, ts).
     let candidate = (doc_snapshot d)\<lparr>tiles := ts\<rparr> in
     sum_bind (hash_candidate H procs d candidate (map ch_coord (changes normalized))) (\<lambda>(hasher, digest).
     Inr (c4, normalized, candidate, digest, hasher)))))))"

fun add_indexes :: "tile_change list \<Rightarrow> nat \<Rightarrow> document \<Rightarrow> document" where
  "add_indexes [] next d = d"
| "add_indexes (ch # chs) next d =
     (if tile_indexes d (ch_coord ch) = None then
        let d1 = ownTileIndexes d in
        add_indexes chs (Suc next) (d1\<lparr>tile_indexes := (tile_indexes d1)(ch_coord ch \<mapsto> next)\<rparr>)
      else add_indexes chs next d)"

text \<open>The publication at the end of \<^verbatim>\<open>ApplyContext\<close>.\<close>

definition publish ::
  "operation \<Rightarrow> snapshot \<Rightarrow> string \<Rightarrow> hasher \<Rightarrow> int \<Rightarrow> document \<Rightarrow> accepted_operation \<times> document" where
  "publish normalized candidate digest hasher at d =
     (let candidate' = candidate\<lparr>snap_revision := snap_revision (doc_snapshot d) + 1\<rparr>;
          acc = \<lparr>acc_op = normalized, acc_revision = snap_revision candidate', accepted_at = at\<rparr>;
          d1 = add_indexes (changes normalized) (length (tiles (doc_snapshot d))) d;
          d2 = updateIdentityOwners (changes normalized)
                 (d1\<lparr>doc_snapshot := candidate', shared_tiles := False, scoped_readers := None\<rparr>);
          d3 = d2\<lparr>map_hash := digest, doc_hasher := Some hasher,
                  hashes := (hashes d2)(snap_revision candidate' \<mapsto> digest),
                  accepted := fmupd (op_id normalized) acc (accepted d2)\<rparr>;
          d4 = (case inverse_of normalized of
                  None \<Rightarrow> d3
                | Some target \<Rightarrow> d3\<lparr>inverted := (inverted d3)(target \<mapsto> op_id normalized)\<rparr>)
      in (CloneAcceptedOperation acc, d4))"

definition apply_hashed ::
  "digest_fun \<Rightarrow> nat \<Rightarrow> ctx \<Rightarrow> operation \<Rightarrow> int \<Rightarrow> document \<Rightarrow> engine_error + accepted_operation \<times> document" where
  "apply_hashed H procs c op at d =
     sum_bind (guard (op_document op \<noteq> snap_document (doc_snapshot d))
       (reject d CodeWrongDocument (Text ''document id''))) (\<lambda>_.
     case fmlookup (accepted d) (op_id op) of
        Some acc \<Rightarrow>
          sum_bind (guard (\<not> SameOperation (acc_op acc) op)
            (reject d CodeInvalidOperation (Text ''operation identity already names different content''))) (\<lambda>_.
          Inr (CloneAcceptedOperation acc, d))
      | None \<Rightarrow>
          sum_bind (validateContext H procs c d op) (\<lambda>(c1, normalized, candidate, digest, hasher).
          sum_bind (poll c1) (\<lambda>_.
          Inr (publish normalized candidate digest hasher at d))))"

definition ApplyContext ::
  "digest_fun \<Rightarrow> nat \<Rightarrow> ctx \<Rightarrow> operation \<Rightarrow> int \<Rightarrow> document \<Rightarrow> (engine_error + accepted_operation) \<times> document" where
  "ApplyContext H procs c op at d =
     (case poll c of
        Inl e \<Rightarrow> (Inl e, d)
      | Inr c' \<Rightarrow>
          (case ensureHash H procs d of
             Inl e \<Rightarrow> (Inl e, d)
           | Inr d1 \<Rightarrow>
               (case apply_hashed H procs c' op at d1 of
                  Inl e \<Rightarrow> (Inl e, d1)
                | Inr (acc, d2) \<Rightarrow> (Inr acc, d2))))"

definition Apply ::
  "digest_fun \<Rightarrow> nat \<Rightarrow> operation \<Rightarrow> int \<Rightarrow> document \<Rightarrow> (engine_error + accepted_operation) \<times> document" where
  "Apply H procs = ApplyContext H procs Background"

section \<open>Copies and reads\<close>

text \<open>\<^verbatim>\<open>Clone\<close> marks the receiver's tables shared and returns a branch that shares them.\<close>

definition share_tables :: "document \<Rightarrow> document" where
  "share_tables d = d\<lparr>shared_tiles := True, shared_tile_indexes := True, shared_identity_owners := True\<rparr>"

definition Document_Clone :: "document \<Rightarrow> document \<times> document" where
  "Document_Clone d = ((share_tables d)\<lparr>scoped_readers := None\<rparr>, share_tables d)"

definition Document_Snapshot :: "document \<Rightarrow> snapshot" where
  "Document_Snapshot d = CloneSnapshot (doc_snapshot d)"

record metadata =
  md_protocol :: u16
  md_schema :: u16
  md_document :: document_id
  md_revision :: revision
  md_map_hash :: string

definition Metadata :: "digest_fun \<Rightarrow> nat \<Rightarrow> document \<Rightarrow> (engine_error + metadata) \<times> document" where
  "Metadata H procs d =
     (case ensureHash H procs d of
        Inl e \<Rightarrow> (Inl e, d)
      | Inr d' \<Rightarrow>
          (Inr \<lparr>md_protocol = protocol_version (doc_snapshot d'), md_schema = schema_version (doc_snapshot d'),
                md_document = snap_document (doc_snapshot d'), md_revision = snap_revision (doc_snapshot d'),
                md_map_hash = map_hash d'\<rparr>, d'))"

definition Document_Revision :: "document \<Rightarrow> revision" where
  "Document_Revision d = snap_revision (doc_snapshot d)"

definition EqualSnapshot :: "document \<Rightarrow> snapshot \<Rightarrow> bool" where
  "EqualSnapshot d s \<longleftrightarrow> doc_snapshot d = s"

end
