(* ===== verification/Document_Inv.thy ===== *)
theory Document_Inv
  imports Document
begin

text \<open>
  The representation invariant of a document and its preservation. A tile list stands for a finite
  table from coordinates to tile states; the tile table after an operation is the old one overridden
  by the changes, whether it was written by the wire path (a candidate copy, then the index) or by
  the owner path (in place). Validation of changes is characterised by a specification over that
  table, and the invariant of the new document follows from it.
\<close>

section \<open>Tile tables\<close>

definition tile_table :: "tile list \<Rightarrow> coord \<rightharpoonup> tile_state" where
  "tile_table ts = map_of (map (\<lambda>t. (tile_coord t, tile_st t)) ts)"

definition change_table :: "tile_change list \<Rightarrow> coord \<rightharpoonup> tile_state" where
  "change_table chs = map_of (map (\<lambda>ch. (ch_coord ch, after ch)) chs)"

definition map_view :: "snapshot \<Rightarrow> coord \<Rightarrow> tile_view" where
  "map_view s c = (case tile_table (tiles s) c of None \<Rightarrow> [] | Some st \<Rightarrow> tile_view st)"

definition table_view :: "(coord \<rightharpoonup> tile_state) \<Rightarrow> coord \<Rightarrow> tile_view" where
  "table_view tb c = (case tb c of None \<Rightarrow> [] | Some st \<Rightarrow> tile_view st)"

lemma map_view_table: "map_view s = table_view (tile_table (tiles s))"
  by (simp add: fun_eq_iff map_view_def table_view_def)

definition apply_view :: "tile_change list \<Rightarrow> (coord \<Rightarrow> tile_view) \<Rightarrow> (coord \<Rightarrow> tile_view)" where
  "apply_view chs m c = (case change_table chs c of None \<Rightarrow> m c | Some st \<Rightarrow> tile_view st)"

lemma dom_tile_table: "dom (tile_table ts) = tile_coord ` set ts"
  by (force simp: tile_table_def dom_map_of_conv_image_fst)

lemma dom_change_table: "dom (change_table chs) = ch_coord ` set chs"
  by (force simp: change_table_def dom_map_of_conv_image_fst)

lemma tile_table_Some_iff:
  "distinct (map tile_coord ts) \<Longrightarrow> tile_table ts c = Some st \<longleftrightarrow> (\<exists>t\<in>set ts. tile_coord t = c \<and> tile_st t = st)"
  unfolding tile_table_def by (subst map_of_eq_Some_iff) (auto simp: comp_def)

lemma change_table_Some_iff:
  "distinct (map ch_coord chs) \<Longrightarrow> change_table chs c = Some st \<longleftrightarrow> (\<exists>ch\<in>set chs. ch_coord ch = c \<and> after ch = st)"
  unfolding change_table_def by (subst map_of_eq_Some_iff) (auto simp: comp_def)

lemma tile_table_nth:
  "distinct (map tile_coord ts) \<Longrightarrow> i < length ts \<Longrightarrow> tile_table ts (tile_coord (ts ! i)) = Some (tile_st (ts ! i))"
  by (auto simp: tile_table_Some_iff)

lemma tile_table_append [simp]: "tile_table (ts @ us) = tile_table us ++ tile_table ts"
  by (simp add: tile_table_def)

definition indexes_ok :: "tile list \<Rightarrow> (coord \<rightharpoonup> nat) \<Rightarrow> bool" where
  "indexes_ok ts m \<longleftrightarrow> (\<forall>c i. m c = Some i \<longleftrightarrow> i < length ts \<and> tile_coord (ts ! i) = c)"

definition owners_ok :: "(coord \<rightharpoonup> tile_state) \<Rightarrow> (stable_id \<rightharpoonup> coord) \<Rightarrow> bool" where
  "owners_ok tb m \<longleftrightarrow> (\<forall>i c. m i = Some c \<longleftrightarrow> (\<exists>st. tb c = Some st \<and> i \<in> set (tile_ids st)))"

text \<open>Identifiers of a table: valid, and each at one place of one tile.\<close>

definition ids_ok :: "(coord \<rightharpoonup> tile_state) \<Rightarrow> bool" where
  "ids_ok tb \<longleftrightarrow>
     (\<forall>c st. tb c = Some st \<longrightarrow> distinct (tile_ids st) \<and> (\<forall>i\<in>set (tile_ids st). StableID_Validate i = None)) \<and>
     (\<forall>c c' st st'. tb c = Some st \<longrightarrow> tb c' = Some st' \<longrightarrow> c \<noteq> c' \<longrightarrow> set (tile_ids st) \<inter> set (tile_ids st') = {})"

lemma snapshot_ids_distinct:
  assumes "distinct (map tile_coord ts)"
  shows "distinct (concat (map (tile_ids \<circ> tile_st) ts)) \<longleftrightarrow>
    (\<forall>t\<in>set ts. distinct (tile_ids (tile_st t))) \<and>
    (\<forall>t\<in>set ts. \<forall>u\<in>set ts. tile_coord t \<noteq> tile_coord u \<longrightarrow> set (tile_ids (tile_st t)) \<inter> set (tile_ids (tile_st u)) = {})"
  using assms
proof (induction ts)
  case (Cons t ts)
  have "tile_coord u \<noteq> tile_coord t" if "u \<in> set ts" for u
    using Cons.prems imageI [OF that, of tile_coord] by auto
  then show ?case using Cons by (simp add: Int_commute) blast
qed simp

lemma snapshot_ok_table:
  "snapshot_ok s \<longleftrightarrow> header_ok s \<and> distinct (map tile_coord (tiles s)) \<and>
     (\<forall>c\<in>dom (tile_table (tiles s)). Contains s c) \<and> ids_ok (tile_table (tiles s))"
proof (cases "distinct (map tile_coord (tiles s))")
  case True
  note tb = tile_table_Some_iff [OF True]
  have "ids_ok (tile_table (tiles s)) \<longleftrightarrow>
      distinct (snapshot_ids s) \<and> (\<forall>i\<in>set (snapshot_ids s). StableID_Validate i = None)"
    unfolding ids_ok_def tb snapshot_ids_def snapshot_ids_distinct [OF True] by (simp add: Ball_def Bex_def) blast
  then show ?thesis using True by (simp add: snapshot_ok_def dom_tile_table)
next
  case False
  then show ?thesis by (simp add: snapshot_ok_def)
qed

section \<open>Writing changes\<close>

fun write_tiles :: "(coord \<rightharpoonup> nat) \<Rightarrow> tile_change list \<Rightarrow> tile list \<Rightarrow> tile list" where
  "write_tiles m [] ts = ts"
| "write_tiles m (ch # chs) ts = write_tiles m chs
     (case m (ch_coord ch) of Some i \<Rightarrow> set_tile i (after ch) ts
      | None \<Rightarrow> ts @ [\<lparr>tile_coord = ch_coord ch, tile_st = after ch\<rparr>])"

definition fits :: "(coord \<rightharpoonup> nat) \<Rightarrow> tile_change list \<Rightarrow> tile list \<Rightarrow> bool" where
  "fits m chs ts \<longleftrightarrow> distinct (map ch_coord chs) \<and> distinct (map tile_coord ts) \<and>
     (\<forall>ch\<in>set chs. case m (ch_coord ch) of
        Some i \<Rightarrow> i < length ts \<and> tile_coord (ts ! i) = ch_coord ch
      | None \<Rightarrow> ch_coord ch \<notin> tile_coord ` set ts)"

definition new_coords :: "(coord \<rightharpoonup> nat) \<Rightarrow> tile_change list \<Rightarrow> coord list" where
  "new_coords m chs = filter (\<lambda>c. m c = None) (map ch_coord chs)"

lemma set_tile_nth:
  "j < length ts \<Longrightarrow> set_tile i st ts ! j = (if j = i then (ts ! j)\<lparr>tile_st := st\<rparr> else ts ! j)"
  by (simp add: set_tile_def)

lemma length_set_tile [simp]: "length (set_tile i st ts) = length ts"
  by (simp add: set_tile_def)

lemma set_tile_nth_coord [simp]: "j < length ts \<Longrightarrow> tile_coord (set_tile i st ts ! j) = tile_coord (ts ! j)"
  by (simp add: set_tile_nth)

lemma set_tile_coords [simp]: "map tile_coord (set_tile i st ts) = map tile_coord ts"
  by (rule nth_equalityI) simp_all

lemma set_tile_coord_set [simp]: "tile_coord ` set (set_tile i st ts) = tile_coord ` set ts"
  by (metis set_map set_tile_coords)

lemma set_tile_table:
  assumes "distinct (map tile_coord ts)" "i < length ts"
  shows "tile_table (set_tile i st ts) = (tile_table ts)(tile_coord (ts ! i) \<mapsto> st)"
proof (rule ext)
  fix c
  have d: "distinct (map tile_coord (set_tile i st ts))" using assms(1) by simp
  show "tile_table (set_tile i st ts) c = ((tile_table ts)(tile_coord (ts ! i) \<mapsto> st)) c"
  proof (cases "c \<in> tile_coord ` set ts")
    case True
    then obtain j where j: "j < length ts" "c = tile_coord (ts ! j)" by (auto simp: in_set_conv_nth)
    then have "j = i \<longleftrightarrow> c = tile_coord (ts ! i)" using assms by (auto simp: distinct_conv_nth)
    then show ?thesis
      using tile_table_nth [OF d, of j] tile_table_nth [OF assms(1), of j] j assms
      by (auto simp: set_tile_nth)
  next
    case False
    then have "tile_table (set_tile i st ts) c = None" "tile_table ts c = None" "c \<noteq> tile_coord (ts ! i)"
      using dom_tile_table [of "set_tile i st ts"] dom_tile_table [of ts] assms(2)
      by (auto simp: domIff)
    then show ?thesis by simp
  qed
qed

lemma fits_step:
  assumes "fits m (ch # chs) ts"
  defines "ts' \<equiv> (case m (ch_coord ch) of Some i \<Rightarrow> set_tile i (after ch) ts
      | None \<Rightarrow> ts @ [\<lparr>tile_coord = ch_coord ch, tile_st = after ch\<rparr>])"
  shows "fits m chs ts'" "tile_table ts' = (tile_table ts)(ch_coord ch \<mapsto> after ch)"
    "map tile_coord ts' = map tile_coord ts @ new_coords m [ch]"
proof -
  have other: "ch_coord ch' \<noteq> ch_coord ch" if "ch' \<in> set chs" for ch'
    using assms(1) imageI [OF that, of ch_coord] by (auto simp: fits_def)
  show "fits m chs ts'"
    using assms(1) other unfolding ts'_def
    by (cases "m (ch_coord ch)") (simp_all add: fits_def nth_append split: option.splits, fastforce+)
  show "tile_table ts' = (tile_table ts)(ch_coord ch \<mapsto> after ch)"
  proof (cases "m (ch_coord ch)")
    case None
    then have "ch_coord ch \<notin> dom (tile_table ts)" using assms(1) by (auto simp: fits_def dom_tile_table)
    then show ?thesis using None by (auto simp: ts'_def tile_table_def map_add_def fun_eq_iff split: option.splits)
  next
    case (Some i)
    then show ?thesis using assms(1) set_tile_table [of ts i] by (simp add: fits_def ts'_def)
  qed
  show "map tile_coord ts' = map tile_coord ts @ new_coords m [ch]"
    by (simp add: ts'_def new_coords_def split: option.splits)
qed

lemma write_tiles_spec:
  assumes "fits m chs ts"
  shows "tile_table (write_tiles m chs ts) = tile_table ts ++ change_table chs \<and>
    map tile_coord (write_tiles m chs ts) = map tile_coord ts @ new_coords m chs \<and>
    distinct (map tile_coord (write_tiles m chs ts))"
  using assms
proof (induction chs arbitrary: ts)
  case Nil
  then show ?case by (simp add: change_table_def new_coords_def fits_def)
next
  case (Cons ch chs)
  define ts' where "ts' = (case m (ch_coord ch) of Some i \<Rightarrow> set_tile i (after ch) ts
      | None \<Rightarrow> ts @ [\<lparr>tile_coord = ch_coord ch, tile_st = after ch\<rparr>])"
  note step = fits_step [OF Cons.prems, folded ts'_def]
  have "ch_coord ch \<notin> dom (change_table chs)"
    using Cons.prems by (auto simp: fits_def dom_change_table)
  then have "(tile_table ts)(ch_coord ch \<mapsto> after ch) ++ change_table chs = tile_table ts ++ change_table (ch # chs)"
    by (auto simp: change_table_def map_add_def fun_eq_iff split: option.splits)
  then have table: "tile_table ts' ++ change_table chs = tile_table ts ++ change_table (ch # chs)"
    unfolding step(2) .
  have coords: "map tile_coord ts' @ new_coords m chs = map tile_coord ts @ new_coords m (ch # chs)"
    unfolding step(3) by (simp add: new_coords_def)
  have "write_tiles m (ch # chs) ts = write_tiles m chs ts'" by (simp only: write_tiles.simps ts'_def)
  then show ?case using Cons.IH [OF step(1)] unfolding table coords by metis
qed

lemma cons_coords:
  assumes "indexes_ok ts m"
  shows "m c = None \<longleftrightarrow> c \<notin> tile_coord ` set ts"
proof -
  have "c \<in> tile_coord ` set ts \<longleftrightarrow> (\<exists>i. i < length ts \<and> tile_coord (ts ! i) = c)"
    by (force simp: in_set_conv_nth)
  also have "\<dots> \<longleftrightarrow> (\<exists>i. m c = Some i)" using assms by (simp add: indexes_ok_def)
  finally show ?thesis by auto
qed

lemma fits_indexes:
  "indexes_ok ts m \<Longrightarrow> distinct (map tile_coord ts) \<Longrightarrow> distinct (map ch_coord chs) \<Longrightarrow> fits m chs ts"
  unfolding fits_def using cons_coords [of ts m] by (simp add: indexes_ok_def split: option.splits)

text \<open>The wire path's candidate is this write; a cancelled loop returns no tiles.\<close>

lemma candidate_tiles_write: "candidate_tiles m c chs ts = Inr (c', ts') \<Longrightarrow> ts' = write_tiles m chs ts"
  by (induction m c chs ts rule: candidate_tiles.induct)
    (auto simp: sum_bind_Inr_iff split: option.splits)

section \<open>Indexes\<close>

primrec grow_indexes :: "tile_change list \<Rightarrow> nat \<Rightarrow> (coord \<rightharpoonup> nat) \<Rightarrow> (coord \<rightharpoonup> nat)" where
  "grow_indexes [] n m = m"
| "grow_indexes (ch # chs) n m =
     (if m (ch_coord ch) = None then grow_indexes chs (Suc n) (m(ch_coord ch \<mapsto> n)) else grow_indexes chs n m)"

lemma add_indexes_grow:
  "\<exists>sh. add_indexes chs n d = d\<lparr>tile_indexes := grow_indexes chs n (tile_indexes d), shared_tile_indexes := sh\<rparr>"
proof (induction chs arbitrary: n d)
  case (Cons ch chs)
  define d1 where "d1 = (ownTileIndexes d)\<lparr>tile_indexes := (tile_indexes (ownTileIndexes d))(ch_coord ch \<mapsto> n)\<rparr>"
  have d1: "d1 = d\<lparr>tile_indexes := (tile_indexes d)(ch_coord ch \<mapsto> n), shared_tile_indexes := False\<rparr>"
    by (simp add: d1_def ownTileIndexes_def)
  show ?case
    using Cons.IH [of "Suc n" d1] Cons.IH [of n d] by (auto simp: d1_def [symmetric] Let_def) (auto simp: d1 simp del: fun_upd_apply)
next
  case (Nil n d)
  show ?case by (rule exI [of _ "shared_tile_indexes d"]) simp
qed

lemma write_tiles_cong:
  "(\<And>ch. ch \<in> set chs \<Longrightarrow> m (ch_coord ch) = m' (ch_coord ch)) \<Longrightarrow> write_tiles m chs ts = write_tiles m' chs ts"
  by (induction chs arbitrary: ts) simp_all

lemma indexes_ok_set_tile: "indexes_ok ts m \<Longrightarrow> indexes_ok (set_tile i st ts) m"
  unfolding indexes_ok_def by (metis length_set_tile set_tile_nth_coord)

lemma indexes_ok_append:
  assumes "indexes_ok ts m" "m (tile_coord t) = None"
  shows "indexes_ok (ts @ [t]) (m(tile_coord t \<mapsto> length ts))"
proof -
  have "tile_coord (ts ! i) \<noteq> tile_coord t" if "i < length ts" for i
    using assms that unfolding indexes_ok_def by (metis option.distinct(1))
  then show ?thesis using assms by (auto simp: indexes_ok_def nth_append less_Suc_eq split: if_splits)
qed

lemma other_coords:
  "distinct (map ch_coord (ch # chs)) \<Longrightarrow> ch' \<in> set chs \<Longrightarrow> ch_coord ch' \<noteq> ch_coord ch"
  by (metis distinct.simps(2) image_eqI list.simps(9) list.set_map)

lemma grow_indexes_ok:
  assumes "indexes_ok ts m" "distinct (map ch_coord chs)"
  shows "indexes_ok (write_tiles m chs ts) (grow_indexes chs (length ts) m)"
  using assms
proof (induction chs arbitrary: m ts)
  case (Cons ch chs)
  let ?new = "\<lparr>tile_coord = ch_coord ch, tile_st = after ch\<rparr>"
  show ?case
  proof (cases "m (ch_coord ch)")
    case None
    define m' where "m' = m(ch_coord ch \<mapsto> length ts)"
    have "indexes_ok (ts @ [?new]) m'"
      using indexes_ok_append [OF Cons.prems(1), of ?new] None by (simp only: m'_def) simp
    then have "indexes_ok (write_tiles m' chs (ts @ [?new])) (grow_indexes chs (Suc (length ts)) m')"
      using Cons.IH [of "ts @ [?new]" m'] Cons.prems(2) by simp
    moreover have "write_tiles m' chs (ts @ [?new]) = write_tiles m chs (ts @ [?new])"
      using other_coords [OF Cons.prems(2)] by (intro write_tiles_cong) (simp add: m'_def)
    ultimately show ?thesis using None by (simp add: m'_def del: fun_upd_apply)
  next
    case (Some i)
    then show ?thesis
      using Cons.IH [OF indexes_ok_set_tile [OF Cons.prems(1)], of i "after ch"] Cons.prems(2) by simp
  qed
qed simp

text \<open>The owner path writes tiles and indexes together.\<close>

lemma install_tiles_write:
  assumes "distinct (map ch_coord chs)"
  shows "\<exists>sh. install_tiles chs d =
    d\<lparr>doc_snapshot := (doc_snapshot d)\<lparr>tiles := write_tiles (tile_indexes d) chs (tiles (doc_snapshot d))\<rparr>,
      tile_indexes := grow_indexes chs (length (tiles (doc_snapshot d))) (tile_indexes d), shared_tile_indexes := sh\<rparr>"
  using assms
proof (induction chs arbitrary: d)
  case (Nil d)
  show ?case by (rule exI [of _ "shared_tile_indexes d"]) simp
next
  case (Cons ch chs)
  let ?s = "doc_snapshot d" and ?m = "tile_indexes d"
  let ?new = "\<lparr>tile_coord = ch_coord ch, tile_st = after ch\<rparr>"
  show ?case
  proof (cases "?m (ch_coord ch)")
    case None
    define m' where "m' = ?m(ch_coord ch \<mapsto> length (tiles ?s))"
    define d1 where "d1 = d\<lparr>shared_tile_indexes := False, tile_indexes := m', doc_snapshot := ?s\<lparr>tiles := tiles ?s @ [?new]\<rparr>\<rparr>"
    have "(ownTileIndexes d)\<lparr>tile_indexes := (tile_indexes (ownTileIndexes d))(ch_coord ch \<mapsto> length (tiles ?s)),
        doc_snapshot := ?s\<lparr>tiles := tiles ?s @ [?new]\<rparr>\<rparr> = d1"
      by (simp add: ownTileIndexes_def d1_def m'_def del: fun_upd_apply)
    then have step: "install_tiles (ch # chs) d = install_tiles chs d1"
      using None by (simp add: Let_def del: fun_upd_apply)
    have "write_tiles m' chs (tiles ?s @ [?new]) = write_tiles ?m chs (tiles ?s @ [?new])"
      using other_coords [OF Cons.prems] by (intro write_tiles_cong) (simp add: m'_def)
    then show ?thesis
      using Cons.IH [of d1] Cons.prems None unfolding step d1_def by (auto simp: m'_def simp del: fun_upd_apply)
  next
    case (Some i)
    then show ?thesis
      using Cons.IH [of "d\<lparr>doc_snapshot := ?s\<lparr>tiles := set_tile i (after ch) (tiles ?s)\<rparr>\<rparr>"] Cons.prems
      by (auto simp: Let_def)
  qed
qed

section \<open>Identity owners\<close>

lemma own_ids_apply: "own_ids c st m i = (if i \<in> set (tile_ids st) then Some c else m i)"
proof -
  have "foldl (\<lambda>m p. m(prefab_id p \<mapsto> c)) m ps i = (if i \<in> prefab_id ` set ps then Some c else m i)"
    for ps :: "prefab_state list"
    by (induction ps arbitrary: m) auto
  then show ?thesis by (simp add: own_ids_def tile_ids_def)
qed

lemma release_ids_apply: "release_ids st m i = (if i \<in> set (tile_ids st) then None else m i)"
proof -
  have "foldl (\<lambda>m p. m(prefab_id p := None)) m ps i = (if i \<in> prefab_id ` set ps then None else m i)"
    for ps :: "prefab_state list"
    by (induction ps arbitrary: m) auto
  then show ?thesis by (simp add: release_ids_def tile_ids_def)
qed

lemma release_fold:
  "foldl (\<lambda>m ch. release_ids (before ch) m) m chs i =
     (if \<exists>ch\<in>set chs. i \<in> set (tile_ids (before ch)) then None else m i)"
  by (induction chs arbitrary: m) (auto simp: release_ids_apply)

lemma own_fold:
  assumes "distinct (concat (map (\<lambda>x. tile_ids (g x)) xs))"
  shows "foldl (\<lambda>m x. own_ids (f x) (g x) m) m xs i = Some c \<longleftrightarrow>
    (\<exists>x\<in>set xs. f x = c \<and> i \<in> set (tile_ids (g x))) \<or>
    (\<forall>x\<in>set xs. i \<notin> set (tile_ids (g x))) \<and> m i = Some c"
  using assms by (induction xs arbitrary: m) (auto simp: own_ids_apply)

section \<open>Cancellation\<close>

text \<open>\<open>follows strip r r0\<close>: \<open>r\<close> was cancelled, or ends as the uncancelled run \<open>r0\<close> does, up to the
  context that \<open>strip\<close> replaces.\<close>

definition follows :: "('a \<Rightarrow> 'b) \<Rightarrow> engine_error + 'a \<Rightarrow> engine_error + 'b \<Rightarrow> bool" where
  "follows strip r r0 \<longleftrightarrow> r = Inl Canceled \<or> r0 = map_sum (\<lambda>e. e) strip r"

lemma follows_bind:
  assumes "follows strip r r0" "\<And>y. r = Inr y \<Longrightarrow> follows strip' (f y) (f' (strip y))"
  shows "follows strip' (sum_bind r f) (sum_bind r0 f')"
  using assms by (cases r) (auto simp: follows_def)

lemma follows_refl: "follows (\<lambda>y. y) r r"
  by (cases r) (simp_all add: follows_def)

lemma follows_same: "(\<And>y. r = Inr y \<Longrightarrow> follows strip' (f y) (f' y)) \<Longrightarrow> follows strip' (sum_bind r f) (sum_bind r f')"
  by (rule follows_bind [OF follows_refl])

lemma poll_Background [simp]: "poll Background = Inr Background"
  by (simp add: poll_def)

lemma follows_poll:
  "(\<And>c'. follows strip (f c') (f' Background)) \<Longrightarrow> follows strip (sum_bind (poll c) f) (f' Background)"
  by (cases "ctx_poll c") (simp_all add: poll_def follows_def)

lemma follows_Inr: "y' = strip y \<Longrightarrow> follows strip (Inr y) (Inr y')"
  by (simp add: follows_def)

definition bg :: "ctx \<times> 'a \<Rightarrow> ctx \<times> 'a" where
  "bg y = (Background, snd y)"

definition bg1 :: "ctx \<Rightarrow> ctx" where
  "bg1 y = Background"

lemma follows_preconditions:
  "follows bg (check_preconditions d c chs touched) (check_preconditions d Background chs touched)"
proof (induction chs arbitrary: c touched)
  case (Cons ch chs)
  show ?case
    unfolding check_preconditions.simps poll_Background sum_bind_simps(2)
    by (rule follows_poll) (intro follows_same Cons.IH)
qed (simp add: follows_def bg_def)

lemma follows_prefabs:
  "follows bg (check_prefabs d touched c ps assigned) (check_prefabs d touched Background ps assigned)"
proof (induction ps arbitrary: c assigned)
  case (Cons p ps)
  show ?case
    unfolding check_prefabs.simps poll_Background sum_bind_simps(2)
    by (rule follows_poll) (intro follows_same Cons.IH)
qed (simp add: follows_def bg_def)

lemma follows_assignments:
  "follows bg1 (check_assignments d touched c chs assigned) (check_assignments d touched Background chs assigned)"
proof (induction chs arbitrary: c assigned)
  case (Cons ch chs)
  show ?case
    unfolding check_assignments.simps
    by (rule follows_bind [OF follows_prefabs]) (auto simp: bg_def split: prod.splits intro: Cons.IH)
qed (simp add: follows_def bg1_def)

lemma follows_changes: "follows bg1 (validateChanges d c chs) (validateChanges d Background chs)"
  unfolding validateChanges_def
  by (intro follows_same follows_bind [OF follows_preconditions])
    (auto simp: bg_def split: prod.splits intro: follows_assignments)

lemma follows_clone: "follows bg (cloneChangesContext c chs) (cloneChangesContext Background chs)"
proof (induction chs arbitrary: c)
  case (Cons ch chs)
  show ?case
    unfolding cloneChangesContext.simps poll_Background sum_bind_simps(2)
    by (rule follows_poll, rule follows_bind [OF Cons.IH]) (auto simp: bg_def follows_def split: prod.splits)
qed (simp add: follows_def bg_def)

lemma follows_clone_op: "follows bg (cloneOperationContext c op) (cloneOperationContext Background op)"
  unfolding cloneOperationContext_def
  by (rule follows_bind [OF follows_clone]) (auto simp: bg_def follows_def split: prod.splits)

lemma follows_same_inverse: "follows bg1 (same_inverse d c chs targets) (same_inverse d Background chs targets)"
proof (induction chs arbitrary: c targets)
  case (Cons ch chs)
  show ?case
  proof (cases targets)
    case (Cons t ts)
    show ?thesis
      unfolding Cons same_inverse.simps poll_Background sum_bind_simps(2)
      by (rule follows_poll) (intro follows_same Cons.IH)
  qed (simp add: follows_def bg1_def)
qed (simp add: follows_def bg1_def)

lemma follows_inverse: "follows bg1 (validateInverseContext d c op) (validateInverseContext d Background op)"
proof -
  have leaf: "follows bg1 (Inl e) (Inl e)" for e by (simp add: follows_def)
  show ?thesis
    unfolding validateInverseContext_def
    by (auto simp: follows_Inr bg1_def leaf split: option.splits intro!: follows_same follows_same_inverse)
qed

lemma follows_candidate: "follows bg (candidate_tiles m c chs ts) (candidate_tiles m Background chs ts)"
proof (induction chs arbitrary: c ts)
  case (Cons ch chs)
  show ?case
    unfolding candidate_tiles.simps poll_Background sum_bind_simps(2)
    by (rule follows_poll) (rule Cons.IH)
qed (simp add: follows_def bg_def)

lemma follows_validate:
  "follows bg (validateContext H procs c d op) (validateContext H procs Background d op)"
  unfolding validateContext_def Let_def
  by (intro follows_same follows_bind [OF follows_clone_op])
    (auto simp: bg_def bg1_def follows_Inr split: prod.splits
      intro!: follows_same follows_bind [OF follows_inverse] follows_bind [OF follows_changes]
        follows_bind [OF follows_candidate])

end
