(* ===== verification/Document_Correct.thy ===== *)
theory Document_Correct
  imports Document_Inv
begin

text \<open>
  Correctness of the document operations: what validation accepts, that every operation keeps the
  representation invariant, and what an accepted operation does to the map.
\<close>

section \<open>What validation accepts\<close>

text \<open>The specification of an acceptable list of changes, over the map alone.\<close>

definition changes_ok :: "snapshot \<Rightarrow> tile_change list \<Rightarrow> bool" where
  "changes_ok s chs \<longleftrightarrow>
     count_ok s chs \<and> distinct (map ch_coord chs) \<and>
     (\<forall>ch\<in>set chs. Contains s (ch_coord ch) \<and> map_view s (ch_coord ch) = tile_view (before ch)) \<and>
     distinct (concat (map (\<lambda>ch. tile_ids (after ch)) chs)) \<and>
     (\<forall>ch\<in>set chs. \<forall>i\<in>set (tile_ids (after ch)). StableID_Validate i = None \<and>
        (\<forall>c st. tile_table (tiles s) c = Some st \<longrightarrow> i \<in> set (tile_ids st) \<longrightarrow> c \<in> ch_coord ` set chs))"

definition doc_ok :: "digest_fun \<Rightarrow> nat \<Rightarrow> document \<Rightarrow> bool" where
  "doc_ok H procs d \<longleftrightarrow>
     snapshot_ok (doc_snapshot d) \<and>
     indexes_ok (tiles (doc_snapshot d)) (tile_indexes d) \<and>
     owners_ok (tile_table (tiles (doc_snapshot d))) (identity_owners d) \<and>
     (map_hash d \<noteq> [] \<longrightarrow>
        doc_hasher d = Some (newCanonicalHasher H procs (doc_snapshot d)) \<and>
        map_hash d = h_digest (newCanonicalHasher H procs (doc_snapshot d)))"

lemma doc_okD:
  assumes "doc_ok H procs d"
  shows "snapshot_ok (doc_snapshot d)" "indexes_ok (tiles (doc_snapshot d)) (tile_indexes d)"
    "owners_ok (tile_table (tiles (doc_snapshot d))) (identity_owners d)"
    "distinct (map tile_coord (tiles (doc_snapshot d)))"
  using assms by (simp_all add: doc_ok_def snapshot_ok_def)

lemma current_view:
  assumes "indexes_ok (tiles (doc_snapshot d)) (tile_indexes d)" "distinct (map tile_coord (tiles (doc_snapshot d)))"
  shows "tile_view (current_state d c) = map_view (doc_snapshot d) c"
proof (cases "tile_indexes d c")
  case None
  then have "tile_table (tiles (doc_snapshot d)) c = None"
    using cons_coords [OF assms(1)] dom_tile_table [of "tiles (doc_snapshot d)"] by blast
  then show ?thesis using None by (simp add: current_state_def map_view_def)
next
  case (Some i)
  then have "i < length (tiles (doc_snapshot d))" "tile_coord (tiles (doc_snapshot d) ! i) = c"
    using assms(1) by (auto simp: indexes_ok_def)
  then show ?thesis
    using tile_table_nth [OF assms(2), of i] Some by (simp add: current_state_def map_view_def)
qed

lemma preconditions_iff:
  "check_preconditions d Background chs touched = Inr (c, t) \<longleftrightarrow>
     c = Background \<and> t = touched \<union> ch_coord ` set chs \<and> distinct (map ch_coord chs) \<and>
     touched \<inter> ch_coord ` set chs = {} \<and>
     (\<forall>ch\<in>set chs. Contains (doc_snapshot d) (ch_coord ch) \<and>
        tile_view (current_state d (ch_coord ch)) = tile_view (before ch))"
  by (induction chs arbitrary: touched)
    (auto simp: sum_bind_Inr_iff TileState_Equal_view)

lemma prefabs_iff:
  "check_prefabs d touched Background ps assigned = Inr (c, a) \<longleftrightarrow>
     c = Background \<and> a = assigned \<union> prefab_id ` set ps \<and> distinct (map prefab_id ps) \<and>
     assigned \<inter> prefab_id ` set ps = {} \<and>
     (\<forall>i\<in>prefab_id ` set ps. StableID_Validate i = None \<and>
        (\<forall>c. identity_owners d i = Some c \<longrightarrow> c \<in> touched))"
  by (induction ps arbitrary: assigned) (auto simp: sum_bind_Inr_iff split: option.splits)

definition id_free :: "document \<Rightarrow> coord set \<Rightarrow> stable_id \<Rightarrow> bool" where
  "id_free d touched i \<longleftrightarrow> StableID_Validate i = None \<and> (\<forall>c. identity_owners d i = Some c \<longrightarrow> c \<in> touched)"

lemma prefabs_ids_iff:
  "check_prefabs d touched Background (prefab_list st) assigned = Inr (c, a) \<longleftrightarrow>
     c = Background \<and> a = assigned \<union> set (tile_ids st) \<and> distinct (tile_ids st) \<and>
     (\<forall>i\<in>set (tile_ids st). i \<notin> assigned \<and> id_free d touched i)"
  unfolding prefabs_iff tile_ids_def id_free_def by auto

lemma assignments_iff:
  "check_assignments d touched Background chs assigned = Inr c \<longleftrightarrow>
     c = Background \<and> distinct (concat (map (\<lambda>ch. tile_ids (after ch)) chs)) \<and>
     (\<forall>ch\<in>set chs. \<forall>i\<in>set (tile_ids (after ch)). i \<notin> assigned \<and> id_free d touched i)"
proof (induction chs arbitrary: assigned)
  case (Cons ch chs)
  have "check_assignments d touched Background (ch # chs) assigned = Inr c \<longleftrightarrow>
    (\<exists>a. check_prefabs d touched Background (prefab_list (after ch)) assigned = Inr (Background, a) \<and>
       check_assignments d touched Background chs a = Inr c)"
    by (auto simp: sum_bind_Inr_iff prefabs_iff)
  then show ?case unfolding prefabs_ids_iff Cons.IH by auto
qed auto

theorem validateChanges_iff:
  assumes "indexes_ok (tiles (doc_snapshot d)) (tile_indexes d)"
    "owners_ok (tile_table (tiles (doc_snapshot d))) (identity_owners d)"
    "distinct (map tile_coord (tiles (doc_snapshot d)))"
  shows "validateChanges d Background chs = Inr Background \<longleftrightarrow> changes_ok (doc_snapshot d) chs"
proof -
  have "validateChanges d Background chs = Inr Background \<longleftrightarrow>
    count_ok (doc_snapshot d) chs \<and> (\<exists>t. check_preconditions d Background chs {} = Inr (Background, t) \<and>
      check_assignments d t Background chs {} = Inr Background)"
    by (auto simp: validateChanges_def sum_bind_Inr_iff preconditions_iff)
  then show ?thesis
    using assms(2) unfolding preconditions_iff assignments_iff changes_ok_def current_view [OF assms(1,3)] owners_ok_def id_free_def
    by (auto 0 3)
qed

section \<open>Acceptable changes keep the invariant\<close>

definition new_owners :: "tile_change list \<Rightarrow> (stable_id \<rightharpoonup> coord) \<Rightarrow> (stable_id \<rightharpoonup> coord)" where
  "new_owners chs m =
     foldl (\<lambda>m ch. own_ids (ch_coord ch) (after ch) m) (foldl (\<lambda>m ch. release_ids (before ch) m) m chs) chs"

lemma updateIdentityOwners_eq:
  "\<exists>sh. updateIdentityOwners chs d = d\<lparr>identity_owners := new_owners chs (identity_owners d), shared_identity_owners := sh\<rparr>"
  by (rule exI [of _ False], cases "shared_identity_owners d") (simp_all add: updateIdentityOwners_def new_owners_def)

lemma distinct_concat_disjoint:
  "distinct (concat (map f xs)) \<Longrightarrow> x \<in> set xs \<Longrightarrow> y \<in> set xs \<Longrightarrow> x \<noteq> y \<Longrightarrow> set (f x) \<inter> set (f y) = {}"
  by (induction xs) auto

lemma changes_okD:
  assumes "changes_ok s chs"
  shows "distinct (map ch_coord chs)" "distinct (concat (map (\<lambda>ch. tile_ids (after ch)) chs))"
    "ch \<in> set chs \<Longrightarrow> Contains s (ch_coord ch)"
    "ch \<in> set chs \<Longrightarrow> map_view s (ch_coord ch) = tile_view (before ch)"
    "ch \<in> set chs \<Longrightarrow> i \<in> set (tile_ids (after ch)) \<Longrightarrow> StableID_Validate i = None"
    "ch \<in> set chs \<Longrightarrow> i \<in> set (tile_ids (after ch)) \<Longrightarrow> tile_table (tiles s) c = Some st \<Longrightarrow> i \<in> set (tile_ids st) \<Longrightarrow>
       c \<in> ch_coord ` set chs"
  using assms by (auto simp: changes_ok_def)

lemma override_Some_iff:
  assumes "distinct (map ch_coord chs)"
  shows "(tb ++ change_table chs) c = Some st \<longleftrightarrow>
    (\<exists>ch\<in>set chs. ch_coord ch = c \<and> after ch = st) \<or> c \<notin> ch_coord ` set chs \<and> tb c = Some st"
  unfolding map_add_Some_iff change_table_Some_iff [OF assms]
  using dom_change_table [of chs] by (auto simp: domIff)

text \<open>The conditions on a table alone, which a client checks too.\<close>

definition table_fits :: "(coord \<Rightarrow> bool) \<Rightarrow> (coord \<rightharpoonup> tile_state) \<Rightarrow> tile_change list \<Rightarrow> bool" where
  "table_fits inside tb chs \<longleftrightarrow>
     distinct (map ch_coord chs) \<and>
     (\<forall>ch\<in>set chs. inside (ch_coord ch) \<and> table_view tb (ch_coord ch) = tile_view (before ch)) \<and>
     distinct (concat (map (\<lambda>ch. tile_ids (after ch)) chs)) \<and>
     (\<forall>ch\<in>set chs. \<forall>i\<in>set (tile_ids (after ch)). StableID_Validate i = None \<and>
        (\<forall>c st. tb c = Some st \<longrightarrow> i \<in> set (tile_ids st) \<longrightarrow> c \<in> ch_coord ` set chs))"

lemma table_fitsD:
  assumes "table_fits inside tb chs"
  shows "distinct (map ch_coord chs)" "distinct (concat (map (\<lambda>ch. tile_ids (after ch)) chs))"
    "ch \<in> set chs \<Longrightarrow> inside (ch_coord ch)"
    "ch \<in> set chs \<Longrightarrow> table_view tb (ch_coord ch) = tile_view (before ch)"
    "ch \<in> set chs \<Longrightarrow> i \<in> set (tile_ids (after ch)) \<Longrightarrow> StableID_Validate i = None"
    "ch \<in> set chs \<Longrightarrow> i \<in> set (tile_ids (after ch)) \<Longrightarrow> tb c = Some st \<Longrightarrow> i \<in> set (tile_ids st) \<Longrightarrow>
       c \<in> ch_coord ` set chs"
  using assms by (auto simp: table_fits_def)

lemma changes_ok_fits:
  "changes_ok s chs \<longleftrightarrow> count_ok s chs \<and> table_fits (Contains s) (tile_table (tiles s)) chs"
  unfolding changes_ok_def table_fits_def map_view_table by blast

text \<open>The ids a change reports for the old state are those the table holds there.\<close>

lemma table_before_ids:
  assumes "table_fits inside tb chs" "ch \<in> set chs"
  shows "i \<in> set (tile_ids (before ch)) \<longleftrightarrow> (\<exists>st. tb (ch_coord ch) = Some st \<and> i \<in> set (tile_ids st))"
proof -
  have "set (tile_ids (before ch)) = set (map fst (table_view tb (ch_coord ch)))"
    using table_fitsD(4) [OF assms] by (simp add: tile_ids_view)
  then show ?thesis
    by (cases "tb (ch_coord ch)") (simp_all add: table_view_def tile_ids_view)
qed

lemma table_ids_ok:
  assumes "ids_ok tb" "table_fits inside tb chs"
  shows "ids_ok (tb ++ change_table chs)"
proof -
  note okd = table_fitsD [OF assms(2)] and tb = override_Some_iff [OF table_fitsD(1) [OF assms(2)], of tb]
  have one: "distinct (tile_ids st) \<and> (\<forall>i\<in>set (tile_ids st). StableID_Validate i = None)"
    if "(tb ++ change_table chs) c = Some st" for c st
    using that assms(1) okd(2,5) by (auto simp: tb ids_ok_def distinct_concat_iff)
  have mixed: "set (tile_ids (after ch)) \<inter> set (tile_ids st) = {}"
    if "ch \<in> set chs" "c \<notin> ch_coord ` set chs" "tb c = Some st" for ch c st
    using that okd(6) [OF that(1) _ that(3)] by blast
  have both: "set (tile_ids (after ch)) \<inter> set (tile_ids (after ch')) = {}"
    if "ch \<in> set chs" "ch' \<in> set chs" "ch_coord ch \<noteq> ch_coord ch'" for ch ch'
    using that by (intro distinct_concat_disjoint [OF okd(2)]) auto
  have two: "set (tile_ids st) \<inter> set (tile_ids st') = {}"
    if "(tb ++ change_table chs) c = Some st"
      "(tb ++ change_table chs) c' = Some st'" "c \<noteq> c'" for c c' st st'
    using that mixed both assms(1) unfolding tb ids_ok_def by (elim disjE conjE bexE) (blast+)
  show ?thesis
    unfolding ids_ok_def by (intro conjI allI impI; (erule one [THEN conjunct1] | erule one [THEN conjunct2] | (erule (2) two)))
qed

lemma table_owners_ok:
  assumes "ids_ok tb" "owners_ok tb m" "table_fits inside tb chs"
  shows "owners_ok (tb ++ change_table chs) (new_owners chs m)"
proof -
  note okd = table_fitsD [OF assms(3)] and tb = override_Some_iff [OF table_fitsD(1) [OF assms(3)], of tb]
  let ?holds = "\<lambda>c i. \<exists>st. tb c = Some st \<and> i \<in> set (tile_ids st)"
  have m: "m i = Some c \<longleftrightarrow> ?holds c i" for i c using assms(2) by (simp add: owners_ok_def)
  define A where "A i \<longleftrightarrow> (\<exists>ch\<in>set chs. i \<in> set (tile_ids (after ch)))" for i
  define B where "B i \<longleftrightarrow> (\<exists>ch\<in>set chs. i \<in> set (tile_ids (before ch)))" for i
  have b: "B i \<longleftrightarrow> c \<in> ch_coord ` set chs" if "?holds c i" for i c
  proof
    assume "B i"
    then obtain ch where ch: "ch \<in> set chs" "?holds (ch_coord ch) i"
      using table_before_ids [OF assms(3)] by (auto simp: B_def)
    then have "ch_coord ch = c" using that assms(1) unfolding ids_ok_def by blast
    then show "c \<in> ch_coord ` set chs" using ch(1) by blast
  next
    assume "c \<in> ch_coord ` set chs"
    then show "B i" using that table_before_ids [OF assms(3)] by (auto simp: B_def)
  qed
  have a: "c \<in> ch_coord ` set chs" if "A i" "?holds c i" for i c
    using that okd(6) by (auto simp: A_def)
  have n: "new_owners chs m i = Some c \<longleftrightarrow>
      (\<exists>ch\<in>set chs. ch_coord ch = c \<and> i \<in> set (tile_ids (after ch))) \<or> \<not> A i \<and> \<not> B i \<and> ?holds c i" for i c
    unfolding new_owners_def own_fold [OF okd(2)] release_fold using m by (auto simp: A_def B_def)
  have t: "(\<exists>st. (tb ++ change_table chs) c = Some st \<and> i \<in> set (tile_ids st)) \<longleftrightarrow>
      (\<exists>ch\<in>set chs. ch_coord ch = c \<and> i \<in> set (tile_ids (after ch))) \<or> c \<notin> ch_coord ` set chs \<and> ?holds c i" for i c
    unfolding tb by auto
  show ?thesis
    unfolding owners_ok_def n t
  proof (intro allI)
    fix i c
    show "(\<exists>ch\<in>set chs. ch_coord ch = c \<and> i \<in> set (tile_ids (after ch))) \<or> \<not> A i \<and> \<not> B i \<and> ?holds c i \<longleftrightarrow>
        (\<exists>ch\<in>set chs. ch_coord ch = c \<and> i \<in> set (tile_ids (after ch))) \<or> c \<notin> ch_coord ` set chs \<and> ?holds c i"
      using a [of i c] b [of c i] by argo
  qed
qed

lemma before_ids:
  "changes_ok s chs \<Longrightarrow> ch \<in> set chs \<Longrightarrow>
     i \<in> set (tile_ids (before ch)) \<longleftrightarrow> (\<exists>st. tile_table (tiles s) (ch_coord ch) = Some st \<and> i \<in> set (tile_ids st))"
  unfolding changes_ok_fits by (blast dest: table_before_ids)

lemma override_ids_ok:
  "ids_ok (tile_table (tiles s)) \<Longrightarrow> changes_ok s chs \<Longrightarrow> ids_ok (tile_table (tiles s) ++ change_table chs)"
  unfolding changes_ok_fits by (blast intro: table_ids_ok)

lemma new_owners_ok:
  "ids_ok (tile_table (tiles s)) \<Longrightarrow> owners_ok (tile_table (tiles s)) m \<Longrightarrow> changes_ok s chs \<Longrightarrow>
     owners_ok (tile_table (tiles s) ++ change_table chs) (new_owners chs m)"
  unfolding changes_ok_fits by (blast intro: table_owners_ok)

definition rewritten :: "snapshot \<Rightarrow> (coord \<rightharpoonup> nat) \<Rightarrow> tile_change list \<Rightarrow> revision \<Rightarrow> snapshot" where
  "rewritten s m chs r = s\<lparr>tiles := write_tiles m chs (tiles s), snap_revision := r\<rparr>"

lemma rewritten_sel [simp]:
  "tiles (rewritten s m chs r) = write_tiles m chs (tiles s)" "snap_revision (rewritten s m chs r) = r"
  "max_x (rewritten s m chs r) = max_x s" "max_y (rewritten s m chs r) = max_y s" "max_z (rewritten s m chs r) = max_z s"
  "snap_document (rewritten s m chs r) = snap_document s" "environment_hash (rewritten s m chs r) = environment_hash s"
  "header_ok (rewritten s m chs r) = header_ok s" "Contains (rewritten s m chs r) = Contains s"
  by (auto simp: rewritten_def header_ok_def dims_ok_def Contains_def fun_eq_iff)

lemma rewritten_ok:
  assumes "snapshot_ok s" "indexes_ok (tiles s) m" "changes_ok s chs"
  shows "snapshot_ok (rewritten s m chs r)"
    and "indexes_ok (write_tiles m chs (tiles s)) (grow_indexes chs (length (tiles s)) m)"
    and "tile_table (write_tiles m chs (tiles s)) = tile_table (tiles s) ++ change_table chs"
    and "map_view (rewritten s m chs r) = apply_view chs (map_view s)"
proof -
  have s: "header_ok s" "distinct (map tile_coord (tiles s))" "\<forall>c\<in>dom (tile_table (tiles s)). Contains s c"
      "ids_ok (tile_table (tiles s))"
    using assms(1) by (simp_all add: snapshot_ok_table)
  note okd = changes_okD [OF assms(3)]
  note spec = write_tiles_spec [OF fits_indexes [OF assms(2) s(2) okd(1)]]
  show table: "tile_table (write_tiles m chs (tiles s)) = tile_table (tiles s) ++ change_table chs"
    using spec by blast
  show "indexes_ok (write_tiles m chs (tiles s)) (grow_indexes chs (length (tiles s)) m)"
    by (rule grow_indexes_ok [OF assms(2) okd(1)])
  have "\<forall>c\<in>dom (tile_table (tiles s) ++ change_table chs). Contains s c"
    using s(3) okd(3) by (auto simp: dom_change_table)
  moreover have "distinct (map tile_coord (write_tiles m chs (tiles s)))" using spec by blast
  ultimately show "snapshot_ok (rewritten s m chs r)"
    unfolding snapshot_ok_table rewritten_sel table using s(1) override_ids_ok [OF s(4) assms(3)] by blast
  show "map_view (rewritten s m chs r) = apply_view chs (map_view s)"
    unfolding map_view_def apply_view_def rewritten_sel table fun_eq_iff
    by (auto simp: map_add_def split: option.splits)
qed

section \<open>Constructors and the cached hash\<close>

lemma indexes_unique: "indexes_ok ts m \<Longrightarrow> indexes_ok ts n \<Longrightarrow> m = n"
  unfolding indexes_ok_def by (metis ext not_Some_eq)

lemma owners_unique: "owners_ok tb m \<Longrightarrow> owners_ok tb n \<Longrightarrow> m = n"
  unfolding owners_ok_def by (metis ext not_Some_eq)

lemma indexes_snoc:
  assumes "indexes_ok ts m" "distinct (map tile_coord (ts @ us))"
  shows "indexes_ok (ts @ us) (index_from us (length ts) m)"
  using assms
proof (induction us arbitrary: ts m)
  case (Cons u us)
  have "m (tile_coord u) = None" using Cons.prems cons_coords [OF Cons.prems(1)] by simp
  then have "indexes_ok (ts @ [u]) (m(tile_coord u \<mapsto> length ts))"
    by (rule indexes_ok_append [OF Cons.prems(1)])
  then show ?case using Cons.IH [of "ts @ [u]" "m(tile_coord u \<mapsto> length ts)"] Cons.prems(2)
    by (simp del: fun_upd_apply)
qed simp

lemma owners_fold_ok:
  assumes "distinct (map tile_coord ts)" "distinct (concat (map (\<lambda>t. tile_ids (tile_st t)) ts))"
  shows "owners_ok (tile_table ts) (foldl (\<lambda>m t. own_ids (tile_coord t) (tile_st t) m) Map.empty ts)"
  unfolding owners_ok_def own_fold [OF assms(2)] tile_table_Some_iff [OF assms(1)] by auto

lemma indexState_ok:
  assumes "snapshot_ok (doc_snapshot d)"
  shows "indexes_ok (tiles (doc_snapshot d)) (tile_indexes (indexState d))"
    "owners_ok (tile_table (tiles (doc_snapshot d))) (identity_owners (indexState d))"
proof -
  have s: "distinct (map tile_coord (tiles (doc_snapshot d)))"
      "distinct (concat (map (\<lambda>t. tile_ids (tile_st t)) (tiles (doc_snapshot d))))"
    using assms by (simp_all add: snapshot_ok_def snapshot_ids_def comp_def)
  show "indexes_ok (tiles (doc_snapshot d)) (tile_indexes (indexState d))"
    using indexes_snoc [of "[]" Map.empty "tiles (doc_snapshot d)"] s(1)
    by (simp add: indexState_def indexes_ok_def)
  show "owners_ok (tile_table (tiles (doc_snapshot d))) (identity_owners (indexState d))"
    using owners_fold_ok [OF s] by (simp add: indexState_def)
qed

lemma indexState_sel [simp]:
  "doc_snapshot (indexState d) = doc_snapshot d" "map_hash (indexState d) = map_hash d"
  "doc_hasher (indexState d) = doc_hasher d" "hashes (indexState d) = hashes d"
  "accepted (indexState d) = accepted d" "inverted (indexState d) = inverted d" "unshared (indexState d) = unshared d"
  by (simp_all add: indexState_def)

lemma NewDocument_ok:
  assumes "NewDocument H procs s = Inr d"
  shows "doc_ok H procs d \<and> doc_snapshot d = s \<and> accepted d = fmempty \<and> inverted d = Map.empty \<and>
    Snapshot_Hash H procs s = Inr (map_hash d) \<and> hashes d = [snap_revision s \<mapsto> map_hash d] \<and> \<not> unshared d"
proof -
  have "Snapshot_Validate s = None"
    using assms by (auto simp: NewDocument_def NewCanonicalHasher_def sum_bind_Inr_iff split: option.splits)
  then have ok: "snapshot_ok s" by (simp add: Snapshot_Validate_iff)
  define d0 where "d0 = \<lparr>doc_snapshot = s, map_hash = h_digest (newCanonicalHasher H procs s),
      doc_hasher = Some (newCanonicalHasher H procs s),
      hashes = [snap_revision s \<mapsto> h_digest (newCanonicalHasher H procs s)], accepted = fmempty, inverted = Map.empty,
      tile_indexes = Map.empty, identity_owners = Map.empty, shared_tiles = False,
      scoped_readers = None, shared_tile_indexes = False, shared_identity_owners = False, unshared = False\<rparr>"
  have d: "d = indexState d0"
    using assms \<open>Snapshot_Validate s = None\<close>
    by (simp add: NewDocument_def NewCanonicalHasher_def Hasher_Digest_def d0_def Let_def)
  have "doc_snapshot d0 = s" by (simp add: d0_def)
  then show ?thesis
    using indexState_ok [of d0] ok \<open>Snapshot_Validate s = None\<close> unfolding d doc_ok_def
    by (simp add: Snapshot_Hash_def) (simp add: d0_def)
qed

lemma NewDocument_valid: "Snapshot_Validate s = None \<Longrightarrow> \<exists>d. NewDocument H procs s = Inr d"
  by (simp add: NewDocument_def NewCanonicalHasher_def Let_def)

text \<open>A document after \<^verbatim>\<open>ensureHash\<close>: nothing but the cached hash changes.\<close>

definition hashed_doc :: "digest_fun \<Rightarrow> nat \<Rightarrow> document \<Rightarrow> document" where
  "hashed_doc H procs d =
     (if map_hash d \<noteq> [] then d
      else let h = newCanonicalHasher H procs (doc_snapshot d) in
        d\<lparr>doc_hasher := Some h, map_hash := h_digest h, hashes := (hashes d)(snap_revision (doc_snapshot d) \<mapsto> h_digest h)\<rparr>)"

lemma hashed_doc_sel [simp]:
  "doc_snapshot (hashed_doc H procs d) = doc_snapshot d" "accepted (hashed_doc H procs d) = accepted d"
  "inverted (hashed_doc H procs d) = inverted d" "tile_indexes (hashed_doc H procs d) = tile_indexes d"
  "identity_owners (hashed_doc H procs d) = identity_owners d" "unshared (hashed_doc H procs d) = unshared d"
  "current_state (hashed_doc H procs d) = current_state d"
  by (auto simp: hashed_doc_def Let_def current_state_def fun_eq_iff split: option.splits)

lemma ensureHash_ok:
  assumes "doc_ok H procs d"
  shows "ensureHash H procs d = Inr (hashed_doc H procs d)"
    and "doc_ok H procs (hashed_doc H procs d)"
    and "doc_hasher (hashed_doc H procs d) = Some (newCanonicalHasher H procs (doc_snapshot d))"
    and "map_hash (hashed_doc H procs d) = h_digest (newCanonicalHasher H procs (doc_snapshot d))"
  using assms
  by (auto simp: ensureHash_def hashed_doc_def NewCanonicalHasher_def doc_ok_def Snapshot_Validate_iff [THEN iffD2]
      Hasher_Digest_def Let_def)

section \<open>Wire operations\<close>

lemma hasher_revision [simp]:
  "newCanonicalHasher H procs (s\<lparr>snap_revision := r\<rparr>) = newCanonicalHasher H procs s"
  "newCanonicalHasher H procs (s\<lparr>tiles := ts, snap_revision := r\<rparr>) = newCanonicalHasher H procs (s\<lparr>tiles := ts\<rparr>)"
  by (simp_all add: newCanonicalHasher_def canonicalTiles_def)

lemma rewritten_agrees:
  assumes "snapshot_ok s" "indexes_ok (tiles s) m" "changes_ok s chs"
  shows "agrees_outside (map ch_coord chs) s (rewritten s m chs r)"
  unfolding agrees_outside_def list_all_iff list_ex_iff
proof (intro ballI)
  fix t assume t: "t \<in> set (tiles s)"
  note ok = rewritten_ok [OF assms]
  have d: "distinct (map tile_coord (tiles s))" "distinct (map tile_coord (write_tiles m chs (tiles s)))"
    using assms(1) ok(1) [of r] by (simp_all add: snapshot_ok_def)
  show "tile_coord t \<in> set (map ch_coord chs) \<or> (\<exists>u\<in>set (tiles (rewritten s m chs r)).
      tile_coord u = tile_coord t \<and> tile_view (tile_st u) = tile_view (tile_st t))"
  proof (cases "tile_coord t \<in> ch_coord ` set chs")
    case False
    then have "tile_table (write_tiles m chs (tiles s)) (tile_coord t) = Some (tile_st t)"
      using t d(1) unfolding ok(3) override_Some_iff [OF changes_okD(1) [OF assms(3)]]
      by (auto simp: tile_table_Some_iff)
    then show ?thesis using d(2) by (auto simp: tile_table_Some_iff)
  qed simp
qed

lemma hash_candidate_ok:
  assumes "doc_ok H procs d" "changes_ok (doc_snapshot d) chs"
    and "doc_hasher d = Some (newCanonicalHasher H procs (doc_snapshot d))"
      "map_hash d = h_digest (newCanonicalHasher H procs (doc_snapshot d))"
  defines "candidate \<equiv> (doc_snapshot d)\<lparr>tiles := write_tiles (tile_indexes d) chs (tiles (doc_snapshot d))\<rparr>"
  shows "hash_candidate H procs d candidate (map ch_coord chs) =
    Inr (newCanonicalHasher H procs candidate, h_digest (newCanonicalHasher H procs candidate))"
proof -
  let ?s = "doc_snapshot d"
  note ok = doc_okD [OF assms(1)]
  have cand: "candidate = rewritten ?s (tile_indexes d) chs (snap_revision ?s)"
    by (simp add: candidate_def rewritten_def)
  have "agrees_outside (map ch_coord chs) ?s candidate"
    unfolding cand by (rule rewritten_agrees [OF ok(1,2) assms(2)])
  moreover have "distinct_tiles candidate" "distinct_tiles ?s"
    using rewritten_ok(1) [OF ok(1,2) assms(2), of "snap_revision ?s"] ok(4)
    unfolding cand by (simp_all add: distinct_tiles_def snapshot_ok_def)
  ultimately have "Hasher_Update_some H procs (newCanonicalHasher H procs ?s) candidate (tile_indexes d) (map ch_coord chs) =
      newCanonicalHasher H procs candidate"
    by (intro Hasher_Update_full)
  then show ?thesis
    using assms(3,4) by (simp add: hash_candidate_def Hasher_Digest_def Hasher_Update_def Let_def)
qed

lemma cloneChangesContext_eq: "cloneChangesContext c chs = Inr (c', chs') \<Longrightarrow> chs' = chs"
  by (induction chs arbitrary: c c' chs') (auto simp: sum_bind_Inr_iff)

lemma validateChanges_ok:
  assumes "doc_ok H procs d" "validateChanges d c chs = Inr c'"
  shows "changes_ok (doc_snapshot d) chs"
  using follows_changes [of d c chs] assms(2) validateChanges_iff [OF doc_okD(2,3,4) [OF assms(1)]]
  by (simp add: follows_def bg1_def)

text \<open>What a successful validation returns, in terms of the specification.\<close>

lemma validateContext_ok:
  assumes "doc_ok H procs d" "doc_hasher d = Some (newCanonicalHasher H procs (doc_snapshot d))"
      "map_hash d = h_digest (newCanonicalHasher H procs (doc_snapshot d))"
    and "validateContext H procs c d op = Inr (c', normalized, candidate, digest, hasher)"
  defines "chs \<equiv> sort_changes (changes op)"
  shows "validate_header d op = Inr () \<and> changes_ok (doc_snapshot d) chs \<and>
    normalized = op\<lparr>changes := chs\<rparr> \<and> (\<exists>c1 c2. validateInverseContext d c1 normalized = Inr c2) \<and>
    candidate = (doc_snapshot d)\<lparr>tiles := write_tiles (tile_indexes d) chs (tiles (doc_snapshot d))\<rparr> \<and>
    hasher = newCanonicalHasher H procs candidate \<and> digest = h_digest hasher"
proof -
  obtain c1 owned c2 c3 ts where v: "validate_header d op = Inr ()" "cloneOperationContext c op = Inr (c1, owned)"
      "validateInverseContext d c1 (owned\<lparr>changes := sort_changes (changes owned)\<rparr>) = Inr c2"
      "validateChanges d c2 (sort_changes (changes owned)) = Inr c3"
      "candidate_tiles (tile_indexes d) c3 (sort_changes (changes owned)) (tiles (doc_snapshot d)) = Inr (c', ts)"
      "candidate = (doc_snapshot d)\<lparr>tiles := ts\<rparr>" "normalized = owned\<lparr>changes := sort_changes (changes owned)\<rparr>"
      "hash_candidate H procs d candidate (map ch_coord (sort_changes (changes owned))) = Inr (hasher, digest)"
    using assms(4) unfolding validateContext_def Let_def by (auto simp: sum_bind_Inr_iff)
  have owned: "owned = op"
    using v(2) by (auto simp: cloneOperationContext_def sum_bind_Inr_iff dest!: cloneChangesContext_eq)
  have ok: "changes_ok (doc_snapshot d) chs"
    using validateChanges_ok [OF assms(1) v(4)] by (simp add: owned chs_def)
  have ts: "ts = write_tiles (tile_indexes d) chs (tiles (doc_snapshot d))"
    using candidate_tiles_write [OF v(5)] by (simp add: owned chs_def)
  show ?thesis
    using v hash_candidate_ok [OF assms(1) ok assms(2,3)] ok unfolding ts by (auto simp: owned chs_def)
qed

lemma publish_eq:
  assumes "acc = \<lparr>acc_op = normalized, acc_revision = snap_revision (doc_snapshot d) + 1, accepted_at = at\<rparr>"
  shows "\<exists>sh si. publish normalized candidate digest hasher at d = (acc,
    d\<lparr>doc_snapshot := candidate\<lparr>snap_revision := snap_revision (doc_snapshot d) + 1\<rparr>,
      map_hash := digest, doc_hasher := Some hasher,
      hashes := (hashes d)(snap_revision (doc_snapshot d) + 1 \<mapsto> digest),
      accepted := fmupd (op_id normalized) acc (accepted d),
      inverted := (case inverse_of normalized of None \<Rightarrow> inverted d | Some t \<Rightarrow> (inverted d)(t \<mapsto> op_id normalized)),
      tile_indexes := grow_indexes (changes normalized) (length (tiles (doc_snapshot d))) (tile_indexes d),
      identity_owners := new_owners (changes normalized) (identity_owners d),
      shared_tiles := False, scoped_readers := None, shared_tile_indexes := sh, shared_identity_owners := si\<rparr>)"
proof -
  obtain sh where sh: "add_indexes (changes normalized) (length (tiles (doc_snapshot d))) d =
      d\<lparr>tile_indexes := grow_indexes (changes normalized) (length (tiles (doc_snapshot d))) (tile_indexes d),
        shared_tile_indexes := sh\<rparr>"
    using add_indexes_grow by blast
  define d1 where "d1 = d\<lparr>tile_indexes := grow_indexes (changes normalized) (length (tiles (doc_snapshot d))) (tile_indexes d),
    shared_tile_indexes := sh, doc_snapshot := candidate\<lparr>snap_revision := snap_revision (doc_snapshot d) + 1\<rparr>,
    shared_tiles := False, scoped_readers := None\<rparr>"
  obtain si where si: "updateIdentityOwners (changes normalized) d1 =
      d1\<lparr>identity_owners := new_owners (changes normalized) (identity_owners d1), shared_identity_owners := si\<rparr>"
    using updateIdentityOwners_eq by blast
  show ?thesis
    using si unfolding publish_def Let_def sh d1_def
    by (intro exI [of _ sh] exI [of _ si]) (simp add: assms del: fun_upd_apply split: option.splits)
qed

definition applied ::
  "digest_fun \<Rightarrow> nat \<Rightarrow> tile_change list \<Rightarrow> operation \<Rightarrow> int \<Rightarrow> document \<Rightarrow> bool \<Rightarrow> bool \<Rightarrow> document" where
  "applied H procs chs op at d sh si =
     (let s = doc_snapshot d; r = snap_revision s + 1; s' = rewritten s (tile_indexes d) chs r;
          h = newCanonicalHasher H procs s';
          acc = \<lparr>acc_op = op\<lparr>changes := chs\<rparr>, acc_revision = r, accepted_at = at\<rparr> in
      d\<lparr>doc_snapshot := s', map_hash := h_digest h, doc_hasher := Some h,
        hashes := (hashes d)(r \<mapsto> h_digest h), accepted := fmupd (op_id op) acc (accepted d),
        inverted := (case inverse_of op of None \<Rightarrow> inverted d | Some t \<Rightarrow> (inverted d)(t \<mapsto> op_id op)),
        tile_indexes := grow_indexes chs (length (tiles s)) (tile_indexes d),
        identity_owners := new_owners chs (identity_owners d),
        shared_tiles := False, scoped_readers := None, shared_tile_indexes := sh, shared_identity_owners := si\<rparr>)"

lemma applied_sel [simp]:
  "doc_snapshot (applied H procs chs op at d sh si) =
     rewritten (doc_snapshot d) (tile_indexes d) chs (snap_revision (doc_snapshot d) + 1)"
  "unshared (applied H procs chs op at d sh si) = unshared d"
  "inverted (applied H procs chs op at d sh si) =
     (case inverse_of op of None \<Rightarrow> inverted d | Some t \<Rightarrow> (inverted d)(t \<mapsto> op_id op))"
  "accepted (applied H procs chs op at d sh si) = fmupd (op_id op)
     \<lparr>acc_op = op\<lparr>changes := chs\<rparr>, acc_revision = snap_revision (doc_snapshot d) + 1, accepted_at = at\<rparr> (accepted d)"
  "map_hash (applied H procs chs op at d sh si) = h_digest (newCanonicalHasher H procs
     (rewritten (doc_snapshot d) (tile_indexes d) chs (snap_revision (doc_snapshot d) + 1)))"
  "doc_hasher (applied H procs chs op at d sh si) = Some (newCanonicalHasher H procs
     (rewritten (doc_snapshot d) (tile_indexes d) chs (snap_revision (doc_snapshot d) + 1)))"
  "hashes (applied H procs chs op at d sh si) = (hashes d)(snap_revision (doc_snapshot d) + 1 \<mapsto>
     h_digest (newCanonicalHasher H procs (rewritten (doc_snapshot d) (tile_indexes d) chs (snap_revision (doc_snapshot d) + 1))))"
  "tile_indexes (applied H procs chs op at d sh si) = grow_indexes chs (length (tiles (doc_snapshot d))) (tile_indexes d)"
  "identity_owners (applied H procs chs op at d sh si) = new_owners chs (identity_owners d)"
  by (simp_all add: applied_def Let_def del: fun_upd_apply)

lemma publish_applied:
  fixes H :: digest_fun and procs :: nat
  assumes "candidate\<lparr>snap_revision := snap_revision (doc_snapshot d) + 1\<rparr> =
    rewritten (doc_snapshot d) (tile_indexes d) chs (snap_revision (doc_snapshot d) + 1)"
  defines "h \<equiv> newCanonicalHasher H procs (rewritten (doc_snapshot d) (tile_indexes d) chs (snap_revision (doc_snapshot d) + 1))"
  shows "\<exists>sh si. publish (op\<lparr>changes := chs\<rparr>) candidate (h_digest h) h at d =
    (\<lparr>acc_op = op\<lparr>changes := chs\<rparr>, acc_revision = snap_revision (doc_snapshot d) + 1, accepted_at = at\<rparr>,
     applied H procs chs op at d sh si)"
  using publish_eq [OF refl, of "op\<lparr>changes := chs\<rparr>" candidate "h_digest h" h at d]
  unfolding applied_def Let_def assms(1) h_def by (cases "inverse_of op") (simp_all del: fun_upd_apply)

lemma apply_new:
  assumes "doc_ok H procs d" "ApplyContext H procs c op at d = (Inr acc, d')" "fmlookup (accepted d) (op_id op) = None"
  defines "chs \<equiv> sort_changes (changes op)"
  shows "changes_ok (doc_snapshot d) chs" "op_document op = snap_document (doc_snapshot d)"
    "validate_header (hashed_doc H procs d) op = Inr ()"
    "\<exists>c1 c2. validateInverseContext (hashed_doc H procs d) c1 (op\<lparr>changes := chs\<rparr>) = Inr c2"
    "acc = \<lparr>acc_op = op\<lparr>changes := chs\<rparr>, acc_revision = snap_revision (doc_snapshot d) + 1, accepted_at = at\<rparr>"
    "\<exists>sh si. d' = applied H procs chs op at (hashed_doc H procs d) sh si"
proof -
  let ?d = "hashed_doc H procs d"
  note ok = ensureHash_ok [OF assms(1)]
  obtain c1 where c1: "poll c = Inr c1"
    using assms(2) by (auto simp: ApplyContext_def split: sum.splits)
  then have "apply_hashed H procs c1 op at ?d = Inr (acc, d')"
    using assms(2) ok(1) by (auto simp: ApplyContext_def split: sum.splits)
  then obtain c2 normalized candidate digest hasher where
    v: "validateContext H procs c1 ?d op = Inr (c2, normalized, candidate, digest, hasher)"
      "op_document op = snap_document (doc_snapshot d)" "publish normalized candidate digest hasher at ?d = (acc, d')"
    using assms(3) by (auto simp: apply_hashed_def sum_bind_Inr_iff)
  note val = validateContext_ok [OF ok(2) _ _ v(1), folded chs_def, simplified, OF ok(3,4)]
  have cand: "candidate\<lparr>snap_revision := snap_revision (doc_snapshot ?d) + 1\<rparr> =
      rewritten (doc_snapshot ?d) (tile_indexes ?d) chs (snap_revision (doc_snapshot ?d) + 1)"
    using val by (simp add: rewritten_def)
  have hash: "newCanonicalHasher H procs candidate =
      newCanonicalHasher H procs (rewritten (doc_snapshot d) (tile_indexes d) chs (snap_revision (doc_snapshot d) + 1))"
    using hasher_revision(1) [of H procs "snap_revision (doc_snapshot ?d) + 1" candidate] unfolding cand by simp
  show "changes_ok (doc_snapshot d) chs" "op_document op = snap_document (doc_snapshot d)"
    "validate_header ?d op = Inr ()" "\<exists>c1 c2. validateInverseContext ?d c1 (op\<lparr>changes := chs\<rparr>) = Inr c2"
    using val v(2) by auto
  have n: "normalized = op\<lparr>changes := chs\<rparr>" and h: "hasher = newCanonicalHasher H procs candidate"
      "digest = h_digest (newCanonicalHasher H procs candidate)"
    using val by auto
  show "acc = \<lparr>acc_op = op\<lparr>changes := chs\<rparr>, acc_revision = snap_revision (doc_snapshot d) + 1, accepted_at = at\<rparr>"
    "\<exists>sh si. d' = applied H procs chs op at ?d sh si"
    using publish_applied [OF cand, of op H procs at] v(3) unfolding n h hash hashed_doc_sel by auto
qed

lemma applied_ok:
  assumes "doc_ok H procs d" "changes_ok (doc_snapshot d) chs"
  shows "doc_ok H procs (applied H procs chs op at d sh si)"
proof -
  note ok = doc_okD [OF assms(1)]
  note w = rewritten_ok [OF ok(1,2) assms(2)]
  have "ids_ok (tile_table (tiles (doc_snapshot d)))" using ok(1) by (simp add: snapshot_ok_table)
  then have "owners_ok (tile_table (tiles (doc_snapshot d)) ++ change_table chs) (new_owners chs (identity_owners d))"
    by (rule new_owners_ok [OF _ ok(3) assms(2)])
  then show ?thesis
    unfolding doc_ok_def applied_sel rewritten_sel w(3) using w(1,2) by simp
qed

text \<open>An acceptance is either new or the recorded answer to a repeated operation.\<close>

lemma apply_repeat:
  assumes "doc_ok H procs d" "fmlookup (accepted d) (op_id op) = Some a"
  shows "ApplyContext H procs c op at d =
    (case poll c of Inl e \<Rightarrow> (Inl e, d) | Inr _ \<Rightarrow>
      (if op_document op \<noteq> snap_document (doc_snapshot d)
       then Inl (reject (hashed_doc H procs d) CodeWrongDocument (Text ''document id''))
       else if SameOperation (acc_op a) op then Inr a
       else Inl (reject (hashed_doc H procs d) CodeInvalidOperation
         (Text ''operation identity already names different content'')), hashed_doc H procs d))"
  using ensureHash_ok(1) [OF assms(1)] assms(2)
  by (auto simp: ApplyContext_def apply_hashed_def guard_def split: sum.splits)

lemma apply_error:
  assumes "doc_ok H procs d" "ApplyContext H procs c op at d = (Inl e, d')"
  shows "d' = d \<or> d' = hashed_doc H procs d"
  using assms(2) ensureHash_ok(1) [OF assms(1)] by (auto simp: ApplyContext_def split: sum.splits)

lemma apply_doc_ok:
  assumes "doc_ok H procs d"
  shows "doc_ok H procs (snd (ApplyContext H procs c op at d))"
proof (cases "ApplyContext H procs c op at d")
  case (Pair r d')
  show ?thesis
  proof (cases r)
    case (Inl e)
    then show ?thesis using apply_error [OF assms] Pair ensureHash_ok(2) [OF assms] assms by fastforce
  next
    case (Inr acc)
    show ?thesis
    proof (cases "fmlookup (accepted d) (op_id op)")
      case None
      then show ?thesis
        using apply_new [OF assms Pair [unfolded Inr]] applied_ok [OF ensureHash_ok(2) [OF assms]] Pair by fastforce
    next
      case (Some a)
      then show ?thesis
        using apply_repeat [OF assms Some] ensureHash_ok(2) [OF assms] assms by (auto split: sum.splits)
    qed
  qed
qed

end
