(* ===== verification/Document_Local.thy ===== *)
theory Document_Local
  imports Document_Correct
begin

text \<open>
  Owner edits (engine/local.go): \<^verbatim>\<open>ApplyLocal\<close> installs the changes that differ, in place, advances
  the revision and drops the cached hash. What it publishes is what the wire path would publish.
\<close>

section \<open>Leaving out changes that change nothing\<close>

definition real_changes :: "tile_change list \<Rightarrow> tile_change list" where
  "real_changes chs = filter (\<lambda>ch. \<not> TileState_Equal (before ch) (after ch)) chs"

lemma set_real_changes: "set (real_changes chs) = {ch \<in> set chs. tile_view (before ch) \<noteq> tile_view (after ch)}"
  by (auto simp: real_changes_def TileState_Equal_view)

lemma distinct_map_filter': "distinct (map f xs) \<Longrightarrow> distinct (map f (filter P xs))"
  by (induction xs) auto

lemma distinct_concat_filter: "distinct (concat (map f xs)) \<Longrightarrow> distinct (concat (map f (filter P xs)))"
  by (induction xs) auto

lemma distinct_inj: "distinct (map f xs) \<Longrightarrow> x \<in> set xs \<Longrightarrow> y \<in> set xs \<Longrightarrow> f x = f y \<Longrightarrow> x = y"
  by (auto simp: distinct_map inj_on_def)

lemma real_changes_ok:
  assumes "changes_ok s chs" "real_changes chs \<noteq> []"
  shows "changes_ok s (real_changes chs)"
proof -
  note okd = changes_okD [OF assms(1)]
  have "length (real_changes chs) \<le> length chs" by (simp add: real_changes_def)
  then have count: "count_ok s (real_changes chs)"
    using assms by (auto simp: changes_ok_def count_ok_def split: sum.splits)
  have owner: "c \<in> ch_coord ` set (real_changes chs)"
    if ch: "ch \<in> set (real_changes chs)" "i \<in> set (tile_ids (after ch))"
      and st: "tile_table (tiles s) c = Some st" "i \<in> set (tile_ids st)" for ch i c st
  proof -
    have chs: "ch \<in> set chs" using ch(1) by (simp add: set_real_changes)
    obtain ch2 where ch2: "ch2 \<in> set chs" "ch_coord ch2 = c" using okd(6) [OF chs ch(2) st] by auto
    have "i \<in> set (tile_ids (before ch2))" using before_ids [OF assms(1) ch2(1)] st ch2(2) by blast
    then have "ch2 = ch" if "tile_view (before ch2) = tile_view (after ch2)"
      using distinct_concat_disjoint [OF okd(2) ch2(1) chs] ch(2) that by (auto simp: tile_ids_view)
    then have "ch2 \<in> set (real_changes chs)" using ch(1) ch2(1) by (auto simp: set_real_changes)
    then show ?thesis using ch2(2) by blast
  qed
  have "distinct (map ch_coord (real_changes chs))" "distinct (concat (map (\<lambda>ch. tile_ids (after ch)) (real_changes chs)))"
    using okd(1,2) by (simp_all add: real_changes_def distinct_map_filter' distinct_concat_filter)
  then show ?thesis
    using okd(3,4,5) owner count unfolding changes_ok_def set_real_changes by auto
qed

lemma apply_view_at:
  assumes "distinct (map ch_coord chs)" "ch \<in> set chs"
  shows "apply_view chs m (ch_coord ch) = tile_view (after ch)"
proof -
  have "change_table chs (ch_coord ch) = Some (after ch)"
    using assms by (auto simp: change_table_Some_iff)
  then show ?thesis by (simp add: apply_view_def)
qed

lemma apply_view_other: "c \<notin> ch_coord ` set chs \<Longrightarrow> apply_view chs m c = m c"
  using dom_change_table [of chs] by (auto simp: apply_view_def domIff split: option.splits)

lemma real_changes_view:
  assumes "changes_ok s chs"
  shows "apply_view (real_changes chs) (map_view s) = apply_view chs (map_view s)"
proof (rule ext)
  fix c
  note okd = changes_okD [OF assms]
  have d: "distinct (map ch_coord (real_changes chs))" using okd(1) by (simp add: real_changes_def distinct_map_filter')
  show "apply_view (real_changes chs) (map_view s) c = apply_view chs (map_view s) c"
  proof (cases "c \<in> ch_coord ` set chs")
    case True
    then obtain ch where ch: "ch \<in> set chs" "c = ch_coord ch" by auto
    show ?thesis
    proof (cases "ch \<in> set (real_changes chs)")
      case True
      then show ?thesis using apply_view_at [OF d True] apply_view_at [OF okd(1) ch(1)] ch(2) by simp
    next
      case False
      then have "tile_view (before ch) = tile_view (after ch)" using ch(1) by (simp add: set_real_changes)
      moreover have "c \<notin> ch_coord ` set (real_changes chs)"
      proof
        assume "c \<in> ch_coord ` set (real_changes chs)"
        then obtain ch' where "ch' \<in> set (real_changes chs)" "ch_coord ch' = ch_coord ch" using ch(2) by auto
        then have "ch' = ch" using distinct_inj [OF okd(1)] ch(1) by (auto simp: set_real_changes)
        then show False using False \<open>ch' \<in> set (real_changes chs)\<close> by simp
      qed
      ultimately show ?thesis
        using apply_view_other [of c "real_changes chs"] apply_view_at [OF okd(1) ch(1)] okd(4) [OF ch(1)] ch(2) by simp
    qed
  next
    case False
    then have "c \<notin> ch_coord ` set (real_changes chs)" by (auto simp: set_real_changes)
    then show ?thesis using False by (simp add: apply_view_other)
  qed
qed

section \<open>Installation in place\<close>

lemma installChanges_eq:
  assumes "distinct (map ch_coord chs)"
  shows "\<exists>sh si. installChanges chs d =
    d\<lparr>doc_snapshot := (doc_snapshot d)\<lparr>tiles := write_tiles (tile_indexes d) chs (tiles (doc_snapshot d))\<rparr>,
      identity_owners := new_owners chs (identity_owners d),
      tile_indexes := grow_indexes chs (length (tiles (doc_snapshot d))) (tile_indexes d),
      shared_tile_indexes := sh, shared_identity_owners := si\<rparr>"
proof -
  obtain si where si: "updateIdentityOwners chs d =
      d\<lparr>identity_owners := new_owners chs (identity_owners d), shared_identity_owners := si\<rparr>"
    using updateIdentityOwners_eq by blast
  obtain sh where sh: "install_tiles chs (d\<lparr>identity_owners := new_owners chs (identity_owners d), shared_identity_owners := si\<rparr>) =
      d\<lparr>identity_owners := new_owners chs (identity_owners d), shared_identity_owners := si,
        doc_snapshot := (doc_snapshot d)\<lparr>tiles := write_tiles (tile_indexes d) chs (tiles (doc_snapshot d))\<rparr>,
        tile_indexes := grow_indexes chs (length (tiles (doc_snapshot d))) (tile_indexes d), shared_tile_indexes := sh\<rparr>"
    using install_tiles_write [OF assms, of "d\<lparr>identity_owners := new_owners chs (identity_owners d), shared_identity_owners := si\<rparr>"]
    by auto
  show ?thesis
    unfolding installChanges_def si sh by (intro exI [of _ sh] exI [of _ si]) simp
qed

definition edited :: "tile_change list \<Rightarrow> document \<Rightarrow> (bool \<times> address option \<times> bool \<times> bool) \<Rightarrow> document" where
  "edited chs d flags = (case flags of (st, sr, sh, si) \<Rightarrow>
     d\<lparr>doc_snapshot := rewritten (doc_snapshot d) (tile_indexes d) chs (snap_revision (doc_snapshot d) + 1),
       map_hash := [], doc_hasher := None, identity_owners := new_owners chs (identity_owners d),
       tile_indexes := grow_indexes chs (length (tiles (doc_snapshot d))) (tile_indexes d),
       shared_tiles := st, scoped_readers := sr, shared_tile_indexes := sh, shared_identity_owners := si\<rparr>)"

lemma edited_sel [simp]:
  "doc_snapshot (edited chs d fl) = rewritten (doc_snapshot d) (tile_indexes d) chs (snap_revision (doc_snapshot d) + 1)"
  "map_hash (edited chs d fl) = []" "identity_owners (edited chs d fl) = new_owners chs (identity_owners d)"
  "tile_indexes (edited chs d fl) = grow_indexes chs (length (tiles (doc_snapshot d))) (tile_indexes d)"
  "accepted (edited chs d fl) = accepted d" "inverted (edited chs d fl) = inverted d" "hashes (edited chs d fl) = hashes d"
  "unshared (edited chs d fl) = unshared d"
  by (cases fl; simp add: edited_def)+

lemma edited_ok:
  assumes "doc_ok H procs d" "changes_ok (doc_snapshot d) chs"
  shows "doc_ok H procs (edited chs d fl)"
proof -
  note ok = doc_okD [OF assms(1)]
  note w = rewritten_ok [OF ok(1,2) assms(2)]
  have "ids_ok (tile_table (tiles (doc_snapshot d)))" using ok(1) by (simp add: snapshot_ok_table)
  then have "owners_ok (tile_table (tiles (doc_snapshot d)) ++ change_table chs) (new_owners chs (identity_owners d))"
    by (rule new_owners_ok [OF _ ok(3) assms(2)])
  then show ?thesis
    unfolding doc_ok_def edited_sel rewritten_sel w(3) using w(1,2) by simp
qed

lemma local_accept_edit:
  assumes "chs \<noteq> []" "distinct (map ch_coord chs)" "local_accept loads c chs request d = Inr (a, d')"
  shows "snap_revision (doc_snapshot d) \<noteq> - 1 \<and> (\<exists>fl. d' = edited chs d fl) \<and>
    a = \<lparr>la_document = lv_document (lr_version request), la_revision = snap_revision (doc_snapshot d) + 1, la_changes = chs\<rparr>"
proof -
  obtain sh si where i: "installChanges chs (own_tiles loads d) = (own_tiles loads d)
      \<lparr>doc_snapshot := (doc_snapshot (own_tiles loads d))\<lparr>tiles := write_tiles (tile_indexes (own_tiles loads d)) chs
         (tiles (doc_snapshot (own_tiles loads d)))\<rparr>,
      identity_owners := new_owners chs (identity_owners (own_tiles loads d)),
      tile_indexes := grow_indexes chs (length (tiles (doc_snapshot (own_tiles loads d)))) (tile_indexes (own_tiles loads d)),
      shared_tile_indexes := sh, shared_identity_owners := si\<rparr>"
    using installChanges_eq [OF assms(2)] by blast
  have own: "own_tiles loads d = d\<lparr>shared_tiles := shared_tiles (own_tiles loads d), scoped_readers := scoped_readers (own_tiles loads d)\<rparr>"
    by (simp add: own_tiles_def)
  define st sr where "st = shared_tiles (own_tiles loads d)" and "sr = scoped_readers (own_tiles loads d)"
  have own': "own_tiles loads d = d\<lparr>shared_tiles := st, scoped_readers := sr\<rparr>" using own by (simp only: st_def sr_def)
  have "d' = edited chs d (st, sr, sh, si)"
    using assms(1,3) i unfolding local_accept_def own'
    by (auto simp: sum_bind_Inr_iff Let_def edited_def rewritten_def)
  then show ?thesis
    using assms(1,3) i unfolding local_accept_def own'
    by (auto simp: sum_bind_Inr_iff Let_def map_idI)
qed


section \<open>The owner edit\<close>

text \<open>The fences of \<^verbatim>\<open>ApplyLocal\<close>: an unshared document, its own version token, the current revision.\<close>

definition fenced :: "address \<Rightarrow> local_request \<Rightarrow> document \<Rightarrow> bool" where
  "fenced self request d \<longleftrightarrow> unshared d \<and> lr_version request = LocalVersion self d"

lemma fenced_iff:
  "unshared d \<and> lv_owner v = Some self \<and> lv_document v = snap_document (doc_snapshot d) \<and>
     lv_revision v = snap_revision (doc_snapshot d) \<longleftrightarrow> unshared d \<and> v = LocalVersion self d"
  by (cases v) (auto simp: LocalVersion_def)

lemma ApplyLocal_result:
  assumes "doc_ok H procs d" "ApplyLocal loads self c request d = (Inr a, d')"
  defines "chs \<equiv> sort_changes (lr_changes request)"
  shows "fenced self request d" "changes_ok (doc_snapshot d) chs"
    "a = \<lparr>la_document = snap_document (doc_snapshot d), la_revision = snap_revision (doc_snapshot d'), la_changes = real_changes chs\<rparr>"
    "if real_changes chs = [] then d' = d
     else snap_revision (doc_snapshot d) \<noteq> - 1 \<and> (\<exists>fl. d' = edited (real_changes chs) d fl)"
proof -
  have "apply_local loads self c request d = Inr (a, d')"
    using assms(2) by (auto simp: ApplyLocal_def split: sum.splits)
  then obtain c2 owned c3 c1 where l: "unshared d" "lv_owner (lr_version request) = Some self"
      "lv_document (lr_version request) = snap_document (doc_snapshot d)"
      "lv_revision (lr_version request) = snap_revision (doc_snapshot d)"
      "cloneChangesContext c1 (lr_changes request) = Inr (c2, owned)"
      "validateChanges d c2 (sort_changes owned) = Inr c3"
      "local_accept loads c3 (real_changes (sort_changes owned)) request d = Inr (a, d')"
    unfolding apply_local_def Let_def real_changes_def by (auto simp: sum_bind_Inr_iff)
  have owned: "sort_changes owned = chs" using cloneChangesContext_eq [OF l(5)] by (simp add: chs_def)
  show "fenced self request d" using l(1-4) fenced_iff [of d "lr_version request" self] by (simp add: fenced_def)
  show ok: "changes_ok (doc_snapshot d) chs" using validateChanges_ok [OF assms(1) l(6)] by (simp add: owned)
  have dist: "distinct (map ch_coord (real_changes chs))"
    using changes_okD(1) [OF ok] by (simp add: real_changes_def distinct_map_filter')
  have "(real_changes chs = [] \<longrightarrow> d' = d \<and> a = \<lparr>la_document = lv_document (lr_version request),
        la_revision = lv_revision (lr_version request), la_changes = []\<rparr>)"
    using l(7) by (auto simp: local_accept_def owned)
  then show "a = \<lparr>la_document = snap_document (doc_snapshot d), la_revision = snap_revision (doc_snapshot d'), la_changes = real_changes chs\<rparr>"
    "if real_changes chs = [] then d' = d
     else snap_revision (doc_snapshot d) \<noteq> - 1 \<and> (\<exists>fl. d' = edited (real_changes chs) d fl)"
    using local_accept_edit [OF _ dist l(7) [unfolded owned]] l(3,4) by (cases "real_changes chs = []"; auto)+
qed

lemma ApplyLocal_error: "ApplyLocal loads self c request d = (Inl e, d') \<Longrightarrow> d' = d"
  by (auto simp: ApplyLocal_def split: sum.splits)

lemma ApplyLocal_doc_ok:
  assumes "doc_ok H procs d"
  shows "doc_ok H procs (snd (ApplyLocal loads self c request d))"
proof (cases "ApplyLocal loads self c request d")
  case (Pair r d')
  show ?thesis
  proof (cases r)
    case (Inl e)
    then show ?thesis using ApplyLocal_error [of loads self c request d e d'] Pair assms by simp
  next
    case (Inr a)
    note res = ApplyLocal_result [OF assms Pair [unfolded Inr]]
    show ?thesis
      using res(4) edited_ok [OF assms real_changes_ok [OF res(2)]] assms Pair by (auto split: if_splits)
  qed
qed

end
