(* ===== verification/Capture.thy ===== *)
theory Capture
  imports Document
begin

text \<open>
  Captures of a document (engine/snapshot_capture.go, scoped_tile_capture.go): handles that pin the
  tile table and the coordinate index of one revision, and the saturating size estimates a worker
  reserves before it copies them. A pinned table is immutable, so a capture holds it as a value; the
  sharing flags that make it so are set here. A scoped capture is reached through a pointer shared by
  every copied handle, so its state lives in a store of capture cells and reader counters.
\<close>

section \<open>Size estimates\<close>

definition addEstimatedBytes :: "u64 \<Rightarrow> u64 \<Rightarrow> u64" where
  "addEstimatedBytes bytes add = (if add > - 1 - bytes then - 1 else bytes + add)"

definition estimate_prefab :: "u64 \<Rightarrow> prefab_state \<Rightarrow> u64" where
  "estimate_prefab bytes p =
     foldl (\<lambda>b (name, value). addEstimatedBytes b (48 + of_nat (length name) + of_nat (length value)))
       (addEstimatedBytes bytes (96 + of_nat (length (prefab_path p)) + of_nat (length (prefab_id p))))
       (map_entries (vars_of p))"

definition EstimateTileStateBytes :: "tile_state \<Rightarrow> u64" where
  "EstimateTileStateBytes st = foldl estimate_prefab 96 (prefab_list st)"

definition EstimateSnapshotBytes :: "snapshot \<Rightarrow> u64" where
  "EstimateSnapshotBytes s =
     foldl (\<lambda>b t. addEstimatedBytes b (EstimateTileStateBytes (tile_st t))) (push_bit 20 1) (tiles s)"

section \<open>Captures of unlimited lifetime\<close>

record snapshot_capture =
  cap_snapshot :: snapshot

record tile_capture = snapshot_capture +
  cap_indexes :: "coord \<rightharpoonup> nat"

definition CaptureSnapshot :: "document \<Rightarrow> snapshot_capture \<times> document" where
  "CaptureSnapshot d = (\<lparr>cap_snapshot = doc_snapshot d\<rparr>, d\<lparr>shared_tiles := True\<rparr>)"

definition SnapshotCapture_Snapshot :: "snapshot_capture \<Rightarrow> snapshot" where
  "SnapshotCapture_Snapshot cap = CloneSnapshot (cap_snapshot cap)"

definition SnapshotCapture_EstimatedBytes :: "snapshot_capture \<Rightarrow> u64" where
  "SnapshotCapture_EstimatedBytes cap = EstimateSnapshotBytes (cap_snapshot cap)"

definition CaptureTiles :: "document \<Rightarrow> tile_capture \<times> document" where
  "CaptureTiles d =
     (let d1 = d\<lparr>shared_tile_indexes := True\<rparr>; (cap, d2) = CaptureSnapshot d1
      in (\<lparr>cap_snapshot = cap_snapshot cap, cap_indexes = tile_indexes d2\<rparr>, d2))"

definition TileCapture_Tile :: "tile_capture \<Rightarrow> coord \<Rightarrow> tile_state \<times> bool" where
  "TileCapture_Tile cap c =
     (case cap_indexes cap c of
        None \<Rightarrow> (empty_tile, False)
      | Some i \<Rightarrow> (CloneTileState (tile_st (tiles (cap_snapshot cap) ! i)), True))"

definition EstimatedTileBytes :: "tile_capture \<Rightarrow> coord \<Rightarrow> u64 \<times> bool" where
  "EstimatedTileBytes cap c =
     (case cap_indexes cap c of
        None \<Rightarrow> (0, False)
      | Some i \<Rightarrow> (EstimateTileStateBytes (tile_st (tiles (cap_snapshot cap) ! i)), True))"

section \<open>Scoped captures\<close>

text \<open>The zero value of a capture, which \<^verbatim>\<open>Release\<close> leaves behind: an empty snapshot, a nil index.\<close>

definition zero_snapshot :: snapshot where
  "zero_snapshot = \<lparr>protocol_version = 0, schema_version = 0, snap_document = [], snap_revision = 0,
     environment_hash = [], max_x = 0, max_y = 0, max_z = 0, tiles = []\<rparr>"

definition zero_capture :: tile_capture where
  "zero_capture = \<lparr>cap_snapshot = zero_snapshot, cap_indexes = Map.empty\<rparr>"

record scoped_cell =
  cell_capture :: tile_capture
  cell_readers :: "address option"

record capture_store =
  cells :: "address \<rightharpoonup> scoped_cell"
  counters :: "address \<rightharpoonup> int"

text \<open>A handle is the address of its cell, or nil. \<open>fresh\<close> addresses come from the allocator.\<close>

definition CaptureScopedTiles ::
  "address \<Rightarrow> address \<Rightarrow> document \<Rightarrow> capture_store \<Rightarrow> address \<times> document \<times> capture_store" where
  "CaptureScopedTiles fresh_cell fresh_counter d store =
     (let (r, d1, store1) = (case scoped_readers d of
            Some r \<Rightarrow> (r, d, store)
          | None \<Rightarrow> (fresh_counter, d\<lparr>scoped_readers := Some fresh_counter\<rparr>,
                     store\<lparr>counters := (counters store)(fresh_counter \<mapsto> 0)\<rparr>));
          store2 = store1\<lparr>counters := (counters store1)(r := map_option (\<lambda>n. n + 1) (counters store1 r))\<rparr>;
          d2 = d1\<lparr>shared_tile_indexes := True\<rparr>;
          cell = \<lparr>cell_capture = \<lparr>cap_snapshot = doc_snapshot d2, cap_indexes = tile_indexes d2\<rparr>, cell_readers = Some r\<rparr>
      in (fresh_cell, d2, store2\<lparr>cells := (cells store2)(fresh_cell \<mapsto> cell)\<rparr>))"

definition cell_of :: "address option \<Rightarrow> capture_store \<Rightarrow> scoped_cell option" where
  "cell_of handle store = (case handle of None \<Rightarrow> None | Some a \<Rightarrow> cells store a)"

definition Scoped_DocumentID :: "address option \<Rightarrow> capture_store \<Rightarrow> document_id" where
  "Scoped_DocumentID handle store =
     (case cell_of handle store of None \<Rightarrow> [] | Some cell \<Rightarrow> snap_document (cap_snapshot (cell_capture cell)))"

definition Scoped_Revision :: "address option \<Rightarrow> capture_store \<Rightarrow> revision" where
  "Scoped_Revision handle store =
     (case cell_of handle store of None \<Rightarrow> 0 | Some cell \<Rightarrow> snap_revision (cap_snapshot (cell_capture cell)))"

definition Scoped_Tile :: "address option \<Rightarrow> coord \<Rightarrow> capture_store \<Rightarrow> tile_state \<times> bool" where
  "Scoped_Tile handle c store =
     (case cell_of handle store of None \<Rightarrow> (empty_tile, False) | Some cell \<Rightarrow> TileCapture_Tile (cell_capture cell) c)"

definition Scoped_EstimatedTileBytes :: "address option \<Rightarrow> coord \<Rightarrow> capture_store \<Rightarrow> u64 \<times> bool" where
  "Scoped_EstimatedTileBytes handle c store =
     (case cell_of handle store of None \<Rightarrow> (0, False) | Some cell \<Rightarrow> EstimatedTileBytes (cell_capture cell) c)"

definition Scoped_Release :: "address option \<Rightarrow> capture_store \<Rightarrow> capture_store" where
  "Scoped_Release handle store =
     (case handle of
        None \<Rightarrow> store
      | Some a \<Rightarrow>
          (case cells store a of
             None \<Rightarrow> store
           | Some cell \<Rightarrow>
               (case cell_readers cell of
                  None \<Rightarrow> store
                | Some r \<Rightarrow>
                    store\<lparr>cells := (cells store)(a \<mapsto> \<lparr>cell_capture = zero_capture, cell_readers = None\<rparr>),
                          counters := (counters store)(r := map_option (\<lambda>n. n - 1) (counters store r))\<rparr>)))"

section \<open>Estimates never wrap\<close>

text \<open>The exact size in unbounded arithmetic.\<close>

definition prefab_size :: "prefab_state \<Rightarrow> nat" where
  "prefab_size p = 96 + length (prefab_path p) + length (prefab_id p) +
     sum_list (map (\<lambda>(name, value). 48 + length name + length value) (map_entries (vars_of p)))"

definition tile_size :: "tile_state \<Rightarrow> nat" where
  "tile_size st = 96 + sum_list (map prefab_size (prefab_list st))"

definition snapshot_size :: "snapshot \<Rightarrow> nat" where
  "snapshot_size s = 2 ^ 20 + sum_list (map (\<lambda>t. tile_size (tile_st t)) (tiles s))"

definition saturate :: "nat \<Rightarrow> u64" where
  "saturate n = (if n < 2 ^ 64 then of_nat n else - 1)"

lemma unat_max [simp]: "unat (- 1 :: u64) = 2 ^ 64 - 1"
  by (simp add: unsigned_minus_1_eq_mask mask_eq_exp_minus_1)

lemma unat_saturate: "unat (saturate n) = min n (2 ^ 64 - 1)"
proof (cases "n < 2 ^ 64")
  case True
  then show ?thesis by (simp add: saturate_def unsigned_of_nat take_bit_nat_eq_self)
next
  case False
  then show ?thesis by (simp add: saturate_def)
qed

lemma unat_addEstimated: "unat (addEstimatedBytes a b) = min (unat a + unat b) (2 ^ 64 - 1)"
proof -
  have bound: "unat a < 2 ^ 64" "unat b < 2 ^ 64" using unsigned_less [of a, where ?'a = nat] unsigned_less [of b, where ?'a = nat] by simp_all
  have "unat (- 1 - a) = 2 ^ 64 - 1 - unat a"
    by (subst unat_sub) (simp_all add: word_order.extremum)
  then have "b > - 1 - a \<longleftrightarrow> unat a + unat b \<ge> 2 ^ 64"
    using bound by (auto simp: word_less_nat_alt)
  moreover have "unat (a + b) = unat a + unat b" if "unat a + unat b < 2 ^ 64"
    using that by (simp add: unat_word_ariths)
  ultimately show ?thesis
    using bound by (auto simp: addEstimatedBytes_def not_le)
qed

lemma add_saturate: "addEstimatedBytes (saturate m) (saturate n) = saturate (m + n)"
  by (rule word_unat_eq_iff [THEN iffD2]) (simp add: unat_addEstimated unat_saturate min_def)

text \<open>Strings whose lengths fit the 64-bit sums of one entry, as every string in memory does.\<close>

definition prefab_fits :: "prefab_state \<Rightarrow> bool" where
  "prefab_fits p \<longleftrightarrow> 96 + length (prefab_path p) + length (prefab_id p) < 2 ^ 64 \<and>
     list_all (\<lambda>(name, value). 48 + length name + length value < 2 ^ 64) (map_entries (vars_of p))"

definition tile_fits :: "tile_state \<Rightarrow> bool" where
  "tile_fits st \<longleftrightarrow> list_all prefab_fits (prefab_list st)"

lemma saturate_of_nat: "n < 2 ^ 64 \<Longrightarrow> of_nat n = saturate n"
  by (simp add: saturate_def)

lemma fold_saturate:
  assumes "\<And>n x. x \<in> set xs \<Longrightarrow> f (saturate n) x = saturate (n + g x)"
  shows "foldl f (saturate n) xs = saturate (n + sum_list (map g xs))"
  using assms by (induction xs arbitrary: n) (simp_all add: add.assoc)

lemma estimate_prefab_size:
  assumes "prefab_fits p"
  shows "estimate_prefab (saturate n) p = saturate (n + prefab_size p)"
proof -
  let ?f = "\<lambda>b (name, value). addEstimatedBytes b (48 + of_nat (length name) + of_nat (length value))"
  let ?g = "\<lambda>(name, value). 48 + length name + length value"
  have head: "(96 + of_nat (length (prefab_path p)) + of_nat (length (prefab_id p)) :: u64) =
      saturate (96 + length (prefab_path p) + length (prefab_id p))"
    using assms saturate_of_nat [of "96 + length (prefab_path p) + length (prefab_id p)"] by (simp add: prefab_fits_def)
  have "?f (saturate m) e = saturate (m + ?g e)" if "e \<in> set (map_entries (vars_of p))" for m e
  proof -
    obtain name raw where e: "e = (name, raw)" by fastforce
    have "48 + length name + length raw < 2 ^ 64" using assms that by (auto simp: e prefab_fits_def list_all_iff)
    from saturate_of_nat [OF this]
    have "(48 + of_nat (length name) + of_nat (length raw) :: u64) = saturate (48 + length name + length raw)" by simp
    then show ?thesis by (simp add: e add_saturate)
  qed
  then have "foldl ?f (saturate (n + (96 + length (prefab_path p) + length (prefab_id p)))) (map_entries (vars_of p)) =
      saturate (n + (96 + length (prefab_path p) + length (prefab_id p)) + sum_list (map ?g (map_entries (vars_of p))))"
    by (rule fold_saturate)
  then show ?thesis unfolding estimate_prefab_def head add_saturate prefab_size_def by (simp only: add.assoc)
qed

lemma estimate_tile_size: "tile_fits st \<Longrightarrow> EstimateTileStateBytes st = saturate (tile_size st)"
  using fold_saturate [of "prefab_list st" estimate_prefab prefab_size 96] estimate_prefab_size
  by (simp add: EstimateTileStateBytes_def tile_size_def tile_fits_def list_all_iff saturate_of_nat [symmetric])

lemma estimate_snapshot_size:
  assumes "list_all (\<lambda>t. tile_fits (tile_st t)) (tiles s)"
  shows "EstimateSnapshotBytes s = saturate (snapshot_size s)"
proof -
  have "saturate (2 ^ 20) = (push_bit 20 1 :: u64)" by (simp add: saturate_def push_bit_eq_mult)
  then show ?thesis
    using fold_saturate [of "tiles s" "\<lambda>b t. addEstimatedBytes b (EstimateTileStateBytes (tile_st t))" "\<lambda>t. tile_size (tile_st t)" "2 ^ 20"]
      assms estimate_tile_size
    by (simp add: EstimateSnapshotBytes_def snapshot_size_def list_all_iff add_saturate)
qed

end
