(* ===== verification/Document_History.thy ===== *)
theory Document_History
  imports Document_Local Capture
begin

text \<open>
  Every document the program can reach: built by a constructor and changed by any sequence of
  operations, with any contexts, requests and answers. All of them satisfy the representation
  invariant and a history invariant, from which the properties of the engine follow.
\<close>

section \<open>Reachable documents\<close>

inductive doc_step :: "digest_fun \<Rightarrow> nat \<Rightarrow> document \<Rightarrow> document \<Rightarrow> bool" for H procs where
  step_apply: "doc_step H procs d (snd (ApplyContext H procs c op at d))"
| step_local: "doc_step H procs d (snd (ApplyLocal loads self c request d))"
| step_inverse: "doc_step H procs d (snd (BuildInverseContext H procs c actor target inverse_id d))"
| step_metadata: "doc_step H procs d (snd (Metadata H procs d))"
| step_branch: "doc_step H procs d (fst (Document_Clone d))"
| step_share: "doc_step H procs d (snd (Document_Clone d))"
| step_snapshot: "doc_step H procs d (snd (CaptureSnapshot d))"
| step_tiles: "doc_step H procs d (snd (CaptureTiles d))"
| step_scoped: "doc_step H procs d (fst (snd (CaptureScopedTiles cell counter d store)))"

inductive reachable :: "digest_fun \<Rightarrow> nat \<Rightarrow> document \<Rightarrow> bool" for H procs where
  reach_new: "NewDocument H procs s = Inr d \<Longrightarrow> reachable H procs d"
| reach_unshared: "NewUnsharedDocument H procs s = Inr d \<Longrightarrow> reachable H procs d"
| reach_step: "reachable H procs d \<Longrightarrow> doc_step H procs d d' \<Longrightarrow> reachable H procs d'"

definition reverses :: "tile_change list \<Rightarrow> tile_change list \<Rightarrow> bool" where
  "reverses chs targets \<longleftrightarrow> list_all2 (\<lambda>ch t. ch_coord ch = ch_coord t \<and>
     tile_view (before ch) = tile_view (after t) \<and> tile_view (after ch) = tile_view (before t)) chs targets"

definition accepted_ok :: "document \<Rightarrow> operation_id \<Rightarrow> accepted_operation \<Rightarrow> bool" where
  "accepted_ok d i a \<longleftrightarrow> op_id (acc_op a) = i \<and> op_document (acc_op a) = snap_document (doc_snapshot d) \<and>
     sort_changes (changes (acc_op a)) = changes (acc_op a) \<and> distinct (map ch_coord (changes (acc_op a)))"

definition inverse_ok :: "document \<Rightarrow> operation_id \<Rightarrow> accepted_operation \<Rightarrow> bool" where
  "inverse_ok d t a \<longleftrightarrow> op_kind (acc_op a) = InverseKind \<and>
     (\<exists>ta. fmlookup (accepted d) t = Some ta \<and> op_actor (acc_op ta) = op_actor (acc_op a) \<and>
        op_kind (acc_op ta) \<noteq> InverseKind \<and> reverses (changes (acc_op a)) (changes (acc_op ta)))"

definition hist_ok :: "document \<Rightarrow> bool" where
  "hist_ok d \<longleftrightarrow>
     (\<forall>i a. fmlookup (accepted d) i = Some a \<longrightarrow> accepted_ok d i a) \<and>
     (\<forall>t i. inverted d t = Some i \<longleftrightarrow> (\<exists>a. fmlookup (accepted d) i = Some a \<and> inverse_of (acc_op a) = Some t)) \<and>
     (\<forall>i a t. fmlookup (accepted d) i = Some a \<longrightarrow> inverse_of (acc_op a) = Some t \<longrightarrow> inverse_ok d t a) \<and>
     (map_hash d \<noteq> [] \<longrightarrow> hashes d (snap_revision (doc_snapshot d)) = Some (map_hash d))"

lemma same_inverse_reverses:
  "same_inverse d c chs targets = Inr c' \<Longrightarrow> length chs = length targets \<Longrightarrow> reverses chs targets"
  by (induction d c chs targets arbitrary: c' rule: same_inverse.induct)
    (auto simp: sum_bind_Inr_iff reverses_def TileState_Equal_view)

lemma validateInverse_ok:
  assumes "validateInverseContext d c op = Inr c'" "validate_header d op0 = Inr ()"
    "inverse_of op0 = inverse_of op" "op_kind op0 = op_kind op" "inverse_of op = Some t"
  shows "op_kind op = InverseKind" "inverted d t = None"
    "\<exists>ta. fmlookup (accepted d) t = Some ta \<and> op_actor (acc_op ta) = op_actor op \<and>
        op_kind (acc_op ta) \<noteq> InverseKind \<and> reverses (changes op) (changes (acc_op ta))"
proof -
  show k: "op_kind op = InverseKind"
    using assms(2-5) by (auto simp: validate_header_def sum_bind_Inr_iff split: option.splits)
  show "inverted d t = None" "\<exists>ta. fmlookup (accepted d) t = Some ta \<and> op_actor (acc_op ta) = op_actor op \<and>
        op_kind (acc_op ta) \<noteq> InverseKind \<and> reverses (changes op) (changes (acc_op ta))"
    using assms(1,5) k
    by (auto simp: validateInverseContext_def sum_bind_Inr_iff split: option.splits dest: same_inverse_reverses)
qed

lemma sort_changes_idem [simp]: "sort_changes (sort_changes chs) = sort_changes chs"
  by (simp add: sort_changes_def sort_key_id_if_sorted)

lemma distinct_sort_changes': "distinct (map ch_coord (sort_changes chs)) \<longleftrightarrow> distinct (map ch_coord chs)"
  by (auto simp: sort_changes_def distinct_map)

lemma inverse_ok_mono:
  "inverse_ok d t a \<Longrightarrow> (\<And>i b. fmlookup (accepted d) i = Some b \<Longrightarrow> fmlookup (accepted d') i = Some b) \<Longrightarrow> inverse_ok d' t a"
  by (auto simp: inverse_ok_def)

lemma hist_ok_cong:
  assumes "hist_ok d" "accepted d' = accepted d" "inverted d' = inverted d"
    "snap_document (doc_snapshot d') = snap_document (doc_snapshot d)"
    "map_hash d' \<noteq> [] \<longrightarrow> hashes d' (snap_revision (doc_snapshot d')) = Some (map_hash d')"
  shows "hist_ok d'"
  using assms unfolding hist_ok_def accepted_ok_def inverse_ok_def by simp

lemma hashed_doc_hist: "hist_ok d \<Longrightarrow> hist_ok (hashed_doc H procs d)"
  by (rule hist_ok_cong [of d]) (auto simp: hashed_doc_def Let_def hist_ok_def)

lemma applied_hist:
  assumes "hist_ok d" "fmlookup (accepted d) (op_id op) = None" "op_document op = snap_document (doc_snapshot d)"
    "changes_ok (doc_snapshot d) (sort_changes (changes op))" "validate_header d op = Inr ()"
    "validateInverseContext d c (op\<lparr>changes := sort_changes (changes op)\<rparr>) = Inr c'"
  shows "hist_ok (applied H procs (sort_changes (changes op)) op at d sh si)"
proof -
  define d' where "d' = applied H procs (sort_changes (changes op)) op at d sh si"
  define a where "a = \<lparr>acc_op = op\<lparr>changes := sort_changes (changes op)\<rparr>,
    acc_revision = snap_revision (doc_snapshot d) + 1, accepted_at = at\<rparr>"
  have acc: "accepted d' = fmupd (op_id op) a (accepted d)" by (simp add: d'_def a_def)
  have inv: "inverted d' = (case inverse_of op of None \<Rightarrow> inverted d | Some t \<Rightarrow> (inverted d)(t \<mapsto> op_id op))"
    by (simp add: d'_def)
  have mono: "fmlookup (accepted d') i = Some b" if "fmlookup (accepted d) i = Some b" for i b
    using that assms(2) by (auto simp: acc)
  note v = validateInverse_ok [OF assms(6,5), simplified]
  have h1: "\<forall>i b. fmlookup (accepted d') i = Some b \<longrightarrow> accepted_ok d' i b"
    using assms(1,3) changes_okD(1) [OF assms(4)]
    by (auto simp: acc hist_ok_def accepted_ok_def a_def d'_def)
  have fresh: "inverted d t \<noteq> Some (op_id op)" for t using assms(1,2) by (auto simp: hist_ok_def)
  have h2: "inverted d' t = Some i \<longleftrightarrow> (\<exists>b. fmlookup (accepted d') i = Some b \<and> inverse_of (acc_op b) = Some t)" for t i
  proof (cases "i = op_id op")
    case True
    then show ?thesis using fresh by (auto simp: acc inv a_def split: option.splits)
  next
    case False
    have "inverted d' t = Some i \<longleftrightarrow> inverted d t = Some i"
      using False v(2) [of t] by (auto simp: inv split: option.splits)
    also have "\<dots> \<longleftrightarrow> (\<exists>b. fmlookup (accepted d) i = Some b \<and> inverse_of (acc_op b) = Some t)"
      using assms(1) unfolding hist_ok_def by blast
    finally show ?thesis using False by (simp add: acc)
  qed
  have h3: "inverse_ok d' t b" if "fmlookup (accepted d') i = Some b" "inverse_of (acc_op b) = Some t" for i b t
  proof (cases "i = op_id op")
    case True
    then have b: "b = a" using that(1) by (simp add: acc)
    then have "inverse_of op = Some t" using that(2) by (simp add: a_def)
    from v(1,3) [OF this] show ?thesis using mono by (fastforce simp: inverse_ok_def b a_def)
  next
    case False
    then have "fmlookup (accepted d) i = Some b" using that(1) by (simp add: acc)
    then have "inverse_ok d t b" using assms(1) that(2) unfolding hist_ok_def by blast
    then show ?thesis using mono by (rule inverse_ok_mono)
  qed
  have "map_hash d' \<noteq> [] \<longrightarrow> hashes d' (snap_revision (doc_snapshot d')) = Some (map_hash d')"
    by (simp add: d'_def)
  then show ?thesis unfolding hist_ok_def d'_def [symmetric] using h1 h2 h3 by blast
qed

lemma apply_hist:
  assumes "doc_ok H procs d" "hist_ok d"
  shows "hist_ok (snd (ApplyContext H procs c op at d))"
proof (cases "ApplyContext H procs c op at d")
  case (Pair r d')
  note hd = hashed_doc_hist [OF assms(2), of H procs]
  show ?thesis
  proof (cases r)
    case (Inl e)
    then show ?thesis using apply_error [OF assms(1), of c op at e d'] Pair hd assms(2) by auto
  next
    case (Inr acc)
    show ?thesis
    proof (cases "fmlookup (accepted d) (op_id op)")
      case None
      note new = apply_new [OF assms(1) Pair [unfolded Inr] None]
      obtain c1 c2 sh si where
        "validateInverseContext (hashed_doc H procs d) c1 (op\<lparr>changes := sort_changes (changes op)\<rparr>) = Inr c2"
        "d' = applied H procs (sort_changes (changes op)) op at (hashed_doc H procs d) sh si"
        using new(4,6) by blast
      then show ?thesis using applied_hist [OF hd] None new(1,2,3) Pair by simp
    next
      case (Some a)
      then show ?thesis using apply_repeat [OF assms(1) Some] hd assms(2) by (auto split: sum.splits)
    qed
  qed
qed

lemma ApplyLocal_hist:
  assumes "doc_ok H procs d" "hist_ok d"
  shows "hist_ok (snd (ApplyLocal loads self c request d))"
proof (cases "ApplyLocal loads self c request d")
  case (Pair r d')
  show ?thesis
  proof (cases r)
    case (Inl e)
    then show ?thesis using ApplyLocal_error [of loads self c request d e d'] Pair assms by simp
  next
    case (Inr a)
    note res = ApplyLocal_result(4) [OF assms(1) Pair [unfolded Inr]]
    have "hist_ok (edited chs d fl)" for chs fl by (rule hist_ok_cong [OF assms(2)]) simp_all
    then show ?thesis using res assms(2) Pair by (auto split: if_splits)
  qed
qed

text \<open>The steps that touch only the cached hash or the sharing flags.\<close>

lemma doc_ok_cong:
  "doc_ok H procs d \<Longrightarrow> doc_snapshot d' = doc_snapshot d \<Longrightarrow> tile_indexes d' = tile_indexes d \<Longrightarrow>
     identity_owners d' = identity_owners d \<Longrightarrow> map_hash d' = map_hash d \<Longrightarrow> doc_hasher d' = doc_hasher d \<Longrightarrow> doc_ok H procs d'"
  by (simp add: doc_ok_def)

lemma flags_ok:
  assumes "doc_ok H procs d" "hist_ok d"
    and "doc_snapshot d' = doc_snapshot d" "tile_indexes d' = tile_indexes d" "identity_owners d' = identity_owners d"
      "map_hash d' = map_hash d" "doc_hasher d' = doc_hasher d" "accepted d' = accepted d" "inverted d' = inverted d"
      "hashes d' = hashes d"
  shows "doc_ok H procs d' \<and> hist_ok d'"
proof
  show "doc_ok H procs d'" by (rule doc_ok_cong [OF assms(1,3-7)])
  show "hist_ok d'" by (rule hist_ok_cong [OF assms(2,8,9)]) (use assms(2) in \<open>simp_all add: assms hist_ok_def\<close>)
qed

lemma doc_step_ok:
  assumes "doc_step H procs d d'" "doc_ok H procs d" "hist_ok d"
  shows "doc_ok H procs d' \<and> hist_ok d'"
  using assms(1)
proof cases
  case (step_apply c op at)
  then show ?thesis using apply_doc_ok [OF assms(2)] apply_hist [OF assms(2,3)] by simp
next
  case (step_local loads self c request)
  then show ?thesis using ApplyLocal_doc_ok [OF assms(2)] ApplyLocal_hist [OF assms(2,3)] by simp
next
  case (step_inverse c actor target inverse_id)
  then show ?thesis
    using ensureHash_ok(1,2) [OF assms(2)] hashed_doc_hist [OF assms(3)] assms(2,3)
    by (auto simp: BuildInverseContext_def split: sum.splits)
next
  case step_metadata
  then show ?thesis
    using ensureHash_ok(1,2) [OF assms(2)] hashed_doc_hist [OF assms(3)] by (simp add: Metadata_def)
next
  case step_branch
  then show ?thesis by (intro flags_ok [OF assms(2,3)]) (simp_all add: Document_Clone_def share_tables_def)
next
  case step_share
  then show ?thesis by (intro flags_ok [OF assms(2,3)]) (simp_all add: Document_Clone_def share_tables_def)
next
  case step_snapshot
  then show ?thesis by (intro flags_ok [OF assms(2,3)]) (simp_all add: CaptureSnapshot_def)
next
  case step_tiles
  then show ?thesis by (intro flags_ok [OF assms(2,3)]) (simp_all add: CaptureTiles_def CaptureSnapshot_def)
next
  case (step_scoped cell counter store)
  then show ?thesis
    by (intro flags_ok [OF assms(2,3)]) (simp_all add: CaptureScopedTiles_def Let_def split: option.splits)
qed

lemma reachable_ok:
  assumes "reachable H procs d"
  shows "doc_ok H procs d \<and> hist_ok d"
  using assms
proof induction
  case (reach_new s d)
  then show ?case using NewDocument_ok [OF reach_new] by (simp add: hist_ok_def)
next
  case (reach_unshared s d)
  then obtain d0 where d0: "NewDocument H procs s = Inr d0" "d = d0\<lparr>unshared := True\<rparr>"
    by (auto simp: NewUnsharedDocument_def sum_bind_Inr_iff)
  have "hist_ok d0" using NewDocument_ok [OF d0(1)] by (simp add: hist_ok_def)
  then show ?case
    unfolding d0(2) by (intro flags_ok [OF NewDocument_ok [OF d0(1), THEN conjunct1]]) simp_all
next
  case (reach_step d d')
  then show ?case using doc_step_ok by blast
qed

section \<open>Completeness of acceptance\<close>

lemma cloneChanges_Background [simp]: "cloneChangesContext Background chs = Inr (Background, chs)"
  by (induction chs) simp_all

lemma candidate_Background [simp]: "candidate_tiles m Background chs ts = Inr (Background, write_tiles m chs ts)"
  by (induction chs arbitrary: ts) simp_all

lemma validateContext_accepts:
  assumes "doc_ok H procs d" "doc_hasher d = Some (newCanonicalHasher H procs (doc_snapshot d))"
      "map_hash d = h_digest (newCanonicalHasher H procs (doc_snapshot d))"
    and "validate_header d op = Inr ()" "changes_ok (doc_snapshot d) (sort_changes (changes op))"
      "validateInverseContext d Background (op\<lparr>changes := sort_changes (changes op)\<rparr>) = Inr Background"
  shows "\<exists>y. validateContext H procs Background d op = Inr (Background, y)"
proof -
  have "validateChanges d Background (sort_changes (changes op)) = Inr Background"
    using validateChanges_iff [OF doc_okD(2,3,4) [OF assms(1)]] assms(5) by blast
  then show ?thesis
    using assms(4,6) hash_candidate_ok [OF assms(1,5,2,3)]
    by (simp add: validateContext_def cloneOperationContext_def Let_def)
qed

lemma apply_accepts:
  assumes "doc_ok H procs d" "fmlookup (accepted d) (op_id op) = None"
    "op_document op = snap_document (doc_snapshot d)" "validate_header (hashed_doc H procs d) op = Inr ()"
    "changes_ok (doc_snapshot d) (sort_changes (changes op))"
    "validateInverseContext (hashed_doc H procs d) Background (op\<lparr>changes := sort_changes (changes op)\<rparr>) = Inr Background"
  shows "\<exists>acc d'. Apply H procs op at d = (Inr acc, d')"
proof -
  note ok = ensureHash_ok [OF assms(1)]
  obtain n c h g where "validateContext H procs Background (hashed_doc H procs d) op = Inr (Background, n, c, h, g)"
    using validateContext_accepts [OF ok(2) _ _ assms(4)] ok(3,4) assms(5,6) by fastforce
  then show ?thesis
    using assms(2,3) ok(1) by (cases "publish n c h g at (hashed_doc H procs d)") (simp add: Apply_def ApplyContext_def apply_hashed_def guard_def)
qed

end
