(* ===== verification/Hash_Binding.thy ===== *)
theory Hash_Binding
  imports Hash_Update
begin

text \<open>
  The three-level map hash (model/hash.go) binds the map: the bytes hashed for tiles, rows and the
  map are unambiguous, so two valid snapshots with one map hash have the same dimensions and tiles
  that read alike, unless the digest function collides on the very bytes it was given for them.
\<close>

section \<open>Bytes of a row and of the map\<close>

definition row_enc :: "row_key \<Rightarrow> bytes list \<Rightarrow> bytes" where
  "row_enc key ds = str_enc canonicalRowDomain @ be64 (of_int (fst key)) @ be64 (of_int (snd key)) @
     be64 (of_nat (length ds)) @ concat ds"

definition slot_enc :: "row_key \<times> bytes \<Rightarrow> bytes" where
  "slot_enc kd = be64 (of_int (fst (fst kd))) @ be64 (of_int (snd (fst kd))) @ snd kd"

definition map_enc :: "int \<Rightarrow> int \<Rightarrow> int \<Rightarrow> int \<Rightarrow> (row_key \<times> bytes) list \<Rightarrow> bytes" where
  "map_enc mx my mz n kds = str_enc canonicalMapDomain @ be64 (of_int mx) @ be64 (of_int my) @
     be64 (of_int mz) @ be64 (of_int n) @ be64 (of_nat (length kds)) @ concat (map slot_enc kds)"

definition digest32 :: "digest_fun \<Rightarrow> bool" where
  "digest32 H \<longleftrightarrow> (\<forall>x. length (H x) = 32)"

lemma rowDigest_enc: "\<forall>d\<in>set ds. length d = 32 \<Longrightarrow> rowDigest H key ds = H (row_enc key ds)"
  using enc_foldl [of ds writeDigest "\<lambda>d. d"] by (simp add: rowDigest_def row_enc_def Let_def)

definition row_slot :: "hash_row \<Rightarrow> row_key \<times> bytes" where
  "row_slot r = (row_key r, row_digest r)"

lemma mapDigest_enc:
  assumes "\<forall>r\<in>set (h_rows h). length (row_digest r) = 32"
  shows "mapDigest H h = hex_encode (H (map_enc (h_max_x h) (h_max_y h) (h_max_z h) (h_tiles h)
    (map row_slot (h_rows h))))"
proof -
  have "enc_all (foldl (\<lambda>e row. writeDigest (writeUint64 (writeUint64 e (of_int (fst (row_key row))))
      (of_int (snd (row_key row)))) (row_digest row)) e (h_rows h)) =
    enc_all e @ concat (map (slot_enc \<circ> row_slot) (h_rows h))" if "enc_ok e" for e
    using enc_foldl [of "h_rows h" _ "slot_enc \<circ> row_slot" e] assms that
    by (simp add: slot_enc_def row_slot_def)
  then show ?thesis by (simp add: mapDigest_def map_enc_def Let_def)
qed

text \<open>Every byte string handed to the digest function while a snapshot is hashed.\<close>

definition hashed :: "digest_fun \<Rightarrow> snapshot \<Rightarrow> bytes set" where
  "hashed H s =
     set (map (\<lambda>t. tile_enc (tile_coord t) (tile_view (tile_st t))) (tiles s)) \<union>
     set (map (\<lambda>r. row_enc (row_key r) (row_tiles r)) (h_rows (newCanonicalHasher H 1 s))) \<union>
     {map_enc (max_x s) (max_y s) (max_z s) (int (length (tiles s)))
        (map row_slot (h_rows (newCanonicalHasher H 1 s)))}"

lemma concat_fixed_inj:
  assumes "concat xs @ r = concat ys @ q" "length xs = length ys"
    and "\<forall>x\<in>set xs. length x = n" "\<forall>y\<in>set ys. length y = n"
  shows "xs = ys \<and> r = q"
  using concat_enc_inj [of "\<lambda>x. length x = n" "\<lambda>x. x" xs ys r q] assms
  by (simp add: list_all_iff append_eq_append_conv)

lemma row_enc_inj:
  assumes "row_enc k ds = row_enc l es" "length ds < 2 ^ 64" "length es < 2 ^ 64"
    and "\<forall>d\<in>set ds. length d = 32" "\<forall>d\<in>set es. length d = 32"
  shows "ds = es"
proof -
  have "be64 (of_int (fst k)) @ be64 (of_int (snd k)) @ be64 (of_nat (length ds)) @ concat ds @ [] =
    be64 (of_int (fst l)) @ be64 (of_int (snd l)) @ be64 (of_nat (length es)) @ concat es @ []"
    using assms(1) by (simp add: row_enc_def)
  then have "(of_nat (length ds) :: u64) = of_nat (length es)" "concat ds @ [] = concat es @ []"
    using be64_append_inj by metis+
  then show ?thesis using concat_fixed_inj [of ds "[]" es "[]"] of_nat_u64_inj assms(2-5) by metis
qed

lemma slot_enc_append_inj:
  assumes "length (snd a) = 32" "length (snd b) = 32" "slot_enc a @ r = slot_enc b @ q"
  shows "(of_int (fst (fst a)) :: u64) = of_int (fst (fst b)) \<and> snd a = snd b \<and> r = q"
proof -
  have "be64 (of_int (fst (fst a))) @ be64 (of_int (snd (fst a))) @ snd a @ r =
    be64 (of_int (fst (fst b))) @ be64 (of_int (snd (fst b))) @ snd b @ q"
    using assms(3) by (simp add: slot_enc_def)
  then have "(of_int (fst (fst a)) :: u64) = of_int (fst (fst b))" "snd a @ r = snd b @ q"
    using be64_append_inj by metis+
  then show ?thesis using assms(1,2) by (simp add: append_eq_append_conv)
qed

lemma slots_inj:
  assumes "length as = length bs" "\<forall>a\<in>set as. length (snd a) = 32" "\<forall>b\<in>set bs. length (snd b) = 32"
    and "concat (map slot_enc as) = concat (map slot_enc bs)"
  shows "map snd as = map snd bs"
  using assms
proof (induction as bs rule: list_induct2)
  case (Cons a as b bs)
  have "slot_enc a @ concat (map slot_enc as) = slot_enc b @ concat (map slot_enc bs)"
    using Cons.prems(3) by simp
  then have "snd a = snd b \<and> concat (map slot_enc as) = concat (map slot_enc bs)"
    using slot_enc_append_inj [of a b] Cons.prems(1,2) by simp
  then show ?case using Cons.IH Cons.prems(1,2) by simp
qed simp

lemma map_enc_inj:
  assumes "map_enc mx my mz n as = map_enc mx' my' mz' n' bs"
    and "\<bar>mx\<bar> < 2 ^ 63" "\<bar>my\<bar> < 2 ^ 63" "\<bar>mz\<bar> < 2 ^ 63" "\<bar>mx'\<bar> < 2 ^ 63" "\<bar>my'\<bar> < 2 ^ 63" "\<bar>mz'\<bar> < 2 ^ 63"
    and "length as < 2 ^ 64" "length bs < 2 ^ 64"
    and "\<forall>a\<in>set as. length (snd a) = 32" "\<forall>b\<in>set bs. length (snd b) = 32"
  shows "mx = mx' \<and> my = my' \<and> mz = mz' \<and> map snd as = map snd bs"
proof -
  have "be64 (of_int mx) @ be64 (of_int my) @ be64 (of_int mz) @ be64 (of_int n) @
      be64 (of_nat (length as)) @ concat (map slot_enc as) =
    be64 (of_int mx') @ be64 (of_int my') @ be64 (of_int mz') @ be64 (of_int n') @
      be64 (of_nat (length bs)) @ concat (map slot_enc bs)"
    using assms(1) by (simp add: map_enc_def)
  then have "(of_int mx :: u64) = of_int mx' \<and> (of_int my :: u64) = of_int my' \<and> (of_int mz :: u64) = of_int mz' \<and>
      (of_nat (length as) :: u64) = of_nat (length bs) \<and> concat (map slot_enc as) = concat (map slot_enc bs)"
    by (blast dest!: be64_append_inj)
  then have eq: "(of_int mx :: u64) = of_int mx'" "(of_int my :: u64) = of_int my'" "(of_int mz :: u64) = of_int mz'"
      "(of_nat (length as) :: u64) = of_nat (length bs)" "concat (map slot_enc as) = concat (map slot_enc bs)"
    by simp_all
  have "length as = length bs" using eq(4) assms(8,9) by (rule of_nat_u64_inj)
  then show ?thesis
    using eq slots_inj [of as bs] assms(2-7,10,11) of_int_u64_inj by blast
qed

section \<open>Two snapshots with one map hash\<close>

lemma full_procs: "newCanonicalHasher H procs s = newCanonicalHasher H 1 s"
  by (simp add: newCanonicalHasher_def)

text \<open>The rows of a valid snapshot: sizes, digest widths, and the tile digests they list.\<close>

lemma full_rows_tiles:
  assumes "digest32 H" "snapshot_ok s"
  defines "rows \<equiv> h_rows (newCanonicalHasher H 1 s)"
  shows "concat (map row_tiles rows) = map (tile_digest H) (canonicalTiles s)"
    and "\<forall>r\<in>set rows. row_digest r = H (row_enc (row_key r) (row_tiles r)) \<and> (\<forall>d\<in>set (row_tiles r). length d = 32)"
    and "h_digest (newCanonicalHasher H procs s) = hex_encode (H (map_enc (max_x s) (max_y s) (max_z s)
      (int (length (tiles s))) (map row_slot rows)))"
proof -
  let ?ts = "canonicalTiles s"
  let ?cds = "map (\<lambda>t. (tile_coord t, tile_digest H t)) ?ts"
  have cds: "zip (map tile_coord ?ts) (map (tile_digest H) ?ts) = ?cds"
    by (simp add: zip_map_map zip_same_conv_map comp_def)
  have dist: "distinct (map tile_coord (tiles s))" using assms(2) by (simp add: snapshot_ok_def)
  have "sorted_wrt (<) (map fst ?cds)"
    using dist by (simp add: canonicalTiles_def comp_def strict_sorted_iff distinct_map)
  moreover have "rows = group_rows H ?cds"
    by (simp add: rows_def newCanonicalHasher_def Let_def cds)
  ultimately have rows: "rows_ok H rows" "rows_cells rows = ?cds"
    using group_rows_ok [of ?cds H] by simp_all
  have ok: "row_ok H r" if "r \<in> set rows" for r using rows(1) that by (auto simp: rows_ok_def list_all_iff)
  have "map snd (rows_cells rows) = concat (map row_tiles rows)"
  proof -
    have "map (map snd \<circ> row_cells) rows = map row_tiles rows"
      using ok by (intro map_cong refl) (simp add: row_cells_snd row_ok_def)
    then show ?thesis unfolding rows_cells_def map_concat map_map by (simp only:)
  qed
  then show tiles: "concat (map row_tiles rows) = map (tile_digest H) ?ts"
    unfolding rows(2) by (simp add: comp_def)
  have d32: "\<forall>d\<in>set (row_tiles r). length d = 32" if "r \<in> set rows" for r
  proof
    fix d assume "d \<in> set (row_tiles r)"
    then have "d \<in> set (concat (map row_tiles rows))" using that by auto
    then show "length d = 32" using assms(1) unfolding tiles by (auto simp: tile_digest_enc digest32_def)
  qed
  have dig: "row_digest r = H (row_enc (row_key r) (row_tiles r))" if "r \<in> set rows" for r
    proof -
    have "row_digest r = row_digest (make_row H (row_key r) (row_xs r) (row_tiles r))"
      using ok [OF that] by (simp only: row_ok_def)
    then show ?thesis using rowDigest_enc [OF d32 [OF that]] by (simp add: make_row_def)
  qed
  show "\<forall>r\<in>set rows. row_digest r = H (row_enc (row_key r) (row_tiles r)) \<and> (\<forall>d\<in>set (row_tiles r). length d = 32)"
    using dig d32 by blast
  show "h_digest (newCanonicalHasher H procs s) = hex_encode (H (map_enc (max_x s) (max_y s) (max_z s)
      (int (length (tiles s))) (map row_slot rows)))"
    using mapDigest_enc [of "newCanonicalHasher H 1 s" H] dig assms(1)
    by (simp add: full_procs [of H procs] full_digest digest32_def rows_def)
qed


lemma tiles_bound:
  assumes "snapshot_ok s"
  shows "length (tiles s) \<le> 16777216"
proof -
  let ?box = "(\<lambda>(x, y, z). Coord x y z) ` ({1..max_x s} \<times> {1..max_y s} \<times> {1..max_z s})"
  have dims: "dims_ok s" "distinct (map tile_coord (tiles s))" using assms by (simp_all add: snapshot_ok_def header_ok_def)
  have "set (map tile_coord (tiles s)) \<subseteq> ?box"
  proof
    fix c assume "c \<in> set (map tile_coord (tiles s))"
    then have "Contains s c" using assms by (auto simp: snapshot_ok_def)
    then show "c \<in> ?box" by (intro image_eqI [of _ _ "(cX c, cY c, cZ c)"]) (auto simp: Contains_def)
  qed
  then have "card (set (map tile_coord (tiles s))) \<le> card ({1..max_x s} \<times> {1..max_y s} \<times> {1..max_z s})"
    by (meson card_image_le card_mono finite_SigmaI finite_atLeastAtMost_int finite_imageI order_trans)
  also have "\<dots> = nat (max_x s * max_y s * max_z s)"
    using dims(1) by (simp add: dims_ok_def nat_mult_distrib)
  also have "\<dots> \<le> 16777216" using dims(1) unfolding dims_ok_def by linarith
  finally show ?thesis using distinct_card [OF dims(2)] by simp
qed

lemma rows_bound:
  fixes H :: digest_fun
  assumes "snapshot_ok s"
  defines "rows \<equiv> h_rows (newCanonicalHasher H 1 s)"
  shows "length rows \<le> 16777216" "\<forall>r\<in>set rows. length (row_tiles r) \<le> 16777216"
proof -
  have d: "distinct_tiles s" using assms(1) by (simp add: distinct_tiles_def snapshot_ok_def)
  have ok: "list_all (row_ok H) rows" and len: "length (rows_cells rows) = length (tiles s)"
    using full_rows [OF d, of H 1] by (simp_all add: rows_def rows_ok_def)
  have "length rs \<le> length (rows_cells rs) \<and> (\<forall>r\<in>set rs. length (row_tiles r) \<le> length (rows_cells rs))"
    if "list_all (row_ok H) rs" for rs
    using that
  proof (induction rs)
    case (Cons r rs)
    have "length (row_cells r) = length (row_tiles r)" "row_tiles r \<noteq> []"
      using Cons.prems by (auto simp: row_ok_def row_cells_def)
    then show ?case using Cons by (cases "row_tiles r") auto
  qed simp
  from this [OF ok] show "length rows \<le> 16777216" "\<forall>r\<in>set rows. length (row_tiles r) \<le> 16777216"
    using tiles_bound [OF assms(1)] len by fastforce+
qed

definition snapshot_sized :: "snapshot \<Rightarrow> bool" where
  "snapshot_sized s \<longleftrightarrow> list_all (\<lambda>t. view_sized (tile_view (tile_st t))) (tiles s)"

lemma tile_digests_inj:
  assumes "map (tile_digest H) ts = map (tile_digest H) us"
    and "inj_on H (set (map (\<lambda>t. tile_enc (tile_coord t) (tile_view (tile_st t))) (ts @ us)))"
    and "\<forall>t\<in>set (ts @ us). coord_sized (tile_coord t) \<and> view_sized (tile_view (tile_st t))"
  shows "map (\<lambda>t. (tile_coord t, tile_view (tile_st t))) ts = map (\<lambda>t. (tile_coord t, tile_view (tile_st t))) us"
proof -
  have "length ts = length us" using assms(1) map_eq_imp_length_eq by blast
  then show ?thesis using assms
  proof (induction ts us rule: list_induct2)
    case (Cons t ts u us)
    have "tile_enc (tile_coord t) (tile_view (tile_st t)) = tile_enc (tile_coord u) (tile_view (tile_st u))"
      by (rule inj_onD [OF Cons.prems(2)]) (use Cons.prems(1) in \<open>simp_all add: tile_digest_enc\<close>)
    then have "tile_coord t = tile_coord u \<and> tile_view (tile_st t) = tile_view (tile_st u)"
      using Cons.prems(3) by (intro tile_enc_injective) simp_all
    moreover have "map (\<lambda>t. (tile_coord t, tile_view (tile_st t))) ts = map (\<lambda>t. (tile_coord t, tile_view (tile_st t))) us"
    proof (rule Cons.IH)
      show "inj_on H (set (map (\<lambda>t. tile_enc (tile_coord t) (tile_view (tile_st t))) (ts @ us)))"
        by (rule inj_on_subset [OF Cons.prems(2)]) auto
    qed (use Cons.prems(1,3) in auto)
    ultimately show ?case by simp
  qed simp
qed

lemma row_lists_inj:
  assumes "map row_digest rs = map row_digest qs"
    and "\<forall>r\<in>set (rs @ qs). row_digest r = H (row_enc (row_key r) (row_tiles r)) \<and> (\<forall>d\<in>set (row_tiles r). length d = 32) \<and>
      length (row_tiles r) < 2 ^ 64"
    and "inj_on H (set (map (\<lambda>r. row_enc (row_key r) (row_tiles r)) (rs @ qs)))"
  shows "map row_tiles rs = map row_tiles qs"
proof -
  have "length rs = length qs" using assms(1) map_eq_imp_length_eq by blast
  then show ?thesis using assms
  proof (induction rs qs rule: list_induct2)
    case (Cons r rs q qs)
    have "H (row_enc (row_key r) (row_tiles r)) = H (row_enc (row_key q) (row_tiles q))"
      using Cons.prems(1,2) by simp
    then have "row_enc (row_key r) (row_tiles r) = row_enc (row_key q) (row_tiles q)"
      by (elim inj_onD [OF Cons.prems(3)]) simp_all
    then have "row_tiles r = row_tiles q" using Cons.prems(2) by (intro row_enc_inj) simp_all
    moreover have "map row_tiles rs = map row_tiles qs"
    proof (rule Cons.IH)
      show "inj_on H (set (map (\<lambda>r. row_enc (row_key r) (row_tiles r)) (rs @ qs)))"
        by (rule inj_on_subset [OF Cons.prems(3)]) auto
    qed (use Cons.prems(1,2) in auto)
    ultimately show ?case by simp
  qed simp
qed

lemma coord_sized_in:
  assumes "snapshot_ok s" "t \<in> set (tiles s)"
  shows "coord_sized (tile_coord t)"
proof -
  have "Contains s (tile_coord t)" "dims_ok s" using assms by (simp_all add: snapshot_ok_def header_ok_def)
  then show ?thesis by (auto simp: Contains_def dims_ok_def coord_sized_def)
qed

lemma map_hash_binding:
  assumes "digest32 H" "inj_on H (hashed H s \<union> hashed H u)" "snapshot_sized s" "snapshot_sized u"
    and "Snapshot_Hash H procs s = Inr d" "Snapshot_Hash H procs' u = Inr d"
  shows "max_x s = max_x u \<and> max_y s = max_y u \<and> max_z s = max_z u \<and>
    map (\<lambda>t. (tile_coord t, tile_view (tile_st t))) (canonicalTiles s) =
    map (\<lambda>t. (tile_coord t, tile_view (tile_st t))) (canonicalTiles u)"
proof -
  let ?rs = "h_rows (newCanonicalHasher H 1 s)" and ?rq = "h_rows (newCanonicalHasher H 1 u)"
  let ?ms = "map_enc (max_x s) (max_y s) (max_z s) (int (length (tiles s))) (map row_slot ?rs)"
  let ?mu = "map_enc (max_x u) (max_y u) (max_z u) (int (length (tiles u))) (map row_slot ?rq)"
  have ok: "snapshot_ok s" "snapshot_ok u"
    using assms(5,6) by (auto simp: Snapshot_Hash_def Snapshot_Validate_iff [symmetric] split: option.splits)
  then have dims: "dims_ok s" "dims_ok u" by (simp_all add: snapshot_ok_def header_ok_def)
  note fs = full_rows_tiles [OF assms(1) ok(1)] and fu = full_rows_tiles [OF assms(1) ok(2)]
  note bs = rows_bound [OF ok(1), of H] and bu = rows_bound [OF ok(2), of H]
  have "hex_encode (H ?ms) = hex_encode (H ?mu)"
    using assms(5,6) ok fs(3) [of procs] fu(3) [of procs'] by (simp add: Snapshot_Hash_def Snapshot_Validate_iff [THEN iffD2])
  then have "H ?ms = H ?mu" by (rule hex_encode_inj)
  then have "?ms = ?mu" by (elim inj_onD [OF assms(2)]) (simp_all add: hashed_def)
  then have head: "max_x s = max_x u \<and> max_y s = max_y u \<and> max_z s = max_z u \<and>
      map snd (map row_slot ?rs) = map snd (map row_slot ?rq)"
    using dims bs(1) bu(1) fs(2) fu(2) assms(1)
    by (elim map_enc_inj) (auto simp: dims_ok_def row_slot_def digest32_def)
  have "map row_tiles ?rs = map row_tiles ?rq"
  proof (rule row_lists_inj [of _ _ H])
    show "map row_digest ?rs = map row_digest ?rq" using head by (simp add: comp_def row_slot_def)
    show "inj_on H (set (map (\<lambda>r. row_enc (row_key r) (row_tiles r)) (?rs @ ?rq)))"
      by (rule inj_on_subset [OF assms(2)]) (auto simp: hashed_def)
  qed (use fs(2) fu(2) bs(2) bu(2) in force)
  then have "map (tile_digest H) (canonicalTiles s) = map (tile_digest H) (canonicalTiles u)"
    using fs(1) fu(1) by metis
  then have "map (\<lambda>t. (tile_coord t, tile_view (tile_st t))) (canonicalTiles s) =
    map (\<lambda>t. (tile_coord t, tile_view (tile_st t))) (canonicalTiles u)"
  proof (rule tile_digests_inj)
    show "inj_on H (set (map (\<lambda>t. tile_enc (tile_coord t) (tile_view (tile_st t))) (canonicalTiles s @ canonicalTiles u)))"
      by (rule inj_on_subset [OF assms(2)]) (auto simp: hashed_def canonicalTiles_def)
  qed (use assms(3,4) coord_sized_in ok in \<open>auto simp: canonicalTiles_def snapshot_sized_def list_all_iff\<close>)
  then show ?thesis using head by simp
qed

text \<open>The witness compares a map with a nil prefab list and one with an empty list.\<close>

text \<open>C12: the map hash binds the map. Two valid snapshots with the same map hash have the same
  dimensions and, in canonical order, the same coordinates with tiles that read alike, provided the
  32-byte digest function does not collide on the bytes hashed for these two snapshots.\<close>

theorem Snapshot_Hash_binding:
  assumes "digest32 H" "inj_on H (hashed H s \<union> hashed H u)" "snapshot_sized s" "snapshot_sized u"
    and "Snapshot_Hash H procs s = Inr d" "Snapshot_Hash H procs' u = Inr d"
  shows "max_x s = max_x u \<and> max_y s = max_y u \<and> max_z s = max_z u \<and>
    map (\<lambda>t. (tile_coord t, tile_view (tile_st t))) (canonicalTiles s) =
    map (\<lambda>t. (tile_coord t, tile_view (tile_st t))) (canonicalTiles u)"
  by (rule map_hash_binding [OF assms])

theorem Snapshot_Hash_binding_witness:
  "map (\<lambda>t. (tile_coord t, tile_view (tile_st t))) (canonicalTiles (sample_map 0 [sample_tile 1 empty_tile])) =
   map (\<lambda>t. (tile_coord t, tile_view (tile_st t))) (canonicalTiles (sample_map 7 [sample_tile 1 \<lparr>prefabs = Some []\<rparr>]))"
proof -
  let ?s = "sample_map 0 [sample_tile 1 empty_tile]" and ?u = "sample_map 7 [sample_tile 1 \<lparr>prefabs = Some []\<rparr>]"
  note samples = sample_map_def sample_tile_def tile_view_def prefab_list_def empty_tile_def
  have same: "newCanonicalHasher sample_digest 1 ?s = newCanonicalHasher sample_digest 1 ?u"
    by (simp add: newCanonicalHasher_def canonicalTiles_def tile_digest_enc samples)
  then have "hashed sample_digest ?s = hashed sample_digest ?u"
    unfolding hashed_def same by (simp add: samples)
  moreover have "inj_on sample_digest (hashed sample_digest ?s)" by code_simp
  ultimately have "inj_on sample_digest (hashed sample_digest ?s \<union> hashed sample_digest ?u)" by simp
  moreover have "snapshot_sized ?s" "snapshot_sized ?u"
    by (simp_all add: snapshot_sized_def samples view_sized_def)
  moreover have "Snapshot_Validate ?s = None" "Snapshot_Validate ?u = None" by code_simp+
  then have "Snapshot_Hash sample_digest 1 ?s = Inr (h_digest (newCanonicalHasher sample_digest 1 ?u))"
      "Snapshot_Hash sample_digest 1 ?u = Inr (h_digest (newCanonicalHasher sample_digest 1 ?u))"
    unfolding Snapshot_Hash_def same by simp_all
  ultimately show ?thesis
    using Snapshot_Hash_binding [of sample_digest ?s ?u 1 _ 1] by (simp add: digest32_def)
qed
end
