(* ===== verification/Recovery.thy ===== *)
theory Recovery
  imports Document_History Hash_Binding
begin

text \<open>
  Recovery of a document from its persisted history (engine/recovery.go): the state a store keeps,
  and \<^verbatim>\<open>RestoreAt\<close>, which validates the compacted prefix, replays the suffix and checks every hash
  before it returns a document. The source ranges over the retained hashes and over the last changes
  of the prefix in map order; only which of several errors is reported depends on that order.
\<close>

section \<open>Data\<close>

record recovery_state =
  rs_snapshot :: snapshot
  rs_snapshot_hash :: string
  rs_operations :: "accepted_operation list"
  rs_hashes :: "(revision, string) fmap"
  rs_head_revision :: revision
  rs_head_hash :: string

datatype recovery_error =
    OpenSnapshot model_error
  | SnapshotHashDiffers revision
  | RevisionOutsideRetained revision revision revision
  | HashBeyondHead
  | RetainedHashInvalid model_error
  | HistoryDoesNotReachHead revision
  | InconsistentOrder revision revision
  | DuplicateIdentity
  | FutureBase
  | HistoryPrecondition revision
  | HistoryBeforeValues model_error
  | HistoryInvalid revision engine_error
  | HistoryNotNormalized
  | ReplayFailed revision engine_error
  | ReplayDiffers revision
  | SnapshotDiffersFromHistory
  | RecoveredDiffersFromHead

text \<open>Go reads the empty string for an absent key.\<close>

definition text_of :: "string option \<Rightarrow> string" where
  "text_of v = (case v of None \<Rightarrow> [] | Some s \<Rightarrow> s)"

section \<open>The retained hashes\<close>

fun scan_hashes :: "revision \<Rightarrow> (revision \<times> string) list \<Rightarrow> revision \<Rightarrow> recovery_error + revision" where
  "scan_hashes head [] first = Inr first"
| "scan_hashes head ((r, hash) # entries) first =
     (let first' = (if r < first then r else first) in
      sum_bind (guard (r > head) HashBeyondHead) (\<lambda>_.
      sum_bind (check (ValidateSHA256 ''retained revision hash'' hash) RetainedHashInvalid) (\<lambda>_.
      scan_hashes head entries first')))"

definition authoritative_hashes :: "recovery_state \<Rightarrow> document \<Rightarrow> document" where
  "authoritative_hashes state d =
     d\<lparr>hashes := foldl (\<lambda>m (r, hash). if r \<le> snap_revision (rs_snapshot state) then m(r \<mapsto> hash) else m)
         (hashes d) (map_entries (rs_hashes state))\<rparr>"

section \<open>The compacted prefix\<close>

type_synonym last_changes = "(coord, tile_state) fmap"

fun before_tiles :: "last_changes \<Rightarrow> tile_change list \<Rightarrow> tile list option" where
  "before_tiles latest [] = Some []"
| "before_tiles latest (ch # chs) =
     (case fmlookup latest (ch_coord ch) of
        Some prior \<Rightarrow>
          (if \<not> TileState_Equal prior (before ch) then None
           else map_option ((#) \<lparr>tile_coord = ch_coord ch, tile_st = before ch\<rparr>) (before_tiles latest chs))
      | None \<Rightarrow> map_option ((#) \<lparr>tile_coord = ch_coord ch, tile_st = before ch\<rparr>) (before_tiles latest chs))"

definition validator_for :: "document \<Rightarrow> document \<Rightarrow> document" where
  "validator_for d v = v\<lparr>hashes := hashes d, accepted := accepted d, inverted := inverted d\<rparr>"

definition record_accepted :: "accepted_operation \<Rightarrow> document \<Rightarrow> document" where
  "record_accepted a d =
     (let d1 = d\<lparr>accepted := fmupd (op_id (acc_op a)) (CloneAcceptedOperation a) (accepted d)\<rparr> in
      case inverse_of (acc_op a) of
        None \<Rightarrow> d1
      | Some t \<Rightarrow> d1\<lparr>inverted := (inverted d1)(t \<mapsto> op_id (acc_op a))\<rparr>)"

definition note_changes :: "tile_change list \<Rightarrow> last_changes \<Rightarrow> last_changes" where
  "note_changes chs latest = foldl (\<lambda>m ch. fmupd (ch_coord ch) (after ch) m) latest chs"

definition check_prefix ::
  "digest_fun \<Rightarrow> nat \<Rightarrow> recovery_state \<Rightarrow> accepted_operation \<Rightarrow> document \<Rightarrow> last_changes \<Rightarrow>
     recovery_error + document \<times> last_changes" where
  "check_prefix H procs state a d latest =
     sum_bind (guard (base_revision (acc_op a) \<ge> acc_revision a) FutureBase) (\<lambda>_.
     case before_tiles latest (changes (acc_op a)) of
       None \<Rightarrow> Inl (HistoryPrecondition (acc_revision a))
     | Some ts \<Rightarrow>
         (case NewDocument H procs ((rs_snapshot state)\<lparr>snap_revision := acc_revision a - 1, tiles := ts\<rparr>) of
            Inl e \<Rightarrow> Inl (HistoryBeforeValues e)
          | Inr v \<Rightarrow>
              (case validateContext H procs Background (validator_for d v) (acc_op a) of
                 Inl e \<Rightarrow> Inl (HistoryInvalid (acc_revision a) e)
               | Inr (_, normalized, _) \<Rightarrow>
                   sum_bind (guard (normalized \<noteq> acc_op a) HistoryNotNormalized) (\<lambda>_.
                   Inr (record_accepted a d, note_changes (changes (acc_op a)) latest)))))"

section \<open>The replayed suffix\<close>

definition replay_one ::
  "digest_fun \<Rightarrow> nat \<Rightarrow> recovery_state \<Rightarrow> revision \<Rightarrow> accepted_operation \<Rightarrow> document \<Rightarrow> document option \<Rightarrow>
     recovery_error + document \<times> document option" where
  "replay_one H procs state revision a d result =
     (let (result1, d1) =
            (if result = None \<and> snap_revision (doc_snapshot d) = revision
             then let (branch, shared) = Document_Clone d in (Some branch, shared)
             else (result, d))
      in case Apply H procs (acc_op a) (accepted_at a) d1 of
           (Inl e, _) \<Rightarrow> Inl (ReplayFailed (acc_revision a) e)
         | (Inr verified, d2) \<Rightarrow>
             sum_bind (guard (verified \<noteq> a \<or> map_hash d2 \<noteq> text_of (fmlookup (rs_hashes state) (acc_revision a)))
               (ReplayDiffers (acc_revision a))) (\<lambda>_.
             Inr (d2, result1)))"

fun replay_ops ::
  "digest_fun \<Rightarrow> nat \<Rightarrow> recovery_state \<Rightarrow> revision \<Rightarrow> revision \<Rightarrow> accepted_operation list \<Rightarrow>
     document \<Rightarrow> last_changes \<Rightarrow> document option \<Rightarrow>
     recovery_error + document \<times> last_changes \<times> document option" where
  "replay_ops H procs state revision want [] d latest result = Inr (d, latest, result)"
| "replay_ops H procs state revision want (a # as) d latest result =
     sum_bind (guard (acc_revision a \<noteq> want \<or> op_document (acc_op a) \<noteq> snap_document (rs_snapshot state))
       (InconsistentOrder (acc_revision a) want)) (\<lambda>_.
     sum_bind (guard (fmlookup (accepted d) (op_id (acc_op a)) \<noteq> None) DuplicateIdentity) (\<lambda>_.
     if acc_revision a \<le> snap_revision (rs_snapshot state) then
       sum_bind (check_prefix H procs state a d latest) (\<lambda>(d', latest').
       replay_ops H procs state revision (want + 1) as d' latest' result)
     else
       sum_bind (replay_one H procs state revision a d result) (\<lambda>(d', result').
       replay_ops H procs state revision (want + 1) as d' latest result')))"

section \<open>Restore\<close>

definition snapshot_tiles :: "tile list \<Rightarrow> coord \<rightharpoonup> tile_state" where
  "snapshot_tiles ts = foldl (\<lambda>m t. m(tile_coord t \<mapsto> tile_st t)) Map.empty ts"

definition latest_agrees :: "last_changes \<Rightarrow> tile list \<Rightarrow> bool" where
  "latest_agrees latest ts =
     list_all (\<lambda>(c, st). case snapshot_tiles ts c of None \<Rightarrow> False | Some current \<Rightarrow> TileState_Equal current st)
       (map_entries latest)"

definition RestoreAt ::
  "digest_fun \<Rightarrow> nat \<Rightarrow> recovery_state \<Rightarrow> revision \<Rightarrow> recovery_error + document" where
  "RestoreAt H procs state revision =
     (let s = rs_snapshot state; head = rs_head_revision state in
      case NewDocument H procs s of
        Inl e \<Rightarrow> Inl (OpenSnapshot e)
      | Inr d \<Rightarrow>
          sum_bind (guard (map_hash d \<noteq> rs_snapshot_hash state \<or>
              text_of (fmlookup (rs_hashes state) (snap_revision s)) \<noteq> map_hash d)
            (SnapshotHashDiffers (snap_revision s))) (\<lambda>_.
          sum_bind (guard (revision < snap_revision s \<or> revision > head)
            (RevisionOutsideRetained revision (snap_revision s) head)) (\<lambda>_.
          sum_bind (scan_hashes head (map_entries (rs_hashes state)) (snap_revision s)) (\<lambda>first.
          sum_bind (guard (head < first \<or> unat (head - first) \<noteq> length (rs_operations state) \<or>
              map_len (rs_hashes state) \<noteq> length (rs_operations state) + 1)
            (HistoryDoesNotReachHead head)) (\<lambda>_.
          sum_bind (replay_ops H procs state revision (first + 1) (rs_operations state)
              (authoritative_hashes state d) fmempty None) (\<lambda>(d', latest, result).
          sum_bind (guard (\<not> latest_agrees latest (tiles s)) SnapshotDiffersFromHistory) (\<lambda>_.
          sum_bind (guard (snap_revision (doc_snapshot d') \<noteq> head \<or> map_hash d' \<noteq> rs_head_hash state \<or>
              text_of (fmlookup (rs_hashes state) head) \<noteq> rs_head_hash state)
            RecoveredDiffersFromHead) (\<lambda>_.
          Inr (case result of Some r \<Rightarrow> r | None \<Rightarrow> d')))))))))"

definition Restore :: "digest_fun \<Rightarrow> nat \<Rightarrow> recovery_state \<Rightarrow> recovery_error + document" where
  "Restore H procs state = RestoreAt H procs state (rs_head_revision state)"

end
