(* ===== verification/Checkpoint.thy ===== *)
theory Checkpoint
  imports State
begin

text \<open>
  Export checkpoints (model/checkpoint.go): a request to export one retained revision, which is
  pending until exactly one terminal result is recorded. A time is its distance from the zero time,
  so \<^verbatim>\<open>IsZero\<close> is equality with 0, \<^verbatim>\<open>UTC\<close> keeps it and \<^verbatim>\<open>Before\<close> is \<open><\<close>.
\<close>

section \<open>Data\<close>

datatype checkpoint_status = CheckpointPending | CheckpointAccepted | CheckpointRejected | OtherStatus string

record export_checkpoint =
  cp_id :: checkpoint_id
  idempotency_key :: string
  cp_document :: document_id
  cp_session :: string
  cp_revision :: revision
  cp_map_hash :: string
  requested_by :: actor_id
  created_at :: int
  cp_status :: checkpoint_status
  artifact_hash :: string
  verifier :: string
  verifier_version :: string
  diagnostic_code :: string
  completed_at :: "int option"

record checkpoint_completion =
  cc_status :: checkpoint_status
  cc_artifact_hash :: string
  cc_verifier :: string
  cc_verifier_version :: string
  cc_diagnostic_code :: string
  cc_completed_at :: int

datatype checkpoint_error =
    CheckpointModel model_error
  | TextRequired string
  | TextTooLong string
  | CreationTimeRequired
  | PendingTerminalMetadata
  | RejectedWithArtifact
  | InvalidDiagnosticCode
  | InvalidStatus string
  | CompletionTimeRequired
  | CompletionBeforeCreation
  | AlreadyTerminal checkpoint_status
  | CompletionNotTerminal checkpoint_status

definition MaxCheckpointTextBytes :: nat where "MaxCheckpointTextBytes = 128"

section \<open>Texts\<close>

text \<open>\<open>only_spaces\<close> is \<^verbatim>\<open>strings.TrimSpace(value) == ""\<close>: every rune of the text is Unicode white
  space, given by its UTF-8 encoding.\<close>

fun only_spaces :: "nat list \<Rightarrow> bool" where
  "only_spaces [] = True"
| "only_spaces (b # bs) =
     (if b \<in> {9, 10, 11, 12, 13, 32} then only_spaces bs
      else if b = 194 then (case bs of c # bs' \<Rightarrow> c \<in> {133, 160} \<and> only_spaces bs' | [] \<Rightarrow> False)
      else (case bs of
              c # e # bs' \<Rightarrow>
                ((b, c, e) \<in> {(225, 154, 128), (226, 129, 159), (227, 128, 128)} \<or>
                 (b, c) = (226, 128) \<and> (128 \<le> e \<and> e \<le> 138 \<or> e \<in> {168, 169, 175})) \<and> only_spaces bs'
            | _ \<Rightarrow> False))"

definition blank :: "string \<Rightarrow> bool" where
  "blank value = only_spaces (map of_char value)"

definition validateCheckpointText :: "string \<Rightarrow> string \<Rightarrow> bool \<Rightarrow> checkpoint_error + unit" where
  "validateCheckpointText name value allowEmpty =
     sum_bind (guard (\<not> allowEmpty \<and> blank value) (TextRequired name)) (\<lambda>_.
     guard (length value > MaxCheckpointTextBytes) (TextTooLong name))"

definition code_char :: "char \<Rightarrow> bool" where
  "code_char c \<longleftrightarrow> (CHR ''a'' \<le> c \<and> c \<le> CHR ''z'') \<or> (CHR ''0'' \<le> c \<and> c \<le> CHR ''9'') \<or> c = CHR ''_''"

definition checkpointCodePattern :: "string \<Rightarrow> bool" where
  "checkpointCodePattern value \<longleftrightarrow> value \<noteq> [] \<and> list_all code_char value"

definition validateDiagnosticCode :: "string \<Rightarrow> checkpoint_error + unit" where
  "validateDiagnosticCode value =
     sum_bind (validateCheckpointText ''diagnostic code'' value False) (\<lambda>_.
     guard (\<not> checkpointCodePattern value) InvalidDiagnosticCode)"

section \<open>Validation and completion\<close>

definition CloneExportCheckpoint :: "export_checkpoint \<Rightarrow> export_checkpoint" where
  "CloneExportCheckpoint c =
     (case completed_at c of None \<Rightarrow> c | Some t \<Rightarrow> c\<lparr>completed_at := Some t\<rparr>)"

definition validate_terminal :: "export_checkpoint \<Rightarrow> checkpoint_error + unit" where
  "validate_terminal c =
     sum_bind (validateCheckpointText ''verifier'' (verifier c) False) (\<lambda>_.
     sum_bind (validateCheckpointText ''verifier version'' (verifier_version c) False) (\<lambda>_.
     case completed_at c of
       None \<Rightarrow> Inl CompletionTimeRequired
     | Some t \<Rightarrow> guard (t < created_at c) CompletionBeforeCreation))"

definition validate_status :: "export_checkpoint \<Rightarrow> checkpoint_error + unit" where
  "validate_status c =
     (case cp_status c of
        CheckpointPending \<Rightarrow>
          guard (artifact_hash c \<noteq> [] \<or> verifier c \<noteq> [] \<or> verifier_version c \<noteq> [] \<or>
              diagnostic_code c \<noteq> [] \<or> completed_at c \<noteq> None) PendingTerminalMetadata
      | CheckpointAccepted \<Rightarrow>
          sum_bind (check (ValidateSHA256 ''artifact hash'' (artifact_hash c)) CheckpointModel) (\<lambda>_.
          validate_terminal c)
      | CheckpointRejected \<Rightarrow>
          sum_bind (guard (artifact_hash c \<noteq> []) RejectedWithArtifact) (\<lambda>_.
          sum_bind (validateDiagnosticCode (diagnostic_code c)) (\<lambda>_.
          validate_terminal c))
      | OtherStatus s \<Rightarrow> Inl (InvalidStatus s))"

definition Checkpoint_Validate :: "export_checkpoint \<Rightarrow> checkpoint_error + unit" where
  "Checkpoint_Validate c =
     sum_bind (check (CheckpointID_Validate (cp_id c)) (CheckpointModel \<circ> IdError)) (\<lambda>_.
     sum_bind (validateCheckpointText ''idempotency key'' (idempotency_key c) False) (\<lambda>_.
     sum_bind (check (DocumentID_Validate (cp_document c)) (CheckpointModel \<circ> IdError)) (\<lambda>_.
     sum_bind (validateCheckpointText ''session id'' (cp_session c) False) (\<lambda>_.
     sum_bind (check (ValidateSHA256 ''map hash'' (cp_map_hash c)) CheckpointModel) (\<lambda>_.
     sum_bind (check (ActorID_Validate (requested_by c)) (CheckpointModel \<circ> IdError)) (\<lambda>_.
     sum_bind (guard (created_at c = 0) CreationTimeRequired) (\<lambda>_.
     validate_status c)))))))"

definition Complete :: "export_checkpoint \<Rightarrow> checkpoint_completion \<Rightarrow> checkpoint_error + export_checkpoint" where
  "Complete c completion =
     sum_bind (Checkpoint_Validate c) (\<lambda>_.
     sum_bind (guard (cp_status c \<noteq> CheckpointPending) (AlreadyTerminal (cp_status c))) (\<lambda>_.
     sum_bind (guard (cc_status completion \<noteq> CheckpointAccepted \<and> cc_status completion \<noteq> CheckpointRejected)
       (CompletionNotTerminal (cc_status completion))) (\<lambda>_.
     let c' = c\<lparr>cp_status := cc_status completion, artifact_hash := cc_artifact_hash completion,
               verifier := cc_verifier completion, verifier_version := cc_verifier_version completion,
               diagnostic_code := cc_diagnostic_code completion,
               completed_at := Some (cc_completed_at completion)\<rparr> in
     sum_bind (Checkpoint_Validate c') (\<lambda>_. Inr c'))))"

section \<open>The contract of a checkpoint\<close>

definition text_ok :: "string \<Rightarrow> bool" where
  "text_ok value \<longleftrightarrow> \<not> blank value \<and> length value \<le> 128"

definition request_ok :: "export_checkpoint \<Rightarrow> bool" where
  "request_ok c \<longleftrightarrow> CheckpointID_Validate (cp_id c) = None \<and> text_ok (idempotency_key c) \<and>
     DocumentID_Validate (cp_document c) = None \<and> text_ok (cp_session c) \<and>
     ValidateSHA256 ''map hash'' (cp_map_hash c) = None \<and> ActorID_Validate (requested_by c) = None \<and>
     created_at c \<noteq> 0"

definition result_ok :: "export_checkpoint \<Rightarrow> bool" where
  "result_ok c \<longleftrightarrow>
     (case cp_status c of
        CheckpointPending \<Rightarrow> artifact_hash c = [] \<and> verifier c = [] \<and> verifier_version c = [] \<and>
          diagnostic_code c = [] \<and> completed_at c = None
      | CheckpointAccepted \<Rightarrow> ValidateSHA256 ''artifact hash'' (artifact_hash c) = None \<and>
          text_ok (verifier c) \<and> text_ok (verifier_version c) \<and> (\<exists>t\<ge>created_at c. completed_at c = Some t)
      | CheckpointRejected \<Rightarrow> artifact_hash c = [] \<and> text_ok (diagnostic_code c) \<and>
          checkpointCodePattern (diagnostic_code c) \<and>
          text_ok (verifier c) \<and> text_ok (verifier_version c) \<and> (\<exists>t\<ge>created_at c. completed_at c = Some t)
      | OtherStatus s \<Rightarrow> False)"

lemma CloneExportCheckpoint_id [simp]: "CloneExportCheckpoint c = c"
  by (cases c) (simp add: CloneExportCheckpoint_def split: option.splits)

lemma validateCheckpointText_iff [simp]: "validateCheckpointText name value False = Inr u \<longleftrightarrow> text_ok value"
  by (auto simp: validateCheckpointText_def sum_bind_Inr_iff text_ok_def MaxCheckpointTextBytes_def)

lemma validate_terminal_iff:
  "validate_terminal c = Inr u \<longleftrightarrow>
     text_ok (verifier c) \<and> text_ok (verifier_version c) \<and> (\<exists>t\<ge>created_at c. completed_at c = Some t)"
  by (cases "completed_at c") (auto simp: validate_terminal_def sum_bind_Inr_iff)

lemma validate_status_iff: "validate_status c = Inr u \<longleftrightarrow> result_ok c"
  by (cases "cp_status c")
    (auto simp: validate_status_def result_ok_def sum_bind_Inr_iff validate_terminal_iff validateDiagnosticCode_def)

lemma Checkpoint_Validate_iff: "Checkpoint_Validate c = Inr u \<longleftrightarrow> request_ok c \<and> result_ok c"
  by (simp add: Checkpoint_Validate_def sum_bind_Inr_iff request_ok_def validate_status_iff)

lemma Complete_iff:
  "Complete c completion = Inr c' \<longleftrightarrow>
     request_ok c \<and> result_ok c \<and> cp_status c = CheckpointPending \<and>
     cc_status completion \<in> {CheckpointAccepted, CheckpointRejected} \<and> result_ok c' \<and>
     c' = c\<lparr>cp_status := cc_status completion, artifact_hash := cc_artifact_hash completion,
            verifier := cc_verifier completion, verifier_version := cc_verifier_version completion,
            diagnostic_code := cc_diagnostic_code completion, completed_at := Some (cc_completed_at completion)\<rparr>"
  by (auto simp: Complete_def sum_bind_Inr_iff Let_def Checkpoint_Validate_iff request_ok_def)

end
