(* ===== verification/Memory_Store.thy ===== *)
theory Memory_Store
  imports Recovery Checkpoint
begin

text \<open>
  The in-memory session store (store/store.go, memory.go, memory_recovery.go) with every operation of
  its interface. The cache of verified heads (store/verified_heads.go), which the SQL stores use, is not
  modelled. The store keeps, per document, the published snapshot, the operations after it, every
  accepted operation, the engine document at the head, the retained hashes and the export checkpoints.

  Each method runs under the store's mutex, so it is a function of the store; the result of a method
  that can fail is \<^const>\<open>Inl\<close> of the error. A nil dereference or a write to a nil map is the error
  \<open>Panic\<close>. \<^verbatim>\<open>reflect.DeepEqual\<close> on values of the model is equality.
\<close>

section \<open>Data\<close>

datatype store_error =
    StoreCanceled
  | ErrStoreClosed
  | ErrSessionExists
  | ErrSessionMissing
  | ErrCheckpointConflict
  | ErrCheckpointMissing
  | ErrCheckpointTerminal
  | ErrUnsupportedTransactionVersion
  | ErrTransactionDowngrade
  | StoreModel model_error
  | OperationConflicts operation_id revision
  | WrongRevision revision revision
  | VerifyFailed engine_error
  | NotVerified
  | HashFailed engine_error
  | NotRetained revision
  | OutsideRange revision revision revision
  | CheckpointInvalid checkpoint_error
  | NewMustBePending
  | CheckpointNotRetained
  | Panic

definition LegacyTransactionVersion :: int where "LegacyTransactionVersion = 1"
definition BulkTransactionVersion :: int where "BulkTransactionVersion = 2"

record memory_store =
  st_closed :: bool
  sessions :: "document_id \<rightharpoonup> snapshot"
  operations :: "document_id \<rightharpoonup> accepted_operation list"
  st_accepted :: "document_id \<rightharpoonup> (operation_id, accepted_operation) fmap"
  documents :: "document_id \<rightharpoonup> document"
  st_hashes :: "document_id \<rightharpoonup> (revision, string) fmap"
  checkpoints :: "document_id \<rightharpoonup> (checkpoint_id \<rightharpoonup> export_checkpoint)"
  checkpoint_keys :: "document_id \<rightharpoonup> (string \<rightharpoonup> checkpoint_id)"
  transaction_versions :: "document_id \<rightharpoonup> int"
  revision_heads :: "document_id \<rightharpoonup> revision"

definition NewMemoryStore :: memory_store where
  "NewMemoryStore =
     \<lparr>st_closed = False, sessions = Map.empty, operations = Map.empty, st_accepted = Map.empty,
      documents = Map.empty, st_hashes = Map.empty, checkpoints = Map.empty,
      checkpoint_keys = Map.empty, transaction_versions = Map.empty, revision_heads = Map.empty\<rparr>"

text \<open>Reading through a map of maps: an absent inner map reads as an empty one.\<close>

definition inner :: "('a \<rightharpoonup> ('b \<rightharpoonup> 'c)) \<Rightarrow> 'a \<Rightarrow> 'b \<Rightarrow> 'c option" where
  "inner m a b = (case m a of None \<Rightarrow> None | Some m' \<Rightarrow> m' b)"

definition ops_of :: "memory_store \<Rightarrow> document_id \<Rightarrow> accepted_operation list" where
  "ops_of st i = (case operations st i of None \<Rightarrow> [] | Some ops \<Rightarrow> ops)"

definition prior_accepted :: "memory_store \<Rightarrow> document_id \<Rightarrow> operation_id \<Rightarrow> accepted_operation option" where
  "prior_accepted st i k = (case st_accepted st i of None \<Rightarrow> None | Some m \<Rightarrow> fmlookup m k)"

definition retained_hash :: "memory_store \<Rightarrow> document_id \<Rightarrow> revision \<Rightarrow> string option" where
  "retained_hash st i r = (case st_hashes st i of None \<Rightarrow> None | Some m \<Rightarrow> fmlookup m r)"

text \<open>How every method begins: the context, then the closed flag under the lock.\<close>

definition enter :: "ctx \<Rightarrow> store_error + unit" where
  "enter c = guard (ctx_poll c = None) StoreCanceled"

definition opened :: "memory_store \<Rightarrow> store_error + unit" where
  "opened st = guard (st_closed st) ErrStoreClosed"

definition keep :: "memory_store \<Rightarrow> store_error + 'a \<times> memory_store \<Rightarrow> (store_error + 'a) \<times> memory_store" where
  "keep st r = (case r of Inl e \<Rightarrow> (Inl e, st) | Inr (a, st') \<Rightarrow> (Inr a, st'))"

section \<open>Sessions\<close>

definition Create :: "digest_fun \<Rightarrow> nat \<Rightarrow> ctx \<Rightarrow> snapshot \<Rightarrow> memory_store \<Rightarrow> (store_error + unit) \<times> memory_store" where
  "Create H procs c s st = keep st (
     sum_bind (enter c) (\<lambda>_.
     sum_bind (opened st) (\<lambda>_.
     sum_bind (guard (sessions st (snap_document s) \<noteq> None) ErrSessionExists) (\<lambda>_.
     (case NewDocument H procs s of
        Inl e \<Rightarrow> Inl (StoreModel e)
      | Inr document \<Rightarrow>
     (case Snapshot_Hash H procs s of
        Inl e \<Rightarrow> Inl (StoreModel e)
      | Inr mapHash \<Rightarrow>
          let i = snap_document s in
          Inr ((), st
            \<lparr>sessions := (sessions st)(i \<mapsto> CloneSnapshot s),
             operations := (operations st)(i \<mapsto> []),
             st_accepted := (st_accepted st)(i \<mapsto> fmempty),
             documents := (documents st)(i \<mapsto> document),
             st_hashes := (st_hashes st)(i \<mapsto> fmupd (snap_revision s) mapHash fmempty),
             checkpoints := (checkpoints st)(i \<mapsto> Map.empty),
             checkpoint_keys := (checkpoint_keys st)(i \<mapsto> Map.empty),
             transaction_versions := (transaction_versions st)(i \<mapsto> LegacyTransactionVersion),
             revision_heads := (revision_heads st)(i \<mapsto> snap_revision s)\<rparr>)))))))"

definition stored_version :: "memory_store \<Rightarrow> document_id \<Rightarrow> int" where
  "stored_version st i = (case transaction_versions st i of None \<Rightarrow> 0 | Some v \<Rightarrow> v)"

definition ConfigureTransactions ::
  "ctx \<Rightarrow> document_id \<Rightarrow> int \<Rightarrow> memory_store \<Rightarrow> (store_error + unit) \<times> memory_store" where
  "ConfigureTransactions c i version st = keep st (
     sum_bind (enter c) (\<lambda>_.
     sum_bind (guard (version \<noteq> LegacyTransactionVersion \<and> version \<noteq> BulkTransactionVersion)
       ErrUnsupportedTransactionVersion) (\<lambda>_.
     sum_bind (opened st) (\<lambda>_.
     sum_bind (guard (sessions st i = None) ErrSessionMissing) (\<lambda>_.
     let current = (if stored_version st i = 0 then LegacyTransactionVersion else stored_version st i) in
     sum_bind (guard (version < current) ErrTransactionDowngrade) (\<lambda>_.
     Inr ((), st\<lparr>transaction_versions := (transaction_versions st)(i \<mapsto> version)\<rparr>)))))))"

definition TransactionVersion :: "ctx \<Rightarrow> document_id \<Rightarrow> memory_store \<Rightarrow> store_error + int" where
  "TransactionVersion c i st =
     sum_bind (enter c) (\<lambda>_.
     sum_bind (opened st) (\<lambda>_.
     case transaction_versions st i of
       None \<Rightarrow> Inl ErrSessionMissing
     | Some version \<Rightarrow> Inr (if version = 0 then LegacyTransactionVersion else version)))"

section \<open>Operations\<close>

text \<open>The part of \<^verbatim>\<open>Append\<close> after the candidate branch is taken: \<open>st\<close> is the store whose document
  has been marked shared by \<^verbatim>\<open>Clone\<close>.\<close>

definition append_verified ::
  "digest_fun \<Rightarrow> nat \<Rightarrow> accepted_operation \<Rightarrow> document \<Rightarrow> memory_store \<Rightarrow> store_error + unit \<times> memory_store" where
  "append_verified H procs a candidate st =
     (let i = op_document (acc_op a) in
      case Apply H procs (acc_op a) (accepted_at a) candidate of
        (Inl e, _) \<Rightarrow> Inl (VerifyFailed e)
      | (Inr verified, candidate1) \<Rightarrow>
          sum_bind (guard (verified \<noteq> a) NotVerified) (\<lambda>_.
          case Metadata H procs candidate1 of
            (Inl e, _) \<Rightarrow> Inl (HashFailed e)
          | (Inr md, candidate2) \<Rightarrow>
              let cloned = CloneAcceptedOperation a in
              (case (st_accepted st i, st_hashes st i) of
                 (Some acc, Some hs) \<Rightarrow>
                   Inr ((), st
                     \<lparr>operations := (operations st)(i \<mapsto> ops_of st i @ [cloned]),
                      st_accepted := (st_accepted st)(i \<mapsto> fmupd (op_id (acc_op a)) cloned acc),
                      documents := (documents st)(i \<mapsto> candidate2),
                      st_hashes := (st_hashes st)(i \<mapsto> fmupd (acc_revision a) (md_map_hash md) hs),
                      revision_heads := (revision_heads st)(i \<mapsto> acc_revision a)\<rparr>)
               | _ \<Rightarrow> Inl Panic)))"

definition append_new ::
  "digest_fun \<Rightarrow> nat \<Rightarrow> accepted_operation \<Rightarrow> snapshot \<Rightarrow> memory_store \<Rightarrow> (store_error + unit) \<times> memory_store" where
  "append_new H procs a base st =
     (let i = op_document (acc_op a);
          want = snap_revision base + of_nat (length (ops_of st i)) + 1
      in if acc_revision a \<noteq> want then (Inl (WrongRevision (acc_revision a) want), st)
         else case documents st i of
             None \<Rightarrow> (Inl Panic, st)
           | Some document \<Rightarrow>
               let (candidate, shared) = Document_Clone document;
                   st1 = st\<lparr>documents := (documents st)(i \<mapsto> shared)\<rparr>
               in keep st1 (append_verified H procs a candidate st1))"

definition Append ::
  "digest_fun \<Rightarrow> nat \<Rightarrow> ctx \<Rightarrow> accepted_operation \<Rightarrow> memory_store \<Rightarrow> (store_error + unit) \<times> memory_store" where
  "Append H procs c a st =
     (let i = op_document (acc_op a) in
      case sum_bind (enter c) (\<lambda>_. opened st) of
        Inl e \<Rightarrow> (Inl e, st)
      | Inr _ \<Rightarrow>
          (case sessions st i of
             None \<Rightarrow> (Inl ErrSessionMissing, st)
           | Some base \<Rightarrow>
               (case prior_accepted st i (op_id (acc_op a)) of
                  Some prior \<Rightarrow>
                    (if prior \<noteq> a then (Inl (OperationConflicts (op_id (acc_op a)) (acc_revision prior)), st)
                     else (Inr (), st))
                | None \<Rightarrow> append_new H procs a base st)))"

definition Load :: "ctx \<Rightarrow> document_id \<Rightarrow> memory_store \<Rightarrow> store_error + snapshot \<times> accepted_operation list" where
  "Load c i st =
     sum_bind (enter c) (\<lambda>_.
     sum_bind (opened st) (\<lambda>_.
     case sessions st i of
       None \<Rightarrow> Inl ErrSessionMissing
     | Some s \<Rightarrow> Inr (CloneSnapshot s, map CloneAcceptedOperation (ops_of st i))))"

definition SaveSnapshot ::
  "digest_fun \<Rightarrow> nat \<Rightarrow> ctx \<Rightarrow> snapshot \<Rightarrow> memory_store \<Rightarrow> (store_error + unit) \<times> memory_store" where
  "SaveSnapshot H procs c s st = keep st (
     let i = snap_document s in
     sum_bind (enter c) (\<lambda>_.
     sum_bind (opened st) (\<lambda>_.
     case sessions st i of
       None \<Rightarrow> Inl ErrSessionMissing
     | Some base \<Rightarrow>
         (case Snapshot_Hash H procs s of
            Inl e \<Rightarrow> Inl (StoreModel e)
          | Inr mapHash \<Rightarrow>
              sum_bind (guard (retained_hash st i (snap_revision s) \<noteq> Some mapHash)
                (NotRetained (snap_revision s))) (\<lambda>_.
              case documents st i of
                None \<Rightarrow> Inl Panic
              | Some document \<Rightarrow>
                  let current = Document_Revision document in
                  sum_bind (guard (snap_revision s < snap_revision base \<or> snap_revision s > current)
                    (OutsideRange (snap_revision s) (snap_revision base) current)) (\<lambda>_.
                  Inr ((), st
                    \<lparr>sessions := (sessions st)(i \<mapsto> CloneSnapshot s),
                     operations := (operations st)(i \<mapsto>
                       filter (\<lambda>a. acc_revision a > snap_revision s) (ops_of st i))\<rparr>)))))))"

definition RevisionHash ::
  "ctx \<Rightarrow> document_id \<Rightarrow> revision \<Rightarrow> memory_store \<Rightarrow> store_error + string option" where
  "RevisionHash c i r st =
     sum_bind (enter c) (\<lambda>_.
     sum_bind (opened st) (\<lambda>_.
     case st_hashes st i of
       None \<Rightarrow> Inl ErrSessionMissing
     | Some hs \<Rightarrow> Inr (fmlookup hs r)))"

definition LookupOperation ::
  "ctx \<Rightarrow> document_id \<Rightarrow> operation_id \<Rightarrow> memory_store \<Rightarrow> store_error + accepted_operation option" where
  "LookupOperation c i k st =
     sum_bind (enter c) (\<lambda>_.
     sum_bind (opened st) (\<lambda>_.
     case st_accepted st i of
       None \<Rightarrow> Inl ErrSessionMissing
     | Some ops \<Rightarrow> Inr (map_option CloneAcceptedOperation (fmlookup ops k))))"

definition Close :: "memory_store \<Rightarrow> memory_store" where
  "Close st = st\<lparr>st_closed := True\<rparr>"

section \<open>Export checkpoints\<close>

definition SameCheckpointRequest :: "export_checkpoint \<Rightarrow> export_checkpoint \<Rightarrow> bool" where
  "SameCheckpointRequest left right \<longleftrightarrow>
     idempotency_key left = idempotency_key right \<and> cp_document left = cp_document right \<and>
     cp_session left = cp_session right \<and> cp_revision left = cp_revision right \<and>
     cp_map_hash left = cp_map_hash right \<and> requested_by left = requested_by right"

definition CheckpointMatchesCompletion :: "export_checkpoint \<Rightarrow> checkpoint_completion \<Rightarrow> bool" where
  "CheckpointMatchesCompletion c completion \<longleftrightarrow>
     cp_status c = cc_status completion \<and> artifact_hash c = cc_artifact_hash completion \<and>
     verifier c = cc_verifier completion \<and> verifier_version c = cc_verifier_version completion \<and>
     diagnostic_code c = cc_diagnostic_code completion \<and>
     completed_at c = Some (cc_completed_at completion)"

text \<open>The answer to a request that meets an existing checkpoint: the prior one, or a conflict.\<close>

definition prior_checkpoint ::
  "export_checkpoint \<Rightarrow> export_checkpoint \<Rightarrow> memory_store \<Rightarrow> store_error + (export_checkpoint \<times> bool) \<times> memory_store" where
  "prior_checkpoint prior c st =
     (if SameCheckpointRequest prior c then Inr ((CloneExportCheckpoint prior, False), st)
      else Inl ErrCheckpointConflict)"

text \<open>The zero checkpoint, which Go reads for an absent key.\<close>

definition zero_checkpoint :: export_checkpoint where
  "zero_checkpoint =
     \<lparr>cp_id = [], idempotency_key = [], cp_document = [], cp_session = [], cp_revision = 0,
      cp_map_hash = [], requested_by = [], created_at = 0, cp_status = OtherStatus [],
      artifact_hash = [], verifier = [], verifier_version = [], diagnostic_code = [], completed_at = None\<rparr>"

definition CreateExportCheckpoint ::
  "ctx \<Rightarrow> export_checkpoint \<Rightarrow> memory_store \<Rightarrow> (store_error + export_checkpoint \<times> bool) \<times> memory_store" where
  "CreateExportCheckpoint c cp st = keep st (
     let i = cp_document cp in
     sum_bind (enter c) (\<lambda>_.
     sum_bind (case Checkpoint_Validate cp of Inl e \<Rightarrow> Inl (CheckpointInvalid e) | Inr u \<Rightarrow> Inr u) (\<lambda>_.
     sum_bind (guard (cp_status cp \<noteq> CheckpointPending) NewMustBePending) (\<lambda>_.
     sum_bind (opened st) (\<lambda>_.
     sum_bind (guard (sessions st i = None) ErrSessionMissing) (\<lambda>_.
     case inner (checkpoint_keys st) i (idempotency_key cp) of
       Some k \<Rightarrow>
         prior_checkpoint
           (case inner (checkpoints st) i k of None \<Rightarrow> zero_checkpoint | Some prior \<Rightarrow> prior) cp st
     | None \<Rightarrow>
         sum_bind (guard (retained_hash st i (cp_revision cp) \<noteq> Some (cp_map_hash cp)) CheckpointNotRetained) (\<lambda>_.
         case inner (checkpoints st) i (cp_id cp) of
           Some prior \<Rightarrow> prior_checkpoint prior cp st
         | None \<Rightarrow>
             (case (checkpoints st i, checkpoint_keys st i) of
                (Some cps, Some keys) \<Rightarrow>
                  let cloned = CloneExportCheckpoint cp in
                  Inr ((CloneExportCheckpoint cloned, True), st
                    \<lparr>checkpoints := (checkpoints st)(i \<mapsto> cps(cp_id cp \<mapsto> cloned)),
                     checkpoint_keys := (checkpoint_keys st)(i \<mapsto> keys(idempotency_key cp \<mapsto> cp_id cp))\<rparr>)
              | _ \<Rightarrow> Inl Panic))))))))"

definition LookupExportCheckpoint ::
  "ctx \<Rightarrow> document_id \<Rightarrow> checkpoint_id \<Rightarrow> memory_store \<Rightarrow> store_error + export_checkpoint option" where
  "LookupExportCheckpoint c i k st =
     sum_bind (enter c) (\<lambda>_.
     sum_bind (opened st) (\<lambda>_.
     case checkpoints st i of
       None \<Rightarrow> Inl ErrSessionMissing
     | Some cps \<Rightarrow> Inr (map_option CloneExportCheckpoint (cps k))))"

definition CompleteExportCheckpoint ::
  "ctx \<Rightarrow> document_id \<Rightarrow> checkpoint_id \<Rightarrow> checkpoint_completion \<Rightarrow> memory_store \<Rightarrow>
     (store_error + export_checkpoint) \<times> memory_store" where
  "CompleteExportCheckpoint c i k completion st = keep st (
     sum_bind (enter c) (\<lambda>_.
     sum_bind (opened st) (\<lambda>_.
     case checkpoints st i of
       None \<Rightarrow> Inl ErrSessionMissing
     | Some cps \<Rightarrow>
         (case cps k of
            None \<Rightarrow> Inl ErrCheckpointMissing
          | Some cp \<Rightarrow>
              (case Complete cp completion of
                 Inl e \<Rightarrow>
                   (if cp_status cp \<noteq> CheckpointPending then
                      let expected = CloneExportCheckpoint cp in
                      (if CheckpointMatchesCompletion expected completion then Inr (expected, st)
                       else Inl ErrCheckpointTerminal)
                    else Inl (CheckpointInvalid e))
               | Inr completed \<Rightarrow>
                   Inr (CloneExportCheckpoint completed,
                     st\<lparr>checkpoints := (checkpoints st)(i \<mapsto> cps(k \<mapsto> CloneExportCheckpoint completed))\<rparr>))))))"

section \<open>Recovery data\<close>

text \<open>The source ranges over the accepted operations in any order and sorts them by revision, which
  is distinct for every operation of a session.\<close>

definition LoadRecovery :: "ctx \<Rightarrow> document_id \<Rightarrow> memory_store \<Rightarrow> store_error + recovery_state" where
  "LoadRecovery c i st =
     sum_bind (enter c) (\<lambda>_.
     sum_bind (opened st) (\<lambda>_.
     case sessions st i of
       None \<Rightarrow> Inl ErrSessionMissing
     | Some s \<Rightarrow>
         (case documents st i of
            None \<Rightarrow> Inl Panic
          | Some document \<Rightarrow>
              let head = Document_Revision document in
              Inr \<lparr>rs_snapshot = CloneSnapshot s,
                   rs_snapshot_hash = text_of (retained_hash st i (snap_revision s)),
                   rs_operations = sort_key acc_revision
                     (case st_accepted st i of None \<Rightarrow> []
                      | Some m \<Rightarrow> map (CloneAcceptedOperation \<circ> snd) (map_entries m)),
                   rs_hashes = (case st_hashes st i of None \<Rightarrow> fmempty | Some m \<Rightarrow> fmap_of_list (map_entries m)),
                   rs_head_revision = head,
                   rs_head_hash = text_of (retained_hash st i head)\<rparr>)))"

end
