(* ===== verification/Utf8.thy ===== *)
theory Utf8
  imports Prelude
begin

text \<open>
  Go strings as byte sequences: the rune at the front of a text (\<^verbatim>\<open>utf8.DecodeRuneInString\<close>), the runes a
  \<^verbatim>\<open>range\<close> loop over a string visits, and the bytes of a sequence of runes. Bytes are natural numbers
  below 256.
\<close>

section \<open>Decoding\<close>

text \<open>\<^verbatim>\<open>utf8.DecodeRuneInString\<close> on a text that starts with a byte of 128 or more: the rune and its
  width, or the replacement character with width 1.\<close>

definition cont_byte :: "nat \<Rightarrow> bool" where
  "cont_byte b \<longleftrightarrow> 128 \<le> b \<and> b \<le> 191"

definition second_ok :: "nat \<Rightarrow> nat \<Rightarrow> bool" where
  "second_ok b0 b1 \<longleftrightarrow>
     (if b0 = 224 then 160 else if b0 = 240 then 144 else 128) \<le> b1 \<and>
     b1 \<le> (if b0 = 237 then 159 else if b0 = 244 then 143 else 191)"

fun decode_rune :: "nat list \<Rightarrow> nat \<times> nat" where
  "decode_rune (b0 # b1 # bs) =
     (if 194 \<le> b0 \<and> b0 \<le> 223 \<and> cont_byte b1 then (64 * (b0 - 192) + (b1 - 128), 2)
      else case bs of
          [] \<Rightarrow> (65533, 1)
        | b2 # bs' \<Rightarrow>
            (if 224 \<le> b0 \<and> b0 \<le> 239 \<and> second_ok b0 b1 \<and> cont_byte b2
             then (4096 * (b0 - 224) + 64 * (b1 - 128) + (b2 - 128), 3)
             else case bs' of
                 [] \<Rightarrow> (65533, 1)
               | b3 # _ \<Rightarrow>
                   (if 240 \<le> b0 \<and> b0 \<le> 244 \<and> second_ok b0 b1 \<and> cont_byte b2 \<and> cont_byte b3
                    then (262144 * (b0 - 240) + 4096 * (b1 - 128) + 64 * (b2 - 128) + (b3 - 128), 4)
                    else (65533, 1))))"
| "decode_rune _ = (65533, 1)"

lemma decode_rune_width: "1 \<le> snd (decode_rune bs)" "bs \<noteq> [] \<Longrightarrow> snd (decode_rune bs) \<le> length bs"
  by (induction bs rule: decode_rune.induct) (auto split: list.splits)

text \<open>The runes of a \<^verbatim>\<open>range\<close> loop.\<close>

function string_runes :: "nat list \<Rightarrow> nat list" where
  "string_runes [] = []"
| "string_runes (b # bs) =
     (if b < 128 then b # string_runes bs
      else let (r, n) = decode_rune (b # bs) in r # string_runes (drop (n - 1) bs))"
  by pat_completeness auto
termination
  by (relation "measure length") auto

section \<open>Encoding\<close>

text \<open>The bytes of a rune; a number that is no Unicode scalar value becomes the replacement character.\<close>

definition rune_ok :: "int \<Rightarrow> bool" where
  "rune_ok r \<longleftrightarrow> 0 \<le> r \<and> r \<le> 1114111 \<and> \<not> (55296 \<le> r \<and> r \<le> 57343)"

definition rune_bytes :: "int \<Rightarrow> nat list" where
  "rune_bytes r =
     (let n = nat (if rune_ok r then r else 65533) in
      if n < 128 then [n]
      else if n < 2048 then [192 + n div 64, 128 + n mod 64]
      else if n < 65536 then [224 + n div 4096, 128 + n div 64 mod 64, 128 + n mod 64]
      else [240 + n div 262144, 128 + n div 4096 mod 64, 128 + n div 64 mod 64, 128 + n mod 64])"

definition go_string :: "int list \<Rightarrow> nat list" where
  "go_string rs = concat (map rune_bytes rs)"

lemma rune_bytes_ne [simp]: "rune_bytes r \<noteq> []"
  by (simp add: rune_bytes_def Let_def)

lemma rune_bytes_front:
  assumes "rune_ok r" "rune_ok s" "rune_bytes r @ xs = rune_bytes s @ ys"
  shows "r = s \<and> xs = ys"
proof -
  define n m where "n = nat r" and "m = nat s"
  have lt: "n < 1114112" "m < 1114112" using assms(1,2) by (auto simp: rune_ok_def n_def m_def)
  have e: "rune_bytes r = (if n < 128 then [n]
      else if n < 2048 then [192 + n div 64, 128 + n mod 64]
      else if n < 65536 then [224 + n div 4096, 128 + n div 64 mod 64, 128 + n mod 64]
      else [240 + n div 262144, 128 + n div 4096 mod 64, 128 + n div 64 mod 64, 128 + n mod 64])"
    using assms(1) by (simp add: rune_bytes_def n_def Let_def)
  have f: "rune_bytes s = (if m < 128 then [m]
      else if m < 2048 then [192 + m div 64, 128 + m mod 64]
      else if m < 65536 then [224 + m div 4096, 128 + m div 64 mod 64, 128 + m mod 64]
      else [240 + m div 262144, 128 + m div 4096 mod 64, 128 + m div 64 mod 64, 128 + m mod 64])"
    using assms(2) by (simp add: rune_bytes_def m_def Let_def)
  have lim: "k < 2048 \<Longrightarrow> k div 64 < 32" "k < 65536 \<Longrightarrow> k div 4096 < 16" for k :: nat
    by (simp_all add: div_less_iff_less_mult)
  have digits: "a = b" if "a div 64 = b div 64" "a mod 64 = b mod 64" for a b :: nat
    using that by (metis div_mult_mod_eq)
  have div: "k div 64 div 64 = k div 4096" "k div 4096 div 64 = k div 262144" for k :: nat
    by (simp_all only: div_mult2_eq [symmetric]) simp_all
  consider "n < 128" | "128 \<le> n" "n < 2048" | "2048 \<le> n" "n < 65536" | "65536 \<le> n" by linarith
  then have "n = m \<and> xs = ys"
  proof cases
    case 1
    then show ?thesis using assms(3) unfolding e f by (auto split: if_splits)
  next
    case 2
    then have "m < 2048" "128 \<le> m" using assms(3) lim(1) [of n] unfolding e f by (auto split: if_splits)
    then show ?thesis using 2 assms(3) digits [of n m] unfolding e f by simp
  next
    case 3
    then have m: "m < 65536" "2048 \<le> m" using assms(3) lim [of m] lim(2) [of n] unfolding e f by (auto split: if_splits)
    then have eq: "n div 4096 = m div 4096" "n div 64 mod 64 = m div 64 mod 64" "n mod 64 = m mod 64" "xs = ys"
      using 3 assms(3) unfolding e f by simp_all
    then have "n div 64 = m div 64" using digits [of "n div 64" "m div 64"] by (simp only: div)
    then show ?thesis using eq digits by blast
  next
    case 4
    then have m: "65536 \<le> m" using assms(3) lim [of m] unfolding e f by (auto split: if_splits)
    then have eq: "n div 262144 = m div 262144" "n div 4096 mod 64 = m div 4096 mod 64" "n div 64 mod 64 = m div 64 mod 64"
        "n mod 64 = m mod 64" "xs = ys"
      using 4 assms(3) unfolding e f by simp_all
    then have "n div 4096 = m div 4096" using digits [of "n div 4096" "m div 4096"] by (simp only: div)
    then have "n div 64 = m div 64" using eq digits [of "n div 64" "m div 64"] by (simp only: div)
    then show ?thesis using eq digits by blast
  qed
  then show ?thesis using assms(1,2) by (auto simp: n_def m_def rune_ok_def)
qed

lemma go_string_inj:
  assumes "\<forall>r\<in>set xs. rune_ok r" "\<forall>r\<in>set ys. rune_ok r" "go_string xs = go_string ys"
  shows "xs = ys"
  using assms
proof (induction xs arbitrary: ys)
  case Nil
  then show ?case by (cases ys) (simp_all add: go_string_def)
next
  case (Cons r xs)
  obtain s ys' where ys: "ys = s # ys'"
    using Cons.prems(3) by (cases ys) (simp_all add: go_string_def)
  have "r = s \<and> go_string xs = go_string ys'"
    by (rule rune_bytes_front) (use Cons.prems ys in \<open>simp_all add: go_string_def\<close>)
  moreover have "xs = ys'" if "go_string xs = go_string ys'"
    by (rule Cons.IH) (use Cons.prems(1,2) ys that in simp_all)
  ultimately show ?case by (simp add: ys)
qed

end
