(* ===== verification/Replay_Pages.thy ===== *)
theory Replay_Pages
  imports Memory_Store Utf8
begin

text \<open>
  Bounded replay pages (store/replay_pages.go): the size of an accepted operation as JSON counted
  without encoding it, the validation of index rows, and the page loader of the in-memory store.

  A byte is a natural number below 256, a size a natural number (every counted value is in memory).
  The text of a timestamp is \<^verbatim>\<open>time.Time.MarshalJSON\<close> of the standard library, which fails for years
  outside 0 to 9999; it is the argument \<open>stamp\<close>.
\<close>

section \<open>Sizes of JSON text\<close>

function json_size :: "nat list \<Rightarrow> nat" where
  "json_size [] = 0"
| "json_size (b # bs) =
     (if b \<in> {34, 92, 8, 12, 10, 13, 9} then 2 + json_size bs
      else if b \<in> {60, 62, 38} then 6 + json_size bs
      else if b < 128 then (if b < 32 then 6 else 1) + json_size bs
      else let (r, n) = decode_rune (b # bs) in
        if r = 65533 \<and> n = 1 then 6 + json_size bs
        else (if r = 8232 \<or> r = 8233 then 6 else n) + json_size (drop (n - 1) bs))"
  by pat_completeness auto
termination
  by (relation "measure length") auto

definition string_codes :: "string \<Rightarrow> nat list" where
  "string_codes s = map of_char s"

definition replayJSONStringSize :: "string \<Rightarrow> nat" where
  "replayJSONStringSize value = 2 + json_size (string_codes value)"

definition replayUnsignedSize :: "u64 \<Rightarrow> nat" where
  "replayUnsignedSize value = length (decimal (unat value))"

definition replaySignedSize :: "int \<Rightarrow> nat" where
  "replaySignedSize value = length (signed_decimal value)"

text \<open>The closure \<^verbatim>\<open>add\<close> of the object counters: size so far and number of fields.\<close>

definition add_field :: "nat \<times> nat \<Rightarrow> string \<times> nat \<Rightarrow> nat \<times> nat" where
  "add_field acc field =
     (case (acc, field) of ((bytes_so_far, added), (name, valueBytes)) \<Rightarrow>
        ((if added \<noteq> 0 then bytes_so_far + 1 else bytes_so_far) + (replayJSONStringSize name + 1 + valueBytes), added + 1))"

definition object_size :: "(string \<times> nat) list \<Rightarrow> nat" where
  "object_size members = fst (foldl add_field (2, 0) members)"

fun array_items :: "nat \<Rightarrow> nat list \<Rightarrow> nat" where
  "array_items index [] = 0"
| "array_items index (n # ns) = (if index \<noteq> 0 then 1 else 0) + n + array_items (Suc index) ns"

definition replayPrefabSize :: "prefab_state \<Rightarrow> nat" where
  "replayPrefabSize p =
     object_size
       [(''stable_id'', replayJSONStringSize (prefab_id p)),
        (''path'', replayJSONStringSize (prefab_path p)),
        (''vars'', case prefab_vars p of None \<Rightarrow> 4
          | Some m \<Rightarrow> 2 + array_items 0 (map (\<lambda>(k, v). replayJSONStringSize k + 1 + replayJSONStringSize v) (map_entries m)))]"

definition replayTileStateSize :: "tile_state \<Rightarrow> nat" where
  "replayTileStateSize st =
     (case prefabs st of
        None \<Rightarrow> 2 + replayJSONStringSize ''prefabs'' + 1 + 4
      | Some ps \<Rightarrow> 2 + replayJSONStringSize ''prefabs'' + 1 + (2 + array_items 0 (map replayPrefabSize ps)))"

definition replay_coord_size :: "coord \<Rightarrow> nat" where
  "replay_coord_size c =
     2 + replayJSONStringSize ''x'' + 1 + replaySignedSize (cX c) + 1 + replayJSONStringSize ''y'' + 1 +
     replaySignedSize (cY c) + 1 + replayJSONStringSize ''z'' + 1 + replaySignedSize (cZ c)"

definition replayTileChangeSize :: "tile_change \<Rightarrow> nat" where
  "replayTileChangeSize ch =
     object_size [(''coord'', replay_coord_size (ch_coord ch)), (''before'', replayTileStateSize (before ch)),
       (''after'', replayTileStateSize (after ch))]"

text \<open>A stored operation has at least one change; the empty list stands for a nil slice.\<close>

definition replayChangesSize :: "tile_change list \<Rightarrow> nat" where
  "replayChangesSize chs = (if chs = [] then 4 else 2 + array_items 0 (map replayTileChangeSize chs))"

definition kind_text :: "operation_kind \<Rightarrow> string" where
  "kind_text k = (case k of TileChangeKind \<Rightarrow> ''tile_change'' | InverseKind \<Rightarrow> ''inverse'' | OtherKind s \<Rightarrow> s)"

type_synonym stamp_fun = "int \<Rightarrow> string option"

definition replayAcceptedJSONSize :: "stamp_fun \<Rightarrow> accepted_operation \<Rightarrow> nat option" where
  "replayAcceptedJSONSize stamp a =
     (let op = acc_op a in
      case stamp (accepted_at a) of
        None \<Rightarrow> None
      | Some timestamp \<Rightarrow> Some (object_size
         ([(''protocol_version'', replayUnsignedSize (ucast (op_protocol op))),
           (''document_id'', replayJSONStringSize (op_document op)),
           (''actor_id'', replayJSONStringSize (op_actor op)),
           (''operation_id'', replayJSONStringSize (op_id op)),
           (''base_revision'', replayUnsignedSize (base_revision op)),
           (''environment_hash'', replayJSONStringSize (op_environment op)),
           (''base_map_hash'', replayJSONStringSize (base_map_hash op)),
           (''kind'', replayJSONStringSize (kind_text (op_kind op))),
           (''changes'', replayChangesSize (changes op))] @
          (case inverse_of op of None \<Rightarrow> [] | Some i \<Rightarrow> [(''inverse_of'', replayJSONStringSize i)]) @
          [(''revision'', replayUnsignedSize (acc_revision a)),
           (''accepted_at'', length timestamp)])))"

section \<open>Index rows\<close>

datatype replay_error =
    ReplayStore store_error
  | ErrReplayRevisionRange
  | ErrReplayPageLimit
  | ErrReplayCheckpointChanged
  | ErrReplayGap
  | TimestampError
  | RowDiffers revision
  | PageExceeded
  | LegacyTooLarge
  | EntryDiffers
  | EntryIdentity id_error

record replay_entry =
  re_accepted :: accepted_operation
  re_map_hash :: string
  re_storage_version :: int
  re_change_count :: nat

record replay_page =
  rp_snapshot :: revision
  rp_head :: revision
  rp_through :: revision
  rp_entries :: "replay_entry list"
  rp_has_more :: bool

definition MaxReplayPageEntries :: int where "MaxReplayPageEntries = 128"
definition MaxMessageBytes :: nat where "MaxMessageBytes = 1048576"
definition MaxReplayPageInlineBytes :: nat where "MaxReplayPageInlineBytes = MaxMessageBytes"
definition MaxOperationChanges :: nat where "MaxOperationChanges = 4096"

definition ValidateReplayPageRequest :: "revision \<Rightarrow> revision \<Rightarrow> int \<Rightarrow> replay_error + unit" where
  "ValidateReplayPageRequest cursor through limit =
     sum_bind (guard (cursor > through) ErrReplayRevisionRange) (\<lambda>_.
     guard (limit < 1 \<or> limit > MaxReplayPageEntries) ErrReplayPageLimit)"

definition CheckReplaySnapshot :: "revision option \<Rightarrow> revision \<Rightarrow> replay_error + unit" where
  "CheckReplaySnapshot expected actual =
     guard (case expected of None \<Rightarrow> False | Some r \<Rightarrow> r \<noteq> actual) ErrReplayCheckpointChanged"

definition validReplayHash :: "string \<Rightarrow> bool" where
  "validReplayHash value =
     (if length value \<noteq> 64 then False
      else case hex_decode value of None \<Rightarrow> False | Some decoded \<Rightarrow> hex_encode decoded = value)"

definition identities :: "document_id \<Rightarrow> actor_id \<Rightarrow> operation_id \<Rightarrow> replay_error + unit" where
  "identities i actor k =
     sum_bind (check (DocumentID_Validate i) EntryIdentity) (\<lambda>_.
     sum_bind (check (ActorID_Validate actor) EntryIdentity) (\<lambda>_.
     check (OperationID_Validate k) EntryIdentity))"

definition replay_entry_of :: "accepted_operation \<Rightarrow> string \<Rightarrow> replay_entry" where
  "replay_entry_of a mapHash =
     \<lparr>re_accepted = CloneAcceptedOperation a, re_map_hash = mapHash, re_storage_version = LegacyTransactionVersion,
      re_change_count = length (changes (acc_op a))\<rparr>"

definition row_differs :: "document_id \<Rightarrow> operation_id \<Rightarrow> revision \<Rightarrow> string \<Rightarrow> accepted_operation \<Rightarrow> nat \<Rightarrow> bool" where
  "row_differs i k r mapHash a limit \<longleftrightarrow> \<not> validReplayHash mapHash \<or> op_document (acc_op a) \<noteq> i \<or>
     op_id (acc_op a) \<noteq> k \<or> acc_revision a \<noteq> r \<or> accepted_at a = 0 \<or>
     length (changes (acc_op a)) < 1 \<or> length (changes (acc_op a)) > limit"

definition ValidateLegacyReplayEntry ::
  "document_id \<Rightarrow> operation_id \<Rightarrow> revision \<Rightarrow> string \<Rightarrow> nat \<Rightarrow> accepted_operation \<Rightarrow> replay_error + replay_entry" where
  "ValidateLegacyReplayEntry i k r mapHash encodedBytes a =
     sum_bind (guard (encodedBytes < 1 \<or> encodedBytes > MaxMessageBytes \<or> row_differs i k r mapHash a MaxOperationChanges) EntryDiffers) (\<lambda>_.
     sum_bind (identities i (op_actor (acc_op a)) k) (\<lambda>_.
     Inr (replay_entry_of a mapHash)))"

definition validateMemoryReplayEntry ::
  "document_id \<Rightarrow> operation_id \<Rightarrow> revision \<Rightarrow> string \<Rightarrow> nat \<Rightarrow> bool \<Rightarrow> accepted_operation \<Rightarrow> replay_error + replay_entry" where
  "validateMemoryReplayEntry i k r mapHash encodedBytes bulk a =
     (if \<not> bulk then
        sum_bind (guard (encodedBytes > MaxMessageBytes) LegacyTooLarge) (\<lambda>_.
        ValidateLegacyReplayEntry i k r mapHash encodedBytes a)
      else
        sum_bind (guard (encodedBytes < 1 \<or> row_differs i k r mapHash a (nat MaxMapCells)) EntryDiffers) (\<lambda>_.
        sum_bind (identities i (op_actor (acc_op a)) k) (\<lambda>_.
        Inr (replay_entry_of a mapHash))))"

fun sequence_from :: "revision \<Rightarrow> replay_entry list \<Rightarrow> replay_error + revision" where
  "sequence_from expected [] = Inr expected"
| "sequence_from expected (e # es) =
     sum_bind (guard (acc_revision (re_accepted e) \<noteq> expected) ErrReplayGap) (\<lambda>_. sequence_from (expected + 1) es)"

definition ValidateReplayPageSequence ::
  "replay_entry list \<Rightarrow> revision \<Rightarrow> revision \<Rightarrow> bool \<Rightarrow> replay_error + unit" where
  "ValidateReplayPageSequence entries cursor through hasMore =
     (if cursor = through then guard (length entries \<noteq> 0 \<or> hasMore) ErrReplayGap
      else
        sum_bind (sequence_from (cursor + 1) entries) (\<lambda>expected.
        if hasMore then guard (length entries = 0) ErrReplayGap
        else guard (expected - 1 \<noteq> through) ErrReplayGap))"

section \<open>The page of the in-memory store\<close>

fun page_rows ::
  "stamp_fun \<Rightarrow> memory_store \<Rightarrow> document_id \<Rightarrow> revision \<Rightarrow> revision \<Rightarrow> int \<Rightarrow> bool \<Rightarrow> ctx \<Rightarrow>
     accepted_operation list \<Rightarrow> replay_entry list \<Rightarrow> nat \<Rightarrow> replay_error + replay_entry list \<times> bool" where
  "page_rows stamp st i cursor through limit bulk c [] entries inline = Inr (entries, False)"
| "page_rows stamp st i cursor through limit bulk c (a # as) entries inline =
     (case ctx_poll c of
        None \<Rightarrow> Inl (ReplayStore StoreCanceled)
      | Some c' \<Rightarrow>
          if acc_revision a \<le> cursor \<or> acc_revision a > through
          then page_rows stamp st i cursor through limit bulk c' as entries inline
          else if int (length entries) \<ge> limit then Inr (entries, True)
          else
            (case retained_hash st i (acc_revision a) of
               None \<Rightarrow> Inl (RowDiffers (acc_revision a))
             | Some mapHash \<Rightarrow>
                 sum_bind (guard (\<not> validReplayHash mapHash \<or> op_document (acc_op a) \<noteq> i \<or> op_id (acc_op a) = [])
                   (RowDiffers (acc_revision a))) (\<lambda>_.
                 case replayAcceptedJSONSize stamp a of
                   None \<Rightarrow> Inl TimestampError
                 | Some encodedBytes \<Rightarrow>
                     sum_bind (guard (inline + encodedBytes > MaxReplayPageInlineBytes \<and> length entries = 0 \<and> \<not> bulk)
                       PageExceeded) (\<lambda>_.
                     if inline + encodedBytes > MaxReplayPageInlineBytes \<and> length entries \<noteq> 0 then Inr (entries, True)
                     else
                       sum_bind (validateMemoryReplayEntry i (op_id (acc_op a)) (acc_revision a) mapHash encodedBytes bulk a) (\<lambda>entry.
                       page_rows stamp st i cursor through limit bulk c' as (entries @ [entry]) (inline + encodedBytes))))))"

definition LoadReplayPage ::
  "stamp_fun \<Rightarrow> ctx \<Rightarrow> document_id \<Rightarrow> revision \<Rightarrow> revision \<Rightarrow> revision option \<Rightarrow> int \<Rightarrow> memory_store \<Rightarrow>
     replay_error + replay_page" where
  "LoadReplayPage stamp c i cursor through expectedSnapshot limit st =
     (case ctx_poll c of
        None \<Rightarrow> Inl (ReplayStore StoreCanceled)
      | Some c' \<Rightarrow>
          sum_bind (ValidateReplayPageRequest cursor through limit) (\<lambda>_.
          sum_bind (guard (st_closed st) (ReplayStore ErrStoreClosed)) (\<lambda>_.
          case sessions st i of
            None \<Rightarrow> Inl (ReplayStore ErrSessionMissing)
          | Some s \<Rightarrow>
              sum_bind (CheckReplaySnapshot expectedSnapshot (snap_revision s)) (\<lambda>_.
              case revision_heads st i of
                None \<Rightarrow> Inl (ReplayStore ErrSessionMissing)
              | Some head \<Rightarrow>
                  sum_bind (guard (through > head \<or> cursor > head) ErrReplayRevisionRange) (\<lambda>_.
                  let page = \<lparr>rp_snapshot = snap_revision s, rp_head = head, rp_through = through,
                              rp_entries = [], rp_has_more = False\<rparr> in
                  if cursor < snap_revision s \<or> cursor = through then Inr page
                  else
                    let bulk = (stored_version st i = BulkTransactionVersion) in
                    sum_bind (page_rows stamp st i cursor through limit bulk c' (ops_of st i) [] 0) (\<lambda>(entries, hasMore).
                    sum_bind (ValidateReplayPageSequence entries cursor through hasMore) (\<lambda>_.
                    Inr (page\<lparr>rp_entries := entries, rp_has_more := hasMore\<rparr>))))))))"

end
