(* ===== verification/Replay_Size.thy ===== *)
theory Replay_Size
  imports Replay_Pages
begin

text \<open>
  The counted size of an accepted operation is the length of its JSON text. The reference is the
  encoder of the standard library, with HTML escaping, applied to the struct tags of the model
  package; it builds the text the counter avoids to build.
\<close>

section \<open>The reference encoder\<close>

definition hex_code :: "nat \<Rightarrow> nat" where
  "hex_code n = of_char (hex_char n)"

definition short_escape :: "nat \<Rightarrow> nat" where
  "short_escape b = (if b = 8 then 98 else if b = 12 then 102 else if b = 10 then 110 else if b = 13 then 114
     else if b = 9 then 116 else b)"

function json_escape :: "nat list \<Rightarrow> nat list" where
  "json_escape [] = []"
| "json_escape (b # bs) =
     (if b = 34 \<or> b = 92 \<or> b = 8 \<or> b = 12 \<or> b = 10 \<or> b = 13 \<or> b = 9 then [92, short_escape b] @ json_escape bs
      else if b < 32 \<or> b = 60 \<or> b = 62 \<or> b = 38 then [92, 117, 48, 48, hex_code (b div 16), hex_code (b mod 16)] @ json_escape bs
      else if b < 128 then b # json_escape bs
      else case decode_rune (b # bs) of (r, n) \<Rightarrow>
        if r = 65533 \<and> n = 1 then [92, 117, 102, 102, 102, 100] @ json_escape bs
        else if r = 8232 then [92, 117, 50, 48, 50, 56] @ json_escape (drop (n - 1) bs)
        else if r = 8233 then [92, 117, 50, 48, 50, 57] @ json_escape (drop (n - 1) bs)
        else take n (b # bs) @ json_escape (drop (n - 1) bs))"
  by pat_completeness auto
termination
  by (relation "measure length") auto

definition json_string :: "string \<Rightarrow> nat list" where
  "json_string s = 34 # json_escape (string_codes s) @ [34]"

fun json_join :: "nat list list \<Rightarrow> nat list" where
  "json_join [] = []"
| "json_join [x] = x"
| "json_join (x # y # xs) = x @ 44 # json_join (y # xs)"

definition json_object :: "(string \<times> nat list) list \<Rightarrow> nat list" where
  "json_object ms = 123 # json_join (map (\<lambda>(k, v). json_string k @ 58 # v) ms) @ [125]"

definition json_array :: "nat list list \<Rightarrow> nat list" where
  "json_array vs = 91 # json_join vs @ [93]"

definition json_null :: "nat list" where "json_null = [110, 117, 108, 108]"

lemma length_json_null [simp]: "length json_null = 4"
  by (simp add: json_null_def)

definition json_prefab :: "prefab_state \<Rightarrow> nat list" where
  "json_prefab p = json_object [(''stable_id'', json_string (prefab_id p)), (''path'', json_string (prefab_path p)),
     (''vars'', case prefab_vars p of None \<Rightarrow> json_null | Some m \<Rightarrow> json_object (map (\<lambda>(k, v). (k, json_string v)) (map_entries m)))]"

definition json_tile_state :: "tile_state \<Rightarrow> nat list" where
  "json_tile_state st = json_object [(''prefabs'', case prefabs st of None \<Rightarrow> json_null | Some ps \<Rightarrow> json_array (map json_prefab ps))]"

definition json_coord :: "coord \<Rightarrow> nat list" where
  "json_coord c = json_object [(''x'', string_codes (signed_decimal (cX c))), (''y'', string_codes (signed_decimal (cY c))),
     (''z'', string_codes (signed_decimal (cZ c)))]"

definition json_change :: "tile_change \<Rightarrow> nat list" where
  "json_change ch = json_object [(''coord'', json_coord (ch_coord ch)), (''before'', json_tile_state (before ch)),
     (''after'', json_tile_state (after ch))]"

definition json_accepted :: "stamp_fun \<Rightarrow> accepted_operation \<Rightarrow> nat list option" where
  "json_accepted stamp a =
     (let op = acc_op a in
      case stamp (accepted_at a) of None \<Rightarrow> None
      | Some timestamp \<Rightarrow> Some (json_object
         ([(''protocol_version'', string_codes (decimal (unat (op_protocol op)))), (''document_id'', json_string (op_document op)),
           (''actor_id'', json_string (op_actor op)), (''operation_id'', json_string (op_id op)),
           (''base_revision'', string_codes (decimal (unat (base_revision op)))), (''environment_hash'', json_string (op_environment op)),
           (''base_map_hash'', json_string (base_map_hash op)), (''kind'', json_string (kind_text (op_kind op))),
           (''changes'', if changes op = [] then json_null else json_array (map json_change (changes op)))] @
          (case inverse_of op of None \<Rightarrow> [] | Some i \<Rightarrow> [(''inverse_of'', json_string i)]) @
          [(''revision'', string_codes (decimal (unat (acc_revision a)))), (''accepted_at'', string_codes timestamp)])))"

section \<open>The counter is exact\<close>

lemma length_json_escape: "length (json_escape bs) = json_size bs"
proof (induction bs rule: json_escape.induct)
  case (2 b bs)
  have w: "1 \<le> snd (decode_rune (b # bs))" "snd (decode_rune (b # bs)) \<le> length (b # bs)"
    using decode_rune_width [of "b # bs"] by auto
  then have t: "length (take (snd (decode_rune (b # bs))) (b # bs)) = snd (decode_rune (b # bs))" by simp
  consider "b \<in> {34, 92, 8, 12, 10, 13, 9}" | "b \<notin> {34, 92, 8, 12, 10, 13, 9}" "b < 32 \<or> b \<in> {60, 62, 38}"
    | "b \<notin> {34, 92, 8, 12, 10, 13, 9}" "\<not> (b < 32 \<or> b \<in> {60, 62, 38})" "b < 128" | "128 \<le> b"
    by (metis linorder_not_less)
  then show ?case
  proof cases
    case 4
    then show ?thesis using 2 t by (cases "decode_rune (b # bs)") auto
  qed (use 2 in auto)
qed simp

lemma length_json_string: "length (json_string s) = replayJSONStringSize s"
  by (simp add: json_string_def replayJSONStringSize_def length_json_escape)

lemma length_string_codes [simp]: "length (string_codes s) = length s"
  by (simp add: string_codes_def)

lemma array_items_Suc: "ns \<noteq> [] \<Longrightarrow> array_items (Suc i) ns = 1 + array_items 0 ns"
proof (induction ns arbitrary: i)
  case (Cons n ns)
  have "array_items (Suc (Suc i)) ns = array_items (Suc 0) ns"
    using Cons.IH by (cases ns) auto
  then show ?case by simp
qed simp

lemma length_json_join: "length (json_join vs) = array_items 0 (map length vs)"
proof (induction vs rule: json_join.induct)
  case (3 x y xs)
  then show ?case using array_items_Suc [of "map length (y # xs)" 0] by simp
qed simp_all

lemma add_field_fold:
  "fst (foldl add_field (t, Suc k) ms) = t + sum_list (map (\<lambda>(n, v). replayJSONStringSize n + 2 + v) ms)"
  by (induction ms arbitrary: t k) (auto simp: add_field_def)

lemma join_members:
  "array_items (Suc k) ns = sum_list (map Suc ns)"
  by (induction ns arbitrary: k) auto

lemma object_size_members:
  "object_size (map (\<lambda>(n, v). (n, length v)) ms) = length (json_object ms)"
proof (cases ms)
  case Nil
  then show ?thesis by (simp add: object_size_def json_object_def)
next
  case (Cons m ms')
  obtain n v where m: "m = (n, v)" by force
  have "sum_list (map (\<lambda>(n, v). replayJSONStringSize n + 2 + v) (map (\<lambda>(n, v). (n, length v)) ms')) =
      sum_list (map Suc (map (length \<circ> (\<lambda>(k, v). json_string k @ 58 # v)) ms'))"
    by (induction ms') (auto simp: length_json_string)
  moreover have "array_items (Suc 0) (map (length \<circ> (\<lambda>(k, v). json_string k @ 58 # v)) ms') =
      sum_list (map Suc (map (length \<circ> (\<lambda>(k, v). json_string k @ 58 # v)) ms'))"
    by (rule join_members)
  moreover have "object_size (map (\<lambda>(n, v). (n, length v)) ms) = 2 + (replayJSONStringSize n + 1 + length v) +
      sum_list (map (\<lambda>(n, v). replayJSONStringSize n + 2 + v) (map (\<lambda>(n, v). (n, length v)) ms'))"
    by (simp add: object_size_def Cons m add_field_def add_field_fold)
  moreover have "length (json_object ms) = 2 + (replayJSONStringSize n + 1 + length v) +
      array_items (Suc 0) (map (length \<circ> (\<lambda>(k, v). json_string k @ 58 # v)) ms')"
    by (simp add: json_object_def length_json_join Cons m length_json_string comp_def)
  ultimately show ?thesis by simp
qed

lemma length_json_array: "length (json_array vs) = 2 + array_items 0 (map length vs)"
  by (simp add: json_array_def length_json_join)

lemma replayPrefabSize_length: "replayPrefabSize p = length (json_prefab p)"
proof -
  have vars: "2 + array_items 0 (map (\<lambda>(k, v). replayJSONStringSize k + 1 + replayJSONStringSize v) es) =
      length (json_object (map (\<lambda>(k, v). (k, json_string v)) es))" for es
    by (simp add: json_object_def length_json_join comp_def case_prod_unfold length_json_string)
  show ?thesis
    unfolding json_prefab_def object_size_members [symmetric] replayPrefabSize_def
    by (cases "prefab_vars p") (simp_all add: length_json_string vars [symmetric])
qed

lemma replayTileStateSize_length: "replayTileStateSize st = length (json_tile_state st)"
  unfolding json_tile_state_def object_size_members [symmetric] replayTileStateSize_def
  by (cases "prefabs st") (simp_all add: length_json_array object_size_def add_field_def comp_def replayPrefabSize_length [abs_def])

lemma replay_coord_size_length: "replay_coord_size c = length (json_coord c)"
  unfolding json_coord_def object_size_members [symmetric] replay_coord_size_def
  by (simp add: object_size_def add_field_def replaySignedSize_def)

lemma replayTileChangeSize_length: "replayTileChangeSize ch = length (json_change ch)"
  unfolding json_change_def object_size_members [symmetric] replayTileChangeSize_def
  by (simp add: replay_coord_size_length replayTileStateSize_length)

lemma replayChangesSize_length:
  "replayChangesSize chs = length (if chs = [] then json_null else json_array (map json_change chs))"
  by (simp add: replayChangesSize_def length_json_array comp_def replayTileChangeSize_length [abs_def])

lemma replay_size_length:
  "replayAcceptedJSONSize stamp a = map_option length (json_accepted stamp a)"
proof (cases "stamp (accepted_at a)")
  case None
  then show ?thesis by (simp add: replayAcceptedJSONSize_def json_accepted_def)
next
  case (Some timestamp)
  have u: "unat (ucast (op_protocol (acc_op a)) :: u64) = unat (op_protocol (acc_op a))"
    by (simp add: unsigned_ucast_eq take_bit_nat_eq_self order_less_le_trans [OF unsigned_less])
  show ?thesis
    using Some
    by (cases "inverse_of (acc_op a)")
      (simp_all add: replayAcceptedJSONSize_def json_accepted_def Let_def object_size_members [symmetric] length_json_string
        replayChangesSize_length replayUnsignedSize_def u)
qed

text \<open>C40: The counted size of an accepted operation is the length of its JSON text, for every operation
  and every text its strings can hold, invalid UTF-8 and characters that JSON escapes included; the
  count fails exactly when the timestamp has no JSON form.\<close>

theorem replay_size_exact:
  "replayAcceptedJSONSize stamp a = map_option length (json_accepted stamp a)"
  by (rule replay_size_length)

end
