(* ===== verification/Tile_Store.thy ===== *)
theory Tile_Store
  imports Document_History
begin

text \<open>
  The contract of a tile store as its clients see it: changes that are acceptable there can be
  installed, and installation overrides the map by the changes. The lemmas of the locale (undo, redo,
  independence) are proved from the contract; both publication paths of the engine provide it.
\<close>

definition undo_change :: "tile_change \<Rightarrow> tile_change" where
  "undo_change ch = \<lparr>ch_coord = ch_coord ch, before = after ch, after = before ch\<rparr>"

definition undo_changes :: "tile_change list \<Rightarrow> tile_change list" where
  "undo_changes chs = map undo_change chs"

lemma undo_change_sel [simp]:
  "ch_coord (undo_change ch) = ch_coord ch" "before (undo_change ch) = after ch" "after (undo_change ch) = before ch"
  "undo_change (undo_change ch) = ch"
  by (simp_all add: undo_change_def)

lemma undo_changes_sel [simp]:
  "map ch_coord (undo_changes chs) = map ch_coord chs" "length (undo_changes chs) = length chs"
  "undo_changes (undo_changes chs) = chs" "ch_coord ` set (undo_changes chs) = ch_coord ` set chs"
  "set (undo_changes chs) = undo_change ` set chs"
  by (simp_all add: undo_changes_def comp_def image_image)

section \<open>The contract\<close>

locale tile_store =
  fixes view :: "'d \<Rightarrow> coord \<Rightarrow> tile_view"
    and inv :: "'d \<Rightarrow> bool"
    and acceptable :: "'d \<Rightarrow> tile_change list \<Rightarrow> bool"
    and install :: "tile_change list \<Rightarrow> 'd \<Rightarrow> 'd"
  assumes install_view: "inv d \<Longrightarrow> acceptable d chs \<Longrightarrow> view (install chs d) = apply_view chs (view d)"
    and install_inv: "inv d \<Longrightarrow> acceptable d chs \<Longrightarrow> inv (install chs d)"
    and acceptable_distinct: "acceptable d chs \<Longrightarrow> distinct (map ch_coord chs)"
    and acceptable_before: "acceptable d chs \<Longrightarrow> ch \<in> set chs \<Longrightarrow> view d (ch_coord ch) = tile_view (before ch)"
    and acceptable_undo: "inv d \<Longrightarrow> acceptable d chs \<Longrightarrow> acceptable (install chs d) (undo_changes chs)"
begin

lemma install_changed:
  "inv d \<Longrightarrow> acceptable d chs \<Longrightarrow> ch \<in> set chs \<Longrightarrow> view (install chs d) (ch_coord ch) = tile_view (after ch)"
  by (simp add: install_view apply_view_at [OF acceptable_distinct])

lemma install_unchanged:
  "inv d \<Longrightarrow> acceptable d chs \<Longrightarrow> c \<notin> ch_coord ` set chs \<Longrightarrow> view (install chs d) c = view d c"
  by (simp add: install_view apply_view_other)

lemma undo_view:
  assumes "inv d" "acceptable d chs"
  shows "view (install (undo_changes chs) (install chs d)) = view d"
proof (rule ext)
  fix c
  note u = install_inv [OF assms] acceptable_undo [OF assms]
  show "view (install (undo_changes chs) (install chs d)) c = view d c"
  proof (cases "c \<in> ch_coord ` set chs")
    case True
    then obtain ch where ch: "ch \<in> set chs" "c = ch_coord ch" by auto
    then have "undo_change ch \<in> set (undo_changes chs)" by simp
    from install_changed [OF u this] show ?thesis
      using acceptable_before [OF assms(2) ch(1)] ch(2) by simp
  next
    case False
    then show ?thesis using install_unchanged [OF u, of c] install_unchanged [OF assms, of c] by (simp add: image_image)
  qed
qed

lemma redo_view:
  assumes "inv d" "acceptable d chs"
  shows "view (install chs (install (undo_changes chs) (install chs d))) = view (install chs d)"
proof -
  note u = install_inv [OF assms] acceptable_undo [OF assms]
  have "acceptable (install (undo_changes chs) (install chs d)) chs"
    using acceptable_undo [OF u] by simp
  then show ?thesis
    using install_view [OF install_inv [OF u]] undo_view [OF assms] install_view [OF assms] by simp
qed

text \<open>Edits of different tiles commute.\<close>

lemma independent_view:
  assumes "inv d" "acceptable d as" "acceptable d bs" "acceptable (install as d) bs" "acceptable (install bs d) as"
    and "ch_coord ` set as \<inter> ch_coord ` set bs = {}"
  shows "view (install bs (install as d)) = view (install as (install bs d))"
proof -
  have "apply_view bs (apply_view as m) = apply_view as (apply_view bs m)" for m
  proof (rule ext)
    fix c
    show "apply_view bs (apply_view as m) c = apply_view as (apply_view bs m) c"
      using assms(6) dom_change_table [of as, symmetric] dom_change_table [of bs, symmetric]
      by (cases "change_table as c"; cases "change_table bs c") (auto simp: apply_view_def)
  qed
  then show ?thesis
    using assms(1-5) by (simp add: install_view install_inv)
qed

end

section \<open>Undone changes are acceptable\<close>

lemma undo_changes_ok:
  assumes "snapshot_ok s" "indexes_ok (tiles s) m" "changes_ok s chs"
  shows "changes_ok (rewritten s m chs r) (undo_changes chs)"
proof -
  note okd = changes_okD [OF assms(3)] and w = rewritten_ok [OF assms]
  note tb = override_Some_iff [OF okd(1), of "tile_table (tiles s)"]
  have ids: "ids_ok (tile_table (tiles s))" using assms(1) by (simp add: snapshot_ok_table)
  have holds: "i \<in> set (tile_ids (before ch)) \<Longrightarrow> \<exists>st. tile_table (tiles s) (ch_coord ch) = Some st \<and> i \<in> set (tile_ids st)"
    if "ch \<in> set chs" for ch i using before_ids [OF assms(3) that] by blast
  have ids_before: "distinct (tile_ids (before ch))" if "ch \<in> set chs" for ch
  proof -
    have "tile_ids (before ch) = map fst (map_view s (ch_coord ch))" using okd(4) [OF that] by (simp add: tile_ids_view)
    then show ?thesis using ids by (auto simp: map_view_def ids_ok_def tile_ids_view split: option.splits)
  qed
  have disj: "set (tile_ids (before ch)) \<inter> set (tile_ids (before ch')) = {}"
    if "ch \<in> set chs" "ch' \<in> set chs" "ch_coord ch \<noteq> ch_coord ch'" for ch ch'
    using ids holds [OF that(1)] holds [OF that(2)] that(3) unfolding ids_ok_def by blast
  have dist: "distinct (concat (map (\<lambda>ch. tile_ids (before ch)) xs))" if "set xs \<subseteq> set chs" "distinct (map ch_coord xs)" for xs
    using that
  proof (induction xs)
    case (Cons x xs)
    have "set (tile_ids (before x)) \<inter> set (tile_ids (before y)) = {}" if "y \<in> set xs" for y
      using disj [of x y] other_coords [OF Cons.prems(2) that] Cons.prems(1) that by (metis list.set_intros subsetD)
    then show ?case using Cons ids_before by auto
  qed simp
  have "CellCount (rewritten s m chs r) = CellCount s" by (simp add: CellCount_def Let_def)
  then have "count_ok (rewritten s m chs r) (undo_changes chs)"
    using assms(3) by (simp add: changes_ok_def count_ok_def undo_changes_def split: sum.splits)
  moreover have "map_view (rewritten s m chs r) (ch_coord ch) = tile_view (after ch)" if "ch \<in> set chs" for ch
    unfolding w(4) by (rule apply_view_at [OF okd(1) that])
  moreover have "c \<in> ch_coord ` set chs"
    if "ch \<in> set chs" "i \<in> set (tile_ids (before ch))"
      "(tile_table (tiles s) ++ change_table chs) c = Some st" "i \<in> set (tile_ids st)" for ch i c st
  proof (rule ccontr)
    assume c: "c \<notin> ch_coord ` set chs"
    then have "tile_table (tiles s) c = Some st" using that(3) unfolding tb by auto
    then have "c = ch_coord ch" using holds [OF that(1,2)] ids that(4) unfolding ids_ok_def by blast
    then show False using c that(1) by blast
  qed
  moreover have "StableID_Validate i = None" if "ch \<in> set chs" "i \<in> set (tile_ids (before ch))" for ch i
    using holds [OF that] ids unfolding ids_ok_def by blast
  moreover have "distinct (concat (map (\<lambda>ch. tile_ids (after ch)) (undo_changes chs)))"
    using dist [of chs] okd(1) by (simp add: undo_changes_def comp_def)
  ultimately show ?thesis
    unfolding changes_ok_def rewritten_sel w(3) using okd(1,3)
    by (simp add: image_image del: map_add_Some_iff)
qed

section \<open>The engine provides the contract\<close>

definition tables_ok :: "document \<Rightarrow> bool" where
  "tables_ok d \<longleftrightarrow> snapshot_ok (doc_snapshot d) \<and> indexes_ok (tiles (doc_snapshot d)) (tile_indexes d) \<and>
     owners_ok (tile_table (tiles (doc_snapshot d))) (identity_owners d)"

definition doc_view :: "document \<Rightarrow> coord \<Rightarrow> tile_view" where
  "doc_view d = map_view (doc_snapshot d)"

definition doc_acceptable :: "document \<Rightarrow> tile_change list \<Rightarrow> bool" where
  "doc_acceptable d chs \<longleftrightarrow> changes_ok (doc_snapshot d) chs"

text \<open>What both publication paths make of the tables.\<close>

definition installed :: "tile_change list \<Rightarrow> document \<Rightarrow> document \<Rightarrow> bool" where
  "installed chs d d' \<longleftrightarrow>
     (\<exists>r. doc_snapshot d' = rewritten (doc_snapshot d) (tile_indexes d) chs r) \<and>
     tile_indexes d' = grow_indexes chs (length (tiles (doc_snapshot d))) (tile_indexes d) \<and>
     identity_owners d' = new_owners chs (identity_owners d)"

lemma installed_contract:
  assumes "tables_ok d" "doc_acceptable d chs" "installed chs d d'"
  shows "doc_view d' = apply_view chs (doc_view d)" "tables_ok d'" "doc_acceptable d' (undo_changes chs)"
proof -
  obtain r where r: "doc_snapshot d' = rewritten (doc_snapshot d) (tile_indexes d) chs r"
    using assms(3) by (auto simp: installed_def)
  have ok: "snapshot_ok (doc_snapshot d)" "indexes_ok (tiles (doc_snapshot d)) (tile_indexes d)"
      "owners_ok (tile_table (tiles (doc_snapshot d))) (identity_owners d)" "changes_ok (doc_snapshot d) chs"
    using assms(1,2) by (simp_all add: tables_ok_def doc_acceptable_def)
  note w = rewritten_ok [OF ok(1,2,4)]
  show "doc_view d' = apply_view chs (doc_view d)" unfolding doc_view_def r by (rule w(4))
  have "owners_ok (tile_table (tiles (doc_snapshot d)) ++ change_table chs) (new_owners chs (identity_owners d))"
    using ok(1,3,4) by (intro new_owners_ok) (simp_all add: snapshot_ok_table)
  then show "tables_ok d'"
    using assms(3) w(1,2) unfolding tables_ok_def installed_def r rewritten_sel w(3) by simp
  show "doc_acceptable d' (undo_changes chs)"
    unfolding doc_acceptable_def r by (rule undo_changes_ok [OF ok(1,2,4)])
qed

lemma installChanges_installed: "doc_acceptable d chs \<Longrightarrow> installed chs d (installChanges chs d)"
  using installChanges_eq [OF changes_okD(1), of "doc_snapshot d" chs d]
  by (auto simp: installed_def doc_acceptable_def rewritten_def intro!: exI [of _ "snap_revision (doc_snapshot d)"])

definition wire_install :: "operation \<Rightarrow> string \<Rightarrow> hasher \<Rightarrow> int \<Rightarrow> tile_change list \<Rightarrow> document \<Rightarrow> document" where
  "wire_install op digest hasher at chs d =
     snd (publish (op\<lparr>changes := chs\<rparr>)
       ((doc_snapshot d)\<lparr>tiles := write_tiles (tile_indexes d) chs (tiles (doc_snapshot d))\<rparr>) digest hasher at d)"

lemma wire_installed: "installed chs d (wire_install op digest hasher at chs d)"
  using publish_eq [OF refl, of "op\<lparr>changes := chs\<rparr>" "(doc_snapshot d)\<lparr>tiles := write_tiles (tile_indexes d) chs (tiles (doc_snapshot d))\<rparr>" digest hasher at d]
  by (auto simp: installed_def wire_install_def rewritten_def)

lemma doc_acceptableD:
  "doc_acceptable d chs \<Longrightarrow> distinct (map ch_coord chs)"
  "doc_acceptable d chs \<Longrightarrow> ch \<in> set chs \<Longrightarrow> doc_view d (ch_coord ch) = tile_view (before ch)"
  unfolding doc_acceptable_def doc_view_def by (rule changes_okD, assumption)+

interpretation local_store: tile_store doc_view tables_ok doc_acceptable installChanges
  by unfold_locales (simp_all add: installed_contract [OF _ _ installChanges_installed] doc_acceptableD)

interpretation wire_store: tile_store doc_view tables_ok doc_acceptable "wire_install op digest hasher at"
  for op digest hasher at
  by unfold_locales (simp_all add: installed_contract [OF _ _ wire_installed] doc_acceptableD)

end
