(* ===== verification/Document_Replay.thy ===== *)
theory Document_Replay
  imports Document_History Hash_Binding
begin

text \<open>
  Histories of accepted operations: what a document must satisfy to accept an operation again, that
  the outcome does not depend on the sharing flags, and what a run of accepted operations makes of
  the revision, the retained hashes and the accepted table. Stores and recovery rest on these facts.
\<close>

section \<open>The state behind the sharing flags\<close>

definition core :: "document \<Rightarrow> document" where
  "core d = d\<lparr>shared_tiles := False, scoped_readers := None, shared_tile_indexes := False,
     shared_identity_owners := False, unshared := False\<rparr>"

lemma core_sel [simp]:
  "doc_snapshot (core d) = doc_snapshot d" "map_hash (core d) = map_hash d" "doc_hasher (core d) = doc_hasher d"
  "hashes (core d) = hashes d" "accepted (core d) = accepted d" "inverted (core d) = inverted d"
  "tile_indexes (core d) = tile_indexes d" "identity_owners (core d) = identity_owners d"
  by (simp_all add: core_def)

lemma core_eq_iff:
  "core d = core e \<longleftrightarrow> doc_snapshot d = doc_snapshot e \<and> map_hash d = map_hash e \<and> doc_hasher d = doc_hasher e \<and>
     hashes d = hashes e \<and> accepted d = accepted e \<and> inverted d = inverted e \<and>
     tile_indexes d = tile_indexes e \<and> identity_owners d = identity_owners e"
  by (cases d; cases e) (simp add: core_def)

lemma core_clone [simp]:
  "core (fst (Document_Clone d)) = core d" "core (snd (Document_Clone d)) = core d"
  by (simp_all add: core_eq_iff Document_Clone_def share_tables_def)

lemma doc_ok_core: "core d = core e \<Longrightarrow> doc_ok H procs d \<longleftrightarrow> doc_ok H procs e"
  by (simp add: core_eq_iff doc_ok_def)

lemma hist_ok_core: "core d = core e \<Longrightarrow> hist_ok d \<longleftrightarrow> hist_ok e"
  by (simp add: core_eq_iff hist_ok_def accepted_ok_def inverse_ok_def)

section \<open>Admission, as a condition on the state\<close>

lemma header_iff:
  "validate_header d op = Inr u \<longleftrightarrow>
     op_protocol op = ProtocolVersion \<and> ActorID_Validate (op_actor op) = None \<and> OperationID_Validate (op_id op) = None \<and>
     (\<forall>i. inverse_of op = Some i \<longrightarrow> OperationID_Validate i = None) \<and>
     ValidateSHA256 ''environment hash'' (op_environment op) = None \<and>
     op_environment op = environment_hash (doc_snapshot d) \<and>
     ValidateSHA256 ''base map hash'' (base_map_hash op) = None \<and>
     hashes d (base_revision op) = Some (base_map_hash op) \<and>
     op_kind op \<in> {TileChangeKind, InverseKind} \<and> (op_kind op = TileChangeKind \<longrightarrow> inverse_of op = None) \<and>
     count_ok (doc_snapshot d) (changes op)"
  by (auto simp: validate_header_def sum_bind_Inr_iff split: option.splits)

lemma same_inverse_iff:
  "length chs = length targets \<Longrightarrow> same_inverse d Background chs targets = Inr c \<longleftrightarrow> c = Background \<and> reverses chs targets"
  by (induction chs targets rule: list_induct2)
    (auto simp: sum_bind_Inr_iff reverses_def TileState_Equal_view)

definition inverse_admissible :: "document \<Rightarrow> operation \<Rightarrow> bool" where
  "inverse_admissible d op \<longleftrightarrow> (op_kind op = InverseKind \<longrightarrow>
     (\<exists>t ta. inverse_of op = Some t \<and> fmlookup (accepted d) t = Some ta \<and> op_actor (acc_op ta) = op_actor op \<and>
        op_kind (acc_op ta) \<noteq> InverseKind \<and> inverted d t = None \<and> reverses (changes op) (changes (acc_op ta))))"

lemma inverse_iff:
  "validateInverseContext d Background op = Inr c \<longleftrightarrow> c = Background \<and> inverse_admissible d op"
proof -
  have len: "length xs = length ys" if "reverses xs ys" for xs ys
    using that by (auto simp: reverses_def dest: list_all2_lengthD)
  show ?thesis
    by (auto simp: validateInverseContext_def inverse_admissible_def sum_bind_Inr_iff same_inverse_iff
        split: option.splits dest: len intro: same_inverse_iff [THEN iffD2, OF len])
qed

lemma inverse_Background:
  "validateInverseContext d c op = Inr c' \<Longrightarrow> inverse_admissible d op"
  using follows_inverse [of d c op] inverse_iff [of d op] by (simp add: follows_def)

section \<open>Accepting an operation\<close>

definition hashed :: "digest_fun \<Rightarrow> nat \<Rightarrow> document \<Rightarrow> bool" where
  "hashed H procs d \<longleftrightarrow> doc_ok H procs d \<and> hist_ok d \<and> map_hash d \<noteq> []"

definition accepts :: "digest_fun \<Rightarrow> nat \<Rightarrow> document \<Rightarrow> accepted_operation \<Rightarrow> document \<Rightarrow> bool" where
  "accepts H procs d a d' \<longleftrightarrow> fmlookup (accepted d) (op_id (acc_op a)) = None \<and>
     (\<exists>e. Apply H procs (acc_op a) (accepted_at a) d = (Inr a, e) \<and> core e = core d')"

definition admissible :: "document \<Rightarrow> accepted_operation \<Rightarrow> bool" where
  "admissible d a \<longleftrightarrow>
     (let op = acc_op a in
      fmlookup (accepted d) (op_id op) = None \<and> op_document op = snap_document (doc_snapshot d) \<and>
      validate_header d op = Inr () \<and> inverse_admissible d op \<and> changes_ok (doc_snapshot d) (changes op) \<and>
      sort_changes (changes op) = changes op \<and> acc_revision a = snap_revision (doc_snapshot d) + 1)"

definition advanced :: "digest_fun \<Rightarrow> nat \<Rightarrow> document \<Rightarrow> accepted_operation \<Rightarrow> document" where
  "advanced H procs d a = applied H procs (changes (acc_op a)) (acc_op a) (accepted_at a) d False False"

lemma core_applied: "core (applied H procs chs op at d sh si) = core (applied H procs chs op at d sh' si')"
  by (simp add: core_eq_iff applied_def Let_def)

lemma hashed_doc_id [simp]: "map_hash d \<noteq> [] \<Longrightarrow> hashed_doc H procs d = d"
  by (simp add: hashed_doc_def)

lemma changes_update_id: "sort_changes (changes op) = changes op \<Longrightarrow> op\<lparr>changes := sort_changes (changes op)\<rparr> = op"
  by (simp add: operation.equality)

lemma accepts_iff:
  assumes "hashed H procs d"
  shows "accepts H procs d a d' \<longleftrightarrow> admissible d a \<and> core d' = core (advanced H procs d a)"
proof -
  have ok: "doc_ok H procs d" "map_hash d \<noteq> []" using assms by (simp_all add: hashed_def)
  let ?op = "acc_op a"
  show ?thesis
  proof
    assume "accepts H procs d a d'"
    then obtain e where e: "fmlookup (accepted d) (op_id ?op) = None"
        "ApplyContext H procs Background ?op (accepted_at a) d = (Inr a, e)" "core e = core d'"
      by (auto simp: accepts_def Apply_def)
    note new = apply_new [OF ok(1) e(2,1)]
    have "acc_op a = ?op\<lparr>changes := sort_changes (changes ?op)\<rparr>" using new(5) by (metis accepted_operation.select_convs(1))
    then have srt: "sort_changes (changes ?op) = changes ?op" by (metis operation.select_convs(9) operation.surjective operation.update_convs(9))
    have rev: "acc_revision a = snap_revision (doc_snapshot d) + 1" using new(5) by (metis accepted_operation.select_convs(2))
    have inv: "inverse_admissible d ?op"
      using new(4) inverse_Background ok(2) by (fastforce simp: changes_update_id [OF srt])
    have "core d' = core (advanced H procs d a)"
      using new(6) e(3) ok(2) srt unfolding advanced_def by (metis core_applied hashed_doc_id)
    then show "admissible d a \<and> core d' = core (advanced H procs d a)"
      using new(1-3) e(1) srt rev inv ok(2) by (simp add: admissible_def Let_def)
  next
    assume adm: "admissible d a \<and> core d' = core (advanced H procs d a)"
    then have srt: "sort_changes (changes ?op) = changes ?op" and rev: "acc_revision a = snap_revision (doc_snapshot d) + 1"
      and fresh: "fmlookup (accepted d) (op_id ?op) = None" by (simp_all add: admissible_def Let_def)
    obtain acc e where e: "Apply H procs ?op (accepted_at a) d = (Inr acc, e)"
      using apply_accepts [OF ok(1), of ?op "accepted_at a"] adm ok(2) srt
      by (auto simp: admissible_def Let_def inverse_iff changes_update_id)
    note new = apply_new [OF ok(1) e [unfolded Apply_def] fresh]
    have "acc = a" using new(5) srt rev by (simp add: changes_update_id [OF srt])
    moreover have "core e = core d'"
      using new(6) adm ok(2) srt unfolding advanced_def by (metis core_applied hashed_doc_id)
    ultimately show "accepts H procs d a d'" using e fresh by (auto simp: accepts_def)
  qed
qed

lemma admissible_core: "core d = core e \<Longrightarrow> admissible d a \<longleftrightarrow> admissible e a"
  by (simp add: core_eq_iff admissible_def Let_def header_iff inverse_admissible_def)

lemma advanced_core: "core d = core e \<Longrightarrow> core (advanced H procs d a) = core (advanced H procs e a)"
  by (cases "inverse_of (acc_op a)") (simp_all add: core_eq_iff advanced_def applied_def Let_def)

section \<open>Digests as retained text\<close>

lemma digest_text:
  assumes "digest32 H"
  shows "length (h_digest (newCanonicalHasher H procs s)) = 64"
    and "ValidateSHA256 name (h_digest (newCanonicalHasher H procs s)) = None"
  using assms by (simp_all add: full_digest mapDigest_def Let_def digest_sum_def digest32_def ValidateSHA256_def)

lemma digest_nonempty: "digest32 H \<Longrightarrow> h_digest (newCanonicalHasher H procs s) \<noteq> []"
  using digest_text(1) [of H procs s] by auto

lemma NewDocument_hashed:
  assumes "digest32 H" "NewDocument H procs s = Inr d"
  shows "hashed H procs d"
proof -
  note new = NewDocument_ok [OF assms(2)]
  have "map_hash d = h_digest (newCanonicalHasher H procs s)"
    using new by (auto simp: Snapshot_Hash_def split: option.splits)
  then show ?thesis using new digest_nonempty [OF assms(1)] by (simp add: hashed_def hist_ok_def)
qed

lemma hashed_facts:
  assumes "hashed H procs d"
  shows "doc_ok H procs d" "hist_ok d" "map_hash d \<noteq> []"
    "doc_hasher d = Some (newCanonicalHasher H procs (doc_snapshot d))"
    "map_hash d = h_digest (newCanonicalHasher H procs (doc_snapshot d))"
    "hashes d (snap_revision (doc_snapshot d)) = Some (map_hash d)"
  using assms by (auto simp: hashed_def doc_ok_def hist_ok_def)

lemma hashed_core: "core d = core e \<Longrightarrow> hashed H procs d \<longleftrightarrow> hashed H procs e"
  using doc_ok_core [of d e H procs] hist_ok_core [of d e] by (simp add: hashed_def core_eq_iff)

lemma admissible_hashed:
  assumes "digest32 H" "hashed H procs d" "admissible d a"
  shows "hashed H procs (advanced H procs d a)"
proof -
  have adm: "changes_ok (doc_snapshot d) (changes (acc_op a))" "sort_changes (changes (acc_op a)) = changes (acc_op a)"
    "fmlookup (accepted d) (op_id (acc_op a)) = None" "op_document (acc_op a) = snap_document (doc_snapshot d)"
    "validate_header d (acc_op a) = Inr ()"
    and inv: "validateInverseContext d Background (acc_op a) = Inr Background"
    using assms(3) by (simp_all add: admissible_def Let_def inverse_iff)
  note h = hashed_facts [OF assms(2)]
  have "hist_ok (advanced H procs d a)"
    using applied_hist [OF h(2) adm(3,4) _ adm(5), of Background Background H procs "accepted_at a" False False] adm(1,2) inv
    by (simp add: advanced_def changes_update_id)
  moreover have "doc_ok H procs (advanced H procs d a)"
    unfolding advanced_def by (rule applied_ok [OF h(1) adm(1)])
  moreover have "map_hash (advanced H procs d a) \<noteq> []"
    by (simp add: advanced_def digest_nonempty [OF assms(1)])
  ultimately show ?thesis by (simp add: hashed_def)
qed

lemma accepts_hashed:
  "digest32 H \<Longrightarrow> hashed H procs d \<Longrightarrow> accepts H procs d a d' \<Longrightarrow> hashed H procs d'"
  using accepts_iff [of H procs d a d'] admissible_hashed [of H procs d a] hashed_core [of d' "advanced H procs d a" H procs]
  by blast

lemma accepts_core:
  assumes "hashed H procs d" "core e = core d" "core e' = core d'" "accepts H procs d a d'"
  shows "accepts H procs e a e'"
  using assms accepts_iff [OF assms(1)] accepts_iff [of H procs e] hashed_core [OF assms(2)]
    admissible_core [OF assms(2)] advanced_core [OF assms(2)] by metis

lemma advanced_sel:
  "snap_revision (doc_snapshot (advanced H procs d a)) = snap_revision (doc_snapshot d) + 1"
  "\<exists>ts r. doc_snapshot (advanced H procs d a) = (doc_snapshot d)\<lparr>tiles := ts, snap_revision := r\<rparr>"
  "hashes (advanced H procs d a) = (hashes d)(snap_revision (doc_snapshot d) + 1 \<mapsto> map_hash (advanced H procs d a))"
  "inverted (advanced H procs d a) =
     (case inverse_of (acc_op a) of None \<Rightarrow> inverted d | Some t \<Rightarrow> (inverted d)(t \<mapsto> op_id (acc_op a)))"
  "acc_revision a = snap_revision (doc_snapshot d) + 1 \<Longrightarrow>
     accepted (advanced H procs d a) = fmupd (op_id (acc_op a)) a (accepted d)"
  by (auto simp add: advanced_def rewritten_def) (metis accepted_operation.surjective old.unit.exhaust)

section \<open>Histories\<close>

inductive history :: "digest_fun \<Rightarrow> nat \<Rightarrow> document \<Rightarrow> accepted_operation list \<Rightarrow> document \<Rightarrow> bool" for H procs d0 where
  history_start: "core d = core d0 \<Longrightarrow> history H procs d0 [] d"
| history_step: "history H procs d0 as d \<Longrightarrow> accepts H procs d a d' \<Longrightarrow> history H procs d0 (as @ [a]) d'"

inductive_simps history_Nil_iff: "history H procs d0 [] d"

lemma history_snoc_iff:
  "history H procs d0 (as @ [a]) d' \<longleftrightarrow> (\<exists>d. history H procs d0 as d \<and> accepts H procs d a d')"
  by (subst history.simps) auto

lemma history_append_iff:
  assumes "digest32 H" "hashed H procs d0"
  shows "history H procs d0 (as @ bs) e \<longleftrightarrow> (\<exists>d. history H procs d0 as d \<and> history H procs d bs e)"
proof (induction bs arbitrary: e rule: rev_induct)
  case Nil
  show ?case
  proof
    assume "\<exists>d. history H procs d0 as d \<and> history H procs d [] e"
    then obtain d where d: "history H procs d0 as d" "core e = core d" by (auto simp: history_Nil_iff)
    show "history H procs d0 (as @ []) e"
      using d(1)
    proof (cases rule: history.cases)
      case history_start
      then show ?thesis using d(2) by (simp add: history.history_start)
    next
      case (history_step as' d' a)
      then have "accepts H procs d' a e" using d(2) by (simp add: accepts_def)
      then show ?thesis using history_step by (simp add: history.history_step)
    qed
  qed (auto simp: history_Nil_iff)
next
  case (snoc b bs)
  show ?case using history_snoc_iff [of H procs d0 "as @ bs" b e] snoc.IH
    by (auto simp: history_snoc_iff)
qed

lemma history_hashed:
  assumes "digest32 H" "hashed H procs d0" "history H procs d0 as d"
  shows "hashed H procs d"
  using assms(3) by induction (use accepts_hashed [OF assms(1)] hashed_core assms(2) in blast)+

lemma history_snapshot:
  assumes "digest32 H" "hashed H procs d0" "history H procs d0 as d"
  shows "snap_revision (doc_snapshot d) = snap_revision (doc_snapshot d0) + of_nat (length as)"
    and "\<exists>ts r. doc_snapshot d = (doc_snapshot d0)\<lparr>tiles := ts, snap_revision := r\<rparr>"
  using assms(3)
proof (induction)
  case (history_start d)
  { case 1 then show ?case using history_start by (simp add: core_eq_iff)
  next case 2 then show ?case using history_start
      by (intro exI [of _ "tiles (doc_snapshot d0)"] exI [of _ "snap_revision (doc_snapshot d0)"]) (simp add: core_eq_iff) }
next
  case (history_step as d a d')
  have c: "core d' = core (advanced H procs d a)"
    using accepts_iff [OF history_hashed [OF assms(1,2) history_step.hyps(1)], of a d'] history_step.hyps(2) by simp
  then have e: "doc_snapshot d' = doc_snapshot (advanced H procs d a)" by (simp add: core_eq_iff)
  { case 1 then show ?case using history_step.IH(1) by (simp add: e advanced_sel(1)) }
  { case 2
    obtain ts r us q where "doc_snapshot d = (doc_snapshot d0)\<lparr>tiles := ts, snap_revision := r\<rparr>"
        "doc_snapshot d' = (doc_snapshot d)\<lparr>tiles := us, snap_revision := q\<rparr>"
      using history_step.IH(2) advanced_sel(2) [of H procs d a] unfolding e [symmetric] by blast
    then have "doc_snapshot d' = (doc_snapshot d0)\<lparr>tiles := us, snap_revision := q\<rparr>" by simp
    then show ?case by blast }
qed

lemma history_run [consumes 3, case_names start step]:
  assumes "digest32 H" "hashed H procs d0" "history H procs d0 as d"
    and start: "\<And>d. core d = core d0 \<Longrightarrow> P [] d"
    and step: "\<And>as d a d'. history H procs d0 as d \<Longrightarrow> P as d \<Longrightarrow> hashed H procs d \<Longrightarrow> admissible d a \<Longrightarrow>
      core d' = core (advanced H procs d a) \<Longrightarrow> P (as @ [a]) d'"
  shows "P as d"
  using assms(3)
proof induction
  case (history_start d)
  then show ?case by (rule start)
next
  case (history_step as d a d')
  have h: "hashed H procs d" by (rule history_hashed [OF assms(1,2) history_step.hyps(1)])
  show ?case
    using step [OF history_step.hyps(1) history_step.IH h] accepts_iff [OF h, of a d'] history_step.hyps(2) by simp
qed

lemma unat_add_of_nat: "unat (w::u64) + n < 2 ^ 64 \<Longrightarrow> unat (w + of_nat n) = unat w + n"
  by (simp add: unat_word_ariths unsigned_of_nat take_bit_nat_def)

lemma advanced_revision:
  "core d' = core (advanced H procs d a) \<Longrightarrow> snap_revision (doc_snapshot d') = snap_revision (doc_snapshot d) + 1"
  by (simp add: core_eq_iff advanced_sel(1))

lemma advanced_accepted:
  assumes "core d' = core (advanced H procs d a)" "admissible d a"
  shows "accepted d' = fmupd (op_id (acc_op a)) a (accepted d)"
    and "inverted d' = (case inverse_of (acc_op a) of None \<Rightarrow> inverted d | Some t \<Rightarrow> (inverted d)(t \<mapsto> op_id (acc_op a)))"
    and "hashes d' = (hashes d)(snap_revision (doc_snapshot d) + 1 \<mapsto> map_hash d')"
  using assms by (simp_all add: core_eq_iff advanced_sel admissible_def Let_def)

lemma history_revisions:
  assumes "digest32 H" "hashed H procs d0" "history H procs d0 as d"
  shows "map acc_revision as = map (\<lambda>k. snap_revision (doc_snapshot d0) + of_nat k + 1) [0..<length as]"
  using assms
proof (induction rule: history_run)
  case (step as d a d')
  have "acc_revision a = snap_revision (doc_snapshot d) + 1" using step.hyps(3) by (simp add: admissible_def Let_def)
  then show ?case using step.IH history_snapshot(1) [OF assms(1,2) step.hyps(1)] by simp
qed simp

lemma history_accepted:
  assumes "digest32 H" "hashed H procs d0" "history H procs d0 as d"
  shows "(fmlookup (accepted d) i = Some a \<longleftrightarrow>
      fmlookup (accepted d0) i = Some a \<or> (a \<in> set as \<and> op_id (acc_op a) = i)) \<and>
    distinct (map (\<lambda>b. op_id (acc_op b)) as) \<and> (\<forall>b\<in>set as. fmlookup (accepted d0) (op_id (acc_op b)) = None)"
  using assms
proof (induction arbitrary: i a rule: history_run)
  case (start d)
  then show ?case by (simp add: core_eq_iff)
next
  case (step as d b d')
  have f: "fmlookup (accepted d) (op_id (acc_op b)) = None" using step.hyps(3) by (simp add: admissible_def Let_def)
  then have f0: "fmlookup (accepted d0) (op_id (acc_op b)) = None" using step.IH by (metis not_Some_eq)
  have ne: "op_id (acc_op b) \<noteq> op_id (acc_op x)" if "x \<in> set as" for x
    using f that step.IH [of "op_id (acc_op x)" x] by auto
  have "distinct (map (\<lambda>b. op_id (acc_op b)) (as @ [b]))" using ne step.IH by (auto simp: image_iff)
  moreover have "\<forall>x\<in>set (as @ [b]). fmlookup (accepted d0) (op_id (acc_op x)) = None" using f0 step.IH by simp
  moreover have "fmlookup (accepted d') i = Some a \<longleftrightarrow>
      fmlookup (accepted d0) i = Some a \<or> (a \<in> set (as @ [b]) \<and> op_id (acc_op a) = i)"
    using step.IH [of i a] f f0 ne unfolding advanced_accepted(1) [OF step.hyps(4,3)] by (cases "i = op_id (acc_op b)") auto
  ultimately show ?case by blast
qed

text \<open>Retained hashes: a run adds one for each new revision and keeps the earlier ones.\<close>

definition retains :: "document \<Rightarrow> revision \<Rightarrow> bool" where
  "retains d first \<longleftrightarrow> first \<le> snap_revision (doc_snapshot d) \<and>
     (\<forall>r. hashes d r \<noteq> None \<longleftrightarrow> first \<le> r \<and> r \<le> snap_revision (doc_snapshot d)) \<and>
     (\<forall>r h. hashes d r = Some h \<longrightarrow> (\<forall>name. ValidateSHA256 name h = None))"

lemma word_range_succ: "(r::u64) + 1 \<noteq> 0 \<Longrightarrow> x \<le> r + 1 \<longleftrightarrow> x \<le> r \<or> x = r + 1"
proof -
  assume "r + 1 \<noteq> 0"
  then have "unat (r + 1) = unat r + 1"
    using unatSuc [of r] by (simp add: add.commute)
  then show ?thesis by (auto simp: word_le_nat_alt word_unat_eq_iff)
qed

lemma history_retains:
  assumes "digest32 H" "hashed H procs d0" "history H procs d0 as d"
    and "retains d0 first" "unat (snap_revision (doc_snapshot d0)) + length as < 2 ^ 64"
  shows "retains d first \<and> (\<forall>r \<le> snap_revision (doc_snapshot d0). hashes d r = hashes d0 r)"
  using assms
proof (induction rule: history_run)
  case (start d)
  then show ?case by (simp add: core_eq_iff retains_def)
next
  case (step as d a d')
  let ?r = "snap_revision (doc_snapshot d)"
  have r: "unat ?r = unat (snap_revision (doc_snapshot d0)) + length as"
    using step.prems(2) history_snapshot(1) [OF assms(1,2) step.hyps(1)] by (simp add: unat_add_of_nat)
  then have "unat (?r + 1) = unat ?r + 1" using step.prems(2) unat_add_of_nat [of ?r 1] by simp
  then have nz: "?r + 1 \<noteq> 0" and le: "snap_revision (doc_snapshot d0) \<le> ?r" "?r < ?r + 1"
    using r by (auto simp: word_le_nat_alt word_less_nat_alt)
  have "ValidateSHA256 name (map_hash d') = None" for name
    using step.hyps(4) digest_text(2) [OF assms(1)] hashed_facts(5) [OF admissible_hashed [OF assms(1) step.hyps(2,3)]]
    by (simp add: core_eq_iff)
  then show ?case
    using step.IH [OF step.prems(1)] step.prems(2) le nz
    unfolding retains_def advanced_accepted(3) [OF step.hyps(4,3)] advanced_revision [OF step.hyps(4)]
    by (auto simp: word_range_succ)
qed

lemma retains_new:
  assumes "digest32 H" "NewDocument H procs s = Inr d"
  shows "retains d (snap_revision s)"
  using NewDocument_ok [OF assms(2)] hashed_facts(5) [OF NewDocument_hashed [OF assms]] digest_text(2) [OF assms(1)]
  by (auto simp: retains_def)

lemma history_Cons_iff:
  assumes "digest32 H" "hashed H procs d0"
  shows "history H procs d0 (a # as) e \<longleftrightarrow> (\<exists>d. accepts H procs d0 a d \<and> history H procs d as e)"
proof
  assume "history H procs d0 (a # as) e"
  then obtain d where d: "history H procs d0 [a] d" "history H procs d as e"
    using history_append_iff [OF assms, of "[a]" as e] by auto
  then obtain c where c: "core c = core d0" "accepts H procs c a d"
    using history_snoc_iff [of H procs d0 "[]" a d] by (auto simp: history_Nil_iff)
  then have "hashed H procs c" using assms(2) hashed_core by blast
  then have "accepts H procs d0 a d" using accepts_core [of H procs c d0 d d a] c by simp
  then show "\<exists>d. accepts H procs d0 a d \<and> history H procs d as e" using d(2) by blast
next
  assume "\<exists>d. accepts H procs d0 a d \<and> history H procs d as e"
  then obtain d where d: "accepts H procs d0 a d" "history H procs d as e" by blast
  have "history H procs d0 [a] d" using d(1) history_snoc_iff [of H procs d0 "[]" a d] by (auto simp: history_Nil_iff)
  then show "history H procs d0 (a # as) e" using d(2) history_append_iff [OF assms, of "[a]" as e] by auto
qed

lemma history_unat:
  assumes "digest32 H" "hashed H procs d0" "history H procs d0 as d"
    "unat (snap_revision (doc_snapshot d0)) + length as < 2 ^ 64"
  shows "unat (snap_revision (doc_snapshot d)) = unat (snap_revision (doc_snapshot d0)) + length as"
  using history_snapshot(1) [OF assms(1-3)] assms(4) by (simp add: unat_add_of_nat)

lemma accepts_facts:
  assumes "digest32 H" "hashed H procs d" "accepts H procs d a d'"
  shows "admissible d a" "core d' = core (advanced H procs d a)" "hashed H procs d'"
    "acc_revision a = snap_revision (doc_snapshot d) + 1" "snap_revision (doc_snapshot d') = acc_revision a"
    "accepted d' = fmupd (op_id (acc_op a)) a (accepted d)"
    "inverted d' = (case inverse_of (acc_op a) of None \<Rightarrow> inverted d | Some t \<Rightarrow> (inverted d)(t \<mapsto> op_id (acc_op a)))"
    "hashes d' = (hashes d)(acc_revision a \<mapsto> map_hash d')" "op_document (acc_op a) = snap_document (doc_snapshot d)"
    "fmlookup (accepted d) (op_id (acc_op a)) = None"
proof -
  show adm: "admissible d a" and c: "core d' = core (advanced H procs d a)" using accepts_iff [OF assms(2)] assms(3) by blast+
  show "hashed H procs d'" by (rule accepts_hashed [OF assms])
  show r: "acc_revision a = snap_revision (doc_snapshot d) + 1" and "op_document (acc_op a) = snap_document (doc_snapshot d)"
    "fmlookup (accepted d) (op_id (acc_op a)) = None" using adm by (simp_all add: admissible_def Let_def)
  show "snap_revision (doc_snapshot d') = acc_revision a" using advanced_revision [OF c] r by simp
  show "accepted d' = fmupd (op_id (acc_op a)) a (accepted d)"
    "inverted d' = (case inverse_of (acc_op a) of None \<Rightarrow> inverted d | Some t \<Rightarrow> (inverted d)(t \<mapsto> op_id (acc_op a)))"
    "hashes d' = (hashes d)(acc_revision a \<mapsto> map_hash d')"
    using advanced_accepted [OF c adm] r by simp_all
qed

end
