(* ===== verification/Engine_Props.thy ===== *)
theory Engine_Props
  imports Tile_Store Document_Replay
begin

text \<open>
  The properties of the operation engine, stated over every reachable document.
\<close>

section \<open>Shared facts\<close>

lemma guard_check_simps [simp]:
  "guard False e = Inr ()" "guard True e = Inl e" "check None w = Inr ()" "check (Some x) w = Inl (w x)"
  by (simp_all add: guard_def check_def)

lemma unat_next_revision:
  fixes w :: u64
  assumes "w \<noteq> - 1"
  shows "unat (w + 1) = unat w + 1"
proof -
  have "unat w \<noteq> 2 ^ 64 - 1" using assms unat_max word_unat_eq_iff by metis
  moreover have "unat w < 2 ^ 64" using unsigned_less [of w, where ?'a = nat] by simp
  ultimately have "unat w + 1 < 2 ^ 64" by linarith
  then show ?thesis by (simp add: unat_word_ariths)
qed

lemma change_table_sort: "distinct (map ch_coord chs) \<Longrightarrow> change_table (sort_changes chs) = change_table chs"
proof -
  assume d: "distinct (map ch_coord chs)"
  have "change_table (sort_changes chs) c = Some st \<longleftrightarrow> change_table chs c = Some st" for c st
    using d by (simp add: change_table_Some_iff distinct_sort_changes' set_sort_changes)
  then show ?thesis by (metis ext not_None_eq)
qed

lemma apply_view_sort: "changes_ok s (sort_changes chs) \<Longrightarrow> apply_view (sort_changes chs) m = apply_view chs m"
  using changes_okD(1) [of s "sort_changes chs"]
  by (auto simp: apply_view_def distinct_sort_changes' change_table_sort fun_eq_iff)

lemma Snapshot_Hash_full: "snapshot_ok s \<Longrightarrow> Snapshot_Hash H procs s = Inr (h_digest (newCanonicalHasher H procs s))"
  by (simp add: Snapshot_Hash_def Snapshot_Validate_iff [THEN iffD2])

lemma Document_Tile_current: "Document_Tile d c = current_state d c"
  by (simp add: Document_Tile_def current_state_def split: option.splits)

section \<open>Invariant\<close>

text \<open>C2: every reachable document holds a valid snapshot; reading a tile through its index gives the
  tile of that snapshot; the identity owners name exactly the tile that holds each stable id; and a
  hash reported as available is the full hash of the current snapshot.\<close>

theorem reachable_invariant:
  assumes "reachable H procs d"
  shows "Snapshot_Validate (doc_snapshot d) = None \<and>
    (\<forall>c. tile_view (Document_Tile d c) = map_view (doc_snapshot d) c) \<and>
    (\<forall>i c. identity_owners d i = Some c \<longleftrightarrow> i \<in> fst ` set (map_view (doc_snapshot d) c)) \<and>
    (snd (CachedHash d) \<longrightarrow> Snapshot_Hash H procs (doc_snapshot d) = Inr (fst (CachedHash d)))"
proof -
  have ok: "doc_ok H procs d" using reachable_ok [OF assms] by blast
  note okd = doc_okD [OF ok]
  have "identity_owners d i = Some c \<longleftrightarrow> i \<in> fst ` set (map_view (doc_snapshot d) c)" for i c
    using okd(3) by (cases "tile_table (tiles (doc_snapshot d)) c") (simp_all add: owners_ok_def map_view_def tile_ids_view)
  then show ?thesis
    using ok okd Snapshot_Hash_full [OF okd(1), of H procs] current_view [OF okd(2,4)]
    by (simp add: Snapshot_Validate_iff Document_Tile_current CachedHash_def doc_ok_def)
qed

section \<open>Wire operations\<close>

text \<open>C1: the outcome of a submitted operation. An acceptance under a new identity satisfies the change
  specification, advances the revision by one (modulo 2 to the 64), overrides the map by exactly its
  changes, and publishes the full hash of the new map; a repeated identity answers with the recorded
  acceptance and changes nothing; an error leaves map and history as they were.\<close>

theorem ApplyContext_outcome:
  assumes "reachable H procs d"
  shows "case ApplyContext H procs c op at d of
      (Inr acc, d') \<Rightarrow>
        (case fmlookup (accepted d) (op_id op) of
           Some a \<Rightarrow> acc = a \<and> SameOperation (acc_op a) op \<and> doc_snapshot d' = doc_snapshot d \<and>
             accepted d' = accepted d \<and> inverted d' = inverted d
         | None \<Rightarrow>
             changes_ok (doc_snapshot d) (sort_changes (changes op)) \<and>
             acc = \<lparr>acc_op = op\<lparr>changes := sort_changes (changes op)\<rparr>,
                    acc_revision = snap_revision (doc_snapshot d) + 1, accepted_at = at\<rparr> \<and>
             snap_revision (doc_snapshot d') = snap_revision (doc_snapshot d) + 1 \<and>
             map_view (doc_snapshot d') = apply_view (changes op) (map_view (doc_snapshot d)) \<and>
             Snapshot_Hash H procs (doc_snapshot d') = Inr (map_hash d') \<and>
             accepted d' = fmupd (op_id op) acc (accepted d))
    | (Inl e, d') \<Rightarrow> doc_snapshot d' = doc_snapshot d \<and> accepted d' = accepted d \<and> inverted d' = inverted d"
proof (cases "ApplyContext H procs c op at d")
  case (Pair r d')
  have ok: "doc_ok H procs d" using reachable_ok [OF assms] by blast
  show ?thesis
  proof (cases r)
    case (Inl e)
    then show ?thesis using apply_error [OF ok, of c op at e d'] Pair by auto
  next
    case (Inr acc)
    show ?thesis
    proof (cases "fmlookup (accepted d) (op_id op)")
      case None
      note new = apply_new [OF ok Pair [unfolded Inr] None]
      obtain sh si where d': "d' = applied H procs (sort_changes (changes op)) op at (hashed_doc H procs d) sh si"
        using new(6) by blast
      note w = rewritten_ok [OF doc_okD(1,2) [OF ok] new(1)]
      show ?thesis
        using new(1,5) None w(1,4) Snapshot_Hash_full apply_view_sort [OF new(1)] unfolding Pair Inr by (simp add: d')
    next
      case (Some a)
      then show ?thesis using apply_repeat [OF ok Some, of c at] Pair Inr by (auto split: sum.splits if_splits)
    qed
  qed
qed

text \<open>C14: cancellation is all or nothing. Whatever reads of the context observe a cancellation, either
  the call reports it with map and history untouched, or the call ends exactly as it would with a
  context that is never cancelled.\<close>

theorem ApplyContext_cancellation:
  assumes "reachable H procs d"
  shows "(\<exists>d'. ApplyContext H procs c op at d = (Inl Canceled, d') \<and> doc_snapshot d' = doc_snapshot d \<and>
      accepted d' = accepted d \<and> inverted d' = inverted d) \<or>
    ApplyContext H procs c op at d = Apply H procs op at d"
proof -
  have ok: "doc_ok H procs d" using reachable_ok [OF assms] by blast
  note eh = ensureHash_ok(1) [OF ok]
  show ?thesis
  proof (cases "poll c")
    case (Inl e)
    then show ?thesis by (cases "ctx_poll c") (simp_all add: ApplyContext_def poll_def)
  next
    case (Inr c1)
    let ?d = "hashed_doc H procs d"
    have "follows (\<lambda>y. y) (apply_hashed H procs c1 op at ?d) (apply_hashed H procs Background op at ?d)"
    proof (cases "fmlookup (accepted ?d) (op_id op)")
      case None
      show ?thesis
        unfolding apply_hashed_def None option.case
        by (intro follows_same follows_bind [OF follows_validate])
          (auto simp: bg_def intro!: follows_poll follows_refl split: prod.splits)
    next
      case (Some a)
      show ?thesis unfolding apply_hashed_def Some option.case by (rule follows_refl)
    qed
    then show ?thesis
      using eh Inr by (auto simp: follows_def ApplyContext_def Apply_def sum.map_ident split: sum.splits)
  qed
qed

lemma step_keeps_accepted:
  assumes "doc_step H procs d d'" "doc_ok H procs d" "fmlookup (accepted d) i = Some a"
  shows "fmlookup (accepted d') i = Some a \<and> snap_document (doc_snapshot d') = snap_document (doc_snapshot d)"
  using assms(1)
proof cases
  case (step_apply c op at)
  show ?thesis
  proof (cases "ApplyContext H procs c op at d")
    case (Pair r d1)
    show ?thesis
    proof (cases "fmlookup (accepted d) (op_id op)")
      case None
      then have "i \<noteq> op_id op" using assms(3) by auto
      then show ?thesis
        using apply_new(6) [OF assms(2) _ None, of c at _ d1] apply_error [OF assms(2), of c op at _ d1] Pair assms(3) step_apply
        by (cases r) auto
    next
      case (Some b)
      then show ?thesis using apply_repeat [OF assms(2) Some, of c at] assms(3) step_apply by (auto split: sum.splits)
    qed
  qed
next
  case (step_local loads self c request)
  show ?thesis
  proof (cases "ApplyLocal loads self c request d")
    case (Pair r d1)
    then show ?thesis
      using ApplyLocal_error [of loads self c request d _ d1] ApplyLocal_result(4) [OF assms(2), of loads self c request _ d1]
        assms(3) step_local by (cases r) (auto split: if_splits)
  qed
next
  case (step_inverse c actor target inverse_id)
  then show ?thesis using assms(3) ensureHash_ok(1) [OF assms(2)] by (auto simp: BuildInverseContext_def split: sum.splits)
next
  case step_metadata
  then show ?thesis using assms(3) ensureHash_ok(1) [OF assms(2)] by (simp add: Metadata_def)
qed (use assms(3) in \<open>auto simp: Document_Clone_def share_tables_def CaptureSnapshot_def CaptureTiles_def
    CaptureScopedTiles_def Let_def split: option.splits\<close>)

lemma steps_keep_accepted:
  "(doc_step H procs)\<^sup>*\<^sup>* d d' \<Longrightarrow> reachable H procs d \<Longrightarrow> fmlookup (accepted d) i = Some a \<Longrightarrow>
     reachable H procs d' \<and> fmlookup (accepted d') i = Some a \<and>
     snap_document (doc_snapshot d') = snap_document (doc_snapshot d)"
proof (induction rule: rtranclp_induct)
  case (step e e')
  then have e: "reachable H procs e" "fmlookup (accepted e) i = Some a"
      "snap_document (doc_snapshot e) = snap_document (doc_snapshot d)" by simp_all
  then show ?case
    using step(2) step_keeps_accepted [of H procs e e' i a] reachable_ok [of H procs e] reach_step [of H procs e e'] by simp
qed simp

text \<open>C10: once accepted, an operation keeps its record through every later step, and a client that
  repeats the submission gets that record back while nothing but the cached hash can change.\<close>

theorem Apply_retry:
  assumes "reachable H procs d" "Apply H procs op at d = (Inr acc, d1)" "(doc_step H procs)\<^sup>*\<^sup>* d1 d2"
  shows "fst (Apply H procs op at' d2) = Inr acc \<and>
    doc_snapshot (snd (Apply H procs op at' d2)) = doc_snapshot d2 \<and> accepted (snd (Apply H procs op at' d2)) = accepted d2"
proof -
  have ok: "doc_ok H procs d" using reachable_ok [OF assms(1)] by blast
  have r1: "reachable H procs d1"
    using reach_step [OF assms(1) step_apply [of H procs d Background op at]] assms(2) by (simp add: Apply_def)
  have acc: "fmlookup (accepted d1) (op_id op) = Some acc \<and> SameOperation (acc_op acc) op \<and>
      op_document op = snap_document (doc_snapshot d1)"
  proof (cases "fmlookup (accepted d) (op_id op)")
    case None
    note new = apply_new [OF ok assms(2) [unfolded Apply_def] None]
    have "SameOperation (op\<lparr>changes := sort_changes (changes op)\<rparr>) op"
      by (simp add: SameOperation_views)
    then show ?thesis using new(2,5,6) by auto
  next
    case (Some a)
    then show ?thesis using apply_repeat [OF ok Some, of Background at] assms(2)
      by (auto simp: Apply_def split: if_splits)
  qed
  note later = steps_keep_accepted [OF assms(3) r1 acc [THEN conjunct1]]
  show ?thesis
    using apply_repeat [of H procs d2 op acc Background at'] later reachable_ok [of H procs d2] acc
    by (simp add: Apply_def)
qed

section \<open>Inverses\<close>

text \<open>C13: an accepted operation is inverted at most once, only by its own author and only if it is
  itself a forward edit, and the inverse reverses it change by change.\<close>

theorem inverse_unique_own:
  assumes "reachable H procs d" "fmlookup (accepted d) i = Some a" "inverse_of (acc_op a) = Some t"
  shows "(\<exists>ta. fmlookup (accepted d) t = Some ta \<and> op_actor (acc_op ta) = op_actor (acc_op a) \<and>
      op_kind (acc_op ta) \<noteq> InverseKind \<and> reverses (changes (acc_op a)) (changes (acc_op ta))) \<and>
    (\<forall>j b. fmlookup (accepted d) j = Some b \<longrightarrow> inverse_of (acc_op b) = Some t \<longrightarrow> j = i)"
proof -
  have hist: "hist_ok d" using reachable_ok [OF assms(1)] by blast
  have "inverse_ok d t a" using hist assms(2,3) unfolding hist_ok_def by blast
  moreover have "j = i" if "fmlookup (accepted d) j = Some b" "inverse_of (acc_op b) = Some t" for j b
  proof -
    have "inverted d t = Some j" "inverted d t = Some i" using hist that assms(2,3) unfolding hist_ok_def by blast+
    then show ?thesis by simp
  qed
  ultimately show ?thesis unfolding inverse_ok_def by blast
qed

lemma digest_valid: "digest32 H \<Longrightarrow> ValidateSHA256 name (h_digest (newCanonicalHasher H procs s)) = None"
  by (simp add: full_digest mapDigest_def Let_def digest32_def ValidateSHA256_encode)

lemma inverse_changes_Background:
  "\<forall>ch\<in>set chs. tile_view (current_state d (ch_coord ch)) = tile_view (after ch) \<Longrightarrow>
     inverse_changes d Background chs = Inr (undo_changes chs)"
  by (induction chs) (simp_all add: TileState_Equal_view undo_changes_def undo_change_def guard_def)

lemma same_inverse_undo: "same_inverse d Background (undo_changes chs) chs = Inr Background"
  by (induction chs) (simp_all add: undo_changes_def TileState_Equal_view guard_def)

lemma sort_undo: "sort_changes chs = chs \<Longrightarrow> sort_changes (undo_changes chs) = undo_changes chs"
proof -
  assume "sort_changes chs = chs"
  then have "sorted (map ch_coord chs)" using sorted_sort_key [of ch_coord chs] by (simp add: sort_changes_def)
  then have "sorted (map ch_coord (undo_changes chs))" by simp
  then show ?thesis by (simp only: sort_changes_def sort_key_id_if_sorted)
qed

definition undo_operation :: "document \<Rightarrow> operation \<Rightarrow> operation_id \<Rightarrow> operation" where
  "undo_operation d op inverse_id =
     \<lparr>op_protocol = ProtocolVersion, op_document = snap_document (doc_snapshot d), op_actor = op_actor op,
      op_id = inverse_id, base_revision = snap_revision (doc_snapshot d),
      op_environment = environment_hash (doc_snapshot d), base_map_hash = map_hash d,
      op_kind = InverseKind, changes = undo_changes (changes op), inverse_of = Some (op_id op)\<rparr>"

lemma BuildInverse_undo:
  assumes "doc_ok H procs d" "fmlookup (accepted d) (op_id op) = Some a" "acc_op a = op"
    "inverted d (op_id op) = None" "op_kind op \<noteq> InverseKind"
    "ActorID_Validate (op_actor op) = None" "OperationID_Validate inverse_id = None"
    "\<forall>ch\<in>set (changes op). map_view (doc_snapshot d) (ch_coord ch) = tile_view (after ch)"
  shows "BuildInverse H procs (op_actor op) (op_id op) inverse_id d =
    (Inr (undo_operation (hashed_doc H procs d) op inverse_id), hashed_doc H procs d)"
  using assms(2-8) ensureHash_ok(1) [OF assms(1)] current_view [OF doc_okD(2,4) [OF assms(1)]]
    inverse_changes_Background [of "changes op" "hashed_doc H procs d"]
  by (simp add: BuildInverse_def BuildInverseContext_def build_inverse_def undo_operation_def)

lemma undo_header:
  assumes "doc_ok H procs d" "hist_ok d" "digest32 H" "ActorID_Validate (op_actor op) = None"
    "OperationID_Validate inverse_id = None" "OperationID_Validate (op_id op) = None"
    "changes_ok (doc_snapshot d) (undo_changes (changes op))"
  shows "validate_header (hashed_doc H procs d) (undo_operation (hashed_doc H procs d) op inverse_id) = Inr ()"
proof -
  let ?d = "hashed_doc H procs d"
  note ok = ensureHash_ok [OF assms(1)]
  have "hashes ?d (snap_revision (doc_snapshot d)) = Some (map_hash ?d)"
    using hashed_doc_hist [OF assms(2), of H procs] ok(4) digest_nonempty [OF assms(3)] by (simp add: hist_ok_def)
  moreover have "ValidateSHA256 ''environment hash'' (environment_hash (doc_snapshot d)) = None"
    using doc_okD(1) [OF assms(1)] by (simp add: snapshot_ok_def header_ok_def)
  moreover have "count_ok (doc_snapshot d) (undo_changes (changes op))"
    using assms(7) by (simp add: changes_ok_def)
  ultimately show ?thesis
    using assms(4-6) digest_valid [OF assms(3)] ok(4)
    by (simp add: validate_header_def undo_operation_def)
qed


lemma hasher_views_cong:
  assumes "max_x s = max_x u" "max_y s = max_y u" "max_z s = max_z u"
    and "map (\<lambda>t. (tile_coord t, tile_view (tile_st t))) (tiles s) = map (\<lambda>t. (tile_coord t, tile_view (tile_st t))) (tiles u)"
  shows "newCanonicalHasher H procs s = newCanonicalHasher H procs u"
proof -
  let ?g = "\<lambda>t. (tile_coord t, tile_view (tile_st t))"
  have sort: "map ?g (sort_key tile_coord ts) = sort_key fst (map ?g ts)" for ts
  proof -
    have ins: "map ?g (insort_key tile_coord t xs) = insort_key fst (?g t) (map ?g xs)" for t xs
      by (induction xs) simp_all
    show ?thesis by (induction ts) (simp_all add: ins)
  qed
  have g: "map ?g (canonicalTiles s) = map ?g (canonicalTiles u)"
    unfolding canonicalTiles_def sort assms(4) ..
  have "map tile_coord (canonicalTiles s) = map tile_coord (canonicalTiles u)"
    using arg_cong [OF g, of "map fst"] by (simp add: comp_def)
  moreover have "map (tile_digest H) (canonicalTiles s) = map (tile_digest H) (canonicalTiles u)"
    using arg_cong [OF g, of "map (\<lambda>cv. H (tile_enc (fst cv) (snd cv)))"] by (simp add: comp_def tile_digest_enc [abs_def])
  moreover have "length (canonicalTiles s) = length (canonicalTiles u)"
    using g by (rule map_eq_imp_length_eq)
  ultimately show ?thesis using assms(1-3) by (simp add: newCanonicalHasher_def Let_def)
qed

lemma undo_view_restores:
  assumes "snapshot_ok s" "indexes_ok (tiles s) m" "changes_ok s chs"
  shows "map_view (rewritten (rewritten s m chs r) (grow_indexes chs (length (tiles s)) m) (undo_changes chs) r') = map_view s"
proof -
  let ?s1 = "rewritten s m chs r"
  note w1 = rewritten_ok [OF assms]
  have ok1: "snapshot_ok ?s1" "indexes_ok (tiles ?s1) (grow_indexes chs (length (tiles s)) m)" "changes_ok ?s1 (undo_changes chs)"
    using w1 undo_changes_ok [OF assms] by simp_all
  have "apply_view (undo_changes chs) (apply_view chs (map_view s)) c = map_view s c" for c
  proof (cases "c \<in> ch_coord ` set chs")
    case True
    then obtain ch where ch: "ch \<in> set chs" "c = ch_coord ch" by auto
    then have "undo_change ch \<in> set (undo_changes chs)" by simp
    from apply_view_at [OF changes_okD(1) [OF ok1(3)] this] show ?thesis
      using changes_okD(4) [OF assms(3) ch(1)] ch(2) by simp
  next
    case False
    then show ?thesis by (simp add: apply_view_other image_image)
  qed
  then show ?thesis unfolding rewritten_ok(4) [OF ok1] w1(4) by (rule ext)
qed

text \<open>If every changed coordinate was present, the tile list after an undo has the same
  coordinates in the same order.\<close>

lemma undo_same_tiles:
  fixes r r' :: revision
  assumes "snapshot_ok s" "indexes_ok (tiles s) m" "changes_ok s chs"
    "\<forall>ch\<in>set chs. ch_coord ch \<in> tile_coord ` set (tiles s)"
  defines "s1 \<equiv> rewritten s m chs r" and "m1 \<equiv> grow_indexes chs (length (tiles s)) m"
  defines "s2 \<equiv> rewritten s1 m1 (undo_changes chs) r'"
  shows "newCanonicalHasher H procs s2 = newCanonicalHasher H procs s"
proof (rule hasher_views_cong)
  note w1 = rewritten_ok [OF assms(1-3)]
  have ok1: "snapshot_ok s1" "indexes_ok (tiles s1) m1" "changes_ok s1 (undo_changes chs)"
    using w1 undo_changes_ok [OF assms(1-3)] by (simp_all add: s1_def m1_def)
  note w2 = rewritten_ok [OF ok1]
  have present: "new_coords m chs = []"
    using assms(4) cons_coords [OF assms(2)] by (auto simp: new_coords_def filter_empty_conv)
  have d: "distinct (map tile_coord (tiles s))" using assms(1) by (simp add: snapshot_ok_def)
  have c1: "map tile_coord (tiles s1) = map tile_coord (tiles s)"
    using write_tiles_spec [OF fits_indexes [OF assms(2) d changes_okD(1) [OF assms(3)]]] present by (simp add: s1_def)
  have d1: "distinct (map tile_coord (tiles s1))" using c1 d by simp
  have in1: "ch_coord ch \<in> tile_coord ` set (tiles s1)" if "ch \<in> set chs" for ch
    using assms(4) that arg_cong [OF c1, of set] by simp
  then have "new_coords m1 (undo_changes chs) = []"
    using cons_coords [OF ok1(2)] by (auto simp: new_coords_def filter_empty_conv)
  then have c2: "map tile_coord (tiles s2) = map tile_coord (tiles s)"
    using write_tiles_spec [OF fits_indexes [OF ok1(2) d1 changes_okD(1) [OF ok1(3)]]] c1 by (simp add: s2_def)
  have v: "map_view s2 = map_view s"
    unfolding s2_def s1_def m1_def by (rule undo_view_restores [OF assms(1-3)])
  have d2: "distinct (map tile_coord (tiles s2))" using c2 d by simp
  have view: "map (\<lambda>t. (tile_coord t, tile_view (tile_st t))) (tiles x) = map (\<lambda>c. (c, map_view x c)) (map tile_coord (tiles x))"
    if "distinct (map tile_coord (tiles x))" for x
  proof -
    have "tile_table (tiles x) (tile_coord t) = Some (tile_st t)" if "t \<in> set (tiles x)" for t
      using tile_table_Some_iff [OF \<open>distinct (map tile_coord (tiles x))\<close>] that by blast
    then show ?thesis by (simp add: map_view_def)
  qed
  show "map (\<lambda>t. (tile_coord t, tile_view (tile_st t))) (tiles s2) = map (\<lambda>t. (tile_coord t, tile_view (tile_st t))) (tiles s)"
    unfolding view [OF d] view [OF d2] c2 v ..
qed (simp_all add: s1_def s2_def)

text \<open>The document right after a forward operation was accepted.\<close>

lemma forward_applied:
  assumes "reachable H procs d" "fmlookup (accepted d) (op_id op) = None" "op_kind op = TileChangeKind"
    and "Apply H procs op at d = (Inr acc, d1)"
  defines "chs \<equiv> sort_changes (changes op)"
  shows "reachable H procs d1" "changes_ok (doc_snapshot d) chs"
    "doc_snapshot d1 = rewritten (doc_snapshot d) (tile_indexes d) chs (snap_revision (doc_snapshot d) + 1)"
    "tile_indexes d1 = grow_indexes chs (length (tiles (doc_snapshot d))) (tile_indexes d)"
    "fmlookup (accepted d1) (op_id op) = Some acc" "acc_op acc = op\<lparr>changes := chs\<rparr>" "inverted d1 (op_id op) = None"
    "\<And>i. i \<noteq> op_id op \<Longrightarrow> fmlookup (accepted d1) i = fmlookup (accepted d) i"
    "ActorID_Validate (op_actor op) = None" "OperationID_Validate (op_id op) = None"
proof -
  have ok: "doc_ok H procs d" "hist_ok d" using reachable_ok [OF assms(1)] by auto
  note new = apply_new [OF ok(1) assms(4) [unfolded Apply_def] assms(2), folded chs_def]
  obtain sh si where d1: "d1 = applied H procs chs op at (hashed_doc H procs d) sh si" using new(6) by blast
  show "reachable H procs d1"
    using reach_step [OF assms(1) step_apply [of H procs d Background op at]] assms(4) by (simp add: Apply_def)
  have hdr: "ActorID_Validate (op_actor op) = None" "OperationID_Validate (op_id op) = None" "inverse_of op = None"
    using new(3) assms(3) by (auto simp: validate_header_def sum_bind_Inr_iff split: option.splits)
  have "inverted d (op_id op) = None"
    using ok(2) assms(2) unfolding hist_ok_def inverse_ok_def by (metis not_None_eq)
  then show "inverted d1 (op_id op) = None" by (simp add: d1 hdr)
  show "changes_ok (doc_snapshot d) chs"
    "doc_snapshot d1 = rewritten (doc_snapshot d) (tile_indexes d) chs (snap_revision (doc_snapshot d) + 1)"
    "tile_indexes d1 = grow_indexes chs (length (tiles (doc_snapshot d))) (tile_indexes d)"
    "fmlookup (accepted d1) (op_id op) = Some acc" "acc_op acc = op\<lparr>changes := chs\<rparr>"
    "\<And>i. i \<noteq> op_id op \<Longrightarrow> fmlookup (accepted d1) i = fmlookup (accepted d) i"
    "ActorID_Validate (op_actor op) = None" "OperationID_Validate (op_id op) = None"
    using new hdr by (simp_all add: d1)
qed

text \<open>An inverse built right away is accepted.\<close>

lemma undo_accepted:
  assumes "reachable H procs d" "digest32 H" "fmlookup (accepted d) (op_id op) = Some a" "acc_op a = op"
    "inverted d (op_id op) = None" "op_kind op = TileChangeKind" "ActorID_Validate (op_actor op) = None"
    "OperationID_Validate (op_id op) = None" "OperationID_Validate inverse_id = None"
    "fmlookup (accepted d) inverse_id = None" "sort_changes (changes op) = changes op"
    "changes_ok (doc_snapshot d) (undo_changes (changes op))"
  shows "\<exists>undo d1 acc sh si. BuildInverse H procs (op_actor op) (op_id op) inverse_id d = (Inr undo, d1) \<and>
    Apply H procs undo at d1 = (Inr acc, applied H procs (undo_changes (changes op)) undo at d1 sh si) \<and>
    d1 = hashed_doc H procs d \<and> op_id undo = inverse_id \<and> inverse_of undo = Some (op_id op)"
proof -
  have ok: "doc_ok H procs d" "hist_ok d" using reachable_ok [OF assms(1)] by auto
  let ?d = "hashed_doc H procs d"
  define undo where "undo = undo_operation ?d op inverse_id"
  have "\<forall>ch\<in>set (changes op). map_view (doc_snapshot d) (ch_coord ch) = tile_view (after ch)"
    using changes_okD(4) [OF assms(12), of "undo_change ch" for ch] by fastforce
  then have build: "BuildInverse H procs (op_actor op) (op_id op) inverse_id d = (Inr undo, ?d)"
    using BuildInverse_undo [OF ok(1) assms(3,4)] assms(5-9) by (simp add: undo_def)
  have ok2: "doc_ok H procs ?d" using ensureHash_ok(2) [OF ok(1)] .
  have hh: "hashed_doc H procs ?d = ?d"
    using ensureHash_ok(4) [OF ok(1)] digest_nonempty [OF assms(2)] by (simp add: hashed_doc_def)
  have sorted: "sort_changes (changes undo) = undo_changes (changes op)"
    using assms(11) by (simp add: undo_def undo_operation_def sort_undo)
  have header: "validate_header ?d undo = Inr ()"
    using undo_header [OF ok assms(2)] assms(7-9,12) by (simp add: undo_def)
  have inverse: "validateInverseContext ?d Background (undo\<lparr>changes := sort_changes (changes undo)\<rparr>) = Inr Background"
    using assms(3-6) same_inverse_undo [of ?d "changes op"]
    by (simp add: validateInverseContext_def sorted) (simp add: undo_def undo_operation_def)
  have fresh: "fmlookup (accepted ?d) (op_id undo) = None" using assms(10) by (simp add: undo_def undo_operation_def)
  obtain acc d3 where acc: "Apply H procs undo at ?d = (Inr acc, d3)"
    using apply_accepts [OF ok2 fresh, of at] header inverse assms(12) unfolding hh sorted
    by (auto simp: undo_def undo_operation_def)
  then show ?thesis
    using apply_new(6) [OF ok2 acc [unfolded Apply_def] fresh] build unfolding hh sorted
    by (auto simp: undo_def undo_operation_def)
qed

text \<open>C6: undo. Right after a forward operation is accepted, its author can always build the inverse,
  the inverse is always accepted, and the map then reads exactly as before; if the operation created no
  tile, the map hash is the one from before too. The revision counts both operations.\<close>

theorem undo_restores:
  assumes "reachable H procs d" "digest32 H"
    and "fmlookup (accepted d) (op_id op) = None" "op_kind op = TileChangeKind"
    and "OperationID_Validate inverse_id = None" "fmlookup (accepted d) inverse_id = None" "inverse_id \<noteq> op_id op"
    and "Apply H procs op at d = (Inr acc, d1)"
  shows "\<exists>undo d2 acc2 d3. BuildInverse H procs (op_actor op) (op_id op) inverse_id d1 = (Inr undo, d2) \<and>
    Apply H procs undo at' d2 = (Inr acc2, d3) \<and>
    map_view (doc_snapshot d3) = map_view (doc_snapshot d) \<and>
    snap_revision (doc_snapshot d3) = snap_revision (doc_snapshot d) + 2 \<and>
    ((\<forall>ch\<in>set (changes op). ch_coord ch \<in> tile_coord ` set (tiles (doc_snapshot d))) \<longrightarrow>
       Snapshot_Hash H procs (doc_snapshot d) = Inr (map_hash d3))"
proof -
  let ?chs = "sort_changes (changes op)"
  have ok: "doc_ok H procs d" using reachable_ok [OF assms(1)] by auto
  note okd = doc_okD [OF ok]
  note f = forward_applied [OF assms(1,3,4,8)]
  have undo_ok: "changes_ok (doc_snapshot d1) (undo_changes ?chs)"
    unfolding f(3) by (rule undo_changes_ok [OF okd(1,2) f(2)])
  define op1 where "op1 = op\<lparr>changes := ?chs\<rparr>"
  obtain undo acc2 sh si where u:
    "BuildInverse H procs (op_actor op) (op_id op) inverse_id d1 = (Inr undo, hashed_doc H procs d1)"
    "Apply H procs undo at' (hashed_doc H procs d1) =
       (Inr acc2, applied H procs (undo_changes ?chs) undo at' (hashed_doc H procs d1) sh si)"
    using undo_accepted [OF f(1) assms(2), of op1 acc inverse_id at'] f(5-10) assms(4-7) undo_ok
    by (auto simp: op1_def)
  let ?d3 = "applied H procs (undo_changes ?chs) undo at' (hashed_doc H procs d1) sh si"
  have snap: "doc_snapshot ?d3 = rewritten (rewritten (doc_snapshot d) (tile_indexes d) ?chs (snap_revision (doc_snapshot d) + 1))
      (grow_indexes ?chs (length (tiles (doc_snapshot d))) (tile_indexes d)) (undo_changes ?chs) (snap_revision (doc_snapshot d) + 2)"
    by (simp add: f(3,4) add.assoc)
  have "map_hash ?d3 = h_digest (newCanonicalHasher H procs (doc_snapshot ?d3))" by simp
  moreover have "newCanonicalHasher H procs (doc_snapshot ?d3) = newCanonicalHasher H procs (doc_snapshot d)"
    if "\<forall>ch\<in>set (changes op). ch_coord ch \<in> tile_coord ` set (tiles (doc_snapshot d))"
    unfolding snap using that by (intro undo_same_tiles okd(1,2) f(2)) (simp add: set_sort_changes)
  moreover have "map_view (doc_snapshot ?d3) = map_view (doc_snapshot d)"
    unfolding snap by (rule undo_view_restores [OF okd(1,2) f(2)])
  moreover have "snap_revision (doc_snapshot ?d3) = snap_revision (doc_snapshot d) + 2" unfolding snap by simp
  ultimately show ?thesis
    using u Snapshot_Hash_full [OF okd(1), of H procs]
    by (intro exI [of _ undo] exI [of _ "hashed_doc H procs d1"] exI [of _ acc2] exI [of _ ?d3])
      (simp del: applied_sel)
qed

section \<open>Owner edits\<close>

text \<open>C15: an owner edit goes through only with the document's own current version token on an unshared
  document; then the map is overridden by exactly the requested changes, the acceptance lists the changes
  that differ, and either nothing differs and nothing changes, or the revision advances by one without
  wrapping and the stale hash is no longer reported. A refused edit changes nothing.\<close>

theorem ApplyLocal_outcome:
  assumes "reachable H procs d"
  shows "case ApplyLocal loads self c request d of
      (Inr a, d') \<Rightarrow>
        unshared d \<and> lr_version request = LocalVersion self d \<and>
        changes_ok (doc_snapshot d) (sort_changes (lr_changes request)) \<and>
        map_view (doc_snapshot d') = apply_view (lr_changes request) (map_view (doc_snapshot d)) \<and>
        la_changes a = real_changes (sort_changes (lr_changes request)) \<and>
        la_revision a = snap_revision (doc_snapshot d') \<and>
        (if la_changes a = [] then d' = d
         else unat (snap_revision (doc_snapshot d')) = unat (snap_revision (doc_snapshot d)) + 1 \<and>
           \<not> snd (CachedHash d'))
    | (Inl e, d') \<Rightarrow> d' = d"
proof (cases "ApplyLocal loads self c request d")
  case (Pair r d')
  have ok: "doc_ok H procs d" using reachable_ok [OF assms] by blast
  show ?thesis
  proof (cases r)
    case (Inl e)
    then show ?thesis using ApplyLocal_error [of loads self c request d e d'] Pair by simp
  next
    case (Inr a)
    note res = ApplyLocal_result [OF ok Pair [unfolded Inr]]
    let ?chs = "sort_changes (lr_changes request)"
    have view: "apply_view (real_changes ?chs) (map_view (doc_snapshot d)) = apply_view (lr_changes request) (map_view (doc_snapshot d))"
      using real_changes_view [OF res(2)] apply_view_sort [OF res(2)] by simp
    have wrap: "unat (w + 1) = unat w + 1" if "w \<noteq> - 1" for w :: u64
      using that by (rule unat_next_revision)
    show ?thesis
    proof (cases "real_changes ?chs = []")
      case True
      then have "apply_view [] (map_view (doc_snapshot d)) = apply_view (lr_changes request) (map_view (doc_snapshot d))"
        using view by simp
      then show ?thesis using res True Pair Inr by (simp add: fenced_def apply_view_def [abs_def] change_table_def)
    next
      case False
      note w = rewritten_ok(4) [OF doc_okD(1,2) [OF ok] real_changes_ok [OF res(2) False]]
      then show ?thesis using res False Pair Inr view wrap by (auto simp: fenced_def CachedHash_def)
    qed
  qed
qed

section \<open>Acceptance\<close>

text \<open>A forward operation made against the current state of a document.\<close>

definition current_edit :: "digest_fun \<Rightarrow> nat \<Rightarrow> document \<Rightarrow> operation \<Rightarrow> bool" where
  "current_edit H procs d op \<longleftrightarrow>
     op_protocol op = ProtocolVersion \<and> op_document op = snap_document (doc_snapshot d) \<and>
     ActorID_Validate (op_actor op) = None \<and> OperationID_Validate (op_id op) = None \<and>
     op_environment op = environment_hash (doc_snapshot d) \<and>
     base_revision op = snap_revision (doc_snapshot d) \<and>
     Inr (base_map_hash op) = Snapshot_Hash H procs (doc_snapshot d) \<and>
     op_kind op = TileChangeKind \<and> inverse_of op = None"

lemma current_edit_accepted:
  assumes "reachable H procs d" "digest32 H" "current_edit H procs d op"
    "fmlookup (accepted d) (op_id op) = None" "changes_ok (doc_snapshot d) (sort_changes (changes op))"
  shows "\<exists>acc d'. Apply H procs op at d = (Inr acc, d')"
proof -
  have ok: "doc_ok H procs d" "hist_ok d" using reachable_ok [OF assms(1)] by auto
  let ?d = "hashed_doc H procs d"
  have hash: "map_hash ?d = base_map_hash op" "base_map_hash op = h_digest (newCanonicalHasher H procs (doc_snapshot d))"
    using assms(3) ensureHash_ok(4) [OF ok(1)] Snapshot_Hash_full [OF doc_okD(1) [OF ok(1)]] by (auto simp: current_edit_def)
  have "hashes ?d (snap_revision (doc_snapshot d)) = Some (base_map_hash op)"
    using hashed_doc_hist [OF ok(2), of H procs] hash digest_nonempty [OF assms(2)] by (simp add: hist_ok_def)
  moreover have "ValidateSHA256 ''environment hash'' (environment_hash (doc_snapshot d)) = None"
    using doc_okD(1) [OF ok(1)] by (simp add: snapshot_ok_def header_ok_def)
  moreover have "count_ok (doc_snapshot d) (changes op)"
    using assms(5) by (simp add: changes_ok_def count_ok_def sort_changes_def split: sum.splits)
       (metis length_0_conv length_sort)
  ultimately have "validate_header ?d op = Inr ()"
    using assms(3) digest_valid [OF assms(2)] hash(2) by (simp add: validate_header_def current_edit_def)
  then show ?thesis
    using assms(3-5) by (intro apply_accepts [OF ok(1)]) (simp_all add: current_edit_def validateInverseContext_def)
qed

text \<open>C16: the engine never refuses a valid edit: a new forward operation that names the document, its
  environment, revision and map hash, and whose changes satisfy the specification, is accepted.\<close>

theorem current_edit_not_refused:
  assumes "reachable H procs d" "digest32 H" "current_edit H procs d op"
    "fmlookup (accepted d) (op_id op) = None" "changes_ok (doc_snapshot d) (sort_changes (changes op))"
  shows "\<not> isl (fst (Apply H procs op at d))"
  using current_edit_accepted [OF assms, of at] by auto

section \<open>Sizes\<close>

text \<open>C19: the size estimate of a snapshot capture is the exact sum, saturated at the largest 64-bit
  value: it never wraps around to a small reservation.\<close>

theorem EstimateSnapshotBytes_saturates:
  assumes "list_all (\<lambda>t. tile_fits (tile_st t)) (tiles s)"
  shows "unat (EstimateSnapshotBytes s) = min (snapshot_size s) (2 ^ 64 - 1)"
  by (simp add: estimate_snapshot_size [OF assms] unat_saturate)

section \<open>Witnesses\<close>

definition sample_doc :: document where
  "sample_doc = projr (NewDocument sample_digest 2 sample_snapshot)"

definition sample_edit :: operation where
  "sample_edit = sample_op CHR ''3'' 0 (map_hash sample_doc)
     [sample_change 1 (sample_tile_state CHR ''a'') (sample_tile_state CHR ''b'')]"

lemma sample_doc_new: "NewDocument sample_digest 2 sample_snapshot = Inr sample_doc"
  using NewDocument_valid [OF sample_snapshot_valid(1), of sample_digest 2] by (auto simp: sample_doc_def)

lemma sample_doc_facts:
  "reachable sample_digest 2 sample_doc" "doc_snapshot sample_doc = sample_snapshot" "accepted sample_doc = fmempty"
  "Snapshot_Hash sample_digest 2 sample_snapshot = Inr (map_hash sample_doc)"
  using NewDocument_ok [OF sample_doc_new] reach_new [OF sample_doc_new] by simp_all

lemma sample_digest32: "digest32 sample_digest"
  by (simp add: digest32_def)

lemma sample_edit_current: "current_edit sample_digest 2 sample_doc sample_edit"
  using sample_id_valid sample_doc_facts
  by (simp add: current_edit_def sample_edit_def sample_op_def sample_snapshot_def sample_map_def
      ActorID_Validate_def OperationID_Validate_def)

lemma sample_ids: "sample_id c = sample_id d \<longleftrightarrow> c = d"
  by (simp add: sample_id_def)

lemma sample_edit_changes: "changes_ok sample_snapshot (sort_changes (changes sample_edit))"
  using sample_id_valid
  by (auto simp: changes_ok_def count_ok_def CellCount_def sample_snapshot_def sample_map_def sample_edit_def
      sample_op_def sample_change_def sample_tile_def sample_tile_state_def sample_prefab_def sort_changes_def
      map_view_def tile_table_def Contains_def tile_ids_def prefab_list_def StableID_Validate_def sample_ids
      MaxMapDimension_def MaxMapCells_def)

lemma sample_edit_applied:
  "Apply sample_digest 2 sample_edit 5 sample_doc =
     (Inr (projr (fst (Apply sample_digest 2 sample_edit 5 sample_doc))), snd (Apply sample_digest 2 sample_edit 5 sample_doc))"
proof -
  obtain acc d' where "Apply sample_digest 2 sample_edit 5 sample_doc = (Inr acc, d')"
    using current_edit_accepted [OF sample_doc_facts(1) sample_digest32 sample_edit_current, of 5]
      sample_edit_changes sample_doc_facts by auto
  then show ?thesis by simp
qed

theorem reachable_invariant_witness:
  "Snapshot_Validate (doc_snapshot sample_doc) = None \<and>
    (\<forall>c. tile_view (Document_Tile sample_doc c) = map_view sample_snapshot c)"
  using reachable_invariant [OF sample_doc_facts(1)] by (simp add: sample_doc_facts)

lemma sample_revision: "snap_revision sample_snapshot = 0"
  by (simp add: sample_snapshot_def sample_map_def)

theorem ApplyContext_outcome_witness:
  "map_view (doc_snapshot (snd (Apply sample_digest 2 sample_edit 5 sample_doc))) =
     apply_view (changes sample_edit) (map_view sample_snapshot) \<and>
   snap_revision (doc_snapshot (snd (Apply sample_digest 2 sample_edit 5 sample_doc))) = 1"
  using ApplyContext_outcome [OF sample_doc_facts(1), where c = Background and op = sample_edit and at = 5] sample_edit_applied
  by (auto simp: Apply_def [symmetric] sample_doc_facts sample_revision split: prod.splits sum.splits)

theorem ApplyContext_cancellation_witness:
  "fst (ApplyContext sample_digest 2 (Until 1) sample_edit 5 sample_doc) = Inl Canceled \<or>
   ApplyContext sample_digest 2 (Until 1) sample_edit 5 sample_doc = Apply sample_digest 2 sample_edit 5 sample_doc"
  using ApplyContext_cancellation [OF sample_doc_facts(1), where c = "Until 1" and op = sample_edit and at = 5] by auto

theorem Apply_retry_witness:
  "fst (Apply sample_digest 2 sample_edit 9 (snd (Apply sample_digest 2 sample_edit 5 sample_doc))) =
   fst (Apply sample_digest 2 sample_edit 5 sample_doc)"
  using Apply_retry [OF sample_doc_facts(1) sample_edit_applied rtranclp.rtrancl_refl, of 9] sample_edit_applied
  by (metis fst_conv)

theorem undo_restores_witness:
  "\<exists>undo d2 acc2 d3. BuildInverse sample_digest 2 (sample_id CHR ''2'') (sample_id CHR ''3'') (sample_id CHR ''4'')
      (snd (Apply sample_digest 2 sample_edit 5 sample_doc)) = (Inr undo, d2) \<and>
    Apply sample_digest 2 undo 6 d2 = (Inr acc2, d3) \<and> map_view (doc_snapshot d3) = map_view sample_snapshot \<and>
    Snapshot_Hash sample_digest 2 sample_snapshot = Inr (map_hash d3)"
proof -
  have sel: "op_kind sample_edit = TileChangeKind" "op_actor sample_edit = sample_id CHR ''2''"
      "op_id sample_edit = sample_id CHR ''3''" "sample_id CHR ''4'' \<noteq> sample_id CHR ''3''"
      "\<forall>ch\<in>set (changes sample_edit). ch_coord ch \<in> tile_coord ` set (tiles sample_snapshot)"
    by (simp_all add: sample_edit_def sample_op_def sample_change_def sample_ids sample_snapshot_def sample_map_def sample_tile_def)
  show ?thesis
    using undo_restores [OF sample_doc_facts(1) sample_digest32, of sample_edit "sample_id CHR ''4''" 5 _ _ 6, OF _ sel(1) _ _ _ sample_edit_applied]
      sample_id_valid sel by (simp add: sample_doc_facts OperationID_Validate_def) blast
qed

text \<open>The sample document after an edit and its inverse.\<close>

lemma sample_undone:
  "\<exists>d a. reachable sample_digest 2 d \<and> fmlookup (accepted d) (sample_id CHR ''4'') = Some a \<and>
     inverse_of (acc_op a) = Some (sample_id CHR ''3'')"
proof -
  let ?d1 = "snd (Apply sample_digest 2 sample_edit 5 sample_doc)" and ?chs = "sort_changes (changes sample_edit)"
  have sel: "op_kind sample_edit = TileChangeKind" "op_id sample_edit = sample_id CHR ''3''" "op_actor sample_edit = sample_id CHR ''2''"
    by (simp_all add: sample_edit_def sample_op_def)
  have "fmlookup (accepted sample_doc) (op_id sample_edit) = None" by (simp add: sample_doc_facts)
  note f = forward_applied [OF sample_doc_facts(1) this sel(1) sample_edit_applied]
  have "doc_ok sample_digest 2 sample_doc" using reachable_ok [OF sample_doc_facts(1)] by blast
  note u = undo_changes_ok [OF doc_okD(1,2) [OF this] f(2)]
  obtain undo d2 acc sh si where u:
    "Apply sample_digest 2 undo 6 d2 = (Inr acc, applied sample_digest 2 (undo_changes ?chs) undo 6 d2 sh si)"
    "d2 = hashed_doc sample_digest 2 ?d1" "op_id undo = sample_id CHR ''4''" "inverse_of undo = Some (sample_id CHR ''3'')"
    using undo_accepted [OF f(1) sample_digest32, where op = "sample_edit\<lparr>changes := ?chs\<rparr>" and
        a = "projr (fst (Apply sample_digest 2 sample_edit 5 sample_doc))" and inverse_id = "sample_id CHR ''4''" and at = 6]
      f(5-10) sel sample_id_valid u unfolding f(3)
    by (auto simp: OperationID_Validate_def sample_ids sample_doc_facts)
  have "d2 = snd (Metadata sample_digest 2 ?d1)"
    using ensureHash_ok(1) [of sample_digest 2 ?d1] reachable_ok [OF f(1)] by (simp add: Metadata_def u(2))
  then have "reachable sample_digest 2 d2" using reach_step [OF f(1) step_metadata] by simp
  then have "reachable sample_digest 2 (snd (Apply sample_digest 2 undo 6 d2))"
    unfolding Apply_def by (rule reach_step [OF _ step_apply])
  then show ?thesis using u by (intro exI [of _ "snd (Apply sample_digest 2 undo 6 d2)"]) simp
qed

theorem inverse_unique_own_witness:
  "\<exists>d a ta. reachable sample_digest 2 d \<and> fmlookup (accepted d) (sample_id CHR ''4'') = Some a \<and>
     fmlookup (accepted d) (sample_id CHR ''3'') = Some ta \<and> op_actor (acc_op ta) = op_actor (acc_op a) \<and>
     reverses (changes (acc_op a)) (changes (acc_op ta))"
proof -
  obtain d a where d: "reachable sample_digest 2 d" "fmlookup (accepted d) (sample_id CHR ''4'') = Some a"
      "inverse_of (acc_op a) = Some (sample_id CHR ''3'')" using sample_undone by blast
  show ?thesis using inverse_unique_own [OF d] d by blast
qed

theorem ApplyLocal_outcome_witness:
  "case ApplyLocal (\<lambda>_. 0) 7 Background \<lparr>lr_version = LocalVersion 7 sample_doc, lr_changes = []\<rparr> sample_doc of
     (Inr a, d') \<Rightarrow> unshared sample_doc | (Inl e, d') \<Rightarrow> d' = sample_doc"
  using ApplyLocal_outcome [OF sample_doc_facts(1), where loads = "\<lambda>_. 0" and self = 7 and c = Background
      and request = "\<lparr>lr_version = LocalVersion 7 sample_doc, lr_changes = []\<rparr>"]
  by (auto split: prod.splits sum.splits)

theorem current_edit_not_refused_witness: "\<not> isl (fst (Apply sample_digest 2 sample_edit 5 sample_doc))"
  using current_edit_not_refused [OF sample_doc_facts(1) sample_digest32 sample_edit_current, of 5] sample_edit_changes
  by (simp add: sample_doc_facts)

theorem EstimateSnapshotBytes_saturates_witness: "unat (EstimateSnapshotBytes sample_snapshot) = min (snapshot_size sample_snapshot) (2 ^ 64 - 1)"
  by (rule EstimateSnapshotBytes_saturates)
    (simp add: sample_snapshot_def sample_map_def sample_tile_def tile_fits_def sample_tile_state_def prefab_list_def
      prefab_fits_def sample_prefab_def vars_of_def sample_id_def map_entries_def fmpred_iff)

end
