(* ===== verification/Document_Twins.thy ===== *)
theory Document_Twins
  imports Engine_Props
begin

text \<open>
  Snapshots that hold the same map in different lists: the order of the tiles, a nil list or an empty
  one and a nil or empty override map are told apart by equality of snapshots, but not by the map hash.
  Documents that differ in no more than that accept the same operations with the same results.
\<close>

section \<open>The same map\<close>

definition same_map :: "snapshot \<Rightarrow> snapshot \<Rightarrow> bool" where
  "same_map s u \<longleftrightarrow> s\<lparr>tiles := tiles u\<rparr> = u \<and> tile_coord ` set (tiles s) = tile_coord ` set (tiles u) \<and> map_view s = map_view u"

lemma same_map_refl [simp, intro!]: "same_map s s"
  by (simp add: same_map_def)

lemma same_mapD:
  assumes "same_map s u"
  shows "protocol_version s = protocol_version u" "schema_version s = schema_version u" "snap_document s = snap_document u"
    "environment_hash s = environment_hash u" "snap_revision s = snap_revision u" "max_x s = max_x u" "max_y s = max_y u"
    "max_z s = max_z u" "tile_coord ` set (tiles s) = tile_coord ` set (tiles u)" "map_view s = map_view u" "Contains s = Contains u"
proof -
  have e: "s\<lparr>tiles := tiles u\<rparr> = u" using assms by (simp add: same_map_def)
  show "protocol_version s = protocol_version u" "schema_version s = schema_version u" "snap_document s = snap_document u"
    "environment_hash s = environment_hash u" "snap_revision s = snap_revision u" "max_x s = max_x u" "max_y s = max_y u"
    "max_z s = max_z u" using arg_cong [OF e, of protocol_version] arg_cong [OF e, of schema_version]
    arg_cong [OF e, of snap_document] arg_cong [OF e, of environment_hash] arg_cong [OF e, of snap_revision]
    arg_cong [OF e, of max_x] arg_cong [OF e, of max_y] arg_cong [OF e, of max_z] by simp_all
  then show "Contains s = Contains u" by (simp add: Contains_def fun_eq_iff)
  show "tile_coord ` set (tiles s) = tile_coord ` set (tiles u)" "map_view s = map_view u" using assms by (simp_all add: same_map_def)
qed

lemma same_mapI:
  assumes "protocol_version s = protocol_version u" "schema_version s = schema_version u" "snap_document s = snap_document u"
    "environment_hash s = environment_hash u" "snap_revision s = snap_revision u" "max_x s = max_x u" "max_y s = max_y u"
    "max_z s = max_z u" "tile_coord ` set (tiles s) = tile_coord ` set (tiles u)" "map_view s = map_view u"
  shows "same_map s u"
  using assms by (cases s; cases u) (simp add: same_map_def)

lemma same_map_sym: "same_map s u \<Longrightarrow> same_map u s"
  by (rule same_mapI) (simp_all add: same_mapD)

lemma same_map_trans: "same_map s u \<Longrightarrow> same_map u w \<Longrightarrow> same_map s w"
  by (rule same_mapI) (simp_all add: same_mapD)

text \<open>In canonical order the same map is the same list, up to how its tiles are written.\<close>

definition canonical_views :: "snapshot \<Rightarrow> (coord \<times> tile_view) list" where
  "canonical_views s = map (\<lambda>t. (tile_coord t, tile_view (tile_st t))) (canonicalTiles s)"

lemma set_canonical_views:
  assumes "distinct (map tile_coord (tiles s))"
  shows "set (canonical_views s) = (\<lambda>c. (c, map_view s c)) ` tile_coord ` set (tiles s)"
proof -
  have "map_view s (tile_coord t) = tile_view (tile_st t)" if "t \<in> set (tiles s)" for t
    using that assms by (auto simp: map_view_def in_set_conv_nth tile_table_nth)
  then show ?thesis by (force simp: canonical_views_def canonicalTiles_def image_iff)
qed

lemma canonical_views_eq:
  assumes "distinct (map tile_coord (tiles s))"
  shows "canonical_views s = map (\<lambda>c. (c, map_view s c)) (sorted_list_of_set (tile_coord ` set (tiles s)))"
proof -
  have coords: "map fst (canonical_views s) = sorted_list_of_set (tile_coord ` set (tiles s))"
  proof (rule sorted_distinct_set_unique)
    have "mset (map fst (canonical_views s)) = mset (map tile_coord (tiles s))"
      by (simp add: canonical_views_def canonicalTiles_def comp_def mset_map [symmetric] del: mset_map) (simp add: mset_map)
    then show "distinct (map fst (canonical_views s))" "set (map fst (canonical_views s)) = set (sorted_list_of_set (tile_coord ` set (tiles s)))"
      using assms by (metis mset_eq_imp_distinct_iff, metis (no_types, lifting) List.finite_set finite_imageI image_set mset_eq_setD set_sorted_list_of_set)
    show "sorted (map fst (canonical_views s))" by (simp add: canonical_views_def canonicalTiles_def comp_def)
  qed simp_all
  have "canonical_views s = map (\<lambda>c. (c, map_view s c)) (map fst (canonical_views s))"
    using set_canonical_views [OF assms] by (auto simp: comp_def intro!: map_idI [symmetric])
  then show ?thesis by (simp add: coords)
qed

lemma same_map_canonical:
  assumes "same_map s u" "snapshot_ok s" "snapshot_ok u"
  shows "canonical_views s = canonical_views u"
  using assms canonical_views_eq [of s] canonical_views_eq [of u] same_mapD(9,10) [OF assms(1)] by (simp add: snapshot_ok_def)

lemma canonical_same_map:
  assumes "canonical_views s = canonical_views u" "snapshot_ok s" "snapshot_ok u"
    and "snap_document s = snap_document u" "environment_hash s = environment_hash u" "snap_revision s = snap_revision u"
    "max_x s = max_x u" "max_y s = max_y u" "max_z s = max_z u"
  shows "same_map s u"
proof (rule same_mapI)
  have d: "distinct (map tile_coord (tiles s))" "distinct (map tile_coord (tiles u))" using assms(2,3) by (simp_all add: snapshot_ok_def)
  have v: "(\<lambda>c. (c, map_view s c)) ` tile_coord ` set (tiles s) = (\<lambda>c. (c, map_view u c)) ` tile_coord ` set (tiles u)"
    using set_canonical_views [OF d(1)] set_canonical_views [OF d(2)] assms(1) by simp
  then have "fst ` (\<lambda>c. (c, map_view s c)) ` tile_coord ` set (tiles s) = fst ` (\<lambda>c. (c, map_view u c)) ` tile_coord ` set (tiles u)" by simp
  then show c: "tile_coord ` set (tiles s) = tile_coord ` set (tiles u)" by (simp add: image_image)
  have "map_view s c = map_view u c" for c
  proof (cases "c \<in> tile_coord ` set (tiles s)")
    case True
    then have "(c, map_view s c) \<in> (\<lambda>c. (c, map_view u c)) ` tile_coord ` set (tiles u)" using v by blast
    then show ?thesis by auto
  next
    case False
    then have "tile_table (tiles s) c = None" "tile_table (tiles u) c = None" using c dom_tile_table [of "tiles s"] dom_tile_table [of "tiles u"]
      by (metis domIff)+
    then show ?thesis by (simp add: map_view_def)
  qed
  then show "map_view s = map_view u" by (rule ext)
qed (use assms in \<open>simp_all add: snapshot_ok_def header_ok_def\<close>)

lemma same_map_hasher:
  assumes "same_map s u" "snapshot_ok s" "snapshot_ok u"
  shows "newCanonicalHasher H procs s = newCanonicalHasher H procs u"
proof -
  note g = same_map_canonical [OF assms, unfolded canonical_views_def]
  have "map tile_coord (canonicalTiles s) = map tile_coord (canonicalTiles u)"
    using arg_cong [OF g, of "map fst"] by (simp add: comp_def)
  moreover have "map (tile_digest H) (canonicalTiles s) = map (tile_digest H) (canonicalTiles u)"
    using arg_cong [OF g, of "map (\<lambda>cv. H (tile_enc (fst cv) (snd cv)))"] by (simp add: comp_def tile_digest_enc [abs_def])
  moreover have "length (canonicalTiles s) = length (canonicalTiles u)" using g by (rule map_eq_imp_length_eq)
  ultimately show ?thesis using same_mapD(6-8) [OF assms(1)] by (simp add: newCanonicalHasher_def Let_def)
qed

section \<open>Changes\<close>

lemma table_view_ids: "(\<exists>st. tb c = Some st \<and> i \<in> set (tile_ids st)) \<longleftrightarrow> i \<in> fst ` set (table_view tb c)"
  by (cases "tb c") (simp_all add: table_view_def tile_ids_view)

lemma table_fits_view:
  "table_fits inside tb chs \<longleftrightarrow>
     distinct (map ch_coord chs) \<and>
     (\<forall>ch\<in>set chs. inside (ch_coord ch) \<and> table_view tb (ch_coord ch) = tile_view (before ch)) \<and>
     distinct (concat (map (\<lambda>ch. tile_ids (after ch)) chs)) \<and>
     (\<forall>ch\<in>set chs. \<forall>i\<in>set (tile_ids (after ch)). StableID_Validate i = None \<and>
        (\<forall>c. i \<in> fst ` set (table_view tb c) \<longrightarrow> c \<in> ch_coord ` set chs))"
  unfolding table_fits_def table_view_ids [symmetric] by blast

lemma same_map_changes: "same_map s u \<Longrightarrow> changes_ok s chs = changes_ok u chs"
proof -
  assume m: "same_map s u"
  have "CellCount s = CellCount u" using same_mapD(6-8) [OF m] by (simp add: CellCount_def Let_def)
  then have "count_ok s chs = count_ok u chs" by (simp add: count_ok_def)
  moreover have "table_fits (Contains s) (tile_table (tiles s)) chs = table_fits (Contains u) (tile_table (tiles u)) chs"
    unfolding table_fits_view map_view_table [symmetric] same_mapD(10,11) [OF m] by (rule refl)
  ultimately show ?thesis by (simp add: changes_ok_fits)
qed

lemma same_map_rewritten:
  assumes "same_map s u" "snapshot_ok s" "snapshot_ok u" "indexes_ok (tiles s) m" "indexes_ok (tiles u) n" "changes_ok s chs"
  shows "same_map (rewritten s m chs r) (rewritten u n chs r)"
proof (rule same_mapI)
  have c: "changes_ok u chs" using assms(1,6) same_map_changes by blast
  note w = rewritten_ok [OF assms(2,4,6)] and w' = rewritten_ok [OF assms(3,5) c]
  show "map_view (rewritten s m chs r) = map_view (rewritten u n chs r)"
    unfolding w(4) w'(4) by (simp add: same_mapD(10) [OF assms(1)])
  show "tile_coord ` set (tiles (rewritten s m chs r)) = tile_coord ` set (tiles (rewritten u n chs r))"
    using w(3) w'(3) same_mapD(9) [OF assms(1)] by (simp flip: dom_tile_table)
qed (simp_all add: rewritten_def same_mapD [OF assms(1)])

section \<open>Twin documents\<close>

definition twin :: "digest_fun \<Rightarrow> nat \<Rightarrow> document \<Rightarrow> document \<Rightarrow> bool" where
  "twin H procs d e \<longleftrightarrow> hashed H procs d \<and> hashed H procs e \<and> same_map (doc_snapshot d) (doc_snapshot e) \<and>
     hashes d = hashes e \<and> accepted d = accepted e \<and> inverted d = inverted e"

lemma twinD:
  assumes "twin H procs d e"
  shows "hashed H procs d" "hashed H procs e" "same_map (doc_snapshot d) (doc_snapshot e)" "hashes d = hashes e"
    "accepted d = accepted e" "inverted d = inverted e" "map_hash d = map_hash e" "snapshot_ok (doc_snapshot d)" "snapshot_ok (doc_snapshot e)"
proof -
  show t: "hashed H procs d" "hashed H procs e" "same_map (doc_snapshot d) (doc_snapshot e)" "hashes d = hashes e"
    "accepted d = accepted e" "inverted d = inverted e" using assms by (simp_all add: twin_def)
  show "map_hash d = map_hash e"
    using hashed_facts(6) [OF t(1)] hashed_facts(6) [OF t(2)] t(4) same_mapD(5) [OF t(3)] by simp
  show "snapshot_ok (doc_snapshot d)" "snapshot_ok (doc_snapshot e)"
    using doc_okD(1) [OF hashed_facts(1)] t(1,2) by blast+
qed

lemma twin_refl: "hashed H procs d \<Longrightarrow> twin H procs d d"
  by (simp add: twin_def)

lemma twin_core: "twin H procs d e \<Longrightarrow> core d' = core d \<Longrightarrow> core e' = core e \<Longrightarrow> twin H procs d' e'"
  using hashed_core [of d' d H procs] hashed_core [of e' e H procs] by (simp add: twin_def core_eq_iff)

lemma twin_admissible:
  assumes "twin H procs d e"
  shows "admissible d a = admissible e a"
proof -
  note t = twinD [OF assms]
  note m = same_mapD [OF t(3)]
  have "CellCount (doc_snapshot d) = CellCount (doc_snapshot e)" using m(6-8) by (simp add: CellCount_def Let_def)
  then have "count_ok (doc_snapshot d) chs = count_ok (doc_snapshot e) chs" for chs by (simp add: count_ok_def)
  then show ?thesis
    using same_map_changes [OF t(3)] by (simp add: admissible_def Let_def header_iff inverse_admissible_def t(4-6) m(3-5))
qed

lemma twin_accepts:
  assumes "digest32 H" "twin H procs d e" "accepts H procs d a d'"
  shows "\<exists>e'. accepts H procs e a e' \<and> twin H procs d' e'"
proof -
  note t = twinD [OF assms(2)]
  have adm: "admissible d a" and d': "core d' = core (advanced H procs d a)" using assms(3) accepts_iff [OF t(1)] by blast+
  have adm': "admissible e a" using adm twin_admissible [OF assms(2)] by simp
  let ?e = "advanced H procs e a" and ?d = "advanced H procs d a"
  have acc: "accepts H procs e a ?e" using adm' accepts_iff [OF t(2)] by blast
  have h: "hashed H procs ?d" "hashed H procs ?e" using admissible_hashed [OF assms(1)] t(1,2) adm adm' by blast+
  have ch: "changes_ok (doc_snapshot d) (changes (acc_op a))" using adm by (simp add: admissible_def Let_def)
  have rev: "acc_revision a = snap_revision (doc_snapshot d) + 1" "acc_revision a = snap_revision (doc_snapshot e) + 1"
    using adm adm' by (simp_all add: admissible_def Let_def)
  have "same_map (doc_snapshot ?d) (doc_snapshot ?e)"
    using same_map_rewritten [OF t(3,8,9) doc_okD(2) [OF hashed_facts(1) [OF t(1)]] doc_okD(2) [OF hashed_facts(1) [OF t(2)]] ch,
        of "snap_revision (doc_snapshot d) + 1"] same_mapD(5) [OF t(3)]
    by (simp add: advanced_def)
  moreover have "hashes ?d = hashes ?e"
  proof -
    have "map_hash ?d = map_hash ?e"
      using hashed_facts(5) [OF h(1)] hashed_facts(5) [OF h(2)] same_map_hasher [OF calculation]
        doc_okD(1) [OF hashed_facts(1) [OF h(1)]] doc_okD(1) [OF hashed_facts(1) [OF h(2)]] by simp
    then show ?thesis using advanced_sel(3) [of H procs d a] advanced_sel(3) [of H procs e a] t(4) same_mapD(5) [OF t(3)] by simp
  qed
  moreover have "accepted ?d = accepted ?e" using advanced_sel(5) [OF rev(1)] advanced_sel(5) [OF rev(2)] t(5) by simp
  moreover have "inverted ?d = inverted ?e"
    using advanced_sel(4) [of H procs d a] advanced_sel(4) [of H procs e a] t(6) by (cases "inverse_of (acc_op a)") simp_all
  ultimately have "twin H procs ?d ?e" using h by (simp add: twin_def)
  then show ?thesis using acc twin_core [OF _ d' refl] by blast
qed

lemma twin_history:
  assumes "digest32 H" "history H procs d as dn" "twin H procs d e"
  shows "\<exists>en. history H procs e as en \<and> twin H procs dn en"
  using assms(2)
proof induction
  case (history_start dn)
  then show ?case using twin_core [OF assms(3) _ refl] history.history_start [OF refl] by blast
next
  case (history_step as dm a d')
  then obtain em where em: "history H procs e as em" "twin H procs dm em" by blast
  then obtain e' where "accepts H procs em a e'" "twin H procs d' e'"
    using twin_accepts [OF assms(1) em(2) history_step.hyps(2)] by blast
  then show ?case using history.history_step [OF em(1)] by blast
qed

text \<open>Opening a snapshot with the map of a document, with that document's tables, gives its twin.\<close>

lemma reopen_twin:
  assumes "digest32 H" "hashed H procs d" "snapshot_ok s" "same_map s (doc_snapshot d)"
  shows "\<exists>e ek. NewDocument H procs s = Inr e \<and> ek = e\<lparr>hashes := hashes d, accepted := accepted d, inverted := inverted d\<rparr> \<and>
    twin H procs d ek \<and> doc_snapshot ek = s \<and> map_hash e = map_hash d \<and>
    accepted e = fmempty \<and> inverted e = Map.empty \<and> hashes e = [snap_revision s \<mapsto> map_hash d]"
proof -
  note h = hashed_facts [OF assms(2)]
  obtain e where e: "NewDocument H procs s = Inr e" using NewDocument_valid assms(3) Snapshot_Validate_iff by blast
  note new = NewDocument_ok [OF e]
  have snap: "doc_snapshot e = s" using new by simp
  have he: "hashed H procs e" by (rule NewDocument_hashed [OF assms(1) e])
  have mh: "map_hash e = map_hash d"
    using hashed_facts(5) [OF he] h(5) same_map_hasher [OF assms(4,3) doc_okD(1) [OF h(1)]] snap by simp
  define ek where "ek = e\<lparr>hashes := hashes d, accepted := accepted d, inverted := inverted d\<rparr>"
  have k: "doc_snapshot ek = s" "map_hash ek = map_hash d" "hashes ek = hashes d" "accepted ek = accepted d" "inverted ek = inverted d"
    by (simp_all add: ek_def snap mh)
  have "doc_ok H procs ek" using hashed_facts(1) [OF he] by (simp add: ek_def doc_ok_def)
  moreover have "hist_ok ek"
    using h(2) same_mapD(3,5) [OF assms(4)] by (simp add: hist_ok_def accepted_ok_def inverse_ok_def k)
  ultimately have "hashed H procs ek" using h(3) by (simp add: hashed_def k)
  then have "twin H procs d ek" using assms(2) same_map_sym [OF assms(4)] by (simp add: twin_def k)
  moreover have "accepted e = fmempty" "inverted e = Map.empty" "hashes e = [snap_revision s \<mapsto> map_hash d]"
    using new mh hashed_facts(6) [OF he] by simp_all
  ultimately show ?thesis using e mh k(1) by (intro exI [of _ e] exI [of _ ek]) (simp add: ek_def)
qed

end
