(* ===== verification/Recovery_Correct.thy ===== *)
theory Recovery_Correct
  imports Recovery Document_Twins
begin

text \<open>
  Recovery is exact: the state a store keeps of a history restores, at every retained revision, the
  document that history had there.
\<close>

section \<open>Entries of finite maps\<close>

lemma map_of_entries: "map_of (map_entries m) = fmlookup m"
  by (simp add: map_entries_def)

lemma distinct_entries: "distinct (map fst (map_entries m))"
  by (simp add: map_entries_def sorted_list_of_fmap_def comp_def sorted_list_of_fset.rep_eq)

lemma set_entries: "(k, v) \<in> set (map_entries m) \<longleftrightarrow> fmlookup m k = Some v"
  by (metis distinct_entries map_of_eq_Some_iff map_of_entries)

lemma length_entries: "length (map_entries m) = map_len m"
proof -
  have "length (map_entries m) = card (set (map fst (map_entries m)))" by (metis distinct_card distinct_entries length_map)
  also have "set (map fst (map_entries m)) = fset (fmdom m)"
    by (simp add: map_entries_def sorted_list_of_fmap_def comp_def)
  finally show ?thesis by (simp add: map_len_def fcard.rep_eq)
qed

lemma entries_update:
  "distinct (map fst es) \<Longrightarrow> foldl (\<lambda>m (r, h). if P r then m(r \<mapsto> h) else m) m es x =
     (if P x then (case map_of es x of Some h \<Rightarrow> Some h | None \<Rightarrow> m x) else m x)"
proof (induction es arbitrary: m)
  case (Cons e es)
  obtain r h where e: "e = (r, h)" by force
  have "map_of es r = None" using Cons.prems by (simp add: e map_of_eq_None_iff)
  then show ?case using Cons by (auto simp: e split: option.splits)
qed simp

section \<open>The retained hashes\<close>

lemma scan_hashes_min:
  assumes "\<forall>(r, h)\<in>set es. r \<le> head \<and> (\<forall>name. ValidateSHA256 name h = None)"
  shows "\<exists>m. scan_hashes head es first = Inr m \<and> m \<le> first \<and> (\<forall>r\<in>fst ` set es. m \<le> r) \<and> (m = first \<or> m \<in> fst ` set es)"
  using assms
proof (induction es arbitrary: first)
  case (Cons e es)
  obtain r h where e: "e = (r, h)" by force
  obtain m where m: "scan_hashes head es (min r first) = Inr m" "m \<le> min r first" "\<forall>q\<in>fst ` set es. m \<le> q"
      "m = min r first \<or> m \<in> fst ` set es"
    using Cons.IH [of "min r first"] Cons.prems by (auto simp: e)
  have "(if r < first then r else first) = min r first" by (auto simp: min_def)
  then have "scan_hashes head (e # es) first = Inr m"
    using m(1) Cons.prems by (simp add: e Let_def guard_def check_def not_less)
  then show ?case using m(2-) by (auto simp: e min_def split: if_splits)
qed simp

lemma scan_hashes_first:
  assumes "\<And>r h. fmlookup hs r = Some h \<Longrightarrow> r \<le> head \<and> first \<le> r \<and> (\<forall>name. ValidateSHA256 name h = None)"
    "fmlookup hs first \<noteq> None" "first \<le> base"
  shows "scan_hashes head (map_entries hs) base = Inr first"
proof -
  have "\<forall>(r, h)\<in>set (map_entries hs). r \<le> head \<and> (\<forall>name. ValidateSHA256 name h = None)"
    using assms(1) by (auto simp: set_entries)
  from scan_hashes_min [OF this, of base] obtain m where m: "scan_hashes head (map_entries hs) base = Inr m" "m \<le> base"
      "\<forall>r\<in>fst ` set (map_entries hs). m \<le> r" "m = base \<or> m \<in> fst ` set (map_entries hs)" by blast
  obtain h where "fmlookup hs first = Some h" using assms(2) by blast
  then have "first \<in> fst ` set (map_entries hs)" using set_entries [of first h hs] by (intro image_eqI [of _ _ "(first, h)"]) simp_all
  then have "m \<le> first" using m(3) by blast
  moreover have "first \<le> m" using m(4) assms(1,3) by (auto simp: set_entries)
  ultimately show ?thesis using m(1) by simp
qed

text \<open>A map that retains a whole range of revisions has one entry for each.\<close>

lemma range_len:
  assumes "\<And>r. fmlookup hs r \<noteq> None \<longleftrightarrow> first \<le> r \<and> r \<le> head" "(first::revision) \<le> head"
  shows "map_len hs = unat (head - first) + 1"
proof -
  have dom: "fset (fmdom hs) = {first..head}" using assms(1) by (auto simp: fmlookup_dom_iff)
  have "unat ` {first..head} = {unat first..unat head}"
  proof
    show "{unat first..unat head} \<subseteq> unat ` {first..head}"
    proof
      fix n assume n: "n \<in> {unat first..unat head}"
      then have "n < 2 ^ 64" using unsigned_less [of head, where ?'a = nat] by (simp add: le_less_trans)
      then have "unat (word_of_nat n :: revision) = n" by (simp add: unsigned_of_nat take_bit_nat_eq_self)
      then show "n \<in> unat ` {first..head}"
        using n by (intro image_eqI [of _ _ "word_of_nat n"]) (auto simp: word_le_nat_alt)
    qed
  qed (auto simp: word_le_nat_alt)
  moreover have "inj_on unat {first..head}" by (rule inj_onI) (simp add: word_unat_eq_iff)
  ultimately have "card {first..head} = unat head + 1 - unat first" by (metis card_atLeastAtMost card_image Suc_eq_plus1)
  moreover have "unat (head - first) = unat head - unat first" using assms(2) by (rule unat_sub)
  ultimately show ?thesis
    using assms(2) unfolding map_len_def fcard.rep_eq dom by (simp add: word_le_nat_alt)
qed

section \<open>Opening the stored snapshot\<close>

lemma reopen:
  assumes "hashed H procs d"
  shows "\<exists>e. NewDocument H procs (doc_snapshot d) = Inr e \<and>
    core (e\<lparr>hashes := hashes d, accepted := accepted d, inverted := inverted d\<rparr>) = core d \<and>
    accepted e = fmempty \<and> inverted e = Map.empty \<and> hashes e = [snap_revision (doc_snapshot d) \<mapsto> map_hash d]"
proof -
  note h = hashed_facts [OF assms]
  have v: "Snapshot_Validate (doc_snapshot d) = None" using doc_okD(1) [OF h(1)] by (simp add: Snapshot_Validate_iff)
  then obtain e where e: "NewDocument H procs (doc_snapshot d) = Inr e" using NewDocument_valid by blast
  note new = NewDocument_ok [OF e]
  have mh: "map_hash e = map_hash d" using new v h(5) by (simp add: Snapshot_Hash_def)
  have "doc_hasher e = doc_hasher d" using new h(3,4) mh by (simp add: doc_ok_def)
  moreover have "tile_indexes e = tile_indexes d" "identity_owners e = identity_owners d"
    using new doc_okD(2,3) [OF h(1)] by (auto simp: doc_ok_def intro: indexes_unique owners_unique)
  ultimately show ?thesis using e new mh by (simp add: core_eq_iff)
qed

section \<open>The compacted prefix\<close>

definition latest_ok :: "last_changes \<Rightarrow> snapshot \<Rightarrow> bool" where
  "latest_ok latest s \<longleftrightarrow> (\<forall>c st. fmlookup latest c = Some st \<longrightarrow>
     (\<exists>st'. tile_table (tiles s) c = Some st' \<and> tile_view st' = tile_view st))"

definition before_of :: "tile_change list \<Rightarrow> tile list" where
  "before_of chs = map (\<lambda>ch. \<lparr>tile_coord = ch_coord ch, tile_st = before ch\<rparr>) chs"

lemma before_tiles_eq:
  "latest_ok latest s \<Longrightarrow> \<forall>ch\<in>set chs. map_view s (ch_coord ch) = tile_view (before ch) \<Longrightarrow>
     before_tiles latest chs = Some (before_of chs)"
proof (induction chs)
  case (Cons ch chs)
  have "TileState_Equal prior (before ch)" if "fmlookup latest (ch_coord ch) = Some prior" for prior
    using Cons.prems that by (force simp: latest_ok_def map_view_def TileState_Equal_view)
  then show ?case using Cons by (auto simp: before_of_def split: option.splits)
qed (simp add: before_of_def)

lemma before_of_table:
  "distinct (map ch_coord chs) \<Longrightarrow> tile_table (before_of chs) c = Some st \<longleftrightarrow> (\<exists>ch\<in>set chs. ch_coord ch = c \<and> before ch = st)"
  by (subst tile_table_Some_iff) (auto simp: before_of_def comp_def)

lemma tile_view_ids: "tile_view a = tile_view b \<Longrightarrow> tile_ids a = tile_ids b"
  by (simp add: tile_ids_view)

lemma earlier_ids:
  assumes "ids_ok (tile_table (tiles s))" "changes_ok s chs"
  shows "ids_ok (tile_table (before_of chs))"
proof -
  note tb = before_of_table [OF changes_okD(1) [OF assms(2)]]
  have src: "\<exists>st. (tile_table (tiles s) (ch_coord ch) = Some st \<and> tile_ids (before ch) = tile_ids st) \<or> tile_ids (before ch) = []"
    if "ch \<in> set chs" for ch
    using changes_okD(4) [OF assms(2) that]
    by (auto simp: map_view_def tile_ids_view split: option.splits)
  show ?thesis
    unfolding ids_ok_def tb
  proof (intro conjI allI impI)
    fix c st assume "\<exists>ch\<in>set chs. ch_coord ch = c \<and> before ch = st"
    then show "distinct (tile_ids st)" "\<forall>i\<in>set (tile_ids st). StableID_Validate i = None"
      using src assms(1) unfolding ids_ok_def by (metis distinct.simps(1), metis empty_iff list.set(1))
  next
    fix c c' st st' assume "\<exists>ch\<in>set chs. ch_coord ch = c \<and> before ch = st" "\<exists>ch\<in>set chs. ch_coord ch = c' \<and> before ch = st'" "c \<noteq> c'"
    then show "set (tile_ids st) \<inter> set (tile_ids st') = {}"
      using src assms(1) unfolding ids_ok_def by (metis inf_bot_left inf_bot_right list.set(1))
  qed
qed

text \<open>The validator of one operation: a map that holds just the tiles the operation changes.\<close>

lemma before_snapshot_ok:
  assumes "snapshot_ok s" "changes_ok s chs"
  shows "snapshot_ok (s\<lparr>snap_revision := r, tiles := before_of chs\<rparr>)"
    and "changes_ok (s\<lparr>snap_revision := r, tiles := before_of chs\<rparr>) chs"
proof -
  let ?s = "s\<lparr>snap_revision := r, tiles := before_of chs\<rparr>"
  note ch = changes_okD [OF assms(2)]
  note tb = before_of_table [OF ch(1)]
  have same: "header_ok ?s = header_ok s" "Contains ?s = Contains s" "CellCount ?s = CellCount s"
    by (auto simp: header_ok_def dims_ok_def Contains_def CellCount_def fun_eq_iff Let_def)
  have coords: "map tile_coord (before_of chs) = map ch_coord chs" by (simp add: before_of_def comp_def)
  show "snapshot_ok ?s"
    using assms ch(1,3) earlier_ids [OF _ assms(2)]
    unfolding snapshot_ok_table same by (auto simp: coords tb)
  have view: "map_view ?s (ch_coord c) = tile_view (before c)" if "c \<in> set chs" for c
    using tb [of "ch_coord c" "before c"] that by (auto simp: map_view_def)
  show "changes_ok ?s chs"
    using assms(2) view unfolding changes_ok_def same count_ok_def by (auto simp: tb)
qed

lemma check_prefix_ok:
  assumes "digest32 H" "hashed H procs d" "admissible d a" "latest_ok latest (doc_snapshot d)"
    and s: "rs_snapshot state = (doc_snapshot d)\<lparr>tiles := ts, snap_revision := r\<rparr>"
    and e: "accepted e = accepted d" "inverted e = inverted d" "\<And>r h. hashes d r = Some h \<Longrightarrow> hashes e r = Some h"
    and base: "\<And>r. hashes d r \<noteq> None \<Longrightarrow> r < acc_revision a"
  shows "check_prefix H procs state a e latest = Inr (record_accepted a e, note_changes (changes (acc_op a)) latest)"
proof -
  let ?op = "acc_op a" and ?chs = "changes (acc_op a)"
  have adm: "validate_header d ?op = Inr ()" "inverse_admissible d ?op" "changes_ok (doc_snapshot d) ?chs"
      "sort_changes ?chs = ?chs" using assms(3) by (simp_all add: admissible_def Let_def)
  define s where "s = (rs_snapshot state)\<lparr>snap_revision := acc_revision a - 1, tiles := before_of ?chs\<rparr>"
  have s': "s = (doc_snapshot d)\<lparr>snap_revision := acc_revision a - 1, tiles := before_of ?chs\<rparr>" by (simp add: s_def assms(5))
  note ok = before_snapshot_ok [OF doc_okD(1) [OF hashed_facts(1) [OF assms(2)]] adm(3), of "acc_revision a - 1", folded s']
  obtain v where v: "NewDocument H procs s = Inr v" using NewDocument_valid ok(1) Snapshot_Validate_iff by blast
  note new = NewDocument_ok [OF v]
  note hv = hashed_facts [OF NewDocument_hashed [OF assms(1) v]]
  let ?v = "validator_for e v"
  have sv: "doc_snapshot ?v = s" "doc_ok H procs ?v" "doc_hasher ?v = Some (newCanonicalHasher H procs (doc_snapshot ?v))"
      "map_hash ?v = h_digest (newCanonicalHasher H procs (doc_snapshot ?v))"
    using new hv by (simp_all add: validator_for_def doc_ok_def)
  have hd: "validate_header ?v ?op = Inr ()"
    using adm(1) e(3) ok(2) unfolding header_iff sv(1) by (auto simp: s' validator_for_def changes_ok_def)
  have inv: "validateInverseContext ?v Background ?op = Inr Background"
    using adm(2) e(1,2) unfolding inverse_iff by (simp add: inverse_admissible_def validator_for_def)
  obtain n c g h where val: "validateContext H procs Background ?v ?op = Inr (Background, n, c, g, h)"
    using validateContext_accepts [OF sv(2,3,4) hd] ok(2) inv adm(4) sv(1) by (fastforce simp: changes_update_id)
  have "n = ?op" using validateContext_ok [OF sv(2,3,4) val] changes_update_id [OF adm(4)] by simp
  moreover have "base_revision ?op < acc_revision a" using base adm(1) by (auto simp: header_iff)
  moreover have "before_tiles latest ?chs = Some (before_of ?chs)"
    using before_tiles_eq [OF assms(4)] changes_okD(4) [OF adm(3)] by blast
  ultimately show ?thesis
    using v val by (simp add: check_prefix_def guard_def not_le s_def)
qed

lemma note_changes_lookup:
  "distinct (map ch_coord chs) \<Longrightarrow> fmlookup (note_changes chs latest) c =
     (case change_table chs c of Some st \<Rightarrow> Some st | None \<Rightarrow> fmlookup latest c)"
proof (induction chs arbitrary: latest)
  case (Cons ch chs)
  have "change_table chs (ch_coord ch) = None"
    using Cons.prems dom_change_table [of chs] by (metis distinct.simps(2) domIff image_set list.simps(9))
  then show ?case using Cons by (auto simp: note_changes_def change_table_def split: option.splits)
qed (simp add: note_changes_def change_table_def)

lemma latest_ok_advanced:
  assumes "hashed H procs d" "admissible d a" "latest_ok latest (doc_snapshot d)" "core d' = core (advanced H procs d a)"
  shows "latest_ok (note_changes (changes (acc_op a)) latest) (doc_snapshot d')"
proof -
  have ch: "changes_ok (doc_snapshot d) (changes (acc_op a))" using assms(2) by (simp add: admissible_def Let_def)
  note ok = doc_okD [OF hashed_facts(1) [OF assms(1)]]
  have "tile_table (tiles (doc_snapshot d')) = tile_table (tiles (doc_snapshot d)) ++ change_table (changes (acc_op a))"
    using assms(4) rewritten_ok(3) [OF ok(1,2) ch] by (simp add: core_eq_iff advanced_def)
  then show ?thesis
    using assms(3) unfolding latest_ok_def note_changes_lookup [OF changes_okD(1) [OF ch]]
    by (auto simp: map_add_def split: option.splits)
qed

lemma record_accepted_sel:
  "accepted (record_accepted a e) = fmupd (op_id (acc_op a)) a (accepted e)"
  "inverted (record_accepted a e) = (case inverse_of (acc_op a) of None \<Rightarrow> inverted e | Some t \<Rightarrow> (inverted e)(t \<mapsto> op_id (acc_op a)))"
  "hashes (record_accepted a e) = hashes e"
  "(record_accepted a e)\<lparr>accepted := x, inverted := y\<rparr> = e\<lparr>accepted := x, inverted := y\<rparr>"
  by (simp_all add: record_accepted_def Let_def split: option.splits)

lemma prefix_run:
  assumes "digest32 H" "hashed H procs d" "history H procs d as dk" "latest_ok latest (doc_snapshot d)"
    and state: "\<exists>ts. rs_snapshot state = (doc_snapshot dk)\<lparr>tiles := ts\<rparr>"
    and "accepted e = accepted d" "inverted e = inverted d" "hashes e = hashes dk"
    and "retains d first" "unat (snap_revision (doc_snapshot d)) + length as < 2 ^ 64"
  shows "\<exists>latest'. latest_ok latest' (doc_snapshot dk) \<and>
    replay_ops H procs state revision (snap_revision (doc_snapshot d) + 1) (as @ bs) e latest res =
    replay_ops H procs state revision (snap_revision (doc_snapshot dk) + 1) bs
      (e\<lparr>accepted := accepted dk, inverted := inverted dk\<rparr>) latest' res"
  using assms(2-)
proof (induction as arbitrary: d e latest)
  case Nil
  then have "core dk = core d" by (simp add: history_Nil_iff)
  then have c: "doc_snapshot dk = doc_snapshot d" "accepted dk = accepted e" "inverted dk = inverted e"
    using Nil.prems(5,6) by (simp_all add: core_eq_iff)
  have "e\<lparr>accepted := accepted e, inverted := inverted e\<rparr> = e" by simp
  then show ?case using Nil.prems(3) by (intro exI [of _ latest]) (simp add: c)
next
  case (Cons a as)
  obtain d1 where d1: "accepts H procs d a d1" "history H procs d1 as dk"
    using Cons.prems(2) history_Cons_iff [OF assms(1) Cons.prems(1)] by blast
  note f = accepts_facts [OF assms(1) Cons.prems(1) d1(1)]
  note len = Cons.prems(9)
  have u: "unat (acc_revision a) = unat (snap_revision (doc_snapshot d)) + 1"
    using unat_add_of_nat [of "snap_revision (doc_snapshot d)" 1] len f(4) by simp
  have wrap: "unat (snap_revision (doc_snapshot d1)) + length as < 2 ^ 64" using u f(5) len by simp
  have le: "acc_revision a \<le> snap_revision (doc_snapshot dk)"
    using history_unat [OF assms(1) f(3) d1(2) wrap] f(5) by (simp add: word_le_nat_alt)
  have one: "history H procs d [a] d1" using d1(1) history_snoc_iff [of H procs d "[]" a d1] by (auto simp: history_Nil_iff)
  have r1: "retains d1 first" using history_retains [OF assms(1) Cons.prems(1) one Cons.prems(8)] len by simp
  have keep: "hashes dk r = hashes d r" if "r \<le> snap_revision (doc_snapshot d)" for r
    using history_retains [OF assms(1) Cons.prems(1) Cons.prems(2) Cons.prems(8)] len that by simp
  obtain ts r where snap: "doc_snapshot dk = (doc_snapshot d)\<lparr>tiles := ts, snap_revision := r\<rparr>"
    using history_snapshot(2) [OF assms(1) Cons.prems(1,2)] by blast
  obtain ts' where opened: "rs_snapshot state = (doc_snapshot dk)\<lparr>tiles := ts'\<rparr>" using Cons.prems(4) by blast
  have dom: "r \<le> snap_revision (doc_snapshot d)" if "hashes d r \<noteq> None" for r
    using Cons.prems(8) that by (auto simp: retains_def)
  have below: "r < acc_revision a" if "hashes d r \<noteq> None" for r
    using dom [OF that] u by (simp add: word_less_nat_alt word_le_nat_alt)
  have "check_prefix H procs state a e latest = Inr (record_accepted a e, note_changes (changes (acc_op a)) latest)"
    using dom keep Cons.prems(7)
    by (intro check_prefix_ok [OF assms(1) Cons.prems(1) f(1) Cons.prems(3) _ Cons.prems(5,6) _ below, where ts = ts' and r = r])
      (auto simp: opened snap)
  then have step: "replay_ops H procs state revision (snap_revision (doc_snapshot d) + 1) ((a # as) @ bs) e latest res =
      replay_ops H procs state revision (snap_revision (doc_snapshot d1) + 1) (as @ bs) (record_accepted a e)
        (note_changes (changes (acc_op a)) latest) res"
    using f(4,5,9,10) le opened Cons.prems(5) by (simp add: guard_def snap)
  have inv: "inverted (record_accepted a e) = inverted d1"
    using f(7) Cons.prems(6) by (cases "inverse_of (acc_op a)") (simp_all add: record_accepted_sel)
  show ?case unfolding step
    using Cons.IH [OF f(3) d1(2) latest_ok_advanced [OF Cons.prems(1) f(1) Cons.prems(3) f(2)] Cons.prems(4) _ inv _ r1 wrap] f(6) Cons.prems(5,7)
    by (simp add: record_accepted_sel)
qed

section \<open>The replayed suffix\<close>

lemma accepts_apply:
  assumes "digest32 H" "hashed H procs d" "core e = core d" "accepts H procs d a d'"
  shows "\<exists>e'. Apply H procs (acc_op a) (accepted_at a) e = (Inr a, e') \<and> core e' = core d'"
  using accepts_core [OF assms(2,3) refl assms(4)] by (simp add: accepts_def)

lemma replay_step:
  assumes "digest32 H" "hashed H procs d" "core e = core d" "accepts H procs d a d'"
    "fmlookup (rs_hashes state) (acc_revision a) = Some (map_hash d')"
    "result \<noteq> None \<or> snap_revision (doc_snapshot d) \<noteq> revision"
  shows "\<exists>e'. replay_one H procs state revision a e result = Inr (e', result) \<and> core e' = core d'"
proof -
  obtain e' where "Apply H procs (acc_op a) (accepted_at a) e = (Inr a, e')" "core e' = core d'"
    using accepts_apply [OF assms(1-4)] by blast
  then show ?thesis
    using assms(3,5,6) by (auto simp: replay_one_def guard_def text_of_def core_eq_iff)
qed

lemma replay_capture:
  assumes "digest32 H" "hashed H procs d" "core e = core d" "accepts H procs d a d'"
    "fmlookup (rs_hashes state) (acc_revision a) = Some (map_hash d')" "snap_revision (doc_snapshot d) = revision"
  shows "\<exists>e' x. replay_one H procs state revision a e None = Inr (e', Some x) \<and> core e' = core d' \<and> core x = core d"
proof -
  have c: "core (snd (Document_Clone e)) = core d" "core (fst (Document_Clone e)) = core d" using assms(3) by simp_all
  obtain e' where "Apply H procs (acc_op a) (accepted_at a) (snd (Document_Clone e)) = (Inr a, e')" "core e' = core d'"
    using accepts_apply [OF assms(1,2) c(1) assms(4)] by blast
  moreover have "doc_snapshot e = doc_snapshot d" using assms(3) by (simp add: core_eq_iff)
  ultimately show ?thesis
    using c(2) assms(5,6) by (cases "Document_Clone e") (auto simp: replay_one_def guard_def text_of_def core_eq_iff)
qed

lemma suffix_run:
  assumes "digest32 H" "hashed H procs d" "history H procs d as dn" "core e = core d"
    and "snap_document (rs_snapshot state) = snap_document (doc_snapshot d)"
      "snap_revision (rs_snapshot state) \<le> snap_revision (doc_snapshot d)"
    and "\<And>r. snap_revision (rs_snapshot state) \<le> r \<Longrightarrow> r \<le> snap_revision (doc_snapshot dn) \<Longrightarrow> fmlookup (rs_hashes state) r = hashes dn r"
    and "retains d first" "unat (snap_revision (doc_snapshot d)) + length as < 2 ^ 64"
    and "result \<noteq> None \<or> unat (snap_revision (doc_snapshot d)) + length as \<le> unat revision"
  shows "\<exists>e'. core e' = core dn \<and>
    replay_ops H procs state revision (snap_revision (doc_snapshot d) + 1) (as @ bs) e latest result =
    replay_ops H procs state revision (snap_revision (doc_snapshot dn) + 1) bs e' latest result"
  using assms(2-6,8-)
proof (induction as arbitrary: d e)
  case Nil
  then have c: "core dn = core d" by (simp add: history_Nil_iff)
  then have "doc_snapshot dn = doc_snapshot d" by (simp add: core_eq_iff)
  then show ?case using Nil.prems(3) c by (intro exI [of _ e]) simp
next
  case (Cons a as)
  obtain d1 where d1: "accepts H procs d a d1" "history H procs d1 as dn"
    using Cons.prems(2) history_Cons_iff [OF assms(1) Cons.prems(1)] by blast
  note f = accepts_facts [OF assms(1) Cons.prems(1) d1(1)]
  note len = Cons.prems(7)
  have u: "unat (acc_revision a) = unat (snap_revision (doc_snapshot d)) + 1"
    using unat_add_of_nat [of "snap_revision (doc_snapshot d)" 1] len f(4) by simp
  have wrap: "unat (snap_revision (doc_snapshot d1)) + length as < 2 ^ 64" using u f(5) len by simp
  have one: "history H procs d [a] d1" using d1(1) history_snoc_iff [of H procs d "[]" a d1] by (auto simp: history_Nil_iff)
  have r1: "retains d1 first" using history_retains [OF assms(1) Cons.prems(1) one Cons.prems(6)] len by simp
  have gt: "snap_revision (rs_snapshot state) < acc_revision a"
    using Cons.prems(5) u by (simp add: word_less_nat_alt word_le_nat_alt)
  have le: "acc_revision a \<le> snap_revision (doc_snapshot dn)"
    using history_unat [OF assms(1) f(3) d1(2) wrap] f(5) by (simp add: word_le_nat_alt)
  have h: "fmlookup (rs_hashes state) (acc_revision a) = Some (map_hash d1)"
    using assms(7) [OF less_imp_le [OF gt] le] history_retains [OF assms(1) f(3) d1(2) r1 wrap] f(5) f(8) by simp
  have "result \<noteq> None \<or> snap_revision (doc_snapshot d) \<noteq> revision" using Cons.prems(8) by auto
  then obtain e1 where e1: "replay_one H procs state revision a e result = Inr (e1, result)" "core e1 = core d1"
    using replay_step [where state = state and revision = revision and result = result,
        OF assms(1) Cons.prems(1,3) d1(1)] h by blast
  have e: "accepted e = accepted d" using Cons.prems(3) by (simp add: core_eq_iff)
  have step: "replay_ops H procs state revision (snap_revision (doc_snapshot d) + 1) ((a # as) @ bs) e latest result =
      replay_ops H procs state revision (snap_revision (doc_snapshot d1) + 1) (as @ bs) e1 latest result"
    using f(4,5,9,10) gt [unfolded not_le [symmetric]] Cons.prems(4) e1(1) by (simp add: guard_def e)
  have doc: "snap_document (rs_snapshot state) = snap_document (doc_snapshot d1)"
    using history_snapshot(2) [OF assms(1) Cons.prems(1) one] Cons.prems(4) by auto
  show ?case unfolding step
    using Cons.IH [OF f(3) d1(2) e1(2) doc _ r1 wrap] gt f(5) u Cons.prems(8) by (simp add: less_imp_le)
qed

section \<open>Exact recovery\<close>

lemma fold_upd_map_of:
  "distinct (map fst xs) \<Longrightarrow> foldl (\<lambda>m (k, v). m(k \<mapsto> v)) m xs = m ++ map_of xs"
proof (induction xs arbitrary: m)
  case (Cons x xs)
  obtain k v where x: "x = (k, v)" by force
  have "map_of xs k = None" using Cons.prems by (simp add: x map_of_eq_None_iff)
  then show ?case using Cons by (auto simp: x map_add_def fun_eq_iff split: option.splits)
qed simp

lemma snapshot_tiles_table: "distinct (map tile_coord ts) \<Longrightarrow> snapshot_tiles ts = tile_table ts"
  using fold_upd_map_of [of "map (\<lambda>t. (tile_coord t, tile_st t)) ts" Map.empty]
  by (simp add: snapshot_tiles_def tile_table_def foldl_map comp_def)

lemma latest_ok_agrees:
  assumes "latest_ok latest s" "snapshot_ok s"
  shows "latest_agrees latest (tiles s)"
  using assms by (force simp: latest_agrees_def latest_ok_def list_all_iff set_entries snapshot_tiles_table
      snapshot_ok_def TileState_Equal_view)

lemma latest_ok_same:
  assumes "same_map s u" "latest_ok latest s"
  shows "latest_ok latest u"
  unfolding latest_ok_def
proof (intro allI impI)
  fix c st
  assume "fmlookup latest c = Some st"
  then obtain st' where st': "tile_table (tiles s) c = Some st'" "tile_view st' = tile_view st"
    using assms(2) by (auto simp: latest_ok_def)
  then have "c \<in> dom (tile_table (tiles u))"
    using same_mapD(9) [OF assms(1)] dom_tile_table [of "tiles s"] dom_tile_table [of "tiles u"] by auto
  then obtain st'' where st'': "tile_table (tiles u) c = Some st''" by blast
  then have "tile_view st'' = tile_view st"
    using fun_cong [OF same_mapD(10) [OF assms(1)], of c] st' by (simp add: map_view_def)
  then show "\<exists>st'. tile_table (tiles u) c = Some st' \<and> tile_view st' = tile_view st" using st'' by blast
qed

lemma authoritative_hashes_eq:
  assumes "\<And>r. r \<le> snap_revision (rs_snapshot state) \<Longrightarrow> fmlookup (rs_hashes state) r = hs r"
    "\<And>r. \<not> r \<le> snap_revision (rs_snapshot state) \<Longrightarrow> hs r = None"
    "hashes d = [snap_revision (rs_snapshot state) \<mapsto> h]" "hs (snap_revision (rs_snapshot state)) = Some h"
  shows "authoritative_hashes state d = d\<lparr>hashes := hs\<rparr>"
proof -
  have "foldl (\<lambda>m (r, hash). if r \<le> snap_revision (rs_snapshot state) then m(r \<mapsto> hash) else m) (hashes d)
      (map_entries (rs_hashes state)) = hs"
    using assms
    by (auto simp: fun_eq_iff entries_update [OF distinct_entries] map_of_entries split: option.splits)
  then show ?thesis by (simp add: authoritative_hashes_def)
qed

definition state_of :: "document \<Rightarrow> accepted_operation list \<Rightarrow> (revision, string) fmap \<Rightarrow> document \<Rightarrow> recovery_state" where
  "state_of dk as hs dn =
     \<lparr>rs_snapshot = doc_snapshot dk, rs_snapshot_hash = map_hash dk, rs_operations = as, rs_hashes = hs,
      rs_head_revision = snap_revision (doc_snapshot dn), rs_head_hash = map_hash dn\<rparr>"

lemma state_of_sel [simp]:
  "rs_snapshot (state_of dk as hs dn) = doc_snapshot dk" "rs_snapshot_hash (state_of dk as hs dn) = map_hash dk"
  "rs_operations (state_of dk as hs dn) = as" "rs_hashes (state_of dk as hs dn) = hs"
  "rs_head_revision (state_of dk as hs dn) = snap_revision (doc_snapshot dn)" "rs_head_hash (state_of dk as hs dn) = map_hash dn"
  by (simp_all add: state_of_def)

text \<open>The replay loop on the operations after the snapshot, with the wanted revision among them.\<close>

lemma suffix_restores:
  fixes as :: "accepted_operation list"
  assumes "digest32 H" "hashed H procs dk" "history H procs dk q1 dr" "history H procs dr q2 dn" "core e = core dk"
    and "fmlookup hs = hashes dn" "retains dk first"
      "unat (snap_revision (doc_snapshot dk)) + length q1 + length q2 < 2 ^ 64"
  defines "state \<equiv> state_of dk as hs dn"
  shows "\<exists>e' result. replay_ops H procs state (snap_revision (doc_snapshot dr)) (snap_revision (doc_snapshot dk) + 1)
      (q1 @ q2) e latest None = Inr (e', latest, result) \<and> core e' = core dn \<and>
    core (case result of Some x \<Rightarrow> x | None \<Rightarrow> e') = core dr"
proof -
  let ?rev = "snap_revision (doc_snapshot dr)"
  have u: "unat ?rev = unat (snap_revision (doc_snapshot dk)) + length q1"
    using history_unat [OF assms(1-3)] assms(8) by simp
  have hr: "hashed H procs dr" and dr: "snap_document (doc_snapshot dr) = snap_document (doc_snapshot dk)"
    using history_hashed [OF assms(1-3)] history_snapshot(2) [OF assms(1-3)] by auto
  have rr: "retains dr first" using history_retains [OF assms(1-3,7)] assms(8) by simp
  have keep: "hashes dn r = hashes dr r" if "r \<le> ?rev" for r
    using history_retains [OF assms(1) hr assms(4) rr] assms(8) u that by simp
  obtain e1 where e1: "core e1 = core dr" "replay_ops H procs state ?rev (snap_revision (doc_snapshot dk) + 1) (q1 @ q2) e latest None =
      replay_ops H procs state ?rev (?rev + 1) q2 e1 latest None"
    using suffix_run [where state = state and result = None and revision = ?rev and bs = q2 and latest = latest,
        OF assms(1-3,5) _ _ _ assms(7)] u assms(8) keep by (auto simp: state_def assms(6))
  show ?thesis
  proof (cases q2)
    case Nil
    then have "core dn = core dr" using assms(4) by (simp add: history_Nil_iff)
    then show ?thesis using e1 Nil by simp
  next
    case (Cons a as')
    obtain d1 where d1: "accepts H procs dr a d1" "history H procs d1 as' dn"
      using assms(4) Cons history_Cons_iff [OF assms(1) hr] by blast
    note f = accepts_facts [OF assms(1) hr d1(1)]
    have ua: "unat (acc_revision a) = unat ?rev + 1"
      using unat_add_of_nat [of ?rev 1] assms(8) u f(4) Cons by simp
    have wrap: "unat (snap_revision (doc_snapshot d1)) + length as' < 2 ^ 64" using ua f(5) assms(8) u Cons by simp
    have one: "history H procs dr [a] d1" using d1(1) history_snoc_iff [of H procs dr "[]" a d1] by (auto simp: history_Nil_iff)
    have r1: "retains d1 first" using history_retains [OF assms(1) hr one rr] assms(8) u Cons by simp
    have "fmlookup (rs_hashes state) (acc_revision a) = Some (map_hash d1)"
      using history_retains [OF assms(1) f(3) d1(2) r1 wrap] f(5,8) by (simp add: state_def assms(6))
    from replay_capture [OF assms(1) hr e1(1) d1(1) this refl] obtain e2 x where
        e2: "replay_one H procs state ?rev a e1 None = Inr (e2, Some x)" "core e2 = core d1" "core x = core dr" by blast
    have d: "snap_document (doc_snapshot d1) = snap_document (doc_snapshot dk)"
      using history_snapshot(2) [OF assms(1) hr one] dr by auto
    have gt: "snap_revision (doc_snapshot dk) < acc_revision a" using ua u by (simp add: word_less_nat_alt)
    obtain e3 where e3: "core e3 = core dn" "replay_ops H procs state ?rev (snap_revision (doc_snapshot d1) + 1) as' e2 latest (Some x) =
        replay_ops H procs state ?rev (snap_revision (doc_snapshot dn) + 1) [] e3 latest (Some x)"
      using suffix_run [where state = state and result = "Some x" and revision = ?rev and bs = "[]" and latest = latest,
          OF assms(1) f(3) d1(2) e2(2) _ _ _ r1 wrap] d less_imp_le [OF gt] f(5)
      by (auto simp: state_def assms(6))
    have ac: "accepted e1 = accepted dr" using e1(1) by (simp add: core_eq_iff)
    have "replay_ops H procs state ?rev (?rev + 1) q2 e1 latest None =
        replay_ops H procs state ?rev (snap_revision (doc_snapshot d1) + 1) as' e2 latest (Some x)"
      using f(4,5,9,10) gt [unfolded not_le [symmetric]] e2(1) dr by (simp add: Cons guard_def ac state_def)
    then show ?thesis using e1(2) e2(3) e3 by simp
  qed
qed

text \<open>The recovery data: the history from the first snapshot \<open>s0\<close> to the published one, whose map is
  that of \<open>dk\<close>, and on to the head. The document \<open>ek\<close> is \<open>dk\<close> as the published snapshot writes it.\<close>

lemma RestoreAt_history:
  assumes "digest32 H" "NewDocument H procs s0 = Inr d0"
    and "history H procs d0 p dk" "twin H procs dk ek" "history H procs ek q1 dr" "history H procs dr q2 dn"
    and "unat (snap_revision s0) + length p + length q1 + length q2 < 2 ^ 64" "fmlookup hs = hashes dn"
  shows "\<exists>e. RestoreAt H procs (state_of ek (p @ q1 @ q2) hs dn) (snap_revision (doc_snapshot dr)) = Inr e \<and> core e = core dr"
proof -
  let ?state = "state_of ek (p @ q1 @ q2) hs dn" and ?s = "doc_snapshot ek"
  note t = twinD [OF assms(4)] and m = same_mapD [OF twinD(3) [OF assms(4)]]
  have s0: "doc_snapshot d0 = s0" using NewDocument_ok [OF assms(2)] by simp
  have h0: "hashed H procs d0" and r0: "retains d0 (snap_revision s0)"
    using NewDocument_hashed [OF assms(1,2)] retains_new [OF assms(1,2)] by blast+
  have hr: "hashed H procs dr" by (rule history_hashed [OF assms(1) t(2) assms(5)])
  have hn: "hashed H procs dn" by (rule history_hashed [OF assms(1) hr assms(6)])
  have uk: "unat (snap_revision ?s) = unat (snap_revision s0) + length p"
    using history_unat [OF assms(1) h0 assms(3)] assms(7) m(5) by (simp add: s0)
  have ur: "unat (snap_revision (doc_snapshot dr)) = unat (snap_revision ?s) + length q1"
    using history_unat [OF assms(1) t(2) assms(5)] assms(7) uk by simp
  have un: "unat (snap_revision (doc_snapshot dn)) = unat (snap_revision (doc_snapshot dr)) + length q2"
    using history_unat [OF assms(1) hr assms(6)] assms(7) uk ur by simp
  have "retains dk (snap_revision s0)" using history_retains [OF assms(1) h0 assms(3) r0] assms(7) by (simp add: s0)
  then have rk: "retains ek (snap_revision s0)" by (simp add: retains_def t(4) m(5))
  have rr: "retains dr (snap_revision s0)" using history_retains [OF assms(1) t(2) assms(5) rk] assms(7) uk by simp
  have rn: "retains dn (snap_revision s0)" using history_retains [OF assms(1) hr assms(6) rr] assms(7) uk ur by simp
  have keep: "hashes dn r = hashes ek r" if "r \<le> snap_revision ?s" for r
    using history_retains [OF assms(1) t(2) assms(5) rk] history_retains [OF assms(1) hr assms(6) rr] that assms(7) uk ur
    by (simp add: word_le_nat_alt)
  obtain e where e: "NewDocument H procs ?s = Inr e"
      "core (e\<lparr>hashes := hashes ek, accepted := accepted ek, inverted := inverted ek\<rparr>) = core ek"
      "accepted e = fmempty" "inverted e = Map.empty" "hashes e = [snap_revision ?s \<mapsto> map_hash ek]"
    using reopen [OF t(2)] by blast
  have me: "map_hash e = map_hash ek" using e(2) by (simp add: core_eq_iff)
  have ek: "hashes dn (snap_revision ?s) = Some (map_hash ek)" using keep hashed_facts(6) [OF t(2)] by simp
  have auth: "authoritative_hashes ?state e = e\<lparr>hashes := hashes ek\<rparr>"
    using keep rk ek e(5) by (intro authoritative_hashes_eq [where h = "map_hash ek"])
      (auto simp: assms(8) retains_def)
  have scan: "scan_hashes (snap_revision (doc_snapshot dn)) (map_entries hs) (snap_revision ?s) = Inr (snap_revision s0)"
    using rn rk by (intro scan_hashes_first) (auto simp: assms(8) retains_def)
  have first: "snap_revision s0 \<le> snap_revision (doc_snapshot dn)" using rn by (simp add: retains_def)
  have len: "unat (snap_revision (doc_snapshot dn) - snap_revision s0) = length (p @ q1 @ q2)"
    "map_len hs = length (p @ q1 @ q2) + 1"
    using uk ur un unat_sub [OF first] range_len [of hs, OF _ first] rn by (simp_all add: assms(8) retains_def)
  have empty_latest: "latest_ok fmempty s" for s by (simp add: latest_ok_def)
  have written: "\<exists>ts. rs_snapshot ?state = (doc_snapshot dk)\<lparr>tiles := ts\<rparr>"
  proof -
    have "?s = (doc_snapshot dk)\<lparr>tiles := tiles ?s\<rparr>" using t(3) by (simp add: same_map_def)
    then show ?thesis by auto
  qed
  obtain latest where latest: "latest_ok latest (doc_snapshot dk)"
      "replay_ops H procs ?state (snap_revision (doc_snapshot dr)) (snap_revision s0 + 1) (p @ q1 @ q2)
        (e\<lparr>hashes := hashes dk\<rparr>) fmempty None =
      replay_ops H procs ?state (snap_revision (doc_snapshot dr)) (snap_revision (doc_snapshot dk) + 1) (q1 @ q2)
        (e\<lparr>hashes := hashes dk, accepted := accepted dk, inverted := inverted dk\<rparr>) latest None"
    using prefix_run [where state = ?state and e = "e\<lparr>hashes := hashes dk\<rparr>" and latest = fmempty and bs = "q1 @ q2"
        and res = None and revision = "snap_revision (doc_snapshot dr)", OF assms(1) h0 assms(3) _ written _ _ _ r0]
      NewDocument_ok [OF assms(2)] e(3,4) assms(7) empty_latest
    by (auto simp: s0)
  obtain e' result where e': "replay_ops H procs ?state (snap_revision (doc_snapshot dr)) (snap_revision ?s + 1) (q1 @ q2)
        (e\<lparr>hashes := hashes ek, accepted := accepted ek, inverted := inverted ek\<rparr>) latest None = Inr (e', latest, result)"
      "core e' = core dn" "core (case result of Some x \<Rightarrow> x | None \<Rightarrow> e') = core dr"
    using suffix_restores [OF assms(1) t(2) assms(5,6) e(2) assms(8) rk] assms(7) uk by fastforce
  have agree: "latest_agrees latest (tiles ?s)"
    by (rule latest_ok_agrees [OF latest_ok_same [OF t(3) latest(1)] t(9)])
  have fin: "doc_snapshot e' = doc_snapshot dn" "map_hash e' = map_hash dn" "hashes dn (snap_revision (doc_snapshot dn)) = Some (map_hash dn)"
    using e'(2) hashed_facts(6) [OF hn] by (simp_all add: core_eq_iff)
  have range: "\<not> snap_revision (doc_snapshot dr) < snap_revision ?s" "\<not> snap_revision (doc_snapshot dr) > snap_revision (doc_snapshot dn)"
    "\<not> snap_revision (doc_snapshot dn) < snap_revision s0"
    using ur un first by (simp_all add: word_less_nat_alt word_le_nat_alt)
  note run = latest(2) [unfolded t(4-6) m(5)]
  show ?thesis
    using e'(3) unfolding RestoreAt_def Let_def state_of_sel e(1)
    by (simp add: guard_def me assms(8) ek text_of_def range scan len auth run e'(1) agree fin)
qed

end
