(* ===== verification/Store_Inv.thy ===== *)
theory Store_Inv
  imports Memory_Store Recovery_Correct
begin

text \<open>
  The invariant of the session store: behind every session stands one history of accepted
  operations, and each table of the store is a view of it. The specification of a session is its
  log, a snapshot and the operations after it; \<open>snapshot_after\<close> is the map the log denotes.
\<close>

section \<open>The map a log denotes\<close>

definition next_snapshot :: "snapshot \<Rightarrow> accepted_operation \<Rightarrow> snapshot" where
  "next_snapshot s a =
     s\<lparr>tiles := write_tiles (index_from (tiles s) 0 Map.empty) (changes (acc_op a)) (tiles s),
       snap_revision := snap_revision s + 1\<rparr>"

definition snapshot_after :: "snapshot \<Rightarrow> accepted_operation list \<Rightarrow> snapshot" where
  "snapshot_after s as = foldl next_snapshot s as"

lemma accepts_next_snapshot:
  assumes "digest32 H" "hashed H procs d" "accepts H procs d a d'"
  shows "doc_snapshot d' = next_snapshot (doc_snapshot d) a"
proof -
  note ok = doc_okD [OF hashed_facts(1) [OF assms(2)]]
  have "indexes_ok (tiles (doc_snapshot d)) (index_from (tiles (doc_snapshot d)) 0 Map.empty)"
    using indexes_snoc [of "[]" Map.empty "tiles (doc_snapshot d)"] ok(4) by (simp add: indexes_ok_def)
  then have "index_from (tiles (doc_snapshot d)) 0 Map.empty = tile_indexes d" using ok(2) by (rule indexes_unique)
  then show ?thesis
    using accepts_facts(2) [OF assms] by (simp add: core_eq_iff advanced_def rewritten_def next_snapshot_def)
qed

lemma history_snapshot_after:
  assumes "digest32 H" "hashed H procs d0" "history H procs d0 as d"
  shows "doc_snapshot d = snapshot_after (doc_snapshot d0) as"
  using assms(3)
proof induction
  case (history_start d)
  then show ?case by (simp add: core_eq_iff snapshot_after_def)
next
  case (history_step as d a d')
  have "hashed H procs d" by (rule history_hashed [OF assms(1,2) history_step.hyps(1)])
  from accepts_next_snapshot [OF assms(1) this history_step.hyps(2)] show ?case
    using history_step.IH by (simp add: snapshot_after_def)
qed

lemma history_core:
  assumes "digest32 H" "hashed H procs d0" "history H procs d0 as d" "core e = core d"
  shows "history H procs d0 as e"
  using history_append_iff [OF assms(1,2), of as "[]" e] assms(3,4) by (auto simp: history_Nil_iff)

section \<open>The invariant\<close>

definition backed ::
  "digest_fun \<Rightarrow> nat \<Rightarrow> document_id \<Rightarrow> snapshot \<Rightarrow> accepted_operation list \<Rightarrow> document \<Rightarrow>
     accepted_operation list \<Rightarrow> document \<Rightarrow> bool" where
  "backed H procs i s0 p dk q dn \<longleftrightarrow> snap_document s0 = i \<and>
     (\<exists>d0. NewDocument H procs s0 = Inr d0 \<and> history H procs d0 p dk) \<and> history H procs dk q dn \<and>
     unat (snap_revision s0) + length p + length q < 2 ^ 64"

text \<open>The published snapshot \<open>s\<close> holds the map of the document \<open>dk\<close>, perhaps written differently.\<close>

definition published_as :: "snapshot \<Rightarrow> document \<Rightarrow> bool" where
  "published_as s dk \<longleftrightarrow> snapshot_ok s \<and> same_map s (doc_snapshot dk)"

definition session_ok :: "digest_fun \<Rightarrow> nat \<Rightarrow> memory_store \<Rightarrow> document_id \<Rightarrow> bool" where
  "session_ok H procs st i \<longleftrightarrow>
     (\<exists>s0 p dk q dn hs s. backed H procs i s0 p dk q dn \<and>
        sessions st i = Some s \<and> published_as s dk \<and> operations st i = Some q \<and> documents st i = Some dn \<and>
        st_accepted st i = Some (accepted dn) \<and> st_hashes st i = Some hs \<and> fmlookup hs = hashes dn \<and>
        revision_heads st i = Some (snap_revision (doc_snapshot dn))) \<and>
     checkpoints st i \<noteq> None \<and> checkpoint_keys st i \<noteq> None \<and> transaction_versions st i \<in> {Some 1, Some 2}"

definition no_session :: "memory_store \<Rightarrow> document_id \<Rightarrow> bool" where
  "no_session st i \<longleftrightarrow> sessions st i = None \<and> operations st i = None \<and> documents st i = None \<and>
     st_accepted st i = None \<and> st_hashes st i = None \<and> revision_heads st i = None \<and>
     checkpoints st i = None \<and> checkpoint_keys st i = None \<and> transaction_versions st i = None"

definition store_ok :: "digest_fun \<Rightarrow> nat \<Rightarrow> memory_store \<Rightarrow> bool" where
  "store_ok H procs st \<longleftrightarrow> (\<forall>i. no_session st i \<or> session_ok H procs st i)"

lemma backedD:
  assumes "digest32 H" "backed H procs i s0 p dk q dn"
  shows "hashed H procs dk" "hashed H procs dn" "history H procs dk q dn"
    "snap_document (doc_snapshot dk) = i" "snap_document (doc_snapshot dn) = i"
    "doc_snapshot dn = snapshot_after (doc_snapshot dk) q"
    "unat (snap_revision (doc_snapshot dk)) = unat (snap_revision s0) + length p"
    "unat (snap_revision (doc_snapshot dn)) = unat (snap_revision s0) + length p + length q"
    "retains dk (snap_revision s0)" "retains dn (snap_revision s0)"
    "length q = unat (snap_revision (doc_snapshot dn) - snap_revision (doc_snapshot dk))"
proof -
  obtain d0 where d0: "NewDocument H procs s0 = Inr d0" "history H procs d0 p dk" and q: "history H procs dk q dn"
      and i: "snap_document s0 = i" and w: "unat (snap_revision s0) + length p + length q < 2 ^ 64"
    using assms(2) by (auto simp: backed_def)
  have h0: "hashed H procs d0" by (rule NewDocument_hashed [OF assms(1) d0(1)])
  have s0: "doc_snapshot d0 = s0" using NewDocument_ok [OF d0(1)] by simp
  show hk: "hashed H procs dk" by (rule history_hashed [OF assms(1) h0 d0(2)])
  show "hashed H procs dn" by (rule history_hashed [OF assms(1) hk q])
  show "history H procs dk q dn" by (rule q)
  show ik: "snap_document (doc_snapshot dk) = i" using history_snapshot(2) [OF assms(1) h0 d0(2)] i s0 by auto
  show "snap_document (doc_snapshot dn) = i" using history_snapshot(2) [OF assms(1) hk q] ik by auto
  show "doc_snapshot dn = snapshot_after (doc_snapshot dk) q" by (rule history_snapshot_after [OF assms(1) hk q])
  show uk: "unat (snap_revision (doc_snapshot dk)) = unat (snap_revision s0) + length p"
    using history_unat [OF assms(1) h0 d0(2)] w s0 by simp
  show un: "unat (snap_revision (doc_snapshot dn)) = unat (snap_revision s0) + length p + length q"
    using history_unat [OF assms(1) hk q] w uk by simp
  show rk: "retains dk (snap_revision s0)"
    using history_retains [OF assms(1) h0 d0(2) retains_new [OF assms(1) d0(1)]] w s0 by simp
  show "retains dn (snap_revision s0)" using history_retains [OF assms(1) hk q rk] w uk by simp
  have "snap_revision (doc_snapshot dk) \<le> snap_revision (doc_snapshot dn)" using uk un by (simp add: word_le_nat_alt)
  then show "length q = unat (snap_revision (doc_snapshot dn) - snap_revision (doc_snapshot dk))"
    using unat_sub uk un by fastforce
qed

lemma backed_revisions:
  assumes "digest32 H" "backed H procs i s0 p dk q dn" "k < length q"
  shows "unat (acc_revision (q ! k)) = unat (snap_revision (doc_snapshot dk)) + k + 1"
proof -
  note b = backedD [OF assms(1,2)]
  have "acc_revision (q ! k) = snap_revision (doc_snapshot dk) + of_nat k + 1"
    using history_revisions [OF assms(1) b(1,3)] assms(3) by (metis (no_types, lifting) length_map length_upt nth_map nth_upt add_0 diff_zero)
  then have "acc_revision (q ! k) = snap_revision (doc_snapshot dk) + of_nat (k + 1)" by (simp add: add.assoc)
  moreover have "unat (snap_revision (doc_snapshot dk)) + (k + 1) < 2 ^ 64"
    using b(7) assms(2,3) by (simp add: backed_def)
  ultimately show ?thesis by (simp only: unat_add_of_nat)
qed

text \<open>Publishing the map after the first \<open>k\<close> operations of the log moves them behind the snapshot.\<close>

lemma backed_split:
  assumes "digest32 H" "backed H procs i s0 p dk q dn" "k \<le> length q"
  shows "\<exists>dr. backed H procs i s0 (p @ take k q) dr (drop k q) dn \<and> history H procs dk (take k q) dr \<and>
    doc_snapshot dr = snapshot_after (doc_snapshot dk) (take k q) \<and>
    unat (snap_revision (doc_snapshot dr)) = unat (snap_revision (doc_snapshot dk)) + k \<and>
    filter (\<lambda>a. acc_revision a > snap_revision (doc_snapshot dr)) q = drop k q"
proof -
  note b = backedD [OF assms(1,2)]
  obtain d0 where d0: "NewDocument H procs s0 = Inr d0" "history H procs d0 p dk" using assms(2) by (auto simp: backed_def)
  have h0: "hashed H procs d0" by (rule NewDocument_hashed [OF assms(1) d0(1)])
  obtain dr where dr: "history H procs dk (take k q) dr" "history H procs dr (drop k q) dn"
    using b(3) history_append_iff [OF assms(1) b(1), of "take k q" "drop k q" dn] by auto
  have "history H procs d0 (p @ take k q) dr" using d0(2) dr(1) history_append_iff [OF assms(1) h0] by blast
  then have bk: "backed H procs i s0 (p @ take k q) dr (drop k q) dn"
    using d0(1) dr(2) assms(2,3) by (auto simp: backed_def)
  have u: "unat (snap_revision (doc_snapshot dr)) = unat (snap_revision (doc_snapshot dk)) + k"
    using backedD(7) [OF assms(1) bk] b(7) assms(3) by simp
  have "acc_revision a > snap_revision (doc_snapshot dr)" if "a \<in> set (drop k q)" for a
    using that backed_revisions [OF assms(1,2)] u by (auto simp: in_set_conv_nth word_less_nat_alt)
  moreover have "\<not> acc_revision a > snap_revision (doc_snapshot dr)" if "a \<in> set (take k q)" for a
    using that backed_revisions [OF assms(1,2)] u by (auto simp: in_set_conv_nth word_less_nat_alt)
  ultimately have "filter (\<lambda>a. acc_revision a > snap_revision (doc_snapshot dr)) (take k q @ drop k q) = drop k q"
    unfolding filter_append by (simp add: filter_empty_conv filter_id_conv del: append_take_drop_id)
  then show ?thesis using bk u dr(1) history_snapshot_after [OF assms(1) b(1) dr(1)] by auto
qed

text \<open>The maps of the log as the published snapshot writes them.\<close>

lemma published_history:
  assumes "digest32 H" "hashed H procs dk" "published_as s dk" "history H procs dk as dr"
  shows "\<exists>ek er. twin H procs dk ek \<and> doc_snapshot ek = s \<and> history H procs ek as er \<and> twin H procs dr er \<and>
    doc_snapshot er = snapshot_after s as"
proof -
  obtain ek where ek: "twin H procs dk ek" "doc_snapshot ek = s"
    using reopen_twin [OF assms(1,2)] assms(3) unfolding published_as_def by blast
  obtain er where er: "history H procs ek as er" "twin H procs dr er" using twin_history [OF assms(1,4) ek(1)] by blast
  show ?thesis using ek er history_snapshot_after [OF assms(1) twinD(2) [OF ek(1)] er(1)] by auto
qed

lemma published_after:
  assumes "digest32 H" "hashed H procs dk" "published_as s dk" "history H procs dk as dr"
  shows "published_as (snapshot_after s as) dr" "Snapshot_Hash H procs (snapshot_after s as) = Inr (map_hash dr)"
proof -
  obtain er where er: "twin H procs dr er" "doc_snapshot er = snapshot_after s as" using published_history [OF assms] by blast
  note t = twinD [OF er(1)]
  show "published_as (snapshot_after s as) dr" using t(9) same_map_sym [OF t(3)] by (simp add: published_as_def er(2))
  show "Snapshot_Hash H procs (snapshot_after s as) = Inr (map_hash dr)"
    using Snapshot_Hash_full [OF t(9)] hashed_facts(5) [OF t(2)] t(7) by (simp add: er(2))
qed

lemma published_refl: "hashed H procs d \<Longrightarrow> published_as (doc_snapshot d) d"
  using doc_okD(1) [OF hashed_facts(1)] by (simp add: published_as_def)

lemma published_revision: "published_as s dk \<Longrightarrow> snap_revision s = snap_revision (doc_snapshot dk)"
  unfolding published_as_def using same_mapD(5) by blast

section \<open>Steps of a store\<close>

text \<open>
  Any call of any method, with any context. Three things are asked of the callers. No operation is
  appended after revision \<open>2\<^sup>64 - 1\<close>. A snapshot offered for publication carries the environment hash
  of its document, which the code does not check (\<open>save_ignores_environment\<close> shows what happens
  otherwise). And its map hash does not collide with the hash of a different map of the log: two
  snapshots with equal hashes are alike, which C12 proves when the digest function does not collide on
  the bytes hashed. Whether the offered snapshot is a version of the log is not assumed; the store
  finds out from its revision and its hash.
\<close>

definition publishable :: "digest_fun \<Rightarrow> nat \<Rightarrow> memory_store \<Rightarrow> snapshot \<Rightarrow> bool" where
  "publishable H procs st s \<longleftrightarrow>
     (case sessions st (snap_document s) of None \<Rightarrow> True
      | Some base \<Rightarrow> environment_hash s = environment_hash base \<and>
          (\<forall>k \<le> length (ops_of st (snap_document s)).
             let u = snapshot_after base (take k (ops_of st (snap_document s))) in
             Snapshot_Hash H procs s = Snapshot_Hash H procs u \<longrightarrow>
               max_x s = max_x u \<and> max_y s = max_y u \<and> max_z s = max_z u \<and> canonical_views s = canonical_views u))"

text \<open>The collision condition follows from an injective digest on the bytes hashed.\<close>

lemma publishable_no_collision:
  assumes "digest32 H" "sessions st (snap_document s) = Some base" "environment_hash s = environment_hash base" "snapshot_sized s"
    and "\<And>k. k \<le> length (ops_of st (snap_document s)) \<Longrightarrow>
      (let u = snapshot_after base (take k (ops_of st (snap_document s))) in
         snapshot_sized u \<and> inj_on H (Hash_Binding.hashed H s \<union> Hash_Binding.hashed H u))"
    and "Snapshot_Hash H procs s = Inr h"
  shows "publishable H procs st s"
  unfolding publishable_def canonical_views_def
  using assms map_hash_binding [OF assms(1) _ assms(4) _ assms(6), where procs' = procs] by (simp add: Let_def)

inductive store_step :: "digest_fun \<Rightarrow> nat \<Rightarrow> memory_store \<Rightarrow> memory_store \<Rightarrow> bool" for H procs where
  step_create: "store_step H procs st (snd (Create H procs c s st))"
| step_append: "acc_revision a \<noteq> 0 \<Longrightarrow> store_step H procs st (snd (Append H procs c a st))"
| step_save: "publishable H procs st s \<Longrightarrow> store_step H procs st (snd (SaveSnapshot H procs c s st))"
| step_configure: "store_step H procs st (snd (ConfigureTransactions c i v st))"
| step_checkpoint: "store_step H procs st (snd (CreateExportCheckpoint c cp st))"
| step_complete: "store_step H procs st (snd (CompleteExportCheckpoint c i k completion st))"
| step_close: "store_step H procs st (Close st)"

inductive store_reachable :: "digest_fun \<Rightarrow> nat \<Rightarrow> memory_store \<Rightarrow> bool" for H procs where
  store_new: "store_reachable H procs NewMemoryStore"
| store_next: "store_reachable H procs st \<Longrightarrow> store_step H procs st st' \<Longrightarrow> store_reachable H procs st'"

text \<open>\<open>same_at\<close>: two stores agree on a session, up to the sharing flags of its document.\<close>

definition same_at :: "memory_store \<Rightarrow> memory_store \<Rightarrow> document_id \<Rightarrow> bool" where
  "same_at st st' i \<longleftrightarrow> sessions st' i = sessions st i \<and> operations st' i = operations st i \<and>
     map_option core (documents st' i) = map_option core (documents st i) \<and>
     st_accepted st' i = st_accepted st i \<and> st_hashes st' i = st_hashes st i \<and>
     revision_heads st' i = revision_heads st i \<and> checkpoints st' i = checkpoints st i \<and>
     checkpoint_keys st' i = checkpoint_keys st i \<and> transaction_versions st' i = transaction_versions st i"

lemma same_at_refl [simp]: "same_at st st i"
  by (simp add: same_at_def)

lemma session_ok_I:
  assumes "backed H procs i s0 p dk q dn" "sessions st i = Some s" "published_as s dk" "operations st i = Some q"
    "documents st i = Some dn" "st_accepted st i = Some (accepted dn)" "st_hashes st i = Some hs" "fmlookup hs = hashes dn"
    "revision_heads st i = Some (snap_revision (doc_snapshot dn))" "checkpoints st i \<noteq> None" "checkpoint_keys st i \<noteq> None"
    "transaction_versions st i \<in> {Some 1, Some 2}"
  shows "session_ok H procs st i"
  using assms unfolding session_ok_def by blast

lemma session_ok_E:
  assumes "session_ok H procs st i"
  obtains s0 p dk q dn hs s where "backed H procs i s0 p dk q dn" "sessions st i = Some s" "published_as s dk"
    "operations st i = Some q" "documents st i = Some dn" "st_accepted st i = Some (accepted dn)" "st_hashes st i = Some hs"
    "fmlookup hs = hashes dn" "revision_heads st i = Some (snap_revision (doc_snapshot dn))" "checkpoints st i \<noteq> None"
    "checkpoint_keys st i \<noteq> None" "transaction_versions st i \<in> {Some 1, Some 2}"
  using assms unfolding session_ok_def by blast

lemma backed_core:
  assumes "digest32 H" "backed H procs i s0 p dk q dn" "core e = core dn"
  shows "backed H procs i s0 p dk q e"
  using assms(2) history_core [OF assms(1) backedD(1,3) [OF assms(1,2)] assms(3)] by (auto simp: backed_def)

lemma same_at_ok:
  assumes "digest32 H" "same_at st st' i" "no_session st i \<or> session_ok H procs st i"
  shows "no_session st' i \<or> session_ok H procs st' i"
proof (cases "no_session st i")
  case True
  then show ?thesis using assms(2) by (simp add: same_at_def no_session_def)
next
  case False
  then have "session_ok H procs st i" using assms(3) by blast
  then show ?thesis
  proof (rule session_ok_E)
    fix s0 p dk q dn hs s
    assume o: "backed H procs i s0 p dk q dn" "sessions st i = Some s" "published_as s dk"
      "operations st i = Some q" "documents st i = Some dn" "st_accepted st i = Some (accepted dn)" "st_hashes st i = Some hs"
      "fmlookup hs = hashes dn" "revision_heads st i = Some (snap_revision (doc_snapshot dn))" "checkpoints st i \<noteq> None"
      "checkpoint_keys st i \<noteq> None" "transaction_versions st i \<in> {Some 1, Some 2}"
    obtain e where e: "documents st' i = Some e" "core e = core dn" using assms(2) o(5) by (auto simp: same_at_def)
    then have "accepted e = accepted dn" "hashes e = hashes dn" "doc_snapshot e = doc_snapshot dn" by (simp_all add: core_eq_iff)
    then have "session_ok H procs st' i"
      using assms(2) o e(1) by (intro session_ok_I [OF backed_core [OF assms(1) o(1) e(2)], where s = s]) (auto simp: same_at_def)
    then show ?thesis ..
  qed
qed

lemma store_okI:
  assumes "digest32 H" "store_ok H procs st" "\<And>j. j \<noteq> i \<Longrightarrow> same_at st st' j" "no_session st' i \<or> session_ok H procs st' i"
  shows "store_ok H procs st'"
  unfolding store_ok_def
proof
  fix j
  show "no_session st' j \<or> session_ok H procs st' j"
    using assms same_at_ok [OF assms(1), of st st' j] by (cases "j = i") (auto simp: store_ok_def)
qed

lemma session_present: "store_ok H procs st \<Longrightarrow> sessions st i = Some s \<Longrightarrow> session_ok H procs st i"
  unfolding store_ok_def no_session_def by (metis option.distinct(1))

lemma store_ok_same: "digest32 H \<Longrightarrow> store_ok H procs st \<Longrightarrow> (\<And>j. same_at st st' j) \<Longrightarrow> store_ok H procs st'"
  using same_at_ok unfolding store_ok_def by blast

text \<open>The log of a session, and the history behind it.\<close>

lemma session_log:
  assumes "digest32 H" "store_ok H procs st" "sessions st i = Some s" "ops_of st i = ops"
  obtains s0 p dk dn hs where "backed H procs i s0 p dk ops dn" "published_as s dk"
    "snap_revision (doc_snapshot dk) = snap_revision s" "snap_revision (doc_snapshot dn) = snap_revision (snapshot_after s ops)"
    "revision_heads st i = Some (snap_revision (doc_snapshot dn))" "st_hashes st i = Some hs" "fmlookup hs = hashes dn"
proof -
  obtain s0 p dk q dn hs s' where o: "backed H procs i s0 p dk q dn" "sessions st i = Some s'" "published_as s' dk"
      "operations st i = Some q" "st_hashes st i = Some hs" "fmlookup hs = hashes dn"
      "revision_heads st i = Some (snap_revision (doc_snapshot dn))"
    using session_present [OF assms(2,3)] by (rule session_ok_E)
  have q: "q = ops" "s' = s" using o(2,4) assms(3,4) by (simp_all add: ops_of_def)
  note b = backedD [OF assms(1) o(1)]
  show ?thesis
    using that [OF o(1) [unfolded q] o(3) [unfolded q] _ _ o(7,5,6)] published_revision [OF o(3)]
      published_revision [OF published_after(1) [OF assms(1) b(1) o(3) b(3)]] q by simp
qed

lemma keep_snd: "snd (keep st r) = (case r of Inl e \<Rightarrow> st | Inr (a, st') \<Rightarrow> st')"
  by (simp add: keep_def split: sum.splits)

lemma keep_snd_cases:
  "(\<And>a st'. r = Inr (a, st') \<Longrightarrow> P (Inr a) st') \<Longrightarrow> (\<And>e. r = Inl e \<Longrightarrow> P (Inl e) st) \<Longrightarrow> P (fst (keep st r)) (snd (keep st r))"
  by (cases r) (auto simp: keep_def)

section \<open>Every step keeps the invariant\<close>

lemma Create_new:
  assumes "Create H procs c s st = (Inr (), st')"
  shows "\<exists>d h. NewDocument H procs s = Inr d \<and> Snapshot_Hash H procs s = Inr h \<and> sessions st (snap_document s) = None \<and>
    (let i = snap_document s in st' = st
            \<lparr>sessions := (sessions st)(i \<mapsto> s), operations := (operations st)(i \<mapsto> []),
             st_accepted := (st_accepted st)(i \<mapsto> fmempty), documents := (documents st)(i \<mapsto> d),
             st_hashes := (st_hashes st)(i \<mapsto> fmupd (snap_revision s) h fmempty),
             checkpoints := (checkpoints st)(i \<mapsto> Map.empty), checkpoint_keys := (checkpoint_keys st)(i \<mapsto> Map.empty),
             transaction_versions := (transaction_versions st)(i \<mapsto> 1), revision_heads := (revision_heads st)(i \<mapsto> snap_revision s)\<rparr>)"
  using assms
  by (auto simp: Create_def keep_def sum_bind_Inr_iff sum_bind_Inl_iff Let_def LegacyTransactionVersion_def split: sum.splits)

lemma Create_ok:
  assumes "digest32 H" "store_ok H procs st"
  shows "store_ok H procs (snd (Create H procs c s st))"
proof (cases "Create H procs c s st")
  case (Pair r st')
  show ?thesis
  proof (cases r)
    case (Inl e)
    then have "st' = st" using Pair by (auto simp: Create_def keep_def split: sum.splits)
    then show ?thesis using assms(2) Pair by simp
  next
    case (Inr u)
    let ?i = "snap_document s"
    obtain d h where d: "NewDocument H procs s = Inr d" "Snapshot_Hash H procs s = Inr h" "sessions st ?i = None"
      "st' = st\<lparr>sessions := (sessions st)(?i \<mapsto> s), operations := (operations st)(?i \<mapsto> []),
             st_accepted := (st_accepted st)(?i \<mapsto> fmempty), documents := (documents st)(?i \<mapsto> d),
             st_hashes := (st_hashes st)(?i \<mapsto> fmupd (snap_revision s) h fmempty),
             checkpoints := (checkpoints st)(?i \<mapsto> Map.empty), checkpoint_keys := (checkpoint_keys st)(?i \<mapsto> Map.empty),
             transaction_versions := (transaction_versions st)(?i \<mapsto> 1), revision_heads := (revision_heads st)(?i \<mapsto> snap_revision s)\<rparr>"
      using Create_new [of H procs c s st st'] Pair Inr by (auto simp: Let_def)
    note new = NewDocument_ok [OF d(1)]
    have "history H procs d [] d" by (simp add: history_Nil_iff)
    then have b: "backed H procs ?i s [] d [] d"
      using d(1) unsigned_less [of "snap_revision s", where ?'a = nat] by (auto simp: backed_def)
    have "fmlookup (fmupd (snap_revision s) h fmempty) = hashes d" using new d(2) by (auto simp: fun_eq_iff)
    then have "session_ok H procs st' ?i"
      using new published_refl [OF NewDocument_hashed [OF assms(1) d(1)]]
      by (intro session_ok_I [OF b, where hs = "fmupd (snap_revision s) h fmempty" and s = s]) (simp_all add: d(4))
    then show ?thesis
      using Pair by (intro store_okI [OF assms, where i = ?i]) (simp_all add: d(4) same_at_def)
  qed
qed

lemma Append_error_same:
  assumes "Append H procs c a st = (Inl e, st')"
  shows "same_at st st' j"
proof -
  let ?i = "op_document (acc_op a)"
  have *: "same_at st (st\<lparr>documents := (documents st)(?i \<mapsto> snd (Document_Clone d))\<rparr>) j" if "documents st ?i = Some d" for d
    using that by (simp add: same_at_def)
  show ?thesis
    using assms * by (auto simp: Append_def append_new_def Let_def keep_def split: sum.splits option.splits if_splits prod.splits)
qed

lemma Metadata_hashed:
  assumes "hashed H procs d"
  shows "\<exists>md. Metadata H procs d = (Inr md, d) \<and> md_map_hash md = map_hash d"
  using hashed_facts [OF assms] ensureHash_ok(1) [OF hashed_facts(1) [OF assms]] by (simp add: Metadata_def)

text \<open>Appending to a session whose log does not hold the operation: what succeeds, and what it stores.\<close>

lemma append_new_result:
  assumes "digest32 H" "hashed H procs dn" "documents st i = Some dn" "st_accepted st i = Some (accepted dn)" "st_hashes st i = Some hs"
    and "fmlookup (accepted dn) (op_id (acc_op a)) = None" "op_document (acc_op a) = i"
    and "acc_revision a = snap_revision base + of_nat (length (ops_of st i)) + 1"
  shows "append_new H procs a base st = (Inr (), st') \<longleftrightarrow>
    (\<exists>e. accepts H procs dn a e \<and> Apply H procs (acc_op a) (accepted_at a) (fst (Document_Clone dn)) = (Inr a, e) \<and>
      st' = st\<lparr>operations := (operations st)(i \<mapsto> ops_of st i @ [a]), st_accepted := (st_accepted st)(i \<mapsto> accepted e),
           documents := (documents st)(i \<mapsto> e), st_hashes := (st_hashes st)(i \<mapsto> fmupd (acc_revision a) (map_hash e) hs),
           revision_heads := (revision_heads st)(i \<mapsto> acc_revision a)\<rparr>)"
proof -
  let ?c = "fst (Document_Clone dn)"
  have c: "core ?c = core dn" "hashed H procs ?c" using assms(2) hashed_core [OF core_clone(1)] by simp_all
  have acc: "accepts H procs dn a e" if "Apply H procs (acc_op a) (accepted_at a) ?c = (Inr a, e)" for e
  proof -
    have "accepts H procs ?c a e" using that assms(6) by (simp add: accepts_def Document_Clone_def share_tables_def)
    then show ?thesis using accepts_core [OF c(2) c(1) [symmetric] refl] by blast
  qed
  show ?thesis
  proof (cases "Apply H procs (acc_op a) (accepted_at a) ?c")
    case (Pair r e)
    show ?thesis
    proof (cases "r = Inr a")
      case True
      note ac = acc [OF Pair [unfolded True]]
      obtain md where "Metadata H procs e = (Inr md, e)" "md_map_hash md = map_hash e"
        using Metadata_hashed [OF accepts_hashed [OF assms(1,2) ac]] by blast
      then show ?thesis
        using assms(3-5,7,8) Pair True ac accepts_facts(6) [OF assms(1,2) ac]
        by (cases "Document_Clone dn") (auto simp: append_new_def append_verified_def Let_def keep_def guard_def ops_of_def)
    next
      case False
      then show ?thesis
        using assms(3-5,7,8) Pair
        by (cases "Document_Clone dn") (auto simp: append_new_def append_verified_def Let_def keep_def guard_def split: sum.splits)
    qed
  qed
qed

lemma Append_ok:
  assumes "digest32 H" "store_ok H procs st" "acc_revision a \<noteq> 0"
  shows "store_ok H procs (snd (Append H procs c a st))"
proof (cases "Append H procs c a st")
  case (Pair r st')
  let ?i = "op_document (acc_op a)"
  consider (err) e where "r = Inl e" | (repeat) "st' = st" | (new) base where "r = Inr ()" "sessions st ?i = Some base"
      "prior_accepted st ?i (op_id (acc_op a)) = None" "append_new H procs a base st = (Inr (), st')"
    using Pair by (cases r) (auto simp: Append_def Let_def split: sum.splits option.splits if_splits)
  then show ?thesis
  proof cases
    case err
    then show ?thesis using store_ok_same [OF assms(1,2)] Append_error_same Pair by fastforce
  next
    case repeat
    then show ?thesis using Pair assms(2) by simp
  next
    case new
    have "session_ok H procs st ?i" by (rule session_present [OF assms(2) new(2)])
    then obtain s0 p dk q dn hs s where o: "backed H procs ?i s0 p dk q dn" "sessions st ?i = Some s" "published_as s dk"
      "operations st ?i = Some q" "documents st ?i = Some dn" "st_accepted st ?i = Some (accepted dn)" "st_hashes st ?i = Some hs"
      "fmlookup hs = hashes dn" "revision_heads st ?i = Some (snap_revision (doc_snapshot dn))" "checkpoints st ?i \<noteq> None"
      "checkpoint_keys st ?i \<noteq> None" "transaction_versions st ?i \<in> {Some 1, Some 2}" by (rule session_ok_E)
    note b = backedD [OF assms(1) o(1)]
    have want: "acc_revision a = snap_revision base + of_nat (length (ops_of st ?i)) + 1"
      using new(4) by (auto simp: append_new_def Let_def split: if_splits)
    obtain e where e: "accepts H procs dn a e"
      "st' = st\<lparr>operations := (operations st)(?i \<mapsto> q @ [a]), st_accepted := (st_accepted st)(?i \<mapsto> accepted e),
           documents := (documents st)(?i \<mapsto> e), st_hashes := (st_hashes st)(?i \<mapsto> fmupd (acc_revision a) (map_hash e) hs),
           revision_heads := (revision_heads st)(?i \<mapsto> acc_revision a)\<rparr>"
      using append_new_result [OF assms(1) b(2) o(5-7) _ refl want, of st'] new(3,4) o(4,6) by (auto simp: prior_accepted_def ops_of_def)
    note f = accepts_facts [OF assms(1) b(2) e(1)]
    have h: "history H procs dk (q @ [a]) e" using b(3) e(1) history_snoc_iff by blast
    have "unat (acc_revision a) = unat (snap_revision (doc_snapshot dn)) + 1"
      using f(4) assms(3) unatSuc [of "snap_revision (doc_snapshot dn)"] by (simp add: add.commute)
    then have "unat (snap_revision s0) + length p + length (q @ [a]) < 2 ^ 64"
      using b(8) unsigned_less [of "acc_revision a", where ?'a = nat] by simp
    then have bk: "backed H procs ?i s0 p dk (q @ [a]) e" using o(1) h by (simp add: backed_def)
    have "session_ok H procs st' ?i"
      using o f(5,8) by (intro session_ok_I [OF bk, where hs = "fmupd (acc_revision a) (map_hash e) hs" and s = s])
        (simp_all add: e(2) fun_eq_iff)
    then show ?thesis using Pair by (intro store_okI [OF assms(1,2), where i = ?i]) (simp_all add: e(2) same_at_def)
  qed
qed

text \<open>What a successful publication does: the snapshot holds the map of the log at its revision.\<close>

lemma SaveSnapshot_publishes:
  assumes "digest32 H" "store_ok H procs st" "publishable H procs st s" "SaveSnapshot H procs c s st = (Inr u, st')"
  defines "i \<equiv> snap_document s"
  shows "\<exists>s0 p dk q dn base k dr. backed H procs i s0 p dk q dn \<and> sessions st i = Some base \<and> published_as base dk \<and>
    operations st i = Some q \<and> documents st i = Some dn \<and> k \<le> length q \<and> snap_revision s = snap_revision base + of_nat k \<and>
    backed H procs i s0 (p @ take k q) dr (drop k q) dn \<and> published_as s dr \<and>
    same_map s (snapshot_after base (take k q)) \<and>
    st' = st\<lparr>sessions := (sessions st)(i \<mapsto> s), operations := (operations st)(i \<mapsto> drop k q)\<rparr>"
proof -
  obtain base mapHash d where base: "sessions st i = Some base" "Snapshot_Hash H procs s = Inr mapHash"
      "retained_hash st i (snap_revision s) = Some mapHash" "documents st i = Some d"
      "\<not> snap_revision s < snap_revision base" "\<not> snap_revision s > Document_Revision d"
      "st' = st\<lparr>sessions := (sessions st)(i \<mapsto> s),
        operations := (operations st)(i \<mapsto> filter (\<lambda>a. acc_revision a > snap_revision s) (ops_of st i))\<rparr>"
    using assms(4) by (auto simp: SaveSnapshot_def keep_def sum_bind_Inr_iff Let_def i_def split: sum.splits option.splits)
  obtain s0 p dk q dn hs base' where o: "backed H procs i s0 p dk q dn" "sessions st i = Some base'" "published_as base' dk"
      "operations st i = Some q" "documents st i = Some dn" "st_accepted st i = Some (accepted dn)" "st_hashes st i = Some hs"
      "fmlookup hs = hashes dn" using session_present [OF assms(2) base(1)] by (rule session_ok_E)
  have [simp]: "base' = base" "d = dn" "ops_of st i = q" using o(2,4,5) base(1,4) by (simp_all add: ops_of_def)
  note b = backedD [OF assms(1) o(1)]
  define k where "k = unat (snap_revision s - snap_revision base)"
  have rb: "snap_revision base = snap_revision (doc_snapshot dk)" using published_revision [OF o(3)] by simp
  have le: "snap_revision base \<le> snap_revision s" "unat (snap_revision s) \<le> unat (snap_revision (doc_snapshot dn))"
    using base(5,6) by (simp_all add: Document_Revision_def word_le_nat_alt not_less)
  have "k = unat (snap_revision s) - unat (snap_revision base)" unfolding k_def by (rule unat_sub [OF le(1)])
  then have k: "k \<le> length q" using le(2) b(7,8) unfolding rb by linarith
  have k2: "snap_revision s = snap_revision base + of_nat k" by (simp add: k_def)
  obtain dr where dr: "backed H procs i s0 (p @ take k q) dr (drop k q) dn" "history H procs dk (take k q) dr"
      "unat (snap_revision (doc_snapshot dr)) = unat (snap_revision (doc_snapshot dk)) + k"
      "filter (\<lambda>a. acc_revision a > snap_revision (doc_snapshot dr)) q = drop k q"
    using backed_split [OF assms(1) o(1) k] by blast
  note bk = backedD [OF assms(1) dr(1)]
  let ?u = "snapshot_after base (take k q)"
  have "unat (snap_revision s) = unat (snap_revision (doc_snapshot dk)) + k"
    unfolding k2 rb using dr(3) unsigned_less [of "snap_revision (doc_snapshot dr)", where ?'a = nat] by (intro unat_add_of_nat) simp
  then have rev: "snap_revision s = snap_revision (doc_snapshot dr)" using dr(3) by (metis word_unat_eq_iff)
  have "hashes dn (snap_revision s) = hashes dr (snap_revision s)"
    using history_retains [OF assms(1) bk(1,3,9)] dr(1) bk(7) rev by (simp add: backed_def)
  then have "mapHash = map_hash dr" using base(3) o(7,8) hashed_facts(6) [OF bk(1)] rev by (simp add: retained_hash_def)
  then have same: "Snapshot_Hash H procs s = Snapshot_Hash H procs ?u"
    using base(2) published_after(2) [OF assms(1) b(1) _ dr(2)] o(3) by simp
  have u: "published_as ?u dr" using published_after(1) [OF assms(1) b(1) _ dr(2)] o(3) by simp
  have ok: "snapshot_ok s" using base(2) by (auto simp: Snapshot_Hash_def Snapshot_Validate_iff [symmetric] split: option.splits)
  have alike: "environment_hash s = environment_hash base" "max_x s = max_x ?u \<and> max_y s = max_y ?u \<and> max_z s = max_z ?u \<and>
      canonical_views s = canonical_views ?u"
    using assms(3) base(1) k same unfolding publishable_def i_def [symmetric] by (auto simp: Let_def)
  have m: "same_map ?u (doc_snapshot dr)" "snapshot_ok ?u" using u by (simp_all add: published_as_def)
  have "environment_hash base = environment_hash (doc_snapshot dk)" using o(3) same_mapD(4) by (auto simp: published_as_def)
  moreover have "environment_hash (doc_snapshot dr) = environment_hash (doc_snapshot dk)"
    using history_snapshot(2) [OF assms(1) b(1) dr(2)] by auto
  ultimately have header: "snap_document s = snap_document ?u" "environment_hash s = environment_hash ?u" "snap_revision s = snap_revision ?u"
    using same_mapD(3-5) [OF m(1)] bk(4) rev alike(1) by (simp_all add: i_def)
  have su: "same_map s ?u" using alike(2) by (intro canonical_same_map [OF _ ok m(2) header]) blast+
  then have "published_as s dr" using ok same_map_trans [OF su m(1)] by (simp add: published_as_def)
  moreover have "st' = st\<lparr>sessions := (sessions st)(i \<mapsto> s), operations := (operations st)(i \<mapsto> drop k q)\<rparr>"
    using base(7) dr(4) rev by simp
  ultimately show ?thesis using o(1-5) dr(1) k k2 su
    by (intro exI [of _ s0] exI [of _ p] exI [of _ dk] exI [of _ q] exI [of _ dn] exI [of _ base] exI [of _ k] exI [of _ dr]) simp
qed

lemma SaveSnapshot_ok:
  assumes "digest32 H" "store_ok H procs st" "publishable H procs st s"
  shows "store_ok H procs (snd (SaveSnapshot H procs c s st))"
proof (cases "SaveSnapshot H procs c s st")
  case (Pair r st')
  let ?i = "snap_document s"
  show ?thesis
  proof (cases r)
    case (Inl e)
    then have "st' = st" using Pair by (auto simp: SaveSnapshot_def keep_def split: sum.splits)
    then show ?thesis using Pair assms(2) by simp
  next
    case (Inr u)
    obtain s0 p dk q dn base k dr where "backed H procs ?i s0 p dk q dn" and base: "sessions st ?i = Some base"
        and "published_as base dk" "operations st ?i = Some q" and dn: "documents st ?i = Some dn" and "k \<le> length q"
        and "snap_revision s = snap_revision base + of_nat k" and bk: "backed H procs ?i s0 (p @ take k q) dr (drop k q) dn"
        and pub: "published_as s dr" and "same_map s (snapshot_after base (take k q))"
        and st': "st' = st\<lparr>sessions := (sessions st)(?i \<mapsto> s), operations := (operations st)(?i \<mapsto> drop k q)\<rparr>"
      using SaveSnapshot_publishes [OF assms Pair [unfolded Inr]] by metis
    have "session_ok H procs st ?i" by (rule session_present [OF assms(2) base])
    then obtain s0' p' dk' q' dn' hs s' where o: "backed H procs ?i s0' p' dk' q' dn'" "sessions st ?i = Some s'" "published_as s' dk'"
      "operations st ?i = Some q'" "documents st ?i = Some dn'" "st_accepted st ?i = Some (accepted dn')" "st_hashes st ?i = Some hs"
      "fmlookup hs = hashes dn'" "revision_heads st ?i = Some (snap_revision (doc_snapshot dn'))" "checkpoints st ?i \<noteq> None"
      "checkpoint_keys st ?i \<noteq> None" "transaction_versions st ?i \<in> {Some 1, Some 2}" by (rule session_ok_E)
    have "session_ok H procs st' ?i"
      using o(4-12) dn by (intro session_ok_I [OF bk _ pub, where hs = hs]) (simp_all add: st')
    then show ?thesis using Pair by (intro store_okI [OF assms(1,2), where i = ?i]) (simp_all add: st' same_at_def)
  qed
qed

lemma ConfigureTransactions_ok:
  assumes "digest32 H" "store_ok H procs st"
  shows "store_ok H procs (snd (ConfigureTransactions c i v st))"
proof -
  let ?st = "st\<lparr>transaction_versions := (transaction_versions st)(i \<mapsto> v)\<rparr>"
  have "snd (ConfigureTransactions c i v st) = st \<or>
      snd (ConfigureTransactions c i v st) = ?st \<and> sessions st i \<noteq> None \<and> v \<in> {1, 2}"
    unfolding ConfigureTransactions_def
    by (rule keep_snd_cases)
      (auto simp: sum_bind_Inr_iff Let_def LegacyTransactionVersion_def BulkTransactionVersion_def simp del: fun_upd_apply)
  then consider "snd (ConfigureTransactions c i v st) = st"
    | "snd (ConfigureTransactions c i v st) = ?st" "sessions st i \<noteq> None" "v \<in> {1, 2}" by blast
  then show ?thesis
  proof cases
    case 2
    then have "session_ok H procs st i" using session_present [OF assms(2)] by blast
    then have "session_ok H procs ?st i" using 2(3) by (simp add: session_ok_def)
    then show ?thesis unfolding 2(1) by (intro store_okI [OF assms, where i = i]) (simp_all add: same_at_def)
  qed (use assms(2) in simp)
qed

text \<open>The two checkpoint operations change nothing but the checkpoint tables of one session.\<close>

lemma CreateExportCheckpoint_cases:
  "snd (CreateExportCheckpoint c cp st) = st \<or>
   (\<exists>cps keys. checkpoints st (cp_document cp) = Some cps \<and> checkpoint_keys st (cp_document cp) = Some keys \<and>
      sessions st (cp_document cp) \<noteq> None \<and>
      retained_hash st (cp_document cp) (cp_revision cp) = Some (cp_map_hash cp) \<and>
      keys (idempotency_key cp) = None \<and> cps (cp_id cp) = None \<and> request_ok cp \<and> result_ok cp \<and> cp_status cp = CheckpointPending \<and>
      CreateExportCheckpoint c cp st = (Inr (cp, True), st
        \<lparr>checkpoints := (checkpoints st)(cp_document cp \<mapsto> cps(cp_id cp \<mapsto> cp)),
         checkpoint_keys := (checkpoint_keys st)(cp_document cp \<mapsto> keys(idempotency_key cp \<mapsto> cp_id cp))\<rparr>))"
proof (cases "CreateExportCheckpoint c cp st")
  case (Pair r st')
  show ?thesis
  proof (cases r)
    case (Inl e)
    then show ?thesis using Pair by (auto simp: CreateExportCheckpoint_def keep_def split: sum.splits)
  next
    case (Inr x)
    have "Checkpoint_Validate cp = Inr ()" "cp_status cp = CheckpointPending" "sessions st (cp_document cp) \<noteq> None"
      using Pair Inr by (auto simp: CreateExportCheckpoint_def keep_def Let_def sum_bind_Inr_iff split: sum.splits)
    then show ?thesis
      using Pair Inr
      by (auto simp: CreateExportCheckpoint_def keep_def Let_def sum_bind_Inr_iff inner_def prior_checkpoint_def Checkpoint_Validate_iff
          split: sum.splits option.splits if_splits)
  qed
qed

lemma CompleteExportCheckpoint_cases:
  "snd (CompleteExportCheckpoint c i k completion st) = st \<or>
   (\<exists>cps cp cp'. checkpoints st i = Some cps \<and> cps k = Some cp \<and> Complete cp completion = Inr cp' \<and>
      CompleteExportCheckpoint c i k completion st = (Inr cp', st\<lparr>checkpoints := (checkpoints st)(i \<mapsto> cps(k \<mapsto> cp'))\<rparr>))"
proof (cases "CompleteExportCheckpoint c i k completion st")
  case (Pair r st')
  then show ?thesis
    by (cases r) (auto simp: CompleteExportCheckpoint_def keep_def Let_def sum_bind_Inr_iff split: sum.splits option.splits if_splits)
qed

lemma checkpoint_tables_ok:
  assumes "digest32 H" "store_ok H procs st" "checkpoints st i \<noteq> None"
  shows "store_ok H procs (st\<lparr>checkpoints := (checkpoints st)(i \<mapsto> x)\<rparr>)"
    and "store_ok H procs (st\<lparr>checkpoints := (checkpoints st)(i \<mapsto> x), checkpoint_keys := (checkpoint_keys st)(i \<mapsto> y)\<rparr>)"
proof -
  have s: "session_ok H procs st i" using assms(2,3) unfolding store_ok_def no_session_def by metis
  have "session_ok H procs (st\<lparr>checkpoints := (checkpoints st)(i \<mapsto> x)\<rparr>) i"
    "session_ok H procs (st\<lparr>checkpoints := (checkpoints st)(i \<mapsto> x), checkpoint_keys := (checkpoint_keys st)(i \<mapsto> y)\<rparr>) i"
    using s by (simp_all add: session_ok_def)
  then show "store_ok H procs (st\<lparr>checkpoints := (checkpoints st)(i \<mapsto> x)\<rparr>)"
    "store_ok H procs (st\<lparr>checkpoints := (checkpoints st)(i \<mapsto> x), checkpoint_keys := (checkpoint_keys st)(i \<mapsto> y)\<rparr>)"
    by (intro store_okI [OF assms(1,2), where i = i]; simp add: same_at_def)+
qed

lemma store_step_ok:
  assumes "digest32 H" "store_step H procs st st'" "store_ok H procs st"
  shows "store_ok H procs st'"
  using assms(2)
proof cases
  case (step_create c s)
  then show ?thesis using Create_ok [OF assms(1,3)] by simp
next
  case (step_append a c)
  then show ?thesis using Append_ok [OF assms(1,3)] by simp
next
  case (step_save s c)
  then show ?thesis using SaveSnapshot_ok [OF assms(1,3)] by simp
next
  case (step_configure c i v)
  then show ?thesis using ConfigureTransactions_ok [OF assms(1,3)] by simp
next
  case (step_checkpoint c cp)
  then show ?thesis
    using CreateExportCheckpoint_cases [of c cp st] checkpoint_tables_ok(2) [OF assms(1,3)] assms(3) by fastforce
next
  case (step_complete c i k completion)
  then show ?thesis
    using CompleteExportCheckpoint_cases [of c i k completion st] checkpoint_tables_ok(1) [OF assms(1,3)] assms(3) by fastforce
next
  case step_close
  then show ?thesis by (intro store_ok_same [OF assms(1,3)]) (simp add: Close_def same_at_def)
qed

lemma store_reachable_ok:
  assumes "digest32 H" "store_reachable H procs st"
  shows "store_ok H procs st"
  using assms(2)
proof induction
  case store_new
  then show ?case by (simp add: store_ok_def no_session_def NewMemoryStore_def)
next
  case (store_next st st')
  then show ?case using store_step_ok [OF assms(1)] by blast
qed

end
