(* ===== verification/Store_Props.thy ===== *)
theory Store_Props
  imports Store_Inv Engine_Props
begin

text \<open>
  The promises of the session store: it implements a log, appending is all or nothing and safe to
  retry, its recovery data restores every retained revision exactly, and an export checkpoint has one
  terminal result.
\<close>

section \<open>Recovery of a session\<close>

lemma backed_operations:
  assumes "digest32 H" "backed H procs i s0 p dk q dn"
  shows "sort_key acc_revision (map snd (map_entries (accepted dn))) = p @ q"
proof -
  obtain d0 where d0: "NewDocument H procs s0 = Inr d0" "history H procs d0 p dk" using assms(2) by (auto simp: backed_def)
  have h0: "hashed H procs d0" by (rule NewDocument_hashed [OF assms(1) d0(1)])
  have run: "history H procs d0 (p @ q) dn"
    using history_append_iff [OF assms(1) h0] d0(2) backedD(3) [OF assms] by blast
  have w: "unat (snap_revision s0) + length (p @ q) < 2 ^ 64" using assms(2) by (simp add: backed_def)
  have new: "accepted d0 = fmempty" "doc_snapshot d0 = s0" using NewDocument_ok [OF d0(1)] by simp_all
  have "fmlookup (accepted dn) k = Some a \<longleftrightarrow> a \<in> set (p @ q) \<and> op_id (acc_op a) = k" for k a
    using history_accepted [OF assms(1) h0 run, of k a] by (simp add: new)
  then have entries: "(k, a) \<in> set (map_entries (accepted dn)) \<longleftrightarrow> a \<in> set (p @ q) \<and> op_id (acc_op a) = k" for k a
    by (simp add: set_entries)
  have vals: "set (map snd (map_entries (accepted dn))) = set (p @ q)"
  proof
    show "set (map snd (map_entries (accepted dn))) \<subseteq> set (p @ q)" using entries by auto
    show "set (p @ q) \<subseteq> set (map snd (map_entries (accepted dn)))"
    proof
      fix a assume "a \<in> set (p @ q)"
      then have "snd (op_id (acc_op a), a) \<in> snd ` set (map_entries (accepted dn))"
        using entries by (intro imageI) blast
      then show "a \<in> set (map snd (map_entries (accepted dn)))" by simp
    qed
  qed
  have rev: "unat (snap_revision s0 + of_nat k + 1) = unat (snap_revision s0) + k + 1" if "k < length (p @ q)" for k
  proof -
    have "snap_revision s0 + of_nat k + 1 = snap_revision s0 + of_nat (k + 1)" by (simp add: add.assoc)
    then show ?thesis using unat_add_of_nat [of "snap_revision s0" "k + 1"] w that by (simp add: algebra_simps)
  qed
  have revs: "map acc_revision (p @ q) = map (\<lambda>k. snap_revision s0 + of_nat k + 1) [0..<length (p @ q)]"
    using history_revisions [OF assms(1) h0 run] by (simp add: new)
  have srt: "sorted (map acc_revision (p @ q))"
    unfolding revs sorted_iff_nth_mono using rev by (auto simp: word_le_nat_alt)
  have dst: "distinct (map acc_revision (p @ q))"
    unfolding revs distinct_conv_nth using rev by (auto simp: word_unat_eq_iff)
  have inj: "inj_on acc_revision (set (p @ q))" using dst unfolding distinct_map by blast
  have "inj_on snd (set (map_entries (accepted dn)))" using entries by (auto intro!: inj_onI)
  moreover have "distinct (map_entries (accepted dn))" using distinct_entries distinct_map by blast
  ultimately have "distinct (map snd (map_entries (accepted dn)))" by (simp add: distinct_map)
  then have "distinct (sort_key acc_revision (map snd (map_entries (accepted dn))))" by simp
  then have "distinct (map acc_revision (sort_key acc_revision (map snd (map_entries (accepted dn)))))"
    using inj unfolding vals [symmetric] distinct_map set_sort by blast
  then show ?thesis
    using srt dst vals by (intro sorted_key_list_unique [of acc_revision]) simp_all
qed

text \<open>The recovery data of a session: \<open>ek\<close> is the document of the published map as the snapshot
  writes it, and \<open>en\<close> the head reached from it.\<close>

lemma LoadRecovery_state:
  assumes "digest32 H" "store_ok H procs st" "sessions st i = Some s" "\<not> st_closed st"
  obtains s0 p dk ek dn en hs where "backed H procs i s0 p dk (ops_of st i) dn" "twin H procs dk ek" "doc_snapshot ek = s"
    "history H procs ek (ops_of st i) en" "twin H procs dn en" "documents st i = Some dn" "fmlookup hs = hashes en"
    "LoadRecovery Background i st = Inr (state_of ek (p @ ops_of st i) hs en)"
proof -
  obtain s0 p dk q dn hs s' where o: "backed H procs i s0 p dk q dn" "sessions st i = Some s'" "published_as s' dk"
      "operations st i = Some q" "documents st i = Some dn" "st_accepted st i = Some (accepted dn)" "st_hashes st i = Some hs"
      "fmlookup hs = hashes dn" using session_present [OF assms(2,3)] by (rule session_ok_E)
  note b = backedD [OF assms(1) o(1)]
  have q: "ops_of st i = q" and s: "s' = s" using o(2,4) assms(3) by (simp_all add: ops_of_def)
  have "hashes dn (snap_revision (doc_snapshot dk)) = hashes dk (snap_revision (doc_snapshot dk))"
    using history_retains [OF assms(1) b(1,3,9)] o(1) b(7) by (simp add: backed_def)
  then have hk: "hashes dn (snap_revision (doc_snapshot dk)) = Some (map_hash dk)" using hashed_facts(6) [OF b(1)] by simp
  obtain ek en where e: "twin H procs dk ek" "doc_snapshot ek = s" "history H procs ek q en" "twin H procs dn en"
    using published_history [OF assms(1) b(1) o(3) b(3)] s by blast
  note k = twinD [OF e(1)] and n = twinD [OF e(4)]
  have rs: "snap_revision s = snap_revision (doc_snapshot dk)" "snap_revision (doc_snapshot en) = snap_revision (doc_snapshot dn)"
    using same_mapD(5) [OF k(3)] same_mapD(5) [OF n(3)] e(2) by simp_all
  have "LoadRecovery Background i st = Inr (state_of ek (p @ q) hs en)"
    using o(2-8) s assms(4) hk hashed_facts(6) [OF b(2)] backed_operations [OF assms(1) o(1)] rs n(7) k(7) e(2)
    by (simp add: LoadRecovery_def enter_def opened_def guard_def Let_def state_of_def retained_hash_def text_of_def
        Document_Revision_def comp_def)
  then show ?thesis using that [of s0 p dk dn ek en hs] o(1,5,8) e n(4) q by simp
qed

text \<open>C20: The recovery data of an open session of a reachable store is valid: for every revision from
  the published snapshot to the head, restoring at that revision succeeds and yields the map the
  session's log has there, and restoring at the head yields the map of the store's own document (the
  two may list their tiles differently) with its hash, retained hashes, accepted operations and
  inverses. Reachable means: by calls of the store's methods with any arguments and contexts, as long
  as no operation is appended after revision 2^64-1 and every published snapshot carries its
  document's environment hash and a map hash that does not collide with a different map of the log.
  The store does not check the environment hash, and recovery fails without it.\<close>

theorem store_recovers:
  assumes "digest32 H" "store_reachable H procs st" "sessions st i = Some s" "\<not> st_closed st"
  shows "\<exists>state d. LoadRecovery Background i st = Inr state \<and> documents st i = Some d \<and>
    (\<forall>k \<le> length (ops_of st i). \<exists>e. RestoreAt H procs state (snap_revision s + of_nat k) = Inr e \<and>
       doc_snapshot e = snapshot_after s (take k (ops_of st i))) \<and>
    (\<exists>e. Restore H procs state = Inr e \<and> same_map (doc_snapshot e) (doc_snapshot d) \<and> map_hash e = map_hash d \<and>
       hashes e = hashes d \<and> accepted e = accepted d \<and> inverted e = inverted d)"
proof -
  let ?q = "ops_of st i"
  obtain s0 p dk ek dn en hs where o: "backed H procs i s0 p dk ?q dn" "twin H procs dk ek" "doc_snapshot ek = s"
      "history H procs ek ?q en" "twin H procs dn en" "documents st i = Some dn" "fmlookup hs = hashes en"
      "LoadRecovery Background i st = Inr (state_of ek (p @ ?q) hs en)"
    by (rule LoadRecovery_state [OF assms(1) store_reachable_ok [OF assms(1,2)] assms(3,4)])
  let ?state = "state_of ek (p @ ?q) hs en"
  note t = twinD [OF o(2)] and n = twinD [OF o(5)]
  obtain d0 where d0: "NewDocument H procs s0 = Inr d0" "history H procs d0 p dk" using o(1) by (auto simp: backed_def)
  have at: "\<exists>e. RestoreAt H procs ?state (snap_revision s + of_nat k) = Inr e \<and> core e = core er"
    if k: "k \<le> length ?q" and er: "history H procs ek (take k ?q) er" "history H procs er (drop k ?q) en" for k er
  proof -
    have "snap_revision (doc_snapshot er) = snap_revision s + of_nat k"
      using history_snapshot(1) [OF assms(1) t(2) er(1)] k o(3) by (simp add: min_absorb2)
    moreover have "unat (snap_revision s0) + length p + length (take k ?q) + length (drop k ?q) < 2 ^ 64"
      using o(1) k by (simp add: backed_def)
    ultimately show ?thesis
      using RestoreAt_history [OF assms(1) d0 o(2) er] o(7) by (simp add: append_assoc [symmetric] del: append_assoc)
  qed
  have all: "\<exists>e. RestoreAt H procs ?state (snap_revision s + of_nat k) = Inr e \<and> doc_snapshot e = snapshot_after s (take k ?q)"
    if k: "k \<le> length ?q" for k
  proof -
    obtain er where er: "history H procs ek (take k ?q) er" "history H procs er (drop k ?q) en"
      using o(4) history_append_iff [OF assms(1) t(2), of "take k ?q" "drop k ?q" en] by auto
    then show ?thesis
      using at [OF k er] history_snapshot_after [OF assms(1) t(2) er(1)] o(3) by (auto simp: core_eq_iff)
  qed
  have "history H procs en [] en" by (simp add: history_Nil_iff)
  then obtain e where e: "RestoreAt H procs ?state (snap_revision s + of_nat (length ?q)) = Inr e" "core e = core en"
    using at [of "length ?q" en] o(4) by auto
  have "snap_revision s + of_nat (length ?q) = rs_head_revision ?state"
    using history_snapshot(1) [OF assms(1) t(2) o(4)] o(3) by simp
  then have "Restore H procs ?state = Inr e" using e(1) by (simp add: Restore_def)
  moreover have "same_map (doc_snapshot e) (doc_snapshot dn) \<and> map_hash e = map_hash dn \<and> hashes e = hashes dn \<and>
      accepted e = accepted dn \<and> inverted e = inverted dn"
    using e(2) n(4-7) same_map_sym [OF n(3)] by (simp add: core_eq_iff)
  ultimately show ?thesis using o(6,8) all by (intro exI [of _ ?state] exI [of _ dn]) blast
qed

section \<open>Appending\<close>

lemma accepts_Apply_iff:
  assumes "digest32 H" "hashed H procs d" "fmlookup (accepted d) (op_id (acc_op a)) = None" "core e = core d"
  shows "(\<exists>d'. accepts H procs d a d') \<longleftrightarrow> fst (Apply H procs (acc_op a) (accepted_at a) e) = Inr a"
proof
  assume "\<exists>d'. accepts H procs d a d'"
  then show "fst (Apply H procs (acc_op a) (accepted_at a) e) = Inr a"
    using accepts_apply [OF assms(1,2,4)] by fastforce
next
  assume "fst (Apply H procs (acc_op a) (accepted_at a) e) = Inr a"
  then have "accepts H procs e a (snd (Apply H procs (acc_op a) (accepted_at a) e))"
    using assms(3,4) by (cases "Apply H procs (acc_op a) (accepted_at a) e") (auto simp: accepts_def core_eq_iff)
  then show "\<exists>d'. accepts H procs d a d'"
    using accepts_core [OF _ assms(4) [symmetric] refl] hashed_core [OF assms(4)] assms(2) by blast
qed

text \<open>C21: Appending an accepted operation to an open session of any reachable store. An operation the
  session already holds is confirmed when it is the same and refused when it differs, and nothing is
  stored again. A new operation is stored exactly when it carries the next revision and the engine,
  applying it to the session's document, accepts it with the very same result; the log then ends with
  it, it can be looked up and its revision's hash is retained. Every refusal leaves every session's
  log, tables and document state as they were.\<close>

theorem Append_outcome:
  assumes "digest32 H" "store_reachable H procs st" "\<not> st_closed st" "op_document (acc_op a) = i"
    and "sessions st i = Some s" "documents st i = Some d" "st_accepted st i = Some acc"
    and "Append H procs Background a st = (r, st')"
  shows "case fmlookup acc (op_id (acc_op a)) of
      Some prior \<Rightarrow> st' = st \<and> r = (if prior = a then Inr () else Inl (OperationConflicts (op_id (acc_op a)) (acc_revision prior)))
    | None \<Rightarrow>
        if acc_revision a = snap_revision (doc_snapshot d) + 1 \<and> fst (Apply H procs (acc_op a) (accepted_at a) d) = Inr a
        then r = Inr () \<and> Load Background i st' = Inr (s, ops_of st i @ [a]) \<and>
          LookupOperation Background i (op_id (acc_op a)) st' = Inr (Some a) \<and>
          (\<exists>h. RevisionHash Background i (acc_revision a) st' = Inr (Some h) \<and>
             Snapshot_Hash H procs (snapshot_after s (ops_of st i @ [a])) = Inr h)
        else (\<exists>e. r = Inl e) \<and> (\<forall>j. same_at st st' j)"
proof (cases "fmlookup acc (op_id (acc_op a))")
  case (Some prior)
  then show ?thesis
    using assms(3-8) by (auto simp: Append_def enter_def opened_def guard_def prior_accepted_def)
next
  case None
  obtain s0 p dk q dn hs s' where o: "backed H procs i s0 p dk q dn" "operations st i = Some q" "published_as s' dk"
      "documents st i = Some dn" "st_accepted st i = Some (accepted dn)" "st_hashes st i = Some hs"
      "fmlookup hs = hashes dn" "sessions st i = Some s'"
    using session_present [OF store_reachable_ok [OF assms(1,2)] assms(5)] by (rule session_ok_E)
  note b = backedD [OF assms(1) o(1)]
  have q: "ops_of st i = q" and d: "d = dn" and acc: "acc = accepted dn" and pub: "published_as s dk"
    using o assms(5-7) by (simp_all add: ops_of_def)
  have app: "append_new H procs a s st = (r, st')"
    using assms(3-5,7,8) None by (simp add: Append_def enter_def opened_def guard_def prior_accepted_def)
  have want: "snap_revision s + of_nat (length q) + 1 = snap_revision (doc_snapshot dn) + 1"
    using history_snapshot(1) [OF assms(1) b(1,3)] published_revision [OF pub] by simp
  have fresh: "fmlookup (accepted dn) (op_id (acc_op a)) = None" using None acc by simp
  have err: "same_at st st' j" if "r = Inl e" for e j using Append_error_same that assms(8) by blast
  show ?thesis
  proof (cases "acc_revision a = snap_revision (doc_snapshot d) + 1 \<and> fst (Apply H procs (acc_op a) (accepted_at a) d) = Inr a")
    case True
    then have rev: "acc_revision a = snap_revision s + of_nat (length (ops_of st i)) + 1" using want q d by simp
    note res = append_new_result [OF assms(1) b(2) o(4-6) fresh assms(4) rev]
    let ?c = "fst (Document_Clone dn)"
    have "fst (Apply H procs (acc_op a) (accepted_at a) ?c) = Inr a"
      using accepts_Apply_iff [OF assms(1) b(2) fresh core_clone(1)] accepts_Apply_iff [OF assms(1) b(2) fresh refl] True d by blast
    then obtain e where e: "Apply H procs (acc_op a) (accepted_at a) ?c = (Inr a, e)" by (metis prod.collapse)
    have ac: "accepts H procs dn a e"
    proof -
      have c: "accepts H procs ?c a e" using e fresh by (simp add: accepts_def Document_Clone_def share_tables_def)
      have hc: "hashed H procs ?c" using b(2) hashed_core [OF core_clone(1)] by blast
      show ?thesis by (rule accepts_core [OF hc _ refl c]) simp
    qed
    note f = accepts_facts [OF assms(1) b(2) ac]
    let ?st = "st\<lparr>operations := (operations st)(i \<mapsto> ops_of st i @ [a]), st_accepted := (st_accepted st)(i \<mapsto> accepted e),
           documents := (documents st)(i \<mapsto> e), st_hashes := (st_hashes st)(i \<mapsto> fmupd (acc_revision a) (map_hash e) hs),
           revision_heads := (revision_heads st)(i \<mapsto> acc_revision a)\<rparr>"
    have "append_new H procs a s st = (Inr (), ?st)" using res [of ?st] ac e by blast
    then have rst: "r = Inr ()" "st' = ?st" using app by simp_all
    have "history H procs dk (q @ [a]) e" using b(3) ac history_snoc_iff by blast
    then have "Snapshot_Hash H procs (snapshot_after s (q @ [a])) = Inr (map_hash e)" by (rule published_after(2) [OF assms(1) b(1) pub])
    then show ?thesis
      using None True rst assms(3,5) f(6) q
      by (simp add: Load_def LookupOperation_def RevisionHash_def enter_def opened_def guard_def ops_of_def map_idI)
  next
    case False
    have "r \<noteq> Inr ()"
    proof
      assume r: "r = Inr ()"
      have rev: "acc_revision a = snap_revision s + of_nat (length (ops_of st i)) + 1"
        using app r assms(4) by (auto simp: append_new_def Let_def split: if_splits)
      obtain e where "accepts H procs dn a e"
        using append_new_result [OF assms(1) b(2) o(4-6) fresh assms(4) rev] app r by blast
      then show False
        using False accepts_Apply_iff [OF assms(1) b(2) fresh refl] accepts_facts(4) [OF assms(1) b(2)] d by blast
    qed
    then show ?thesis using None False err by (cases r) auto
  qed
qed

section \<open>The store implements a log\<close>

definition log_of :: "memory_store \<Rightarrow> document_id \<Rightarrow> (snapshot \<times> accepted_operation list) option" where
  "log_of st i = map_option (\<lambda>s. (s, ops_of st i)) (sessions st i)"

text \<open>The abstract session: it is opened on a snapshot, grows by one operation that the engine accepts
  on the map the log denotes, or is compacted up to one of its revisions, by a snapshot of the map the
  log has there.\<close>

inductive log_step :: "(snapshot \<times> accepted_operation list) option \<Rightarrow>
    (snapshot \<times> accepted_operation list) option \<Rightarrow> bool" where
  log_stay: "log_step l l"
| log_open: "Snapshot_Validate s = None \<Longrightarrow> log_step None (Some (s, []))"
| log_append: "changes_ok (snapshot_after s ops) (changes (acc_op a)) \<Longrightarrow>
    acc_revision a = snap_revision (snapshot_after s ops) + 1 \<Longrightarrow>
    log_step (Some (s, ops)) (Some (s, ops @ [a]))"
| log_compact: "k \<le> length ops \<Longrightarrow> same_map s' (snapshot_after s (take k ops)) \<Longrightarrow>
    log_step (Some (s, ops)) (Some (s', drop k ops))"

lemma log_of_same: "same_at st st' i \<Longrightarrow> log_of st' i = log_of st i"
  by (simp add: same_at_def log_of_def ops_of_def)

lemma Append_log:
  assumes "digest32 H" "store_ok H procs st" "Append H procs c a st = (r, st')"
  shows "log_step (log_of st i) (log_of st' i)"
proof (cases r)
  case (Inl e)
  then show ?thesis using Append_error_same assms(3) log_of_same log_stay by metis
next
  case (Inr u)
  let ?i = "op_document (acc_op a)"
  consider "st' = st" | (new) base where "sessions st ?i = Some base" "prior_accepted st ?i (op_id (acc_op a)) = None"
      "append_new H procs a base st = (Inr (), st')"
    using assms(3) Inr by (auto simp: Append_def Let_def split: sum.splits option.splits if_splits)
  then show ?thesis
  proof cases
    case new
    obtain s0 p dk q dn hs s where o: "backed H procs ?i s0 p dk q dn" "sessions st ?i = Some s"
      "operations st ?i = Some q" "documents st ?i = Some dn" "st_accepted st ?i = Some (accepted dn)" "st_hashes st ?i = Some hs"
      "published_as s dk" using session_present [OF assms(2) new(1)] by (rule session_ok_E)
    note b = backedD [OF assms(1) o(1)]
    have want: "acc_revision a = snap_revision base + of_nat (length (ops_of st ?i)) + 1"
      using new(3) by (auto simp: append_new_def Let_def split: if_splits)
    obtain e where e: "accepts H procs dn a e"
      "st' = st\<lparr>operations := (operations st)(?i \<mapsto> q @ [a]), st_accepted := (st_accepted st)(?i \<mapsto> accepted e),
           documents := (documents st)(?i \<mapsto> e), st_hashes := (st_hashes st)(?i \<mapsto> fmupd (acc_revision a) (map_hash e) hs),
           revision_heads := (revision_heads st)(?i \<mapsto> acc_revision a)\<rparr>"
      using append_new_result [OF assms(1) b(2) o(4-6) _ refl want, of st'] new(2,3) o(3,5) by (auto simp: prior_accepted_def ops_of_def)
    have "admissible dn a" by (rule accepts_facts(1) [OF assms(1) b(2) e(1)])
    moreover have m: "same_map (snapshot_after s q) (doc_snapshot dn)"
      using published_after(1) [OF assms(1) b(1) o(7) b(3)] by (simp add: published_as_def)
    ultimately have "log_step (Some (s, q)) (Some (s, q @ [a]))"
      using same_map_changes [OF m] same_mapD(5) [OF m] by (intro log_append) (simp_all add: admissible_def Let_def)
    then show ?thesis
      using o(2,3) by (cases "i = ?i") (simp_all add: log_of_def ops_of_def e(2) log_stay)
  qed (simp add: log_stay)
qed

lemma SaveSnapshot_log:
  assumes "digest32 H" "store_ok H procs st" "publishable H procs st s" "SaveSnapshot H procs c s st = (r, st')"
  shows "log_step (log_of st i) (log_of st' i)"
proof (cases r)
  case (Inl e)
  then have "st' = st" using assms(4) by (auto simp: SaveSnapshot_def keep_def split: sum.splits)
  then show ?thesis by (simp add: log_stay)
next
  case (Inr u)
  let ?i = "snap_document s"
  obtain base q k where save: "sessions st ?i = Some base" "operations st ?i = Some q" "k \<le> length q"
      "same_map s (snapshot_after base (take k q))"
      "st' = st\<lparr>sessions := (sessions st)(?i \<mapsto> s), operations := (operations st)(?i \<mapsto> drop k q)\<rparr>"
    using SaveSnapshot_publishes [OF assms(1-3) assms(4) [unfolded Inr]] by metis
  have "log_step (Some (base, q)) (Some (s, drop k q))" by (rule log_compact [OF save(3,4)])
  then show ?thesis
    using save(1,2) by (cases "i = ?i") (simp_all add: log_of_def ops_of_def save(5) log_stay)
qed

lemma store_step_log:
  assumes "digest32 H" "store_ok H procs st" "store_step H procs st st'"
  shows "log_step (log_of st i) (log_of st' i)"
  using assms(3)
proof cases
  case (step_create c s)
  show ?thesis
  proof (cases "fst (Create H procs c s st)")
    case (Inl e)
    then have "st' = st" using step_create by (auto simp: Create_def keep_def split: sum.splits)
    then show ?thesis by (simp add: log_stay)
  next
    case (Inr u)
    then have "Create H procs c s st = (Inr (), st')" using step_create by (cases "Create H procs c s st") simp
    note new = Create_new [OF this]
    have "Snapshot_Validate s = None" using new by (auto simp: Snapshot_Hash_def split: option.splits)
    then show ?thesis
      using new by (cases "i = snap_document s") (auto simp: Let_def log_of_def ops_of_def intro: log_open log_stay)
  qed
next
  case (step_append a c)
  then show ?thesis
    using Append_log [OF assms(1,2)] by (metis prod.collapse)
next
  case (step_save s c)
  then show ?thesis
    using SaveSnapshot_log [OF assms(1,2)] by (metis prod.collapse)
next
  case (step_configure c j v)
  have "log_of (snd (ConfigureTransactions c j v st)) i = log_of st i"
    unfolding ConfigureTransactions_def
    by (rule keep_snd_cases) (auto simp: sum_bind_Inr_iff Let_def log_of_def ops_of_def)
  then show ?thesis using step_configure by (simp add: log_stay)
next
  case (step_checkpoint c cp)
  then have "log_of st' i = log_of st i"
    using CreateExportCheckpoint_cases [of c cp st] by (auto simp: log_of_def ops_of_def)
  then show ?thesis by (simp add: log_stay)
next
  case (step_complete c j k completion)
  then have "log_of st' i = log_of st i"
    using CompleteExportCheckpoint_cases [of c j k completion st] by (auto simp: log_of_def ops_of_def)
  then show ?thesis by (simp add: log_stay)
next
  case step_close
  then show ?thesis by (simp add: Close_def log_of_def ops_of_def log_stay)
qed

text \<open>C22: Every call on a reachable store, whatever its context and answer, is a step of the abstract
  session: the log stays as it is, is opened on a valid snapshot, grows at its end by one operation
  whose changes are acceptable on the map the log denotes, or is compacted: a prefix of the log gives
  way to a snapshot of the very map the log has after it. The arguments are arbitrary, save that an
  appended operation has a revision below 2^64 (no wrap to 0), and that a published snapshot carries
  its document's environment hash and does not collide with the map hash of a different map of the log.
  That the snapshot is a version of the log is no condition: the store finds it out from the revision
  and the retained hash.\<close>

theorem store_refines_log:
  assumes "digest32 H" "store_reachable H procs st" "store_step H procs st st'"
  shows "log_step (log_of st i) (log_of st' i)"
  by (rule store_step_log [OF assms(1) store_reachable_ok [OF assms(1,2)] assms(3)])

section \<open>Export checkpoints\<close>

text \<open>C23: A stored export checkpoint keeps its request for ever, whatever is done to the store. A
  checkpoint with a terminal result never changes again, and a pending one changes at most to a valid
  terminal result of the same request.\<close>

theorem checkpoint_final:
  assumes "digest32 H" "store_reachable H procs st" "store_step H procs st st'" "inner (checkpoints st) i k = Some cp"
  shows "\<exists>cp'. inner (checkpoints st') i k = Some cp' \<and> cp_id cp' = cp_id cp \<and> SameCheckpointRequest cp' cp \<and>
    (cp' = cp \<or> cp_status cp = CheckpointPending \<and> cp_status cp' \<in> {CheckpointAccepted, CheckpointRejected} \<and> result_ok cp')"
proof -
  have same: ?thesis if "checkpoints st' i = checkpoints st i"
    using that assms(4) by (auto simp: inner_def SameCheckpointRequest_def)
  from assms(3) show ?thesis
  proof cases
    case (step_create c s)
    show ?thesis
    proof (cases "fst (Create H procs c s st)")
      case (Inl e)
      then have "st' = st" using step_create by (auto simp: Create_def keep_def split: sum.splits)
      then show ?thesis using same by simp
    next
      case (Inr u)
      then have "Create H procs c s st = (Inr (), st')" using step_create by (cases "Create H procs c s st") simp
      note new = Create_new [OF this]
      have "no_session st (snap_document s)"
        using new store_reachable_ok [OF assms(1,2)] by (auto simp: store_ok_def session_ok_def)
      then have "i \<noteq> snap_document s" using assms(4) by (auto simp: no_session_def inner_def)
      then show ?thesis using new same by (auto simp: Let_def)
    qed
  next
    case (step_append a c)
    have "checkpoints (snd (Append H procs c a st)) = checkpoints st"
      by (auto simp: Append_def append_new_def append_verified_def Let_def keep_def sum_bind_def split: sum.splits option.splits prod.splits)
    then show ?thesis using step_append same by simp
  next
    case (step_save s c)
    have "checkpoints (snd (SaveSnapshot H procs c s st)) = checkpoints st"
      unfolding SaveSnapshot_def by (rule keep_snd_cases) (auto simp: Let_def sum_bind_Inr_iff split: sum.splits option.splits)
    then show ?thesis using step_save same by simp
  next
    case (step_configure c j v)
    have "checkpoints (snd (ConfigureTransactions c j v st)) = checkpoints st"
      unfolding ConfigureTransactions_def by (rule keep_snd_cases) (auto simp: sum_bind_Inr_iff Let_def)
    then show ?thesis using step_configure same by simp
  next
    case (step_checkpoint c new)
    then show ?thesis
      using CreateExportCheckpoint_cases [of c new st] same assms(4)
      by (cases "i = cp_document new") (auto simp: inner_def SameCheckpointRequest_def)
  next
    case (step_complete c j l completion)
    then show ?thesis
      using CompleteExportCheckpoint_cases [of c j l completion st] same assms(4)
      by (cases "i = j") (auto simp: inner_def Complete_iff SameCheckpointRequest_def)
  next
    case step_close
    then show ?thesis using same by (simp add: Close_def)
  qed
qed

section \<open>No nil dereference\<close>

text \<open>C24: No method of a reachable store dereferences a nil document or writes to a nil map: for every
  argument and context, appending, publishing a snapshot, creating a checkpoint and loading recovery
  data never panic.\<close>

theorem store_never_panics:
  assumes "digest32 H" "store_reachable H procs st"
  shows "fst (Append H procs c a st) \<noteq> Inl Panic \<and> fst (SaveSnapshot H procs c s st) \<noteq> Inl Panic \<and>
    fst (CreateExportCheckpoint c cp st) \<noteq> Inl Panic \<and> LoadRecovery c i st \<noteq> Inl Panic"
proof -
  have present: "\<exists>d acc hs cps keys. documents st i = Some d \<and> st_accepted st i = Some acc \<and> st_hashes st i = Some hs \<and>
      checkpoints st i = Some cps \<and> checkpoint_keys st i = Some keys" if "sessions st i = Some x" for i x
    using session_present [OF store_reachable_ok [OF assms] that] by (auto simp: session_ok_def)
  have enters: "enter c \<noteq> Inl Panic" "opened st \<noteq> Inl Panic" by (auto simp: enter_def opened_def guard_def)
  have keep_panic: "fst (keep st' r) = Inl Panic \<longleftrightarrow> r = Inl Panic" for r :: "store_error + 'x \<times> memory_store" and st'
    by (cases r) (auto simp: keep_def)
  have "fst (Append H procs c a st) \<noteq> Inl Panic"
  proof
    assume p: "fst (Append H procs c a st) = Inl Panic"
    let ?i = "op_document (acc_op a)"
    have ent: "sum_bind (enter c) (\<lambda>_. opened st) \<noteq> Inl Panic" using enters by (auto simp: sum_bind_Inl_iff)
    then obtain base where base: "sessions st ?i = Some base" "fst (append_new H procs a base st) = Inl Panic"
      using p by (auto simp: Append_def Let_def split: sum.splits option.splits if_splits)
    obtain d acc hs where "documents st ?i = Some d" "st_accepted st ?i = Some acc" "st_hashes st ?i = Some hs"
      using present [OF base(1)] by blast
    then show False using base(2)
      by (auto simp: append_new_def append_verified_def Let_def keep_panic sum_bind_Inl_iff split: if_splits prod.splits sum.splits)
  qed
  moreover have "fst (SaveSnapshot H procs c s st) \<noteq> Inl Panic"
    using enters present [of "snap_document s"]
    by (auto simp: SaveSnapshot_def Let_def keep_panic sum_bind_Inl_iff split: option.splits sum.splits)
  moreover have "fst (CreateExportCheckpoint c cp st) \<noteq> Inl Panic"
    using enters present [of "cp_document cp"]
    by (cases "sessions st (cp_document cp)")
      (auto simp: CreateExportCheckpoint_def Let_def keep_panic sum_bind_Inl_iff inner_def prior_checkpoint_def
        split: option.splits sum.splits if_splits)
  moreover have "LoadRecovery c i st \<noteq> Inl Panic"
    using enters present [of i] by (auto simp: LoadRecovery_def Let_def sum_bind_Inl_iff split: option.splits)
  ultimately show ?thesis by blast
qed

section \<open>A sample session\<close>

definition sample_accepted :: accepted_operation where
  "sample_accepted = projr (fst (Apply sample_digest 2 sample_edit 5 sample_doc))"

definition sample_store :: memory_store where
  "sample_store = snd (Create sample_digest 2 Background sample_snapshot NewMemoryStore)"

definition sample_store1 :: memory_store where
  "sample_store1 = snd (Append sample_digest 2 Background sample_accepted sample_store)"

lemma sample_accepted_eq:
  "sample_accepted = \<lparr>acc_op = sample_edit\<lparr>changes := sort_changes (changes sample_edit)\<rparr>, acc_revision = 1, accepted_at = 5\<rparr>"
proof -
  have "doc_ok sample_digest 2 sample_doc" using NewDocument_ok [OF sample_doc_new] by simp
  from apply_new(5) [OF this sample_edit_applied [unfolded Apply_def]] show ?thesis
    by (simp add: sample_accepted_def Apply_def sample_doc_facts sample_revision)
qed

lemma sample_changes_sorted: "sort_changes (changes sample_edit) = changes sample_edit"
  by (simp add: sample_edit_def sample_op_def sort_changes_def)

lemma sample_accepted_op: "acc_op sample_accepted = sample_edit" "accepted_at sample_accepted = 5" "acc_revision sample_accepted = 1"
  using changes_update_id [OF sample_changes_sorted] by (simp_all add: sample_accepted_eq)

lemma sample_created:
  "Create sample_digest 2 Background sample_snapshot NewMemoryStore = (Inr (), sample_store)"
  "sessions sample_store (sample_id CHR ''1'') = Some sample_snapshot" "\<not> st_closed sample_store"
  "documents sample_store (sample_id CHR ''1'') = Some sample_doc" "st_accepted sample_store (sample_id CHR ''1'') = Some fmempty"
  "ops_of sample_store (sample_id CHR ''1'') = []"
  "st_hashes sample_store (sample_id CHR ''1'') = Some (fmupd 0 (map_hash sample_doc) fmempty)"
  "checkpoints sample_store (sample_id CHR ''1'') = Some Map.empty" "checkpoint_keys sample_store (sample_id CHR ''1'') = Some Map.empty"
proof -
  have i: "snap_document sample_snapshot = sample_id CHR ''1''" by (simp add: sample_snapshot_def sample_map_def)
  note d = sample_doc_new sample_doc_facts(4)
  show "Create sample_digest 2 Background sample_snapshot NewMemoryStore = (Inr (), sample_store)"
    "sessions sample_store (sample_id CHR ''1'') = Some sample_snapshot" "\<not> st_closed sample_store"
    "documents sample_store (sample_id CHR ''1'') = Some sample_doc" "st_accepted sample_store (sample_id CHR ''1'') = Some fmempty"
    "ops_of sample_store (sample_id CHR ''1'') = []"
    "st_hashes sample_store (sample_id CHR ''1'') = Some (fmupd 0 (map_hash sample_doc) fmempty)"
    "checkpoints sample_store (sample_id CHR ''1'') = Some Map.empty" "checkpoint_keys sample_store (sample_id CHR ''1'') = Some Map.empty"
    by (simp_all add: sample_revision sample_store_def Create_def keep_def enter_def opened_def guard_def NewMemoryStore_def d i Let_def ops_of_def)
qed

lemma sample_store_reachable: "store_reachable sample_digest 2 sample_store" "store_reachable sample_digest 2 sample_store1"
proof -
  show r: "store_reachable sample_digest 2 sample_store"
    unfolding sample_store_def by (rule store_next [OF store_new step_create])
  show "store_reachable sample_digest 2 sample_store1"
    unfolding sample_store1_def by (rule store_next [OF r step_append]) (simp add: sample_accepted_op)
qed

lemma sample_ids_of_accepted: "op_document (acc_op sample_accepted) = sample_id CHR ''1''"
  by (simp add: sample_accepted_op sample_edit_def sample_op_def)

theorem Append_outcome_witness:
  "fst (Append sample_digest 2 Background sample_accepted sample_store) = Inr () \<and>
   Load Background (sample_id CHR ''1'') sample_store1 = Inr (sample_snapshot, [sample_accepted])"
proof -
  have "fst (Apply sample_digest 2 sample_edit 5 sample_doc) = Inr sample_accepted"
    using sample_edit_applied by (metis fst_conv sample_accepted_def)
  then show ?thesis
    using Append_outcome [OF sample_digest32 sample_store_reachable(1) sample_created(3) sample_ids_of_accepted
        sample_created(2,4,5), of "fst (Append sample_digest 2 Background sample_accepted sample_store)" sample_store1]
    by (simp add: sample_accepted_op sample_doc_facts sample_revision sample_created sample_store1_def)
qed

lemma sample_store1_facts:
  "sessions sample_store1 (sample_id CHR ''1'') = Some sample_snapshot" "\<not> st_closed sample_store1"
  "ops_of sample_store1 (sample_id CHR ''1'') = [sample_accepted]"
proof -
  let ?i = "sample_id CHR ''1''"
  have h: "hashed sample_digest 2 sample_doc" by (rule NewDocument_hashed [OF sample_digest32 sample_doc_new])
  have fresh: "fmlookup (accepted sample_doc) (op_id (acc_op sample_accepted)) = None" by (simp add: sample_doc_facts)
  have rev: "acc_revision sample_accepted = snap_revision sample_snapshot + of_nat (length (ops_of sample_store ?i)) + 1"
    by (simp add: sample_accepted_op sample_revision sample_created)
  have acc: "st_accepted sample_store ?i = Some (accepted sample_doc)" by (simp add: sample_created sample_doc_facts)
  have app: "append_new sample_digest 2 sample_accepted sample_snapshot sample_store = (Inr (), sample_store1)"
    using Append_outcome_witness sample_created(2,3,5) sample_ids_of_accepted
    by (cases "append_new sample_digest 2 sample_accepted sample_snapshot sample_store")
      (auto simp: Append_def enter_def opened_def guard_def prior_accepted_def sample_store1_def)
  obtain e where e: "sample_store1 = sample_store
      \<lparr>operations := (operations sample_store)(?i \<mapsto> ops_of sample_store ?i @ [sample_accepted]),
       st_accepted := (st_accepted sample_store)(?i \<mapsto> accepted e), documents := (documents sample_store)(?i \<mapsto> e),
       st_hashes := (st_hashes sample_store)(?i \<mapsto> fmupd (acc_revision sample_accepted) (map_hash e) (fmupd 0 (map_hash sample_doc) fmempty)),
       revision_heads := (revision_heads sample_store)(?i \<mapsto> acc_revision sample_accepted)\<rparr>"
    using append_new_result [OF sample_digest32 h sample_created(4) acc sample_created(7) fresh sample_ids_of_accepted rev, of sample_store1]
      app by blast
  show "sessions sample_store1 ?i = Some sample_snapshot" "\<not> st_closed sample_store1" "ops_of sample_store1 ?i = [sample_accepted]"
    using sample_created unfolding e by (simp_all add: ops_of_def)
qed

theorem store_recovers_witness:
  "\<exists>state d e. LoadRecovery Background (sample_id CHR ''1'') sample_store1 = Inr state \<and>
     documents sample_store1 (sample_id CHR ''1'') = Some d \<and> Restore sample_digest 2 state = Inr e \<and> accepted e = accepted d"
  using store_recovers [OF sample_digest32 sample_store_reachable(2) sample_store1_facts(1,2)] by blast

theorem store_refines_log_witness:
  "log_step (Some (sample_snapshot, [])) (Some (sample_snapshot, [sample_accepted]))"
proof -
  have "store_step sample_digest 2 sample_store sample_store1"
    unfolding sample_store1_def by (rule step_append) (simp add: sample_accepted_op)
  from store_refines_log [OF sample_digest32 sample_store_reachable(1) this, of "sample_id CHR ''1''"] show ?thesis
    by (simp add: log_of_def sample_created sample_store1_facts)
qed

section \<open>The environment hash of a published snapshot\<close>

text \<open>\<^verbatim>\<open>SaveSnapshot\<close> checks the revision and the map hash, which does not cover the environment
  hash. A snapshot of the same map with another environment hash is published, and from then on the
  session cannot be restored: its operations are replayed on a document of the other environment.\<close>

lemma Snapshot_Hash_environment:
  assumes "Snapshot_Validate s = None" "ValidateSHA256 ''environment hash'' e = None"
  shows "Snapshot_Hash H procs (s\<lparr>environment_hash := e\<rparr>) = Snapshot_Hash H procs s"
proof -
  let ?s = "s\<lparr>environment_hash := e\<rparr>"
  have ok: "snapshot_ok s" "snapshot_ok ?s" using assms by (simp_all add: Snapshot_Validate_iff snapshot_ok_def header_ok_def dims_ok_def Contains_def snapshot_ids_def)
  have "newCanonicalHasher H procs ?s = newCanonicalHasher H procs s"
    by (simp add: newCanonicalHasher_def Let_def canonicalTiles_def)
  then show ?thesis using Snapshot_Hash_full ok by simp
qed

lemma replay_one_applies:
  assumes "replay_one H procs state r a d result = Inr (d', result')"
  shows "\<exists>d1 v. core d1 = core d \<and> Apply H procs (acc_op a) (accepted_at a) d1 = (Inr v, d')"
proof (cases "result = None \<and> snap_revision (doc_snapshot d) = r")
  case True
  then show ?thesis
    using assms by (intro exI [of _ "snd (Document_Clone d)"])
      (auto simp: replay_one_def Let_def sum_bind_Inr_iff split: prod.splits sum.splits)
next
  case False
  then show ?thesis
    using assms by (intro exI [of _ d]) (auto simp: replay_one_def Let_def sum_bind_Inr_iff split: prod.splits sum.splits if_splits)
qed

lemma restore_needs_environment:
  assumes "Restore H procs state = Inr e" "rs_operations state = [a]" "acc_revision a > snap_revision (rs_snapshot state)"
  shows "op_environment (acc_op a) = environment_hash (rs_snapshot state)"
proof -
  obtain d first d' latest result where d: "NewDocument H procs (rs_snapshot state) = Inr d"
      "replay_ops H procs state (rs_head_revision state) (first + 1) [a] (authoritative_hashes state d) fmempty None = Inr (d', latest, result)"
    using assms(1,2) unfolding Restore_def RestoreAt_def by (auto simp: Let_def sum_bind_Inr_iff split: sum.splits)
  let ?d = "authoritative_hashes state d"
  have new: "doc_ok H procs d" "doc_snapshot d = rs_snapshot state" using NewDocument_ok [OF d(1)] by simp_all
  have snap: "doc_snapshot ?d = rs_snapshot state" by (simp add: authoritative_hashes_def new(2))
  have ok: "doc_ok H procs ?d" using new(1) by (simp add: authoritative_hashes_def doc_ok_def)
  obtain result' where one: "replay_one H procs state (rs_head_revision state) a ?d None = Inr (d', result')"
      and fresh: "fmlookup (accepted ?d) (op_id (acc_op a)) = None"
    using d(2) assms(3) by (auto simp: sum_bind_Inr_iff not_le [symmetric] split: if_splits)
  obtain d1 v where d1: "core d1 = core ?d" "Apply H procs (acc_op a) (accepted_at a) d1 = (Inr v, d')"
    using replay_one_applies [OF one] by blast
  then have d3: "fmlookup (accepted d1) (op_id (acc_op a)) = None" using fresh by (simp add: core_eq_iff)
  have "doc_ok H procs d1" "doc_snapshot d1 = rs_snapshot state" using ok snap d1(1) doc_ok_core [OF d1(1)] by (simp_all add: core_eq_iff)
  then show ?thesis
    using apply_new(3) [OF _ d1(2) [unfolded Apply_def] d3] by (auto simp: header_iff)
qed

theorem save_ignores_environment:
  "let s = sample_snapshot\<lparr>environment_hash := replicate 64 CHR ''1''\<rparr> in
   \<exists>st state e. SaveSnapshot sample_digest 2 Background s sample_store1 = (Inr (), st) \<and>
     LoadRecovery Background (sample_id CHR ''1'') st = Inr state \<and> Restore sample_digest 2 state = Inl e"
proof -
  let ?i = "sample_id CHR ''1''" and ?s = "sample_snapshot\<lparr>environment_hash := replicate 64 CHR ''1''\<rparr>"
  have valid: "ValidateSHA256 ''environment hash'' (replicate 64 CHR ''1'') = None" by code_simp
  note r = store_reachable_ok [OF sample_digest32 sample_store_reachable(2)]
  obtain s0 p dk q dn hs s' where o: "backed sample_digest 2 ?i s0 p dk q dn" "sessions sample_store1 ?i = Some s'" "published_as s' dk"
      "operations sample_store1 ?i = Some q" "documents sample_store1 ?i = Some dn" "st_accepted sample_store1 ?i = Some (accepted dn)"
      "st_hashes sample_store1 ?i = Some hs" "fmlookup hs = hashes dn"
    using session_present [OF r sample_store1_facts(1)] by (rule session_ok_E)
  note b = backedD [OF sample_digest32 o(1)]
  have s': "s' = sample_snapshot" and q: "q = [sample_accepted]" using o(2,4) sample_store1_facts by (simp_all add: ops_of_def)
  have rev: "snap_revision (doc_snapshot dk) = 0" using published_revision [OF o(3)] s' by (simp add: sample_revision)
  then have p: "p = []" using b(7) by simp
  have "history sample_digest 2 dk [] dk" by (simp add: history_Nil_iff)
  from published_after(2) [OF sample_digest32 b(1) o(3) this]
  have "Snapshot_Hash sample_digest 2 sample_snapshot = Inr (map_hash dk)" by (simp add: snapshot_after_def s')
  then have hash: "Snapshot_Hash sample_digest 2 ?s = Inr (map_hash dk)"
    using Snapshot_Hash_environment [OF sample_snapshot_valid(1) valid] by simp
  have "hashes dn 0 = hashes dk 0"
    using history_retains [OF sample_digest32 b(1,3,9)] o(1) b(7) rev by (simp add: backed_def)
  then have kept: "hashes dn 0 = Some (map_hash dk)" using hashed_facts(6) [OF b(1)] rev by simp
  let ?st = "sample_store1\<lparr>sessions := (sessions sample_store1)(?i \<mapsto> ?s), operations := (operations sample_store1)(?i \<mapsto> [sample_accepted])\<rparr>"
  have sel: "snap_document ?s = ?i" "snap_revision ?s = 0" by (simp_all add: sample_snapshot_def sample_map_def)
  have saved: "SaveSnapshot sample_digest 2 Background ?s sample_store1 = (Inr (), ?st)"
    using o(2,4,5,7,8) sample_store1_facts(2) hash kept sel s' q
    by (simp add: SaveSnapshot_def keep_def enter_def opened_def guard_def Let_def retained_hash_def ops_of_def sample_revision sample_accepted_op)
  obtain state where state: "LoadRecovery Background ?i ?st = Inr state" "rs_operations state = [sample_accepted]" "rs_snapshot state = ?s"
    using o(5,6) sample_store1_facts(2) backed_operations [OF sample_digest32 o(1)] p q
    by (auto simp: LoadRecovery_def enter_def opened_def guard_def Let_def comp_def)
  have "op_environment sample_edit = sample_env" by (simp add: sample_edit_def sample_op_def)
  moreover have "sample_env \<noteq> replicate 64 CHR ''1''" by code_simp
  ultimately have "Restore sample_digest 2 state \<noteq> Inr d" for d
    using restore_needs_environment [of sample_digest 2 state d sample_accepted] state(2,3) by (auto simp: sample_accepted_op sel)
  then obtain e where "Restore sample_digest 2 state = Inl e" by (cases "Restore sample_digest 2 state") auto
  then show ?thesis using saved state(1) unfolding Let_def by blast
qed

theorem store_never_panics_witness:
  "fst (Append sample_digest 2 Background sample_accepted sample_store1) \<noteq> Inl Panic"
  using store_never_panics [OF sample_digest32 sample_store_reachable(2), of Background sample_accepted] by blast

definition sample_checkpoint :: export_checkpoint where
  "sample_checkpoint = \<lparr>cp_id = sample_id CHR ''4'', idempotency_key = ''key'', cp_document = sample_id CHR ''1'',
     cp_session = ''session'', cp_revision = 0, cp_map_hash = map_hash sample_doc, requested_by = sample_id CHR ''2'',
     created_at = 7, cp_status = CheckpointPending, artifact_hash = [], verifier = [], verifier_version = [],
     diagnostic_code = [], completed_at = None\<rparr>"

definition sample_store2 :: memory_store where
  "sample_store2 = snd (CreateExportCheckpoint Background sample_checkpoint sample_store)"

lemma sample_store2_facts:
  "store_reachable sample_digest 2 sample_store2"
  "inner (checkpoints sample_store2) (sample_id CHR ''1'') (sample_id CHR ''4'') = Some sample_checkpoint"
proof -
  show "store_reachable sample_digest 2 sample_store2"
    unfolding sample_store2_def by (rule store_next [OF sample_store_reachable(1) step_checkpoint])
  have texts: "text_ok ''key''" "text_ok ''session''" by code_simp+
  have "ValidateSHA256 ''map hash'' (map_hash sample_doc) = None"
    using digest_text(2) [OF sample_digest32] hashed_facts(5) [OF NewDocument_hashed [OF sample_digest32 sample_doc_new]] by simp
  then have v: "Checkpoint_Validate sample_checkpoint = Inr ()"
    using texts sample_id_valid
    by (simp add: Checkpoint_Validate_iff request_ok_def result_ok_def sample_checkpoint_def CheckpointID_Validate_def
        DocumentID_Validate_def ActorID_Validate_def)
  have sel: "cp_document sample_checkpoint = sample_id CHR ''1''" "cp_id sample_checkpoint = sample_id CHR ''4''"
      "cp_revision sample_checkpoint = 0" "cp_map_hash sample_checkpoint = map_hash sample_doc" "cp_status sample_checkpoint = CheckpointPending"
    by (simp_all add: sample_checkpoint_def)
  have "CreateExportCheckpoint Background sample_checkpoint sample_store = (Inr (sample_checkpoint, True), sample_store
        \<lparr>checkpoints := (checkpoints sample_store)(sample_id CHR ''1'' \<mapsto> [sample_id CHR ''4'' \<mapsto> sample_checkpoint]),
         checkpoint_keys := (checkpoint_keys sample_store)(sample_id CHR ''1'' \<mapsto> [idempotency_key sample_checkpoint \<mapsto> sample_id CHR ''4''])\<rparr>)"
    using v sample_created
    by (simp add: CreateExportCheckpoint_def keep_def enter_def opened_def guard_def inner_def retained_hash_def Let_def sel del: fun_upd_apply)
  then show "inner (checkpoints sample_store2) (sample_id CHR ''1'') (sample_id CHR ''4'') = Some sample_checkpoint"
    by (simp add: sample_store2_def inner_def)
qed

theorem checkpoint_final_witness:
  "\<exists>cp. inner (checkpoints (Close sample_store2)) (sample_id CHR ''1'') (sample_id CHR ''4'') = Some cp \<and>
     SameCheckpointRequest cp sample_checkpoint"
  using checkpoint_final [OF sample_digest32 sample_store2_facts(1) step_close sample_store2_facts(2)] by blast

end
