(* ===== verification/Replay_Correct.thy ===== *)
theory Replay_Correct
  imports Replay_Size Store_Props
begin

text \<open>
  Correctness of replay pages: a page holds the operations right after the cursor, in order and
  without a gap, it is cut only by its limits, and it always makes progress.
\<close>

section \<open>The rows of a page\<close>

definition wanted :: "revision \<Rightarrow> revision \<Rightarrow> accepted_operation \<Rightarrow> bool" where
  "wanted cursor through a \<longleftrightarrow> \<not> (acc_revision a \<le> cursor \<or> acc_revision a > through)"

lemma entry_accepted: "validateMemoryReplayEntry i k r h n bulk a = Inr e \<Longrightarrow> re_accepted e = a \<and> re_map_hash e = h"
  by (auto simp: validateMemoryReplayEntry_def ValidateLegacyReplayEntry_def sum_bind_Inr_iff replay_entry_of_def split: if_splits)

lemma page_rows_sound:
  assumes "page_rows stamp st i cursor through limit bulk c as es n = Inr (es', rest)"
  shows "\<exists>new. es' = es @ new \<and> map re_accepted new = take (length new) (filter (wanted cursor through) as) \<and>
    (rest \<longleftrightarrow> length new < length (filter (wanted cursor through) as)) \<and>
    (int (length es) \<le> limit \<longrightarrow> int (length es') \<le> limit) \<and> (rest \<longrightarrow> es = [] \<longrightarrow> 1 \<le> limit \<longrightarrow> new \<noteq> [])"
  using assms
proof (induction as arbitrary: c es n)
  case Nil
  then show ?case by simp
next
  case (Cons a as)
  obtain c' where c': "ctx_poll c = Some c'" using Cons.prems by (auto split: option.splits)
  show ?case
  proof (cases "wanted cursor through a")
    case False
    then have "page_rows stamp st i cursor through limit bulk c' as es n = Inr (es', rest)"
      using Cons.prems c' by (simp add: wanted_def)
    from Cons.IH [OF this] False show ?thesis by simp
  next
    case True
    then have w: "\<not> (acc_revision a \<le> cursor \<or> acc_revision a > through)" by (simp add: wanted_def)
    show ?thesis
    proof (cases "int (length es) \<ge> limit")
      case True
      then show ?thesis using Cons.prems c' w \<open>wanted cursor through a\<close> by auto
    next
      case False
      then obtain h b where hb: "retained_hash st i (acc_revision a) = Some h" "replayAcceptedJSONSize stamp a = Some b"
          "\<not> (n + b > MaxReplayPageInlineBytes \<and> length es = 0 \<and> \<not> bulk)"
          "(if n + b > MaxReplayPageInlineBytes \<and> length es \<noteq> 0 then Inr (es, True)
            else sum_bind (validateMemoryReplayEntry i (op_id (acc_op a)) (acc_revision a) h b bulk a) (\<lambda>entry.
              page_rows stamp st i cursor through limit bulk c' as (es @ [entry]) (n + b))) = Inr (es', rest)"
        using Cons.prems c' w by (auto simp: sum_bind_Inr_iff split: option.splits)
      show ?thesis
      proof (cases "n + b > MaxReplayPageInlineBytes \<and> length es \<noteq> 0")
        case True
        then show ?thesis using hb(4) \<open>wanted cursor through a\<close> by auto
      next
        case False
        then obtain e where e: "validateMemoryReplayEntry i (op_id (acc_op a)) (acc_revision a) h b bulk a = Inr e"
            "page_rows stamp st i cursor through limit bulk c' as (es @ [e]) (n + b) = Inr (es', rest)"
          using hb(4) by (auto simp: sum_bind_Inr_iff split: if_splits)
        from Cons.IH [OF e(2)] obtain new where new: "es' = es @ e # new"
            "map re_accepted new = take (length new) (filter (wanted cursor through) as)"
            "rest \<longleftrightarrow> length new < length (filter (wanted cursor through) as)"
            "int (length (es @ [e])) \<le> limit \<longrightarrow> int (length es') \<le> limit" by auto
        then show ?thesis
          using entry_accepted [OF e(1)] \<open>wanted cursor through a\<close> \<open>\<not> int (length es) \<ge> limit\<close>
          by (intro exI [of _ "e # new"]) auto
      qed
    qed
  qed
qed

text \<open>What the loader asks of a stored row.\<close>

definition row_ok :: "stamp_fun \<Rightarrow> memory_store \<Rightarrow> document_id \<Rightarrow> bool \<Rightarrow> accepted_operation \<Rightarrow> bool" where
  "row_ok stamp st i bulk a \<longleftrightarrow>
     (\<exists>h b e. retained_hash st i (acc_revision a) = Some h \<and> validReplayHash h \<and> op_document (acc_op a) = i \<and>
        op_id (acc_op a) \<noteq> [] \<and> replayAcceptedJSONSize stamp a = Some b \<and> (\<not> bulk \<longrightarrow> b \<le> MaxReplayPageInlineBytes) \<and>
        validateMemoryReplayEntry i (op_id (acc_op a)) (acc_revision a) h b bulk a = Inr e)"

lemma page_rows_live:
  assumes "\<forall>a\<in>set as. wanted cursor through a \<longrightarrow> row_ok stamp st i bulk a" "es = [] \<longrightarrow> n = 0"
  shows "\<exists>r. page_rows stamp st i cursor through limit bulk Background as es n = Inr r"
  using assms
proof (induction as arbitrary: es n)
  case (Cons a as)
  show ?case
  proof (cases "wanted cursor through a")
    case False
    then show ?thesis using Cons by (simp add: wanted_def)
  next
    case True
    then have w: "\<not> (acc_revision a \<le> cursor \<or> acc_revision a > through)" by (simp add: wanted_def)
    obtain h b e where row: "retained_hash st i (acc_revision a) = Some h" "validReplayHash h" "op_document (acc_op a) = i"
        "op_id (acc_op a) \<noteq> []" "replayAcceptedJSONSize stamp a = Some b" "\<not> bulk \<longrightarrow> b \<le> MaxReplayPageInlineBytes"
        "validateMemoryReplayEntry i (op_id (acc_op a)) (acc_revision a) h b bulk a = Inr e"
      using Cons.prems(1) True by (auto simp: row_ok_def)
    have "\<exists>r. page_rows stamp st i cursor through limit bulk Background as (es @ [e]) (n + b) = Inr r"
      using Cons.prems(1) by (intro Cons.IH) auto
    then show ?thesis using row w Cons.prems(2) by (auto simp: guard_def)
  qed
qed auto

section \<open>The wanted part of a log\<close>

lemma wanted_slice:
  assumes "digest32 H" "backed H procs i s0 p dk q dn"
    and "snap_revision (doc_snapshot dk) \<le> cursor" "cursor \<le> through" "through \<le> snap_revision (doc_snapshot dn)"
  defines "W \<equiv> filter (wanted cursor through) q"
  shows "length W = unat (through - cursor)"
    and "k < length W \<Longrightarrow> unat (acc_revision (W ! k)) = unat cursor + k + 1"
    and "W = take (unat (through - cursor)) (drop (unat (cursor - snap_revision (doc_snapshot dk))) q)"
proof -
  let ?b = "unat (snap_revision (doc_snapshot dk))"
  note b = backedD [OF assms(1,2)]
  note rv = backed_revisions [OF assms(1,2)]
  define m where "m = unat (cursor - snap_revision (doc_snapshot dk))"
  define l where "l = unat (through - cursor)"
  have m: "m = unat cursor - ?b" "?b \<le> unat cursor" using assms(3) by (simp_all add: m_def unat_sub word_le_nat_alt)
  have l: "l = unat through - unat cursor" "unat cursor \<le> unat through" using assms(4) by (simp_all add: l_def unat_sub word_le_nat_alt)
  have ml: "m + l \<le> length q" using m l b(7,8) assms(5) by (simp add: word_le_nat_alt)
  have q: "q = take m q @ take l (drop m q) @ drop (m + l) q" by (metis append_take_drop_id take_drop_join)
  have w: "wanted cursor through (q ! k) \<longleftrightarrow> m \<le> k \<and> k < m + l" if "k < length q" for k
    using rv [OF that] m l by (auto simp: wanted_def word_le_nat_alt word_less_nat_alt)
  have 1: "filter (wanted cursor through) (take m q) = []" using w by (auto simp: filter_empty_conv in_set_conv_nth)
  have 2: "filter (wanted cursor through) (take l (drop m q)) = take l (drop m q)"
    using w ml by (auto simp: filter_id_conv in_set_conv_nth)
  have 3: "filter (wanted cursor through) (drop (m + l) q) = []" using w by (auto simp: filter_empty_conv in_set_conv_nth)
  have W: "W = take l (drop m q)" unfolding W_def by (subst q) (simp only: filter_append 1 2 3 append_Nil append_Nil2)
  show "length W = unat (through - cursor)" using ml by (simp add: W l_def)
  show "W = take (unat (through - cursor)) (drop (unat (cursor - snap_revision (doc_snapshot dk))) q)"
    by (simp add: W l_def m_def)
  assume "k < length W"
  then show "unat (acc_revision (W ! k)) = unat cursor + k + 1" using rv [of "m + k"] ml m by (simp add: W)
qed

section \<open>Rows of a reachable store\<close>

text \<open>What is asked of an operation beyond its acceptance: a time of acceptance with a JSON text and,
  without bulk transactions, the size limits of a message.\<close>

definition showable :: "stamp_fun \<Rightarrow> bool \<Rightarrow> accepted_operation \<Rightarrow> bool" where
  "showable stamp bulk a \<longleftrightarrow> accepted_at a \<noteq> 0 \<and>
     (\<exists>b. replayAcceptedJSONSize stamp a = Some b \<and>
        (\<not> bulk \<longrightarrow> b \<le> MaxMessageBytes \<and> length (changes (acc_op a)) \<le> MaxOperationChanges))"

lemma history_admissible:
  assumes "digest32 H" "hashed H procs d0" "history H procs d0 as d" "a \<in> set as"
  shows "\<exists>e. hashed H procs e \<and> admissible e a"
  using assms by (induction rule: history_run) auto

lemma replay_size_pos: "replayAcceptedJSONSize stamp a = Some b \<Longrightarrow> 1 \<le> b"
  unfolding replay_size_length json_accepted_def json_object_def Let_def by (auto split: option.splits)

lemma empty_operation_id: "OperationID_Validate [] \<noteq> None"
  by code_simp

lemma validReplayHash_iff: "validReplayHash h \<longleftrightarrow> ValidateSHA256 name h = None"
  by (auto simp: validReplayHash_def ValidateSHA256_def split: option.splits)

lemma backed_documents:
  assumes "digest32 H" "backed H procs i s0 p dk q dn" "a \<in> set q"
  shows "op_document (acc_op a) = i"
proof -
  note b = backedD [OF assms(1,2)]
  have "op_document (acc_op x) = snap_document (doc_snapshot dk)" if "history H procs dk as d'" "x \<in> set as" for as d' x
    using assms(1) b(1) that
  proof (induction rule: history_run)
    case (step as d a' d')
    have "snap_document (doc_snapshot d) = snap_document (doc_snapshot dk)"
      using history_snapshot(2) [OF assms(1) b(1) step.hyps(1)] by auto
    then show ?case using step by (auto simp: admissible_def Let_def)
  qed simp
  then show ?thesis using b(3,4) assms(3) by blast
qed

lemma store_rows:
  assumes "digest32 H" "backed H procs i s0 p dk q dn" "st_hashes st i = Some hs" "fmlookup hs = hashes dn"
    "a \<in> set q" "showable stamp bulk a"
  shows "row_ok stamp st i bulk a"
proof -
  note b = backedD [OF assms(1,2)]
  obtain e where e: "hashed H procs e" "admissible e a" using history_admissible [OF assms(1) b(1,3) assms(5)] by blast
  then have adm: "validate_header e (acc_op a) = Inr ()" "changes_ok (doc_snapshot e) (changes (acc_op a))"
    by (simp_all add: admissible_def Let_def)
  have cnt: "1 \<le> length (changes (acc_op a))" "length (changes (acc_op a)) \<le> 16777216"
  proof -
    have "count_ok (doc_snapshot e) (changes (acc_op a))" using adm(2) by (simp add: changes_ok_def)
    then show "1 \<le> length (changes (acc_op a))" "length (changes (acc_op a)) \<le> 16777216"
      by (auto simp: count_ok_def CellCount_Inr_iff dims_ok_def Suc_le_eq split: sum.splits)
  qed
  obtain k where k: "k < length q" "a = q ! k" using assms(5) by (auto simp: in_set_conv_nth)
  have u: "unat (acc_revision a) = unat (snap_revision (doc_snapshot dk)) + k + 1"
    using backed_revisions [OF assms(1,2) k(1)] k(2) by simp
  then have rng: "snap_revision s0 \<le> acc_revision a" "acc_revision a \<le> snap_revision (doc_snapshot dn)"
    using b(7,8) k(1) by (simp_all add: word_le_nat_alt)
  then obtain h where h: "hashes dn (acc_revision a) = Some h" "\<forall>name. ValidateSHA256 name h = None"
    using b(10) unfolding retains_def by blast
  have ids: "op_document (acc_op a) = i" "DocumentID_Validate i = None" "ActorID_Validate (op_actor (acc_op a)) = None"
      "OperationID_Validate (op_id (acc_op a)) = None"
  proof -
    show "op_document (acc_op a) = i" by (rule backed_documents [OF assms(1,2,5)])
    show "DocumentID_Validate i = None" using doc_okD(1) [OF hashed_facts(1) [OF b(2)]] b(5) by (simp add: snapshot_ok_def header_ok_def)
    show "ActorID_Validate (op_actor (acc_op a)) = None" "OperationID_Validate (op_id (acc_op a)) = None"
      using adm(1) by (simp_all add: header_iff)
  qed
  obtain n where n: "replayAcceptedJSONSize stamp a = Some n"
      "\<not> bulk \<longrightarrow> n \<le> MaxMessageBytes \<and> length (changes (acc_op a)) \<le> MaxOperationChanges" and at: "accepted_at a \<noteq> 0"
    using assms(6) by (auto simp: showable_def)
  have "\<exists>e. validateMemoryReplayEntry i (op_id (acc_op a)) (acc_revision a) h n bulk a = Inr e"
    using n(2) at cnt ids h(2) replay_size_pos [OF n(1)] validReplayHash_iff [of h]
    by (auto simp: validateMemoryReplayEntry_def ValidateLegacyReplayEntry_def row_differs_def identities_def guard_def check_def
        MaxMapCells_def not_less)
  moreover have "op_id (acc_op a) \<noteq> []" using ids(4) empty_operation_id by auto
  ultimately show ?thesis
    using n ids(1) h assms(3,4) validReplayHash_iff [of h]
    by (auto simp: row_ok_def retained_hash_def MaxReplayPageInlineBytes_def)
qed

section \<open>The page\<close>

lemma sequence_from_iff:
  "sequence_from r es = Inr r' \<longleftrightarrow> r' = r + of_nat (length es) \<and>
     (\<forall>k < length es. acc_revision (re_accepted (es ! k)) = r + of_nat k)"
proof (induction es arbitrary: r)
  case (Cons e es)
  have "(\<forall>k < length (e # es). acc_revision (re_accepted ((e # es) ! k)) = r + of_nat k) \<longleftrightarrow>
      acc_revision (re_accepted e) = r \<and> (\<forall>k < length es. acc_revision (re_accepted (es ! k)) = r + 1 + of_nat k)"
    by (auto simp: less_Suc_eq_0_disj nth_Cons add.assoc split: nat.splits)
  then show ?case using Cons by (auto simp: sum_bind_Inr_iff add.assoc)
qed auto

lemma page_sequence:
  assumes "digest32 H" "backed H procs i s0 p dk q dn"
    and "snap_revision (doc_snapshot dk) \<le> cursor" "cursor < through" "through \<le> snap_revision (doc_snapshot dn)"
    and "map re_accepted es = take (length es) (filter (wanted cursor through) q)"
    and "hm \<longleftrightarrow> length es < length (filter (wanted cursor through) q)" "hm \<longrightarrow> es \<noteq> []"
  shows "ValidateReplayPageSequence es cursor through hm = Inr ()"
proof -
  let ?W = "filter (wanted cursor through) q"
  note s = wanted_slice [OF assms(1-3) less_imp_le [OF assms(4)] assms(5)]
  have le: "length es \<le> length ?W" using assms(6) by (metis length_map length_take min.cobounded1 min.commute)
  have nth: "re_accepted (es ! k) = ?W ! k" if "k < length es" for k
    using assms(6) that by (metis nth_map nth_take)
  have "acc_revision (re_accepted (es ! k)) = cursor + 1 + of_nat k" if "k < length es" for k
  proof -
    have "unat (acc_revision (?W ! k)) = unat cursor + (k + 1)" using s(2) that le by simp
    moreover have "unat cursor + (k + 1) < 2 ^ 64"
      using calculation unsigned_less [of "acc_revision (?W ! k)", where ?'a = nat] by simp
    ultimately have "acc_revision (?W ! k) = cursor + of_nat (k + 1)" by (simp only: word_unat_eq_iff unat_add_of_nat)
    then show ?thesis using nth [OF that] by simp
  qed
  moreover have "cursor + 1 + of_nat (length es) - 1 = through" if "\<not> hm"
  proof -
    have "length es = unat (through - cursor)" using that assms(7) le s(1) by simp
    then show ?thesis by simp
  qed
  ultimately have "sequence_from (cursor + 1) es = Inr (cursor + 1 + of_nat (length es))"
      "\<not> hm \<longrightarrow> cursor + 1 + of_nat (length es) - 1 = through"
    by (auto simp: sequence_from_iff)
  then show ?thesis
    using assms(4,8) by (auto simp: ValidateReplayPageSequence_def guard_def)
qed

lemma page_loaded:
  assumes "digest32 H" "store_reachable H procs st" "\<not> st_closed st" "log_of st i = Some (s, ops)"
    and "snap_revision s \<le> cursor" "cursor \<le> through" "through \<le> snap_revision (snapshot_after s ops)"
    and "1 \<le> limit" "limit \<le> 128" "expected \<in> {None, Some (snap_revision s)}"
    and shown: "\<forall>a\<in>set ops. wanted cursor through a \<longrightarrow> showable stamp (stored_version st i = 2) a"
  defines "W \<equiv> take (unat (through - cursor)) (drop (unat (cursor - snap_revision s)) ops)"
  shows "\<exists>page. LoadReplayPage stamp Background i cursor through expected limit st = Inr page \<and>
    rp_snapshot page = snap_revision s \<and> rp_through page = through \<and>
    map re_accepted (rp_entries page) = take (length (rp_entries page)) W \<and> int (length (rp_entries page)) \<le> limit \<and>
    (rp_has_more page \<longleftrightarrow> length (rp_entries page) < length W) \<and> (W \<noteq> [] \<longrightarrow> rp_entries page \<noteq> [])"
proof -
  have ses: "sessions st i = Some s" and ops: "ops_of st i = ops" using assms(4) by (auto simp: log_of_def)
  obtain s0 p dk dn hs where o: "backed H procs i s0 p dk ops dn" "published_as s dk" "snap_revision (doc_snapshot dk) = snap_revision s"
      "snap_revision (doc_snapshot dn) = snap_revision (snapshot_after s ops)"
      "revision_heads st i = Some (snap_revision (doc_snapshot dn))" "st_hashes st i = Some hs" "fmlookup hs = hashes dn"
    by (rule session_log [OF assms(1) store_reachable_ok [OF assms(1,2)] ses ops])
  have rows: "\<forall>a\<in>set ops. wanted cursor through a \<longrightarrow> row_ok stamp st i (stored_version st i = 2) a"
    using store_rows [OF assms(1) o(1,6,7)] shown by blast
  have lo: "snap_revision (doc_snapshot dk) \<le> cursor" and hi: "through \<le> snap_revision (doc_snapshot dn)"
    using assms(5,7) o(3,4) by simp_all
  note sl = wanted_slice [OF assms(1) o(1) lo assms(6) hi]
  have W: "filter (wanted cursor through) ops = W" using sl(3) by (simp add: W_def o(3))
  have req: "ValidateReplayPageRequest cursor through limit = Inr ()" "CheckReplaySnapshot expected (snap_revision s) = Inr ()"
    using assms(6,8,9,10) by (auto simp: ValidateReplayPageRequest_def CheckReplaySnapshot_def guard_def MaxReplayPageEntries_def not_less)
  have range: "\<not> (through > snap_revision (doc_snapshot dn) \<or> cursor > snap_revision (doc_snapshot dn))" "\<not> cursor < snap_revision s"
    using assms(5,6) hi by (auto simp: not_less)
  show ?thesis
  proof (cases "cursor = through")
    case True
    then have "W = []" by (simp add: W_def)
    then show ?thesis
      using assms(3,8) req range ses o(5) True by (simp add: LoadReplayPage_def guard_def)
  next
    case False
    then have lt: "cursor < through" using assms(6) by simp
    obtain es hm where rows': "page_rows stamp st i cursor through limit (stored_version st i = 2) Background ops [] 0 = Inr (es, hm)"
      using page_rows_live [OF rows, of "[]" 0 limit] by fastforce
    have e: "map re_accepted es = take (length es) W" "hm \<longleftrightarrow> length es < length W" "int (length es) \<le> limit" "hm \<longrightarrow> es \<noteq> []"
      using page_rows_sound [OF rows'] assms(8) by (auto simp: W)
    have seq: "ValidateReplayPageSequence es cursor through hm = Inr ()"
      using page_sequence [OF assms(1) o(1) lo lt hi, of es hm] e by (simp add: W)
    have "LoadReplayPage stamp Background i cursor through expected limit st =
        Inr \<lparr>rp_snapshot = snap_revision s, rp_head = snap_revision (doc_snapshot dn), rp_through = through,
             rp_entries = es, rp_has_more = hm\<rparr>"
      using assms(3) req range ses o(5) False rows' seq ops by (simp add: LoadReplayPage_def guard_def Let_def BulkTransactionVersion_def)
    then show ?thesis using e by auto
  qed
qed

text \<open>C28: A replay page of an open session of a reachable store, for a cursor that the published
  snapshot does not hide and a boundary up to the head. When each row in between can be shown (its
  timestamp has a text, and without bulk transactions it fits a message), the page is loaded: it holds
  the operations right after the cursor, in order and without a gap, at most as many as asked for, it
  is not empty unless there is nothing to show, and it says that more follow exactly when some of the
  wanted operations are missing.\<close>

theorem LoadReplayPage_outcome:
  assumes "digest32 H" "store_reachable H procs st" "\<not> st_closed st" "log_of st i = Some (s, ops)"
    and "snap_revision s \<le> cursor" "cursor \<le> through" "through \<le> snap_revision (snapshot_after s ops)"
    and "1 \<le> limit" "limit \<le> 128" "expected \<in> {None, Some (snap_revision s)}"
    and shown: "\<forall>a\<in>set ops. wanted cursor through a \<longrightarrow> showable stamp (stored_version st i = 2) a"
  defines "W \<equiv> take (unat (through - cursor)) (drop (unat (cursor - snap_revision s)) ops)"
  shows "\<exists>page. LoadReplayPage stamp Background i cursor through expected limit st = Inr page \<and>
    rp_snapshot page = snap_revision s \<and> rp_through page = through \<and>
    map re_accepted (rp_entries page) = take (length (rp_entries page)) W \<and> int (length (rp_entries page)) \<le> limit \<and>
    (rp_has_more page \<longleftrightarrow> length (rp_entries page) < length W) \<and> (W \<noteq> [] \<longrightarrow> rp_entries page \<noteq> [])"
  unfolding W_def by (rule page_loaded [OF assms(1-10) shown])

text \<open>The page with the one accepted edit of the sample store.\<close>

definition sample_stamp :: stamp_fun where
  "sample_stamp t = Some ''2024''"

lemma sample_shown: "showable sample_stamp bulk sample_accepted"
proof -
  have a: "sample_accepted = \<lparr>acc_op = sample_edit, acc_revision = 1, accepted_at = 5\<rparr>"
    using sample_accepted_op by simp
  have "map_option (\<lambda>n. n < 1500)
      (replayAcceptedJSONSize sample_stamp \<lparr>acc_op = sample_edit, acc_revision = 1, accepted_at = 5\<rparr>) = Some True"
    by code_simp
  then obtain z where "replayAcceptedJSONSize sample_stamp sample_accepted = Some z" "z < 1500" unfolding a by auto
  moreover have "length (changes sample_edit) < 9" by code_simp
  ultimately show ?thesis
    using sample_accepted_op unfolding showable_def MaxMessageBytes_def MaxOperationChanges_def by auto
qed

lemma sample_log: "log_of sample_store1 (sample_id CHR ''1'') = Some (sample_snapshot, [sample_accepted])"
  by (simp add: log_of_def sample_store1_facts)

lemma sample_head: "snap_revision (snapshot_after sample_snapshot [sample_accepted]) = 1"
  by (simp add: snapshot_after_def next_snapshot_def sample_revision)

theorem LoadReplayPage_outcome_witness:
  "\<exists>page. LoadReplayPage sample_stamp Background (sample_id CHR ''1'') 0 1 None 1 sample_store1 = Inr page \<and>
     map re_accepted (rp_entries page) = [sample_accepted] \<and> \<not> rp_has_more page"
  using LoadReplayPage_outcome [OF sample_digest32 sample_store_reachable(2) sample_store1_facts(2) sample_log,
      of 0 1 1 None sample_stamp] sample_shown
  by (auto simp: sample_head sample_revision le_Suc_eq)

end
