(* ===== verification/Paged_Replay.thy ===== *)
theory Paged_Replay
  imports Replay_Correct
begin

text \<open>
  The replay a server sends to a client that joins (server/paged_replay.go): pages are read one by one
  while other clients keep writing to the store, each page is checked against the cursor and sent, and
  the replay is declared complete only at the boundary the client was told.

  The page loader is a parameter of the loop (the \<^verbatim>\<open>ReplayPageStore\<close> interface), indexed by the number
  of the call because the store may change between two calls; whether the n-th write to the socket
  succeeds is the parameter \<open>write\<close>. The loop has fuel; the theorem on its termination says how much is
  enough for any loader.
\<close>

section \<open>The loop\<close>

datatype replay_message = SnapshotRequired | ReplayedEntry replay_entry | ReplayComplete revision string

datatype paged_failure = CursorAhead | NeedsSnapshot | LoadFailed replay_error | BoundaryChanged
  | InvalidEntry | EndedEarly | NoProgress | WriteFailed

type_synonym page_load = "nat \<Rightarrow> revision \<Rightarrow> revision \<Rightarrow> revision option \<Rightarrow> int \<Rightarrow> replay_error + replay_page"

fun send_entries ::
  "(nat \<Rightarrow> bool) \<Rightarrow> document_id \<Rightarrow> revision \<Rightarrow> replay_entry list \<Rightarrow> revision \<Rightarrow> replay_message list \<Rightarrow>
     paged_failure option \<times> revision \<times> replay_message list" where
  "send_entries write i through [] cursor sent = (None, cursor, sent)"
| "send_entries write i through (e # es) cursor sent =
     (if op_document (acc_op (re_accepted e)) \<noteq> i \<or> acc_revision (re_accepted e) \<noteq> cursor + 1 \<or>
         acc_revision (re_accepted e) > through
      then (Some InvalidEntry, cursor, sent)
      else if \<not> write (length sent) then (Some WriteFailed, cursor, sent)
      else send_entries write i through es (acc_revision (re_accepted e)) (sent @ [ReplayedEntry e]))"

definition snapshot_required ::
  "(nat \<Rightarrow> bool) \<Rightarrow> replay_message list \<Rightarrow> (paged_failure + unit) \<times> replay_message list" where
  "snapshot_required write sent =
     (if \<not> write (length sent) then (Inl WriteFailed, sent) else (Inl NeedsSnapshot, sent @ [SnapshotRequired]))"

fun replay_loop ::
  "page_load \<Rightarrow> (nat \<Rightarrow> bool) \<Rightarrow> document_id \<Rightarrow> revision \<Rightarrow> nat \<Rightarrow> nat \<Rightarrow> revision \<Rightarrow> revision option \<Rightarrow>
     replay_message list \<Rightarrow> ((paged_failure + unit) \<times> replay_message list) option" where
  "replay_loop load write i through 0 k cursor retained sent = None"
| "replay_loop load write i through (Suc fuel) k cursor retained sent =
     (case load k cursor through retained 32 of
        Inl e \<Rightarrow>
          (if e = ErrReplayCheckpointChanged then Some (snapshot_required write sent)
           else Some (Inl (LoadFailed e), sent))
      | Inr page \<Rightarrow>
          if cursor < rp_snapshot page then Some (snapshot_required write sent)
          else if rp_through page \<noteq> through then Some (Inl BoundaryChanged, sent)
          else
            (case send_entries write i through (rp_entries page) cursor sent of
               (Some failure, _, sent') \<Rightarrow> Some (Inl failure, sent')
             | (None, cursor', sent') \<Rightarrow>
                 if \<not> rp_has_more page then
                   (if cursor' \<noteq> through then Some (Inl EndedEarly, sent') else Some (Inr (), sent'))
                 else if length (rp_entries page) = 0 then Some (Inl NoProgress, sent')
                 else replay_loop load write i through fuel (Suc k) cursor' (Some (rp_snapshot page)) sent'))"

definition writePagedReplay ::
  "page_load \<Rightarrow> (nat \<Rightarrow> bool) \<Rightarrow> nat \<Rightarrow> metadata \<Rightarrow> revision \<Rightarrow> string \<Rightarrow>
     ((paged_failure + unit) \<times> replay_message list) option" where
  "writePagedReplay load write fuel md cursor mapHash =
     (if cursor > md_revision md then Some (Inl CursorAhead, [])
      else case replay_loop load write (md_document md) (md_revision md) fuel 0 cursor None [] of
          None \<Rightarrow> None
        | Some (Inl failure, sent) \<Rightarrow> Some (Inl failure, sent)
        | Some (Inr _, sent) \<Rightarrow>
            if \<not> write (length sent) then Some (Inl WriteFailed, sent)
            else Some (Inr (), sent @ [ReplayComplete (md_revision md) mapHash]))"

section \<open>Termination\<close>

lemma send_entries_progress:
  assumes "send_entries write i through es cursor sent = (None, cursor', sent')" "cursor \<le> through" "through \<noteq> - 1"
  shows "cursor' \<le> through \<and> unat cursor' = unat cursor + length es \<and>
    sent' = sent @ map ReplayedEntry es \<and> (\<forall>k < length es. acc_revision (re_accepted (es ! k)) = cursor + of_nat k + 1)"
  using assms
proof (induction es arbitrary: cursor sent)
  case (Cons e es)
  let ?r = "acc_revision (re_accepted e)"
  have r: "?r = cursor + 1" "?r \<le> through" and rest: "send_entries write i through es ?r (sent @ [ReplayedEntry e]) = (None, cursor', sent')"
    using Cons.prems(1) by (auto split: if_splits)
  have "cursor \<noteq> - 1" using Cons.prems(2,3) word_order.extremum_uniqueI by blast
  then have u: "unat ?r = unat cursor + 1" using r(1) unatSuc [of cursor] by (simp add: add.commute add_eq_0_iff)
  from Cons.IH [OF rest r(2) Cons.prems(3)] show ?case
    using u r(1) by (auto simp: nth_Cons less_Suc_eq_0_disj algebra_simps split: nat.splits)
qed simp

lemma replay_loop_ends:
  assumes "through \<noteq> - 1" "cursor \<le> through" "unat (through - cursor) < fuel"
  shows "replay_loop load write i through fuel k cursor retained sent \<noteq> None"
  using assms(2,3)
proof (induction fuel arbitrary: k cursor retained sent)
  case (Suc fuel)
  have step: "replay_loop load write i through fuel k' cursor' ret sent' \<noteq> None"
    if "send_entries write i through es cursor sent = (None, cursor', sent')" "es \<noteq> []" for es cursor' sent' k' ret
  proof -
    note p = send_entries_progress [OF that(1) Suc.prems(1) assms(1)]
    have "0 < length es" using that(2) by simp
    moreover have "unat (through - cursor') = unat through - unat cursor'" "unat (through - cursor) = unat through - unat cursor"
      using p Suc.prems(1) by (simp_all add: unat_sub)
    moreover have "unat cursor' \<le> unat through" "unat cursor' = unat cursor + length es"
      using p by (simp_all add: word_le_nat_alt)
    ultimately have "unat (through - cursor') < unat (through - cursor)" by linarith
    then show ?thesis using Suc.IH [of cursor'] p Suc.prems(2) by simp
  qed
  show ?case using step
    by (auto split: sum.splits prod.splits option.splits)
qed simp

lemma writePagedReplay_total:
  assumes "md_revision md \<noteq> - 1" "unat (md_revision md - cursor) < fuel"
  shows "\<exists>r. writePagedReplay load write fuel md cursor mapHash = Some r"
proof (cases "cursor > md_revision md")
  case False
  then have "replay_loop load write (md_document md) (md_revision md) fuel 0 cursor None [] \<noteq> None"
    by (intro replay_loop_ends [OF assms(1) _ assms(2)]) simp
  then obtain r sent where "replay_loop load write (md_document md) (md_revision md) fuel 0 cursor None [] = Some (r, sent)" by auto
  then show ?thesis by (cases r) (auto simp: writePagedReplay_def)
qed (simp add: writePagedReplay_def)

text \<open>C27: The replay of a joining client always ends, whatever the page loader answers and whichever
  writes fail: with a boundary below \<open>2\<^sup>64 - 1\<close>, one page more than the revisions between the client's
  cursor and the boundary is enough, because every page that asks for another one advances the cursor.\<close>

theorem writePagedReplay_ends:
  assumes "md_revision md \<noteq> - 1" "unat (md_revision md - cursor) < fuel"
  shows "\<exists>r. writePagedReplay load write fuel md cursor mapHash = Some r"
  by (rule writePagedReplay_total [OF assms])

section \<open>What the client receives\<close>

text \<open>The promise of a page loader: every entry it returns is the operation that has its revision.\<close>

locale page_source =
  fixes load :: page_load and op_at :: "revision \<Rightarrow> accepted_operation" and through :: revision
  assumes entries_of_log:
    "load k cursor through retained limit = Inr page \<Longrightarrow> \<not> cursor < rp_snapshot page \<Longrightarrow> rp_through page = through \<Longrightarrow>
       e \<in> set (rp_entries page) \<Longrightarrow> acc_revision (re_accepted e) \<le> through \<Longrightarrow> cursor < acc_revision (re_accepted e) \<Longrightarrow>
       re_accepted e = op_at (acc_revision (re_accepted e))"
begin

lemma send_entries_log:
  assumes "send_entries write i through es cursor sent = (failure, cursor', sent')" "cursor \<le> through" "through \<noteq> - 1"
    and "\<And>e. e \<in> set es \<Longrightarrow> acc_revision (re_accepted e) \<le> through \<Longrightarrow> cursor < acc_revision (re_accepted e) \<Longrightarrow>
      re_accepted e = op_at (acc_revision (re_accepted e))"
  shows "\<exists>n. unat cursor' = unat cursor + n \<and> cursor' \<le> through \<and>
    (\<exists>es'. sent' = sent @ map ReplayedEntry es' \<and> map re_accepted es' = map (\<lambda>k. op_at (cursor + of_nat k + 1)) [0..<n])"
  using assms
proof (induction es arbitrary: cursor sent)
  case (Cons e es)
  let ?r = "acc_revision (re_accepted e)"
  show ?case
  proof (cases "send_entries write i through es ?r (sent @ [ReplayedEntry e]) = (failure, cursor', sent') \<and> ?r = cursor + 1 \<and> ?r \<le> through")
    case True
    then have r: "?r = cursor + 1" "?r \<le> through" and rest: "send_entries write i through es ?r (sent @ [ReplayedEntry e]) = (failure, cursor', sent')"
      by blast+
    have "cursor \<noteq> - 1" using Cons.prems(2,3) word_order.extremum_uniqueI by blast
    then have u: "unat ?r = unat cursor + 1" using r(1) unatSuc [of cursor] by (simp add: add.commute add_eq_0_iff)
    then have gt: "cursor < ?r" by (simp add: word_less_nat_alt)
    have e: "re_accepted e = op_at ?r" using Cons.prems(4) [of e] r(2) gt by simp
    have law: "re_accepted x = op_at (acc_revision (re_accepted x))"
      if "x \<in> set es" "acc_revision (re_accepted x) \<le> through" "?r < acc_revision (re_accepted x)" for x
      using Cons.prems(4) [of x] that gt by (meson less_trans list.set_intros(2))
    obtain n es' where n: "unat cursor' = unat ?r + n" "cursor' \<le> through" "sent' = (sent @ [ReplayedEntry e]) @ map ReplayedEntry es'"
        "map re_accepted es' = map (\<lambda>k. op_at (?r + of_nat k + 1)) [0..<n]"
      using Cons.IH [OF rest r(2) Cons.prems(3) law] by blast
    have "map (\<lambda>k. op_at (cursor + of_nat k + 1)) [0..<Suc n] = op_at (cursor + 1) # map (\<lambda>k. op_at (?r + of_nat k + 1)) [0..<n]"
      unfolding upt_conv_Cons [OF zero_less_Suc] map_Suc_upt [symmetric] by (simp add: r(1) algebra_simps)
    then show ?thesis
      using n u e r(1) by (intro exI [of _ "Suc n"]) (auto intro!: exI [of _ "e # es'"])
  next
    case False
    then have "cursor' = cursor \<and> sent' = sent"
      using Cons.prems(1) by (auto split: if_splits)
    then show ?thesis using Cons.prems(2) by (intro exI [of _ 0]) simp
  qed
qed (intro exI [of _ 0], simp)

lemma replay_loop_log:
  assumes "replay_loop load write i through fuel k cursor retained sent = Some (r, sent')" "cursor \<le> through" "through \<noteq> - 1"
  shows "\<exists>es tail. sent' = sent @ map ReplayedEntry es @ tail \<and> tail \<in> {[], [SnapshotRequired]} \<and>
    length es \<le> unat (through - cursor) \<and> map re_accepted es = map (\<lambda>k. op_at (cursor + of_nat k + 1)) [0..<length es] \<and>
    (r = Inr () \<longrightarrow> tail = [] \<and> length es = unat (through - cursor))"
  using assms(1,2)
proof (induction fuel arbitrary: k cursor retained sent)
  case (Suc fuel)
  have u: "unat (through - cursor) = unat through - unat cursor" "unat cursor \<le> unat through"
    using Suc.prems(2) by (simp_all add: unat_sub word_le_nat_alt)
  have stop: ?case if "sent' = sent @ tail" "tail \<in> {[], [SnapshotRequired]}" "r \<noteq> Inr ()" for tail
    using that by (intro exI [of _ "[]"] exI [of _ tail]) simp
  show ?case
  proof (cases "load k cursor through retained 32")
    case (Inl e)
    then show ?thesis using Suc.prems(1) stop [of "[]"] stop [of "[SnapshotRequired]"]
      by (auto simp: snapshot_required_def split: if_splits)
  next
    case (Inr page)
    show ?thesis
    proof (cases "cursor < rp_snapshot page \<or> rp_through page \<noteq> through")
      case True
      then show ?thesis using Suc.prems(1) Inr stop [of "[]"] stop [of "[SnapshotRequired]"]
        by (auto simp: snapshot_required_def split: if_splits)
    next
      case False
      obtain failure cursor' sent1 where s: "send_entries write i through (rp_entries page) cursor sent = (failure, cursor', sent1)"
        by (metis prod_cases3)
      have law: "re_accepted e = op_at (acc_revision (re_accepted e))"
        if "e \<in> set (rp_entries page)" "acc_revision (re_accepted e) \<le> through" "cursor < acc_revision (re_accepted e)" for e
        using entries_of_log [OF Inr _ _ that] False by blast
      obtain n es where n: "unat cursor' = unat cursor + n" "cursor' \<le> through" "sent1 = sent @ map ReplayedEntry es"
          "map re_accepted es = map (\<lambda>k. op_at (cursor + of_nat k + 1)) [0..<n]"
        using send_entries_log [OF s Suc.prems(2) assms(3) law] by blast
      have len: "length es = n" using arg_cong [OF n(4), of length] by simp
      have le: "n \<le> unat (through - cursor)" using n(1,2) u by (simp add: word_le_nat_alt)
      have here: ?thesis if "sent' = sent1" "r = Inr () \<Longrightarrow> cursor' = through"
      proof (intro exI conjI impI)
        show "sent' = sent @ map ReplayedEntry es @ []" using that(1) n(3) by simp
        show "[] \<in> {[], [SnapshotRequired]}" by simp
        show "length es \<le> unat (through - cursor)" using le len by simp
        show "map re_accepted es = map (\<lambda>k. op_at (cursor + of_nat k + 1)) [0..<length es]" using n(4) len by simp
        assume "r = Inr ()"
        then show "[] = []" "length es = unat (through - cursor)" using that(2) n(1) u(1) len by simp_all
      qed
      show ?thesis
      proof (cases "failure = None \<and> rp_has_more page \<and> length (rp_entries page) \<noteq> 0")
        case False
        then show ?thesis using Suc.prems(1) Inr s \<open>\<not> (cursor < rp_snapshot page \<or> rp_through page \<noteq> through)\<close>
          by (intro here) (auto split: option.splits if_splits)
      next
        case True
        then have "replay_loop load write i through fuel (Suc k) cursor' (Some (rp_snapshot page)) sent1 = Some (r, sent')"
          using Suc.prems(1) Inr s \<open>\<not> (cursor < rp_snapshot page \<or> rp_through page \<noteq> through)\<close> by simp
        from Suc.IH [OF this n(2)] obtain es2 tail where t: "sent' = sent1 @ map ReplayedEntry es2 @ tail" "tail \<in> {[], [SnapshotRequired]}"
            "length es2 \<le> unat (through - cursor')" "map re_accepted es2 = map (\<lambda>k. op_at (cursor' + of_nat k + 1)) [0..<length es2]"
            "r = Inr () \<longrightarrow> tail = [] \<and> length es2 = unat (through - cursor')" by blast
        have c': "cursor' = cursor + of_nat n"
          using n(1) unat_add_of_nat [of cursor n] unsigned_less [of cursor', where ?'a = nat] by (simp add: word_unat_eq_iff)
        have "unat (through - cursor') = unat (through - cursor) - n" using n(1,2) u by (simp add: unat_sub)
        then have tot: "length (es @ es2) \<le> unat (through - cursor)" "r = Inr () \<longrightarrow> length (es @ es2) = unat (through - cursor)"
          using t(3,5) le len by auto
        have "map (\<lambda>k. op_at (cursor + of_nat k + 1)) [0..<n + m] =
            map (\<lambda>k. op_at (cursor + of_nat k + 1)) [0..<n] @ map (\<lambda>k. op_at (cursor' + of_nat k + 1)) [0..<m]" for m
          by (induction m) (simp_all add: c' algebra_simps)
        then have "map re_accepted (es @ es2) = map (\<lambda>k. op_at (cursor + of_nat k + 1)) [0..<length (es @ es2)]"
          using n(4) t(4) len by simp
        then show ?thesis using t(1,2,5) n(3) tot by (intro exI [of _ "es @ es2"] exI [of _ tail]) auto
      qed
    qed
  qed
qed simp

end

section \<open>The in-memory store as a page loader\<close>

lemma LoadReplayPage_entries:
  assumes "LoadReplayPage stamp c i cursor through retained limit st = Inr page"
  shows "\<exists>s. sessions st i = Some s \<and> rp_snapshot page = snap_revision s \<and> int (length (rp_entries page)) \<le> 128 \<and>
    map re_accepted (rp_entries page) = take (length (rp_entries page)) (filter (wanted cursor through) (ops_of st i)) \<and>
    (\<forall>k < length (rp_entries page). acc_revision (re_accepted (rp_entries page ! k)) = cursor + 1 + of_nat k)"
proof -
  obtain c' s head where s: "ctx_poll c = Some c'" "sessions st i = Some s" "revision_heads st i = Some head" "limit \<le> 128" "1 \<le> limit"
    using assms by (auto simp: LoadReplayPage_def sum_bind_Inr_iff ValidateReplayPageRequest_def MaxReplayPageEntries_def split: option.splits)
  show ?thesis
  proof (cases "cursor < snap_revision s \<or> cursor = through")
    case True
    then show ?thesis using assms s by (auto simp: LoadReplayPage_def sum_bind_Inr_iff)
  next
    case False
    then obtain es hm where es: "page_rows stamp st i cursor through limit (stored_version st i = BulkTransactionVersion) c' (ops_of st i) [] 0 = Inr (es, hm)"
        "ValidateReplayPageSequence es cursor through hm = Inr ()" "rp_entries page = es" "rp_snapshot page = snap_revision s"
      using assms s by (auto simp: LoadReplayPage_def sum_bind_Inr_iff Let_def split: prod.splits)
    have "\<exists>r. sequence_from (cursor + 1) es = Inr r"
      using es(2) False by (auto simp: ValidateReplayPageSequence_def sum_bind_Inr_iff)
    then have "\<forall>k < length es. acc_revision (re_accepted (es ! k)) = cursor + 1 + of_nat k" by (auto simp: sequence_from_iff)
    then show ?thesis using page_rows_sound [OF es(1)] es(3,4) s(2,4,5) by auto
  qed
qed

text \<open>The operation of a revision in the log of one store.\<close>

definition first_op :: "memory_store \<Rightarrow> document_id \<Rightarrow> revision \<Rightarrow> accepted_operation" where
  "first_op st i r = hd (filter (\<lambda>a. acc_revision a = r) (ops_of st i))"

lemma hd_filter_nth: "k < length xs \<Longrightarrow> P (xs ! k) \<Longrightarrow> (\<And>j. j < k \<Longrightarrow> \<not> P (xs ! j)) \<Longrightarrow> hd (filter P xs) = xs ! k"
proof (induction xs arbitrary: k)
  case (Cons x xs)
  show ?case
  proof (cases k)
    case (Suc m)
    then have "\<not> P x" using Cons.prems(3) [of 0] by simp
    moreover have "\<not> P (xs ! j)" if "j < m" for j using Cons.prems(3) [of "Suc j"] Suc that by simp
    moreover have "hd (filter P xs) = xs ! m"
      using Cons.prems(1,2) Suc calculation(2) by (intro Cons.IH) auto
    ultimately show ?thesis using Suc by simp
  qed (use Cons.prems in simp)
qed simp

interpretation memory_pages: page_source "\<lambda>k cursor through retained limit. LoadReplayPage stamp Background i cursor through retained limit st"
  "first_op st i" through for stamp i st through
proof
  fix k :: nat and cursor :: revision and retained limit page e
  assume load: "LoadReplayPage stamp Background i cursor through retained limit st = Inr page" and e: "e \<in> set (rp_entries page)"
    and r: "acc_revision (re_accepted e) \<le> through" "cursor < acc_revision (re_accepted e)"
  let ?W = "filter (wanted cursor through) (ops_of st i)" and ?es = "rp_entries page" and ?r = "acc_revision (re_accepted e)"
  note p = LoadReplayPage_entries [OF load]
  obtain j where j: "j < length ?es" "e = ?es ! j" using e by (auto simp: in_set_conv_nth)
  have le: "length ?es \<le> length ?W" using p by (metis length_map length_take min.cobounded1 min.commute)
  have nth: "re_accepted (?es ! m) = ?W ! m" if "m < length ?es" for m using p that by (metis nth_map nth_take)
  have "hd (filter (\<lambda>a. acc_revision a = ?r) ?W) = ?W ! j"
  proof (rule hd_filter_nth)
    show "j < length ?W" using j le by simp
    show "acc_revision (?W ! j) = ?r" using nth [OF j(1)] j(2) by simp
    fix m assume m: "m < j"
    have "acc_revision (?W ! m) = cursor + 1 + of_nat m" "?r = cursor + 1 + of_nat j"
      using p m j nth [of m] less_trans [OF m j(1)] by metis+
    moreover have "(of_nat m :: u64) \<noteq> of_nat j" using of_nat_u64_inj [of m j] m j p by auto
    ultimately show "acc_revision (?W ! m) \<noteq> ?r" by simp
  qed
  moreover have "filter (\<lambda>a. acc_revision a = ?r) ?W = filter (\<lambda>a. acc_revision a = ?r) (ops_of st i)"
    using r by (auto simp: wanted_def intro!: filter_cong)
  ultimately show "re_accepted e = first_op st i ?r" using nth [OF j(1)] j(2) by (simp add: first_op_def)
qed

section \<open>Replay beside other writers\<close>

text \<open>What the log of a session can become while others append and compact: it grows at the end and
  its beginning moves into the snapshot.\<close>

definition extends :: "snapshot \<times> accepted_operation list \<Rightarrow> snapshot \<times> accepted_operation list \<Rightarrow> bool" where
  "extends l l' \<longleftrightarrow> (\<exists>k ext. k \<le> length (snd l @ ext) \<and> unat (snap_revision (fst l')) = unat (snap_revision (fst l)) + k \<and>
     snd l' = drop k (snd l @ ext))"

lemma extends_refl: "extends l l"
  unfolding extends_def by (rule exI [of _ 0], rule exI [of _ "[]"]) simp

lemma extends_trans:
  assumes "extends l m" "extends m n"
  shows "extends l n"
proof -
  obtain k ext where k: "k \<le> length (snd l @ ext)" "unat (snap_revision (fst m)) = unat (snap_revision (fst l)) + k"
      "snd m = drop k (snd l @ ext)"
    using assms(1) by (auto simp: extends_def)
  obtain j more' where j: "j \<le> length (snd m @ more')" "unat (snap_revision (fst n)) = unat (snap_revision (fst m)) + j"
      "snd n = drop j (snd m @ more')"
    using assms(2) by (auto simp: extends_def)
  let ?all = "snd l @ ext @ more'"
  have m: "snd m @ more' = drop k ?all" using k(1,3) by simp
  have "snd n = drop (k + j) ?all" unfolding j(3) m by (simp only: drop_drop add.commute)
  moreover have "k + j \<le> length ?all" using j(1) k(1) m by auto
  ultimately show ?thesis
    using j(2) k(2) unfolding extends_def by (intro exI [of _ "k + j"] exI [of _ "ext @ more'"]) simp
qed

lemma store_step_extends:
  assumes "digest32 H" "store_ok H procs st" "store_step H procs st st'" "log_of st i = Some l"
  shows "\<exists>l'. log_of st' i = Some l' \<and> extends l l'"
  using store_step_log [OF assms(1-3), of i, unfolded assms(4)]
proof cases
  case log_stay
  then show ?thesis using extends_refl by auto
next
  case (log_append s ops a)
  then show ?thesis
    by (intro exI [of _ "(s, ops @ [a])"]) (auto simp: extends_def snapshot_after_def intro!: exI [of _ "0::nat"] exI [of _ "[a]"])
next
  case (log_compact k ops s' s)
  have ses: "sessions st i = Some s" "ops_of st i = ops" using assms(4) log_compact(1) by (auto simp: log_of_def)
  obtain s0 p dk dn hs where o: "backed H procs i s0 p dk ops dn" "published_as s dk" "snap_revision (doc_snapshot dk) = snap_revision s"
      "snap_revision (doc_snapshot dn) = snap_revision (snapshot_after s ops)"
      "revision_heads st i = Some (snap_revision (doc_snapshot dn))" "st_hashes st i = Some hs" "fmlookup hs = hashes dn"
    by (rule session_log [OF assms(1,2) ses])
  obtain dr where dr: "history H procs dk (take k ops) dr" "unat (snap_revision (doc_snapshot dr)) = unat (snap_revision s) + k"
    using backed_split [OF assms(1) o(1) log_compact(3)] o(3) by auto
  have "snap_revision s' = snap_revision (doc_snapshot dr)"
    using same_mapD(5) [OF log_compact(4)] published_revision [OF published_after(1) [OF assms(1) backedD(1) [OF assms(1) o(1)] o(2) dr(1)]]
    by simp
  then have "extends l (s', drop k ops)"
    using log_compact(1,3) dr(2) unfolding extends_def by (intro exI [of _ k] exI [of _ "[]"]) auto
  then show ?thesis using log_compact(2) by auto
qed

lemma store_steps_extend:
  assumes "digest32 H" "(store_step H procs)\<^sup>*\<^sup>* st st'" "store_reachable H procs st" "log_of st i = Some l"
  shows "store_reachable H procs st' \<and> (\<exists>l'. log_of st' i = Some l' \<and> extends l l')"
  using assms(2)
proof induction
  case base
  then show ?case using assms(3,4) extends_refl by blast
next
  case (step y z)
  then obtain l' where l': "log_of y i = Some l'" "extends l l'" by blast
  have r: "store_reachable H procs z" using step.IH step.hyps(2) store_next by blast
  obtain l'' where "log_of z i = Some l''" "extends l' l''"
    using store_step_extends [OF assms(1) store_reachable_ok [OF assms(1)] step.hyps(2) l'(1)] step.IH by blast
  then show ?case using r extends_trans [OF l'(2)] by blast
qed

lemma extended_entries:
  assumes "digest32 H" "store_reachable H procs st'" "log_of st' i = Some l'" "extends (s, ops) l'"
    and "LoadReplayPage stamp c i cursor through retained limit st' = Inr page" "e \<in> set (rp_entries page)"
    and "unat through \<le> unat (snap_revision s) + length ops" "acc_revision (re_accepted e) \<le> through"
  shows "re_accepted e = ops ! (unat (acc_revision (re_accepted e) - snap_revision s) - 1)"
proof -
  obtain s' ops' where l': "l' = (s', ops')" by force
  then have ses: "sessions st' i = Some s'" "ops_of st' i = ops'" using assms(3) by (auto simp: log_of_def)
  obtain s0 p dk dn hs where o: "backed H procs i s0 p dk ops' dn" "published_as s' dk" "snap_revision (doc_snapshot dk) = snap_revision s'"
      "snap_revision (doc_snapshot dn) = snap_revision (snapshot_after s' ops')"
      "revision_heads st' i = Some (snap_revision (doc_snapshot dn))" "st_hashes st' i = Some hs" "fmlookup hs = hashes dn"
    by (rule session_log [OF assms(1) store_reachable_ok [OF assms(1,2)] ses])
  obtain k ext where k: "k \<le> length (ops @ ext)" "unat (snap_revision s') = unat (snap_revision s) + k" "ops' = drop k (ops @ ext)"
    using assms(4) by (auto simp: extends_def l')
  have "re_accepted e \<in> set (take (length (rp_entries page)) (filter (wanted cursor through) ops'))"
    using LoadReplayPage_entries [OF assms(5)] assms(6) ses(2) by (metis (no_types, lifting) image_eqI image_set)
  then have "re_accepted e \<in> set ops'" using in_set_takeD by fastforce
  then obtain j where j: "j < length ops'" "re_accepted e = ops' ! j" by (auto simp: in_set_conv_nth)
  have u: "unat (acc_revision (re_accepted e)) = unat (snap_revision s) + k + j + 1"
    using backed_revisions [OF assms(1) o(1), of j] j o(3) k(2) by simp
  then have kj: "k + j < length ops" using assms(7,8) by (simp add: word_le_nat_alt)
  have "snap_revision s \<le> acc_revision (re_accepted e)" using u by (simp add: word_le_nat_alt)
  then have "unat (acc_revision (re_accepted e) - snap_revision s) = k + j + 1" using u by (simp add: unat_sub)
  moreover have "ops' ! j = (ops @ ext) ! (k + j)" unfolding k(3) by (rule nth_drop [OF k(1)])
  ultimately show ?thesis using j(2) kj by (simp add: nth_append)
qed

text \<open>C25: The replay sent to a joining client while other clients write. Between any two pages the
  store may take any number of steps (operations are appended, snapshots published, sessions opened, the
  store closed), any context may be cancelled and any write may fail. Whatever happens, the operations
  the client has received are those of the log right after its cursor, in order and without a gap. When
  the replay is declared complete, they are all the operations up to the announced revision, so that
  applied to the map at the cursor they give the map at that revision.\<close>

theorem paged_replay_exact:
  assumes "digest32 H" "store_reachable H procs (stores 0)" "\<And>k. (store_step H procs)\<^sup>*\<^sup>* (stores k) (stores (Suc k))"
    and "log_of (stores 0) i = Some (s, ops)" "md_document md = i" "md_revision md \<noteq> - 1"
    and "snap_revision s \<le> cursor" "cursor \<le> md_revision md" "unat (md_revision md) \<le> unat (snap_revision s) + length ops"
    and "writePagedReplay (\<lambda>k cursor through retained limit. LoadReplayPage stamp (c k) i cursor through retained limit (stores k))
      write fuel md cursor mapHash = Some (r, sent)"
  defines "m \<equiv> unat (cursor - snap_revision s)"
  shows "\<exists>es tail. sent = map ReplayedEntry es @ tail \<and> map re_accepted es = take (length es) (drop m ops) \<and>
    length es \<le> unat (md_revision md - cursor) \<and>
    (if r = Inr () then tail = [ReplayComplete (md_revision md) mapHash] \<and>
       snapshot_after (snapshot_after s (take m ops)) (map re_accepted es) =
         snapshot_after s (take (unat (md_revision md - snap_revision s)) ops)
     else tail \<in> {[], [SnapshotRequired]})"
proof -
  let ?t = "md_revision md" and ?load = "\<lambda>k cursor through retained limit. LoadReplayPage stamp (c k) i cursor through retained limit (stores k)"
  let ?at = "\<lambda>r. ops ! (unat (r - snap_revision s) - 1)"
  have steps: "(store_step H procs)\<^sup>*\<^sup>* (stores 0) (stores k)" for k
    by (induction k) (use assms(3) in \<open>auto intro: rtranclp_trans\<close>)
  have source: "page_source ?load ?at ?t"
  proof
    fix k cur ret limit page e
    assume l: "LoadReplayPage stamp (c k) i cur ?t ret limit (stores k) = Inr page" and e: "e \<in> set (rp_entries page)"
      "acc_revision (re_accepted e) \<le> ?t"
    obtain l' where "store_reachable H procs (stores k)" "log_of (stores k) i = Some l'" "extends (s, ops) l'"
      using store_steps_extend [OF assms(1) steps assms(2,4)] by blast
    from extended_entries [OF assms(1) this l e(1) assms(9) e(2)] show "re_accepted e = ?at (acc_revision (re_accepted e))" .
  qed
  have u: "unat (cursor - snap_revision s) = unat cursor - unat (snap_revision s)" "unat (?t - cursor) = unat ?t - unat cursor"
      "unat (?t - snap_revision s) = unat ?t - unat (snap_revision s)"
      "unat (snap_revision s) \<le> unat cursor" "unat cursor \<le> unat ?t"
    using assms(7,8) by (simp_all add: unat_sub word_le_nat_alt)
  have at: "map (\<lambda>k. ?at (cursor + of_nat k + 1)) [0..<n] = take n (drop m ops)" if "n \<le> unat (?t - cursor)" for n
  proof (rule nth_equalityI)
    show len: "length (map (\<lambda>k. ?at (cursor + of_nat k + 1)) [0..<n]) = length (take n (drop m ops))"
      using that u assms(9) by (simp add: m_def)
    fix k assume k: "k < length (map (\<lambda>k. ?at (cursor + of_nat k + 1)) [0..<n])"
    have uk: "unat (cursor + of_nat (k + 1)) = unat cursor + (k + 1)"
      using k that u unsigned_less [of ?t, where ?'a = nat] by (intro unat_add_of_nat) simp
    have "snap_revision s \<le> cursor + of_nat (k + 1)" using u(4) uk by (simp add: word_le_nat_alt del: of_nat_add of_nat_Suc)
    then have "unat (cursor + of_nat (k + 1) - snap_revision s) = m + k + 1" using uk u(1,4) by (simp add: unat_sub m_def del: of_nat_add of_nat_Suc)
    then have "?at (cursor + of_nat k + 1) = ops ! (m + k)" by (simp add: add.assoc add.commute [of 1])
    then show "map (\<lambda>k. ?at (cursor + of_nat k + 1)) [0..<n] ! k = take n (drop m ops) ! k"
      using k len by simp
  qed
  obtain r1 sent1 where loop: "replay_loop ?load write i ?t fuel 0 cursor None [] = Some (r1, sent1)"
    using assms(5,8,10) by (auto simp: writePagedReplay_def not_less split: option.splits if_splits)
  obtain es tail where es0: "sent1 = [] @ map ReplayedEntry es @ tail" "tail \<in> {[], [SnapshotRequired]}" "length es \<le> unat (?t - cursor)"
      "map re_accepted es = map (\<lambda>k. ?at (cursor + of_nat k + 1)) [0..<length es]" "r1 = Inr () \<longrightarrow> tail = [] \<and> length es = unat (?t - cursor)"
    using page_source.replay_loop_log [OF source loop assms(8,6)] by blast
  note es = es0(1) [unfolded append_Nil] es0(2,3) es0(4) [unfolded at [OF es0(3)]] es0(5)
  have fin: "(case r1 of Inl f \<Rightarrow> (Inl f, sent1) | Inr _ \<Rightarrow> if \<not> write (length sent1) then (Inl WriteFailed, sent1)
      else (Inr (), sent1 @ [ReplayComplete ?t mapHash])) = (r, sent)"
    using assms(5,8,10) loop by (cases r1) (auto simp: writePagedReplay_def not_less split: if_splits)
  show ?thesis
  proof (cases "r = Inr ()")
    case True
    then have ok: "r1 = Inr ()" "sent = sent1 @ [ReplayComplete ?t mapHash]"
      using fin by (cases r1; simp split: if_splits)+
    have "take m ops @ take (unat (?t - cursor)) (drop m ops) = take (unat (?t - snap_revision s)) ops"
      using u by (simp add: take_add [symmetric] m_def)
    then have "snapshot_after (snapshot_after s (take m ops)) (map re_accepted es) = snapshot_after s (take (unat (?t - snap_revision s)) ops)"
      using es(4,5) ok(1) unfolding snapshot_after_def foldl_append [symmetric] by simp
    then show ?thesis
      using True ok es by (intro exI [of _ es] exI [of _ "[ReplayComplete ?t mapHash]"]) simp
  next
    case False
    then have "sent = sent1" using fin by (cases r1) (simp_all split: if_splits)
    then show ?thesis using False es by (intro exI [of _ es] exI [of _ tail]) simp
  qed
qed

section \<open>A replay that nobody disturbs\<close>

lemma send_entries_ok:
  assumes "\<forall>k < length es. acc_revision (re_accepted (es ! k)) = cursor + of_nat k + 1 \<and>
      cursor + of_nat k + 1 \<le> through \<and> op_document (acc_op (re_accepted (es ! k))) = i" "\<And>n. write n"
  shows "send_entries write i through es cursor sent = (None, cursor + of_nat (length es), sent @ map ReplayedEntry es)"
  using assms(1)
proof (induction es arbitrary: cursor sent)
  case (Cons e es)
  have e: "acc_revision (re_accepted e) = cursor + 1" "cursor + 1 \<le> through" "op_document (acc_op (re_accepted e)) = i"
    using Cons.prems [rule_format, of 0] by auto
  have "send_entries write i through es (cursor + 1) (sent @ [ReplayedEntry e]) =
      (None, cursor + 1 + of_nat (length es), (sent @ [ReplayedEntry e]) @ map ReplayedEntry es)"
  proof (rule Cons.IH, intro allI impI)
    fix k assume "k < length es"
    then show "acc_revision (re_accepted (es ! k)) = cursor + 1 + of_nat k + 1 \<and> cursor + 1 + of_nat k + 1 \<le> through \<and>
        op_document (acc_op (re_accepted (es ! k))) = i"
      using Cons.prems [rule_format, of "Suc k"] by (simp add: algebra_simps)
  qed
  moreover have "send_entries write i through (e # es) cursor sent =
      send_entries write i through es (cursor + 1) (sent @ [ReplayedEntry e])"
    using e assms(2) [of "length sent"] by (simp add: linorder_not_less [symmetric])
  ultimately show ?case by (simp add: add.assoc)
qed simp

lemma quiet_replay:
  assumes "digest32 H" "store_reachable H procs st" "\<not> st_closed st" "log_of st i = Some (s, ops)"
    and "through \<le> snap_revision (snapshot_after s ops)" "through \<noteq> - 1" "\<And>n. write n"
    and "\<forall>a\<in>set ops. acc_revision a \<le> through \<longrightarrow> showable stamp (stored_version st i = 2) a"
  shows "snap_revision s \<le> cursor \<Longrightarrow> cursor \<le> through \<Longrightarrow> unat (through - cursor) < fuel \<Longrightarrow> retained \<in> {None, Some (snap_revision s)} \<Longrightarrow>
    \<exists>es. replay_loop (\<lambda>k cursor through retained limit. LoadReplayPage stamp Background i cursor through retained limit st)
      write i through fuel k cursor retained sent = Some (Inr (), sent @ map ReplayedEntry es)"
proof (induction fuel arbitrary: k cursor retained sent)
  case (Suc fuel)
  let ?load = "\<lambda>k cursor through retained limit. LoadReplayPage stamp Background i cursor through retained limit st"
  let ?W = "take (unat (through - cursor)) (drop (unat (cursor - snap_revision s)) ops)"
  have shown: "\<forall>a\<in>set ops. wanted cursor through a \<longrightarrow> showable stamp (stored_version st i = 2) a"
    using assms(8) by (auto simp: wanted_def not_less)
  obtain page where page: "LoadReplayPage stamp Background i cursor through retained 32 st = Inr page"
      "rp_snapshot page = snap_revision s" "rp_through page = through" "map re_accepted (rp_entries page) = take (length (rp_entries page)) ?W"
      "rp_has_more page \<longleftrightarrow> length (rp_entries page) < length ?W" "?W \<noteq> [] \<longrightarrow> rp_entries page \<noteq> []"
    using page_loaded [OF assms(1-4) Suc.prems(1,2) assms(5), of 32 retained stamp] Suc.prems(4) shown by auto
  let ?es = "rp_entries page" and ?n = "length (rp_entries page)"
  have ses: "sessions st i = Some s" "ops_of st i = ops" using assms(4) by (auto simp: log_of_def)
  obtain s0 p dk dn hs where o: "backed H procs i s0 p dk ops dn" "published_as s dk" "snap_revision (doc_snapshot dk) = snap_revision s"
      "snap_revision (doc_snapshot dn) = snap_revision (snapshot_after s ops)"
      "revision_heads st i = Some (snap_revision (doc_snapshot dn))" "st_hashes st i = Some hs" "fmlookup hs = hashes dn"
    by (rule session_log [OF assms(1) store_reachable_ok [OF assms(1,2)] ses])
  note W = wanted_slice [OF assms(1) o(1), unfolded o(3,4), OF Suc.prems(1,2) assms(5)]
  have u: "unat (through - cursor) = unat through - unat cursor" "unat cursor \<le> unat through"
    using Suc.prems(2) by (simp_all add: unat_sub word_le_nat_alt)
  have n: "?n \<le> length ?W" using page(4) by (metis length_map length_take min.cobounded1 min.commute)
  have lenW: "length ?W = unat through - unat cursor" using W(1) u(1) unfolding W(3) by simp
  have nW: "?n \<le> unat through - unat cursor" "rp_has_more page \<longleftrightarrow> ?n < unat through - unat cursor"
    using n page(5) unfolding lenW by simp_all
  have rows: "acc_revision (re_accepted (?es ! j)) = cursor + of_nat j + 1 \<and> cursor + of_nat j + 1 \<le> through \<and>
      op_document (acc_op (re_accepted (?es ! j))) = i" if j: "j < ?n" for j
  proof -
    have e: "re_accepted (?es ! j) = ?W ! j" using page(4) j by (metis nth_map nth_take)
    have jW: "j < length ?W" using j n by simp
    have r: "unat (acc_revision (?W ! j)) = unat cursor + (j + 1)" using W(2) [of j] jW unfolding W(3) by simp
    have c: "cursor + of_nat j + 1 = cursor + of_nat (j + 1)" by (simp add: add.assoc)
    have uc: "unat (cursor + of_nat (j + 1)) = unat cursor + (j + 1)"
      using r unsigned_less [of "acc_revision (?W ! j)", where ?'a = nat] by (intro unat_add_of_nat) simp
    have "unat cursor + (j + 1) \<le> unat through" using jW lenW by linarith
    then have le: "cursor + of_nat (j + 1) \<le> through" using uc by (simp only: word_le_nat_alt)
    have "?W ! j \<in> set ops" using jW by (metis in_set_dropD in_set_takeD nth_mem)
    then have "op_document (acc_op (?W ! j)) = i" using backed_documents [OF assms(1) o(1)] by blast
    moreover have "acc_revision (?W ! j) = cursor + of_nat (j + 1)" using r uc by (simp only: word_unat_eq_iff)
    ultimately show ?thesis using le unfolding c e by blast
  qed
  have send: "send_entries write i through ?es cursor sent = (None, cursor + of_nat ?n, sent @ map ReplayedEntry ?es)"
    using rows assms(7) by (intro send_entries_ok) auto
  have uc: "unat (cursor + of_nat ?n) = unat cursor + ?n"
    using nW u(2) unsigned_less [of through, where ?'a = nat] by (intro unat_add_of_nat) simp
  show ?case
  proof (cases "rp_has_more page")
    case False
    then have "cursor + of_nat ?n = through" using nW u(2) uc by (simp add: word_unat_eq_iff)
    then show ?thesis using page(1-3) send False Suc.prems(1) by (auto simp: not_less)
  next
    case True
    then have ne: "?es \<noteq> []" using page(5,6) by auto
    then have pos: "0 < ?n" by simp
    let ?c = "cursor + of_nat ?n"
    have c: "?c \<le> through" "snap_revision s \<le> ?c" using uc nW u Suc.prems(1) by (simp_all add: word_le_nat_alt)
    then have "unat (through - ?c) = unat through - (unat cursor + ?n)" using uc by (simp add: unat_sub)
    then have "unat (through - ?c) < fuel" using pos nW(1) u(1) Suc.prems(3) by linarith
    with c obtain es' where "replay_loop ?load write i through fuel (Suc k) ?c (Some (snap_revision s)) (sent @ map ReplayedEntry ?es) =
        Some (Inr (), (sent @ map ReplayedEntry ?es) @ map ReplayedEntry es')"
      using Suc.IH [of ?c "Some (snap_revision s)" "Suc k" "sent @ map ReplayedEntry ?es"] by auto
    then show ?thesis using page(1-3) send True ne Suc.prems(1) by (intro exI [of _ "?es @ es'"]) (auto simp: not_less)
  qed
qed simp

text \<open>C26: A client that joins an open session while nobody else writes, and whose socket takes every
  message, is brought up to date: with a boundary up to the head and rows that can be shown, the replay
  returns without an error and its last message announces the boundary and its hash.\<close>

theorem paged_replay_completes:
  assumes "digest32 H" "store_reachable H procs st" "\<not> st_closed st" "log_of st i = Some (s, ops)"
    and "md_document md = i" "md_revision md \<le> snap_revision (snapshot_after s ops)" "md_revision md \<noteq> - 1" "\<And>n. write n"
    and "\<forall>a\<in>set ops. acc_revision a \<le> md_revision md \<longrightarrow> showable stamp (stored_version st i = 2) a"
    and "snap_revision s \<le> cursor" "cursor \<le> md_revision md" "unat (md_revision md - cursor) < fuel"
  shows "\<exists>es. writePagedReplay (\<lambda>k cursor through retained limit. LoadReplayPage stamp Background i cursor through retained limit st)
      write fuel md cursor mapHash = Some (Inr (), map ReplayedEntry es @ [ReplayComplete (md_revision md) mapHash])"
proof -
  have "\<exists>es. replay_loop (\<lambda>k cursor through retained limit. LoadReplayPage stamp Background i cursor through retained limit st)
      write i (md_revision md) fuel 0 cursor None [] = Some (Inr (), [] @ map ReplayedEntry es)"
    by (rule quiet_replay [OF assms(1-4,6,7) _ assms(9-12)]) (simp_all add: assms(8))
  then obtain es where "replay_loop (\<lambda>k cursor through retained limit. LoadReplayPage stamp Background i cursor through retained limit st)
      write i (md_revision md) fuel 0 cursor None [] = Some (Inr (), map ReplayedEntry es)" by auto
  then show ?thesis using assms(5,11) assms(8) [of "length es"] by (auto simp: writePagedReplay_def not_less)
qed

section \<open>Witnesses\<close>

text \<open>The sample store with one accepted edit, and a client that holds revision 0.\<close>

definition sample_metadata :: metadata where
  "sample_metadata = \<lparr>md_protocol = 1, md_schema = 1, md_document = sample_id CHR ''1'', md_revision = 1, md_map_hash = []\<rparr>"

theorem writePagedReplay_ends_witness:
  "\<exists>r. writePagedReplay (\<lambda>k cursor through retained limit. LoadReplayPage sample_stamp Background (sample_id CHR ''1'')
      cursor through retained limit sample_store1) (\<lambda>_. False) 2 sample_metadata 0 [] = Some r"
  by (rule writePagedReplay_ends) (simp_all add: sample_metadata_def)

theorem paged_replay_completes_witness:
  "\<exists>es. writePagedReplay (\<lambda>k cursor through retained limit. LoadReplayPage sample_stamp Background (sample_id CHR ''1'')
      cursor through retained limit sample_store1) (\<lambda>_. True) 2 sample_metadata 0 [] =
      Some (Inr (), map ReplayedEntry es @ [ReplayComplete (md_revision sample_metadata) []])"
  by (rule paged_replay_completes [OF sample_digest32 sample_store_reachable(2) sample_store1_facts(2) sample_log])
    (simp_all add: sample_metadata_def sample_head sample_shown sample_revision)

theorem paged_replay_exact_witness:
  "\<exists>r sent. writePagedReplay (\<lambda>k cursor through retained limit. LoadReplayPage sample_stamp Background (sample_id CHR ''1'')
      cursor through retained limit sample_store1) (\<lambda>n. n < 1) 2 sample_metadata 0 [] = Some (r, sent) \<and>
      (\<exists>es tail. sent = map ReplayedEntry es @ tail \<and> map re_accepted es = take (length es) [sample_accepted] \<and> length es \<le> 1)"
proof -
  have md: "md_document sample_metadata = sample_id CHR ''1''" "md_revision sample_metadata = 1" by (simp_all add: sample_metadata_def)
  obtain r sent where run: "writePagedReplay (\<lambda>k cursor through retained limit. LoadReplayPage sample_stamp Background (sample_id CHR ''1'')
      cursor through retained limit sample_store1) (\<lambda>n. n < 1) 2 sample_metadata 0 [] = Some (r, sent)"
    using writePagedReplay_total [of sample_metadata 0 2] md(2) by force
  have "\<exists>es tail. sent = map ReplayedEntry es @ tail \<and> map re_accepted es = take (length es) (drop (unat (0 - snap_revision sample_snapshot)) [sample_accepted]) \<and>
      length es \<le> unat (md_revision sample_metadata - 0)"
    using paged_replay_exact [OF sample_digest32 sample_store_reachable(2) _ sample_log md(1) _ _ _ _ run] md(2) sample_revision
    by auto
  then show ?thesis using run by (auto simp: sample_revision md(2))
qed

end
