(* ===== verification/Dmm_Data.thy ===== *)
theory Dmm_Data
  imports Prelude
begin

text \<open>
  The raw content of a map file and its two text formats (dmapi/dmmap/dmmdata: dmmdata.go, key.go,
  save_dm.go, save_tgm.go, and the explicit variables of dmapi/dmvars/variables.go).

  A map file is text: the parser reads runes and every string it builds is a sequence of runes, so a
  string of this component is the list of its runes (valid UTF-8 on disk). Integers are Go's \<^verbatim>\<open>int\<close>,
  with the wrap-around of 64 bits written out where a file could reach it. A dictionary is a Go map; it
  is kept as the list of its entries in some order of iteration.
\<close>

section \<open>Runes\<close>

type_synonym rune = int
type_synonym runes = "rune list"

abbreviation NL :: rune where "NL \<equiv> 10"
abbreviation CR :: rune where "CR \<equiv> 13"
abbreviation TAB :: rune where "TAB \<equiv> 9"
abbreviation SPACE :: rune where "SPACE \<equiv> 32"
abbreviation QUOTE :: rune where "QUOTE \<equiv> 34"
abbreviation SLASH :: rune where "SLASH \<equiv> 47"
abbreviation BACKSLASH :: rune where "BACKSLASH \<equiv> 92"
abbreviation COMMA :: rune where "COMMA \<equiv> 44"
abbreviation SEMICOLON :: rune where "SEMICOLON \<equiv> 59"
abbreviation EQUALS :: rune where "EQUALS \<equiv> 61"
abbreviation LPAREN :: rune where "LPAREN \<equiv> 40"
abbreviation RPAREN :: rune where "RPAREN \<equiv> 41"
abbreviation LBRACE :: rune where "LBRACE \<equiv> 123"
abbreviation RBRACE :: rune where "RBRACE \<equiv> 125"

definition lit :: "string \<Rightarrow> runes" where
  "lit s = map of_char s"

definition itoa :: "int \<Rightarrow> runes" where
  "itoa n = lit (signed_decimal n)"

definition wrap64 :: "int \<Rightarrow> int" where
  "wrap64 n = (n + 9223372036854775808) mod 18446744073709551616 - 9223372036854775808"

section \<open>Prefabs and their variables\<close>

text \<open>The explicit variables of a prefab, in the order of their first assignment.\<close>

type_synonym variables = "(runes \<times> runes) list"

fun put :: "runes \<Rightarrow> runes \<Rightarrow> variables \<Rightarrow> variables" where
  "put name value [] = [(name, value)]"
| "put name value ((n, v) # vars) = (if n = name then (n, value) # vars else (n, v) # put name value vars)"

record prefab =
  pf_path :: runes
  pf_vars :: variables

section \<open>Map data\<close>

type_synonym point = "int \<times> int \<times> int"
type_synonym key = runes

record dmm_data =
  file_path :: runes
  is_tgm :: bool
  line_break :: runes
  key_length :: nat
  max_x :: int
  max_y :: int
  max_z :: int
  dictionary :: "(key \<times> prefab list) list"
  grid :: "point \<Rightarrow> key option"

definition base52 :: runes where
  "base52 = lit ''abcdefghijklmnopqrstuvwxyzABCDEFGHIJKLMNOPQRSTUVWXYZ''"

definition base52r :: "rune \<Rightarrow> int" where
  "base52r c = (case map_of (zip base52 [0..51]) c of None \<Rightarrow> 0 | Some n \<Rightarrow> n)"

definition ToNum :: "key \<Rightarrow> int" where
  "ToNum k = foldl (\<lambda>num c. wrap64 (52 * num + base52r c)) 0 k"

definition Keys :: "dmm_data \<Rightarrow> key list" where
  "Keys d = sort_key ToNum (map fst (dictionary d))"

definition content :: "dmm_data \<Rightarrow> key \<Rightarrow> prefab list" where
  "content d k = (case map_of (dictionary d) k of None \<Rightarrow> [] | Some ps \<Rightarrow> ps)"

definition grid_key :: "dmm_data \<Rightarrow> point \<Rightarrow> key" where
  "grid_key d p = (case grid d p of None \<Rightarrow> [] | Some k \<Rightarrow> k)"

section \<open>The DM format\<close>

fun dm_vars :: "variables \<Rightarrow> runes" where
  "dm_vars [] = []"
| "dm_vars ((name, value) # vars) = name @ lit '' = '' @ value @ (if vars \<noteq> [] then lit ''; '' else []) @ dm_vars vars"

fun dm_prefabs :: "prefab list \<Rightarrow> runes" where
  "dm_prefabs [] = []"
| "dm_prefabs (p # ps) = pf_path p @ (if pf_vars p \<noteq> [] then [LBRACE] @ dm_vars (pf_vars p) @ [RBRACE] else []) @
     (if ps \<noteq> [] then [COMMA] else []) @ dm_prefabs ps"

definition toDMStr :: "key \<Rightarrow> prefab list \<Rightarrow> runes" where
  "toDMStr k ps = [QUOTE] @ k @ [QUOTE] @ lit '' = ('' @ dm_prefabs ps @ [RPAREN]"

definition dm_level :: "dmm_data \<Rightarrow> int \<Rightarrow> runes" where
  "dm_level d z = line_break d @ lit ''(1,1,'' @ itoa z @ lit '') = {'' @ [QUOTE] @ line_break d @
     concat (map (\<lambda>y. concat (map (\<lambda>x. grid_key d (x, y, z)) [1..max_x d]) @ line_break d) (rev [1..max_y d])) @
     [QUOTE, RBRACE]"

definition WriteDM :: "dmm_data \<Rightarrow> runes" where
  "WriteDM d = concat (map (\<lambda>k. toDMStr k (content d k) @ line_break d) (Keys d)) @
     concat (map (dm_level d) [1..max_z d]) @ line_break d"

section \<open>The TGM format\<close>

fun tgm_vars :: "runes \<Rightarrow> variables \<Rightarrow> runes" where
  "tgm_vars lb [] = []"
| "tgm_vars lb ((name, value) # vars) =
     [TAB] @ name @ lit '' = '' @ value @ (if vars \<noteq> [] then [SEMICOLON] else []) @ lb @ tgm_vars lb vars"

fun tgm_prefabs :: "runes \<Rightarrow> prefab list \<Rightarrow> runes" where
  "tgm_prefabs lb [] = []"
| "tgm_prefabs lb (p # ps) =
     pf_path p @ (if pf_vars p \<noteq> [] then [LBRACE] @ lb @ tgm_vars lb (pf_vars p) @ [TAB, RBRACE] else []) @
     (if ps \<noteq> [] then [COMMA] @ lb else []) @ tgm_prefabs lb ps"

definition toTGMStr :: "key \<Rightarrow> prefab list \<Rightarrow> runes \<Rightarrow> runes" where
  "toTGMStr k ps lb = [QUOTE] @ k @ [QUOTE] @ lit '' = ('' @ lb @ tgm_prefabs lb ps @ [RPAREN]"

definition tgm_header :: runes where
  "tgm_header = lit ''//MAP CONVERTED BY dmm2tgm.py THIS HEADER COMMENT PREVENTS RECONVERSION, DO NOT REMOVE''"

definition tgm_column :: "dmm_data \<Rightarrow> int \<Rightarrow> int \<Rightarrow> runes" where
  "tgm_column d z x = lit ''('' @ itoa x @ lit '',1,'' @ itoa z @ lit '') = {'' @ [QUOTE] @ line_break d @
     concat (map (\<lambda>y. grid_key d (x, y, z) @ line_break d) (rev [1..max_y d])) @ [QUOTE, RBRACE] @ line_break d"

definition WriteTGM :: "dmm_data \<Rightarrow> runes" where
  "WriteTGM d = tgm_header @ line_break d @
     concat (map (\<lambda>k. toTGMStr k (content d k) (line_break d) @ line_break d) (Keys d)) @
     concat (map (\<lambda>z. line_break d @ concat (map (tgm_column d z) [1..max_x d])) [1..max_z d])"

end
