(* ===== verification/Prefab_Identity.thy ===== *)
theory Prefab_Identity
  imports Dmm_Data Utf8
begin

text \<open>
  When two prefabs have the same saved content (aphelion/prefabidentity, dmmprefab/identity.go), the
  content key and hash of a stack of prefabs (dmmdata/prefabs.go, util.go), and the index that finds a
  dictionary key by content (aphelion/mapsave/index.go). A prefab pointer is never nil on a tile; two
  prefabs that share their variables have equal ones.
\<close>

section \<open>Prefabs\<close>

text \<open>\<^verbatim>\<open>ExplicitValue\<close> of a name of the variables.\<close>

definition explicit_value :: "variables \<Rightarrow> runes \<Rightarrow> runes option" where
  "explicit_value vars name = map_of vars name"

definition Prefab_Equals :: "prefab \<Rightarrow> prefab \<Rightarrow> bool" where
  "Prefab_Equals p q \<longleftrightarrow>
     (if pf_path p \<noteq> pf_path q then False
      else if length (pf_vars p) \<noteq> length (pf_vars q) then False
      else if length (pf_vars p) = 0 then True
      else list_all (\<lambda>name. name \<in> fst ` set (pf_vars q) \<and> explicit_value (pf_vars p) name = explicit_value (pf_vars q) name)
             (map fst (pf_vars p)))"

definition Prefabs_Equals :: "prefab list \<Rightarrow> prefab list \<Rightarrow> bool" where
  "Prefabs_Equals ps qs \<longleftrightarrow> length ps = length qs \<and> list_all2 Prefab_Equals ps qs"

text \<open>\<^verbatim>\<open>binary.BigEndian.PutUint64\<close> of a length, then the bytes.\<close>

definition size_bytes :: "nat \<Rightarrow> nat list" where
  "size_bytes n = map (\<lambda>k. n div 256 ^ k mod 256) [7, 6, 5, 4, 3, 2, 1, 0]"

definition field :: "nat list \<Rightarrow> nat list" where
  "field value = size_bytes (length value) @ value"

text \<open>The explicit variables sorted by name; names are distinct, so the order of the pairs is the order
  of the names.\<close>

definition sorted_fields :: "variables \<Rightarrow> (nat list \<times> nat list) list" where
  "sorted_fields vars = sort (map (\<lambda>(n, v). (go_string n, go_string v)) vars)"

definition content_key :: "prefab \<Rightarrow> nat list" where
  "content_key p = field (go_string (pf_path p)) @
     concat (map (\<lambda>(n, v). field n @ [1] @ field v) (sorted_fields (pf_vars p)))"

definition Djb2 :: "nat list \<Rightarrow> u64" where
  "Djb2 s = foldl (\<lambda>hash c. (push_bit 5 hash + hash) + of_nat c) 5381 (string_runes s)"

definition Prefabs_Hash :: "prefab list \<Rightarrow> u64" where
  "Prefabs_Hash ps = Djb2 (concat (map (\<lambda>p.
     map of_char (decimal (length (content_key p))) @ [58] @ content_key p) ps))"

definition IsPath :: "runes \<Rightarrow> runes \<Rightarrow> bool" where
  "IsPath orig path = (take (length path) orig = path)"

definition PathWeight :: "runes \<Rightarrow> int" where
  "PathWeight p = (if IsPath p (lit ''/area'') then 3 else if IsPath p (lit ''/turf'') then 2 else 1)"

section \<open>The content index\<close>

type_synonym content_entry = "key \<times> prefab list"

record content_index =
  by_hash :: "u64 \<Rightarrow> content_entry list"
  key_hashes :: "key \<Rightarrow> u64 option"

fun find_entry :: "prefab list \<Rightarrow> content_entry list \<Rightarrow> key option" where
  "find_entry ps [] = None"
| "find_entry ps ((k, qs) # es) = (if Prefabs_Equals ps qs then Some k else find_entry ps es)"

definition Find :: "content_index \<Rightarrow> u64 \<Rightarrow> prefab list \<Rightarrow> key option" where
  "Find ix h ps = find_entry ps (by_hash ix h)"

text \<open>The removal of a key from its old bucket, and the replacement or addition in the new one.\<close>

fun drop_entry :: "key \<Rightarrow> content_entry list \<Rightarrow> content_entry list" where
  "drop_entry k [] = []"
| "drop_entry k ((l, qs) # es) = (if l = k then es else (l, qs) # drop_entry k es)"

fun put_entry :: "key \<Rightarrow> prefab list \<Rightarrow> content_entry list \<Rightarrow> content_entry list" where
  "put_entry k ps [] = [(k, ps)]"
| "put_entry k ps ((l, qs) # es) = (if l = k then (l, ps) # es else (l, qs) # put_entry k ps es)"

definition Add :: "content_index \<Rightarrow> u64 \<Rightarrow> key \<Rightarrow> prefab list \<Rightarrow> content_index" where
  "Add ix h k ps =
     (let bh = (case key_hashes ix k of None \<Rightarrow> by_hash ix
                | Some h' \<Rightarrow> if h' \<noteq> h then (by_hash ix)(h' := drop_entry k (by_hash ix h')) else by_hash ix)
      in \<lparr>by_hash = bh(h := put_entry k ps (bh h)), key_hashes = (key_hashes ix)(k \<mapsto> h)\<rparr>)"

definition empty_index :: content_index where
  "empty_index = \<lparr>by_hash = (\<lambda>_. []), key_hashes = Map.empty\<rparr>"

definition NewContentIndex :: "(key \<times> prefab list) list \<Rightarrow> content_index" where
  "NewContentIndex dict =
     foldl (\<lambda>ix k. let ps = (case map_of dict k of None \<Rightarrow> [] | Some ps \<Rightarrow> ps) in Add ix (Prefabs_Hash ps) k ps) empty_index (sort_key ToNum (map fst dict))"

end
