(* ===== verification/Map_Keys.thy ===== *)
theory Map_Keys
  imports Dmm_Data
begin

text \<open>
  The keys of a map file (dmmsave/keygen/keygen.go) and the prediction of a change of the key length
  (aphelion/mapsave/keylength.go). \<^verbatim>\<open>rand.Intn\<close> is an argument, a
  number below its own argument. \<^verbatim>\<open>math.Floor\<close> of a
  quotient of \<^verbatim>\<open>float64\<close> is the quotient of integers for the numbers of keys. The loops over key numbers
  start at 0, so the numbers are naturals.
\<close>

section \<open>All keys\<close>

definition tier1limit :: nat where "tier1limit = 51"
definition tier2limit :: nat where "tier2limit = 2703"
definition tier3limit :: nat where "tier3limit = 65528"

definition realTier1limit :: nat where "realTier1limit = tier1limit"
definition realTier2limit :: nat where "realTier2limit = tier1limit + tier2limit + 1"
definition realTier3limit :: nat where "realTier3limit = realTier2limit + tier3limit + 1"

function num_loop :: "nat \<Rightarrow> runes \<Rightarrow> runes" where
  "num_loop currentNum result =
     (let result = base52 ! (currentNum mod 52) # result; next = currentNum div 52
      in if next \<le> 0 then result else num_loop next result)"
  by pat_completeness auto
termination
  by (relation "measure fst") auto

declare num_loop.simps [simp del]

definition num2key :: "nat \<Rightarrow> nat \<Rightarrow> key" where
  "num2key num keyLength =
     (let result = num_loop num [] in replicate (keyLength - length result) (base52 ! 0) @ result)"

definition generateKeysRange :: "nat \<Rightarrow> nat \<Rightarrow> nat \<Rightarrow> key list" where
  "generateKeysRange lo hi keyLength = map (\<lambda>i. num2key i keyLength) [lo..<Suc hi]"

definition all_keys :: "key list" where
  "all_keys = generateKeysRange 0 tier1limit 1 @ generateKeysRange 0 tier1limit 2 @ generateKeysRange (tier1limit + 1) tier2limit 2 @
     generateKeysRange 0 tier2limit 3 @ generateKeysRange (tier2limit + 1) tier3limit 3"

definition MaxKeyLength :: nat where "MaxKeyLength = 3"

definition Capacity :: "nat \<Rightarrow> nat" where
  "Capacity keyLength =
     (if keyLength = 1 then realTier1limit + 1
      else if keyLength = 2 then realTier2limit - realTier1limit
      else if keyLength = 3 then realTier3limit - realTier2limit else 0)"

section \<open>The pool of free keys\<close>

text \<open>A nil pool is \<^const>\<open>None\<close>; a scan that finds no free key leaves it nil.\<close>

record keygen =
  keys_pool :: "nat list option"
  free_keys :: nat

definition New_keygen :: keygen where
  "New_keygen = \<lparr>keys_pool = None, free_keys = 0\<rparr>"

definition DropKeysPool :: "keygen \<Rightarrow> keygen" where
  "DropKeysPool g = g\<lparr>keys_pool := None\<rparr>"

text \<open>The last number of the tier of a key length, and the first one.\<close>

definition tier_range :: "nat \<Rightarrow> nat \<times> nat" where
  "tier_range keyLength =
     (if keyLength = 1 then (realTier1limit, 0)
      else if keyLength = 2 then (realTier2limit, realTier1limit + 1)
      else if keyLength = 3 then (realTier3limit, realTier2limit + 1)
      else (0, 0))"

definition createKeysPool :: "dmm_data \<Rightarrow> nat list option \<times> nat" where
  "createKeysPool d =
     (case tier_range (key_length d) of (freeKeys, border) \<Rightarrow>
        let pool = filter (\<lambda>num. all_keys ! num \<notin> fst ` set (dictionary d)) [border..<Suc freeKeys]
        in (if pool = [] then None else Some pool, freeKeys))"

definition pool_of :: "keygen \<Rightarrow> nat list" where
  "pool_of g = (case keys_pool g of None \<Rightarrow> [] | Some pool \<Rightarrow> pool)"

text \<open>The pool is made when it is nil.\<close>

definition with_pool :: "dmm_data \<Rightarrow> keygen \<Rightarrow> keygen" where
  "with_pool d g = (case keys_pool g of
     None \<Rightarrow> (case createKeysPool d of (pool, freeKeys) \<Rightarrow> \<lparr>keys_pool = pool, free_keys = freeKeys\<rparr>)
   | Some pool \<Rightarrow> g)"

text \<open>The key and 0, or no key and the key length to go on with, \<open>- 1\<close> when there is none.\<close>

definition CreateKey :: "dmm_data \<Rightarrow> (nat \<Rightarrow> nat) \<Rightarrow> keygen \<Rightarrow> (key \<times> int) \<times> keygen" where
  "CreateKey d intn g =
     (let g = with_pool d g; pool = pool_of g
      in if length pool = 0 then
           ((if free_keys g = realTier1limit then ([], 2)
             else if free_keys g = realTier2limit then ([], 3)
             else ([], - 1)), g)
         else
           (let randomIdx = intn (length pool)
            in ((all_keys ! (pool ! randomIdx), 0), g\<lparr>keys_pool := Some (take randomIdx pool @ drop (randomIdx + 1) pool)\<rparr>)))"

section \<open>The plan\<close>

record key_length_plan =
  plan_current :: nat
  plan_required :: nat
  plan_unique :: nat
  plan_capacity :: nat

fun plan_loop :: "nat \<Rightarrow> nat list \<Rightarrow> nat" where
  "plan_loop unique [] = 0"
| "plan_loop unique (l # ls) = (if unique \<le> Capacity l then l else plan_loop unique ls)"

definition PlanKeyLength :: "nat \<Rightarrow> nat \<Rightarrow> key_length_plan" where
  "PlanKeyLength unique current =
     (let plan = \<lparr>plan_current = current, plan_required = 0, plan_unique = unique, plan_capacity = Capacity current\<rparr>
      in if plan_capacity plan = 0 then plan\<lparr>plan_required := current\<rparr>
         else plan\<lparr>plan_required := plan_loop unique [current..<Suc MaxKeyLength]\<rparr>)"

definition Grows :: "key_length_plan \<Rightarrow> bool" where
  "Grows p \<longleftrightarrow> plan_required p > plan_current p \<and> plan_capacity p \<noteq> 0"

definition Exceeds :: "key_length_plan \<Rightarrow> bool" where
  "Exceeds p \<longleftrightarrow> plan_capacity p \<noteq> 0 \<and> plan_required p = 0"

section \<open>Numbers and keys\<close>

text \<open>The value of a key without the wrap-around, and the keys that have one of the 52 letters everywhere.\<close>

definition key_value :: "key \<Rightarrow> int" where
  "key_value k = foldl (\<lambda>num c. 52 * num + base52r c) 0 k"

lemma length_base52 [simp]: "length base52 = 52"
  by (simp add: base52_def lit_def)

lemma distinct_base52: "distinct base52"
  by (simp add: base52_def lit_def)

lemma base52r_nth [simp]: "i < 52 \<Longrightarrow> base52r (base52 ! i) = int i"
proof -
  assume i: "i < 52"
  have "map_of (zip base52 [0..51]) (base52 ! i) = Some ([0..51] ! i)"
    by (rule map_of_zip_nth) (use i in \<open>simp_all add: distinct_base52\<close>)
  then show ?thesis using i by (simp add: base52r_def)
qed

lemma base52r_letter: "c \<in> set base52 \<Longrightarrow> 0 \<le> base52r c \<and> base52r c < 52 \<and> base52 ! nat (base52r c) = c"
  by (auto simp: in_set_conv_nth)

lemma key_value_snoc: "key_value (k @ [c]) = 52 * key_value k + base52r c"
  by (simp add: key_value_def)

lemma key_value_bounds:
  assumes "set k \<subseteq> set base52"
  shows "0 \<le> key_value k \<and> key_value k < 52 ^ length k"
  using assms
proof (induction k rule: rev_induct)
  case Nil
  then show ?case by (simp add: key_value_def)
next
  case (snoc c k)
  then show ?case using base52r_letter [of c] by (auto simp: key_value_snoc)
qed

lemma ToNum_value:
  assumes "set k \<subseteq> set base52" "length k \<le> 10"
  shows "ToNum k = key_value k"
  using assms
proof (induction k rule: rev_induct)
  case Nil
  then show ?case by (simp add: key_value_def ToNum_def)
next
  case (snoc c k)
  have b: "0 \<le> key_value (k @ [c])" "key_value (k @ [c]) < 52 ^ 10"
    using key_value_bounds [OF snoc.prems(1)] snoc.prems(2) power_increasing [of "length (k @ [c])" 10 "52 :: int"] by auto
  have "ToNum (k @ [c]) = wrap64 (52 * ToNum k + base52r c)" by (simp add: ToNum_def)
  also have "\<dots> = wrap64 (key_value (k @ [c]))" using snoc by (simp add: key_value_snoc)
  also have "\<dots> = key_value (k @ [c])" using b by (simp add: wrap64_def)
  finally show ?case .
qed

lemma key_value_inj:
  assumes "set k \<subseteq> set base52" "set l \<subseteq> set base52" "length k = length l" "key_value k = key_value l"
  shows "k = l"
  using assms
proof (induction k arbitrary: l rule: rev_induct)
  case (snoc c k)
  obtain l' d where l: "l = l' @ [d]" using snoc.prems(3) by (cases l rule: rev_cases) auto
  have e: "52 * key_value k + base52r c = 52 * key_value l' + base52r d" using snoc.prems(4) by (simp add: l key_value_snoc)
  have d: "0 \<le> base52r c" "base52r c < 52" "0 \<le> base52r d" "base52r d < 52" "base52 ! nat (base52r c) = c" "base52 ! nat (base52r d) = d"
    using base52r_letter [of c] base52r_letter [of d] snoc.prems(1,2) by (simp_all add: l)
  have m: "(52 * a + x) mod 52 = x" if "0 \<le> x" "x < 52" for a x :: int using that by simp
  have "base52r c = base52r d" using m [OF d(1,2)] m [OF d(3,4)] e by metis
  moreover have "key_value k = key_value l'" using calculation e by simp
  moreover have "k = l'" by (rule snoc.IH) (use snoc.prems l \<open>key_value k = key_value l'\<close> in simp_all)
  ultimately show ?case using d l by metis
qed simp

lemma num_loop_facts:
  "\<exists>ds. num_loop n r = ds @ r \<and> key_value ds = int n \<and> set ds \<subseteq> set base52 \<and> ds \<noteq> [] \<and> (n < 52 ^ Suc j \<longrightarrow> length ds \<le> Suc j)"
proof (induction n r arbitrary: j rule: num_loop.induct)
  case (1 n r)
  show ?case
  proof (cases "n div 52 = 0")
    case True
    then have "n < 52" by simp
    then show ?thesis using True by (intro exI [of _ "[base52 ! (n mod 52)]"]) (simp add: num_loop.simps [of n] key_value_def)
  next
    case False
    let ?c = "base52 ! (n mod 52)"
    obtain ds where ds: "num_loop (n div 52) (?c # r) = ds @ ?c # r" "key_value ds = int (n div 52)" "set ds \<subseteq> set base52"
        "n div 52 < 52 ^ Suc (j - 1) \<longrightarrow> length ds \<le> Suc (j - 1)"
      using "1.IH" [OF refl refl, of "j - 1"] False by auto
    have "num_loop n r = (ds @ [?c]) @ r" using False ds(1) by (simp add: num_loop.simps [of n])
    moreover have "key_value (ds @ [?c]) = int n" using ds(2) by (simp add: key_value_snoc) presburger
    moreover have "length (ds @ [?c]) \<le> Suc j" if "n < 52 ^ Suc j"
    proof (cases j)
      case 0
      then show ?thesis using that False by simp
    next
      case (Suc i)
      then have "n div 52 < 52 ^ Suc i" using that by (simp add: div_less_iff_less_mult mult.commute)
      then show ?thesis using ds(4) Suc by simp
    qed
    ultimately show ?thesis using ds(3) by (intro exI [of _ "ds @ [?c]"]) simp
  qed
qed

lemma key_value_pad: "key_value (replicate m (base52 ! 0) @ k) = key_value k"
proof -
  have "base52r (base52 ! 0) = 0" by simp
  then have "foldl (\<lambda>num c. 52 * num + base52r c) 0 (replicate m (base52 ! 0)) = 0" by (induction m) simp_all
  then show ?thesis by (simp add: key_value_def)
qed

lemma num2key_facts:
  assumes "n < 52 ^ l" "1 \<le> l"
  shows "length (num2key n l) = l" "set (num2key n l) \<subseteq> set base52" "key_value (num2key n l) = int n"
proof -
  obtain j where j: "l = Suc j" using assms(2) by (cases l) auto
  obtain ds where ds: "num_loop n [] = ds" "key_value ds = int n" "set ds \<subseteq> set base52" "length ds \<le> l"
    using num_loop_facts [of n "[]" j] assms(1) j by auto
  have k: "num2key n l = replicate (l - length ds) (base52 ! 0) @ ds" using ds(1) by (simp add: num2key_def Let_def)
  show "length (num2key n l) = l" using ds(4) by (simp add: k)
  show "set (num2key n l) \<subseteq> set base52" using ds(3) nth_mem [of 0 base52] by (auto simp: k)
  show "key_value (num2key n l) = int n" using ds(2) by (simp add: k key_value_pad)
qed

section \<open>The keys of a length\<close>

text \<open>The keys BYOND allows at a length.\<close>

definition byond_key :: "nat \<Rightarrow> key \<Rightarrow> bool" where
  "byond_key l k \<longleftrightarrow> length k = l \<and> set k \<subseteq> set base52 \<and> ToNum k < int (Capacity l)"

lemmas limits = realTier1limit_def realTier2limit_def realTier3limit_def tier1limit_def tier2limit_def tier3limit_def

lemma Capacity_values: "Capacity 1 = 52" "Capacity 2 = 2704" "Capacity 3 = 65529" "Capacity l \<noteq> 0 \<longleftrightarrow> l \<in> {1, 2, 3}"
  by (simp_all add: Capacity_def limits)

lemma Capacity_power: "l \<in> {1, 2, 3} \<Longrightarrow> Capacity l \<le> 52 ^ l"
  by (auto simp: Capacity_def limits)

lemma byond_key_num2key:
  assumes "l \<in> {1, 2, 3}" "n < Capacity l"
  shows "byond_key l (num2key n l)" "ToNum (num2key n l) = int n"
proof -
  have n: "n < 52 ^ l" "1 \<le> l" "l \<le> 10" using assms Capacity_power [OF assms(1)] by auto
  show "ToNum (num2key n l) = int n" using num2key_facts [OF n(1,2)] n(3) ToNum_value by simp
  then show "byond_key l (num2key n l)" using num2key_facts [OF n(1,2)] assms(2) by (simp add: byond_key_def)
qed

lemma byond_key_number:
  assumes "l \<in> {1, 2, 3}" "byond_key l k"
  shows "\<exists>n < Capacity l. k = num2key n l"
proof -
  have k: "length k = l" "set k \<subseteq> set base52" "ToNum k < int (Capacity l)" using assms(2) by (simp_all add: byond_key_def)
  have v: "ToNum k = key_value k" using ToNum_value k(1,2) assms(1) by auto
  let ?n = "nat (key_value k)"
  have n: "?n < Capacity l" "0 \<le> key_value k" using k v key_value_bounds [OF k(2)] by auto
  have "?n < 52 ^ l" "1 \<le> l" using n(1) Capacity_power [OF assms(1)] assms(1) by auto
  then have "k = num2key ?n l" using num2key_facts [of ?n l] k n(2) by (intro key_value_inj) simp_all
  then show ?thesis using n(1) by blast
qed

text \<open>The numbers of the tier of a length, in the list of all keys.\<close>

definition tier_start :: "nat \<Rightarrow> nat" where
  "tier_start l = (if l = 1 then 0 else if l = 2 then 52 else 2756)"

definition tier :: "nat \<Rightarrow> nat list" where
  "tier l = [tier_start l..<tier_start l + Capacity l]"

lemma length_ranges: "length (generateKeysRange a b l) = Suc b - a"
  by (simp add: generateKeysRange_def del: upt_Suc)

lemma nth_ranges: "i < Suc b - a \<Longrightarrow> generateKeysRange a b l ! i = num2key (a + i) l"
  by (simp add: generateKeysRange_def del: upt_Suc)

lemma all_keys_nth:
  "n < 52 \<Longrightarrow> all_keys ! n = num2key n 1"
  "52 \<le> n \<Longrightarrow> n < 2756 \<Longrightarrow> all_keys ! n = num2key (n - 52) 2"
  "2756 \<le> n \<Longrightarrow> n < 68285 \<Longrightarrow> all_keys ! n = num2key (n - 2756) 3"
proof -
  have join: "generateKeysRange 0 a l @ generateKeysRange (a + 1) b l = generateKeysRange 0 b l" if "a \<le> b" for a b l
    using that upt_add_eq_append [of 0 "Suc a" "b - a"] by (simp add: generateKeysRange_def Suc_diff_le flip: map_append del: upt_Suc)
  have e: "all_keys = generateKeysRange 0 51 1 @ generateKeysRange 0 2703 2 @ generateKeysRange 0 65528 3"
    using join [of 51 2703 2] join [of 2703 65528 3] by (simp add: all_keys_def tier1limit_def tier2limit_def tier3limit_def)
  show "n < 52 \<Longrightarrow> all_keys ! n = num2key n 1"
    "52 \<le> n \<Longrightarrow> n < 2756 \<Longrightarrow> all_keys ! n = num2key (n - 52) 2"
    "2756 \<le> n \<Longrightarrow> n < 68285 \<Longrightarrow> all_keys ! n = num2key (n - 2756) 3"
    unfolding e nth_append length_ranges by (auto simp: nth_ranges)
qed

lemma all_keys_tier:
  assumes "l \<in> {1, 2, 3}"
  shows "map ((!) all_keys) (tier l) = map (\<lambda>n. num2key n l) [0..<Capacity l]"
proof -
  have shift: "map ((!) all_keys) [a..<a + c] = map (\<lambda>n. num2key n l) [0..<c]" if "\<And>i. i < c \<Longrightarrow> all_keys ! (a + i) = num2key i l" for a c
    using that by (intro nth_equalityI) simp_all
  have "all_keys ! (tier_start l + i) = num2key i l" if "i < Capacity l" for i
    using assms that all_keys_nth [of "tier_start l + i"] by (auto simp: tier_start_def Capacity_def limits)
  then show ?thesis unfolding tier_def by (rule shift)
qed

lemma tier_keys: "l \<in> {1, 2, 3} \<Longrightarrow> (!) all_keys ` set (tier l) = {k. byond_key l k}"
proof -
  assume l: "l \<in> {1, 2, 3}"
  have "(!) all_keys ` set (tier l) = (\<lambda>n. num2key n l) ` {0..<Capacity l}"
    using arg_cong [OF all_keys_tier [OF l], of set] by (simp only: set_map set_upt)
  also have "\<dots> = {k. byond_key l k}"
    using byond_key_num2key(1) [OF l] byond_key_number [OF l] by (auto simp: image_iff Bex_def)
  finally show ?thesis .
qed

lemma tier_distinct: "l \<in> {1, 2, 3} \<Longrightarrow> distinct (map ((!) all_keys) (tier l))"
proof -
  assume l: "l \<in> {1, 2, 3}"
  have "inj_on (\<lambda>n. num2key n l) {0..<Capacity l}"
    using byond_key_num2key(2) [OF l] by (intro inj_onI) (metis atLeastLessThan_iff of_nat_eq_iff)
  then show ?thesis unfolding all_keys_tier [OF l] by (simp add: distinct_map)
qed

lemma card_byond_keys: "l \<in> {1, 2, 3} \<Longrightarrow> card {k. byond_key l k} = Capacity l \<and> finite {k. byond_key l k}"
  using tier_keys [of l] tier_distinct [of l] distinct_card [OF tier_distinct [of l]] arg_cong [OF all_keys_tier [of l], of length]
  by (metis finite_imageI finite_set length_map length_upt list.set_map minus_nat.diff_0)

section \<open>What the pool offers\<close>

text \<open>The pool of a length holds each free key once.\<close>

definition pool_ok :: "nat \<Rightarrow> key set \<Rightarrow> keygen \<Rightarrow> bool" where
  "pool_ok l K g \<longleftrightarrow> (case keys_pool g of None \<Rightarrow> True
     | Some pool \<Rightarrow> distinct (map ((!) all_keys) pool) \<and> (!) all_keys ` set pool = {k. byond_key l k} - K \<and>
         free_keys g = tier_start l + Capacity l - 1)"

lemma tier_range_tier:
  assumes "l \<in> {1, 2, 3}" "tier_range l = (freeKeys, border)"
  shows "[border..<Suc freeKeys] = tier l" "freeKeys = tier_start l + Capacity l - 1"
proof -
  have r: "border = tier_start l" "Suc freeKeys = tier_start l + Capacity l"
    using assms by (auto simp: tier_range_def tier_start_def Capacity_def limits)
  then show "[border..<Suc freeKeys] = tier l" by (simp only: tier_def)
  show "freeKeys = tier_start l + Capacity l - 1" using r(2) by simp
qed

lemma createKeysPool_ok:
  assumes l: "l \<in> {1, 2, 3}" "key_length d = l" and made: "createKeysPool d = (pool, free)"
  shows "pool_ok l (fst ` set (dictionary d)) \<lparr>keys_pool = pool, free_keys = free\<rparr>"
    "pool = None \<Longrightarrow> {k. byond_key l k} \<subseteq> fst ` set (dictionary d)" "free = tier_start l + Capacity l - 1"
proof -
  obtain freeKeys border where r: "tier_range l = (freeKeys, border)" by (cases "tier_range l")
  define P where "P = filter (\<lambda>num. all_keys ! num \<notin> fst ` set (dictionary d)) (tier l)"
  have p: "pool = (if P = [] then None else Some P)" "free = freeKeys"
    using made unfolding createKeysPool_def l(2) r prod.case tier_range_tier(1) [OF l(1) r] P_def [symmetric] Let_def by simp_all
  show free: "free = tier_start l + Capacity l - 1" using p(2) tier_range_tier(2) [OF l(1) r] by simp
  have s: "(!) all_keys ` set P = {k. byond_key l k} - fst ` set (dictionary d)"
    using tier_keys [OF l(1)] unfolding P_def by auto
  have "distinct (map ((!) all_keys) P)"
    using tier_distinct [OF l(1)] unfolding P_def by (auto simp: distinct_map inj_on_def)
  then show "pool_ok l (fst ` set (dictionary d)) \<lparr>keys_pool = pool, free_keys = free\<rparr>" using s p(1) free by (simp add: pool_ok_def)
  show "pool = None \<Longrightarrow> {k. byond_key l k} \<subseteq> fst ` set (dictionary d)" using s p(1) by (cases "P = []") auto
qed

lemma CreateKey_spec:
  assumes l: "l \<in> {1, 2, 3}" "key_length d = l" and ok: "pool_ok l (fst ` set (dictionary d)) g" and rnd: "\<And>n. 0 < n \<Longrightarrow> intn n < n"
    and run: "CreateKey d intn g = ((k, newSize), g')"
  shows "if {k. byond_key l k} \<subseteq> fst ` set (dictionary d) then newSize = (if l = 1 then 2 else if l = 2 then 3 else - 1)
    else newSize = 0 \<and> byond_key l k \<and> k \<notin> fst ` set (dictionary d) \<and> pool_ok l (insert k (fst ` set (dictionary d))) g'"
proof -
  let ?K = "fst ` set (dictionary d)"
  define g1 where "g1 = with_pool d g"
  obtain pool0 free where c: "createKeysPool d = (pool0, free)" by (cases "createKeysPool d")
  note made = createKeysPool_ok [OF l c]
  have g1: "pool_ok l ?K g1" "free_keys g1 = tier_start l + Capacity l - 1" "keys_pool g1 = None \<Longrightarrow> {k. byond_key l k} \<subseteq> ?K"
    using ok made by (auto simp: g1_def with_pool_def c pool_ok_def split: option.splits)
  have free: "free_keys g1 = realTier1limit \<longleftrightarrow> l = 1" "free_keys g1 = realTier2limit \<longleftrightarrow> l = 2"
    using l(1) unfolding g1(2) by (auto simp: tier_start_def Capacity_def limits)
  let ?pool = "pool_of g1"
  have keys: "distinct (map ((!) all_keys) ?pool)" "(!) all_keys ` set ?pool = {k. byond_key l k} - ?K"
    using g1(1,3) by (auto simp: pool_ok_def pool_of_def split: option.splits)
  have run': "((k, newSize), g') = (if length ?pool = 0 then
      ((if free_keys g1 = realTier1limit then ([], 2) else if free_keys g1 = realTier2limit then ([], 3) else ([], - 1)), g1)
      else (let i = intn (length ?pool) in ((all_keys ! (?pool ! i), 0), g1\<lparr>keys_pool := Some (take i ?pool @ drop (i + 1) ?pool)\<rparr>)))"
    using run unfolding CreateKey_def g1_def [symmetric] Let_def by (rule sym)
  show ?thesis
  proof (cases "?pool = []")
    case True
    then have "{k. byond_key l k} \<subseteq> ?K" using keys(2) by auto
    then show ?thesis using run' True free by (simp split: if_splits)
  next
    case False
    let ?i = "intn (length ?pool)"
    have i: "?i < length ?pool" using rnd False by simp
    have k: "k = all_keys ! (?pool ! ?i)" "newSize = 0" "g' = g1\<lparr>keys_pool := Some (take ?i ?pool @ drop (?i + 1) ?pool)\<rparr>"
      using run' False by (simp_all add: Let_def)
    have in_pool: "k \<in> {k. byond_key l k} - ?K" using k(1) i keys(2) by (metis imageI nth_mem)
    have split: "?pool = take ?i ?pool @ ?pool ! ?i # drop (Suc ?i) ?pool" using i by (simp add: id_take_nth_drop)
    let ?rest = "take ?i ?pool @ drop (Suc ?i) ?pool"
    have "distinct (map ((!) all_keys) (take ?i ?pool @ ?pool ! ?i # drop (Suc ?i) ?pool))" using keys(1) split by metis
    then have rest: "distinct (map ((!) all_keys) ?rest)" "k \<notin> (!) all_keys ` set ?rest" using k(1) by auto
    have "(!) all_keys ` set (take ?i ?pool @ ?pool ! ?i # drop (Suc ?i) ?pool) = {k. byond_key l k} - ?K" using keys(2) split by metis
    then have "insert k ((!) all_keys ` set ?rest) = {k. byond_key l k} - ?K" using k(1) by auto
    then have "(!) all_keys ` set ?rest = {k. byond_key l k} - insert k ?K" using rest(2) by blast
    then have "pool_ok l (insert k ?K) g'" using rest(1) k(3) g1(2) by (simp add: pool_ok_def)
    moreover have "\<not> {k. byond_key l k} \<subseteq> ?K" using in_pool by blast
    ultimately show ?thesis using in_pool k(2) by simp
  qed
qed

section \<open>Keys of other lengths\<close>

text \<open>A file with keys of four letters, which the parser accepts, has no tier: the pool of its generator is
  the first key of all, a single letter, and a save that needs a new key writes a key of the wrong
  length.\<close>

theorem long_keys_get_one_letter:
  assumes "key_length d \<notin> {1, 2, 3}" "lit ''a'' \<notin> fst ` set (dictionary d)" "intn 1 = 0"
  shows "fst (CreateKey d intn New_keygen) = (lit ''a'', 0)"
proof -
  have "all_keys ! 0 = lit ''a''" by (simp add: all_keys_nth(1)) code_simp
  moreover have "[0..<Suc 0] = [0]" by simp
  ultimately have "createKeysPool d = (Some [0], 0)" using assms(1,2) by (simp add: createKeysPool_def tier_range_def)
  then show ?thesis
    using assms(3) \<open>all_keys ! 0 = lit ''a''\<close> by (simp add: CreateKey_def with_pool_def New_keygen_def pool_of_def)
qed

end
