(* ===== verification/Dmm_Parse.thy ===== *)
theory Dmm_Parse
  imports Dmm_Data
begin

text \<open>
  The parser of map files (dmapi/dmmap/dmmdata/parse.go), rune by rune as the source does it: one loop
  reads the dictionary up to the first coordinate, a second one reads the grid, and the rows are turned
  over at the end. The parser's local variables are the fields of two records.
\<close>

section \<open>The dictionary\<close>

datatype parse_error =
    WhitespaceInComment int | InconsistentKeyLength int nat nat | NoDataBlock int
  | NotTerminated int runes | ExtraCharacters int runes | TooManyAxes int | WrongAxis int | NotADigit int rune

record pstate =
  ps_tgm :: bool
  ps_break :: runes
  ps_key_length :: nat
  ps_dict :: "(key \<times> prefab list) list"
  line_no :: int
  in_comment_line :: bool
  comment_trigger :: bool
  in_quote :: bool
  in_var_data :: bool
  in_key :: bool
  in_data :: bool
  in_var_edit :: bool
  after_data :: bool
  escaping :: bool
  curr_data :: "prefab list"
  curr_path :: runes
  curr_vars :: variables
  curr_var :: runes
  curr_datum :: runes
  curr_key :: runes
  definition_line :: int

definition parse_start :: pstate where
  "parse_start = \<lparr>ps_tgm = False, ps_break = [NL], ps_key_length = 0, ps_dict = [], line_no = 1,
     in_comment_line = False, comment_trigger = False, in_quote = False, in_var_data = False, in_key = False,
     in_data = False, in_var_edit = False, after_data = True, escaping = False, curr_data = [], curr_path = [],
     curr_vars = [], curr_var = [], curr_datum = [], curr_key = [], definition_line = 0\<rparr>"

definition flushCurrPrefab :: "pstate \<Rightarrow> pstate" where
  "flushCurrPrefab st =
     st\<lparr>curr_data := curr_data st @ [\<lparr>pf_path = curr_path st, pf_vars = curr_vars st\<rparr>], curr_path := [], curr_vars := []\<rparr>"

definition flushCurrPath :: "pstate \<Rightarrow> pstate" where
  "flushCurrPath st = st\<lparr>curr_path := curr_datum st, curr_datum := []\<rparr>"

definition flushCurrVariable :: "pstate \<Rightarrow> pstate" where
  "flushCurrVariable st =
     st\<lparr>curr_vars := put (curr_var st) (curr_datum st) (curr_vars st), curr_var := [], curr_datum := []\<rparr>"

definition add_datum :: "runes \<Rightarrow> pstate \<Rightarrow> pstate" where
  "add_datum cs st = st\<lparr>curr_datum := curr_datum st @ cs\<rparr>"

definition quote_step :: "pstate \<Rightarrow> rune \<Rightarrow> pstate" where
  "quote_step st c =
     (let st = add_datum [c] st in
      if escaping st then st\<lparr>escaping := False\<rparr>
      else if c = BACKSLASH then st\<lparr>escaping := True\<rparr>
      else if c = QUOTE then st\<lparr>in_quote := False\<rparr>
      else st)"

definition var_step :: "pstate \<Rightarrow> rune \<Rightarrow> pstate" where
  "var_step st c =
     (if c = QUOTE then (add_datum [c] st)\<lparr>in_quote := True\<rparr>
      else if c = EQUALS \<and> length (curr_var st) = 0 then st\<lparr>curr_var := curr_datum st, curr_datum := []\<rparr>
      else if c = SEMICOLON then flushCurrVariable st
      else if c = RBRACE then
        (if length (curr_var st) > 0 then flushCurrVariable st else st)\<lparr>in_var_edit := False\<rparr>
      else if c = LPAREN \<and> \<not> in_var_data st then add_datum [c] (st\<lparr>in_var_data := True\<rparr>)
      else if c = RPAREN \<and> in_var_data st then add_datum [c] (st\<lparr>in_var_data := False\<rparr>)
      else add_datum [c] st)"

definition flush_prefab :: "pstate \<Rightarrow> pstate" where
  "flush_prefab st =
     flushCurrPrefab (if length (curr_path st) = 0 \<and> length (curr_datum st) > 0 then flushCurrPath st else st)"

definition set_entry :: "key \<Rightarrow> prefab list \<Rightarrow> (key \<times> prefab list) list \<Rightarrow> (key \<times> prefab list) list" where
  "set_entry k ps dict = (if k \<in> fst ` set dict then map (\<lambda>(l, qs). (l, if l = k then ps else qs)) dict else dict @ [(k, ps)])"

definition close_definition :: "pstate \<Rightarrow> pstate" where
  "close_definition st =
     (let st = flush_prefab st in
      st\<lparr>ps_dict := set_entry (curr_key st) (curr_data st) (ps_dict st), curr_key := [], curr_data := [],
         in_data := False, after_data := True\<rparr>)"

definition data_step :: "pstate \<Rightarrow> rune \<Rightarrow> pstate" where
  "data_step st c =
     (if in_var_edit st then (if in_quote st then quote_step st c else var_step st c)
      else if c = LBRACE then (flushCurrPath st)\<lparr>in_var_edit := True\<rparr>
      else if c = COMMA then flush_prefab st
      else if c = RPAREN then close_definition st
      else add_datum [c] st)"

definition key_step :: "pstate \<Rightarrow> rune \<Rightarrow> parse_error + pstate" where
  "key_step st c =
     (if c = QUOTE then
        (let st = st\<lparr>in_key := False\<rparr> in
         if ps_key_length st \<noteq> length (curr_key st) then
           (if ps_key_length st = 0 then Inr (st\<lparr>ps_key_length := length (curr_key st)\<rparr>)
            else Inl (InconsistentKeyLength (line_no st) (ps_key_length st) (length (curr_key st))))
         else Inr st)
      else Inr (st\<lparr>curr_key := curr_key st @ [c]\<rparr>))"

definition line_end :: "pstate \<Rightarrow> rune \<Rightarrow> pstate" where
  "line_end st c =
     (if c = NL then st\<lparr>line_no := line_no st + 1\<rparr> else st\<lparr>ps_break := [CR, NL]\<rparr>)\<lparr>in_comment_line := False, comment_trigger := False\<rparr>"

definition blank_step :: "pstate \<Rightarrow> rune \<Rightarrow> parse_error + pstate" where
  "blank_step st c =
     (if comment_trigger st then Inl (WhitespaceInComment (line_no st))
      else if in_quote st then Inr (add_datum (if c = TAB then [BACKSLASH, 116] else [c]) st)
      else if in_var_data st then Inr (add_datum [c] st)
      else Inr st)"

text \<open>One turn of the first loop; the first component of the result says whether the loop breaks.\<close>

definition dict_step :: "pstate \<Rightarrow> rune \<Rightarrow> parse_error + bool \<times> pstate" where
  "dict_step st c =
     (if c = NL \<or> c = CR then Inr (False, line_end st c)
      else if in_comment_line st then Inr (False, st)
      else if c = SPACE \<or> c = TAB then map_sum id (Pair False) (blank_step st c)
      else if c = SLASH \<and> \<not> in_quote st \<and> comment_trigger st then
        Inr (False, st\<lparr>in_comment_line := True, ps_tgm := ps_tgm st \<or> line_no st = 1\<rparr>)
      else
        (let st = st\<lparr>comment_trigger := (c = SLASH \<and> \<not> in_quote st)\<rparr> in
         if in_data st then Inr (False, data_step st c)
         else if in_key st then map_sum id (Pair False) (key_step st c)
         else if c = QUOTE then
           (if \<not> after_data st then Inl (NoDataBlock (line_no st))
            else Inr (False, st\<lparr>definition_line := line_no st, in_key := True, after_data := False\<rparr>))
         else if c = LPAREN then
           (if after_data st then Inr (True, st\<lparr>curr_key := []\<rparr>) else Inr (False, st\<lparr>in_data := True\<rparr>))
         else Inr (False, st)))"

fun dict_loop :: "pstate \<Rightarrow> runes \<Rightarrow> parse_error + pstate \<times> runes" where
  "dict_loop st [] = Inr (st, [])"
| "dict_loop st (c # cs) =
     (case dict_step st c of
        Inl e \<Rightarrow> Inl e
      | Inr (stop, st') \<Rightarrow> if stop then Inr (st', cs) else dict_loop st' cs)"

section \<open>The grid\<close>

datatype axis = AxisX | AxisY | AxisZ

record gstate =
  gs_break :: runes
  gs_line :: int
  reading_axis :: axis
  curr_x :: int
  curr_y :: int
  curr_z :: int
  curr_num :: int
  base_x :: int
  in_coord :: bool
  in_map :: bool
  gs_key :: runes
  gs_max_x :: int
  gs_max_y :: int
  gs_max_z :: int
  gs_grid :: "point \<Rightarrow> key option"

definition grid_start :: "pstate \<Rightarrow> gstate" where
  "grid_start st = \<lparr>gs_break = ps_break st, gs_line = line_no st, reading_axis = AxisX, curr_x = 0, curr_y = 0, curr_z = 0,
     curr_num = 0, base_x = 0, in_coord = True, in_map = False, gs_key = curr_key st, gs_max_x = 0, gs_max_y = 0, gs_max_z = 0,
     gs_grid = Map.empty\<rparr>"

definition finishLine :: "gstate \<Rightarrow> parse_error + gstate" where
  "finishLine g =
     (if length (gs_key g) \<noteq> 0 then Inl (ExtraCharacters (gs_line g) (gs_key g))
      else if curr_x g \<noteq> base_x g then
        Inr (g\<lparr>curr_y := wrap64 (curr_y g + 1), gs_max_x := max (gs_max_x g) (wrap64 (curr_x g - 1)), curr_x := base_x g\<rparr>)
      else Inr g)"

definition coord_step :: "gstate \<Rightarrow> rune \<Rightarrow> parse_error + gstate" where
  "coord_step g c =
     (if c = COMMA then
        (case reading_axis g of
           AxisX \<Rightarrow> Inr (g\<lparr>curr_x := curr_num g, curr_num := 0, base_x := curr_num g, reading_axis := AxisY\<rparr>)
         | AxisY \<Rightarrow> Inr (g\<lparr>curr_y := curr_num g, curr_num := 0, reading_axis := AxisZ\<rparr>)
         | AxisZ \<Rightarrow> Inl (TooManyAxes (gs_line g)))
      else if c = RPAREN then
        (if reading_axis g \<noteq> AxisZ then Inl (WrongAxis (gs_line g))
         else Inr (g\<lparr>curr_z := curr_num g, gs_max_z := max (gs_max_z g) (curr_num g), curr_num := 0,
                     in_coord := False, reading_axis := AxisX\<rparr>))
      else if 48 \<le> c \<and> c \<le> 57 then Inr (g\<lparr>curr_num := wrap64 (10 * curr_num g + (c - 48))\<rparr>)
      else Inl (NotADigit (gs_line g) c))"

definition map_step :: "nat \<Rightarrow> gstate \<Rightarrow> rune \<Rightarrow> parse_error + gstate" where
  "map_step kl g c =
     (if c = QUOTE then
        map_sum id (\<lambda>g. g\<lparr>in_map := False, gs_max_y := max (gs_max_y g) (wrap64 (curr_y g - 1))\<rparr>) (finishLine g)
      else if c = CR then Inr (g\<lparr>gs_break := [CR, NL]\<rparr>)
      else if c = NL then map_sum id (\<lambda>g. g\<lparr>gs_line := gs_line g + 1\<rparr>) (finishLine g)
      else
        (let g = g\<lparr>gs_key := gs_key g @ [c]\<rparr> in
         if length (gs_key g) = kl then
           Inr (g\<lparr>gs_grid := (gs_grid g)((curr_x g, curr_y g, curr_z g) \<mapsto> gs_key g), gs_key := [],
                  curr_x := wrap64 (curr_x g + 1)\<rparr>)
         else Inr g))"

definition grid_step :: "nat \<Rightarrow> gstate \<Rightarrow> rune \<Rightarrow> parse_error + gstate" where
  "grid_step kl g c =
     (if in_coord g then coord_step g c
      else if in_map g then map_step kl g c
      else if c = LPAREN then Inr (g\<lparr>in_coord := True\<rparr>)
      else if c = QUOTE then Inr (g\<lparr>in_map := True\<rparr>)
      else if c = NL then Inr (g\<lparr>gs_line := gs_line g + 1\<rparr>)
      else Inr g)"

fun grid_loop :: "nat \<Rightarrow> gstate \<Rightarrow> runes \<Rightarrow> parse_error + gstate" where
  "grid_loop kl g [] = Inr g"
| "grid_loop kl g (c # cs) = sum_bind (grid_step kl g c) (\<lambda>g'. grid_loop kl g' cs)"

section \<open>Orientation\<close>

definition in_box :: "int \<Rightarrow> int \<Rightarrow> int \<Rightarrow> point \<Rightarrow> bool" where
  "in_box mx my mz p \<longleftrightarrow> (case p of (x, y, z) \<Rightarrow> \<not> (x < 1 \<or> x > mx \<or> y < 1 \<or> y > my \<or> z < 1 \<or> z > mz))"

definition restrict_grid :: "int \<Rightarrow> int \<Rightarrow> int \<Rightarrow> (point \<Rightarrow> key option) \<Rightarrow> point \<Rightarrow> key option" where
  "restrict_grid mx my mz g = (\<lambda>p. if in_box mx my mz p then g p else None)"

text \<open>A read of a missing point gives the empty key, and both points are assigned.\<close>

definition swap_rows :: "int \<Rightarrow> point \<Rightarrow> (point \<Rightarrow> key option) \<Rightarrow> point \<Rightarrow> key option" where
  "swap_rows my p g =
     (case p of (x, y, z) \<Rightarrow>
        let top = (x, my + 1 - y, z);
            key_at = (\<lambda>q. case g q of None \<Rightarrow> [] | Some k \<Rightarrow> k)
        in g(p \<mapsto> key_at top, top \<mapsto> key_at p))"

text \<open>Go computes \<open>(MaxY + 1) / 2\<close> in 64 bits: for the greatest \<open>MaxY\<close> the sum wraps to \<open>- 2\<^sup>63\<close>, which is
  even, and no row is swapped.\<close>

definition lower_half :: "int \<Rightarrow> int \<Rightarrow> int \<Rightarrow> point list" where
  "lower_half mx my mz =
     concat (map (\<lambda>z. concat (map (\<lambda>y. map (\<lambda>x. (x, y, z)) [1..mx]) [1..wrap64 (my + 1) div 2])) [1..mz])"

definition orient :: "int \<Rightarrow> int \<Rightarrow> int \<Rightarrow> (point \<Rightarrow> key option) \<Rightarrow> point \<Rightarrow> key option" where
  "orient mx my mz g = fold (swap_rows my) (lower_half mx my mz) (restrict_grid mx my mz g)"

definition parse :: "runes \<Rightarrow> runes \<Rightarrow> parse_error + dmm_data" where
  "parse name input =
     sum_bind (dict_loop parse_start input) (\<lambda>(st, rest).
       if in_key st \<or> in_data st then Inl (NotTerminated (definition_line st) (curr_key st))
       else sum_bind (grid_loop (ps_key_length st) (grid_start st) rest) (\<lambda>g.
         Inr \<lparr>file_path = name, is_tgm = ps_tgm st, line_break = gs_break g, key_length = ps_key_length st,
              max_x = gs_max_x g, max_y = gs_max_y g, max_z = gs_max_z g, dictionary = ps_dict st,
              grid = orient (gs_max_x g) (gs_max_y g) (gs_max_z g) (gs_grid g)\<rparr>))"

end
