(* ===== verification/Dmm_Chunks.thy ===== *)
theory Dmm_Chunks
  imports Dmm_Parse
begin

text \<open>
  What the first loop of the parser does with the text of a dictionary. The conditions on the texts
  (\<open>value_ok\<close> and its siblings) say which strings the parser gives back unchanged; each chunk of the
  written text has a lemma that says what the parser does with it, whatever follows.
\<close>

section \<open>Texts the parser gives back\<close>

primrec no_comment :: "bool \<Rightarrow> runes \<Rightarrow> bool" where
  "no_comment slash [] = True"
| "no_comment slash (c # cs) = (\<not> (slash \<and> c = SLASH) \<and> no_comment (c = SLASH) cs)"

definition path_ok :: "runes \<Rightarrow> bool" where
  "path_ok p \<longleftrightarrow> no_comment False p \<and> (\<forall>c\<in>set p. c \<notin> {NL, CR, SPACE, TAB, LBRACE, COMMA, RPAREN})"

definition name_ok :: "runes \<Rightarrow> bool" where
  "name_ok n \<longleftrightarrow> n \<noteq> [] \<and> last n \<noteq> SLASH \<and> no_comment False n \<and>
     (\<forall>c\<in>set n. c \<notin> {NL, CR, SPACE, TAB, QUOTE, EQUALS, SEMICOLON, RBRACE, LPAREN})"

text \<open>The flags are those of the parser: in a quoted string, after a backslash, in a list, after a slash.\<close>

fun value_scan :: "bool \<Rightarrow> bool \<Rightarrow> bool \<Rightarrow> bool \<Rightarrow> runes \<Rightarrow> bool" where
  "value_scan q e l s [] = (\<not> q \<and> \<not> e \<and> \<not> l)"
| "value_scan q e l s (c # cs) =
     (if c = NL \<or> c = CR then False
      else if c = SPACE \<or> c = TAB then \<not> s \<and> (if q then c = SPACE else l) \<and> value_scan q e l s cs
      else if q then value_scan (e \<or> c \<noteq> QUOTE) (\<not> e \<and> c = BACKSLASH) l False cs
      else \<not> (s \<and> c = SLASH) \<and> c \<noteq> SEMICOLON \<and> c \<noteq> RBRACE \<and>
        value_scan (c = QUOTE) e (if l then c \<noteq> RPAREN else c = LPAREN) (c = SLASH) cs)"

definition value_ok :: "runes \<Rightarrow> bool" where
  "value_ok v \<longleftrightarrow> value_scan False False False False v"

definition prefab_ok :: "prefab \<Rightarrow> bool" where
  "prefab_ok p \<longleftrightarrow> path_ok (pf_path p) \<and> distinct (map fst (pf_vars p)) \<and>
     (\<forall>(n, v)\<in>set (pf_vars p). name_ok n \<and> value_ok v)"

definition key_ok :: "nat \<Rightarrow> key \<Rightarrow> bool" where
  "key_ok kl k \<longleftrightarrow> length k = kl \<and> (\<forall>c\<in>set k. c \<notin> {NL, CR, SPACE, TAB, QUOTE, SLASH})"

definition dmm_ok :: "dmm_data \<Rightarrow> bool" where
  "dmm_ok d \<longleftrightarrow>
     line_break d \<in> {[NL], [CR, NL]} \<and> 1 \<le> key_length d \<and>
     1 \<le> max_x d \<and> 1 \<le> max_y d \<and> 1 \<le> max_z d \<and>
     max_x d < 9223372036854775807 \<and> max_y d < 9223372036854775807 \<and> max_z d < 9223372036854775807 \<and>
     dictionary d \<noteq> [] \<and> distinct (map fst (dictionary d)) \<and>
     (\<forall>(k, ps)\<in>set (dictionary d). key_ok (key_length d) k \<and> ps \<noteq> [] \<and> (\<forall>p\<in>set ps. prefab_ok p)) \<and>
     (\<forall>p. if in_box (max_x d) (max_y d) (max_z d) p then \<exists>k. grid d p = Some k \<and> key_ok (key_length d) k else grid d p = None)"

section \<open>Runs of the first loop\<close>

definition dsteps :: "pstate \<Rightarrow> runes \<Rightarrow> pstate \<Rightarrow> bool" where
  "dsteps st xs st' \<longleftrightarrow> (\<forall>rest. dict_loop st (xs @ rest) = dict_loop st' rest)"

lemma dsteps_Nil: "dsteps st [] st"
  by (simp add: dsteps_def)

lemma dsteps_trans: "dsteps st xs st' \<Longrightarrow> dsteps st' ys st'' \<Longrightarrow> dsteps st (xs @ ys) st''"
  by (simp add: dsteps_def)

lemma dsteps_Cons: "dict_step st c = Inr (False, st') \<Longrightarrow> dsteps st' cs st'' \<Longrightarrow> dsteps st (c # cs) st''"
  by (simp add: dsteps_def)

lemma dsteps_one: "dict_step st c = Inr (False, st') \<Longrightarrow> dsteps st [c] st'"
  by (simp add: dsteps_def)

text \<open>The states between two definitions and inside a definition; \<open>b\<close> carries the fields that a
  definition leaves alone.\<close>

definition between :: "pstate \<Rightarrow> pstate" where
  "between b = \<lparr>ps_tgm = ps_tgm b, ps_break = ps_break b, ps_key_length = ps_key_length b, ps_dict = ps_dict b,
     line_no = line_no b, in_comment_line = False, comment_trigger = False, in_quote = False, in_var_data = False,
     in_key = False, in_data = False, in_var_edit = False, after_data = True, escaping = False, curr_data = [],
     curr_path = [], curr_vars = [], curr_var = [], curr_datum = [], curr_key = [], definition_line = definition_line b\<rparr>"

definition inside :: "pstate \<Rightarrow> prefab list \<Rightarrow> runes \<Rightarrow> variables \<Rightarrow> runes \<Rightarrow> runes \<Rightarrow> bool \<Rightarrow> bool \<Rightarrow> bool \<Rightarrow> bool \<Rightarrow> bool \<Rightarrow> pstate" where
  "inside b pd path vars var datum ve q e l s = \<lparr>ps_tgm = ps_tgm b, ps_break = ps_break b, ps_key_length = ps_key_length b,
     ps_dict = ps_dict b, line_no = line_no b, in_comment_line = False, comment_trigger = s, in_quote = q, in_var_data = l,
     in_key = False, in_data = True, in_var_edit = ve, after_data = False, escaping = e, curr_data = pd, curr_path = path,
     curr_vars = vars, curr_var = var, curr_datum = datum, curr_key = curr_key b, definition_line = definition_line b\<rparr>"

definition nls :: "runes \<Rightarrow> nat \<Rightarrow> pstate \<Rightarrow> pstate" where
  "nls lb n b = b\<lparr>line_no := line_no b + int n, ps_break := (if n = 0 then ps_break b else if lb = [NL] then ps_break b else [CR, NL])\<rparr>"

lemma nls_nls: "nls lb m (nls lb n b) = nls lb (n + m) b"
  by (simp add: nls_def)

lemma nls_0: "nls lb 0 b = b"
  by (simp add: nls_def)

lemma nls_sel [simp]:
  "ps_tgm (nls lb n b) = ps_tgm b" "ps_key_length (nls lb n b) = ps_key_length b" "ps_dict (nls lb n b) = ps_dict b"
  "curr_key (nls lb n b) = curr_key b" "definition_line (nls lb n b) = definition_line b"
  by (simp_all add: nls_def)

lemmas step_defs = dict_step_def line_end_def blank_step_def data_step_def quote_step_def var_step_def add_datum_def Let_def

named_theorems chunk \<open>what the parser does with a chunk of text\<close>

lemma line_break_inside:
  assumes "lb \<in> {[NL], [CR, NL]}"
  shows "dsteps (inside b pd path vars var datum ve q e l s) lb (inside (nls lb 1 b) pd path vars var datum ve q e l False)"
  using assms by (auto simp: dsteps_def step_defs inside_def nls_def)

lemma line_break_between:
  assumes "lb \<in> {[NL], [CR, NL]}"
  shows "dsteps (between b) lb (between (nls lb 1 b))"
  using assms by (auto simp: dsteps_def step_defs between_def nls_def)

section \<open>Paths, names and values\<close>

lemma path_step:
  "c \<notin> {NL, CR, SPACE, TAB, LBRACE, COMMA, RPAREN} \<Longrightarrow> (c = SLASH \<longrightarrow> \<not> s) \<Longrightarrow>
     dict_step (inside b pd path vars var datum False False e l s) c = Inr (False, inside b pd path vars var (datum @ [c]) False False e l (c = SLASH))"
  by (simp add: step_defs inside_def)

lemma name_step:
  "c \<notin> {NL, CR, SPACE, TAB, QUOTE, EQUALS, SEMICOLON, RBRACE, LPAREN} \<Longrightarrow> (c = SLASH \<longrightarrow> \<not> s) \<Longrightarrow>
     dict_step (inside b pd path vars var datum True False e False s) c = Inr (False, inside b pd path vars var (datum @ [c]) True False e False (c = SLASH))"
  by (simp add: step_defs inside_def)

lemma blank_in_value:
  "c = SPACE \<or> c = TAB \<Longrightarrow> \<not> s \<Longrightarrow> (if q then c = SPACE else l) \<Longrightarrow>
     dict_step (inside b pd path vars var datum ve q e l s) c = Inr (False, inside b pd path vars var (datum @ [c]) ve q e l s)"
  by (auto simp: step_defs inside_def)

lemma blank_skipped:
  "c = SPACE \<or> c = TAB \<Longrightarrow> dict_step (inside b pd path vars var datum ve False e False False) c = Inr (False, inside b pd path vars var datum ve False e False False)"
  by (auto simp: step_defs inside_def)

lemma quoted_step:
  "c \<notin> {NL, CR, SPACE, TAB} \<Longrightarrow>
     dict_step (inside b pd path vars var datum True True e l s) c =
       Inr (False, inside b pd path vars var (datum @ [c]) True (e \<or> c \<noteq> QUOTE) (\<not> e \<and> c = BACKSLASH) l False)"
  by (simp add: step_defs inside_def)

lemma plain_step:
  "c \<notin> {NL, CR, SPACE, TAB, SEMICOLON, RBRACE} \<Longrightarrow> (c = SLASH \<longrightarrow> \<not> s) \<Longrightarrow> var \<noteq> [] \<Longrightarrow>
     dict_step (inside b pd path vars var datum True False e l s) c =
       Inr (False, inside b pd path vars var (datum @ [c]) True (c = QUOTE) e (if l then c \<noteq> RPAREN else c = LPAREN) (c = SLASH))"
  by (simp add: step_defs inside_def)

lemma snoc_steps:
  "dict_step st c = Inr (False, f (datum @ [c])) \<Longrightarrow> dsteps (f (datum @ [c])) cs (g ((datum @ [c]) @ cs)) \<Longrightarrow> dsteps st (c # cs) (g (datum @ c # cs))"
  by (simp add: dsteps_def)

lemma path_steps:
  assumes "no_comment s p" "\<forall>c\<in>set p. c \<notin> {NL, CR, SPACE, TAB, LBRACE, COMMA, RPAREN}"
  shows "\<exists>s'. dsteps (inside b pd path vars var datum False False e l s) p (inside b pd path vars var (datum @ p) False False e l s')"
  using assms
proof (induction p arbitrary: s datum)
  case Nil
  then show ?case by (auto intro: dsteps_Nil)
next
  case (Cons c p)
  obtain s' where "dsteps (inside b pd path vars var (datum @ [c]) False False e l (c = SLASH)) p
      (inside b pd path vars var ((datum @ [c]) @ p) False False e l s')"
    using Cons.IH [of "c = SLASH" "datum @ [c]"] Cons.prems by auto
  moreover have "dict_step (inside b pd path vars var datum False False e l s) c =
      Inr (False, inside b pd path vars var (datum @ [c]) False False e l (c = SLASH))"
    using Cons.prems by (intro path_step) auto
  ultimately show ?case by (auto simp: dsteps_def)
qed

lemma name_steps:
  assumes "no_comment s n" "n \<noteq> [] \<longrightarrow> last n \<noteq> SLASH" "n = [] \<longrightarrow> \<not> s"
    "\<forall>c\<in>set n. c \<notin> {NL, CR, SPACE, TAB, QUOTE, EQUALS, SEMICOLON, RBRACE, LPAREN}"
  shows "dsteps (inside b pd path vars var datum True False e False s) n (inside b pd path vars var (datum @ n) True False e False False)"
  using assms
proof (induction n arbitrary: s datum)
  case Nil
  then show ?case by (auto intro: dsteps_Nil)
next
  case (Cons c n)
  have "dsteps (inside b pd path vars var (datum @ [c]) True False e False (c = SLASH)) n
      (inside b pd path vars var ((datum @ [c]) @ n) True False e False False)"
  proof (rule Cons.IH)
    show "no_comment (c = SLASH) n" using Cons.prems(1) by simp
    show "n \<noteq> [] \<longrightarrow> last n \<noteq> SLASH" "n = [] \<longrightarrow> c \<noteq> SLASH" using Cons.prems(2) by (auto split: if_splits)
    show "\<forall>c\<in>set n. c \<notin> {NL, CR, SPACE, TAB, QUOTE, EQUALS, SEMICOLON, RBRACE, LPAREN}" using Cons.prems(4) by simp
  qed
  moreover have "dict_step (inside b pd path vars var datum True False e False s) c =
      Inr (False, inside b pd path vars var (datum @ [c]) True False e False (c = SLASH))"
  proof (rule name_step)
    show "c \<notin> {NL, CR, SPACE, TAB, QUOTE, EQUALS, SEMICOLON, RBRACE, LPAREN}" using Cons.prems(4) by simp
    show "c = SLASH \<longrightarrow> \<not> s" using Cons.prems(1) by auto
  qed
  ultimately show ?case by (simp add: dsteps_def)
qed

text \<open>The flags after a text whose runes are all kept.\<close>

fun value_flags :: "bool \<Rightarrow> bool \<Rightarrow> bool \<Rightarrow> bool \<Rightarrow> runes \<Rightarrow> (bool \<times> bool \<times> bool \<times> bool) option" where
  "value_flags q e l s [] = Some (q, e, l, s)"
| "value_flags q e l s (c # cs) =
     (if c = NL \<or> c = CR then None
      else if c = SPACE \<or> c = TAB then (if \<not> s \<and> (if q then c = SPACE else l) then value_flags q e l s cs else None)
      else if q then value_flags (e \<or> c \<noteq> QUOTE) (\<not> e \<and> c = BACKSLASH) l False cs
      else if \<not> (s \<and> c = SLASH) \<and> c \<noteq> SEMICOLON \<and> c \<noteq> RBRACE then
        value_flags (c = QUOTE) e (if l then c \<noteq> RPAREN else c = LPAREN) (c = SLASH) cs
      else None)"

lemma value_scan_flags: "value_scan q e l s v \<longleftrightarrow> (\<exists>s'. value_flags q e l s v = Some (False, False, False, s'))"
proof (induction q e l s v rule: value_flags.induct)
  case (2 q e l s c cs)
  consider "c = NL \<or> c = CR" | "c \<noteq> NL" "c \<noteq> CR" "c = SPACE \<or> c = TAB" | "c \<noteq> NL" "c \<noteq> CR" "c \<noteq> SPACE" "c \<noteq> TAB" q
    | "c \<noteq> NL" "c \<noteq> CR" "c \<noteq> SPACE" "c \<noteq> TAB" "\<not> q" by blast
  then show ?case
  proof cases
    case 2
    then show ?thesis using "2.IH"(1) by auto
  next
    case 3
    then show ?thesis using "2.IH"(2) by simp
  next
    case 4
    then show ?thesis using "2.IH"(3) by simp
  qed auto
qed simp

text \<open>A rune that is kept: the step adds it, and the flags go on as \<open>value_flags\<close> says.\<close>

lemma value_flags_step:
  assumes "value_flags q e l s [c] \<noteq> None" "var \<noteq> []"
  shows "\<exists>q' e' l' s'. (\<forall>cs. value_flags q e l s (c # cs) = value_flags q' e' l' s' cs) \<and>
    dict_step (inside b pd path vars var datum True q e l s) c = Inr (False, inside b pd path vars var (datum @ [c]) True q' e' l' s')"
proof -
  have nl: "c \<noteq> NL" "c \<noteq> CR" using assms(1) by (simp_all split: if_splits)
  show ?thesis
  proof (cases "c = SPACE \<or> c = TAB")
    case True
    then have k: "\<not> s" "if q then c = SPACE else l" using assms(1) nl by (auto split: if_splits)
    then have "value_flags q e l s (c # cs) = value_flags q e l s cs" for cs using True nl by auto
    then show ?thesis using blank_in_value [OF True k] by blast
  next
    case blank: False
    show ?thesis
    proof (cases q)
      case True
      then have "value_flags q e l s (c # cs) = value_flags (e \<or> c \<noteq> QUOTE) (\<not> e \<and> c = BACKSLASH) l False cs" for cs
        using blank nl by (simp del: disj_not1 disj_not2)
      then show ?thesis using quoted_step [of c b pd path vars var datum e l s] nl blank True by auto
    next
      case False
      then have k: "\<not> (s \<and> c = SLASH)" "c \<noteq> SEMICOLON" "c \<noteq> RBRACE" using assms(1) blank nl by (simp_all split: if_splits)
      then have "value_flags q e l s (c # cs) = value_flags (c = QUOTE) e (if l then c \<noteq> RPAREN else c = LPAREN) (c = SLASH) cs" for cs
        using False blank nl by simp
      moreover have "dict_step (inside b pd path vars var datum True q e l s) c =
          Inr (False, inside b pd path vars var (datum @ [c]) True (c = QUOTE) e (if l then c \<noteq> RPAREN else c = LPAREN) (c = SLASH))"
        unfolding eq_False [THEN iffD2, OF False] using k nl blank by (intro plain_step assms(2)) auto
      ultimately show ?thesis by blast
    qed
  qed
qed

lemma value_flags_head: "value_flags q e l s (c # cs) \<noteq> None \<Longrightarrow> value_flags q e l s [c] \<noteq> None"
  by (auto split: if_splits)

lemma value_flags_steps:
  assumes "value_flags q e l s v = Some (q', e', l', s')" "var \<noteq> []"
  shows "dsteps (inside b pd path vars var datum True q e l s) v (inside b pd path vars var (datum @ v) True q' e' l' s')"
  using assms(1)
proof (induction v arbitrary: q e l s datum)
  case Nil
  then show ?case by (auto intro: dsteps_Nil)
next
  case (Cons c cs)
  have h: "value_flags q e l s [c] \<noteq> None" by (rule value_flags_head [of q e l s c cs]) (use Cons.prems in simp)
  obtain q1 e1 l1 s1 where 1: "value_flags q e l s (c # cs) = value_flags q1 e1 l1 s1 cs"
      "dict_step (inside b pd path vars var datum True q e l s) c = Inr (False, inside b pd path vars var (datum @ [c]) True q1 e1 l1 s1)"
    using value_flags_step [OF h assms(2)] by blast
  have "dsteps (inside b pd path vars var (datum @ [c]) True q1 e1 l1 s1) cs (inside b pd path vars var ((datum @ [c]) @ cs) True q' e' l' s')"
    by (rule Cons.IH) (use Cons.prems 1(1) in simp)
  then show ?case using dsteps_Cons [OF 1(2)] by simp
qed

lemma value_steps:
  assumes "value_scan q e l s v" "var \<noteq> []"
  shows "\<exists>s'. dsteps (inside b pd path vars var datum True q e l s) v (inside b pd path vars var (datum @ v) True False False False s')"
  using assms value_flags_steps unfolding value_scan_flags by blast

section \<open>Separators\<close>

lemma equals_step:
  "dsteps (inside b pd path vars [] n True False e False False) (lit '' = '') (inside b pd path vars n [] True False e False False)"
  by (simp add: dsteps_def lit_def step_defs inside_def)

lemma semicolon_step:
  "var \<noteq> [] \<Longrightarrow> dsteps (inside b pd path vars var datum True False e l s) [SEMICOLON] (inside b pd path (put var datum vars) [] [] True False e l False)"
  by (simp add: dsteps_def step_defs inside_def flushCurrVariable_def)

lemma brace_step:
  "var \<noteq> [] \<Longrightarrow> dsteps (inside b pd path vars var datum True False e l s) [RBRACE] (inside b pd path (put var datum vars) [] [] False False e l False)"
  by (simp add: dsteps_def step_defs inside_def flushCurrVariable_def)

lemma open_vars_step:
  "dsteps (inside b pd [] vars var datum False False e l s) [LBRACE] (inside b pd datum vars var [] True False e l False)"
  by (simp add: dsteps_def step_defs inside_def flushCurrPath_def)

lemma blank_step_skipped:
  "c \<in> {SPACE, TAB} \<Longrightarrow> dsteps (inside b pd path vars var datum ve False e False False) [c] (inside b pd path vars var datum ve False e False False)"
  using blank_skipped [of c] by (intro dsteps_one) blast

definition pending :: "pstate \<Rightarrow> prefab list \<Rightarrow> prefab \<Rightarrow> pstate \<Rightarrow> bool" where
  "pending b pd p st \<longleftrightarrow> (\<exists>path vars datum s. st = inside b pd path vars [] datum False False False False s \<and>
     (if vars = [] then path = [] \<and> datum = pf_path p \<and> pf_vars p = [] else path = pf_path p \<and> vars = pf_vars p \<and> datum = []))"

lemma flush_pending:
  assumes "if vars = [] then path = [] \<and> datum = pf_path p \<and> pf_vars p = [] else path = pf_path p \<and> vars = pf_vars p \<and> datum = []"
  shows "flush_prefab (inside b pd path vars [] datum False False False False s) = inside b (pd @ [p]) [] [] [] [] False False False False s"
  using assms
  by (cases p; cases "vars = []"; cases "datum = []"; cases "path = []")
    (simp_all add: flush_prefab_def flushCurrPrefab_def flushCurrPath_def inside_def)

lemma comma_step:
  assumes "pending b pd p st"
  shows "dsteps st [COMMA] (inside b (pd @ [p]) [] [] [] [] False False False False False)"
proof -
  have "dict_step (inside b pd path vars [] datum False False False False s) COMMA =
      Inr (False, flush_prefab (inside b pd path vars [] datum False False False False False))" for path vars datum s
    by (simp add: step_defs inside_def)
  then show ?thesis using assms flush_pending by (auto simp: pending_def dsteps_def simp del: if_split)
qed

lemma close_step:
  assumes "pending b pd p st"
  shows "dsteps st [RPAREN] (between (b\<lparr>ps_dict := set_entry (curr_key b) (pd @ [p]) (ps_dict b)\<rparr>))"
proof -
  have "dict_step (inside b pd path vars [] datum False False False False s) RPAREN =
      Inr (False, close_definition (inside b pd path vars [] datum False False False False False))" for path vars datum s
    by (simp add: step_defs inside_def)
  moreover have "close_definition (inside b pd path vars [] datum False False False False False) =
      between (b\<lparr>ps_dict := set_entry (curr_key b) (pd @ [p]) (ps_dict b)\<rparr>)"
    if "if vars = [] then path = [] \<and> datum = pf_path p \<and> pf_vars p = [] else path = pf_path p \<and> vars = pf_vars p \<and> datum = []"
    for path vars datum
    unfolding close_definition_def flush_pending [OF that] Let_def by (simp add: inside_def between_def)
  ultimately show ?thesis using assms by (auto simp: pending_def dsteps_def simp del: if_split)
qed

section \<open>Variables\<close>

lemma var_steps:
  assumes "name_ok n" "value_ok v"
  shows "\<exists>s. dsteps (inside b pd path vars [] [] True False False False False) (n @ lit '' = '' @ v)
    (inside b pd path vars n v True False False False s)"
proof -
  have n: "dsteps (inside b pd path vars [] [] True False False False False) n (inside b pd path vars [] ([] @ n) True False False False False)"
    using assms(1) by (intro name_steps) (simp_all add: name_ok_def)
  have "n \<noteq> []" "value_scan False False False False v" using assms by (simp_all add: name_ok_def value_ok_def)
  then obtain s where "dsteps (inside b pd path vars n [] True False False False False) v
      (inside b pd path vars n ([] @ v) True False False False s)"
    using value_steps by blast
  then show ?thesis using dsteps_trans [OF n dsteps_trans [OF equals_step [of b pd path vars "[] @ n" False]]] by auto
qed

lemma put_new: "n \<notin> fst ` set vars \<Longrightarrow> put n v vars = vars @ [(n, v)]"
  by (induction vars) auto

lemma dm_vars_steps:
  assumes "vs \<noteq> []" "distinct (map fst (vars @ vs))" "\<forall>(n, v)\<in>set vs. name_ok n \<and> value_ok v"
  shows "dsteps (inside b pd path vars [] [] True False False False False) (dm_vars vs @ [RBRACE])
    (inside b pd path (vars @ vs) [] [] False False False False False)"
  using assms
proof (induction vs arbitrary: vars)
  case (Cons nv vs)
  obtain n v where nv: "nv = (n, v)" by force
  have ok: "name_ok n" "value_ok v" "n \<noteq> []" "n \<notin> fst ` set vars" using Cons.prems nv by (auto simp: name_ok_def)
  obtain s where s: "dsteps (inside b pd path vars [] [] True False False False False) (n @ lit '' = '' @ v)
      (inside b pd path vars n v True False False False s)"
    using var_steps [OF ok(1,2)] by blast
  show ?case
  proof (cases "vs = []")
    case True
    then show ?thesis using dsteps_trans [OF s brace_step [OF ok(3)]] by (simp add: nv put_new [OF ok(4)])
  next
    case False
    have sep: "dsteps (inside b pd path vars n v True False False False s) ([SEMICOLON] @ [SPACE])
        (inside b pd path (vars @ [(n, v)]) [] [] True False False False False)"
      unfolding put_new [OF ok(4), of v, symmetric] by (rule dsteps_trans [OF semicolon_step [OF ok(3)] blank_step_skipped]) simp
    have rest: "dsteps (inside b pd path (vars @ [(n, v)]) [] [] True False False False False) (dm_vars vs @ [RBRACE])
        (inside b pd path ((vars @ [(n, v)]) @ vs) [] [] False False False False False)"
      using False Cons.prems nv by (intro Cons.IH) auto
    show ?thesis
      using dsteps_trans [OF s dsteps_trans [OF sep rest]] False by (simp add: nv lit_def)
  qed
qed simp

lemma tgm_vars_steps:
  assumes "lb \<in> {[NL], [CR, NL]}" "vs \<noteq> []" "distinct (map fst (vars @ vs))" "\<forall>(n, v)\<in>set vs. name_ok n \<and> value_ok v"
  shows "dsteps (inside b pd path vars [] [] True False False False False) (tgm_vars lb vs @ [TAB, RBRACE])
    (inside (nls lb (length vs) b) pd path (vars @ vs) [] [] False False False False False)"
  using assms(2-)
proof (induction vs arbitrary: vars b)
  case (Cons nv vs)
  obtain n v where nv: "nv = (n, v)" by force
  have ok: "name_ok n" "value_ok v" "n \<noteq> []" "n \<notin> fst ` set vars" using Cons.prems nv by (auto simp: name_ok_def)
  obtain s where s: "dsteps (inside b pd path vars [] [] True False False False False) ([TAB] @ n @ lit '' = '' @ v)
      (inside b pd path vars n v True False False False s)"
    using var_steps [OF ok(1,2)] blank_step_skipped [of TAB] by (blast intro: dsteps_trans)
  note lb = line_break_inside [OF assms(1)]
  show ?case
  proof (cases "vs = []")
    case True
    have "dsteps (inside b pd path vars n v True False False False s) (lb @ [TAB] @ [RBRACE])
        (inside (nls lb 1 b) pd path (vars @ [(n, v)]) [] [] False False False False False)"
      unfolding put_new [OF ok(4), of v, symmetric] by (rule dsteps_trans [OF lb dsteps_trans [OF blank_step_skipped brace_step [OF ok(3)]]]) simp
    from dsteps_trans [OF s this] show ?thesis using True by (simp add: nv)
  next
    case False
    have sep: "dsteps (inside b pd path vars n v True False False False s) ([SEMICOLON] @ lb)
        (inside (nls lb 1 b) pd path (vars @ [(n, v)]) [] [] True False False False False)"
      unfolding put_new [OF ok(4), of v, symmetric] by (rule dsteps_trans [OF semicolon_step [OF ok(3)] lb])
    have rest: "dsteps (inside (nls lb 1 b) pd path (vars @ [(n, v)]) [] [] True False False False False) (tgm_vars lb vs @ [TAB, RBRACE])
        (inside (nls lb (length vs) (nls lb 1 b)) pd path ((vars @ [(n, v)]) @ vs) [] [] False False False False False)"
      using False Cons.prems nv by (intro Cons.IH) auto
    show ?thesis
      using dsteps_trans [OF s dsteps_trans [OF sep rest]] False by (simp add: nv nls_nls)
  qed
qed simp


section \<open>Prefabs and definitions\<close>

lemma path_pending:
  assumes "path_ok p"
  shows "\<exists>s. dsteps (inside b pd [] [] [] [] False False False False False) p (inside b pd [] [] [] p False False False False s)"
  using path_steps [of False p b pd "[]" "[]" "[]" "[]"] assms by (auto simp: path_ok_def)

lemma dm_prefab_steps:
  assumes "prefab_ok p"
  shows "\<exists>st. pending b pd p st \<and> dsteps (inside b pd [] [] [] [] False False False False False)
    (pf_path p @ (if pf_vars p \<noteq> [] then [LBRACE] @ dm_vars (pf_vars p) @ [RBRACE] else [])) st"
proof -
  have ok: "path_ok (pf_path p)" "distinct (map fst ([] @ pf_vars p))" "\<forall>(n, v)\<in>set (pf_vars p). name_ok n \<and> value_ok v"
    using assms by (auto simp: prefab_ok_def)
  obtain s where s: "dsteps (inside b pd [] [] [] [] False False False False False) (pf_path p) (inside b pd [] [] [] (pf_path p) False False False False s)"
    using path_pending [OF ok(1)] by blast
  show ?thesis
  proof (cases "pf_vars p = []")
    case True
    then show ?thesis using s by (auto simp: pending_def)
  next
    case False
    note steps = dsteps_trans [OF s dsteps_trans [OF open_vars_step dm_vars_steps [OF False ok(2,3)]]]
    then show ?thesis using False by (fastforce simp: pending_def)
  qed
qed

lemma tgm_prefab_steps:
  assumes "lb \<in> {[NL], [CR, NL]}" "prefab_ok p"
  shows "\<exists>n st. pending (nls lb n b) pd p st \<and> dsteps (inside b pd [] [] [] [] False False False False False)
    (pf_path p @ (if pf_vars p \<noteq> [] then [LBRACE] @ lb @ tgm_vars lb (pf_vars p) @ [TAB, RBRACE] else [])) st"
proof -
  have ok: "path_ok (pf_path p)" "distinct (map fst ([] @ pf_vars p))" "\<forall>(n, v)\<in>set (pf_vars p). name_ok n \<and> value_ok v"
    using assms by (auto simp: prefab_ok_def)
  obtain s where s: "dsteps (inside b pd [] [] [] [] False False False False False) (pf_path p) (inside b pd [] [] [] (pf_path p) False False False False s)"
    using path_pending [OF ok(1)] by blast
  show ?thesis
  proof (cases "pf_vars p = []")
    case True
    then show ?thesis using s by (intro exI [of _ 0] exI [of _ "inside b pd [] [] [] (pf_path p) False False False False s"]) (auto simp: pending_def nls_0)
  next
    case False
    note steps = dsteps_trans [OF s dsteps_trans [OF open_vars_step dsteps_trans [OF line_break_inside [OF assms(1)] tgm_vars_steps [OF assms(1) False ok(2,3)]]]]
    then show ?thesis using False unfolding nls_nls by (fastforce simp: pending_def)
  qed
qed

lemma dm_prefabs_steps:
  assumes "ps \<noteq> []" "\<forall>p\<in>set ps. prefab_ok p"
  shows "dsteps (inside b pd [] [] [] [] False False False False False) (dm_prefabs ps @ [RPAREN])
    (between (b\<lparr>ps_dict := set_entry (curr_key b) (pd @ ps) (ps_dict b)\<rparr>))"
  using assms
proof (induction ps arbitrary: pd)
  case (Cons p ps)
  let ?t = "pf_path p @ (if pf_vars p \<noteq> [] then [LBRACE] @ dm_vars (pf_vars p) @ [RBRACE] else [])"
  obtain st where st: "pending b pd p st" "dsteps (inside b pd [] [] [] [] False False False False False) ?t st"
    using dm_prefab_steps [of p b pd] Cons.prems(2) by auto
  show ?case
  proof (cases "ps = []")
    case True
    then show ?thesis using dsteps_trans [OF st(2) close_step [OF st(1)]] by simp
  next
    case False
    have "dsteps (inside b (pd @ [p]) [] [] [] [] False False False False False) (dm_prefabs ps @ [RPAREN])
        (between (b\<lparr>ps_dict := set_entry (curr_key b) ((pd @ [p]) @ ps) (ps_dict b)\<rparr>))"
      using False Cons.prems by (intro Cons.IH) auto
    from dsteps_trans [OF st(2) dsteps_trans [OF comma_step [OF st(1)] this]] show ?thesis using False by simp
  qed
qed simp

lemma tgm_prefabs_steps:
  assumes "lb \<in> {[NL], [CR, NL]}" "ps \<noteq> []" "\<forall>p\<in>set ps. prefab_ok p"
  shows "\<exists>n. dsteps (inside b pd [] [] [] [] False False False False False) (tgm_prefabs lb ps @ [RPAREN])
    (between (nls lb n (b\<lparr>ps_dict := set_entry (curr_key b) (pd @ ps) (ps_dict b)\<rparr>)))"
  using assms(2-)
proof (induction ps arbitrary: pd b)
  case (Cons p ps)
  let ?t = "pf_path p @ (if pf_vars p \<noteq> [] then [LBRACE] @ lb @ tgm_vars lb (pf_vars p) @ [TAB, RBRACE] else [])"
  obtain n st where st: "pending (nls lb n b) pd p st" "dsteps (inside b pd [] [] [] [] False False False False False) ?t st"
    using tgm_prefab_steps [OF assms(1), of p b pd] Cons.prems(2) by auto
  have com: "(nls lb m b')\<lparr>ps_dict := x\<rparr> = nls lb m (b'\<lparr>ps_dict := x\<rparr>)" for m b' x by (simp add: nls_def)
  show ?case
  proof (cases "ps = []")
    case True
    have "dsteps (inside b pd [] [] [] [] False False False False False) (?t @ [RPAREN])
        (between (nls lb n (b\<lparr>ps_dict := set_entry (curr_key b) (pd @ [p]) (ps_dict b)\<rparr>)))"
      using dsteps_trans [OF st(2) close_step [OF st(1)]] by (simp only: com nls_sel)
    then show ?thesis using True by auto
  next
    case False
    let ?b = "nls lb 1 (nls lb n b)"
    have "\<exists>m. dsteps (inside ?b (pd @ [p]) [] [] [] [] False False False False False) (tgm_prefabs lb ps @ [RPAREN])
        (between (nls lb m (?b\<lparr>ps_dict := set_entry (curr_key ?b) ((pd @ [p]) @ ps) (ps_dict ?b)\<rparr>)))"
      using False Cons.prems by (intro Cons.IH) auto
    then obtain m where "dsteps (inside ?b (pd @ [p]) [] [] [] [] False False False False False) (tgm_prefabs lb ps @ [RPAREN])
        (between (nls lb (n + 1 + m) (b\<lparr>ps_dict := set_entry (curr_key b) (pd @ p # ps) (ps_dict b)\<rparr>)))"
      by (auto simp only: com nls_sel nls_nls append_assoc append_Cons append_Nil)
    from dsteps_trans [OF st(2) dsteps_trans [OF dsteps_trans [OF comma_step [OF st(1)] line_break_inside [OF assms(1)]] this]]
    show ?thesis using False by (intro exI [of _ "n + 1 + m"]) simp
  qed
qed simp

lemma key_text:
  assumes "key_ok kl k" "ps_key_length b = 0 \<or> ps_key_length b = kl" "1 \<le> kl"
  shows "dsteps (between b) ([QUOTE] @ k @ [QUOTE] @ lit '' = ('')
    (inside (b\<lparr>definition_line := line_no b, ps_key_length := kl, curr_key := k\<rparr>) [] [] [] [] [] False False False False False)"
proof -
  let ?k = "\<lambda>ks. (between b)\<lparr>definition_line := line_no b, in_key := True, after_data := False, curr_key := ks\<rparr>"
  have keys: "dsteps (?k pre) xs (?k (pre @ xs))" if "\<forall>c\<in>set xs. c \<notin> {NL, CR, SPACE, TAB, QUOTE, SLASH}" for xs pre
    using that
  proof (induction xs arbitrary: pre)
    case (Cons c xs)
    have "dict_step (?k pre) c = Inr (False, ?k (pre @ [c]))"
      using Cons.prems by (simp add: step_defs key_step_def between_def)
    then show ?case using Cons.IH [of "pre @ [c]"] Cons.prems by (auto intro: dsteps_Cons)
  qed (simp add: dsteps_Nil)
  have "dsteps (?k []) k (?k k)" using keys [of k "[]"] assms(1) by (simp add: key_ok_def)
  moreover have "dsteps (between b) [QUOTE] (?k [])"
    by (simp add: dsteps_def step_defs between_def)
  moreover have "dict_step (?k k) QUOTE = Inr (False, (?k k)\<lparr>in_key := False, ps_key_length := kl\<rparr>)"
  proof -
    have "length k = kl" using assms(1) by (simp add: key_ok_def)
    then show ?thesis using assms(2,3) by (elim disjE) (simp_all add: step_defs key_step_def between_def)
  qed
  moreover have "dsteps ((?k k)\<lparr>in_key := False, ps_key_length := kl\<rparr>) (lit '' = ('')
      (inside (b\<lparr>definition_line := line_no b, ps_key_length := kl, curr_key := k\<rparr>) [] [] [] [] [] False False False False False)"
    by (simp add: dsteps_def lit_def step_defs between_def inside_def)
  ultimately show ?thesis by (simp add: dsteps_def)
qed

lemma dm_definition:
  assumes "key_ok kl k" "1 \<le> kl" "ps \<noteq> []" "\<forall>p\<in>set ps. prefab_ok p" "ps_key_length b = 0 \<or> ps_key_length b = kl"
  shows "dsteps (between b) (toDMStr k ps)
    (between (b\<lparr>definition_line := line_no b, ps_key_length := kl, ps_dict := set_entry k ps (ps_dict b)\<rparr>))"
  using dsteps_trans [OF key_text [OF assms(1,5,2)] dm_prefabs_steps [OF assms(3,4)]]
  by (simp add: toDMStr_def lit_def between_def)

lemma tgm_definition:
  assumes "lb \<in> {[NL], [CR, NL]}" "key_ok kl k" "1 \<le> kl" "ps \<noteq> []" "\<forall>p\<in>set ps. prefab_ok p" "ps_key_length b = 0 \<or> ps_key_length b = kl"
  shows "\<exists>n. dsteps (between b) (toTGMStr k ps lb)
    (between (nls lb n (b\<lparr>definition_line := line_no b, ps_key_length := kl, ps_dict := set_entry k ps (ps_dict b)\<rparr>)))"
proof -
  let ?b = "b\<lparr>definition_line := line_no b, ps_key_length := kl, curr_key := k\<rparr>"
  obtain n where n: "dsteps (inside (nls lb 1 ?b) [] [] [] [] [] False False False False False) (tgm_prefabs lb ps @ [RPAREN])
      (between (nls lb n ((nls lb 1 ?b)\<lparr>ps_dict := set_entry (curr_key (nls lb 1 ?b)) ([] @ ps) (ps_dict (nls lb 1 ?b))\<rparr>)))"
    using tgm_prefabs_steps [OF assms(1,4,5)] by blast
  have "between (nls lb n ((nls lb 1 ?b)\<lparr>ps_dict := set_entry (curr_key (nls lb 1 ?b)) ([] @ ps) (ps_dict (nls lb 1 ?b))\<rparr>)) =
      between (nls lb (1 + n) (b\<lparr>definition_line := line_no b, ps_key_length := kl, ps_dict := set_entry k ps (ps_dict b)\<rparr>))"
    by (simp add: between_def nls_def)
  then show ?thesis
    using dsteps_trans [OF key_text [OF assms(2,6,3)] dsteps_trans [OF line_break_inside [OF assms(1)] n]]
    by (intro exI [of _ "1 + n"]) (simp add: toTGMStr_def)
qed

section \<open>The dictionary\<close>

text \<open>What the first loop has after some definitions: \<open>dict\<close> as read, the key length once known, the
  line break once seen.\<close>

definition read_upto :: "runes \<Rightarrow> bool \<Rightarrow> nat \<Rightarrow> (key \<times> prefab list) list \<Rightarrow> bool \<Rightarrow> pstate \<Rightarrow> bool" where
  "read_upto lb tgm kl dict broken b \<longleftrightarrow> ps_tgm b = tgm \<and> ps_dict b = dict \<and>
     (if dict = [] then ps_key_length b = 0 else ps_key_length b = kl) \<and> ps_break b = (if broken then lb else [NL])"

lemma read_upto_break:
  assumes "read_upto lb tgm kl dict broken b" "lb \<in> {[NL], [CR, NL]}"
  shows "read_upto lb tgm kl dict (broken \<or> 0 < n) (nls lb n b)"
  using assms by (auto simp: read_upto_def nls_def)

lemma set_entry_new: "k \<notin> fst ` set dict \<Longrightarrow> set_entry k ps dict = dict @ [(k, ps)]"
  by (simp add: set_entry_def)

lemma set_entry_set:
  assumes "distinct (map fst d)"
  shows "set (set_entry k ps d) = insert (k, ps) {e \<in> set d. fst e \<noteq> k}" "distinct (map fst (set_entry k ps d))"
    "map_of (set_entry k ps d) = (map_of d)(k \<mapsto> ps)"
proof -
  show s: "set (set_entry k ps d) = insert (k, ps) {e \<in> set d. fst e \<noteq> k}"
    by (auto simp: set_entry_def image_iff Bex_def)
  have "map fst (map (\<lambda>(l, qs). (l, if l = k then ps else qs)) d) = map fst d" by (induction d) auto
  then have "map fst (set_entry k ps d) = (if k \<in> fst ` set d then map fst d else map fst d @ [k])" unfolding set_entry_def by simp
  then show d: "distinct (map fst (set_entry k ps d))" using assms by simp
  have "map_of (set_entry k ps d) l = Some qs \<longleftrightarrow> ((map_of d)(k \<mapsto> ps)) l = Some qs" for l qs
    using assms d s by (auto simp: map_of_eq_Some_iff split: if_splits)
  then show "map_of (set_entry k ps d) = (map_of d)(k \<mapsto> ps)" by (intro ext) (metis not_Some_eq)
qed

lemma dictionary_steps:
  assumes lb: "lb \<in> {[NL], [CR, NL]}"
    and step: "\<And>k b dict broken. k \<in> set ks \<Longrightarrow> read_upto lb tgm kl dict broken b \<Longrightarrow>
      \<exists>n b'. dsteps (between b) (def_text k) (between (nls lb n b')) \<and> read_upto lb tgm kl (set_entry k (entry k) dict) broken b'"
    and "read_upto lb tgm kl dict broken b" "distinct (map fst dict @ ks)"
  shows "\<exists>b'. dsteps (between b) (concat (map (\<lambda>k. def_text k @ lb) ks)) (between b') \<and>
    read_upto lb tgm kl (dict @ map (\<lambda>k. (k, entry k)) ks) (broken \<or> ks \<noteq> []) b'"
  using assms(2-)
proof (induction ks arbitrary: b dict broken)
  case Nil
  then show ?case by (auto intro: dsteps_Nil)
next
  case (Cons k ks)
  obtain n b1 where b1: "dsteps (between b) (def_text k) (between (nls lb n b1))" "read_upto lb tgm kl (set_entry k (entry k) dict) broken b1"
    using Cons.prems(1) [OF _ Cons.prems(2), of k] by auto
  have s: "dsteps (between b) (def_text k @ lb) (between (nls lb (n + 1) b1))"
    using dsteps_trans [OF b1(1) line_break_between [OF lb]] by (simp add: nls_nls)
  have r: "read_upto lb tgm kl (dict @ [(k, entry k)]) True (nls lb (n + 1) b1)"
    using read_upto_break [OF b1(2) lb, of "n + 1"] Cons.prems(3) set_entry_new [of k dict] by (auto simp: image_iff)
  have "\<exists>b'. dsteps (between (nls lb (n + 1) b1)) (concat (map (\<lambda>k. def_text k @ lb) ks)) (between b') \<and>
      read_upto lb tgm kl ((dict @ [(k, entry k)]) @ map (\<lambda>k. (k, entry k)) ks) (True \<or> ks \<noteq> []) b'"
    using Cons.prems(1,3) by (intro Cons.IH r) auto
  then show ?case using dsteps_trans [OF s] by fastforce
qed

end
