(* ===== verification/Dmm_Grid_Chunks.thy ===== *)
theory Dmm_Grid_Chunks
  imports Dmm_Chunks
begin

text \<open>
  What the second loop of the parser does with the text of a grid, and what the final turning of the
  rows gives.
\<close>

section \<open>Runs of the second loop\<close>

definition gsteps :: "nat \<Rightarrow> gstate \<Rightarrow> runes \<Rightarrow> gstate \<Rightarrow> bool" where
  "gsteps kl g xs g' \<longleftrightarrow> (\<forall>rest. grid_loop kl g (xs @ rest) = grid_loop kl g' rest)"

lemma gsteps_Nil: "gsteps kl g [] g"
  by (simp add: gsteps_def)

lemma gsteps_trans: "gsteps kl g xs g' \<Longrightarrow> gsteps kl g' ys g'' \<Longrightarrow> gsteps kl g (xs @ ys) g''"
  by (simp add: gsteps_def)

lemmas grid_defs = grid_step_def coord_step_def map_step_def finishLine_def Let_def

lemma wrap64_id: "- 9223372036854775808 \<le> n \<Longrightarrow> n < 9223372036854775808 \<Longrightarrow> wrap64 n = n"
  by (simp add: wrap64_def)

text \<open>The points a text has filled so far: \<open>overlay S F\<close> writes \<open>F\<close> on the points of \<open>S\<close>.\<close>

definition overlay :: "point set \<Rightarrow> (point \<Rightarrow> key) \<Rightarrow> (point \<Rightarrow> key option) \<Rightarrow> point \<Rightarrow> key option" where
  "overlay S F g = (\<lambda>p. if p \<in> S then Some (F p) else g p)"

lemma overlay_overlay: "overlay S F (overlay T F g) = overlay (T \<union> S) F g"
  by (auto simp: overlay_def)

lemma overlay_upd: "(overlay S F g)(p \<mapsto> F p) = overlay (insert p S) F g"
  by (auto simp: overlay_def)

text \<open>A state of the second loop, field by field.\<close>

definition gst :: "runes \<Rightarrow> int \<Rightarrow> axis \<Rightarrow> int \<Rightarrow> int \<Rightarrow> int \<Rightarrow> int \<Rightarrow> int \<Rightarrow> bool \<Rightarrow> bool \<Rightarrow> runes \<Rightarrow> int \<Rightarrow> int \<Rightarrow> int \<Rightarrow> (point \<Rightarrow> key option) \<Rightarrow> gstate" where
  "gst br ln ax x y z num bx ic im key mx my mz g = \<lparr>gs_break = br, gs_line = ln, reading_axis = ax, curr_x = x, curr_y = y, curr_z = z,
     curr_num = num, base_x = bx, in_coord = ic, in_map = im, gs_key = key, gs_max_x = mx, gs_max_y = my, gs_max_z = mz, gs_grid = g\<rparr>"

lemma lit_digit: "d < 10 \<Longrightarrow> lit [char_of (48 + d)] = [48 + int d]" for d :: nat
  using of_nat_of_char [of "char_of (48 + d)", where ?'a = int] by (simp add: lit_def)

lemma digit_step:
  assumes "d < 10" "0 \<le> num" "10 * num + int d < 9223372036854775808"
  shows "gsteps kl (gst br ln ax x y z num bx True im key mx my mz g) [48 + int d] (gst br ln ax x y z (10 * num + int d) bx True im key mx my mz g)"
  using assms by (simp add: gsteps_def grid_defs gst_def wrap64_id)

lemma digit_steps:
  assumes "int n < 9223372036854775808"
  shows "gsteps kl (gst br ln ax x y z 0 bx True im key mx my mz g) (lit (decimal n)) (gst br ln ax x y z (int n) bx True im key mx my mz g)"
  using assms
proof (induction n rule: decimal.induct)
  case (1 n)
  show ?case
  proof (cases "n < 10")
    case True
    then show ?thesis using digit_step [of n 0] 1 by (subst decimal.simps) (simp add: lit_digit)
  next
    case False
    have n: "10 * int (n div 10) + int (n mod 10) = int n" by presburger
    have d: "decimal n = decimal (n div 10) @ [char_of (48 + n mod 10)]" using False by (subst decimal.simps) simp
    have IH: "gsteps kl (gst br ln ax x y z 0 bx True im key mx my mz g) (lit (decimal (n div 10)))
        (gst br ln ax x y z (int (n div 10)) bx True im key mx my mz g)" using 1 False by simp
    have "gsteps kl (gst br ln ax x y z (int (n div 10)) bx True im key mx my mz g) [48 + int (n mod 10)]
        (gst br ln ax x y z (int n) bx True im key mx my mz g)"
      using digit_step [of "n mod 10" "int (n div 10)"] 1(2) unfolding n by simp
    from gsteps_trans [OF IH this] show ?thesis
      using lit_digit [of "n mod 10"] by (simp add: d lit_def)
  qed
qed

lemma number_steps:
  assumes "0 \<le> n" "n < 9223372036854775808"
  shows "gsteps kl (gst br ln ax x y z 0 bx True im key mx my mz g) (itoa n) (gst br ln ax x y z n bx True im key mx my mz g)"
  using digit_steps [of "nat n"] assms by (simp add: itoa_def signed_decimal_def)

lemma coord_steps:
  assumes "0 \<le> x" "x < 9223372036854775808" "0 \<le> z" "z < 9223372036854775808"
  shows "gsteps kl (gst br ln AxisX x0 y0 z0 0 b0 True False [] mx my mz g) (itoa x @ lit '',1,'' @ itoa z @ lit '') = {'' @ [QUOTE])
    (gst br ln AxisX x 1 z 0 x False True [] mx my (max mz z) g)"
proof -
  have "gsteps kl (gst br ln AxisX x0 y0 z0 x b0 True False [] mx my mz g) (lit '',1,'') (gst br ln AxisZ x 1 z0 0 x True False [] mx my mz g)"
    by (simp add: gsteps_def lit_def grid_defs gst_def wrap64_id)
  moreover have "gsteps kl (gst br ln AxisZ x 1 z0 z x True False [] mx my mz g) (lit '') = {'' @ [QUOTE]) (gst br ln AxisX x 1 z 0 x False True [] mx my (max mz z) g)"
    by (simp add: gsteps_def lit_def grid_defs gst_def)
  ultimately show ?thesis
    using number_steps [OF assms(1,2)] number_steps [OF assms(3,4)] by (meson gsteps_trans)
qed

lemma key_steps:
  assumes "key_ok kl k" "1 \<le> kl" "0 \<le> x" "x < 9223372036854775807"
  shows "gsteps kl (gst br ln ax x y z num bx False True [] mx my mz g) k
    (gst br ln ax (x + 1) y z num bx False True [] mx my mz (g((x, y, z) \<mapsto> k)))"
proof -
  have "gsteps kl (gst br ln ax x y z num bx False True pre mx my mz g) xs
      (gst br ln ax (x + 1) y z num bx False True [] mx my mz (g((x, y, z) \<mapsto> pre @ xs)))"
    if "xs \<noteq> []" "length (pre @ xs) = kl" "\<forall>c\<in>set xs. c \<notin> {NL, CR, QUOTE}" for pre xs
    using that
  proof (induction xs arbitrary: pre)
    case (Cons c xs)
    show ?case
    proof (cases "xs = []")
      case True
      then show ?thesis using Cons.prems assms(3,4) by (simp add: gsteps_def grid_defs gst_def wrap64_id fun_upd_def)
    next
      case False
      then have "Suc (length pre) \<noteq> kl" using Cons.prems(2) by auto
      then have "gsteps kl (gst br ln ax x y z num bx False True pre mx my mz g) [c] (gst br ln ax x y z num bx False True (pre @ [c]) mx my mz g)"
        using Cons.prems by (simp add: gsteps_def grid_defs gst_def)
      from gsteps_trans [OF this Cons.IH [of "pre @ [c]"]] show ?thesis using False Cons.prems by simp
    qed
  qed simp
  note go = this
  have "gsteps kl (gst br ln ax x y z num bx False True [] mx my mz g) k
      (gst br ln ax (x + 1) y z num bx False True [] mx my mz (g((x, y, z) \<mapsto> [] @ k)))"
  proof (rule go)
    have k: "length k = kl" "\<forall>c\<in>set k. c \<notin> {NL, CR, SPACE, TAB, QUOTE, SLASH}" using assms(1) unfolding key_ok_def by blast+
    show "k \<noteq> []" "length ([] @ k) = kl" using k(1) assms(2) by auto
    show "\<forall>c\<in>set k. c \<notin> {NL, CR, QUOTE}" using k(2) by blast
  qed
  then show ?thesis by simp
qed

text \<open>A row that reads \<open>F\<close> from \<open>x\<close> to \<open>mx'\<close>.\<close>

lemma row_keys_steps:
  assumes "\<forall>a\<in>{x..x'}. key_ok kl (F (a, y, z))" "1 \<le> kl" "0 \<le> x" "x \<le> x' + 1" "x' < 9223372036854775807"
  shows "gsteps kl (gst br ln ax x y z num bx False True [] mx my mz g) (concat (map (\<lambda>a. F (a, y, z)) [x..x']))
    (gst br ln ax (x' + 1) y z num bx False True [] mx my mz (overlay ({x..x'} \<times> {y} \<times> {z}) F g))"
  using assms(1,3,4)
proof (induction "nat (x' + 1 - x)" arbitrary: x g)
  case 0
  then have "x = x' + 1" by simp
  then show ?case by (simp add: overlay_def gsteps_Nil)
next
  case (Suc n)
  then have le: "x \<le> x'" by simp
  have 1: "gsteps kl (gst br ln ax x y z num bx False True [] mx my mz g) (F (x, y, z))
      (gst br ln ax (x + 1) y z num bx False True [] mx my mz (overlay {(x, y, z)} F g))"
  proof -
    have e: "overlay {(x, y, z)} F g = g((x, y, z) \<mapsto> F (x, y, z))" by (auto simp: overlay_def fun_upd_def)
    show ?thesis unfolding e using Suc.prems assms(2,5) le by (intro key_steps) auto
  qed
  have S: "{(x, y, z)} \<union> {x + 1..x'} \<times> {y} \<times> {z} = {x..x'} \<times> {y} \<times> {z}" using le by auto
  have "gsteps kl (gst br ln ax (x + 1) y z num bx False True [] mx my mz (overlay {(x, y, z)} F g)) (concat (map (\<lambda>a. F (a, y, z)) [x + 1..x']))
      (gst br ln ax (x' + 1) y z num bx False True [] mx my mz (overlay ({x + 1..x'} \<times> {y} \<times> {z}) F (overlay {(x, y, z)} F g)))"
    using Suc.prems Suc.hyps(2) le by (intro Suc.hyps(1)) auto
  from gsteps_trans [OF 1 this [unfolded overlay_overlay S]] show ?case using le by (simp add: upto_rec1)
qed

lemma row_end_steps:
  assumes "lb \<in> {[NL], [CR, NL]}" "x \<noteq> bx" "- 9223372036854775808 < x" "x < 9223372036854775808" "0 \<le> y" "y < 9223372036854775807"
  shows "gsteps kl (gst lb ln ax x y z num bx False True [] mx my mz g) lb
    (gst lb (ln + 1) ax bx (y + 1) z num bx False True [] (max mx (x - 1)) my mz g)"
  using assms by (auto simp: gsteps_def grid_defs gst_def wrap64_id)

lemma first_line_steps:
  assumes "lb \<in> {[NL], [CR, NL]}"
  shows "gsteps kl (gst lb ln ax x y z num x False True [] mx my mz g) lb
    (gst lb (ln + 1) ax x y z num x False True [] mx my mz g)"
  using assms by (auto simp: gsteps_def grid_defs gst_def)

lemma close_map_steps:
  assumes "- 9223372036854775808 < y" "y < 9223372036854775808"
  shows "gsteps kl (gst br ln ax x y z num x False True [] mx my mz g) [QUOTE, RBRACE]
    (gst br ln ax x y z num x False False [] mx (max my (y - 1)) mz g)"
  using assms by (auto simp: gsteps_def grid_defs gst_def wrap64_id)

lemma outside_line_steps:
  assumes "lb \<in> {[NL], [CR, NL]}"
  shows "gsteps kl (gst br ln ax x y z num bx False False [] mx my mz g) lb (gst br (ln + 1) ax x y z num bx False False [] mx my mz g)"
  using assms by (auto simp: gsteps_def grid_defs gst_def)

lemma open_coord_steps:
  "gsteps kl (gst br ln ax x y z num bx False False [] mx my mz g) [LPAREN] (gst br ln ax x y z num bx True False [] mx my mz g)"
  by (simp add: gsteps_def grid_defs gst_def)


lemma rows_steps:
  assumes "lb \<in> {[NL], [CR, NL]}" "\<forall>a\<in>{x..x'}. \<forall>b\<in>{y..y'}. key_ok kl (F (a, b, z))" "1 \<le> kl"
    "0 \<le> x" "x \<le> x'" "x' < 9223372036854775807" "0 \<le> y" "y \<le> y' + 1" "y' < 9223372036854775807"
  shows "\<exists>ln'. gsteps kl (gst lb ln ax x y z num x False True [] mx my mz g)
      (concat (map (\<lambda>b. concat (map (\<lambda>a. F (a, b, z)) [x..x']) @ lb) [y..y']))
    (gst lb ln' ax x (y' + 1) z num x False True [] (if y \<le> y' then max mx x' else mx) my mz (overlay ({x..x'} \<times> {y..y'} \<times> {z}) F g))"
  using assms(2,7,8)
proof (induction "nat (y' + 1 - y)" arbitrary: y g mx ln)
  case 0
  then have "y = y' + 1" by simp
  then show ?case by (auto simp: overlay_def intro: gsteps_Nil)
next
  case (Suc n)
  then have le: "y \<le> y'" by simp
  have row: "gsteps kl (gst lb ln ax x y z num x False True [] mx my mz g) (concat (map (\<lambda>a. F (a, y, z)) [x..x']))
      (gst lb ln ax (x' + 1) y z num x False True [] mx my mz (overlay ({x..x'} \<times> {y} \<times> {z}) F g))"
    using Suc.prems assms le by (intro row_keys_steps) auto
  have "gsteps kl (gst lb ln ax (x' + 1) y z num x False True [] mx my mz (overlay ({x..x'} \<times> {y} \<times> {z}) F g)) lb
      (gst lb (ln + 1) ax x (y + 1) z num x False True [] (max mx (x' + 1 - 1)) my mz (overlay ({x..x'} \<times> {y} \<times> {z}) F g))"
    using Suc.prems assms le by (intro row_end_steps) auto
  note row = gsteps_trans [OF row this]
  have S: "{x..x'} \<times> {y} \<times> {z} \<union> {x..x'} \<times> {y + 1..y'} \<times> {z} = {x..x'} \<times> {y..y'} \<times> {z}" using le by auto
  have m: "(if y + 1 \<le> y' then max (max mx (x' + 1 - 1)) x' else max mx (x' + 1 - 1)) = (if y \<le> y' then max mx x' else mx)" using le by simp
  have "\<exists>ln'. gsteps kl (gst lb (ln + 1) ax x (y + 1) z num x False True [] (max mx (x' + 1 - 1)) my mz (overlay ({x..x'} \<times> {y} \<times> {z}) F g))
      (concat (map (\<lambda>b. concat (map (\<lambda>a. F (a, b, z)) [x..x']) @ lb) [y + 1..y']))
      (gst lb ln' ax x (y' + 1) z num x False True [] (if y + 1 \<le> y' then max (max mx (x' + 1 - 1)) x' else max mx (x' + 1 - 1)) my mz
        (overlay ({x..x'} \<times> {y + 1..y'} \<times> {z}) F (overlay ({x..x'} \<times> {y} \<times> {z}) F g)))"
    using Suc.prems Suc.hyps(2) le by (intro Suc.hyps(1)) auto
  then obtain ln' where "gsteps kl (gst lb (ln + 1) ax x (y + 1) z num x False True [] (max mx (x' + 1 - 1)) my mz (overlay ({x..x'} \<times> {y} \<times> {z}) F g))
      (concat (map (\<lambda>b. concat (map (\<lambda>a. F (a, b, z)) [x..x']) @ lb) [y + 1..y']))
      (gst lb ln' ax x (y' + 1) z num x False True [] (if y \<le> y' then max mx x' else mx) my mz (overlay ({x..x'} \<times> {y..y'} \<times> {z}) F g))"
    unfolding overlay_overlay S m by blast
  from gsteps_trans [OF row this] show ?case using le by (auto simp: upto_rec1)
qed

text \<open>A block of rows, from its first coordinate to the brace that closes it.\<close>

lemma block_steps:
  assumes "lb \<in> {[NL], [CR, NL]}" "\<forall>a\<in>{x..x'}. \<forall>b\<in>{1..y'}. key_ok kl (F (a, b, z))" "1 \<le> kl"
    "1 \<le> x" "x \<le> x'" "x' < 9223372036854775807" "1 \<le> y'" "y' < 9223372036854775807" "0 \<le> z" "z < 9223372036854775807"
  shows "\<exists>ln' y1. gsteps kl (gst lb ln AxisX x0 y0 z0 0 b0 True False [] mx my mz g)
      (itoa x @ lit '',1,'' @ itoa z @ lit '') = {'' @ [QUOTE] @ lb @
        concat (map (\<lambda>b. concat (map (\<lambda>a. F (a, b, z)) [x..x']) @ lb) [1..y']) @ [QUOTE, RBRACE])
    (gst lb ln' AxisX x y1 z 0 x False False [] (max mx x') (max my y') (max mz z) (overlay ({x..x'} \<times> {1..y'} \<times> {z}) F g))"
proof -
  have 1: "gsteps kl (gst lb ln AxisX x0 y0 z0 0 b0 True False [] mx my mz g) (itoa x @ lit '',1,'' @ itoa z @ lit '') = {'' @ [QUOTE])
      (gst lb ln AxisX x 1 z 0 x False True [] mx my (max mz z) g)"
    using assms by (intro coord_steps) auto
  note 1 = gsteps_trans [OF 1 first_line_steps [OF assms(1)]]
  have "\<exists>ln'. gsteps kl (gst lb (ln + 1) AxisX x 1 z 0 x False True [] mx my (max mz z) g)
      (concat (map (\<lambda>b. concat (map (\<lambda>a. F (a, b, z)) [x..x']) @ lb) [1..y']))
      (gst lb ln' AxisX x (y' + 1) z 0 x False True [] (if 1 \<le> y' then max mx x' else mx) my (max mz z) (overlay ({x..x'} \<times> {1..y'} \<times> {z}) F g))"
    using assms by (intro rows_steps) auto
  then obtain ln' where 2: "gsteps kl (gst lb (ln + 1) AxisX x 1 z 0 x False True [] mx my (max mz z) g)
      (concat (map (\<lambda>b. concat (map (\<lambda>a. F (a, b, z)) [x..x']) @ lb) [1..y']))
      (gst lb ln' AxisX x (y' + 1) z 0 x False True [] (max mx x') my (max mz z) (overlay ({x..x'} \<times> {1..y'} \<times> {z}) F g))"
    using assms(7) by auto
  have 3: "gsteps kl (gst lb ln' AxisX x (y' + 1) z 0 x False True [] (max mx x') my (max mz z) (overlay ({x..x'} \<times> {1..y'} \<times> {z}) F g)) [QUOTE, RBRACE]
      (gst lb ln' AxisX x (y' + 1) z 0 x False False [] (max mx x') (max my (y' + 1 - 1)) (max mz z) (overlay ({x..x'} \<times> {1..y'} \<times> {z}) F g))"
    using assms by (intro close_map_steps) auto
  from gsteps_trans [OF 1 gsteps_trans [OF 2 3]] show ?thesis by auto
qed


section \<open>Levels\<close>

definition outside :: "runes \<Rightarrow> int \<Rightarrow> int \<Rightarrow> int \<Rightarrow> (point \<Rightarrow> key option) \<Rightarrow> gstate \<Rightarrow> bool" where
  "outside lb mx my mz G g \<longleftrightarrow> (\<exists>ln x y z b. g = gst lb ln AxisX x y z 0 b False False [] mx my mz G)"

text \<open>The text of a grid is read upside down: the row written first gets the lowest coordinate.\<close>

definition flipped :: "dmm_data \<Rightarrow> point \<Rightarrow> key" where
  "flipped d = (\<lambda>(a, b, c). grid_key d (a, max_y d + 1 - b, c))"

lemma rev_upto: "rev [1..m] = map (\<lambda>b. m + 1 - b) [1..m]"
  proof (rule nth_equalityI)
  fix i assume "i < length (rev [1..m])"
  then have i: "i < nat m" by simp
  then have "1 + int (nat m - Suc i) \<le> m" "1 + int i \<le> m" "int (nat m - Suc i) = m - 1 - int i" by linarith+
  then show "rev [1..m] ! i = map (\<lambda>b. m + 1 - b) [1..m] ! i" using i by (simp add: rev_nth nth_upto)
qed simp

lemma flipped_rows:
  "concat (map (\<lambda>y. concat (map (\<lambda>x. grid_key d (x, y, z)) xs) @ lb) (rev [1..max_y d])) =
     concat (map (\<lambda>b. concat (map (\<lambda>a. flipped d (a, b, z)) xs) @ lb) [1..max_y d])"
  by (simp add: rev_upto flipped_def comp_def)

lemma itoa_1: "itoa 1 = lit ''1''"
  using lit_digit [of 1] by (simp add: itoa_def signed_decimal_def decimal.simps) (simp add: lit_def)

lemma flipped_key_ok:
  assumes "dmm_ok d" "1 \<le> a" "a \<le> max_x d" "1 \<le> b" "b \<le> max_y d" "1 \<le> c" "c \<le> max_z d"
  shows "key_ok (key_length d) (flipped d (a, b, c))"
proof -
  have "in_box (max_x d) (max_y d) (max_z d) (a, max_y d + 1 - b, c)" using assms by (simp add: in_box_def)
  then obtain k where "grid d (a, max_y d + 1 - b, c) = Some k" "key_ok (key_length d) k"
    using assms(1) unfolding dmm_ok_def by metis
  then show ?thesis by (simp add: flipped_def grid_key_def)
qed

lemma dmm_okD:
  assumes "dmm_ok d"
  shows "line_break d \<in> {[NL], [CR, NL]}" "1 \<le> key_length d" "1 \<le> max_x d" "1 \<le> max_y d" "1 \<le> max_z d"
    "max_x d < 9223372036854775807" "max_y d < 9223372036854775807" "max_z d < 9223372036854775807"
    "dictionary d \<noteq> []" "distinct (map fst (dictionary d))"
    "(k, ps) \<in> set (dictionary d) \<Longrightarrow> key_ok (key_length d) k \<and> ps \<noteq> [] \<and> (\<forall>p\<in>set ps. prefab_ok p)"
  using assms unfolding dmm_ok_def by blast+

lemma block_outside:
  assumes "dmm_ok d" "outside (line_break d) mx my mz G g" "1 \<le> x" "x \<le> x'" "x' \<le> max_x d" "1 \<le> z" "z \<le> max_z d"
  shows "\<exists>g'. gsteps (key_length d) g ([LPAREN] @ itoa x @ lit '',1,'' @ itoa z @ lit '') = {'' @ [QUOTE] @ line_break d @
        concat (map (\<lambda>b. concat (map (\<lambda>a. flipped d (a, b, z)) [x..x']) @ line_break d) [1..max_y d]) @ [QUOTE, RBRACE]) g' \<and>
    outside (line_break d) (max mx x') (max my (max_y d)) (max mz z) (overlay ({x..x'} \<times> {1..max_y d} \<times> {z}) (flipped d) G) g'"
proof -
  note ok = dmm_okD [OF assms(1)]
  obtain ln x0 y0 z0 b0 where g: "g = gst (line_break d) ln AxisX x0 y0 z0 0 b0 False False [] mx my mz G"
    using assms(2) by (auto simp: outside_def)
  have "\<exists>ln' y1. gsteps (key_length d) (gst (line_break d) ln AxisX x0 y0 z0 0 b0 True False [] mx my mz G)
      (itoa x @ lit '',1,'' @ itoa z @ lit '') = {'' @ [QUOTE] @ line_break d @
        concat (map (\<lambda>b. concat (map (\<lambda>a. flipped d (a, b, z)) [x..x']) @ line_break d) [1..max_y d]) @ [QUOTE, RBRACE])
    (gst (line_break d) ln' AxisX x y1 z 0 x False False [] (max mx x') (max my (max_y d)) (max mz z)
      (overlay ({x..x'} \<times> {1..max_y d} \<times> {z}) (flipped d) G))"
    using assms ok(1-8) flipped_key_ok [OF assms(1)] by (intro block_steps) auto
  then obtain g' where "gsteps (key_length d) (gst (line_break d) ln AxisX x0 y0 z0 0 b0 True False [] mx my mz G)
      (itoa x @ lit '',1,'' @ itoa z @ lit '') = {'' @ [QUOTE] @ line_break d @
        concat (map (\<lambda>b. concat (map (\<lambda>a. flipped d (a, b, z)) [x..x']) @ line_break d) [1..max_y d]) @ [QUOTE, RBRACE]) g'"
    "outside (line_break d) (max mx x') (max my (max_y d)) (max mz z) (overlay ({x..x'} \<times> {1..max_y d} \<times> {z}) (flipped d) G) g'"
    unfolding outside_def by blast
  then show ?thesis unfolding g using gsteps_trans [OF open_coord_steps] by blast
qed

lemma line_outside:
  assumes "lb \<in> {[NL], [CR, NL]}" "outside lb mx my mz G g"
  shows "\<exists>g'. gsteps kl g lb g' \<and> outside lb mx my mz G g'"
  using assms(2) outside_line_steps [OF assms(1)] unfolding outside_def by blast

lemma dm_level_steps:
  assumes "dmm_ok d" "outside (line_break d) mx my mz G g" "1 \<le> z" "z \<le> max_z d"
  shows "\<exists>g'. gsteps (key_length d) g (dm_level d z) g' \<and>
    outside (line_break d) (max mx (max_x d)) (max my (max_y d)) (max mz z) (overlay ({1..max_x d} \<times> {1..max_y d} \<times> {z}) (flipped d) G) g'"
proof -
  note ok = dmm_okD [OF assms(1)]
  obtain g1 where g1: "gsteps (key_length d) g (line_break d) g1" "outside (line_break d) mx my mz G g1"
    using line_outside [OF ok(1) assms(2)] by blast
  obtain g' where g': "gsteps (key_length d) g1 ([LPAREN] @ itoa 1 @ lit '',1,'' @ itoa z @ lit '') = {'' @ [QUOTE] @ line_break d @
        concat (map (\<lambda>b. concat (map (\<lambda>a. flipped d (a, b, z)) [1..max_x d]) @ line_break d) [1..max_y d]) @ [QUOTE, RBRACE]) g'"
    "outside (line_break d) (max mx (max_x d)) (max my (max_y d)) (max mz z) (overlay ({1..max_x d} \<times> {1..max_y d} \<times> {z}) (flipped d) G) g'"
    using block_outside [OF assms(1) g1(2), of 1 "max_x d" z] ok(3) assms(3,4) by auto
  have "dm_level d z = line_break d @ [LPAREN] @ itoa 1 @ lit '',1,'' @ itoa z @ lit '') = {'' @ [QUOTE] @ line_break d @
        concat (map (\<lambda>b. concat (map (\<lambda>a. flipped d (a, b, z)) [1..max_x d]) @ line_break d) [1..max_y d]) @ [QUOTE, RBRACE]"
    unfolding dm_level_def flipped_rows itoa_1 by (simp add: lit_def)
  then show ?thesis using gsteps_trans [OF g1(1) g'(1)] g'(2) by auto
qed

lemma tgm_columns_steps:
  assumes "dmm_ok d" "outside (line_break d) mx my mz G g" "1 \<le> z" "z \<le> max_z d" "\<forall>x\<in>set xs. 1 \<le> x \<and> x \<le> max_x d" "xs \<noteq> []"
  shows "\<exists>g'. gsteps (key_length d) g (concat (map (tgm_column d z) xs)) g' \<and>
    outside (line_break d) (fold max xs mx) (max my (max_y d)) (max mz z) (overlay (set xs \<times> {1..max_y d} \<times> {z}) (flipped d) G) g'"
  using assms(2,5,6)
proof (induction xs arbitrary: mx my mz G g)
  case (Cons x xs)
  note ok = dmm_okD [OF assms(1)]
  obtain g1 where g1: "gsteps (key_length d) g ([LPAREN] @ itoa x @ lit '',1,'' @ itoa z @ lit '') = {'' @ [QUOTE] @ line_break d @
        concat (map (\<lambda>b. concat (map (\<lambda>a. flipped d (a, b, z)) [x..x]) @ line_break d) [1..max_y d]) @ [QUOTE, RBRACE]) g1"
    "outside (line_break d) (max mx x) (max my (max_y d)) (max mz z) (overlay ({x..x} \<times> {1..max_y d} \<times> {z}) (flipped d) G) g1"
    using block_outside [OF assms(1) Cons.prems(1), of x x z] Cons.prems(2) assms(3,4) by auto
  obtain g2 where g2: "gsteps (key_length d) g1 (line_break d) g2"
    "outside (line_break d) (max mx x) (max my (max_y d)) (max mz z) (overlay ({x..x} \<times> {1..max_y d} \<times> {z}) (flipped d) G) g2"
    using line_outside [OF ok(1) g1(2)] by blast
  have "tgm_column d z x = ([LPAREN] @ itoa x @ lit '',1,'' @ itoa z @ lit '') = {'' @ [QUOTE] @ line_break d @
        concat (map (\<lambda>b. concat (map (\<lambda>a. flipped d (a, b, z)) [x..x]) @ line_break d) [1..max_y d]) @ [QUOTE, RBRACE]) @ line_break d"
    unfolding tgm_column_def using flipped_rows [of d z "[x]" "line_break d"] by (simp add: lit_def)
  then have col: "gsteps (key_length d) g (tgm_column d z x) g2" using gsteps_trans [OF g1(1) g2(1)] by simp
  show ?case
  proof (cases "xs = []")
    case True
    then show ?thesis using col g2(2) by (auto simp: max.commute)
  next
    case False
    have S: "{x..x} \<times> {1..max_y d} \<times> {z} \<union> set xs \<times> {1..max_y d} \<times> {z} = set (x # xs) \<times> {1..max_y d} \<times> {z}" by auto
    have "\<exists>g'. gsteps (key_length d) g2 (concat (map (tgm_column d z) xs)) g' \<and>
      outside (line_break d) (fold max xs (max mx x)) (max (max my (max_y d)) (max_y d)) (max (max mz z) z)
        (overlay (set xs \<times> {1..max_y d} \<times> {z}) (flipped d) (overlay ({x..x} \<times> {1..max_y d} \<times> {z}) (flipped d) G)) g'"
      using Cons.IH [OF g2(2)] Cons.prems False by simp
    then show ?thesis unfolding overlay_overlay S using gsteps_trans [OF col] by (auto simp: max.commute)
  qed
qed simp

lemma fold_max_upto: "a \<le> n \<Longrightarrow> fold max [a..n] m = max m (n::int)"
proof (induction "nat (n - a)" arbitrary: a m)
  case 0
  then show ?case by (simp add: max.commute)
next
  case (Suc k)
  then have "fold max [a + 1..n] (max a m) = max (max a m) n" by (intro Suc.hyps(1)) auto
  then show ?case using Suc by (simp add: upto_rec1)
qed

lemma tgm_level_steps:
  assumes "dmm_ok d" "outside (line_break d) mx my mz G g" "1 \<le> z" "z \<le> max_z d"
  shows "\<exists>g'. gsteps (key_length d) g (line_break d @ concat (map (tgm_column d z) [1..max_x d])) g' \<and>
    outside (line_break d) (max mx (max_x d)) (max my (max_y d)) (max mz z) (overlay ({1..max_x d} \<times> {1..max_y d} \<times> {z}) (flipped d) G) g'"
proof -
  note ok = dmm_okD [OF assms(1)]
  obtain g1 where g1: "gsteps (key_length d) g (line_break d) g1" "outside (line_break d) mx my mz G g1"
    using line_outside [OF ok(1) assms(2)] by blast
  have "\<exists>g'. gsteps (key_length d) g1 (concat (map (tgm_column d z) [1..max_x d])) g' \<and>
    outside (line_break d) (fold max [1..max_x d] mx) (max my (max_y d)) (max mz z) (overlay (set [1..max_x d] \<times> {1..max_y d} \<times> {z}) (flipped d) G) g'"
    using assms g1(2) ok(3) by (intro tgm_columns_steps) auto
  then show ?thesis using gsteps_trans [OF g1(1)] fold_max_upto [OF ok(3)] by auto
qed

lemma levels_steps:
  assumes step: "\<And>z mx my mz G g. z \<in> set zs \<Longrightarrow> outside lb mx my mz G g \<Longrightarrow> \<exists>g'. gsteps kl g (L z) g' \<and>
      outside lb (max mx X) (max my Y) (max mz z) (overlay (A \<times> B \<times> {z}) F G) g'"
    and "outside lb mx my mz G g" "zs \<noteq> []"
  shows "\<exists>g'. gsteps kl g (concat (map L zs)) g' \<and> outside lb (max mx X) (max my Y) (fold max zs mz) (overlay (A \<times> B \<times> set zs) F G) g'"
  using assms
proof (induction zs arbitrary: mx my mz G g)
  case (Cons z zs)
  obtain g1 where g1: "gsteps kl g (L z) g1" "outside lb (max mx X) (max my Y) (max mz z) (overlay (A \<times> B \<times> {z}) F G) g1"
    using Cons.prems(1) [OF _ Cons.prems(2), of z] by auto
  show ?case
  proof (cases "zs = []")
    case True
    then show ?thesis using g1 by (auto simp: max.commute)
  next
    case False
    have S: "A \<times> B \<times> {z} \<union> A \<times> B \<times> set zs = A \<times> B \<times> set (z # zs)" by auto
    have "\<exists>g'. gsteps kl g1 (concat (map L zs)) g' \<and> outside lb (max (max mx X) X) (max (max my Y) Y) (fold max zs (max mz z))
        (overlay (A \<times> B \<times> set zs) F (overlay (A \<times> B \<times> {z}) F G)) g'"
      using Cons.prems(1) False by (intro Cons.IH g1(2)) auto
    then show ?thesis unfolding overlay_overlay S using gsteps_trans [OF g1(1)] by (auto simp: max.commute)
  qed
qed simp

section \<open>Turning the rows over\<close>

definition turned :: "int \<Rightarrow> int \<Rightarrow> int \<Rightarrow> (point \<Rightarrow> key) \<Rightarrow> point set \<Rightarrow> point \<Rightarrow> key option" where
  "turned mx my mz F S = (\<lambda>(x, y, z). if in_box mx my mz (x, y, z)
     then Some (if (x, y, z) \<in> S \<or> (x, my + 1 - y, z) \<in> S then F (x, my + 1 - y, z) else F (x, y, z)) else None)"

lemma swap_turned:
  assumes "in_box mx my mz (x, y, z)" "(x, y, z) \<notin> S" "(x, my + 1 - y, z) \<notin> S \<or> my + 1 - y = y"
  shows "swap_rows my (x, y, z) (turned mx my mz F S) = turned mx my mz F (insert (x, y, z) S)"
proof
  fix p :: point
  obtain a b c where p: "p = (a, b, c)" by (cases p)
  show "swap_rows my (x, y, z) (turned mx my mz F S) p = turned mx my mz F (insert (x, y, z) S) p"
  proof (cases "my + 1 - y = y")
    case True
    then show ?thesis using assms by (cases "b = y") (auto simp: p swap_rows_def turned_def in_box_def Let_def)
  next
    case False
    then have "(x, my + 1 - y, z) \<notin> S" using assms(3) by blast
    then show ?thesis using assms False
      by (cases "b = y"; cases "b = my + 1 - y") (auto simp: p swap_rows_def turned_def in_box_def Let_def)
  qed
qed

lemma fold_turned:
  assumes "distinct ps" "\<forall>(x, y, z)\<in>set ps. in_box mx my mz (x, y, z) \<and> 2 * y \<le> my + 1" "\<forall>(x, y, z)\<in>S. 2 * y \<le> my + 1" "set ps \<inter> S = {}"
  shows "fold (swap_rows my) ps (turned mx my mz F S) = turned mx my mz F (set ps \<union> S)"
  using assms
proof (induction ps arbitrary: S)
  case (Cons p ps)
  obtain x y z where p: "p = (x, y, z)" by (cases p)
  have "swap_rows my p (turned mx my mz F S) = turned mx my mz F (insert p S)"
    unfolding p using Cons.prems by (intro swap_turned) (auto simp: p)
  moreover have "fold (swap_rows my) ps (turned mx my mz F (insert p S)) = turned mx my mz F (set ps \<union> insert p S)"
    using Cons.prems by (intro Cons.IH) (auto simp: p)
  ultimately show ?case by simp
qed simp

lemma distinct_concat_tagged:
  assumes "distinct xs" "\<And>x. x \<in> set xs \<Longrightarrow> distinct (f x)" "\<And>x p. x \<in> set xs \<Longrightarrow> p \<in> set (f x) \<Longrightarrow> t p = x"
  shows "distinct (concat (map f xs))"
  using assms
proof (induction xs)
  case (Cons a xs)
  have tag: "t p = b" if "p \<in> set (f b)" "b \<in> set (a # xs)" for p b using Cons.prems(3) that by blast
  have "set (f a) \<inter> set (concat (map f xs)) = {}" proof (intro Int_emptyI)
    fix p assume p: "p \<in> set (f a)" "p \<in> set (concat (map f xs))"
    then obtain b where "b \<in> set xs" "p \<in> set (f b)" by auto
    then show False using tag [of p a] tag [of p b] p(1) Cons.prems(1) by auto
  qed
  then show ?case using Cons by simp
qed simp

lemma distinct_lower_half: "distinct (lower_half mx my mz)"
  unfolding lower_half_def
  by (rule distinct_concat_tagged [where t = "\<lambda>(x, y, z). z"], simp,
      rule distinct_concat_tagged [where t = "\<lambda>(x, y, z). y"]) (auto simp: distinct_map intro: inj_onI)

lemma set_lower_half: "set (lower_half mx my mz) = {1..mx} \<times> {1..wrap64 (my + 1) div 2} \<times> {1..mz}"
  by (auto simp: lower_half_def)

lemma orient_overlay:
  assumes "1 \<le> my" "my < 9223372036854775807"
  shows "orient mx my mz (overlay ({1..mx} \<times> {1..my} \<times> {1..mz}) F Map.empty) =
     (\<lambda>(x, y, z). if in_box mx my mz (x, y, z) then Some (F (x, my + 1 - y, z)) else None)"
proof -
  have "wrap64 (my + 1) = my + 1" using assms by (simp add: wrap64_id)
  note half = set_lower_half [of mx my mz, unfolded this]
  have "restrict_grid mx my mz (overlay ({1..mx} \<times> {1..my} \<times> {1..mz}) F Map.empty) = turned mx my mz F {}"
    by (auto simp: restrict_grid_def overlay_def turned_def in_box_def fun_eq_iff)
  moreover have "fold (swap_rows my) (lower_half mx my mz) (turned mx my mz F {}) = turned mx my mz F (set (lower_half mx my mz) \<union> {})"
    by (rule fold_turned [OF distinct_lower_half]) (auto simp: half in_box_def)
  moreover have "turned mx my mz F (set (lower_half mx my mz) \<union> {}) =
      (\<lambda>(x, y, z). if in_box mx my mz (x, y, z) then Some (F (x, my + 1 - y, z)) else None)"
    by (auto simp: turned_def half in_box_def fun_eq_iff)
  ultimately show ?thesis by (simp add: orient_def)
qed

end
