(* ===== verification/Dmm_Roundtrip.thy ===== *)
theory Dmm_Roundtrip
  imports Dmm_Grid_Chunks
begin

text \<open>
  What survives a save: a map written in either format and parsed again is the same map.
\<close>

section \<open>Written and parsed again\<close>

text \<open>\<^verbatim>\<open>DmmData.Save\<close> picks the format.\<close>

definition Saved_text :: "dmm_data \<Rightarrow> runes" where
  "Saved_text d = (if is_tgm d then WriteTGM d else WriteDM d)"

lemma comment_steps:
  assumes "in_comment_line st" "\<forall>c\<in>set xs. c \<notin> {NL, CR}"
  shows "dsteps st xs st"
  using assms(2)
proof (induction xs)
  case (Cons c xs)
  then have "dict_step st c = Inr (False, st)" using assms(1) by (simp add: dict_step_def)
  then show ?case using Cons by (auto intro: dsteps_Cons)
qed (rule dsteps_Nil)

lemma start_between: "parse_start = between parse_start"
  by (simp add: parse_start_def between_def)

lemma tgm_header_steps:
  assumes "lb \<in> {[NL], [CR, NL]}"
  shows "dsteps parse_start (tgm_header @ lb) (between (nls lb 1 (parse_start\<lparr>ps_tgm := True\<rparr>)))"
proof -
  let ?st = "parse_start\<lparr>comment_trigger := True, in_comment_line := True, ps_tgm := True\<rparr>"
  have h: "tgm_header = [SLASH, SLASH] @ drop 2 tgm_header" by (simp add: tgm_header_def lit_def)
  have "dsteps parse_start [SLASH, SLASH] ?st" by (simp add: dsteps_def step_defs parse_start_def)
  moreover have "dsteps ?st (drop 2 tgm_header) ?st"
    by (rule comment_steps) (simp_all add: tgm_header_def lit_def)
  ultimately have "dsteps parse_start tgm_header ?st" using h dsteps_trans by metis
  moreover have "dsteps ?st lb (between (nls lb 1 (parse_start\<lparr>ps_tgm := True\<rparr>)))"
    using assms by (auto simp: dsteps_def step_defs parse_start_def between_def nls_def)
  ultimately show ?thesis by (rule dsteps_trans)
qed

definition read_back :: "dmm_data \<Rightarrow> (key \<times> prefab list) list" where
  "read_back d = map (\<lambda>k. (k, content d k)) (Keys d)"

lemma Keys_facts:
  assumes "dmm_ok d"
  shows "distinct (Keys d)" "set (Keys d) = fst ` set (dictionary d)" "Keys d \<noteq> []"
    "k \<in> set (Keys d) \<Longrightarrow> key_ok (key_length d) k \<and> content d k \<noteq> [] \<and> (\<forall>p\<in>set (content d k). prefab_ok p)"
proof -
  note ok = dmm_okD [OF assms]
  show "distinct (Keys d)" "set (Keys d) = fst ` set (dictionary d)" using ok(10) by (simp_all add: Keys_def)
  then show "Keys d \<noteq> []" using ok(9) by auto
  assume "k \<in> set (Keys d)"
  then obtain ps where "(k, ps) \<in> set (dictionary d)" by (auto simp: Keys_def)
  then show "key_ok (key_length d) k \<and> content d k \<noteq> [] \<and> (\<forall>p\<in>set (content d k). prefab_ok p)"
    using ok(10,11) by (simp add: content_def map_of_is_SomeI)
qed

lemma map_of_graph: "map_of (map (\<lambda>k. (k, f k)) ks) k = (if k \<in> set ks then Some (f k) else None)"
  by (induction ks) auto

lemma read_back_same:
  assumes "dmm_ok d"
  shows "map_of (read_back d) = map_of (dictionary d)"
proof
  fix k
  show "map_of (read_back d) k = map_of (dictionary d) k"
  proof (cases "k \<in> set (Keys d)")
    case True
    then obtain ps where "map_of (dictionary d) k = Some ps"
      using Keys_facts(2) [OF assms] by (metis map_of_eq_None_iff not_Some_eq)
    then show ?thesis using True by (simp add: read_back_def content_def map_of_graph)
  next
    case False
    then have "map_of (dictionary d) k = None" "map_of (read_back d) k = None"
      using Keys_facts(2) [OF assms] by (simp_all add: map_of_eq_None_iff read_back_def image_image)
    then show ?thesis by simp
  qed
qed

lemma read_upto_entry:
  assumes "read_upto lb tgm kl dict broken b"
  shows "ps_key_length b = 0 \<or> ps_key_length b = kl"
    "read_upto lb tgm kl (set_entry k ps dict) broken (b\<lparr>definition_line := line_no b, ps_key_length := kl, ps_dict := set_entry k ps (ps_dict b)\<rparr>)"
  using assms by (auto simp: read_upto_def set_entry_def split: if_splits)

lemma grid_turned_back:
  assumes "dmm_ok d"
  shows "orient (max_x d) (max_y d) (max_z d) (overlay ({1..max_x d} \<times> {1..max_y d} \<times> {1..max_z d}) (flipped d) Map.empty) = grid d"
proof
  fix p :: point
  obtain x y z where p: "p = (x, y, z)" by (cases p)
  have y: "1 \<le> max_y d" "max_y d < 9223372036854775807" using assms unfolding dmm_ok_def by blast+
  show "orient (max_x d) (max_y d) (max_z d) (overlay ({1..max_x d} \<times> {1..max_y d} \<times> {1..max_z d}) (flipped d) Map.empty) p = grid d p"
  proof (cases "in_box (max_x d) (max_y d) (max_z d) p")
    case True
    then obtain k where "grid d p = Some k" using assms unfolding dmm_ok_def by metis
    then show ?thesis using True by (simp add: orient_overlay [OF y] p flipped_def grid_key_def)
  next
    case False
    then have "grid d p = None" using assms unfolding dmm_ok_def by metis
    then show ?thesis using False by (simp add: orient_overlay [OF y] p)
  qed
qed

lemma parse_finish:
  assumes ok: "dmm_ok d"
    and dict: "dsteps parse_start pre (between b)" "read_upto (line_break d) tgm (key_length d) (read_back d) True b"
    and body: "body = line_break d @ LPAREN # rest"
    and run: "\<And>g. outside (line_break d) 0 0 0 Map.empty g \<Longrightarrow> \<exists>g'. gsteps (key_length d) g body g' \<and>
      outside (line_break d) (max_x d) (max_y d) (max_z d) (overlay ({1..max_x d} \<times> {1..max_y d} \<times> {1..max_z d}) (flipped d) Map.empty) g'"
  shows "parse name (pre @ body) = Inr (d\<lparr>file_path := name, is_tgm := tgm, dictionary := read_back d\<rparr>)"
proof -
  let ?lb = "line_break d" and ?b = "nls (line_break d) 1 b"
  have lb: "?lb \<in> {[NL], [CR, NL]}" by (rule dmm_okD(1) [OF ok])
  have r: "ps_tgm b = tgm" "ps_dict b = read_back d" "ps_key_length b = key_length d" "ps_break b = ?lb" "ps_break ?b = ?lb"
    using dict(2) Keys_facts(3) [OF ok] lb by (auto simp: read_upto_def read_back_def nls_def)
  have "dict_loop (between ?b) (LPAREN # rest) = Inr (between ?b, rest)"
    by (simp add: step_defs between_def)
  then have loop: "dict_loop parse_start (pre @ body) = Inr (between ?b, rest)"
    using dict(1) line_break_between [OF lb, of b] by (simp add: dsteps_def body)
  let ?g = "\<lambda>ln ic. gst ?lb ln AxisX 0 0 0 0 0 ic False [] 0 0 0 Map.empty"
  obtain g' where g': "gsteps (key_length d) (?g (line_no b) False) body g'"
      "outside ?lb (max_x d) (max_y d) (max_z d) (overlay ({1..max_x d} \<times> {1..max_y d} \<times> {1..max_z d}) (flipped d) Map.empty) g'"
    using run [of "?g (line_no b) False"] unfolding outside_def by blast
  have "gsteps (key_length d) (?g (line_no b) False) ?lb (?g (line_no b + 1) False)" by (rule outside_line_steps [OF lb])
  then have "grid_loop (key_length d) (?g (line_no b) False) (body @ []) = grid_loop (key_length d) (?g (line_no b + 1) False) (LPAREN # rest)"
    by (simp add: gsteps_def body)
  then have "grid_loop (key_length d) (?g (line_no b + 1) False) (LPAREN # rest) = Inr g'"
    using g'(1) unfolding gsteps_def by (metis grid_loop.simps(1))
  moreover have "grid_step (key_length d) (?g (line_no b + 1) False) LPAREN = Inr (?g (line_no b + 1) True)"
    by (simp add: grid_defs gst_def)
  moreover have "grid_start (between ?b) = ?g (line_no b + 1) True"
    using r by (simp add: grid_start_def between_def gst_def) (simp add: nls_def)
  ultimately have "grid_loop (key_length d) (grid_start (between ?b)) rest = Inr g'" by simp
  then show ?thesis
    using loop r g'(2) grid_turned_back [OF ok] by (auto simp: parse_def outside_def gst_def between_def)
qed

lemma levels_from_start:
  assumes ok: "dmm_ok d"
    and step: "\<And>z mx my mz G g. 1 \<le> z \<Longrightarrow> z \<le> max_z d \<Longrightarrow> outside (line_break d) mx my mz G g \<Longrightarrow> \<exists>g'. gsteps (key_length d) g (L z) g' \<and>
      outside (line_break d) (max mx (max_x d)) (max my (max_y d)) (max mz z) (overlay ({1..max_x d} \<times> {1..max_y d} \<times> {z}) (flipped d) G) g'"
    and "outside (line_break d) 0 0 0 Map.empty g"
  shows "\<exists>g'. gsteps (key_length d) g (concat (map L [1..max_z d])) g' \<and>
      outside (line_break d) (max_x d) (max_y d) (max_z d) (overlay ({1..max_x d} \<times> {1..max_y d} \<times> {1..max_z d}) (flipped d) Map.empty) g'"
proof -
  note d = dmm_okD [OF ok]
  have "\<exists>g'. gsteps (key_length d) g (concat (map L [1..max_z d])) g' \<and>
      outside (line_break d) (max 0 (max_x d)) (max 0 (max_y d)) (fold max [1..max_z d] 0)
        (overlay ({1..max_x d} \<times> {1..max_y d} \<times> set [1..max_z d]) (flipped d) Map.empty) g'"
    using step d(5) assms(3) by (intro levels_steps) auto
  then show ?thesis using d(3-5) fold_max_upto [OF d(5), of 0] by (simp add: max_def)
qed

lemma concat_levels_head:
  assumes "1 \<le> n" "\<And>z. \<exists>r. L z = lb @ LPAREN # r"
  shows "\<exists>rest. concat (map L [1..n]) = lb @ LPAREN # rest"
proof -
  obtain r where "L 1 = lb @ LPAREN # r" using assms(2) by blast
  then show ?thesis using assms(1) by (simp add: upto_rec1)
qed

lemma parse_WriteTGM:
  assumes ok: "dmm_ok d"
  shows "parse name (WriteTGM d) = Inr (d\<lparr>file_path := name, is_tgm := True, dictionary := read_back d\<rparr>)"
proof -
  note d = dmm_okD [OF ok] and ks = Keys_facts [OF ok]
  let ?lb = "line_break d" and ?L = "\<lambda>z. line_break d @ concat (map (tgm_column d z) [1..max_x d])"
  have start: "read_upto ?lb True (key_length d) [] True (nls ?lb 1 (parse_start\<lparr>ps_tgm := True\<rparr>))"
    using d(1) by (auto simp: read_upto_def nls_def parse_start_def)
  have "\<exists>b'. dsteps (between (nls ?lb 1 (parse_start\<lparr>ps_tgm := True\<rparr>)))
      (concat (map (\<lambda>k. toTGMStr k (content d k) ?lb @ ?lb) (Keys d))) (between b') \<and>
      read_upto ?lb True (key_length d) ([] @ map (\<lambda>k. (k, content d k)) (Keys d)) (True \<or> Keys d \<noteq> []) b'"
  proof (rule dictionary_steps [OF d(1)])
    fix k b dict broken
    assume k: "k \<in> set (Keys d)" and b: "read_upto ?lb True (key_length d) dict broken b"
    show "\<exists>n b'. dsteps (between b) (toTGMStr k (content d k) ?lb) (between (nls ?lb n b')) \<and>
        read_upto ?lb True (key_length d) (set_entry k (content d k) dict) broken b'"
      using tgm_definition [OF d(1), of "key_length d" k "content d k" b] ks(4) [OF k] d(2) read_upto_entry [OF b] by blast
  qed (use start ks(1) in auto)
  then obtain b where b: "dsteps (between (nls ?lb 1 (parse_start\<lparr>ps_tgm := True\<rparr>)))
      (concat (map (\<lambda>k. toTGMStr k (content d k) ?lb @ ?lb) (Keys d))) (between b)"
      "read_upto ?lb True (key_length d) (read_back d) True b"
    by (auto simp: read_back_def)
  have "\<exists>r. ?L z = ?lb @ LPAREN # r" for z
    using d(3) by (simp add: upto_rec1 tgm_column_def) (simp add: lit_def)
  then obtain rest where "concat (map ?L [1..max_z d]) = ?lb @ LPAREN # rest"
    using concat_levels_head [OF d(5), of ?L ?lb] by blast
  from parse_finish [OF ok dsteps_trans [OF tgm_header_steps [OF d(1)] b(1)] b(2) this levels_from_start [OF ok tgm_level_steps [OF ok]]]
  show ?thesis by (simp add: WriteTGM_def)
qed

lemma parse_WriteDM:
  assumes ok: "dmm_ok d"
  shows "parse name (WriteDM d) = Inr (d\<lparr>file_path := name, is_tgm := False, dictionary := read_back d\<rparr>)"
proof -
  note d = dmm_okD [OF ok] and ks = Keys_facts [OF ok]
  let ?lb = "line_break d"
  have start: "read_upto ?lb False (key_length d) [] False parse_start"
    by (simp add: read_upto_def parse_start_def)
  have "\<exists>b'. dsteps (between parse_start)
      (concat (map (\<lambda>k. toDMStr k (content d k) @ ?lb) (Keys d))) (between b') \<and>
      read_upto ?lb False (key_length d) ([] @ map (\<lambda>k. (k, content d k)) (Keys d)) (False \<or> Keys d \<noteq> []) b'"
  proof (rule dictionary_steps [OF d(1)])
    fix k b dict broken
    assume k: "k \<in> set (Keys d)" and b: "read_upto ?lb False (key_length d) dict broken b"
    have "dsteps (between b) (toDMStr k (content d k))
        (between (b\<lparr>definition_line := line_no b, ps_key_length := key_length d, ps_dict := set_entry k (content d k) (ps_dict b)\<rparr>))"
      using ks(4) [OF k] d(2) read_upto_entry(1) [OF b] by (intro dm_definition) auto
    then show "\<exists>n b'. dsteps (between b) (toDMStr k (content d k)) (between (nls ?lb n b')) \<and>
        read_upto ?lb False (key_length d) (set_entry k (content d k) dict) broken b'"
      using read_upto_entry(2) [OF b, of k "content d k"] nls_0 by metis
  qed (use start ks(1) in auto)
  then obtain b where b: "dsteps (between parse_start) (concat (map (\<lambda>k. toDMStr k (content d k) @ ?lb) (Keys d))) (between b)"
      "read_upto ?lb False (key_length d) (read_back d) True b"
    using ks(3) by (auto simp: read_back_def)
  have "\<exists>r. dm_level d z = ?lb @ LPAREN # r" for z by (simp add: dm_level_def lit_def)
  then obtain rest where "concat (map (dm_level d) [1..max_z d]) = ?lb @ LPAREN # rest"
    using concat_levels_head [OF d(5), of "dm_level d" ?lb] by blast
  then have body: "concat (map (dm_level d) [1..max_z d]) @ ?lb = ?lb @ LPAREN # (rest @ ?lb)" by simp
  have run: "\<exists>g'. gsteps (key_length d) g (concat (map (dm_level d) [1..max_z d]) @ ?lb) g' \<and>
      outside ?lb (max_x d) (max_y d) (max_z d) (overlay ({1..max_x d} \<times> {1..max_y d} \<times> {1..max_z d}) (flipped d) Map.empty) g'"
    if "outside ?lb 0 0 0 Map.empty g" for g
    using levels_from_start [OF ok dm_level_steps [OF ok] that] line_outside [OF d(1)] by (meson gsteps_trans)
  from parse_finish [OF ok b(1) [folded start_between] b(2) body run] show ?thesis by (simp add: WriteDM_def)
qed

text \<open>C3: A saved map is read back as it was. For every map whose texts the format can carry
  (\<open>dmm_ok\<close>), in either format and with either line break, parsing the saved text gives a map with the
  same format, line break, key length and dimensions, the same content under every key and the same key
  at every point of the grid; nothing is added outside the map.\<close>

theorem save_parse_roundtrip:
  assumes "dmm_ok d"
  shows "\<exists>d'. parse name (Saved_text d) = Inr d' \<and> file_path d' = name \<and> is_tgm d' = is_tgm d \<and> line_break d' = line_break d \<and>
    key_length d' = key_length d \<and> (max_x d', max_y d', max_z d') = (max_x d, max_y d, max_z d) \<and>
    map_of (dictionary d') = map_of (dictionary d) \<and> grid d' = grid d"
  using parse_WriteTGM [OF assms, of name] parse_WriteDM [OF assms, of name] read_back_same [OF assms]
  by (cases "is_tgm d") (auto simp: Saved_text_def)

text \<open>A map of two tiles, with an escaped quote and a list among its values.\<close>

definition sample_map :: dmm_data where
  "sample_map = \<lparr>file_path = lit ''a.dmm'', is_tgm = True, line_break = [CR, NL], key_length = 1, max_x = 2, max_y = 1, max_z = 1,
     dictionary =
       [(lit ''b'', [\<lparr>pf_path = lit ''/turf/floor'', pf_vars = [(lit ''name'', [QUOTE, SPACE, BACKSLASH, QUOTE, QUOTE]), (lit ''req'', lit ''list(1, 2)'')]\<rparr>]),
        (lit ''a'', [\<lparr>pf_path = lit ''/obj/item'', pf_vars = []\<rparr>, \<lparr>pf_path = lit ''/area'', pf_vars = []\<rparr>])],
     grid = (\<lambda>p. if p = (1, 1, 1) then Some (lit ''a'') else if p = (2, 1, 1) then Some (lit ''b'') else None)\<rparr>"

lemma sample_prefabs_ok:
  "\<forall>(k, ps)\<in>set (dictionary sample_map). key_ok 1 k \<and> ps \<noteq> [] \<and> (\<forall>p\<in>set ps. prefab_ok p)"
  by code_simp

lemma sample_map_ok: "dmm_ok sample_map"
proof -
  have f: "line_break sample_map = [CR, NL]" "key_length sample_map = 1" "max_x sample_map = 2" "max_y sample_map = 1" "max_z sample_map = 1"
    "dictionary sample_map \<noteq> []"
    by (simp_all add: sample_map_def)
  have "\<forall>p. if in_box 2 1 1 p then \<exists>k. grid sample_map p = Some k \<and> key_ok 1 k else grid sample_map p = None"
    by (auto simp: sample_map_def in_box_def key_ok_def lit_def)
  moreover have "distinct (map fst (dictionary sample_map))" by code_simp
  ultimately show ?thesis
    unfolding dmm_ok_def f using f(6) sample_prefabs_ok by simp
qed

theorem save_parse_roundtrip_witness:
  "\<exists>d'. parse [] (Saved_text sample_map) = Inr d' \<and> grid d' = grid sample_map \<and>
     map_of (dictionary d') = map_of (dictionary sample_map)"
  using save_parse_roundtrip [OF sample_map_ok, of "[]"] by blast

end
