(* ===== verification/Map_Save.thy ===== *)
theory Map_Save
  imports Prefab_Identity Map_Keys Dmm_Roundtrip
begin

text \<open>
  Saving a map (dmapi/dmmsave: save_process.go, dmmsave.go, validation.go, config.go; the preparation in
  aphelion/mapsave; the validation in dmmdata/save_atomic.go).

  An open map is its dimensions and its tiles, each with the prefabs of its instances; identities of
  instances play no part in saving. The backup the map was opened from is the parsed \<open>initial\<close> data. The
  environment gives for each type path the values of its variables, own or inherited. Go visits the
  entries of a map in any order and picks keys at random: every such choice is a call of the argument
  \<open>intn\<close>, the next one of a sequence of answers, each below the number of choices. SHA-256 is the argument
  \<open>sha\<close>. The staging file and its atomic replacement are not modelled: the text that is written is the
  text that is validated.
\<close>

section \<open>The map and its stacks\<close>

record dmm_map =
  mm_x :: int
  mm_y :: int
  mm_z :: int
  mm_tiles :: "(point \<times> prefab list) list"

type_synonym environment = "runes \<Rightarrow> (runes \<Rightarrow> runes option) option"
type_synonym tile_stack = "prefab list \<times> u64"

datatype save_format = FormatInitial | FormatTGM | FormatDM

definition detectIsTgm :: "save_format \<Rightarrow> bool \<Rightarrow> bool" where
  "detectIsTgm f initialTGM = (case f of FormatInitial \<Rightarrow> initialTGM | FormatTGM \<Rightarrow> True | FormatDM \<Rightarrow> False)"

text \<open>\<^verbatim>\<open>Value\<close> of a variable whose parent is the type in the environment: the value and whether there is one.\<close>

definition Value :: "environment \<Rightarrow> prefab \<Rightarrow> runes \<Rightarrow> runes \<times> bool" where
  "Value env p name =
     (case map_of (pf_vars p) name of
        Some value \<Rightarrow> (value, True)
      | None \<Rightarrow> (case env (pf_path p) of
            None \<Rightarrow> ([], False)
          | Some vars \<Rightarrow> (case vars name of Some value \<Rightarrow> (value, True) | None \<Rightarrow> ([], False))))"

definition sanitize_prefab :: "environment \<Rightarrow> prefab \<Rightarrow> prefab" where
  "sanitize_prefab env p =
     (if length (pf_vars p) = 0 then p
      else case env (pf_path p) of
          None \<Rightarrow> p
        | Some vars \<Rightarrow>
            p\<lparr>pf_vars := filter (\<lambda>(name, value). (case vars name of None \<Rightarrow> [] | Some v \<Rightarrow> v) \<noteq> value) (pf_vars p)\<rparr>)"

definition sanitizeVariables :: "environment \<Rightarrow> dmm_map \<Rightarrow> dmm_map" where
  "sanitizeVariables env m = m\<lparr>mm_tiles := map (\<lambda>(p, ps). (p, map (sanitize_prefab env) ps)) (mm_tiles m)\<rparr>"

definition Sorted :: "prefab list \<Rightarrow> prefab list" where
  "Sorted ps = sort_key (\<lambda>p. PathWeight (pf_path p)) ps"

fun normalize_loop :: "(point \<times> prefab list) list \<Rightarrow> (u64 \<Rightarrow> prefab list list) \<Rightarrow> (point \<Rightarrow> tile_stack option) \<Rightarrow> (point \<Rightarrow> tile_stack option)" where
  "normalize_loop [] canonical stacks = stacks"
| "normalize_loop ((p, ps) # tiles) canonical stacks =
     (let prefabs = Sorted ps; h = Prefabs_Hash prefabs in
      case List.find (Prefabs_Equals prefabs) (canonical h) of
        Some prior \<Rightarrow> normalize_loop tiles canonical (stacks(p \<mapsto> (prior, h)))
      | None \<Rightarrow> normalize_loop tiles (canonical(h := canonical h @ [prefabs])) (stacks(p \<mapsto> (prefabs, h))))"

definition Normalize :: "dmm_map \<Rightarrow> point \<Rightarrow> tile_stack option" where
  "Normalize m = normalize_loop (mm_tiles m) (\<lambda>_. []) Map.empty"

text \<open>The intended map: every tile under a label of its own.\<close>

definition Expected :: "dmm_map \<Rightarrow> bool \<Rightarrow> dmm_data" where
  "Expected m tgm = \<lparr>file_path = [], is_tgm = tgm, line_break = [], key_length = 0, max_x = mm_x m, max_y = mm_y m, max_z = mm_z m,
     dictionary = map (\<lambda>(i, t). (itoa i, Sorted (snd t))) (zip [0..int (length (mm_tiles m)) - 1] (mm_tiles m)),
     grid = foldl (\<lambda>g (i, t). g(fst t \<mapsto> itoa i)) Map.empty (zip [0..int (length (mm_tiles m)) - 1] (mm_tiles m))\<rparr>"

text \<open>Points in the order the loops visit them.\<close>

definition box_points :: "int \<Rightarrow> int \<Rightarrow> int \<Rightarrow> point list" where
  "box_points mx my mz = concat (map (\<lambda>z. concat (map (\<lambda>y. map (\<lambda>x. (x, y, z)) [1..mx]) [1..my])) [1..mz])"

text \<open>A parsed grid has no point outside its dimensions, and its points sort by level, row and column.\<close>

definition LocationsByKey :: "dmm_data \<Rightarrow> key \<Rightarrow> point list" where
  "LocationsByKey d k = filter (\<lambda>p. grid d p = Some k) (box_points (max_x d) (max_y d) (max_z d))"

section \<open>The save process\<close>

record save_process =
  sp_map :: dmm_map
  sp_initial :: dmm_data
  sp_output :: dmm_data
  sp_keygen :: keygen
  unused_keys :: "key list"
  sp_expected :: dmm_data
  sp_stacks :: "point \<Rightarrow> tile_stack option"
  initial_content :: content_index
  output_content :: content_index
  initial_locations :: "key \<Rightarrow> point list"
  sp_calls :: nat

definition makeOwnedSaveProcess :: "save_format \<Rightarrow> bool \<Rightarrow> environment \<Rightarrow> dmm_map \<Rightarrow> dmm_data \<Rightarrow> runes \<Rightarrow> save_process" where
  "makeOwnedSaveProcess format sanitize env m initial path =
     (let output = \<lparr>file_path = path, is_tgm = detectIsTgm format (is_tgm initial), line_break = line_break initial,
            key_length = key_length initial, max_x = mm_x m, max_y = mm_y m, max_z = mm_z m, dictionary = [], grid = Map.empty\<rparr>;
          m = (if sanitize then sanitizeVariables env m else m)
      in \<lparr>sp_map = m, sp_initial = initial, sp_output = output, sp_keygen = New_keygen, unused_keys = Keys initial,
          sp_expected = Expected m (is_tgm output), sp_stacks = Normalize m,
          initial_content = NewContentIndex (dictionary initial), output_content = NewContentIndex (dictionary output),
          initial_locations = LocationsByKey initial, sp_calls = 0\<rparr>)"

definition stack_at :: "save_process \<Rightarrow> point \<Rightarrow> tile_stack" where
  "stack_at sp p = (case sp_stacks sp p of None \<Rightarrow> ([], 0) | Some s \<Rightarrow> s)"

definition set_grid :: "point \<Rightarrow> key \<Rightarrow> save_process \<Rightarrow> save_process" where
  "set_grid p k sp = sp\<lparr>sp_output := (sp_output sp)\<lparr>grid := (grid (sp_output sp))(p \<mapsto> k)\<rparr>\<rparr>"

definition setOutputKeyContent :: "point \<Rightarrow> key \<Rightarrow> tile_stack \<Rightarrow> save_process \<Rightarrow> save_process" where
  "setOutputKeyContent p k s sp =
     (let sp = set_grid p k sp in
      sp\<lparr>sp_output := (sp_output sp)\<lparr>dictionary := set_entry k (fst s) (dictionary (sp_output sp))\<rparr>,
         output_content := Add (output_content sp) (snd s) k (fst s)\<rparr>)"

definition use_key :: "key \<Rightarrow> save_process \<Rightarrow> save_process" where
  "use_key k sp = sp\<lparr>unused_keys := filter (\<lambda>l. l \<noteq> k) (unused_keys sp)\<rparr>"

definition reuse_tile :: "save_process \<Rightarrow> point \<times> prefab list \<Rightarrow> save_process" where
  "reuse_tile sp tile =
     (let s = stack_at sp (fst tile) in
      case Find (initial_content sp) (snd s) (fst s) of
        None \<Rightarrow> sp
      | Some k \<Rightarrow> use_key k (setOutputKeyContent (fst tile) k s sp))"

definition handleReusedKeys :: "save_process \<Rightarrow> save_process" where
  "handleReusedKeys sp = foldl reuse_tile sp (mm_tiles (sp_map sp))"

definition findLocationsWithoutKey :: "save_process \<Rightarrow> point list" where
  "findLocationsWithoutKey sp =
     filter (\<lambda>p. grid (sp_output sp) p = None) (box_points (mm_x (sp_map sp)) (mm_y (sp_map sp)) (mm_z (sp_map sp)))"

section \<open>Unused keys at their old places\<close>

text \<open>One unused key: its locations without a key, the index of the contents placed so far.\<close>

fun reuse_at :: "key \<Rightarrow> point list \<Rightarrow> point list \<times> content_index \<times> save_process \<Rightarrow> point list \<times> content_index \<times> save_process" where
  "reuse_at k [] st = st"
| "reuse_at k (p # ps) (locs, reused, sp) =
     (if p \<notin> set locs then reuse_at k ps (locs, reused, sp)
      else let s = stack_at sp p in
        case Find reused (snd s) (fst s) of
          Some cached \<Rightarrow> reuse_at k ps (locs, reused, set_grid p cached sp)
        | None \<Rightarrow> (filter (\<lambda>q. q \<noteq> p) locs, Add reused (snd s) k (fst s), use_key k (setOutputKeyContent p k s sp)))"

fun reuse_keys :: "key list \<Rightarrow> point list \<times> content_index \<times> save_process \<Rightarrow> point list \<times> content_index \<times> save_process" where
  "reuse_keys [] st = st"
| "reuse_keys (k # ks) (locs, reused, sp) =
     (if k \<notin> set (unused_keys sp) then reuse_keys ks (locs, reused, sp)
      else reuse_keys ks (reuse_at k (initial_locations sp k) (locs, reused, sp)))"

definition tryToReuseKeysByTheirInitialLocation :: "point list \<Rightarrow> save_process \<Rightarrow> point list \<times> save_process" where
  "tryToReuseKeysByTheirInitialLocation locs sp =
     (if length (unused_keys sp) = 0 then (locs, sp)
      else case reuse_keys (Keys (sp_initial sp)) (locs, empty_index, sp) of (locs, reused, sp) \<Rightarrow> (locs, sp))"

section \<open>The remaining locations\<close>

datatype digest_error = BadDimensions | NoKey point | NoContent key

datatype validation_error =
    NotParsed parse_error | FormatMismatch | DimensionsMismatch | SourceNotHashed digest_error | StagedNotHashed digest_error
  | HashMismatch | DiffersFromIntended validation_error

datatype save_error = RegenerateKeys | KeysLimitExceeded | KeyLengthChangeDeclined | ValidationFailed validation_error

type_synonym choices = "nat \<Rightarrow> nat \<Rightarrow> nat"

definition tick :: "save_process \<Rightarrow> save_process" where
  "tick sp = sp\<lparr>sp_calls := sp_calls sp + 1\<rparr>"

definition fill_location :: "choices \<Rightarrow> point \<Rightarrow> save_process \<Rightarrow> save_error option \<times> save_process" where
  "fill_location intn p sp =
     (let s = stack_at sp p in
      case Find (output_content sp) (snd s) (fst s) of
        Some k \<Rightarrow> (None, setOutputKeyContent p k s sp)
      | None \<Rightarrow>
          if length (unused_keys sp) \<noteq> 0 then
            (let k = unused_keys sp ! intn (sp_calls sp) (length (unused_keys sp))
             in (None, setOutputKeyContent p k s (use_key k (tick sp))))
          else
            (case CreateKey (sp_output sp) (intn (sp_calls sp)) (sp_keygen sp) of ((k, newSize), g) \<Rightarrow>
               let sp = (tick sp)\<lparr>sp_keygen := g\<rparr> in
               if newSize \<noteq> 0 then
                 (if newSize = - 1 then (Some KeysLimitExceeded, sp)
                  else (Some RegenerateKeys, sp\<lparr>sp_output := (sp_output sp)\<lparr>key_length := nat newSize\<rparr>\<rparr>))
               else (None, setOutputKeyContent p k s sp)))"

text \<open>The loop over a set of locations: Go picks the next one.\<close>

fun fill_loop :: "choices \<Rightarrow> nat \<Rightarrow> point list \<Rightarrow> save_process \<Rightarrow> save_error option \<times> save_process" where
  "fill_loop intn 0 locs sp = (None, sp)"
| "fill_loop intn (Suc n) locs sp =
     (let i = intn (sp_calls sp) (length locs) in
      case fill_location intn (locs ! i) (tick sp) of
        (Some e, sp) \<Rightarrow> (Some e, sp)
      | (None, sp) \<Rightarrow> fill_loop intn n (take i locs @ drop (i + 1) locs) sp)"

definition fillLocations :: "choices \<Rightarrow> point list \<Rightarrow> save_process \<Rightarrow> save_error option \<times> save_process" where
  "fillLocations intn locs sp = fill_loop intn (length locs) locs sp"

text \<open>The keys start again with a longer key length. The recursion has fuel.\<close>

definition regenerate :: "save_process \<Rightarrow> save_process" where
  "regenerate sp = sp\<lparr>sp_keygen := DropKeysPool (sp_keygen sp), sp_output := (sp_output sp)\<lparr>dictionary := [], grid := Map.empty\<rparr>,
     output_content := NewContentIndex [], unused_keys := []\<rparr>"

fun handleLocationsWithoutKeys :: "nat \<Rightarrow> choices \<Rightarrow> save_process \<Rightarrow> (save_error option \<times> save_process) option" where
  "handleLocationsWithoutKeys 0 intn sp = None"
| "handleLocationsWithoutKeys (Suc fuel) intn sp =
     (case tryToReuseKeysByTheirInitialLocation (findLocationsWithoutKey sp) sp of (locs, sp) \<Rightarrow>
      case fillLocations intn locs sp of (err, sp) \<Rightarrow>
        if err = Some RegenerateKeys then handleLocationsWithoutKeys fuel intn (regenerate sp)
        else if err = Some KeysLimitExceeded then Some (Some KeysLimitExceeded, sp)
        else Some (None, sp))"

section \<open>Validation\<close>

text \<open>The bytes of a map that the digest covers; every prefab is encoded as it is read.\<close>

definition digest_prefab :: "prefab \<Rightarrow> nat list" where
  "digest_prefab p = field (go_string (pf_path p)) @ size_bytes (length (pf_vars p)) @
     concat (map (\<lambda>(n, v). field n @ field v) (sorted_fields (pf_vars p)))"

definition digest_tile :: "dmm_data \<Rightarrow> point \<Rightarrow> digest_error + nat list" where
  "digest_tile d p =
     (case grid d p of
        None \<Rightarrow> Inl (NoKey p)
      | Some k \<Rightarrow>
          (case map_of (dictionary d) k of
             None \<Rightarrow> Inl (NoContent k)
           | Some ps \<Rightarrow> Inr (size_bytes (length ps) @ concat (map digest_prefab ps))))"

fun digest_tiles :: "dmm_data \<Rightarrow> point list \<Rightarrow> digest_error + nat list" where
  "digest_tiles d [] = Inr []"
| "digest_tiles d (p # ps) = sum_bind (digest_tile d p) (\<lambda>bs. sum_bind (digest_tiles d ps) (\<lambda>cs. Inr (bs @ cs)))"

definition digest_text :: "dmm_data \<Rightarrow> digest_error + nat list" where
  "digest_text d =
     (if max_x d \<le> 0 \<or> max_y d \<le> 0 \<or> max_z d \<le> 0 then Inl BadDimensions
      else sum_bind (digest_tiles d (box_points (max_x d) (max_y d) (max_z d))) (\<lambda>bs.
        Inr (size_bytes (nat (max_x d)) @ size_bytes (nat (max_y d)) @ size_bytes (nat (max_z d)) @ bs)))"

definition semanticDigest :: "(nat list \<Rightarrow> nat list) \<Rightarrow> dmm_data \<Rightarrow> digest_error + nat list" where
  "semanticDigest sha d = sum_bind (digest_text d) (\<lambda>bs. Inr (sha bs))"

definition compare_saved :: "(nat list \<Rightarrow> nat list) \<Rightarrow> dmm_data \<Rightarrow> dmm_data \<Rightarrow> bool \<Rightarrow> validation_error + unit" where
  "compare_saved sha reparsed d tgm =
     (if is_tgm reparsed \<noteq> tgm then Inl FormatMismatch
      else if max_x reparsed \<noteq> max_x d \<or> max_y reparsed \<noteq> max_y d \<or> max_z reparsed \<noteq> max_z d then Inl DimensionsMismatch
      else
        (case semanticDigest sha d of
           Inl e \<Rightarrow> Inl (SourceNotHashed e)
         | Inr want \<Rightarrow>
             (case semanticDigest sha reparsed of
                Inl e \<Rightarrow> Inl (StagedNotHashed e)
              | Inr got \<Rightarrow> if got \<noteq> want then Inl HashMismatch else Inr ())))"

definition ValidateSavedPair :: "(nat list \<Rightarrow> nat list) \<Rightarrow> runes \<Rightarrow> runes \<Rightarrow> dmm_data \<Rightarrow> dmm_data \<Rightarrow> validation_error + unit" where
  "ValidateSavedPair sha path staged output intended =
     (case parse path staged of
        Inl e \<Rightarrow> Inl (NotParsed e)
      | Inr reparsed \<Rightarrow>
          sum_bind (compare_saved sha reparsed output (is_tgm output)) (\<lambda>_.
            (case compare_saved sha reparsed intended (is_tgm intended) of
               Inl e \<Rightarrow> Inl (DiffersFromIntended e)
             | Inr u \<Rightarrow> Inr u)))"

section \<open>The whole save\<close>

text \<open>\<^verbatim>\<open>writeAndValidate\<close>: the text that replaces the file.\<close>

definition writeAndValidate :: "(nat list \<Rightarrow> nat list) \<Rightarrow> save_process \<Rightarrow> save_error + runes" where
  "writeAndValidate sha sp =
     (let staged = Saved_text (sp_output sp) in
      case ValidateSavedPair sha (file_path (sp_output sp)) staged (sp_output sp) (sp_expected sp) of
        Inl e \<Rightarrow> Inl (ValidationFailed e)
      | Inr u \<Rightarrow> Inr staged)"

definition save_fuel :: nat where "save_fuel = 4"

definition saveV :: "(nat list \<Rightarrow> nat list) \<Rightarrow> choices \<Rightarrow> save_format \<Rightarrow> bool \<Rightarrow> (key_length_plan \<Rightarrow> bool) option \<Rightarrow> environment \<Rightarrow>
    dmm_map \<Rightarrow> dmm_data \<Rightarrow> runes \<Rightarrow> (save_error + runes) option" where
  "saveV sha intn format sanitize confirm env m initial path =
     (let sp = handleReusedKeys (makeOwnedSaveProcess format sanitize env m initial path) in
      case handleLocationsWithoutKeys save_fuel intn sp of
        None \<Rightarrow> None
      | Some (Some e, sp) \<Rightarrow> Some (Inl e)
      | Some (None, sp) \<Rightarrow>
          (let plan = (PlanKeyLength (length (dictionary (sp_output sp))) (key_length (sp_initial sp)))
                 \<lparr>plan_required := key_length (sp_output sp)\<rparr>;
               declined = (case confirm of None \<Rightarrow> False
                 | Some ask \<Rightarrow> key_length (sp_output sp) > key_length (sp_initial sp) \<and> \<not> ask plan)
           in if declined then Some (Inl KeyLengthChangeDeclined) else Some (writeAndValidate sha sp)))"

end
