(* ===== verification/Prefab_Index.thy ===== *)
theory Prefab_Index
  imports Prefab_Identity
begin

text \<open>
  Content equality is an equivalence, equal stacks have equal hashes, the content key tells unequal
  prefabs apart, and the content index finds a key exactly when one holds the content.
\<close>

section \<open>Content equality\<close>

definition names_distinct :: "prefab list \<Rightarrow> bool" where
  "names_distinct ps \<longleftrightarrow> (\<forall>p\<in>set ps. distinct (map fst (pf_vars p)))"

definition same_content :: "prefab \<Rightarrow> runes \<times> (runes \<times> runes) set" where
  "same_content p = (pf_path p, set (pf_vars p))"

definition stack_content :: "prefab list \<Rightarrow> (runes \<times> (runes \<times> runes) set) list" where
  "stack_content ps = map same_content ps"

lemma Prefab_Equals_iff:
  assumes "distinct (map fst (pf_vars p))" "distinct (map fst (pf_vars q))"
  shows "Prefab_Equals p q \<longleftrightarrow> same_content p = same_content q"
proof
  assume e: "Prefab_Equals p q"
  then have len: "length (pf_vars p) = length (pf_vars q)" by (auto simp: Prefab_Equals_def split: if_splits)
  have "set (pf_vars p) \<subseteq> set (pf_vars q)"
  proof
    fix x assume x: "x \<in> set (pf_vars p)"
    then have "fst x \<in> fst ` set (pf_vars p)" "length (pf_vars p) \<noteq> 0" by auto
    then have "map_of (pf_vars p) (fst x) = map_of (pf_vars q) (fst x)"
      using e by (auto simp: Prefab_Equals_def explicit_value_def list_all_iff split: if_splits)
    moreover have "map_of (pf_vars p) (fst x) = Some (snd x)" using assms(1) x by (simp add: map_of_is_SomeI)
    ultimately have "map_of (pf_vars q) (fst x) = Some (snd x)" by simp
    then show "x \<in> set (pf_vars q)" by (metis map_of_SomeD prod.collapse)
  qed
  moreover have "card (set (pf_vars p)) = card (set (pf_vars q))"
    using assms len by (metis distinct_card distinct_map length_map)
  ultimately have "set (pf_vars p) = set (pf_vars q)" by (simp add: card_subset_eq)
  then show "same_content p = same_content q" using e by (auto simp: same_content_def Prefab_Equals_def split: if_splits)
next
  assume s: "same_content p = same_content q"
  then have sets: "set (pf_vars p) = set (pf_vars q)" "pf_path p = pf_path q" by (auto simp: same_content_def)
  then have "length (pf_vars p) = length (pf_vars q)" using assms by (metis distinct_card distinct_map)
  moreover have "map_of (pf_vars p) = map_of (pf_vars q)" using assms sets(1) by (simp add: map_of_inject_set)
  ultimately show "Prefab_Equals p q" using sets by (auto simp: Prefab_Equals_def explicit_value_def list_all_iff)
qed

lemma Prefabs_Equals_iff:
  assumes "names_distinct ps" "names_distinct qs"
  shows "Prefabs_Equals ps qs \<longleftrightarrow> stack_content ps = stack_content qs"
proof -
  have "list_all2 Prefab_Equals ps qs \<longleftrightarrow> list_all2 (\<lambda>p q. same_content p = same_content q) ps qs"
    using assms by (intro list.rel_cong refl Prefab_Equals_iff) (auto simp: names_distinct_def)
  also have "\<dots> \<longleftrightarrow> stack_content ps = stack_content qs"
    by (simp add: stack_content_def list_all2_conv_all_nth list_eq_iff_nth_eq) (auto dest: sym)
  finally show ?thesis by (auto simp: Prefabs_Equals_def stack_content_def dest: map_eq_imp_length_eq)
qed

section \<open>Equal content, equal key\<close>

lemma sorted_fields_cong:
  assumes "distinct (map fst vs)" "distinct (map fst ws)" "set vs = set ws"
  shows "sorted_fields vs = sorted_fields ws"
proof -
  have "mset vs = mset ws" using assms by (metis distinct_map set_eq_iff_mset_eq_distinct)
  then have "sort (map f vs) = sort (map f ws)" for f :: "_ \<Rightarrow> nat list \<times> nat list"
    by (intro properties_for_sort) (simp_all add: mset_map)
  then show ?thesis by (simp add: sorted_fields_def)
qed

lemma content_key_cong:
  assumes "distinct (map fst (pf_vars p))" "distinct (map fst (pf_vars q))" "same_content p = same_content q"
  shows "content_key p = content_key q"
  using assms sorted_fields_cong [of "pf_vars p" "pf_vars q"] by (simp add: content_key_def same_content_def)

lemma Prefabs_Hash_cong:
  assumes "names_distinct ps" "names_distinct qs" "stack_content ps = stack_content qs"
  shows "Prefabs_Hash ps = Prefabs_Hash qs"
proof -
  have "map content_key ps = map content_key qs"
    using assms unfolding stack_content_def
  proof (induction ps arbitrary: qs)
    case (Cons p ps)
    then obtain q qs' where "qs = q # qs'" by (cases qs) auto
    then show ?case using Cons content_key_cong [of p q] by (simp add: names_distinct_def)
  qed simp
  then have "map (\<lambda>k. map of_char (decimal (length k)) @ [58] @ k) (map content_key ps) =
      map (\<lambda>k. map of_char (decimal (length k)) @ [58] @ k) (map content_key qs)" by simp
  then show ?thesis by (simp add: Prefabs_Hash_def comp_def)
qed

section \<open>Unequal content, unequal key\<close>

lemma size_bytes_inj:
  assumes "m < 2 ^ 64" "n < 2 ^ 64" "size_bytes m = size_bytes n"
  shows "m = n"
proof -
  have step: "m div a = n div a" if "m div (256 * a) = n div (256 * a)" "m div a mod 256 = n div a mod 256" for a
  proof -
    have "m div a div 256 = n div a div 256" using that(1) by (simp add: div_mult2_eq mult.commute [of 256 a])
    then show ?thesis using that(2) by (metis div_mult_mod_eq)
  qed
  have "m div 256 ^ 8 = n div 256 ^ 8" using assms(1,2) by simp
  then have "m div 256 ^ 7 = n div 256 ^ 7" using step [of "256 ^ 7"] assms(3) by (simp add: size_bytes_def)
  then have "m div 256 ^ 6 = n div 256 ^ 6" using step [of "256 ^ 6"] assms(3) by (simp add: size_bytes_def)
  then have "m div 256 ^ 5 = n div 256 ^ 5" using step [of "256 ^ 5"] assms(3) by (simp add: size_bytes_def)
  then have "m div 256 ^ 4 = n div 256 ^ 4" using step [of "256 ^ 4"] assms(3) by (simp add: size_bytes_def)
  then have "m div 256 ^ 3 = n div 256 ^ 3" using step [of "256 ^ 3"] assms(3) by (simp add: size_bytes_def)
  then have "m div 256 ^ 2 = n div 256 ^ 2" using step [of "256 ^ 2"] assms(3) by (simp add: size_bytes_def)
  then have "m div 256 ^ 1 = n div 256 ^ 1" using step [of "256 ^ 1"] assms(3) by (simp add: size_bytes_def)
  then show ?thesis using step [of 1] assms(3) by (simp add: size_bytes_def)
qed

lemma field_front:
  assumes "length a < 2 ^ 64" "length b < 2 ^ 64" "field a @ xs = field b @ ys"
  shows "a = b \<and> xs = ys"
proof -
  have l: "length (size_bytes n) = 8" for n by (simp add: size_bytes_def)
  then have "size_bytes (length a) = size_bytes (length b)" "a @ xs = b @ ys" using assms(3) by (simp_all add: field_def)
  then show ?thesis using size_bytes_inj [OF assms(1,2)] by simp
qed

lemma fields_inj:
  assumes "\<forall>(n, v)\<in>set xs. length n < 2 ^ 64 \<and> length v < 2 ^ 64" "\<forall>(n, v)\<in>set ys. length n < 2 ^ 64 \<and> length v < 2 ^ 64"
    and "concat (map (\<lambda>(n, v). field n @ [1] @ field v) xs) = concat (map (\<lambda>(n, v). field n @ [1] @ field v) ys)"
  shows "xs = ys"
  using assms
proof (induction xs arbitrary: ys)
  case Nil
  then show ?case by (cases ys) (auto simp: field_def size_bytes_def)
next
  case (Cons x xs)
  obtain n v where x: "x = (n, v)" by (cases x)
  obtain y ys' where ys: "ys = y # ys'" using Cons.prems(3) by (cases ys) (auto simp: x field_def size_bytes_def)
  obtain n' v' where y: "y = (n', v')" by (cases y)
  let ?r = "\<lambda>zs. concat (map (\<lambda>(n, v). field n @ [1] @ field v) zs)"
  have "n = n' \<and> [1] @ field v @ ?r xs = [1] @ field v' @ ?r ys'"
    by (rule field_front) (use Cons.prems x y ys in simp_all)
  then have n: "n = n'" and "field v @ ?r xs = field v' @ ?r ys'" by simp_all
  then have "v = v' \<and> ?r xs = ?r ys'" by (intro field_front) (use Cons.prems x y ys in simp_all)
  moreover have "xs = ys'" if "?r xs = ?r ys'" by (rule Cons.IH) (use Cons.prems ys that in simp_all)
  ultimately show ?case using n by (simp add: x y ys)
qed

definition runes_ok :: "runes \<Rightarrow> bool" where
  "runes_ok t \<longleftrightarrow> list_all rune_ok t \<and> length t < 2 ^ 62"

definition texts_ok :: "prefab \<Rightarrow> bool" where
  "texts_ok p \<longleftrightarrow> distinct (map fst (pf_vars p)) \<and> runes_ok (pf_path p) \<and> (\<forall>(n, v)\<in>set (pf_vars p). runes_ok n \<and> runes_ok v)"

lemma runes_ok_bytes: "runes_ok t \<Longrightarrow> length (go_string t) < 2 ^ 64"
proof -
  have "length (go_string t) \<le> 4 * length t"
    by (induction t) (auto simp: go_string_def rune_bytes_def Let_def)
  then show "runes_ok t \<Longrightarrow> length (go_string t) < 2 ^ 64" by (simp add: runes_ok_def)
qed

lemma runes_ok_inj: "runes_ok a \<Longrightarrow> runes_ok b \<Longrightarrow> go_string a = go_string b \<Longrightarrow> a = b"
  by (rule go_string_inj) (simp_all add: runes_ok_def list_all_iff)

lemma fields_small:
  assumes "texts_ok p"
  shows "\<forall>(n, v)\<in>set (sorted_fields (pf_vars p)). length n < 2 ^ 64 \<and> length v < 2 ^ 64"
proof -
  have "length (go_string n) < 2 ^ 64 \<and> length (go_string v) < 2 ^ 64" if "(n, v) \<in> set (pf_vars p)" for n v
  proof -
    have "runes_ok n" "runes_ok v" using assms that unfolding texts_ok_def by blast+
    then show ?thesis by (intro conjI runes_ok_bytes)
  qed
  then have "\<forall>x\<in>(\<lambda>(n, v). (go_string n, go_string v)) ` set (pf_vars p). case x of (n, v) \<Rightarrow> length n < 2 ^ 64 \<and> length v < 2 ^ 64"
    by (simp add: case_prod_beta) (metis prod.collapse)
  then show ?thesis by (simp only: sorted_fields_def set_sort set_map)
qed

lemma path_small: "texts_ok p \<Longrightarrow> length (go_string (pf_path p)) < 2 ^ 64"
  using runes_ok_bytes unfolding texts_ok_def by blast

text \<open>The encoded path and the encoded variables in the order of their names give the prefab.\<close>

lemma same_from_texts:
  assumes "texts_ok p" "texts_ok q" "go_string (pf_path p) = go_string (pf_path q)"
    "sorted_fields (pf_vars p) = sorted_fields (pf_vars q)"
  shows "same_content p = same_content q"
proof -
  let ?enc = "\<lambda>(n, v). (go_string n, go_string v)"
  have enc: "set (sorted_fields vs) = ?enc ` set vs" for vs by (simp add: sorted_fields_def)
  have sets: "?enc ` set (pf_vars p) = ?enc ` set (pf_vars q)" using assms(4) by (simp only: enc [symmetric])
  have inj: "x = y" if "x \<in> set (pf_vars a)" "y \<in> set (pf_vars b)" "?enc x = ?enc y" "texts_ok a" "texts_ok b" for x y a b
  proof -
    have "fst x = fst y" "snd x = snd y"
      by (rule runes_ok_inj; use that in \<open>auto simp: texts_ok_def case_prod_beta\<close>)+
    then show ?thesis by (rule prod_eqI)
  qed
  have sub: "set (pf_vars a) \<subseteq> set (pf_vars b)" if "?enc ` set (pf_vars a) = ?enc ` set (pf_vars b)" "texts_ok a" "texts_ok b" for a b
  proof
    fix x assume x: "x \<in> set (pf_vars a)"
    then have "?enc x \<in> ?enc ` set (pf_vars b)" using that(1) by blast
    then obtain y where "y \<in> set (pf_vars b)" "?enc x = ?enc y" by blast
    then show "x \<in> set (pf_vars b)" using inj [OF x _ _ that(2,3)] by metis
  qed
  have "pf_path p = pf_path q" by (rule runes_ok_inj) (use assms in \<open>auto simp: texts_ok_def\<close>)
  then show ?thesis using sub [OF sets assms(1,2)] sub [OF sets [symmetric] assms(2,1)] by (auto simp: same_content_def)
qed

lemma content_key_inj:
  assumes "texts_ok p" "texts_ok q" "content_key p = content_key q"
  shows "same_content p = same_content q"
proof -
  let ?r = "\<lambda>vars. concat (map (\<lambda>(n, v). field n @ [1] @ field v) (sorted_fields vars))"
  have p: "go_string (pf_path p) = go_string (pf_path q) \<and> ?r (pf_vars p) = ?r (pf_vars q)"
    by (rule field_front [OF path_small [OF assms(1)] path_small [OF assms(2)] assms(3) [unfolded content_key_def]])
  have "sorted_fields (pf_vars p) = sorted_fields (pf_vars q)"
    by (rule fields_inj [OF fields_small [OF assms(1)] fields_small [OF assms(2)] conjunct2 [OF p]])
  then show ?thesis by (rule same_from_texts [OF assms(1,2) conjunct1 [OF p]])
qed

text \<open>C33: the structural key of a prefab identifies its saved content: two prefabs have the same key exactly
  when \<^verbatim>\<open>Equals\<close> says they have the same path and the same explicit variables, in whatever order they were
  assigned.\<close>

theorem content_key_identifies:
  assumes "texts_ok p" "texts_ok q"
  shows "content_key p = content_key q \<longleftrightarrow> Prefab_Equals p q"
  using content_key_inj [OF assms] content_key_cong [of p q] Prefab_Equals_iff [of p q] assms by (auto simp: texts_ok_def)

theorem content_key_identifies_witness:
  "Prefab_Equals \<lparr>pf_path = lit ''/obj'', pf_vars = [(lit ''a'', lit ''1''), (lit ''b'', lit ''2'')]\<rparr>
     \<lparr>pf_path = lit ''/obj'', pf_vars = [(lit ''b'', lit ''2''), (lit ''a'', lit ''1'')]\<rparr>"
proof -
  let ?p = "\<lparr>pf_path = lit ''/obj'', pf_vars = [(lit ''a'', lit ''1''), (lit ''b'', lit ''2'')]\<rparr>"
  let ?q = "\<lparr>pf_path = lit ''/obj'', pf_vars = [(lit ''b'', lit ''2''), (lit ''a'', lit ''1'')]\<rparr>"
  have "runes_ok (lit ''/obj'')" "runes_ok (lit ''a'')" "runes_ok (lit ''b'')" "runes_ok (lit ''1'')" "runes_ok (lit ''2'')" "lit ''a'' \<noteq> lit ''b''"
    by (simp_all add: runes_ok_def lit_def rune_ok_def)
  then have "texts_ok ?p" "texts_ok ?q" by (simp_all add: texts_ok_def)
  moreover have "content_key ?p = content_key ?q"
    by (rule content_key_cong) (use \<open>lit ''a'' \<noteq> lit ''b''\<close> in \<open>auto simp: same_content_def\<close>)
  ultimately show ?thesis using content_key_identifies [of ?p ?q] by blast
qed

section \<open>The content index\<close>

text \<open>The index holds the pairs of a map from keys to stacks.\<close>

definition index_of :: "(key \<Rightarrow> prefab list option) \<Rightarrow> content_index \<Rightarrow> bool" where
  "index_of m ix \<longleftrightarrow>
     (\<forall>h. distinct (map fst (by_hash ix h))) \<and>
     (\<forall>h k ps. (k, ps) \<in> set (by_hash ix h) \<longleftrightarrow> m k = Some ps \<and> h = Prefabs_Hash ps) \<and>
     (\<forall>k. key_hashes ix k = map_option Prefabs_Hash (m k))"

lemma find_entry_Some: "find_entry ps es = Some k \<Longrightarrow> \<exists>qs. (k, qs) \<in> set es \<and> Prefabs_Equals ps qs"
  by (induction es rule: find_entry.induct) (auto split: if_splits)

lemma find_entry_None: "find_entry ps es = None \<longleftrightarrow> (\<forall>(k, qs)\<in>set es. \<not> Prefabs_Equals ps qs)"
  by (induction ps es rule: find_entry.induct) auto

lemma Find_Some:
  assumes "index_of m ix" "Find ix h ps = Some k"
  shows "\<exists>qs. m k = Some qs \<and> Prefabs_Equals ps qs"
  using find_entry_Some [OF assms(2) [unfolded Find_def]] assms(1) by (auto simp: index_of_def)

lemma Find_None:
  assumes "index_of m ix" "Find ix (Prefabs_Hash ps) ps = None" "m k = Some qs" "names_distinct ps" "names_distinct qs"
  shows "stack_content qs \<noteq> stack_content ps"
proof
  assume e: "stack_content qs = stack_content ps"
  then have "Prefabs_Hash ps = Prefabs_Hash qs" using Prefabs_Hash_cong assms(4,5) by metis
  then have "(k, qs) \<in> set (by_hash ix (Prefabs_Hash ps))" using assms(1,3) by (simp add: index_of_def)
  then show False using assms(2,4,5) e by (auto simp: Find_def find_entry_None Prefabs_Equals_iff)
qed

lemma drop_entry_set: "distinct (map fst es) \<Longrightarrow> set (drop_entry k es) = {e \<in> set es. fst e \<noteq> k}"
  by (induction k es rule: drop_entry.induct) (auto simp: image_iff)

lemma drop_entry_distinct: "distinct (map fst es) \<Longrightarrow> distinct (map fst (drop_entry k es))"
  by (induction k es rule: drop_entry.induct) (auto simp: drop_entry_set)

lemma put_entry_set: "distinct (map fst es) \<Longrightarrow> set (put_entry k ps es) = insert (k, ps) {e \<in> set es. fst e \<noteq> k}"
  by (induction k ps es rule: put_entry.induct) (auto simp: image_iff)

lemma put_entry_distinct: "distinct (map fst es) \<Longrightarrow> distinct (map fst (put_entry k ps es))"
  by (induction k ps es rule: put_entry.induct) (auto simp: put_entry_set image_iff)

lemma empty_index_of: "index_of Map.empty empty_index"
  by (simp add: index_of_def empty_index_def)

lemma Add_index:
  assumes "index_of m ix"
  shows "index_of (m(k \<mapsto> ps)) (Add ix (Prefabs_Hash ps) k ps)"
proof -
  let ?h = "Prefabs_Hash ps"
  define bh where "bh = (case key_hashes ix k of None \<Rightarrow> by_hash ix
    | Some h' \<Rightarrow> if h' \<noteq> ?h then (by_hash ix)(h' := drop_entry k (by_hash ix h')) else by_hash ix)"
  have i: "\<And>h. distinct (map fst (by_hash ix h))" "\<And>h l qs. (l, qs) \<in> set (by_hash ix h) \<longleftrightarrow> m l = Some qs \<and> h = Prefabs_Hash qs"
    "\<And>l. key_hashes ix l = map_option Prefabs_Hash (m l)"
    using assms by (simp_all add: index_of_def)
  have d: "distinct (map fst (bh h))" for h
    using i(1) drop_entry_distinct by (simp add: bh_def split: option.split)
  have e: "(l, qs) \<in> set (bh h) \<longleftrightarrow> m l = Some qs \<and> h = Prefabs_Hash qs" if "l \<noteq> k \<or> h = ?h" for h l qs
    using i(3) [of k] that drop_entry_set [OF i(1)] by (auto simp: bh_def i(2) split: option.splits)
  have gone: "(k, qs) \<notin> set (bh h)" if "h \<noteq> ?h" for h qs
    using i(3) [of k] that drop_entry_set [OF i(1)] by (auto simp: bh_def i(2) split: option.splits)
  have Add: "Add ix ?h k ps = \<lparr>by_hash = bh(?h := put_entry k ps (bh ?h)), key_hashes = (key_hashes ix)(k \<mapsto> ?h)\<rparr>"
    by (simp add: Add_def bh_def Let_def)
  have "(l, qs) \<in> set ((bh(?h := put_entry k ps (bh ?h))) h) \<longleftrightarrow> (m(k \<mapsto> ps)) l = Some qs \<and> h = Prefabs_Hash qs" for h l qs
    using e [of l h qs] gone [of h qs] put_entry_set [OF d] by (cases "h = ?h") auto
  then show ?thesis using d put_entry_distinct [OF d] i(3) by (simp add: index_of_def Add)
qed

lemma NewContentIndex_index:
  assumes "distinct (map fst dict)"
  shows "index_of (map_of dict) (NewContentIndex dict)"
proof -
  let ?step = "\<lambda>ix k. let ps = (case map_of dict k of None \<Rightarrow> [] | Some ps \<Rightarrow> ps) in Add ix (Prefabs_Hash ps) k ps"
  have "index_of (\<lambda>k. if k \<in> set ks then map_of dict k else m k) (foldl ?step ix ks)"
    if "index_of m ix" "set ks \<subseteq> fst ` set dict" for ks m ix
    using that
  proof (induction ks arbitrary: m ix)
    case (Cons k ks)
    obtain ps where ps: "map_of dict k = Some ps" using Cons.prems(2) by (metis insert_subset list.simps(15) map_of_eq_None_iff not_None_eq)
    have "(\<lambda>l. if l \<in> set ks then map_of dict l else (m(k \<mapsto> ps)) l) = (\<lambda>l. if l \<in> set (k # ks) then map_of dict l else m l)"
      using ps by auto
    then show ?case using Cons.IH [OF Add_index [OF Cons.prems(1)], of k ps] Cons.prems(2) ps by (simp add: Let_def)
  qed simp
  from this [OF empty_index_of, of "sort_key ToNum (map fst dict)"]
  have "index_of (\<lambda>k. if k \<in> fst ` set dict then map_of dict k else None) (NewContentIndex dict)" by (simp add: NewContentIndex_def)
  moreover have "(\<lambda>k. if k \<in> fst ` set dict then map_of dict k else None) = map_of dict" by (auto simp: fun_eq_iff eq_commute [of None] map_of_eq_None_iff)
  ultimately show ?thesis by simp
qed

end
