(* ===== verification/Save_Inv.thy ===== *)
theory Save_Inv
  imports Map_Save Prefab_Index
begin

text \<open>
  The invariant of the key assignment: every key of the output has one content, no two keys have the same,
  every point that has a key has the content of its tile under it, and the keys that can still be given
  out are the ones the output does not use.
\<close>

section \<open>What a save starts from\<close>

definition map_ok :: "dmm_map \<Rightarrow> bool" where
  "map_ok m \<longleftrightarrow> distinct (map fst (mm_tiles m)) \<and> fst ` set (mm_tiles m) = set (box_points (mm_x m) (mm_y m) (mm_z m)) \<and>
     (\<forall>t\<in>set (mm_tiles m). names_distinct (snd t))"

definition initial_ok :: "dmm_data \<Rightarrow> bool" where
  "initial_ok d \<longleftrightarrow> key_length d \<in> {1, 2, 3} \<and> distinct (map fst (dictionary d)) \<and>
     (\<forall>(k, ps)\<in>set (dictionary d). byond_key (key_length d) k \<and> names_distinct ps)"

abbreviation points :: "save_process \<Rightarrow> point set" where
  "points sp \<equiv> set (box_points (mm_x (sp_map sp)) (mm_y (sp_map sp)) (mm_z (sp_map sp)))"

definition tile_content :: "save_process \<Rightarrow> point \<Rightarrow> (runes \<times> (runes \<times> runes) set) list" where
  "tile_content sp p = stack_content (fst (stack_at sp p))"

definition stacks_ok :: "save_process \<Rightarrow> bool" where
  "stacks_ok sp \<longleftrightarrow> (\<forall>p\<in>points sp. names_distinct (fst (stack_at sp p)) \<and> snd (stack_at sp p) = Prefabs_Hash (fst (stack_at sp p)))"

abbreviation out_dict :: "save_process \<Rightarrow> (key \<times> prefab list) list" where
  "out_dict sp \<equiv> dictionary (sp_output sp)"

abbreviation out_keys :: "save_process \<Rightarrow> key set" where
  "out_keys sp \<equiv> fst ` set (out_dict sp)"

text \<open>The part of the invariant that speaks of the output.\<close>

definition out_ok :: "save_process \<Rightarrow> bool" where
  "out_ok sp \<longleftrightarrow> distinct (map fst (out_dict sp)) \<and> index_of (map_of (out_dict sp)) (output_content sp) \<and>
     (\<forall>(k, ps)\<in>set (out_dict sp). \<exists>p\<in>points sp. ps = fst (stack_at sp p)) \<and>
     (\<forall>p k. grid (sp_output sp) p = Some k \<longrightarrow> p \<in> points sp \<and> (\<exists>ps. (k, ps) \<in> set (out_dict sp) \<and> stack_content ps = tile_content sp p)) \<and>
     (\<forall>(k, ps)\<in>set (out_dict sp). \<forall>(l, qs)\<in>set (out_dict sp). stack_content ps = stack_content qs \<longrightarrow> k = l)"

definition keys_ok :: "save_process \<Rightarrow> bool" where
  "keys_ok sp \<longleftrightarrow> key_length (sp_output sp) \<in> {1, 2, 3} \<and>
     (\<forall>k\<in>out_keys sp \<union> set (unused_keys sp). byond_key (key_length (sp_output sp)) k) \<and> out_keys sp \<inter> set (unused_keys sp) = {} \<and>
     (keys_pool (sp_keygen sp) = None \<or> unused_keys sp = [] \<and> pool_ok (key_length (sp_output sp)) (out_keys sp) (sp_keygen sp))"

lemma out_okD:
  assumes "out_ok sp"
  shows "distinct (map fst (out_dict sp))" "index_of (map_of (out_dict sp)) (output_content sp)"
    "\<And>k ps. (k, ps) \<in> set (out_dict sp) \<Longrightarrow> \<exists>p\<in>points sp. ps = fst (stack_at sp p)"
    "\<And>p k. grid (sp_output sp) p = Some k \<Longrightarrow> p \<in> points sp \<and> (\<exists>ps. (k, ps) \<in> set (out_dict sp) \<and> stack_content ps = tile_content sp p)"
    "\<And>k ps l qs. (k, ps) \<in> set (out_dict sp) \<Longrightarrow> (l, qs) \<in> set (out_dict sp) \<Longrightarrow> stack_content ps = stack_content qs \<Longrightarrow> k = l"
  using assms unfolding out_ok_def by blast+

text \<open>What every step leaves alone.\<close>

definition same_input :: "save_process \<Rightarrow> save_process \<Rightarrow> bool" where
  "same_input sp sp' \<longleftrightarrow> sp_map sp' = sp_map sp \<and> sp_initial sp' = sp_initial sp \<and> sp_stacks sp' = sp_stacks sp \<and>
     sp_expected sp' = sp_expected sp \<and> initial_content sp' = initial_content sp \<and> initial_locations sp' = initial_locations sp \<and>
     is_tgm (sp_output sp') = is_tgm (sp_output sp) \<and> line_break (sp_output sp') = line_break (sp_output sp) \<and>
     file_path (sp_output sp') = file_path (sp_output sp) \<and>
     (max_x (sp_output sp'), max_y (sp_output sp'), max_z (sp_output sp')) = (max_x (sp_output sp), max_y (sp_output sp), max_z (sp_output sp))"

lemma same_input_refl [simp]: "same_input sp sp"
  by (simp add: same_input_def)

lemma same_input_trans: "same_input a b \<Longrightarrow> same_input b c \<Longrightarrow> same_input a c"
  by (simp add: same_input_def)

lemma same_input_simps:
  assumes "same_input sp sp'"
  shows "sp_map sp' = sp_map sp" "stack_at sp' = stack_at sp" "tile_content sp' = tile_content sp" "stacks_ok sp' = stacks_ok sp"
    "initial_content sp' = initial_content sp" "sp_initial sp' = sp_initial sp" "initial_locations sp' = initial_locations sp"
proof -
  show s: "sp_map sp' = sp_map sp" "stack_at sp' = stack_at sp" "initial_content sp' = initial_content sp" "sp_initial sp' = sp_initial sp"
      "initial_locations sp' = initial_locations sp"
    using assms by (auto simp: same_input_def stack_at_def fun_eq_iff)
  then show "tile_content sp' = tile_content sp" by (simp add: tile_content_def fun_eq_iff)
  show "stacks_ok sp' = stacks_ok sp" unfolding stacks_ok_def s ..
qed

section \<open>Single updates\<close>

lemma output_fields:
  "out_dict (setOutputKeyContent p k s sp) = set_entry k (fst s) (out_dict sp)"
  "grid (sp_output (setOutputKeyContent p k s sp)) = (grid (sp_output sp))(p \<mapsto> k)"
  "output_content (setOutputKeyContent p k s sp) = Add (output_content sp) (snd s) k (fst s)"
  "unused_keys (setOutputKeyContent p k s sp) = unused_keys sp" "sp_keygen (setOutputKeyContent p k s sp) = sp_keygen sp"
  "key_length (sp_output (setOutputKeyContent p k s sp)) = key_length (sp_output sp)"
  "same_input sp (setOutputKeyContent p k s sp)"
  by (simp_all add: setOutputKeyContent_def set_grid_def Let_def same_input_def)

lemma names_of_dict:
  assumes "out_ok sp" "stacks_ok sp" "(k, ps) \<in> set (out_dict sp)"
  shows "names_distinct ps"
  using out_okD(3) [OF assms(1,3)] assms(2) by (auto simp: stacks_ok_def)

lemma out_ok_set:
  assumes ok: "out_ok sp" "stacks_ok sp" and p: "p \<in> points sp"
    and k: "\<And>l qs. (l, qs) \<in> set (out_dict sp) \<Longrightarrow> l = k \<longleftrightarrow> stack_content qs = tile_content sp p"
  shows "out_ok (setOutputKeyContent p k (stack_at sp p) sp)"
    "out_keys (setOutputKeyContent p k (stack_at sp p) sp) = insert k (out_keys sp)"
    "grid (sp_output sp) q = Some l \<Longrightarrow> grid (sp_output (setOutputKeyContent p k (stack_at sp p) sp)) q \<noteq> None"
proof -
  let ?s = "stack_at sp p" and ?sp = "setOutputKeyContent p k (stack_at sp p) sp"
  note o = out_okD [OF ok(1)]
  note e = set_entry_set [OF o(1), of k "fst ?s"]
  note f = output_fields(1-6) [of p k ?s sp] and i = same_input_simps [OF output_fields(7) [of sp p k ?s]]
  show keys: "out_keys ?sp = insert k (out_keys sp)" unfolding f(1) e(1) by auto
  show "grid (sp_output sp) q = Some l \<Longrightarrow> grid (sp_output ?sp) q \<noteq> None" by (simp add: f(2))
  have h: "snd ?s = Prefabs_Hash (fst ?s)" using ok(2) p by (simp add: stacks_ok_def)
  have c: "stack_content (fst ?s) = tile_content sp p" by (simp add: tile_content_def)
  have "index_of (map_of (out_dict ?sp)) (output_content ?sp)"
    unfolding f(1,3) e(3) h by (rule Add_index [OF o(2)])
  moreover have "\<exists>q\<in>points ?sp. ps = fst (stack_at ?sp q)" if "(l, ps) \<in> set (out_dict ?sp)" for l ps
    using that o(3) [of l ps] p unfolding f(1) e(1) i by auto
  moreover have "q \<in> points ?sp \<and> (\<exists>ps. (l, ps) \<in> set (out_dict ?sp) \<and> stack_content ps = tile_content ?sp q)"
    if g: "grid (sp_output ?sp) q = Some l" for q l
  proof (cases "q = p")
    case True
    then have "l = k" using g unfolding f(2) by simp
    then show ?thesis using p True c unfolding f(1) e(1) i by auto
  next
    case False
    then obtain ps where ps: "q \<in> points sp" "(l, ps) \<in> set (out_dict sp)" "stack_content ps = tile_content sp q"
      using g False o(4) [of q l] unfolding f(2) by auto
    show ?thesis
    proof (cases "l = k")
      case True
      then have "stack_content ps = stack_content (fst ?s)" using k [OF ps(2)] c by simp
      then show ?thesis using ps True unfolding f(1) e(1) i by auto
    next
      case False
      then show ?thesis using ps unfolding f(1) e(1) i by auto
    qed
  qed
  moreover have "l = l'" if "(l, ps) \<in> set (out_dict ?sp)" "(l', qs) \<in> set (out_dict ?sp)" "stack_content ps = stack_content qs" for l ps l' qs
    using that k [of l ps] k [of l' qs] o(5) [of l ps l' qs] c unfolding f(1) e(1) by auto
  ultimately show "out_ok ?sp" unfolding out_ok_def using e(2) unfolding f(1) by blast
qed

section \<open>Reused keys\<close>

lemma Find_cong:
  assumes "names_distinct ps" "names_distinct qs" "stack_content ps = stack_content qs" "index_of m ix" "\<And>k rs. m k = Some rs \<Longrightarrow> names_distinct rs"
  shows "Find ix (Prefabs_Hash ps) ps = Find ix (Prefabs_Hash qs) qs"
proof -
  have "find_entry ps es = find_entry qs es" if "\<forall>(k, rs)\<in>set es. names_distinct rs" for es
    using that assms(1-3) by (induction ps es rule: find_entry.induct) (auto simp: Prefabs_Equals_iff)
  moreover have "\<forall>(k, rs)\<in>set (by_hash ix h). names_distinct rs" for h
    using assms(4,5) by (auto simp: index_of_def)
  ultimately show ?thesis using Prefabs_Hash_cong [OF assms(1-3)] by (simp add: Find_def)
qed

text \<open>The first phase: every key of the output is the one the initial map finds for its content.\<close>

definition reused_ok :: "save_process \<Rightarrow> bool" where
  "reused_ok sp \<longleftrightarrow> out_ok sp \<and> keys_ok sp \<and> keys_pool (sp_keygen sp) = None \<and>
     (\<forall>(k, ps)\<in>set (out_dict sp). Find (initial_content sp) (Prefabs_Hash ps) ps = Some k)"

definition initial_index :: "save_process \<Rightarrow> bool" where
  "initial_index sp \<longleftrightarrow> index_of (map_of (dictionary (sp_initial sp))) (initial_content sp) \<and> initial_ok (sp_initial sp)"

lemma use_key_fields:
  "sp_output (use_key k sp) = sp_output sp" "output_content (use_key k sp) = output_content sp" "sp_keygen (use_key k sp) = sp_keygen sp"
  "unused_keys (use_key k sp) = filter (\<lambda>l. l \<noteq> k) (unused_keys sp)" "same_input sp (use_key k sp)"
  by (simp_all add: use_key_def same_input_def)

lemma out_ok_cong:
  assumes "same_input sp sp'" "dictionary (sp_output sp') = dictionary (sp_output sp)" "grid (sp_output sp') = grid (sp_output sp)"
    "output_content sp' = output_content sp"
  shows "out_ok sp' = out_ok sp"
  unfolding out_ok_def same_input_simps [OF assms(1)] assms(2-4) ..

lemma reuse_tile_ok:
  assumes ok: "reused_ok sp" "stacks_ok sp" "initial_index sp" "fst t \<in> points sp" "key_length (sp_output sp) = key_length (sp_initial sp)"
  shows "reused_ok (reuse_tile sp t)" "same_input sp (reuse_tile sp t)" "key_length (sp_output (reuse_tile sp t)) = key_length (sp_output sp)"
    "grid (sp_output sp) q \<noteq> None \<Longrightarrow> grid (sp_output (reuse_tile sp t)) q \<noteq> None"
    "Find (initial_content sp) (snd (stack_at sp (fst t))) (fst (stack_at sp (fst t))) \<noteq> None \<Longrightarrow> grid (sp_output (reuse_tile sp t)) (fst t) \<noteq> None"
proof -
  let ?p = "fst t" and ?s = "stack_at sp (fst t)" and ?i = "initial_content sp"
  have s: "snd ?s = Prefabs_Hash (fst ?s)" "names_distinct (fst ?s)" using ok(2,4) by (simp_all add: stacks_ok_def)
  have ix: "index_of (map_of (dictionary (sp_initial sp))) ?i" using ok(3) by (simp add: initial_index_def)
  have names: "names_distinct rs" if "map_of (dictionary (sp_initial sp)) k = Some rs" for k rs
    using ok(3) map_of_SomeD [OF that] by (auto simp: initial_index_def initial_ok_def)
  have r: "out_ok sp" "keys_ok sp" "keys_pool (sp_keygen sp) = None" "\<And>k ps. (k, ps) \<in> set (out_dict sp) \<Longrightarrow> Find ?i (Prefabs_Hash ps) ps = Some k"
    using ok(1) by (auto simp: reused_ok_def)
  show "same_input sp (reuse_tile sp t)"
    using same_input_trans [OF output_fields(7) use_key_fields(5)] by (simp add: reuse_tile_def Let_def split: option.split)
  show "key_length (sp_output (reuse_tile sp t)) = key_length (sp_output sp)"
    by (simp add: reuse_tile_def Let_def use_key_fields output_fields split: option.split)
  show "grid (sp_output sp) q \<noteq> None \<Longrightarrow> grid (sp_output (reuse_tile sp t)) q \<noteq> None"
    by (simp add: reuse_tile_def Let_def use_key_fields output_fields split: option.split)
  show "Find ?i (snd ?s) (fst ?s) \<noteq> None \<Longrightarrow> grid (sp_output (reuse_tile sp t)) ?p \<noteq> None"
    by (auto simp: reuse_tile_def Let_def use_key_fields output_fields)
  show "reused_ok (reuse_tile sp t)"
  proof (cases "Find ?i (snd ?s) (fst ?s)")
    case None
    then show ?thesis using ok(1) by (simp add: reuse_tile_def Let_def)
  next
    case (Some k)
    let ?sp1 = "setOutputKeyContent ?p k ?s sp"
    have e: "reuse_tile sp t = use_key k ?sp1" using Some by (simp add: reuse_tile_def Let_def)
    obtain qs where qs: "map_of (dictionary (sp_initial sp)) k = Some qs" "Prefabs_Equals (fst ?s) qs"
      using Find_Some [OF ix Some] by blast
    have byond: "byond_key (key_length (sp_output sp)) k"
      using map_of_SomeD [OF qs(1)] ok(3,5) by (auto simp: initial_index_def initial_ok_def)
    have found: "Find ?i (Prefabs_Hash (fst ?s)) (fst ?s) = Some k" using Some s(1) by simp
    have k: "l = k \<longleftrightarrow> stack_content rs = tile_content sp ?p" if l: "(l, rs) \<in> set (out_dict sp)" for l rs
    proof
      have nd: "names_distinct rs" by (rule names_of_dict [OF r(1) ok(2) l])
      assume "l = k"
      then obtain qs' where "map_of (dictionary (sp_initial sp)) k = Some qs'" "Prefabs_Equals rs qs'"
        using Find_Some [OF ix r(4) [OF l]] by blast
      then have "stack_content rs = stack_content qs" using qs(1) Prefabs_Equals_iff [OF nd names [OF qs(1)]] by simp
      then show "stack_content rs = tile_content sp ?p"
        using qs(2) Prefabs_Equals_iff [OF s(2) names [OF qs(1)]] by (simp add: tile_content_def)
    next
      have nd: "names_distinct rs" by (rule names_of_dict [OF r(1) ok(2) l])
      assume "stack_content rs = tile_content sp ?p"
      then have "Find ?i (Prefabs_Hash rs) rs = Find ?i (Prefabs_Hash (fst ?s)) (fst ?s)"
        using Find_cong [OF nd s(2) _ ix names] by (simp add: tile_content_def)
      then show "l = k" using r(4) [OF l] found by simp
    qed
    note set = out_ok_set [OF r(1) ok(2,4) k]
    have "out_ok (use_key k ?sp1)" using set(1) out_ok_cong [OF use_key_fields(5) [of ?sp1 k]] by (simp add: use_key_fields)
    moreover have "keys_ok (use_key k ?sp1)"
      using r(2,3) byond set(2) unfolding keys_ok_def use_key_fields output_fields(4-6) by auto
    moreover have "Find ?i (Prefabs_Hash ps) ps = Some l" if "(l, ps) \<in> set (out_dict (use_key k ?sp1))" for l ps
      using that r(4) found set_entry_set(1) [OF out_okD(1) [OF r(1)]] by (auto simp: use_key_fields output_fields)
    moreover have "initial_content (use_key k ?sp1) = ?i"
      using same_input_simps(5) [OF same_input_trans [OF output_fields(7) use_key_fields(5)]] .
    ultimately show ?thesis using r(3) unfolding e reused_ok_def by (auto simp: use_key_fields output_fields)
  qed
qed

lemma handleReusedKeys_ok:
  assumes ok: "reused_ok sp" "stacks_ok sp" "initial_index sp" "map_ok (sp_map sp)" "key_length (sp_output sp) = key_length (sp_initial sp)"
    "sp' = handleReusedKeys sp"
  shows "reused_ok sp'" "same_input sp sp'" "key_length (sp_output sp') = key_length (sp_output sp)"
    "p \<in> points sp' \<Longrightarrow> grid (sp_output sp') p = None \<Longrightarrow> (k, ps) \<in> set (out_dict sp') \<Longrightarrow> stack_content ps \<noteq> tile_content sp' p"
proof -
  have run: "reused_ok (foldl reuse_tile sp ts) \<and> same_input sp (foldl reuse_tile sp ts) \<and>
      key_length (sp_output (foldl reuse_tile sp ts)) = key_length (sp_output sp) \<and>
      (\<forall>q. grid (sp_output sp) q \<noteq> None \<longrightarrow> grid (sp_output (foldl reuse_tile sp ts)) q \<noteq> None) \<and>
      (\<forall>t\<in>set ts. Find (initial_content sp) (snd (stack_at sp (fst t))) (fst (stack_at sp (fst t))) \<noteq> None \<longrightarrow>
        grid (sp_output (foldl reuse_tile sp ts)) (fst t) \<noteq> None)"
    if "reused_ok sp" "stacks_ok sp" "initial_index sp" "\<forall>t\<in>set ts. fst t \<in> points sp" "key_length (sp_output sp) = key_length (sp_initial sp)" for ts sp
    using that
  proof (induction ts arbitrary: sp)
    case Nil
    then show ?case by simp
  next
    case (Cons t ts)
    have t: "fst t \<in> points sp" using Cons.prems(4) by simp
    note step = reuse_tile_ok [OF Cons.prems(1-3) t Cons.prems(5)]
    let ?sp1 = "reuse_tile sp t"
    note i = same_input_simps [OF step(2)]
    have ix: "initial_index ?sp1" using Cons.prems(3) unfolding initial_index_def i .
    have IH: "reused_ok (foldl reuse_tile ?sp1 ts) \<and> same_input ?sp1 (foldl reuse_tile ?sp1 ts) \<and>
      key_length (sp_output (foldl reuse_tile ?sp1 ts)) = key_length (sp_output ?sp1) \<and>
      (\<forall>q. grid (sp_output ?sp1) q \<noteq> None \<longrightarrow> grid (sp_output (foldl reuse_tile ?sp1 ts)) q \<noteq> None) \<and>
      (\<forall>t\<in>set ts. Find (initial_content ?sp1) (snd (stack_at ?sp1 (fst t))) (fst (stack_at ?sp1 (fst t))) \<noteq> None \<longrightarrow>
        grid (sp_output (foldl reuse_tile ?sp1 ts)) (fst t) \<noteq> None)"
      by (rule Cons.IH [OF step(1)]) (use Cons.prems step(3) ix in \<open>simp_all add: i\<close>)
    show ?case
    proof (intro conjI)
      show "\<forall>q. grid (sp_output sp) q \<noteq> None \<longrightarrow> grid (sp_output (foldl reuse_tile sp (t # ts))) q \<noteq> None"
        using IH step(4) unfolding foldl_Cons by blast
      show "\<forall>a\<in>set (t # ts). Find (initial_content sp) (snd (stack_at sp (fst a))) (fst (stack_at sp (fst a))) \<noteq> None \<longrightarrow>
          grid (sp_output (foldl reuse_tile sp (t # ts))) (fst a) \<noteq> None"
        using IH step(5) unfolding i foldl_Cons list.set by (metis insertE)
    qed (use IH step(3) same_input_trans [OF step(2)] in simp_all)
  qed
  have tiles: "\<forall>t\<in>set (mm_tiles (sp_map sp)). fst t \<in> points sp" using ok(4) by (auto simp: map_ok_def)
  note r = run [OF ok(1-3) tiles ok(5), folded handleReusedKeys_def, folded ok(6)]
  show "reused_ok sp'" "same_input sp sp'" "key_length (sp_output sp') = key_length (sp_output sp)" using r by blast+
  assume p: "p \<in> points sp'" "grid (sp_output sp') p = None" "(k, ps) \<in> set (out_dict sp')"
  note i = same_input_simps [OF \<open>same_input sp sp'\<close>]
  obtain t where t: "t \<in> set (mm_tiles (sp_map sp))" "p = fst t"
    using p(1) ok(4) unfolding i map_ok_def by (metis imageE)
  have none: "Find (initial_content sp) (snd (stack_at sp p)) (fst (stack_at sp p)) = None" using r t p(2) by auto
  have st: "stacks_ok sp'" "p \<in> points sp" using ok(2) p(1) unfolding i by simp_all
  have found: "Find (initial_content sp) (Prefabs_Hash ps) ps = Some k"
    using r p(3) unfolding reused_ok_def i by auto
  have ix: "index_of (map_of (dictionary (sp_initial sp))) (initial_content sp)" using ok(3) by (simp add: initial_index_def)
  have names: "names_distinct rs" if "map_of (dictionary (sp_initial sp)) l = Some rs" for l rs
    using ok(3) map_of_SomeD [OF that] by (auto simp: initial_index_def initial_ok_def)
  have nd: "names_distinct ps" using names_of_dict [OF _ st(1) p(3)] r by (simp add: reused_ok_def)
  show "stack_content ps \<noteq> tile_content sp' p"
  proof
    assume "stack_content ps = tile_content sp' p"
    then have "Find (initial_content sp) (Prefabs_Hash ps) ps =
        Find (initial_content sp) (Prefabs_Hash (fst (stack_at sp p))) (fst (stack_at sp p))"
      using Find_cong [OF nd _ _ ix names] ok(2) st(2) unfolding i by (simp add: tile_content_def stacks_ok_def)
    then show False using found none ok(2) st(2) by (simp add: stacks_ok_def)
  qed
qed

section \<open>Keys at their old places\<close>

lemma set_grid_fields:
  "dictionary (sp_output (set_grid p k sp)) = dictionary (sp_output sp)" "grid (sp_output (set_grid p k sp)) = (grid (sp_output sp))(p \<mapsto> k)"
  "output_content (set_grid p k sp) = output_content sp" "unused_keys (set_grid p k sp) = unused_keys sp"
  "sp_keygen (set_grid p k sp) = sp_keygen sp" "key_length (sp_output (set_grid p k sp)) = key_length (sp_output sp)"
  "same_input sp (set_grid p k sp)"
  by (simp_all add: set_grid_def same_input_def)

lemma out_ok_set_grid:
  assumes "out_ok sp" "p \<in> points sp" "(k, ps) \<in> set (out_dict sp)" "stack_content ps = tile_content sp p"
  shows "out_ok (set_grid p k sp)"
proof -
  note i = same_input_simps [OF set_grid_fields(7) [of sp p k]]
  have "q \<in> points sp \<and> (\<exists>ps. (l, ps) \<in> set (out_dict sp) \<and> stack_content ps = tile_content sp q)"
    if "((grid (sp_output sp))(p \<mapsto> k)) q = Some l" for q l
    using that assms(2-4) out_okD(4) [OF assms(1), of q l] by (cases "q = p") auto
  then show ?thesis using assms(1) unfolding out_ok_def i set_grid_fields(1-3) by blast
qed

text \<open>The points in \<open>locs\<close> have contents that no key has, except the keys of the index \<open>reused\<close>; every
  other point has a key.\<close>

definition placed_ok :: "point list \<times> content_index \<times> save_process \<Rightarrow> bool" where
  "placed_ok x \<longleftrightarrow> (case x of (locs, reused, sp) \<Rightarrow>
     out_ok sp \<and> keys_ok sp \<and> keys_pool (sp_keygen sp) = None \<and> stacks_ok sp \<and> distinct locs \<and> set locs \<subseteq> points sp \<and>
     (\<forall>p\<in>points sp - set locs. grid (sp_output sp) p \<noteq> None) \<and>
     (\<exists>m. index_of m reused \<and> (\<forall>k ps. m k = Some ps \<longrightarrow> (k, ps) \<in> set (out_dict sp)) \<and>
       (\<forall>p\<in>set locs. \<forall>(k, ps)\<in>set (out_dict sp). stack_content ps = tile_content sp p \<longrightarrow> m k = Some ps)))"

lemma placed_cases:
  assumes ok: "placed_ok (locs, reused, sp)" and p: "p \<in> set locs" and s: "s = stack_at sp p"
  shows "Find reused (snd s) (fst s) = Some k \<Longrightarrow> \<exists>ps. (k, ps) \<in> set (out_dict sp) \<and> stack_content ps = tile_content sp p"
    "Find reused (snd s) (fst s) = None \<Longrightarrow> (k, ps) \<in> set (out_dict sp) \<Longrightarrow> stack_content ps \<noteq> tile_content sp p"
proof -
  obtain m where m: "index_of m reused" "\<And>k ps. m k = Some ps \<Longrightarrow> (k, ps) \<in> set (out_dict sp)"
      "\<And>k ps. (k, ps) \<in> set (out_dict sp) \<Longrightarrow> stack_content ps = tile_content sp p \<Longrightarrow> m k = Some ps"
    using ok p unfolding placed_ok_def prod.case by blast
  have st: "out_ok sp" "stacks_ok sp" "names_distinct (fst s)" "snd s = Prefabs_Hash (fst s)" "tile_content sp p = stack_content (fst s)"
    using ok p unfolding placed_ok_def prod.case stacks_ok_def s tile_content_def by auto
  note nd = names_of_dict [OF st(1,2)]
  show "Find reused (snd s) (fst s) = Some k \<Longrightarrow> \<exists>ps. (k, ps) \<in> set (out_dict sp) \<and> stack_content ps = tile_content sp p"
  proof -
    assume "Find reused (snd s) (fst s) = Some k"
    then obtain qs where qs: "m k = Some qs" "Prefabs_Equals (fst s) qs" using Find_Some [OF m(1)] by blast
    then have "stack_content qs = tile_content sp p" using Prefabs_Equals_iff [OF st(3) nd [OF m(2) [OF qs(1)]]] st(5) by simp
    then show ?thesis using m(2) [OF qs(1)] by blast
  qed
  show "Find reused (snd s) (fst s) = None \<Longrightarrow> (k, ps) \<in> set (out_dict sp) \<Longrightarrow> stack_content ps \<noteq> tile_content sp p"
  proof
    assume a: "Find reused (snd s) (fst s) = None" "(k, ps) \<in> set (out_dict sp)" "stack_content ps = tile_content sp p"
    show False using Find_None [OF m(1) a(1) [unfolded st(4)] m(3) [OF a(2,3)] st(3) nd [OF a(2)]] a(3) st(5) by simp
  qed
qed

lemma reuse_at_ok:
  assumes "placed_ok (locs, reused, sp)" "k \<in> set (unused_keys sp)" "reuse_at k ps (locs, reused, sp) = (locs', reused', sp')"
  shows "placed_ok (locs', reused', sp') \<and> same_input sp sp' \<and> key_length (sp_output sp') = key_length (sp_output sp)"
  using assms
proof (induction ps arbitrary: sp)
  case Nil
  then show ?case by simp
next
  case (Cons p ps)
  note ok = Cons.prems(1)
  show ?case
  proof (cases "p \<in> set locs")
    case False
    then show ?thesis using Cons by simp
  next
    case p: True
    define s where "s = stack_at sp p"
    have P: "p \<in> points sp" "out_ok sp" "stacks_ok sp" using ok p by (auto simp: placed_ok_def)
    show ?thesis
    proof (cases "Find reused (snd s) (fst s)")
      case (Some cached)
      then obtain qs where qs: "(cached, qs) \<in> set (out_dict sp)" "stack_content qs = tile_content sp p"
        using placed_cases(1) [OF ok p s_def] by blast
      let ?sp1 = "set_grid p cached sp"
      note i = same_input_simps [OF set_grid_fields(7) [of sp p cached]]
      have "placed_ok (locs, reused, ?sp1)"
        using ok out_ok_set_grid [OF P(2,1) qs] unfolding placed_ok_def prod.case keys_ok_def i set_grid_fields by auto
      moreover have "reuse_at k ps (locs, reused, ?sp1) = (locs', reused', sp')"
        using Cons.prems(3) p Some by (simp add: s_def Let_def)
      ultimately have "placed_ok (locs', reused', sp') \<and> same_input ?sp1 sp' \<and> key_length (sp_output sp') = key_length (sp_output ?sp1)"
        using Cons.prems(2) by (intro Cons.IH) (simp_all add: set_grid_fields)
      then show ?thesis using same_input_trans [OF set_grid_fields(7) [of sp p cached]] by (simp add: set_grid_fields)
    next
      case None
      define sp1 where "sp1 = setOutputKeyContent p k s sp"
      have e: "locs' = filter (\<lambda>q. q \<noteq> p) locs" "reused' = Add reused (snd s) k (fst s)" "sp' = use_key k sp1"
        using Cons.prems(3) p None by (simp_all add: s_def [symmetric] Let_def sp1_def)
      have K: "keys_ok sp" "k \<notin> out_keys sp" "byond_key (key_length (sp_output sp)) k" "keys_pool (sp_keygen sp) = None"
        using ok Cons.prems(2) by (auto simp: placed_ok_def keys_ok_def)
      have k: "l = k \<longleftrightarrow> stack_content rs = tile_content sp p" if "(l, rs) \<in> set (out_dict sp)" for l rs
        using that K(2) placed_cases(2) [OF ok p s_def None that] by force
      note set = out_ok_set [OF P(2,3,1) k, folded s_def, folded sp1_def]
      note f = output_fields [where p = p and k = k and s = s and sp = sp, folded sp1_def]
      have in1: "same_input sp sp'" unfolding e by (rule same_input_trans [OF f(7) use_key_fields(5)])
      note i = same_input_simps [OF in1]
      have out': "out_ok sp'" using set(1) out_ok_cong [OF use_key_fields(5) [of sp1 k]] by (simp add: e use_key_fields)
      have keys': "keys_ok sp'"
        using K set(2) unfolding keys_ok_def e use_key_fields f(4-6) by auto
      obtain m where m: "index_of m reused" "\<And>l qs. m l = Some qs \<Longrightarrow> (l, qs) \<in> set (out_dict sp)"
          "\<And>q l qs. q \<in> set locs \<Longrightarrow> (l, qs) \<in> set (out_dict sp) \<Longrightarrow> stack_content qs = tile_content sp q \<Longrightarrow> m l = Some qs"
        using ok unfolding placed_ok_def prod.case by blast
      have d: "set (out_dict sp') = insert (k, fst s) {x \<in> set (out_dict sp). fst x \<noteq> k}"
        using set_entry_set(1) [OF out_okD(1) [OF P(2)]] by (simp add: e use_key_fields f)
      have h: "snd s = Prefabs_Hash (fst s)" using P(1,3) by (simp add: s_def stacks_ok_def)
      have mk: "m k = None" using m(2) K(2) by (cases "m k") force+
      define m' where "m' = m(k \<mapsto> fst s)"
      have "index_of m' reused'" using Add_index [OF m(1), of k "fst s"] unfolding m'_def e(2) h .
      moreover have "(l, qs) \<in> set (out_dict sp')" if "m' l = Some qs" for l qs
        using that m(2) [of l qs] unfolding d m'_def by (cases "l = k") auto
      moreover have "m' l = Some qs"
        if q: "q \<in> set locs'" "(l, qs) \<in> set (out_dict sp')" "stack_content qs = tile_content sp' q" for q l qs
      proof (cases "l = k")
        case True
        then show ?thesis using q(2) unfolding d m'_def by auto
      next
        case False
        then have "(l, qs) \<in> set (out_dict sp)" "q \<in> set locs" using q(1,2) unfolding d e(1) by auto
        then show ?thesis using m(3) q(3) False unfolding m'_def i by simp
      qed
      ultimately have "\<exists>m. index_of m reused' \<and> (\<forall>l qs. m l = Some qs \<longrightarrow> (l, qs) \<in> set (out_dict sp')) \<and>
          (\<forall>q\<in>set locs'. \<forall>(l, qs)\<in>set (out_dict sp'). stack_content qs = tile_content sp' q \<longrightarrow> m l = Some qs)" by blast
      moreover have "\<forall>q\<in>points sp' - set locs'. grid (sp_output sp') q \<noteq> None"
        using ok unfolding placed_ok_def prod.case i e(1) by (auto simp: e(3) use_key_fields f)
      moreover have "keys_pool (sp_keygen sp') = None" "key_length (sp_output sp') = key_length (sp_output sp)"
        using K(4) by (simp_all add: e use_key_fields f)
      ultimately show ?thesis using ok in1 out' keys' unfolding placed_ok_def prod.case i by (auto simp: e(1))
    qed
  qed
qed

lemma reuse_keys_ok:
  assumes "placed_ok (locs, reused, sp)" "reuse_keys ks (locs, reused, sp) = (locs', reused', sp')"
  shows "placed_ok (locs', reused', sp') \<and> same_input sp sp' \<and> key_length (sp_output sp') = key_length (sp_output sp)"
  using assms
proof (induction ks arbitrary: locs reused sp)
  case (Cons k ks)
  show ?case
  proof (cases "k \<in> set (unused_keys sp)")
    case False
    then show ?thesis using Cons by simp
  next
    case True
    obtain l1 r1 s1 where r: "reuse_at k (initial_locations sp k) (locs, reused, sp) = (l1, r1, s1)" by (metis prod_cases3)
    have 1: "placed_ok (l1, r1, s1) \<and> same_input sp s1 \<and> key_length (sp_output s1) = key_length (sp_output sp)"
      by (rule reuse_at_ok [OF Cons.prems(1) True r])
    then have "placed_ok (locs', reused', sp') \<and> same_input s1 sp' \<and> key_length (sp_output sp') = key_length (sp_output s1)"
      using Cons.prems(2) True r by (intro Cons.IH) simp_all
    then show ?thesis using 1 same_input_trans by simp blast
  qed
qed simp

end
