(* ===== verification/Save_Keys.thy ===== *)
theory Save_Keys
  imports Save_Inv
begin

text \<open>
  How the remaining locations get their keys, when the key length has to grow, and what the whole key
  assignment ends with.
\<close>

section \<open>Counting contents\<close>

definition contents :: "save_process \<Rightarrow> (runes \<times> (runes \<times> runes) set) list set" where
  "contents sp = tile_content sp ` points sp"

lemma same_contents: "same_input sp sp' \<Longrightarrow> contents sp' = contents sp"
  by (simp add: contents_def same_input_simps)

lemma dict_contents:
  assumes "out_ok sp"
  shows "stack_content ` snd ` set (out_dict sp) \<subseteq> contents sp"
    "card (stack_content ` snd ` set (out_dict sp)) = card (out_keys sp)" "card (out_keys sp) = length (out_dict sp)"
proof -
  note o = out_okD [OF assms]
  show "stack_content ` snd ` set (out_dict sp) \<subseteq> contents sp"
    using o(3) by (fastforce simp: contents_def tile_content_def)
  have "inj_on (\<lambda>x. stack_content (snd x)) (set (out_dict sp))"
  proof (rule inj_onI)
    fix x y assume x: "x \<in> set (out_dict sp)" "y \<in> set (out_dict sp)" "stack_content (snd x) = stack_content (snd y)"
    then have "fst x = fst y" using o(5) [of "fst x" "snd x" "fst y" "snd y"] by simp
    then show "x = y" using x o(1) by (metis eq_key_imp_eq_value prod.collapse)
  qed
  then have "card (stack_content ` snd ` set (out_dict sp)) = card (set (out_dict sp))"
    unfolding image_image by (rule card_image)
  moreover have "card (out_keys sp) = card (set (out_dict sp))" using o(1) by (metis card_image distinct_map)
  moreover have "card (set (out_dict sp)) = length (out_dict sp)" using o(1) distinct_card distinct_map by blast
  ultimately show "card (stack_content ` snd ` set (out_dict sp)) = card (out_keys sp)" "card (out_keys sp) = length (out_dict sp)"
    by simp_all
qed

lemma finite_contents: "finite (contents sp)"
  by (simp add: contents_def)

lemma room_used_up:
  assumes "out_ok sp" "p \<in> points sp" "\<And>k ps. (k, ps) \<in> set (out_dict sp) \<Longrightarrow> stack_content ps \<noteq> tile_content sp p"
    "l \<in> {1, 2, 3}" "{k. byond_key l k} \<subseteq> out_keys sp"
  shows "Capacity l < card (contents sp)"
proof -
  have "Capacity l \<le> card (out_keys sp)" using card_byond_keys [OF assms(4)] card_mono [OF _ assms(5)] by simp
  moreover have "stack_content ` snd ` set (out_dict sp) \<subset> contents sp"
  proof -
    have "tile_content sp p \<in> contents sp" using assms(2) by (simp add: contents_def)
    moreover have "tile_content sp p \<notin> stack_content ` snd ` set (out_dict sp)" using assms(3) by force
    ultimately show ?thesis using dict_contents(1) [OF assms(1)] by blast
  qed
  then have "card (stack_content ` snd ` set (out_dict sp)) < card (contents sp)" by (rule psubset_card_mono [OF finite_contents])
  ultimately show ?thesis unfolding dict_contents(2) [OF assms(1)] by linarith
qed

lemma all_placed:
  assumes "out_ok sp" "keys_ok sp" "\<forall>p\<in>points sp. grid (sp_output sp) p \<noteq> None"
  shows "length (out_dict sp) = card (contents sp)" "card (contents sp) \<le> Capacity (key_length (sp_output sp))"
proof -
  have "contents sp \<subseteq> stack_content ` snd ` set (out_dict sp)"
  proof
    fix c assume "c \<in> contents sp"
    then obtain p where p: "p \<in> points sp" "c = tile_content sp p" by (auto simp: contents_def)
    then obtain k where "grid (sp_output sp) p = Some k" using assms(3) by blast
    then obtain ps where "(k, ps) \<in> set (out_dict sp)" "stack_content ps = c" using out_okD(4) [OF assms(1)] p(2) by blast
    then show "c \<in> stack_content ` snd ` set (out_dict sp)" by force
  qed
  then have "stack_content ` snd ` set (out_dict sp) = contents sp" using dict_contents(1) [OF assms(1)] by blast
  then have c: "card (contents sp) = card (out_keys sp)" using dict_contents(2) [OF assms(1)] by simp
  then show "length (out_dict sp) = card (contents sp)" using dict_contents(3) [OF assms(1)] by simp
  have l: "key_length (sp_output sp) \<in> {1, 2, 3}" "out_keys sp \<subseteq> {k. byond_key (key_length (sp_output sp)) k}"
    using assms(2) by (auto simp: keys_ok_def)
  then show "card (contents sp) \<le> Capacity (key_length (sp_output sp))"
    using card_byond_keys [OF l(1)] card_mono [OF _ l(2)] c by simp
qed

section \<open>The remaining locations\<close>

definition fair :: "choices \<Rightarrow> bool" where
  "fair intn \<longleftrightarrow> (\<forall>i n. 0 < n \<longrightarrow> intn i n < n)"

lemma tick_fields: "same_input sp (tick sp)" "sp_output (tick sp) = sp_output sp" "output_content (tick sp) = output_content sp"
  "unused_keys (tick sp) = unused_keys sp" "sp_keygen (tick sp) = sp_keygen sp"
  by (simp_all add: tick_def same_input_def)

lemma out_ok_tick [simp]: "out_ok (tick sp) = out_ok sp" "keys_ok (tick sp) = keys_ok sp" "stacks_ok (tick sp) = stacks_ok sp"
  using out_ok_cong [OF tick_fields(1)] same_input_simps(4) [OF tick_fields(1)] by (simp_all add: tick_fields keys_ok_def)

text \<open>What a turn of the loop and the whole loop end with.\<close>

definition filled :: "save_process \<Rightarrow> save_error option \<Rightarrow> save_process \<Rightarrow> bool" where
  "filled sp err sp' \<longleftrightarrow> same_input sp sp' \<and>
     (case err of
        None \<Rightarrow> out_ok sp' \<and> keys_ok sp' \<and> key_length (sp_output sp') = key_length (sp_output sp) \<and>
          (\<forall>q. grid (sp_output sp) q \<noteq> None \<longrightarrow> grid (sp_output sp') q \<noteq> None)
      | Some e \<Rightarrow> Capacity (key_length (sp_output sp)) < card (contents sp) \<and>
          (if key_length (sp_output sp) = 3 then e = KeysLimitExceeded
           else e = RegenerateKeys \<and> key_length (sp_output sp') = key_length (sp_output sp) + 1))"

lemma fill_location_ok:
  assumes ok: "out_ok sp" "keys_ok sp" "stacks_ok sp" "fair intn" "p \<in> points sp" and run: "fill_location intn p sp = (err, sp')"
  shows "filled sp err sp'" "err = None \<Longrightarrow> grid (sp_output sp') p \<noteq> None"
proof -
  define s where "s = stack_at sp p"
  let ?l = "key_length (sp_output sp)"
  have S: "names_distinct (fst s)" "snd s = Prefabs_Hash (fst s)" "stack_content (fst s) = tile_content sp p"
    using ok(3,5) by (simp_all add: stacks_ok_def s_def tile_content_def)
  note o = out_okD [OF ok(1)] and nd = names_of_dict [OF ok(1,3)]
  have K: "?l \<in> {1, 2, 3}" "\<forall>k\<in>out_keys sp \<union> set (unused_keys sp). byond_key ?l k" "out_keys sp \<inter> set (unused_keys sp) = {}"
      "keys_pool (sp_keygen sp) = None \<or> unused_keys sp = [] \<and> pool_ok ?l (out_keys sp) (sp_keygen sp)"
    using ok(2) by (simp_all add: keys_ok_def)
  have "filled sp err sp' \<and> (err = None \<longrightarrow> grid (sp_output sp') p \<noteq> None)"
  proof (cases "Find (output_content sp) (snd s) (fst s)")
    case (Some k)
    then have e: "err = None" "sp' = setOutputKeyContent p k s sp" using run by (simp_all add: fill_location_def s_def)
    obtain qs where qs: "(k, qs) \<in> set (out_dict sp)" "Prefabs_Equals (fst s) qs"
      using Find_Some [OF o(2) Some] map_of_SomeD by fastforce
    have c: "stack_content qs = tile_content sp p" using Prefabs_Equals_iff [OF S(1) nd [OF qs(1)]] qs(2) S(3) by simp
    have k: "l = k \<longleftrightarrow> stack_content rs = tile_content sp p" if "(l, rs) \<in> set (out_dict sp)" for l rs
      using o(5) [OF that qs(1)] c eq_key_imp_eq_value [OF o(1)] that qs(1) by metis
    note set = out_ok_set [OF ok(1,3,5) k, folded s_def]
    have "insert k (out_keys sp) = out_keys sp" using qs(1) by force
    then have "keys_ok sp'" using ok(2) set(2) unfolding keys_ok_def e output_fields(4-6) by simp
    then show ?thesis using set(1,3) output_fields(2,6,7) by (simp add: filled_def e)
  next
    case None
    have new: "stack_content rs \<noteq> tile_content sp p" if r: "(l, rs) \<in> set (out_dict sp)" for l rs
      using Find_None [OF o(2) None [unfolded S(2)] _ S(1) nd [OF r]] r o(1) S(3) by (metis map_of_is_SomeI)
    have fresh: "filled sp None (setOutputKeyContent p k s sp1) \<and> grid (sp_output (setOutputKeyContent p k s sp1)) p \<noteq> None"
      if k: "k \<notin> out_keys sp" "byond_key ?l k" and sp1: "same_input sp sp1" "sp_output sp1 = sp_output sp" "output_content sp1 = output_content sp"
        and u: "set (unused_keys sp1) \<subseteq> set (unused_keys sp) - {k}"
        and pool: "keys_pool (sp_keygen sp1) = None \<or> unused_keys sp1 = [] \<and> pool_ok ?l (insert k (out_keys sp)) (sp_keygen sp1)" for k sp1
    proof -
      note i = same_input_simps [OF sp1(1)]
      have ok1: "out_ok sp1" "stacks_ok sp1" "p \<in> points sp1" "s = stack_at sp1 p"
        using ok out_ok_cong [OF sp1(1)] sp1 i by (simp_all add: s_def)
      have k1: "l = k \<longleftrightarrow> stack_content rs = tile_content sp1 p" if "(l, rs) \<in> set (out_dict sp1)" for l rs
        using that k(1) new [of l rs] sp1(2) i(3) by force
      note set = out_ok_set [OF ok1(1-3) k1, folded ok1(4)]
      have "keys_ok (setOutputKeyContent p k s sp1)"
        using K k u pool sp1(2) set(2) unfolding keys_ok_def output_fields(4-6) by auto
      then show ?thesis
        using set(1,3) output_fields(2,6) same_input_trans [OF sp1(1) output_fields(7)] sp1(2) by (simp add: filled_def)
    qed
    show ?thesis
    proof (cases "unused_keys sp = []")
      case False
      let ?k = "unused_keys sp ! intn (sp_calls sp) (length (unused_keys sp))"
      have k: "?k \<in> set (unused_keys sp)" using ok(4) False by (simp add: fair_def)
      have e: "err = None" "sp' = setOutputKeyContent p ?k s (use_key ?k (tick sp))"
        using run None False by (simp_all add: fill_location_def s_def [symmetric] Let_def)
      show ?thesis unfolding e(2) e(1)
        using fresh [of ?k "use_key ?k (tick sp)"] k K same_input_trans [OF tick_fields(1) use_key_fields(5)] False
        by (auto simp: use_key_fields tick_fields)
    next
      case True
      obtain k newSize g where c: "CreateKey (sp_output sp) (intn (sp_calls sp)) (sp_keygen sp) = ((k, newSize), g)" by (metis prod_cases3 surj_pair)
      have "pool_ok ?l (out_keys sp) (sp_keygen sp)" using K(4) by (auto simp: pool_ok_def split: option.splits)
      moreover have "intn (sp_calls sp) n < n" if "0 < n" for n using ok(4) that by (simp add: fair_def)
      ultimately have made: "if {k. byond_key ?l k} \<subseteq> out_keys sp then newSize = (if ?l = 1 then 2 else if ?l = 2 then 3 else - 1)
          else newSize = 0 \<and> byond_key ?l k \<and> k \<notin> out_keys sp \<and> pool_ok ?l (insert k (out_keys sp)) g"
        by (rule CreateKey_spec [OF K(1) refl _ _ c])
      define sp1 where "sp1 = (tick sp)\<lparr>sp_keygen := g\<rparr>"
      have i1: "same_input sp sp1" "sp_output sp1 = sp_output sp" "output_content sp1 = output_content sp" "unused_keys sp1 = unused_keys sp" "sp_keygen sp1 = g"
        by (simp_all add: sp1_def tick_def same_input_def)
      have e: "(err, sp') = (if newSize \<noteq> 0 then
            (if newSize = - 1 then (Some KeysLimitExceeded, sp1) else (Some RegenerateKeys, sp1\<lparr>sp_output := (sp_output sp1)\<lparr>key_length := nat newSize\<rparr>\<rparr>))
          else (None, setOutputKeyContent p k s sp1))"
        using run None True c by (auto simp: fill_location_def s_def [symmetric] Let_def sp1_def split: if_splits)
      show ?thesis
      proof (cases "{k. byond_key ?l k} \<subseteq> out_keys sp")
        case full: True
        have lim: "Capacity ?l < card (contents sp)" by (rule room_used_up [OF ok(1,5) new K(1) full])
        have "same_input sp (sp1\<lparr>sp_output := (sp_output sp1)\<lparr>key_length := n\<rparr>\<rparr>)" for n using i1(1) by (simp add: same_input_def)
        then show ?thesis using e made full lim K(1) i1(1) by (auto simp: filled_def)
      next
        case free: False
        then have "newSize = 0" "byond_key ?l k" "k \<notin> out_keys sp" "pool_ok ?l (insert k (out_keys sp)) g" using made by simp_all
        then show ?thesis using e fresh [of k sp1] i1 True by simp
      qed
    qed
  qed
  then show "filled sp err sp'" "err = None \<Longrightarrow> grid (sp_output sp') p \<noteq> None" by simp_all
qed

lemma fill_loop_ok:
  assumes "out_ok sp" "keys_ok sp" "stacks_ok sp" "fair intn" "set locs \<subseteq> points sp" "n = length locs"
    "fill_loop intn n locs sp = (err, sp')"
  shows "filled sp err sp' \<and> (err = None \<longrightarrow> (\<forall>p\<in>set locs. grid (sp_output sp') p \<noteq> None))"
  using assms
proof (induction n arbitrary: locs sp)
  case 0
  then show ?case by (simp add: filled_def)
next
  case (Suc n)
  define i where "i = intn (sp_calls sp) (length locs)"
  have "0 < length locs" using Suc.prems(6) by linarith
  then have i: "i < length locs" using Suc.prems(4) unfolding fair_def i_def by blast
  obtain e1 sp1 where f: "fill_location intn (locs ! i) (tick sp) = (e1, sp1)" by (cases "fill_location intn (locs ! i) (tick sp)")
  have t: "points (tick sp) = points sp" "contents (tick sp) = contents sp" using same_input_simps(1) [OF tick_fields(1)] same_contents [OF tick_fields(1)] by simp_all
  have p: "locs ! i \<in> points (tick sp)" using i Suc.prems(5) nth_mem t(1) by blast
  have "filled (tick sp) e1 sp1" "e1 = None \<Longrightarrow> grid (sp_output sp1) (locs ! i) \<noteq> None"
    using fill_location_ok [OF _ _ _ Suc.prems(4) p f] Suc.prems(1-3) by simp_all
  then have one: "filled sp e1 sp1" "e1 = None \<Longrightarrow> grid (sp_output sp1) (locs ! i) \<noteq> None"
    using same_input_trans [OF tick_fields(1)] by (auto simp: filled_def tick_fields t split: option.splits)
  have run: "(case (e1, sp1) of (Some e, sp) \<Rightarrow> (Some e, sp) | (None, sp) \<Rightarrow> fill_loop intn n (take i locs @ drop (i + 1) locs) sp) = (err, sp')"
    using Suc.prems(7) by (simp add: i_def [symmetric] f Let_def)
  show ?case
  proof (cases e1)
    case (Some e)
    then show ?thesis using run one(1) by auto
  next
    case None
    let ?rest = "take i locs @ drop (i + 1) locs"
    have locs: "set locs = insert (locs ! i) (set ?rest)" using arg_cong [OF id_take_nth_drop [OF i], of set] by simp
    have len: "n = length ?rest" using i Suc.prems(6) by simp
    have f1: "same_input sp sp1" "out_ok sp1" "keys_ok sp1" "key_length (sp_output sp1) = key_length (sp_output sp)"
        "\<forall>q. grid (sp_output sp) q \<noteq> None \<longrightarrow> grid (sp_output sp1) q \<noteq> None"
      using one(1) None by (simp_all add: filled_def)
    note s1 = same_input_simps [OF f1(1)] and c1 = same_contents [OF f1(1)]
    have rest: "set ?rest \<subseteq> points sp1" using Suc.prems(5) locs s1(1) by (metis insert_subset)
    have IH: "filled sp1 err sp' \<and> (err = None \<longrightarrow> (\<forall>p\<in>set ?rest. grid (sp_output sp') p \<noteq> None))"
      by (rule Suc.IH [OF f1(2,3) _ Suc.prems(4) rest len]) (use run None Suc.prems(3) s1 in simp_all)
    then have "filled sp err sp'" using f1 same_input_trans [OF f1(1)] c1 by (auto simp: filled_def split: option.splits)
    moreover have "grid (sp_output sp') (locs ! i) \<noteq> None" if "err = None"
      using IH one(2) [OF None] unfolding filled_def that option.case by blast
    ultimately show ?thesis using IH locs by auto
  qed
qed

section \<open>The whole assignment\<close>

text \<open>What one attempt at a key length starts from: \<open>placed_ok\<close> for the points without a key.\<close>

definition attempt_ok :: "save_process \<Rightarrow> bool" where
  "attempt_ok sp \<longleftrightarrow> out_ok sp \<and> keys_ok sp \<and> keys_pool (sp_keygen sp) = None \<and> stacks_ok sp \<and>
     (\<forall>p\<in>points sp. grid (sp_output sp) p = None \<longrightarrow> (\<forall>(k, ps)\<in>set (out_dict sp). stack_content ps \<noteq> tile_content sp p))"

lemma distinct_box_points: "distinct (box_points mx my mz)"
proof -
  have row: "distinct (concat (map (\<lambda>y. map (\<lambda>x. (x, y, z)) [1..mx]) [1..my]))" for z
    by (rule distinct_concat_tagged [where t = "\<lambda>p. fst (snd p)"]) (auto simp: distinct_map inj_on_def)
  show ?thesis unfolding box_points_def
    by (rule distinct_concat_tagged [where t = "\<lambda>p. snd (snd p)"]) (use row in auto)
qed

lemma attempt_placed:
  assumes "attempt_ok sp"
  shows "placed_ok (findLocationsWithoutKey sp, empty_index, sp)"
  using assms empty_index_of distinct_box_points
  unfolding attempt_ok_def placed_ok_def findLocationsWithoutKey_def prod.case
  by (intro conjI exI [of _ Map.empty]) auto

definition assigned :: "save_process \<Rightarrow> save_process \<Rightarrow> bool" where
  "assigned sp sp' \<longleftrightarrow> same_input sp sp' \<and> out_ok sp' \<and> keys_ok sp' \<and> (\<forall>p\<in>points sp. grid (sp_output sp') p \<noteq> None)"

lemma attempt_result:
  assumes ok: "attempt_ok sp" and fair: "fair intn"
    and t: "tryToReuseKeysByTheirInitialLocation (findLocationsWithoutKey sp) sp = (locs, sp1)"
    and f: "fillLocations intn locs sp1 = (err, sp2)"
  shows "filled sp1 err sp2" "same_input sp sp1" "key_length (sp_output sp1) = key_length (sp_output sp)"
    "err = None \<Longrightarrow> assigned sp sp2"
proof -
  obtain reused where p: "placed_ok (locs, reused, sp1) \<and> same_input sp sp1 \<and> key_length (sp_output sp1) = key_length (sp_output sp)"
  proof (cases "unused_keys sp = []")
    case True
    then show ?thesis using t attempt_placed [OF ok] that [of empty_index] by (auto simp: tryToReuseKeysByTheirInitialLocation_def)
  next
    case False
    obtain r where r: "reuse_keys (Keys (sp_initial sp)) (findLocationsWithoutKey sp, empty_index, sp) = (locs, r, sp1)"
      using t False by (auto simp: tryToReuseKeysByTheirInitialLocation_def split: prod.splits)
    show ?thesis by (rule that [OF reuse_keys_ok [OF attempt_placed [OF ok] r]])
  qed
  then show s: "same_input sp sp1" "key_length (sp_output sp1) = key_length (sp_output sp)" by simp_all
  have l: "out_ok sp1" "keys_ok sp1" "stacks_ok sp1" "set locs \<subseteq> points sp1" "\<forall>p\<in>points sp1 - set locs. grid (sp_output sp1) p \<noteq> None"
    using p unfolding placed_ok_def prod.case by blast+
  have fl: "filled sp1 err sp2 \<and> (err = None \<longrightarrow> (\<forall>p\<in>set locs. grid (sp_output sp2) p \<noteq> None))"
    by (rule fill_loop_ok [OF l(1-3) fair l(4) refl f [unfolded fillLocations_def]])
  then show "filled sp1 err sp2" by simp
  assume none: "err = None"
  have f': "same_input sp1 sp2" "out_ok sp2" "keys_ok sp2" "\<forall>q. grid (sp_output sp1) q \<noteq> None \<longrightarrow> grid (sp_output sp2) q \<noteq> None"
      "\<forall>p\<in>set locs. grid (sp_output sp2) p \<noteq> None"
    using fl unfolding filled_def none option.case by blast+
  have "grid (sp_output sp2) p \<noteq> None" if "p \<in> points sp" for p
    using that l(5) f'(4,5) unfolding same_input_simps(1) [OF s(1)] by blast
  then show "assigned sp sp2" using f' same_input_trans [OF s(1)] unfolding assigned_def by blast
qed

lemma regenerate_attempt:
  assumes "stacks_ok sp" "key_length (sp_output sp) \<in> {1, 2, 3}"
  shows "attempt_ok (regenerate sp)" "same_input sp (regenerate sp)" "key_length (sp_output (regenerate sp)) = key_length (sp_output sp)"
proof -
  show i: "same_input sp (regenerate sp)" "key_length (sp_output (regenerate sp)) = key_length (sp_output sp)"
    by (simp_all add: regenerate_def same_input_def)
  have "index_of Map.empty (NewContentIndex [])" using NewContentIndex_index [of "[]"] by simp
  then show "attempt_ok (regenerate sp)"
    using assms same_input_simps(4) [OF i(1)]
    by (auto simp: attempt_ok_def out_ok_def keys_ok_def regenerate_def DropKeysPool_def)
qed

lemma plan_loop_next: "l \<in> {1, 2, 3} \<Longrightarrow> plan_loop n [l..<Suc MaxKeyLength] =
    (if n \<le> Capacity l then l else plan_loop n [Suc l..<Suc MaxKeyLength])"
  by (subst upt_rec) (auto simp: MaxKeyLength_def simp del: upt_Suc)

lemma assignment_result:
  assumes "attempt_ok sp" "fair intn" "4 - key_length (sp_output sp) \<le> fuel"
  shows "\<exists>err sp'. handleLocationsWithoutKeys fuel intn sp = Some (err, sp') \<and>
    (let n = plan_loop (card (contents sp)) [key_length (sp_output sp)..<Suc MaxKeyLength] in
     if n = 0 then err = Some KeysLimitExceeded
     else err = None \<and> assigned sp sp' \<and> key_length (sp_output sp') = n)"
  using assms
proof (induction fuel arbitrary: sp)
  case 0
  then show ?case by (auto simp: attempt_ok_def keys_ok_def)
next
  case (Suc fuel)
  let ?l = "key_length (sp_output sp)"
  have l: "?l \<in> {1, 2, 3}" and st: "stacks_ok sp" using Suc.prems(1) by (auto simp: attempt_ok_def keys_ok_def)
  obtain locs sp1 where t: "tryToReuseKeysByTheirInitialLocation (findLocationsWithoutKey sp) sp = (locs, sp1)"
    by (cases "tryToReuseKeysByTheirInitialLocation (findLocationsWithoutKey sp) sp")
  obtain err sp2 where f: "fillLocations intn locs sp1 = (err, sp2)" by (cases "fillLocations intn locs sp1")
  note r = attempt_result [OF Suc.prems(1,2) t f]
  note c = same_contents [OF r(2)]
  have run: "handleLocationsWithoutKeys (Suc fuel) intn sp =
      (if err = Some RegenerateKeys then handleLocationsWithoutKeys fuel intn (regenerate sp2)
       else if err = Some KeysLimitExceeded then Some (Some KeysLimitExceeded, sp2) else Some (None, sp2))"
    by (simp add: t f)
  have plan: "plan_loop (card (contents sp)) [?l..<Suc MaxKeyLength] =
      (if card (contents sp) \<le> Capacity ?l then ?l else plan_loop (card (contents sp)) [Suc ?l..<Suc MaxKeyLength])"
    by (rule plan_loop_next [OF l])
  show ?case
  proof (cases err)
    case None
    then have a: "assigned sp sp2" "key_length (sp_output sp2) = ?l" using r by (simp_all add: filled_def)
    then have "card (contents sp) \<le> Capacity ?l"
      using all_placed(2) [of sp2] same_contents [of sp sp2] same_input_simps(1) [of sp sp2] unfolding assigned_def by simp
    then show ?thesis using a None l unfolding run plan Let_def by auto
  next
    case (Some e)
    then have e: "Capacity ?l < card (contents sp)" "if ?l = 3 then e = KeysLimitExceeded else e = RegenerateKeys \<and> key_length (sp_output sp2) = ?l + 1"
        "same_input sp1 sp2"
      using r(1,3) c by (simp_all add: filled_def)
    have i: "same_input sp sp2" by (rule same_input_trans [OF r(2) e(3)])
    show ?thesis
    proof (cases "?l = 3")
      case True
      then show ?thesis using e Some unfolding run plan Let_def by (simp add: MaxKeyLength_def)
    next
      case False
      then have l2: "key_length (sp_output sp2) = Suc ?l" "key_length (sp_output sp2) \<in> {1, 2, 3}" "e = RegenerateKeys" using e(2) l by auto
      have st2: "stacks_ok sp2" using st same_input_simps(4) [OF i] by simp
      note g = regenerate_attempt [OF st2 l2(2)]
      have ig: "same_input sp (regenerate sp2)" by (rule same_input_trans [OF i g(2)])
      have "4 - key_length (sp_output (regenerate sp2)) \<le> fuel" using Suc.prems(3) l2(1) g(3) by simp
      note IH = Suc.IH [OF g(1) Suc.prems(2) this]
      have cg: "card (contents (regenerate sp2)) = card (contents sp)" "key_length (sp_output (regenerate sp2)) = Suc ?l"
        using same_contents [OF ig] g(3) l2(1) by simp_all
      have "assigned sp sp'" if "assigned (regenerate sp2) sp'" for sp'
        using that same_input_trans [OF ig] same_input_simps(1) [OF ig] unfolding assigned_def by simp
      moreover obtain err' sp' where IH': "handleLocationsWithoutKeys fuel intn (regenerate sp2) = Some (err', sp')"
          "if plan_loop (card (contents sp)) [Suc ?l..<Suc MaxKeyLength] = 0 then err' = Some KeysLimitExceeded
           else err' = None \<and> assigned (regenerate sp2) sp' \<and> key_length (sp_output sp') = plan_loop (card (contents sp)) [Suc ?l..<Suc MaxKeyLength]"
        using IH unfolding cg Let_def by blast
      moreover have "handleLocationsWithoutKeys (Suc fuel) intn sp = Some (err', sp')" using IH'(1) Some l2(3) unfolding run by simp
      moreover have "\<not> card (contents sp) \<le> Capacity ?l" using e(1) by simp
      ultimately show ?thesis unfolding plan Let_def by (metis (no_types, lifting))
    qed
  qed
qed

end
