(* ===== verification/Save_Props.thy ===== *)
theory Save_Props
  imports Save_Keys
begin

text \<open>
  What a save promises: the keys it gives out, the file it writes, the file it accepts, and the variables
  it drops.
\<close>

section \<open>The stacks of a map\<close>

lemma names_Sorted: "names_distinct (Sorted ps) = names_distinct ps"
  by (simp add: names_distinct_def Sorted_def)

lemma normalize_loop_facts:
  assumes "distinct (map fst tiles)" "\<forall>t\<in>set tiles. names_distinct (snd t)"
    "\<And>h qs. qs \<in> set (canonical h) \<Longrightarrow> names_distinct qs \<and> Prefabs_Hash qs = h \<and> R qs" "\<And>t. t \<in> set tiles \<Longrightarrow> R (Sorted (snd t))"
  shows "\<forall>p. (p \<notin> fst ` set tiles \<longrightarrow> normalize_loop tiles canonical stacks p = stacks p) \<and>
    (\<forall>ps. (p, ps) \<in> set tiles \<longrightarrow> (\<exists>qs. normalize_loop tiles canonical stacks p = Some (qs, Prefabs_Hash qs) \<and> names_distinct qs \<and> R qs \<and>
      stack_content qs = stack_content (Sorted ps)))"
  using assms
proof (induction tiles arbitrary: canonical stacks)
  case Nil
  then show ?case by simp
next
  case (Cons t tiles)
  obtain p ps where t: "t = (p, ps)" by (cases t)
  define q where "q = Sorted ps"
  define h where "h = Prefabs_Hash q"
  have nd: "names_distinct q" "R q" using Cons.prems(2) Cons.prems(4) [of t] t by (simp_all add: q_def names_Sorted)
  have e: "normalize_loop (t # tiles) canonical stacks = (case List.find (Prefabs_Equals q) (canonical h) of
      Some prior \<Rightarrow> normalize_loop tiles canonical (stacks(p \<mapsto> (prior, h)))
    | None \<Rightarrow> normalize_loop tiles (canonical(h := canonical h @ [q])) (stacks(p \<mapsto> (q, h))))"
    unfolding t q_def h_def by (simp only: normalize_loop.simps Let_def)
  have tail: "\<forall>r. (r \<notin> fst ` set tiles \<longrightarrow> normalize_loop tiles c (stacks(p \<mapsto> (s, h))) r = (stacks(p \<mapsto> (s, h))) r) \<and>
      (\<forall>ps. (r, ps) \<in> set tiles \<longrightarrow> (\<exists>qs. normalize_loop tiles c (stacks(p \<mapsto> (s, h))) r = Some (qs, Prefabs_Hash qs) \<and> names_distinct qs \<and> R qs \<and>
        stack_content qs = stack_content (Sorted ps)))"
    if "\<And>h qs. qs \<in> set (c h) \<Longrightarrow> names_distinct qs \<and> Prefabs_Hash qs = h \<and> R qs" for c s
    by (rule Cons.IH) (use Cons.prems that in auto)
  have step: "\<exists>c s. normalize_loop (t # tiles) canonical stacks = normalize_loop tiles c (stacks(p \<mapsto> (s, h))) \<and>
      (\<forall>h qs. qs \<in> set (c h) \<longrightarrow> names_distinct qs \<and> Prefabs_Hash qs = h \<and> R qs) \<and>
      names_distinct s \<and> Prefabs_Hash s = h \<and> R s \<and> stack_content s = stack_content q"
  proof (cases "List.find (Prefabs_Equals q) (canonical h)")
    case None
    have "\<forall>h' qs. qs \<in> set ((canonical(h := canonical h @ [q])) h') \<longrightarrow> names_distinct qs \<and> Prefabs_Hash qs = h' \<and> R qs"
      using Cons.prems(3) nd h_def by simp
    moreover have "normalize_loop (t # tiles) canonical stacks = normalize_loop tiles (canonical(h := canonical h @ [q])) (stacks(p \<mapsto> (q, h)))"
      using e None by simp
    ultimately show ?thesis using nd h_def by blast
  next
    case (Some s)
    then have s: "s \<in> set (canonical h)" "Prefabs_Equals q s" by (auto simp: find_Some_iff)
    then have "stack_content s = stack_content q" using Prefabs_Equals_iff [OF nd(1)] Cons.prems(3) by simp
    moreover have "normalize_loop (t # tiles) canonical stacks = normalize_loop tiles canonical (stacks(p \<mapsto> (s, h)))"
      using e Some by simp
    ultimately show ?thesis using s(1) Cons.prems(3) by blast
  qed
  then obtain c s where c: "normalize_loop (t # tiles) canonical stacks = normalize_loop tiles c (stacks(p \<mapsto> (s, h)))"
      "\<And>h qs. qs \<in> set (c h) \<Longrightarrow> names_distinct qs \<and> Prefabs_Hash qs = h \<and> R qs"
      "names_distinct s" "Prefabs_Hash s = h" "R s" "stack_content s = stack_content q" by blast
  note tl = tail [where c = c and s = s, OF c(2)]
  have out: "normalize_loop tiles c (stacks(p \<mapsto> (s, h))) r = (stacks(p \<mapsto> (s, h))) r" if "r \<notin> fst ` set tiles" for r
    using tl that by blast
  have p: "p \<notin> fst ` set tiles" using Cons.prems(1) t by simp
  have own: "normalize_loop (t # tiles) canonical stacks p = Some (s, Prefabs_Hash s)" using out [OF p] c(4) unfolding c(1) by simp
  show ?case
  proof (intro allI conjI impI)
    fix r assume "r \<notin> fst ` set (t # tiles)"
    then show "normalize_loop (t # tiles) canonical stacks r = stacks r" using out [of r] t unfolding c(1) by auto
  next
    fix r rs assume r: "(r, rs) \<in> set (t # tiles)"
    show "\<exists>qs. normalize_loop (t # tiles) canonical stacks r = Some (qs, Prefabs_Hash qs) \<and> names_distinct qs \<and> R qs \<and>
        stack_content qs = stack_content (Sorted rs)"
    proof (cases "r = p")
      case True
      then have "rs = ps" using r p t by force
      then show ?thesis using True own c(3,5,6) by (simp add: q_def)
    next
      case False
      then have "(r, rs) \<in> set tiles" using r t by simp
      then show ?thesis using tl unfolding c(1) by blast
    qed
  qed
qed

text \<open>The map as it is saved.\<close>

definition map_to_save :: "bool \<Rightarrow> environment \<Rightarrow> dmm_map \<Rightarrow> dmm_map" where
  "map_to_save sanitize env m = (if sanitize then sanitizeVariables env m else m)"

lemma map_to_save_ok:
  assumes "map_ok m"
  shows "map_ok (map_to_save sanitize env m)" "mm_x (map_to_save sanitize env m) = mm_x m" "mm_y (map_to_save sanitize env m) = mm_y m"
    "mm_z (map_to_save sanitize env m) = mm_z m"
proof -
  have nd: "names_distinct (map (sanitize_prefab env) ps)" if "names_distinct ps" for ps
    using that by (auto simp: names_distinct_def sanitize_prefab_def distinct_map_filter split: option.split)
  have "map_ok (sanitizeVariables env m)"
  proof -
    have f: "map fst (mm_tiles (sanitizeVariables env m)) = map fst (mm_tiles m)" by (simp add: sanitizeVariables_def comp_def case_prod_beta)
    then have "fst ` set (mm_tiles (sanitizeVariables env m)) = fst ` set (mm_tiles m)" by (metis list.set_map)
    moreover have "\<forall>t\<in>set (mm_tiles (sanitizeVariables env m)). names_distinct (snd t)"
      using assms nd by (auto simp: map_ok_def sanitizeVariables_def)
    ultimately show ?thesis using assms f by (simp add: map_ok_def) (simp add: sanitizeVariables_def)
  qed
  then show "map_ok (map_to_save sanitize env m)" using assms by (simp add: map_to_save_def)
qed (simp_all add: map_to_save_def sanitizeVariables_def)

definition start :: "save_format \<Rightarrow> bool \<Rightarrow> environment \<Rightarrow> dmm_map \<Rightarrow> dmm_data \<Rightarrow> runes \<Rightarrow> save_process" where
  "start format sanitize env m initial path = makeOwnedSaveProcess format sanitize env m initial path"

lemma start_fields:
  "sp_map (start f sz env m initial path) = map_to_save sz env m" "sp_initial (start f sz env m initial path) = initial"
  "sp_stacks (start f sz env m initial path) = Normalize (map_to_save sz env m)"
  "sp_expected (start f sz env m initial path) = Expected (map_to_save sz env m) (detectIsTgm f (is_tgm initial))"
  "sp_output (start f sz env m initial path) = \<lparr>file_path = path, is_tgm = detectIsTgm f (is_tgm initial), line_break = line_break initial,
     key_length = key_length initial, max_x = mm_x m, max_y = mm_y m, max_z = mm_z m, dictionary = [], grid = Map.empty\<rparr>"
  "initial_content (start f sz env m initial path) = NewContentIndex (dictionary initial)"
  "output_content (start f sz env m initial path) = NewContentIndex []"
  "unused_keys (start f sz env m initial path) = Keys initial" "keys_pool (sp_keygen (start f sz env m initial path)) = None"
  by (simp_all add: start_def makeOwnedSaveProcess_def map_to_save_def Let_def New_keygen_def)

lemma start_stack_at:
  assumes "map_ok m" "(p, ps) \<in> set (mm_tiles (map_to_save sz env m))" "\<And>t. t \<in> set (mm_tiles (map_to_save sz env m)) \<Longrightarrow> R (Sorted (snd t))"
  shows "\<exists>qs. stack_at (start f sz env m initial path) p = (qs, Prefabs_Hash qs) \<and> names_distinct qs \<and> R qs \<and>
    stack_content qs = stack_content (Sorted ps)"
proof -
  have ok: "map_ok (map_to_save sz env m)" by (rule map_to_save_ok(1) [OF assms(1)])
  have "\<exists>qs. normalize_loop (mm_tiles (map_to_save sz env m)) (\<lambda>_. []) Map.empty p = Some (qs, Prefabs_Hash qs) \<and> names_distinct qs \<and> R qs \<and>
      stack_content qs = stack_content (Sorted ps)"
    by (rule normalize_loop_facts [rule_format, THEN conjunct2, rule_format]) (use ok assms in \<open>auto simp: map_ok_def\<close>)
  then show ?thesis by (auto simp: stack_at_def start_fields Normalize_def)
qed

lemma start_stacks_ok: "map_ok m \<Longrightarrow> stacks_ok (start f sz env m initial path)"
proof -
  assume m: "map_ok m"
  show ?thesis unfolding stacks_ok_def
  proof
    fix p assume "p \<in> points (start f sz env m initial path)"
    then obtain ps where "(p, ps) \<in> set (mm_tiles (map_to_save sz env m))"
      using map_to_save_ok(1) [OF m, of sz env] unfolding map_ok_def start_fields by (metis imageE prod.collapse)
    then obtain qs where "stack_at (start f sz env m initial path) p = (qs, Prefabs_Hash qs)" "names_distinct qs"
      using start_stack_at [OF m, of p _ sz env "\<lambda>_. True" f initial path] by blast
    then show "names_distinct (fst (stack_at (start f sz env m initial path) p)) \<and>
        snd (stack_at (start f sz env m initial path) p) = Prefabs_Hash (fst (stack_at (start f sz env m initial path) p))"
      by simp
  qed
qed

lemma start_attempt:
  assumes m: "map_ok m" and i: "initial_ok initial"
  shows "attempt_ok (handleReusedKeys (start f sz env m initial path))"
    "same_input (start f sz env m initial path) (handleReusedKeys (start f sz env m initial path))"
    "key_length (sp_output (handleReusedKeys (start f sz env m initial path))) = key_length initial"
proof -
  let ?sp = "start f sz env m initial path"
  have k: "set (Keys initial) = fst ` set (dictionary initial)" by (simp add: Keys_def)
  have out: "out_ok ?sp" using NewContentIndex_index [of "[]"] by (simp add: out_ok_def start_fields)
  have keys: "keys_ok ?sp" using i k by (auto simp: keys_ok_def start_fields initial_ok_def)
  have r: "reused_ok ?sp" using out keys by (simp add: reused_ok_def start_fields)
  have ix: "initial_index ?sp" using i NewContentIndex_index [of "dictionary initial"] by (simp add: initial_index_def start_fields initial_ok_def)
  note h = handleReusedKeys_ok [OF r start_stacks_ok [OF m] ix _ _ refl]
  have m': "map_ok (sp_map ?sp)" "key_length (sp_output ?sp) = key_length (sp_initial ?sp)" by (simp_all add: start_fields map_to_save_ok m)
  note h = h [OF m']
  show in1: "same_input ?sp (handleReusedKeys ?sp)" by (rule h(2))
  show "key_length (sp_output (handleReusedKeys ?sp)) = key_length initial" using h(3) by (simp add: start_fields)
  have "stacks_ok (handleReusedKeys ?sp)" using same_input_simps(4) [OF in1] start_stacks_ok [OF m] by simp
  then show "attempt_ok (handleReusedKeys ?sp)" using h(1,4) unfolding attempt_ok_def reused_ok_def by blast
qed

definition map_contents :: "dmm_map \<Rightarrow> (runes \<times> (runes \<times> runes) set) list set" where
  "map_contents m = (\<lambda>t. stack_content (Sorted (snd t))) ` set (mm_tiles m)"

lemma start_contents:
  assumes m: "map_ok m"
  shows "contents (start f sz env m initial path) = map_contents (map_to_save sz env m)"
    "(p, ps) \<in> set (mm_tiles (map_to_save sz env m)) \<Longrightarrow> tile_content (start f sz env m initial path) p = stack_content (Sorted ps)"
proof -
  let ?sp = "start f sz env m initial path" and ?m = "map_to_save sz env m"
  show tile: "tile_content ?sp p = stack_content (Sorted ps)" if "(p, ps) \<in> set (mm_tiles ?m)" for p ps
    using start_stack_at [OF m that, of "\<lambda>_. True" f initial path] by (auto simp: tile_content_def)
  have "contents ?sp = tile_content ?sp ` fst ` set (mm_tiles ?m)"
    using map_to_save_ok(1) [OF m, of sz env] by (simp add: contents_def start_fields map_ok_def)
  also have "\<dots> = map_contents ?m" unfolding map_contents_def image_image by (rule image_cong) (use tile in auto)
  finally show "contents ?sp = map_contents ?m" .
qed

section \<open>Keys\<close>

lemma assignment_plan:
  assumes m: "map_ok m" and i: "initial_ok initial" and fair: "fair intn"
    and sp: "sp = makeOwnedSaveProcess f sz env m initial path" and plan: "plan = PlanKeyLength (card (map_contents (map_to_save sz env m))) (key_length initial)"
  shows "\<exists>err sp'. handleLocationsWithoutKeys save_fuel intn (handleReusedKeys sp) = Some (err, sp') \<and>
    (if Exceeds plan then err = Some KeysLimitExceeded
     else err = None \<and> assigned (handleReusedKeys sp) sp' \<and> key_length (sp_output sp') = plan_required plan \<and>
       length (dictionary (sp_output sp')) = card (map_contents (map_to_save sz env m)))"
proof -
  let ?sp = "start f sz env m initial path" and ?n = "card (map_contents (map_to_save sz env m))"
  note a = start_attempt [OF m i, of f sz env path]
  have c: "contents (handleReusedKeys ?sp) = map_contents (map_to_save sz env m)"
    using same_contents [OF a(2)] start_contents(1) [OF m] by simp
  have l: "key_length initial \<in> {1, 2, 3}" using i by (simp add: initial_ok_def)
  obtain err sp' where r: "handleLocationsWithoutKeys save_fuel intn (handleReusedKeys ?sp) = Some (err, sp')"
      "if plan_loop ?n [key_length initial..<Suc MaxKeyLength] = 0 then err = Some KeysLimitExceeded
       else err = None \<and> assigned (handleReusedKeys ?sp) sp' \<and> key_length (sp_output sp') = plan_loop ?n [key_length initial..<Suc MaxKeyLength]"
    using assignment_result [OF a(1) fair, of save_fuel] unfolding a(3) c Let_def save_fuel_def by auto
  have cap: "Capacity (key_length initial) \<noteq> 0" using l Capacity_values(4) by simp
  have p: "plan_required plan = plan_loop ?n [key_length initial..<Suc MaxKeyLength]" "Exceeds plan \<longleftrightarrow> plan_required plan = 0"
    using cap by (simp_all add: plan PlanKeyLength_def Exceeds_def Let_def)
  have "length (dictionary (sp_output sp')) = ?n" if as: "assigned (handleReusedKeys ?sp) sp'"
  proof -
    have s: "same_input (handleReusedKeys ?sp) sp'" "out_ok sp'" "keys_ok sp'" "\<forall>p\<in>points sp'. grid (sp_output sp') p \<noteq> None"
      using as same_input_simps(1) [of "handleReusedKeys ?sp" sp'] by (auto simp: assigned_def)
    show ?thesis using all_placed(1) [OF s(2-4)] same_contents [OF s(1)] c by simp
  qed
  then show ?thesis using r unfolding sp start_def [symmetric] p by (cases "plan_loop ?n [key_length initial..<Suc MaxKeyLength] = 0") auto
qed

text \<open>C31: for a map opened from a file whose keys are keys of BYOND (one to three letters a to z and A to
  Z, the three-letter ones up to number 65,528), the key length that a save ends with is the one \<^verbatim>\<open>PlanKeyLength\<close> predicts from the number of distinct
  tile contents: the smallest one, from the length of the file on, that has a key for every content; the
  dictionary has one key per content; and the save is refused exactly when no key length is long enough,
  whichever of these keys the file used, in whatever order Go visits the points and whichever keys it
  picks. Keys with other characters, which the parser accepts, are outside the claim: a save reuses
  them, and \<^verbatim>\<open>PlanKeyLength\<close> counts only the letters.\<close>

theorem key_length_as_planned:
  assumes "map_ok m" "initial_ok initial" "fair intn"
    and "sp = makeOwnedSaveProcess format sanitize env m initial path"
    and "plan = PlanKeyLength (card (map_contents (map_to_save sanitize env m))) (key_length initial)"
  shows "\<exists>err sp'. handleLocationsWithoutKeys save_fuel intn (handleReusedKeys sp) = Some (err, sp') \<and>
    (if Exceeds plan then err = Some KeysLimitExceeded
     else err = None \<and> key_length (sp_output sp') = plan_required plan \<and>
       length (dictionary (sp_output sp')) = card (map_contents (map_to_save sanitize env m)))"
  using assignment_plan [OF assms] by (auto split: if_splits)

text \<open>A map of two tiles, opened from the file of two keys.\<close>

definition sample_tiles :: dmm_map where
  "sample_tiles = \<lparr>mm_x = 2, mm_y = 1, mm_z = 1, mm_tiles =
     [((1, 1, 1), [\<lparr>pf_path = lit ''/area'', pf_vars = []\<rparr>, \<lparr>pf_path = lit ''/obj/item'', pf_vars = []\<rparr>]),
      ((2, 1, 1), [\<lparr>pf_path = lit ''/turf/floor'', pf_vars = [(lit ''dir'', lit ''2''), (lit ''name'', lit ''new'')]\<rparr>])]\<rparr>"

lemma sample_tiles_ok: "map_ok sample_tiles"
  by (auto simp: map_ok_def sample_tiles_def box_points_def names_distinct_def lit_def upto.simps)

lemma sample_initial_ok: "initial_ok sample_map"
proof -
  have "byond_key 1 (lit ''a'') \<and> byond_key 1 (lit ''b'')" by code_simp
  moreover have "distinct (map fst (dictionary sample_map))" by code_simp
  moreover have "lit ''name'' \<noteq> lit ''req''" by (simp add: lit_def)
  ultimately show ?thesis by (simp add: initial_ok_def sample_map_def names_distinct_def)
qed

lemma first_choice_fair: "fair (\<lambda>i n. 0)"
  by (simp add: fair_def)

lemma sample_plan:
  "plan_required (PlanKeyLength (card (map_contents (map_to_save sanitize env sample_tiles))) (key_length sample_map)) = 1"
  "\<not> Exceeds (PlanKeyLength (card (map_contents (map_to_save sanitize env sample_tiles))) (key_length sample_map))"
proof -
  have "card (map_contents (map_to_save sanitize env sample_tiles)) \<le> card (set (mm_tiles (map_to_save sanitize env sample_tiles)))"
    unfolding map_contents_def by (rule card_image_le) simp
  also have "\<dots> \<le> length (mm_tiles (map_to_save sanitize env sample_tiles))" by (rule card_length)
  finally have "card (map_contents (map_to_save sanitize env sample_tiles)) \<le> 2"
    by (simp add: map_to_save_def sanitizeVariables_def sample_tiles_def split: if_splits)
  then have "plan_loop (card (map_contents (map_to_save sanitize env sample_tiles))) [1..<Suc MaxKeyLength] = 1"
    using Capacity_values(1) plan_loop_next [of 1] by simp
  then show "plan_required (PlanKeyLength (card (map_contents (map_to_save sanitize env sample_tiles))) (key_length sample_map)) = 1"
      "\<not> Exceeds (PlanKeyLength (card (map_contents (map_to_save sanitize env sample_tiles))) (key_length sample_map))"
    using Capacity_values(1) by (simp_all add: PlanKeyLength_def Exceeds_def Let_def sample_map_def)
qed

theorem key_length_as_planned_witness:
  "\<exists>sp'. handleLocationsWithoutKeys save_fuel (\<lambda>i n. 0)
      (handleReusedKeys (makeOwnedSaveProcess FormatInitial False (\<lambda>_. None) sample_tiles sample_map [])) = Some (None, sp') \<and>
    key_length (sp_output sp') = 1"
  using key_length_as_planned [OF sample_tiles_ok sample_initial_ok first_choice_fair refl refl, of FormatInitial False "\<lambda>_. None" "[]"]
    sample_plan [of False "\<lambda>_. None"] by auto

end
