(* ===== verification/Save_Digest.thy ===== *)
theory Save_Digest
  imports Save_Props
begin

text \<open>
  The digest that validation compares: it covers the content of every point, whatever key the content has
  and in whatever order variables were assigned, and two maps with the same digest text have the same
  content everywhere.
\<close>

section \<open>Content at a point\<close>

definition cell :: "dmm_data \<Rightarrow> point \<Rightarrow> prefab list option" where
  "cell d p = Option.bind (grid d p) (map_of (dictionary d))"

definition stack_bytes :: "prefab list \<Rightarrow> nat list" where
  "stack_bytes ps = size_bytes (length ps) @ concat (map digest_prefab ps)"

lemma digest_tile_cell: "digest_tile d p = Inr bs \<longleftrightarrow> (\<exists>ps. cell d p = Some ps \<and> bs = stack_bytes ps)"
  by (auto simp: digest_tile_def cell_def stack_bytes_def split: option.splits)

lemma digest_tiles_cells:
  "digest_tiles d ps = Inr bs \<longleftrightarrow> (\<forall>p\<in>set ps. cell d p \<noteq> None) \<and> bs = concat (map (\<lambda>p. stack_bytes (the (cell d p))) ps)"
proof (induction ps arbitrary: bs)
  case (Cons p ps)
  show ?case
  proof (cases "cell d p")
    case None
    then have "\<nexists>bs. digest_tile d p = Inr bs" using digest_tile_cell [of d p] by simp
    then obtain e where "digest_tile d p = Inl e" by (metis sumE)
    then show ?thesis using None by simp
  next
    case (Some qs)
    then have "digest_tile d p = Inr (stack_bytes qs)" using digest_tile_cell [of d p] by simp
    then show ?thesis using Some Cons by (cases "digest_tiles d ps") auto
  qed
qed auto

definition box :: "dmm_data \<Rightarrow> point list" where
  "box d = box_points (max_x d) (max_y d) (max_z d)"

definition dims_bytes :: "dmm_data \<Rightarrow> nat list" where
  "dims_bytes d = size_bytes (nat (max_x d)) @ size_bytes (nat (max_y d)) @ size_bytes (nat (max_z d))"

lemma digest_text_cells:
  "digest_text d = Inr bs \<longleftrightarrow> max_x d > 0 \<and> max_y d > 0 \<and> max_z d > 0 \<and> (\<forall>p\<in>set (box d). cell d p \<noteq> None) \<and>
     bs = dims_bytes d @ concat (map (\<lambda>p. stack_bytes (the (cell d p))) (box d))"
proof (cases "max_x d \<le> 0 \<or> max_y d \<le> 0 \<or> max_z d \<le> 0")
  case False
  then have t: "digest_text d = sum_bind (digest_tiles d (box d)) (\<lambda>bs. Inr (dims_bytes d @ bs))"
    by (auto simp: digest_text_def box_def dims_bytes_def)
  show ?thesis using digest_tiles_cells [of d "box d"] False unfolding t by (cases "digest_tiles d (box d)") auto
qed (auto simp: digest_text_def)

lemma set_box_points: "p \<in> set (box_points mx my mz) \<longleftrightarrow> in_box mx my mz p"
  by (cases p) (auto simp: box_points_def in_box_def image_iff)

section \<open>Same content, same digest\<close>

lemma digest_prefab_cong:
  assumes "distinct (map fst (pf_vars p))" "distinct (map fst (pf_vars q))" "same_content p = same_content q"
  shows "digest_prefab p = digest_prefab q"
proof -
  have s: "pf_path p = pf_path q" "set (pf_vars p) = set (pf_vars q)" using assms(3) by (simp_all add: same_content_def)
  have "length (pf_vars p) = length (pf_vars q)"
    using distinct_card [of "pf_vars p"] distinct_card [of "pf_vars q"] assms(1,2) s(2) by (simp add: distinct_map)
  then show ?thesis using s(1) sorted_fields_cong [OF assms(1,2) s(2)] by (simp add: digest_prefab_def)
qed

lemma stack_bytes_cong:
  assumes "names_distinct ps" "names_distinct qs" "stack_content ps = stack_content qs"
  shows "stack_bytes ps = stack_bytes qs"
proof -
  have "list_all2 (\<lambda>p q. same_content p = same_content q) ps qs"
    using assms(3) by (simp add: stack_content_def list_all2_conv_all_nth map_equality_iff)
  then have "list_all2 (\<lambda>p q. digest_prefab p = digest_prefab q) ps qs"
    using assms(1,2) by (auto simp: list_all2_conv_all_nth names_distinct_def intro!: digest_prefab_cong)
  then have "map digest_prefab ps = map digest_prefab qs" "length ps = length qs"
    by (auto simp: list_all2_conv_all_nth map_equality_iff)
  then show ?thesis by (simp add: stack_bytes_def)
qed

lemma digest_text_cong:
  assumes "digest_text d = Inr bs" "(max_x e, max_y e, max_z e) = (max_x d, max_y d, max_z d)"
    "\<And>p ps. p \<in> set (box d) \<Longrightarrow> cell d p = Some ps \<Longrightarrow>
      names_distinct ps \<and> (\<exists>qs. cell e p = Some qs \<and> names_distinct qs \<and> stack_content qs = stack_content ps)"
  shows "digest_text e = Inr bs"
proof -
  have b: "box e = box d" "dims_bytes e = dims_bytes d" using assms(2) by (simp_all add: box_def dims_bytes_def)
  have c: "cell e p \<noteq> None \<and> stack_bytes (the (cell e p)) = stack_bytes (the (cell d p))" if p: "p \<in> set (box d)" for p
  proof -
    obtain ps where ps: "cell d p = Some ps" using assms(1) p unfolding digest_text_cells by blast
    from assms(3) [OF p ps] obtain qs where qs: "names_distinct ps" "cell e p = Some qs" "names_distinct qs" "stack_content qs = stack_content ps" by blast
    show ?thesis using stack_bytes_cong [OF qs(3,1,4)] by (simp add: ps qs(2))
  qed
  have m: "map (\<lambda>p. stack_bytes (the (cell e p))) (box d) = map (\<lambda>p. stack_bytes (the (cell d p))) (box d)"
    by (rule map_cong [OF refl]) (use c in blast)
  have "\<forall>p\<in>set (box d). cell e p \<noteq> None" using c by blast
  then show ?thesis using assms(1,2) unfolding digest_text_cells b m by simp
qed

section \<open>Same digest text, same content\<close>

lemma size_bytes_front:
  "m < 2 ^ 64 \<Longrightarrow> n < 2 ^ 64 \<Longrightarrow> size_bytes m @ xs = size_bytes n @ ys \<Longrightarrow> m = n \<and> xs = ys"
  using size_bytes_inj [of m n] by (simp add: size_bytes_def)

lemma counted_fields_front:
  assumes "length xs = length ys"
    and "\<forall>(n, v)\<in>set xs. length n < 2 ^ 64 \<and> length v < 2 ^ 64" "\<forall>(n, v)\<in>set ys. length n < 2 ^ 64 \<and> length v < 2 ^ 64"
    and "concat (map (\<lambda>(n, v). field n @ field v) xs) @ as = concat (map (\<lambda>(n, v). field n @ field v) ys) @ bs"
  shows "xs = ys \<and> as = bs"
  using assms
proof (induction xs ys rule: list_induct2)
  case (Cons x xs y ys)
  obtain n v where x: "x = (n, v)" by (cases x)
  obtain m w where y: "y = (m, w)" by (cases y)
  let ?r = "\<lambda>xs. concat (map (\<lambda>(n, v). field n @ field v) xs)"
  have s: "length n < 2 ^ 64" "length v < 2 ^ 64" "length m < 2 ^ 64" "length w < 2 ^ 64" using Cons.prems(1,2) x y by simp_all
  have e: "field n @ (field v @ ?r xs @ as) = field m @ (field w @ ?r ys @ bs)" using Cons.prems(3) x y by simp
  have 1: "n = m \<and> field v @ ?r xs @ as = field w @ ?r ys @ bs" by (rule field_front [OF s(1,3) e])
  have 2: "v = w \<and> ?r xs @ as = ?r ys @ bs" by (rule field_front [OF s(2,4) conjunct2 [OF 1]])
  have "xs = ys \<and> as = bs" by (rule Cons.IH) (use Cons.prems(1,2) 2 in auto)
  then show ?case using 1 2 x y by simp
qed simp

lemma digest_prefab_front:
  assumes "texts_ok p" "texts_ok q" "length (pf_vars p) < 2 ^ 64" "length (pf_vars q) < 2 ^ 64" "digest_prefab p @ xs = digest_prefab q @ ys"
  shows "same_content p = same_content q \<and> xs = ys"
proof -
  let ?r = "\<lambda>p. concat (map (\<lambda>(n, v). field n @ field v) (sorted_fields (pf_vars p)))"
  have "field (go_string (pf_path p)) @ (size_bytes (length (pf_vars p)) @ ?r p @ xs) = field (go_string (pf_path q)) @ (size_bytes (length (pf_vars q)) @ ?r q @ ys)"
    using assms(5) by (simp add: digest_prefab_def)
  note 1 = field_front [OF path_small [OF assms(1)] path_small [OF assms(2)] this]
  note 2 = size_bytes_front [OF assms(3,4) conjunct2 [OF 1]]
  have "length (sorted_fields (pf_vars p)) = length (sorted_fields (pf_vars q))" using 2 by (simp add: sorted_fields_def)
  from counted_fields_front [OF this fields_small [OF assms(1)] fields_small [OF assms(2)] conjunct2 [OF 2]]
  show ?thesis using same_from_texts [OF assms(1,2) conjunct1 [OF 1]] by blast
qed

text \<open>Stacks whose texts the encoding can carry.\<close>

definition stack_texts_ok :: "prefab list \<Rightarrow> bool" where
  "stack_texts_ok ps \<longleftrightarrow> length ps < 2 ^ 64 \<and> (\<forall>p\<in>set ps. texts_ok p \<and> length (pf_vars p) < 2 ^ 64)"

lemma stack_bytes_front:
  assumes "stack_texts_ok ps" "stack_texts_ok qs" "stack_bytes ps @ xs = stack_bytes qs @ ys"
  shows "stack_content ps = stack_content qs \<and> xs = ys"
proof -
  have l: "length ps < 2 ^ 64" "length qs < 2 ^ 64" using assms(1,2) unfolding stack_texts_ok_def by blast+
  have "size_bytes (length ps) @ (concat (map digest_prefab ps) @ xs) = size_bytes (length qs) @ (concat (map digest_prefab qs) @ ys)"
    using assms(3) by (simp add: stack_bytes_def)
  note 1 = size_bytes_front [OF l this]
  have "\<forall>p\<in>set ps. texts_ok p \<and> length (pf_vars p) < 2 ^ 64" "\<forall>p\<in>set qs. texts_ok p \<and> length (pf_vars p) < 2 ^ 64"
    using assms(1,2) unfolding stack_texts_ok_def by blast+
  with conjunct1 [OF 1] conjunct2 [OF 1] show ?thesis
  proof (induction ps qs rule: list_induct2)
    case (Cons p ps q qs)
    have p: "texts_ok p" "texts_ok q" "length (pf_vars p) < 2 ^ 64" "length (pf_vars q) < 2 ^ 64" using Cons.prems(2,3) by (meson list.set_intros(1))+
    have "digest_prefab p @ (concat (map digest_prefab ps) @ xs) = digest_prefab q @ (concat (map digest_prefab qs) @ ys)" using Cons.prems(1) by simp
    note 2 = digest_prefab_front [OF p this]
    have "stack_content ps = stack_content qs \<and> xs = ys" by (rule Cons.IH) (use 2 Cons.prems(2,3) in auto)
    then show ?case using 2 by (simp add: stack_content_def)
  qed (simp add: stack_content_def)
qed

lemma cells_front:
  assumes "\<forall>p\<in>set ps. stack_texts_ok (f p) \<and> stack_texts_ok (g p)" "concat (map (\<lambda>p. stack_bytes (f p)) ps) = concat (map (\<lambda>p. stack_bytes (g p)) ps)"
  shows "\<forall>p\<in>set ps. stack_content (f p) = stack_content (g p)"
  using assms
proof (induction ps)
  case (Cons p ps)
  have ok: "stack_texts_ok (f p)" "stack_texts_ok (g p)" using Cons.prems(1) by simp_all
  have "stack_bytes (f p) @ concat (map (\<lambda>p. stack_bytes (f p)) ps) = stack_bytes (g p) @ concat (map (\<lambda>p. stack_bytes (g p)) ps)"
    using Cons.prems(2) by simp
  note 1 = stack_bytes_front [OF ok this]
  then show ?case using Cons.IH Cons.prems(1) by simp
qed simp

definition data_texts_ok :: "dmm_data \<Rightarrow> bool" where
  "data_texts_ok d \<longleftrightarrow> (\<forall>(k, ps)\<in>set (dictionary d). stack_texts_ok ps)"

lemma cell_texts: "data_texts_ok d \<Longrightarrow> cell d p = Some ps \<Longrightarrow> stack_texts_ok ps"
  unfolding data_texts_ok_def cell_def by (auto simp: bind_eq_Some_conv dest: map_of_SomeD)

lemma stack_texts_names: "stack_texts_ok ps \<Longrightarrow> names_distinct ps"
  by (simp add: stack_texts_ok_def names_distinct_def texts_ok_def)

lemma digest_text_inj:
  assumes "digest_text d = Inr bs" "digest_text e = Inr bs" "(max_x e, max_y e, max_z e) = (max_x d, max_y d, max_z d)"
    and "data_texts_ok d" "data_texts_ok e" "in_box (max_x d) (max_y d) (max_z d) p"
  shows "\<exists>ps qs. cell d p = Some ps \<and> cell e p = Some qs \<and> Prefabs_Equals ps qs"
proof -
  have b: "box e = box d" "dims_bytes e = dims_bytes d" using assms(3) by (simp_all add: box_def dims_bytes_def)
  have d: "\<forall>p\<in>set (box d). cell d p \<noteq> None \<and> cell e p \<noteq> None" using assms(1,2) unfolding digest_text_cells b by blast
  then have ok: "stack_texts_ok (the (cell d p)) \<and> stack_texts_ok (the (cell e p))" if "p \<in> set (box d)" for p
    using cell_texts [OF assms(4)] cell_texts [OF assms(5)] that by (metis option.exhaust_sel)
  have "\<forall>p\<in>set (box d). stack_content (the (cell d p)) = stack_content (the (cell e p))"
    by (rule cells_front) (use ok assms(1,2) in \<open>auto simp: digest_text_cells b\<close>)
  moreover have p: "p \<in> set (box d)" using assms(6) by (simp add: box_def set_box_points)
  ultimately show ?thesis using d ok [OF p] Prefabs_Equals_iff stack_texts_names by (metis option.exhaust_sel)
qed

end
