(* ===== verification/Save_Roundtrip.thy ===== *)
theory Save_Roundtrip
  imports Save_Digest
begin

text \<open>
  Saving end to end: what validation accepts holds the intended map, what a save writes is accepted and
  read back as the map, and sanitizing changes no variable.
\<close>

section \<open>Validation\<close>

lemma compare_savedD:
  assumes "compare_saved sha r d tgm = Inr ()"
  shows "is_tgm r = tgm" "(max_x r, max_y r, max_z r) = (max_x d, max_y d, max_z d)"
    "\<exists>as bs. digest_text r = Inr as \<and> digest_text d = Inr bs \<and> sha as = sha bs"
  using assms by (auto simp: compare_saved_def semanticDigest_def split: if_splits sum.splits) (cases "digest_text d"; cases "digest_text r"; auto)+

text \<open>C5: a save that validation accepts holds the intended map. When \<^verbatim>\<open>ValidateSavedPair\<close> accepts a staged text
  and SHA-256 does not give the two digest texts of the comparison one hash, the staged text parses, has
  the intended dimensions and format, and every point has a content that \<^verbatim>\<open>Equals\<close> the intended one,
  whatever key it is under.\<close>

theorem validated_save_is_faithful:
  assumes "ValidateSavedPair sha path staged output intended = Inr ()"
    and "parse path staged = Inr d"
    and "data_texts_ok d" "data_texts_ok intended"
    and "inj_on sha {bs. digest_text d = Inr bs \<or> digest_text intended = Inr bs}"
  shows "is_tgm d = is_tgm intended \<and> (max_x d, max_y d, max_z d) = (max_x intended, max_y intended, max_z intended) \<and>
    (\<forall>p. in_box (max_x intended) (max_y intended) (max_z intended) p \<longrightarrow>
      (\<exists>ps qs. cell d p = Some ps \<and> cell intended p = Some qs \<and> Prefabs_Equals ps qs))"
proof -
  have c: "compare_saved sha d intended (is_tgm intended) = Inr ()"
    using assms(1,2) by (auto simp: ValidateSavedPair_def split: sum.splits) (cases "compare_saved sha d output (is_tgm output)"; simp)
  note f = compare_savedD [OF c]
  obtain as bs where b: "digest_text d = Inr as" "digest_text intended = Inr bs" "sha as = sha bs" using f(3) by blast
  have "as = bs" using inj_onD [OF assms(5) b(3)] b(1,2) by blast
  have dims: "(max_x intended, max_y intended, max_z intended) = (max_x d, max_y d, max_z d)" using f(2) by simp
  have "\<exists>ps qs. cell d p = Some ps \<and> cell intended p = Some qs \<and> Prefabs_Equals ps qs"
    if "in_box (max_x intended) (max_y intended) (max_z intended) p" for p
    by (rule digest_text_inj [OF b(1) b(2) [folded \<open>as = bs\<close>] dims assms(3,4)]) (use that f(2) in simp)
  then show ?thesis using f(1,2) by blast
qed

section \<open>The intended map\<close>

lemma decimal_value: "foldl (\<lambda>n c. 10 * n + (c - 48)) 0 (lit (decimal n)) = int n"
proof (induction n rule: decimal.induct)
  case (1 n)
  show ?case
  proof (cases "n < 10")
    case True
    then show ?thesis by (subst decimal.simps) (simp add: lit_digit)
  next
    case False
    have d: "lit (decimal n) = lit (decimal (n div 10)) @ [48 + int (n mod 10)]"
      using False lit_digit [of "n mod 10"] by (subst decimal.simps) (simp add: lit_def)
    have "10 * int (n div 10) + int (n mod 10) = int n" by presburger
    then show ?thesis using 1 [OF False] unfolding d by simp
  qed
qed

lemma itoa_inj: "itoa (int m) = itoa (int n) \<Longrightarrow> m = n"
proof -
  assume "itoa (int m) = itoa (int n)"
  then have "lit (decimal m) = lit (decimal n)" by (simp only: itoa_def signed_decimal_def nat_int) simp
  then have "int m = int n" using decimal_value by metis
  then show ?thesis by simp
qed

abbreviation labelled :: "'a list \<Rightarrow> (int \<times> 'a) list" where
  "labelled xs \<equiv> zip [0..int (length xs) - 1] xs"

lemma labelled_nth:
  "length (labelled xs) = length xs" "i < length xs \<Longrightarrow> labelled xs ! i = (int i, xs ! i)"
  by simp_all

lemma foldl_upd: "distinct (map f xs) \<Longrightarrow> x \<in> set xs \<Longrightarrow> foldl (\<lambda>g x. g(f x \<mapsto> v x)) g xs (f x) = Some (v x)"
proof (induction xs arbitrary: g)
  case (Cons y ys)
  have keep: "foldl (\<lambda>g x. g(f x \<mapsto> v x)) g zs p = g p" if "p \<notin> f ` set zs" for g zs p
    using that by (induction zs arbitrary: g) auto
  show ?case using Cons keep [of "f x" ys] by (cases "x = y") (auto simp del: fun_upd_apply simp: fun_upd_same)
qed simp

lemma Expected_cell:
  assumes "map_ok m" "t \<in> set (mm_tiles m)"
  shows "cell (Expected m tgm) (fst t) = Some (Sorted (snd t))"
proof -
  let ?z = "labelled (mm_tiles m)"
  obtain i where i: "i < length (mm_tiles m)" "t = mm_tiles m ! i" using assms(2) by (metis in_set_conv_nth)
  have z: "(int i, t) \<in> set ?z" using labelled_nth(1) [of "mm_tiles m"] labelled_nth(2) [OF i(1)] i by (metis in_set_conv_nth)
  have m2: "map snd ?z = mm_tiles m" by simp
  then have "map (fst \<circ> snd) ?z = map fst (mm_tiles m)" by (metis map_map)
  then have "distinct (map (\<lambda>e. fst (snd e)) ?z)" using assms(1) unfolding map_ok_def comp_def by metis
  from foldl_upd [OF this z, of "\<lambda>e. itoa (fst e)" Map.empty]
  have g: "grid (Expected m tgm) (fst t) = Some (itoa (int i))" by (simp add: Expected_def split_def)
  have "map fst (dictionary (Expected m tgm)) = map (itoa \<circ> fst) ?z" by (simp add: Expected_def case_prod_beta comp_def)
  also have "\<dots> = map itoa [0..int (length (mm_tiles m)) - 1]" by (metis length_map length_upto map_fst_zip map_map diff_add_cancel diff_zero nat_int)
  also have "distinct \<dots>"
    unfolding distinct_map
  proof (intro conjI inj_onI)
    fix a b assume "a \<in> set [0..int (length (mm_tiles m)) - 1]" "b \<in> set [0..int (length (mm_tiles m)) - 1]" "itoa a = itoa b"
    then show "a = b" using itoa_inj [of "nat a" "nat b"] by (simp add: eq_nat_nat_iff)
  qed simp
  finally have "distinct (map fst (dictionary (Expected m tgm)))" .
  moreover have "(itoa (int i), Sorted (snd t)) \<in> set (dictionary (Expected m tgm))"
    using z by (force simp: Expected_def)
  ultimately have "map_of (dictionary (Expected m tgm)) (itoa (int i)) = Some (Sorted (snd t))" by (rule map_of_is_SomeI)
  then show ?thesis using g by (simp add: cell_def)
qed

section \<open>The written map\<close>

text \<open>A map whose texts the format can carry.\<close>

definition map_writable :: "dmm_map \<Rightarrow> bool" where
  "map_writable m \<longleftrightarrow> map_ok m \<and> 1 \<le> mm_x m \<and> 1 \<le> mm_y m \<and> 1 \<le> mm_z m \<and>
     mm_x m < 9223372036854775807 \<and> mm_y m < 9223372036854775807 \<and> mm_z m < 9223372036854775807 \<and>
     (\<forall>t\<in>set (mm_tiles m). snd t \<noteq> [] \<and> (\<forall>p\<in>set (snd t). prefab_ok p))"

lemma map_to_save_writable:
  assumes "map_writable m"
  shows "\<And>t. t \<in> set (mm_tiles (map_to_save sz env m)) \<Longrightarrow> Sorted (snd t) \<noteq> [] \<and> (\<forall>p\<in>set (Sorted (snd t)). prefab_ok p)"
proof -
  have s: "set (Sorted ps) = set ps" "(Sorted ps = []) = (ps = [])" for ps
    using set_sort [of "\<lambda>p. PathWeight (pf_path p)" ps] by (simp_all add: Sorted_def del: set_empty add: set_empty [symmetric])
  have p: "prefab_ok (sanitize_prefab env p)" if "prefab_ok p" for p
    using that by (auto simp: prefab_ok_def sanitize_prefab_def distinct_map_filter split: option.split)
  fix t assume "t \<in> set (mm_tiles (map_to_save sz env m))"
  then show "Sorted (snd t) \<noteq> [] \<and> (\<forall>p\<in>set (Sorted (snd t)). prefab_ok p)"
    using assms p unfolding s by (auto simp: map_writable_def map_to_save_def sanitizeVariables_def split: if_splits)
qed

lemma byond_key_ok: "byond_key l k \<Longrightarrow> key_ok l k"
proof -
  have "\<forall>c\<in>set base52. c \<notin> {NL, CR, SPACE, TAB, QUOTE, SLASH}" by code_simp
  then show "byond_key l k \<Longrightarrow> key_ok l k" unfolding byond_key_def key_ok_def by blast
qed

lemma assigned_output:
  assumes m: "map_writable m" and i: "initial_ok initial" "line_break initial \<in> {[NL], [CR, NL]}"
    and sp: "sp = start f sz env m initial path" and a: "assigned (handleReusedKeys sp) sp'"
  shows "dmm_ok (sp_output sp')" "same_input sp sp'"
    "(p, ps) \<in> set (mm_tiles (map_to_save sz env m)) \<Longrightarrow> \<exists>qs. cell (sp_output sp') p = Some qs \<and> names_distinct qs \<and> stack_content qs = stack_content (Sorted ps)"
proof -
  let ?d = "sp_output sp'" and ?R = "\<lambda>ps. ps \<noteq> [] \<and> (\<forall>p\<in>set ps. prefab_ok p)"
  have m': "map_ok m" using m by (simp add: map_writable_def)
  show same: "same_input sp sp'"
    using start_attempt(2) [OF m' i(1)] a same_input_trans unfolding sp assigned_def by blast
  note s = same_input_simps [OF same]
  have o: "out_ok sp'" "keys_ok sp'" "\<forall>p\<in>points sp'. grid ?d p \<noteq> None"
    using a same_input_simps(1) [OF start_attempt(2) [OF m' i(1)], of f sz env path] s(1) unfolding assigned_def sp by auto
  have dims: "max_x ?d = mm_x m" "max_y ?d = mm_y m" "max_z ?d = mm_z m" "line_break ?d = line_break initial"
    using same by (simp_all add: same_input_def sp start_fields)
  have pts: "p \<in> points sp' \<longleftrightarrow> in_box (mm_x m) (mm_y m) (mm_z m) p" for p
    unfolding s(1) sp start_fields set_box_points map_to_save_ok [OF m'] ..
  have tiles: "\<exists>ps. (p, ps) \<in> set (mm_tiles (map_to_save sz env m))" if "p \<in> points sp'" for p
    using that map_to_save_ok(1) [OF m', of sz env] unfolding s(1) sp start_fields map_ok_def by (metis imageE prod.collapse)
  have R: "?R (fst (stack_at sp p))" if p: "p \<in> points sp'" for p
  proof -
    obtain ps where ps: "(p, ps) \<in> set (mm_tiles (map_to_save sz env m))" using tiles [OF p] by blast
    from start_stack_at [OF m' ps, of ?R f initial path] map_to_save_writable [OF m, of _ sz env]
    obtain qs where "stack_at sp p = (qs, Prefabs_Hash qs)" "?R qs" unfolding sp by blast
    then show ?thesis by simp
  qed
  have entry: "key_ok (key_length ?d) k \<and> ?R ps" if e: "(k, ps) \<in> set (dictionary ?d)" for k ps
  proof -
    obtain p where "p \<in> points sp'" "ps = fst (stack_at sp' p)" using out_okD(3) [OF o(1) e] by blast
    moreover have "byond_key (key_length ?d) k" using o(2) e by (force simp: keys_ok_def)
    ultimately show ?thesis using R byond_key_ok s(2) by metis
  qed
  have at: "\<exists>k ps. grid ?d p = Some k \<and> (k, ps) \<in> set (dictionary ?d) \<and> stack_content ps = tile_content sp p" if p: "p \<in> points sp'" for p
  proof -
    obtain k where "grid ?d p = Some k" using o(3) p by blast
    then show ?thesis using out_okD(4) [OF o(1)] unfolding s(3) by blast
  qed
  have out: "grid ?d p = None" if "p \<notin> points sp'" for p
    using that out_okD(4) [OF o(1)] by (metis not_Some_eq)
  have "in_box (mm_x m) (mm_y m) (mm_z m) (1, 1, 1)" using m by (simp add: in_box_def map_writable_def)
  then have ne: "dictionary ?d \<noteq> []" using at [of "(1, 1, 1)"] pts by force
  have kl: "1 \<le> key_length ?d" using o(2) by (auto simp: keys_ok_def)
  show "dmm_ok ?d"
    unfolding dmm_ok_def dims
  proof (intro conjI)
    show "\<forall>(k, ps)\<in>set (dictionary ?d). key_ok (key_length ?d) k \<and> ps \<noteq> [] \<and> (\<forall>p\<in>set ps. prefab_ok p)" using entry by blast
    show "\<forall>p. if in_box (mm_x m) (mm_y m) (mm_z m) p then \<exists>k. grid ?d p = Some k \<and> key_ok (key_length ?d) k else grid ?d p = None"
      using at out entry pts by metis
  qed (use m i(2) kl ne out_okD(1) [OF o(1)] in \<open>simp_all add: map_writable_def\<close>)
  assume t: "(p, ps) \<in> set (mm_tiles (map_to_save sz env m))"
  then have "p \<in> points sp'" using map_to_save_ok(1) [OF m', of sz env] unfolding s(1) sp start_fields map_ok_def by force
  then obtain k qs where k: "grid ?d p = Some k" "(k, qs) \<in> set (dictionary ?d)" "stack_content qs = tile_content sp p" using at by blast
  have "names_distinct qs" using entry [OF k(2)] by (auto simp: names_distinct_def prefab_ok_def)
  moreover have "cell ?d p = Some qs" using k map_of_is_SomeI [OF out_okD(1) [OF o(1)] k(2)] by (simp add: cell_def)
  ultimately show "\<exists>qs. cell ?d p = Some qs \<and> names_distinct qs \<and> stack_content qs = stack_content (Sorted ps)"
    using k(3) start_contents(2) [OF m' t] unfolding sp by auto
qed

section \<open>The whole save\<close>

lemma output_accepted:
  assumes ok: "dmm_ok d" and e: "(max_x e, max_y e, max_z e) = (max_x d, max_y d, max_z d)" "is_tgm e = is_tgm d"
    and cells: "\<And>p. p \<in> set (box d) \<Longrightarrow> \<exists>ps qs. cell d p = Some ps \<and> cell e p = Some qs \<and> names_distinct ps \<and> names_distinct qs \<and> stack_content qs = stack_content ps"
  shows "\<exists>r. parse path (Saved_text d) = Inr r \<and> is_tgm r = is_tgm d \<and> (max_x r, max_y r, max_z r) = (max_x d, max_y d, max_z d) \<and>
    (\<forall>p. cell r p = cell d p) \<and> ValidateSavedPair sha path (Saved_text d) d e = Inr ()"
proof -
  define r where "r = d\<lparr>file_path := path, is_tgm := is_tgm d, dictionary := read_back d\<rparr>"
  have p: "parse path (Saved_text d) = Inr r"
    using parse_WriteTGM [OF ok, of path] parse_WriteDM [OF ok, of path] by (cases "is_tgm d") (simp_all add: Saved_text_def r_def)
  have r: "is_tgm r = is_tgm d" "max_x r = max_x d" "max_y r = max_y d" "max_z r = max_z d" "cell r p = cell d p" for p
    using read_back_same [OF ok] by (simp_all add: r_def cell_def)
  note dims = dmm_okD(3-5) [OF ok]
  have "\<forall>p\<in>set (box d). cell d p \<noteq> None" using cells by fastforce
  then obtain bs where bs: "digest_text d = Inr bs" using digest_text_cells [of d] dims by auto
  have dr: "digest_text r = Inr bs"
    by (rule digest_text_cong [OF bs]) (use r cells in \<open>fastforce+\<close>)
  have de: "digest_text e = Inr bs"
    by (rule digest_text_cong [OF bs e(1)]) (use cells in \<open>fastforce+\<close>)
  have "compare_saved sha r d (is_tgm d) = Inr ()" using bs dr r by (simp add: compare_saved_def semanticDigest_def)
  moreover have "compare_saved sha r e (is_tgm e) = Inr ()" using de dr r e by (simp add: compare_saved_def semanticDigest_def)
  ultimately have "ValidateSavedPair sha path (Saved_text d) d e = Inr ()" using p by (simp add: ValidateSavedPair_def)
  then show ?thesis using p r by auto
qed

theorem validated_save_is_faithful_witness:
  "\<exists>d ps qs. parse [] (Saved_text sample_map) = Inr d \<and> cell d (2, 1, 1) = Some ps \<and> cell sample_map (2, 1, 1) = Some qs \<and> Prefabs_Equals ps qs"
proof -
  let ?r = "sample_map\<lparr>file_path := [], is_tgm := True, dictionary := read_back sample_map\<rparr>"
  have p: "parse [] (Saved_text sample_map) = Inr ?r"
    using parse_WriteTGM [OF sample_map_ok] by (simp add: Saved_text_def) (simp add: sample_map_def)
  have t: "data_texts_ok sample_map"
    by (simp add: data_texts_ok_def sample_map_def stack_texts_ok_def texts_ok_def runes_ok_def rune_ok_def) (simp add: lit_def rune_ok_def)
  have tr: "data_texts_ok ?r"
  proof -
    have "(k, ps) \<in> set (dictionary sample_map)" if "(k, ps) \<in> set (read_back sample_map)" for k ps
    proof -
      have "distinct (map fst (read_back sample_map))"
        using Keys_facts(1) [OF sample_map_ok] by (simp add: read_back_def comp_def)
      then have "map_of (dictionary sample_map) k = Some ps" using that read_back_same [OF sample_map_ok] by (metis map_of_is_SomeI)
      then show ?thesis by (rule map_of_SomeD)
    qed
    then show ?thesis using t unfolding data_texts_ok_def by simp blast
  qed
  have v: "ValidateSavedPair (\<lambda>bs. bs) [] (Saved_text sample_map) sample_map sample_map = Inr ()"
  proof -
    have "\<exists>ps qs. cell sample_map p = Some ps \<and> cell sample_map p = Some qs \<and> names_distinct ps \<and> names_distinct qs \<and> stack_content qs = stack_content ps"
      if "p \<in> set (box sample_map)" for p
    proof -
      have "p = (1, 1, 1) \<or> p = (2, 1, 1)" using that by (auto simp: box_def box_points_def sample_map_def upto.simps)
      then have "\<exists>ps. cell sample_map p = Some ps" by (auto simp: cell_def sample_map_def lit_def)
      then show ?thesis using stack_texts_names [OF cell_texts [OF t]] by blast
    qed
    from output_accepted [OF sample_map_ok refl refl this, of "[]" "\<lambda>bs. bs"] show ?thesis by blast
  qed
  have b: "in_box (max_x sample_map) (max_y sample_map) (max_z sample_map) (2, 1, 1)" by (simp add: sample_map_def in_box_def)
  have i: "inj_on (\<lambda>bs. bs) A" for A :: "nat list set" by (simp add: inj_on_def)
  from validated_save_is_faithful [OF v p tr t i] b p show ?thesis by blast
qed

text \<open>C4: a save does not change the map. Take a map that the format can carry, opened from a file whose
  keys are distinct keys of BYOND (one to three letters a to z and A to Z, the three-letter ones up to
  number 65,528) and have no content with two values for a variable. Suppose the number of distinct contents does not exceed what the keys can
  name, and that the user, if asked about a longer key, agrees. Then with or without sanitizing, in
  either format, and for every order and every choice of keys, the save ends without an error; the text it
  writes parses to a map with the same dimensions, in the chosen format, and at every point with the
  content of its tile, sorted as the format wants it. (A file with keys of four letters or more is outside
  the claim: \<open>long_keys_get_one_letter\<close> shows the key generator give it a key of one letter.)\<close>

theorem save_keeps_map:
  assumes "map_writable m" "initial_ok initial" "line_break initial \<in> {[NL], [CR, NL]}" "fair intn"
    and "\<And>ask plan. confirm = Some ask \<Longrightarrow> ask plan"
    and "\<not> Exceeds (PlanKeyLength (card (map_contents (map_to_save sanitize env m))) (key_length initial))"
  shows "\<exists>staged d. saveV sha intn format sanitize confirm env m initial path = Some (Inr staged) \<and> parse path staged = Inr d \<and>
    is_tgm d = detectIsTgm format (is_tgm initial) \<and> (max_x d, max_y d, max_z d) = (mm_x m, mm_y m, mm_z m) \<and>
    (\<forall>(p, ps)\<in>set (mm_tiles (map_to_save sanitize env m)). \<exists>qs. cell d p = Some qs \<and> Prefabs_Equals qs (Sorted ps))"
proof -
  let ?sp = "makeOwnedSaveProcess format sanitize env m initial path" and ?m = "map_to_save sanitize env m"
  have m: "map_ok m" using assms(1) by (simp add: map_writable_def)
  obtain sp' where run: "handleLocationsWithoutKeys save_fuel intn (handleReusedKeys ?sp) = Some (None, sp')"
      and a: "assigned (handleReusedKeys ?sp) sp'"
    using assignment_plan [OF m assms(2,4) refl refl, of format sanitize env path] assms(6) by auto
  note o = assigned_output [OF assms(1-3) start_def [symmetric] a]
  let ?d = "sp_output sp'"
  have d: "is_tgm ?d = detectIsTgm format (is_tgm initial)" "(max_x ?d, max_y ?d, max_z ?d) = (mm_x m, mm_y m, mm_z m)" "file_path ?d = path"
      "sp_expected sp' = Expected ?m (detectIsTgm format (is_tgm initial))"
    using o(2) by (simp_all add: same_input_def start_def [symmetric] start_fields)
  have names: "names_distinct (Sorted ps)" if "(p, ps) \<in> set (mm_tiles ?m)" for p ps
    using map_to_save_ok(1) [OF m, of sanitize env] that by (fastforce simp: map_ok_def names_Sorted)
  have acc: "\<exists>r. parse path (Saved_text ?d) = Inr r \<and> is_tgm r = is_tgm ?d \<and> (max_x r, max_y r, max_z r) = (max_x ?d, max_y ?d, max_z ?d) \<and>
    (\<forall>p. cell r p = cell ?d p) \<and> ValidateSavedPair sha path (Saved_text ?d) ?d (sp_expected sp') = Inr ()"
  proof (rule output_accepted [OF o(1)])
    show "(max_x (sp_expected sp'), max_y (sp_expected sp'), max_z (sp_expected sp')) = (max_x ?d, max_y ?d, max_z ?d)" "is_tgm (sp_expected sp') = is_tgm ?d"
      using d map_to_save_ok(2-4) [OF m, of sanitize env] by (simp_all add: Expected_def)
    fix p assume "p \<in> set (box ?d)"
    then have "p \<in> fst ` set (mm_tiles ?m)"
      using d(2) map_to_save_ok [OF m, of sanitize env] by (simp add: box_def map_ok_def)
    then obtain ps where t: "(p, ps) \<in> set (mm_tiles ?m)" by force
    obtain qs where "cell ?d p = Some qs" "names_distinct qs" "stack_content qs = stack_content (Sorted ps)" using o(3) [OF t] by blast
    moreover have "cell (sp_expected sp') p = Some (Sorted ps)"
      using Expected_cell [OF map_to_save_ok(1) [OF m, of sanitize env] t] unfolding d(4) by simp
    ultimately show "\<exists>ps qs. cell ?d p = Some ps \<and> cell (sp_expected sp') p = Some qs \<and> names_distinct ps \<and> names_distinct qs \<and> stack_content qs = stack_content ps"
      using names [OF t] by auto
  qed
  then obtain r where r: "parse path (Saved_text ?d) = Inr r" "is_tgm r = is_tgm ?d" "(max_x r, max_y r, max_z r) = (max_x ?d, max_y ?d, max_z ?d)"
      "\<And>p. cell r p = cell ?d p" "ValidateSavedPair sha path (Saved_text ?d) ?d (sp_expected sp') = Inr ()" by blast
  have "saveV sha intn format sanitize confirm env m initial path = Some (Inr (Saved_text ?d))"
    using run r(5) d(3) assms(5) by (cases confirm) (auto simp: saveV_def writeAndValidate_def Let_def)
  moreover have "\<exists>qs. cell r p = Some qs \<and> Prefabs_Equals qs (Sorted ps)" if t: "(p, ps) \<in> set (mm_tiles ?m)" for p ps
    using o(3) [OF t] Prefabs_Equals_iff names [OF t] unfolding r(4) by blast
  ultimately show ?thesis using r(1-3) d(1,2) by (intro exI [of _ "Saved_text ?d"] exI [of _ r]) auto
qed

theorem save_keeps_map_witness:
  "\<exists>staged d. saveV (\<lambda>bs. []) (\<lambda>i n. 0) FormatDM True None (\<lambda>_. Some (\<lambda>_. Some (lit ''2''))) sample_tiles sample_map [] = Some (Inr staged) \<and>
    parse [] staged = Inr d \<and> \<not> is_tgm d \<and> (max_x d, max_y d, max_z d) = (2, 1, 1)"
proof -
  have w: "map_writable sample_tiles"
  proof -
    have "list_all (\<lambda>t. snd t \<noteq> [] \<and> list_all prefab_ok (snd t)) (mm_tiles sample_tiles)" by code_simp
    moreover have "mm_x sample_tiles = 2" "mm_y sample_tiles = 1" "mm_z sample_tiles = 1" by (simp_all add: sample_tiles_def)
    ultimately show ?thesis using sample_tiles_ok by (simp add: map_writable_def list_all_iff)
  qed
  have lb: "line_break sample_map \<in> {[NL], [CR, NL]}" by (simp add: sample_map_def)
  have f: "detectIsTgm FormatDM (is_tgm sample_map) = False" "mm_x sample_tiles = 2" "mm_y sample_tiles = 1" "mm_z sample_tiles = 1"
    by (simp_all add: detectIsTgm_def sample_tiles_def)
  show ?thesis
    using save_keeps_map [OF w sample_initial_ok lb first_choice_fair _ sample_plan(2), where confirm = None and sha = "\<lambda>bs. []" and
      format = FormatDM and path = "[]" and sanitize = True and env = "\<lambda>_. Some (\<lambda>_. Some (lit ''2''))"]
    unfolding f by auto
qed

section \<open>Sanitizing\<close>

text \<open>C32: sanitizing a map changes no variable of any instance: the variables it drops have the value their
  type gives them anyway, so the value of every name is the same before and after; paths and points stay,
  and no variable is added or changed.\<close>

theorem sanitize_keeps_values:
  assumes "map_ok m"
  shows "list_all2 (\<lambda>(p, ps) (q, qs). p = q \<and> list_all2 (\<lambda>a b. pf_path a = pf_path b \<and> set (pf_vars a) \<subseteq> set (pf_vars b) \<and>
    (\<forall>name. fst (Value env a name) = fst (Value env b name))) ps qs) (mm_tiles (sanitizeVariables env m)) (mm_tiles m)"
proof -
  have v: "fst (Value env (sanitize_prefab env b) name) = fst (Value env b name)" if d: "distinct (map fst (pf_vars b))" for b name
  proof (cases "length (pf_vars b) = 0 \<or> env (pf_path b) = None")
    case True
    then show ?thesis by (auto simp: sanitize_prefab_def)
  next
    case False
    then obtain vars where vars: "env (pf_path b) = Some vars" by auto
    define keep where "keep = (\<lambda>(n, w). (case vars n of None \<Rightarrow> [] | Some v \<Rightarrow> v) \<noteq> (w :: runes))"
    have s: "sanitize_prefab env b = b\<lparr>pf_vars := filter keep (pf_vars b)\<rparr>" using False vars by (simp add: sanitize_prefab_def keep_def)
    have d': "distinct (map fst (filter keep (pf_vars b)))" using d by (rule distinct_map_filter)
    show ?thesis
    proof (cases "map_of (pf_vars b) name")
      case None
      then have "map_of (filter keep (pf_vars b)) name = None" by (force simp: map_of_eq_None_iff)
      then show ?thesis using None by (simp add: Value_def s)
    next
      case (Some w)
      then have m: "(name, w) \<in> set (pf_vars b)" by (rule map_of_SomeD)
      show ?thesis
      proof (cases "keep (name, w)")
        case True
        then have "map_of (filter keep (pf_vars b)) name = Some w" using d' m by (intro map_of_is_SomeI) simp_all
        then show ?thesis using Some by (simp add: Value_def s)
      next
        case False
        have "map_of (filter keep (pf_vars b)) name = None"
          using False m d by (auto simp: map_of_eq_None_iff dest: eq_key_imp_eq_value)
        then show ?thesis using Some False vars by (auto simp: Value_def s keep_def split: option.splits)
      qed
    qed
  qed
  have one: "list_all2 (\<lambda>a b. pf_path a = pf_path b \<and> set (pf_vars a) \<subseteq> set (pf_vars b) \<and> (\<forall>name. fst (Value env a name) = fst (Value env b name)))
      (map (sanitize_prefab env) ps) ps" if "names_distinct ps" for ps
    using that v by (auto simp: list_all2_conv_all_nth names_distinct_def) (auto simp: sanitize_prefab_def split: option.splits if_splits)
  have "mm_tiles (sanitizeVariables env m) = map (\<lambda>(p, ps). (p, map (sanitize_prefab env) ps)) (mm_tiles m)" by (simp add: sanitizeVariables_def)
  moreover have "names_distinct ps" if "(p, ps) \<in> set (mm_tiles m)" for p ps using assms that by (auto simp: map_ok_def)
  ultimately show ?thesis using one by (auto simp: list.rel_map intro!: list.rel_refl_strong)
qed

theorem sanitize_keeps_values_witness:
  "list_all2 (\<lambda>(p, ps) (q, qs). p = q \<and> list_all2 (\<lambda>a b. pf_path a = pf_path b \<and> set (pf_vars a) \<subseteq> set (pf_vars b) \<and>
    (\<forall>name. fst (Value (\<lambda>_. Some (\<lambda>_. Some (lit ''2''))) a name) = fst (Value (\<lambda>_. Some (\<lambda>_. Some (lit ''2''))) b name))) ps qs)
    (mm_tiles (sanitizeVariables (\<lambda>_. Some (\<lambda>_. Some (lit ''2''))) sample_tiles)) (mm_tiles sample_tiles)"
  by (rule sanitize_keeps_values [OF sample_tiles_ok])

end
