(* ===== verification/Parse_Types.thy ===== *)
theory Parse_Types
  imports Prefab_Index Dmm_Roundtrip
begin

text \<open>
  What every parsed map has, whatever the file holds: the facts the rest of the program takes for granted
  about a map it has opened.
\<close>

section \<open>The dictionary\<close>

definition key_fits :: "nat \<Rightarrow> key \<Rightarrow> bool" where
  "key_fits kl k \<longleftrightarrow> k = [] \<or> length k = kl"

definition entry_fits :: "nat \<Rightarrow> key \<times> prefab list \<Rightarrow> bool" where
  "entry_fits kl e \<longleftrightarrow> key_fits kl (fst e) \<and> snd e \<noteq> [] \<and> names_distinct (snd e)"

text \<open>The invariant of the first loop. A key is complete when it is neither being read nor followed by its
  data yet.\<close>

definition dict_inv :: "pstate \<Rightarrow> bool" where
  "dict_inv st \<longleftrightarrow> distinct (map fst (ps_dict st)) \<and> (\<forall>e\<in>set (ps_dict st). entry_fits (ps_key_length st) e) \<and>
     names_distinct (curr_data st) \<and> distinct (map fst (curr_vars st)) \<and>
     (in_key st \<longrightarrow> \<not> after_data st \<and> \<not> in_data st) \<and> (in_data st \<longrightarrow> \<not> after_data st) \<and>
     (\<not> in_key st \<longrightarrow> key_fits (ps_key_length st) (curr_key st)) \<and> ps_break st \<in> {[NL], [CR, NL]}"

lemma put_names: "fst ` set (put n v vars) = insert n (fst ` set vars)" "distinct (map fst vars) \<Longrightarrow> distinct (map fst (put n v vars))"
proof -
  have s: "fst ` set (put n v vars) = insert n (fst ` set vars)" for n v vars by (induction n v vars rule: put.induct) auto
  show "fst ` set (put n v vars) = insert n (fst ` set vars)" by (rule s)
  show "distinct (map fst vars) \<Longrightarrow> distinct (map fst (put n v vars))"
  proof (induction n v vars rule: put.induct)
    case (2 name w n v vars)
    have "n \<notin> insert name (fst ` set vars)" if "n \<noteq> name" using 2 that by auto
    then show ?case using 2 s [of name w vars] by (simp only: put.simps) auto
  qed simp
qed

lemma names_snoc: "names_distinct (ps @ [p]) \<longleftrightarrow> names_distinct ps \<and> distinct (map fst (pf_vars p))"
  by (auto simp: names_distinct_def)

lemma flush_prefab_inv:
  assumes "dict_inv st"
  shows "dict_inv (flush_prefab st)" "curr_data (flush_prefab st) \<noteq> []" "in_data (flush_prefab st) = in_data st"
    "in_key (flush_prefab st) = in_key st"
  using assms by (auto simp: flush_prefab_def flushCurrPrefab_def flushCurrPath_def dict_inv_def names_snoc)

lemma close_definition_inv:
  assumes "dict_inv st" "in_data st"
  shows "dict_inv (close_definition st)"
proof -
  let ?f = "flush_prefab st"
  note f = flush_prefab_inv [OF assms(1)]
  have k: "key_fits (ps_key_length ?f) (curr_key ?f)" "names_distinct (curr_data ?f)" "distinct (map fst (ps_dict ?f))"
      "\<forall>e\<in>set (ps_dict ?f). entry_fits (ps_key_length ?f) e"
    using f assms by (auto simp: dict_inv_def)
  have "entry_fits (ps_key_length ?f) (curr_key ?f, curr_data ?f)" using k f(2) by (simp add: entry_fits_def)
  then have "\<forall>e\<in>set (set_entry (curr_key ?f) (curr_data ?f) (ps_dict ?f)). entry_fits (ps_key_length ?f) e"
    using set_entry_set(1) [OF k(3)] k(4) by auto
  then show ?thesis using f(1) assms k set_entry_set(2) [OF k(3)] f(4)
    by (simp add: close_definition_def Let_def dict_inv_def key_fits_def names_distinct_def)
qed

lemma var_inv: "dict_inv st \<Longrightarrow> dict_inv (quote_step st c)" "dict_inv st \<Longrightarrow> dict_inv (var_step st c)"
  by (auto simp: quote_step_def var_step_def add_datum_def flushCurrVariable_def dict_inv_def put_names Let_def)

lemma data_inv: "dict_inv st \<Longrightarrow> in_data st \<Longrightarrow> dict_inv (data_step st c)"
  using var_inv close_definition_inv [of st] flush_prefab_inv(1) [of st]
  by (auto simp: data_step_def) (auto simp: add_datum_def flushCurrPath_def dict_inv_def)

lemma key_inv: "dict_inv st \<Longrightarrow> in_key st \<Longrightarrow> key_step st c = Inr st' \<Longrightarrow> dict_inv st'"
  by (auto simp: key_step_def dict_inv_def key_fits_def entry_fits_def Let_def split: if_splits)

lemma dict_step_inv:
  assumes "dict_inv st" "dict_step st c = Inr (stop, st')"
  shows "dict_inv st'"
proof -
  have b: "dict_inv st'" if "blank_step st c = Inr st'" for st'
    using that assms(1) by (auto simp: blank_step_def add_datum_def dict_inv_def split: if_splits)
  have t: "dict_inv (st\<lparr>comment_trigger := x\<rparr>)" "in_data (st\<lparr>comment_trigger := x\<rparr>) = in_data st" "in_key (st\<lparr>comment_trigger := x\<rparr>) = in_key st" for x
    using assms(1) by (simp_all add: dict_inv_def)
  consider "c = NL \<or> c = CR" | "\<not> (c = NL \<or> c = CR)" "in_comment_line st" | "\<not> in_comment_line st" "c = SPACE \<or> c = TAB"
    | "c = SLASH \<and> \<not> in_quote st \<and> comment_trigger st" "\<not> in_comment_line st"
    | "\<not> (c = NL \<or> c = CR)" "\<not> in_comment_line st" "\<not> (c = SPACE \<or> c = TAB)" "\<not> (c = SLASH \<and> \<not> in_quote st \<and> comment_trigger st)" by blast
  then show ?thesis
  proof cases
    case 5
    let ?st = "st\<lparr>comment_trigger := (c = SLASH \<and> \<not> in_quote st)\<rparr>"
    have e: "(if in_data ?st then Inr (False, data_step ?st c)
         else if in_key ?st then map_sum id (Pair False) (key_step ?st c)
         else if c = QUOTE then
           (if \<not> after_data ?st then Inl (NoDataBlock (line_no ?st))
            else Inr (False, ?st\<lparr>definition_line := line_no ?st, in_key := True, after_data := False\<rparr>))
         else if c = LPAREN then
           (if after_data ?st then Inr (True, ?st\<lparr>curr_key := []\<rparr>) else Inr (False, ?st\<lparr>in_data := True\<rparr>))
         else Inr (False, ?st)) = Inr (stop, st')"
      using assms(2) 5 unfolding dict_step_def Let_def by argo
    show ?thesis
    proof (cases "in_data ?st \<or> in_key ?st")
      case True
      then show ?thesis using e data_inv [OF t(1), where c = c] key_inv [OF t(1), where c = c] by (auto split: if_splits sum.splits) (cases "key_step ?st c"; auto)+
    next
      case False
      then show ?thesis using e t(1) [of "c = SLASH \<and> \<not> in_quote st"] by (auto simp: dict_inv_def key_fits_def split: if_splits)
    qed
  next
    case 1
    then have "st' = line_end st c" using assms(2) by (simp add: dict_step_def)
    then show ?thesis using assms(1) by (simp add: line_end_def dict_inv_def)
  next
    case 2
    then show ?thesis using assms by (simp add: dict_step_def)
  next
    case 3
    then have "blank_step st c = Inr st'" using assms(2) by (cases "blank_step st c") (auto simp: dict_step_def)
    then show ?thesis by (rule b)
  next
    case 4
    then have "st' = st\<lparr>in_comment_line := True, ps_tgm := ps_tgm st \<or> line_no st = 1\<rparr>" using assms(2) by (simp add: dict_step_def)
    then show ?thesis using assms(1) by (simp add: dict_inv_def)
  qed
qed

lemma dict_loop_inv: "dict_inv st \<Longrightarrow> dict_loop st cs = Inr (st', rest) \<Longrightarrow> dict_inv st'"
proof (induction cs arbitrary: st)
  case (Cons c cs)
  obtain stop st1 where s: "dict_step st c = Inr (stop, st1)" using Cons.prems(2) by (auto split: sum.splits)
  then show ?case using Cons dict_step_inv [OF Cons.prems(1) s] by (auto split: if_splits)
qed simp

section \<open>The grid\<close>

definition grid_inv :: "nat \<Rightarrow> gstate \<Rightarrow> bool" where
  "grid_inv kl g \<longleftrightarrow> (\<forall>p k. gs_grid g p = Some k \<longrightarrow> length k = kl) \<and> gs_break g \<in> {[NL], [CR, NL]} \<and>
     0 \<le> gs_max_x g \<and> 0 \<le> gs_max_y g \<and> 0 \<le> gs_max_z g"

lemma finishLine_inv: "grid_inv kl g \<Longrightarrow> finishLine g = Inr g' \<Longrightarrow> grid_inv kl g'"
  by (auto simp: finishLine_def grid_inv_def split: if_splits)

lemma grid_step_inv:
  assumes "grid_inv kl g" "grid_step kl g c = Inr g'"
  shows "grid_inv kl g'"
proof -
  have "grid_inv kl g'" if "coord_step g c = Inr g'"
    using that assms(1) by (auto simp: coord_step_def grid_inv_def split: if_splits axis.splits)
  moreover have "grid_inv kl g'" if m: "map_step kl g c = Inr g'"
  proof (cases "finishLine g")
    case (Inl e)
    then show ?thesis using m assms(1) by (auto simp: map_step_def grid_inv_def Let_def split: if_splits)
  next
    case (Inr h)
    then show ?thesis using m assms(1) finishLine_inv [OF assms(1) Inr] by (auto simp: map_step_def grid_inv_def Let_def split: if_splits)
  qed
  ultimately show ?thesis using assms by (auto simp: grid_step_def grid_inv_def split: if_splits)
qed

lemma grid_loop_inv: "grid_inv kl g \<Longrightarrow> grid_loop kl g cs = Inr g' \<Longrightarrow> grid_inv kl g'"
proof (induction cs arbitrary: g)
  case (Cons c cs)
  then show ?case using grid_step_inv [OF Cons.prems(1)] by (cases "grid_step kl g c") auto
qed simp

section \<open>The oriented grid\<close>

definition grid_fits :: "int \<Rightarrow> int \<Rightarrow> int \<Rightarrow> nat \<Rightarrow> (point \<Rightarrow> key option) \<Rightarrow> bool" where
  "grid_fits mx my mz kl g \<longleftrightarrow> (\<forall>p k. g p = Some k \<longrightarrow> in_box mx my mz p \<and> key_fits kl k)"

lemma swap_rows_fits:
  assumes "grid_fits mx my mz kl g" "in_box mx my mz p"
  shows "grid_fits mx my mz kl (swap_rows my p g)"
proof -
  obtain x y z where p: "p = (x, y, z)" by (cases p)
  have "in_box mx my mz (x, my + 1 - y, z)" using assms(2) by (auto simp: p in_box_def)
  moreover have "key_fits kl (case g q of None \<Rightarrow> [] | Some k \<Rightarrow> k)" for q
  proof (cases "g q")
    case (Some k)
    then have "key_fits kl k" using assms(1) unfolding grid_fits_def by blast
    then show ?thesis using Some by simp
  qed (simp add: key_fits_def)
  ultimately show ?thesis using assms unfolding grid_fits_def swap_rows_def p prod.case Let_def by (auto split: if_splits)
qed

lemma wrap64_le: "0 \<le> n \<Longrightarrow> wrap64 n \<le> n"
  using zmod_le_nonneg_dividend [of "n + 9223372036854775808" 18446744073709551616] by (simp add: wrap64_def)

lemma orient_fits:
  assumes "\<forall>p k. g p = Some k \<longrightarrow> length k = kl" "0 \<le> my"
  shows "grid_fits mx my mz kl (orient mx my mz g)"
proof -
  have "grid_fits mx my mz kl (fold (swap_rows my) ps h)" if "grid_fits mx my mz kl h" "\<forall>p\<in>set ps. in_box mx my mz p" for ps h
    using that by (induction ps arbitrary: h) (auto intro: swap_rows_fits)
  moreover have "grid_fits mx my mz kl (restrict_grid mx my mz g)"
    using assms(1) by (auto simp: grid_fits_def restrict_grid_def key_fits_def split: if_splits)
  moreover have "wrap64 (my + 1) \<le> my + 1" using assms(2) by (simp add: wrap64_le)
  then have "\<forall>p\<in>set (lower_half mx my mz). in_box mx my mz p" by (auto simp: set_lower_half in_box_def)
  ultimately show ?thesis unfolding orient_def by blast
qed

section \<open>A parsed map\<close>

text \<open>C30: every map that parses is well formed, whatever bytes the file holds: no key is defined twice,
  every key of the dictionary and of the grid has the key length of the file or is empty, every content
  has a prefab and no prefab has two values for one variable, no point lies outside the dimensions, which
  are not negative, and the line break is one of the two.\<close>

theorem parse_well_formed:
  assumes "parse name input = Inr d"
  shows "file_path d = name \<and> line_break d \<in> {[NL], [CR, NL]} \<and> 0 \<le> max_x d \<and> 0 \<le> max_y d \<and> 0 \<le> max_z d \<and>
    distinct (map fst (dictionary d)) \<and> (\<forall>(k, ps)\<in>set (dictionary d). key_fits (key_length d) k \<and> ps \<noteq> [] \<and> names_distinct ps) \<and>
    (\<forall>p k. grid d p = Some k \<longrightarrow> in_box (max_x d) (max_y d) (max_z d) p \<and> key_fits (key_length d) k)"
proof -
  obtain st rest where l: "dict_loop parse_start input = Inr (st, rest)" using assms by (cases "dict_loop parse_start input") (auto simp: parse_def)
  have i: "dict_inv st" by (rule dict_loop_inv [OF _ l]) (simp add: dict_inv_def parse_start_def names_distinct_def key_fits_def)
  obtain g where g: "grid_loop (ps_key_length st) (grid_start st) rest = Inr g"
    using assms l by (cases "grid_loop (ps_key_length st) (grid_start st) rest") (auto simp: parse_def split: if_splits)
  have j: "grid_inv (ps_key_length st) g"
    by (rule grid_loop_inv [OF _ g]) (use i in \<open>simp add: grid_inv_def grid_start_def dict_inv_def\<close>)
  have d: "d = \<lparr>file_path = name, is_tgm = ps_tgm st, line_break = gs_break g, key_length = ps_key_length st,
      max_x = gs_max_x g, max_y = gs_max_y g, max_z = gs_max_z g, dictionary = ps_dict st,
      grid = orient (gs_max_x g) (gs_max_y g) (gs_max_z g) (gs_grid g)\<rparr>"
    using assms l g by (auto simp: parse_def split: if_splits)
  have o: "grid_fits (gs_max_x g) (gs_max_y g) (gs_max_z g) (ps_key_length st) (orient (gs_max_x g) (gs_max_y g) (gs_max_z g) (gs_grid g))"
    by (rule orient_fits) (use j in \<open>simp_all add: grid_inv_def\<close>)
  show ?thesis using i j o by (auto simp: d dict_inv_def grid_inv_def grid_fits_def entry_fits_def)
qed


theorem parse_well_formed_witness:
  "\<exists>d. parse [] (Saved_text sample_map) = Inr d \<and> distinct (map fst (dictionary d)) \<and> line_break d \<in> {[NL], [CR, NL]}"
proof -
  obtain d where d: "parse [] (Saved_text sample_map) = Inr d"
    using parse_WriteTGM [OF sample_map_ok, of "[]"] by (simp add: Saved_text_def) (simp add: sample_map_def)
  show ?thesis using parse_well_formed [OF d] d by blast
qed

end
