(* ===== verification/Value_Check.thy ===== *)
theory Value_Check
  imports Dmm_Roundtrip
begin

text \<open>
  The check of a variable before it gets into a map (dmapi/dmmap/dmmdata/value_check.go): the value is
  written and read back in both formats. The check accepts exactly the values that no map file can
  damage, so the parser is a complete oracle for one variable in a map of one tile.
\<close>

section \<open>The check\<close>

definition valueCheckPath :: runes where
  "valueCheckPath = lit ''/obj/aphelion_value_check''"

text \<open>A failed parse is one error, whichever of the two messages it is given.\<close>

datatype value_error = ValueNotParsed parse_error | BreaksDefinition | SplitsVariables | SavedAs runes

definition check_data :: "runes \<Rightarrow> runes \<Rightarrow> bool \<Rightarrow> dmm_data" where
  "check_data name v tgm = \<lparr>file_path = [], is_tgm = tgm, line_break = [NL], key_length = 1, max_x = 1, max_y = 1, max_z = 1,
     dictionary = [(lit ''a'', [\<lparr>pf_path = valueCheckPath, pf_vars = put name v []\<rparr>])], grid = [(1, 1, 1) \<mapsto> lit ''a'']\<rparr>"

definition checkVariableValue :: "runes \<Rightarrow> runes \<Rightarrow> bool \<Rightarrow> value_error option" where
  "checkVariableValue name v tgm =
     (case parse (lit ''value check'') (Saved_text (check_data name v tgm)) of
        Inl e \<Rightarrow> Some (ValueNotParsed e)
      | Inr reparsed \<Rightarrow>
          (let prefabs = content reparsed (lit ''a'') in
           if length prefabs \<noteq> 1 \<or> pf_path (prefabs ! 0) \<noteq> valueCheckPath then Some BreaksDefinition
           else
             (let names = map fst (pf_vars (prefabs ! 0)); got = map_of (pf_vars (prefabs ! 0)) name in
              if length names \<noteq> 1 \<or> got = None then Some SplitsVariables
              else if the got \<noteq> v then Some (SavedAs (the got))
              else None)))"

definition CheckVariableValue :: "runes \<Rightarrow> runes \<Rightarrow> value_error option" where
  "CheckVariableValue name v =
     (case checkVariableValue name v True of Some e \<Rightarrow> Some e | None \<Rightarrow> checkVariableValue name v False)"

section \<open>Good values pass\<close>

lemma check_data_ok:
  assumes "name_ok name" "value_ok v"
  shows "dmm_ok (check_data name v tgm)"
proof -
  have "path_ok valueCheckPath" "key_ok 1 (lit ''a'')" by code_simp+
  then show ?thesis using assms by (auto simp: dmm_ok_def check_data_def prefab_ok_def in_box_def)
qed

lemma good_value_passes:
  assumes "name_ok name" "value_ok v"
  shows "checkVariableValue name v tgm = None"
proof -
  let ?d = "check_data name v tgm"
  have ok: "dmm_ok ?d" by (rule check_data_ok [OF assms])
  obtain r where r: "parse (lit ''value check'') (Saved_text ?d) = Inr r" "dictionary r = read_back ?d"
    using parse_WriteTGM [OF ok] parse_WriteDM [OF ok] by (cases "is_tgm ?d") (simp_all add: Saved_text_def)
  have "content r (lit ''a'') = [\<lparr>pf_path = valueCheckPath, pf_vars = [(name, v)]\<rparr>]"
    using read_back_same [OF ok] by (simp add: content_def r(2) check_data_def)
  then show ?thesis by (simp add: checkVariableValue_def r(1))
qed

section \<open>What a value can leave behind\<close>

text \<open>The values the parser has stored or is reading. A step adds at most its rune to the text being read,
  and only a semicolon or a closing brace stores it.\<close>

definition kept :: "variables \<Rightarrow> prefab list \<Rightarrow> (key \<times> prefab list) list \<Rightarrow> runes set" where
  "kept vars pd dict = snd ` set vars \<union> (\<Union>p\<in>set pd. snd ` set (pf_vars p)) \<union> (\<Union>e\<in>set dict. \<Union>p\<in>set (snd e). snd ` set (pf_vars p))"

definition stored :: "pstate \<Rightarrow> runes set" where
  "stored st = kept (curr_vars st) (curr_data st) (ps_dict st)"

lemma kept_put [simp]: "kept (put n v vars) pd dict \<subseteq> insert v (kept vars pd dict)"
proof -
  have "set (put n v vars) \<subseteq> insert (n, v) (set vars) \<union> {(m, v) |m. True}" by (induction n v vars rule: put.induct) auto
  then have "snd ` set (put n v vars) \<subseteq> insert v (snd ` set vars)" by fastforce
  then show ?thesis unfolding kept_def by blast
qed

lemma kept_insert [simp]: "kept vars pd dict \<subseteq> insert v (kept vars pd dict)"
  by blast

lemma kept_flush [simp]: "kept [] (pd @ [\<lparr>pf_path = path, pf_vars = vars\<rparr>]) dict = kept vars pd dict"
  by (auto simp: kept_def)

lemma kept_close [simp]: "kept [] [] (set_entry k pd dict) \<subseteq> kept vars pd dict"
proof
  have s: "set (set_entry k pd dict) \<subseteq> insert (k, pd) (set dict)" by (auto simp: set_entry_def split: if_splits)
  fix v assume "v \<in> kept [] [] (set_entry k pd dict)"
  then obtain e p where e: "e \<in> set (set_entry k pd dict)" "p \<in> set (snd e)" "v \<in> snd ` set (pf_vars p)"
    unfolding kept_def list.set by blast
  then have "e = (k, pd) \<or> e \<in> set dict" using s by blast
  then have "(\<exists>p\<in>set pd. v \<in> snd ` set (pf_vars p)) \<or> (\<exists>e\<in>set dict. \<exists>p\<in>set (snd e). v \<in> snd ` set (pf_vars p))"
    using e(2,3) by (metis snd_conv)
  then show "v \<in> kept vars pd dict" unfolding kept_def by blast
qed

lemma flush_prefab_stored:
  "stored (flush_prefab st) = stored st" "curr_datum (flush_prefab st) \<in> {[], curr_datum st}" "curr_vars (flush_prefab st) = []"
  by (simp_all add: flush_prefab_def flushCurrPrefab_def flushCurrPath_def stored_def)

lemma close_definition_stored:
  "stored (close_definition st) \<subseteq> stored st" "curr_datum (close_definition st) \<in> {[], curr_datum st}"
proof -
  show "stored (close_definition st) \<subseteq> stored st"
    using flush_prefab_stored(3) [of st] unfolding flush_prefab_stored(1) [of st, symmetric]
    by (simp add: close_definition_def Let_def stored_def)
  show "curr_datum (close_definition st) \<in> {[], curr_datum st}"
    using flush_prefab_stored(2) [of st] by (simp add: close_definition_def Let_def)
qed

definition step_ok :: "rune \<Rightarrow> pstate \<Rightarrow> pstate \<Rightarrow> bool" where
  "step_ok c st st' \<longleftrightarrow> stored st' \<subseteq> insert (curr_datum st) (stored st) \<and> (c \<notin> {SEMICOLON, RBRACE} \<longrightarrow> stored st' \<subseteq> stored st) \<and>
     curr_datum st' \<in> {[], curr_datum st, curr_datum st @ [c], curr_datum st @ [BACKSLASH, 116]}"

lemma step_ok_var: "step_ok c st (var_step st c)"
  by (simp add: step_ok_def var_step_def add_datum_def flushCurrVariable_def stored_def)

lemma step_ok_data: "step_ok c st (data_step st c)"
proof -
  have "step_ok c st (quote_step st c)" "step_ok c st ((flushCurrPath st)\<lparr>in_var_edit := True\<rparr>)" "step_ok c st (add_datum [c] st)"
    by (simp_all add: step_ok_def quote_step_def add_datum_def flushCurrPath_def stored_def Let_def)
  moreover have "step_ok c st (flush_prefab st)" "step_ok c st (close_definition st)"
    using flush_prefab_stored(1,2) [of st] close_definition_stored [of st] unfolding step_ok_def by blast+
  ultimately show ?thesis using step_ok_var unfolding data_step_def by (auto simp del: singleton_conv)
qed

lemma dict_step_ok:
  assumes "dict_step st c = Inr (stop, st')"
  shows "step_ok c st st'"
proof -
  have f: "step_ok c st (st\<lparr>comment_trigger := x\<rparr>)" for x by (simp add: step_ok_def stored_def)
  have t: "step_ok c (st\<lparr>comment_trigger := x\<rparr>) s = step_ok c st s" for x s by (simp add: step_ok_def stored_def)
  consider "c = NL \<or> c = CR" | "\<not> (c = NL \<or> c = CR)" "in_comment_line st" | "\<not> (c = NL \<or> c = CR)" "\<not> in_comment_line st" "c = SPACE \<or> c = TAB"
    | "c = SLASH \<and> \<not> in_quote st \<and> comment_trigger st" "\<not> in_comment_line st"
    | "\<not> (c = NL \<or> c = CR)" "\<not> in_comment_line st" "\<not> (c = SPACE \<or> c = TAB)" "\<not> (c = SLASH \<and> \<not> in_quote st \<and> comment_trigger st)" by blast
  then show ?thesis
  proof cases
    case 5
    let ?st = "st\<lparr>comment_trigger := (c = SLASH \<and> \<not> in_quote st)\<rparr>"
    have e: "(if in_data ?st then Inr (False, data_step ?st c)
         else if in_key ?st then map_sum id (Pair False) (key_step ?st c)
         else if c = QUOTE then
           (if \<not> after_data ?st then Inl (NoDataBlock (line_no ?st))
            else Inr (False, ?st\<lparr>definition_line := line_no ?st, in_key := True, after_data := False\<rparr>))
         else if c = LPAREN then
           (if after_data ?st then Inr (True, ?st\<lparr>curr_key := []\<rparr>) else Inr (False, ?st\<lparr>in_data := True\<rparr>))
         else Inr (False, ?st)) = Inr (stop, st')"
      using assms 5 unfolding dict_step_def Let_def by argo
    show ?thesis
    proof (cases "in_data ?st")
      case True
      then show ?thesis using e step_ok_data [of c ?st] unfolding t by simp
    next
      case data: False
      show ?thesis
      proof (cases "in_key ?st")
        case True
        then have "map_sum id (Pair False) (key_step ?st c) = Inr (stop, st')" using e data by simp
        then have "key_step ?st c = Inr st'" by (cases "key_step ?st c") auto
        then show ?thesis by (auto simp: key_step_def step_ok_def stored_def Let_def split: if_splits)
      next
        case False
        then show ?thesis using e data by (auto simp: step_ok_def stored_def split: if_splits)
      qed
    qed
  next
    case 1
    then have "st' = line_end st c" using assms by (simp add: dict_step_def)
    then show ?thesis by (simp add: line_end_def step_ok_def stored_def)
  next
    case 2
    then show ?thesis using assms by (simp add: dict_step_def step_ok_def stored_def)
  next
    case 3
    then have "blank_step st c = Inr st'" using assms by (cases "blank_step st c") (auto simp: dict_step_def)
    then show ?thesis by (auto simp: blank_step_def step_ok_def add_datum_def stored_def split: if_splits)
  next
    case 4
    then have "st' = st\<lparr>in_comment_line := True, ps_tgm := ps_tgm st \<or> line_no st = 1\<rparr>" using assms by (simp add: dict_step_def)
    then show ?thesis by (simp add: step_ok_def stored_def)
  qed
qed

section \<open>Counting runes\<close>

definition at_most :: "rune \<Rightarrow> nat \<Rightarrow> pstate \<Rightarrow> bool" where
  "at_most c n st \<longleftrightarrow> (\<forall>w\<in>insert (curr_datum st) (stored st). count_list w c \<le> n)"

lemma at_most_step:
  assumes "step_ok x st st'" "at_most c n st" "c \<notin> {BACKSLASH, 116}"
  shows "at_most c (n + count_list [x] c) st'"
  unfolding at_most_def
proof
  fix w assume "w \<in> insert (curr_datum st') (stored st')"
  then have "w \<in> insert (curr_datum st) (stored st) \<or> w \<in> {[], curr_datum st @ [x], curr_datum st @ [BACKSLASH, 116]}"
    using assms(1) unfolding step_ok_def by blast
  moreover have "count_list u c \<le> n" if "u \<in> insert (curr_datum st) (stored st)" for u using that assms(2) unfolding at_most_def by blast
  ultimately show "count_list w c \<le> n + count_list [x] c" using assms(3) by (auto intro: trans_le_add1 le_SucI)
qed

lemma loop_most:
  assumes "dict_loop st (xs @ rest) = Inr (st2, r)" "at_most c n st" "c \<notin> {BACKSLASH, 116}"
  shows "(\<exists>st1. at_most c (n + count_list xs c) st1 \<and> dict_loop st1 rest = Inr (st2, r)) \<or> at_most c (n + count_list xs c) st2"
  using assms(1,2)
proof (induction xs arbitrary: st n)
  case (Cons x xs)
  obtain stop st1 where s: "dict_step st x = Inr (stop, st1)" using Cons.prems(1) by (auto split: sum.splits)
  have m: "at_most c (n + count_list [x] c) st1" by (rule at_most_step [OF dict_step_ok [OF s] Cons.prems(2) assms(3)])
  have n: "n + count_list [x] c + count_list xs c = n + count_list (x # xs) c" by simp
  show ?case
  proof (cases stop)
    case True
    then have "st2 = st1" using Cons.prems(1) s by simp
    then show ?thesis using m by (auto simp: at_most_def intro: order_trans)
  next
    case False
    then have "dict_loop st1 (xs @ rest) = Inr (st2, r)" using Cons.prems(1) s by simp
    then show ?thesis using Cons.IH [OF _ m] unfolding n by blast
  qed
qed auto

lemma loop_stored:
  assumes "dict_loop st (xs @ rest) = Inr (st2, r)" "\<forall>x\<in>set xs. x \<notin> {SEMICOLON, RBRACE}"
  shows "(\<exists>st1. stored st1 \<subseteq> stored st \<and> dict_loop st1 rest = Inr (st2, r)) \<or> stored st2 \<subseteq> stored st"
  using assms
proof (induction xs arbitrary: st)
  case (Cons x xs)
  obtain stop st1 where s: "dict_step st x = Inr (stop, st1)" using Cons.prems(1) by (auto split: sum.splits)
  have m: "stored st1 \<subseteq> stored st" using dict_step_ok [OF s] Cons.prems(2) by (simp add: step_ok_def)
  show ?case
  proof (cases stop)
    case True
    then show ?thesis using Cons.prems(1) s m by simp
  next
    case False
    then have "dict_loop st1 (xs @ rest) = Inr (st2, r)" using Cons.prems(1) s by simp
    then show ?thesis using Cons.IH [of st1] Cons.prems(2) m by fastforce
  qed
qed auto

text \<open>A brace that stores a value keeps the definition open.\<close>

lemma brace_open:
  assumes "dict_step st RBRACE = Inr (stop, st')"
  shows "\<not> stop" "in_data st' = in_data st" "\<not> in_data st \<Longrightarrow> stored st' = stored st"
  using assms
  by (auto simp: dict_step_def line_end_def data_step_def quote_step_def var_step_def add_datum_def flushCurrVariable_def key_step_def
      stored_def Let_def split: if_splits)

lemma last_brace:
  assumes "dict_loop st [RBRACE, NL] = Inr (st2, r)" "\<not> in_data st2"
  shows "stored st2 \<subseteq> stored st"
proof -
  obtain stop st1 where s: "dict_step st RBRACE = Inr (stop, st1)" using assms(1) by (auto split: sum.splits)
  note b = brace_open [OF s]
  have "st2 = line_end st1 NL" using assms(1) s b(1) by (simp add: dict_step_def)
  then have "in_data st2 = in_data st1" "stored st2 = stored st1" by (simp_all add: line_end_def stored_def)
  then show ?thesis using b assms(2) by simp
qed

text \<open>What follows the value in the DM file of the check.\<close>

definition check_trail :: runes where
  "check_trail = lit ''})'' @ [NL, NL] @ lit ''(1,1,1) = {'' @ [QUOTE, NL] @ lit ''a'' @ [NL] @ [QUOTE] @ lit ''}'' @ [NL]"

lemma trail_stored:
  assumes "dict_loop st check_trail = Inr (st2, r)" "\<not> in_data st2" "dict_step st RBRACE = Inr (stop, st1)"
  shows "stored st2 \<subseteq> stored st1"
proof -
  let ?mid = "lit '')'' @ [NL, NL] @ lit ''(1,1,1) = {'' @ [QUOTE, NL] @ lit ''a'' @ [NL] @ [QUOTE]"
  have "check_trail = RBRACE # ?mid @ [RBRACE, NL]" by (simp add: check_trail_def lit_def)
  then have "dict_loop st (RBRACE # ?mid @ [RBRACE, NL]) = Inr (st2, r)" using assms(1) by simp
  then have l: "dict_loop st1 (?mid @ [RBRACE, NL]) = Inr (st2, r)" using assms(3) brace_open(1) [OF assms(3)] by (simp only: dict_loop.simps sum.case prod.case if_False)
  have "\<forall>x\<in>set ?mid. x \<notin> {SEMICOLON, RBRACE}" by (simp add: lit_def)
  from loop_stored [OF l this] show ?thesis using last_brace [OF _ assms(2)] by blast
qed

section \<open>Bad values\<close>

lemma dropped_rune:
  assumes "value_flags q e l s [c] = None" "var \<noteq> []"
    and "dict_step (inside b [] path [] var datum True q e l s) c = Inr (stop, st')" "ps_dict b = []"
  shows "\<not> stop \<and> at_most c (count_list datum c) st' \<and> c \<notin> {BACKSLASH, 116}"
proof -
  have c: "c \<in> {NL, CR, SPACE, TAB, SLASH, SEMICOLON, RBRACE}" using assms(1) by (auto split: if_splits)
  have "stored st' \<subseteq> {datum} \<and> curr_datum st' \<in> {[], datum, datum @ [BACKSLASH, 116]} \<and> \<not> stop"
    using assms by (auto simp: step_defs inside_def flushCurrVariable_def stored_def kept_def split: if_splits)
  then show ?thesis using c by (fastforce simp: at_most_def)
qed

lemma bad_value:
  assumes "value_flags q e l s v = None" "var \<noteq> []" "ps_dict b = []"
    and "dict_loop (inside b [] path [] var datum True q e l s) (v @ rest) = Inr (st2, r)"
  shows "\<exists>c n. n < count_list (datum @ v) c \<and> ((\<exists>st1. at_most c n st1 \<and> dict_loop st1 rest = Inr (st2, r)) \<or> at_most c n st2)"
  using assms(1,4)
proof (induction v arbitrary: q e l s datum)
  case (Cons c cs)
  let ?st = "inside b [] path [] var datum True q e l s"
  show ?case
  proof (cases "value_flags q e l s [c]")
    case None
    obtain stop st' where s: "dict_step ?st c = Inr (stop, st')" using Cons.prems(2) by (auto split: sum.splits)
    note d = dropped_rune [OF None assms(2) s assms(3)]
    then have "dict_loop st' (cs @ rest) = Inr (st2, r)" using Cons.prems(2) s by simp
    from loop_most [OF this] d show ?thesis
      by (intro exI [of _ c] exI [of _ "count_list datum c + count_list cs c"]) auto
  next
    case (Some f)
    then obtain q' e' l' s' where k: "value_flags q e l s (c # cs) = value_flags q' e' l' s' cs"
        "dict_step ?st c = Inr (False, inside b [] path [] var (datum @ [c]) True q' e' l' s')"
      using value_flags_step [of q e l s c var b "[]" path "[]" datum] assms(2) by blast
    have "dict_loop (inside b [] path [] var (datum @ [c]) True q' e' l' s') (cs @ rest) = Inr (st2, r)"
      using Cons.prems(2) k(2) by simp
    from Cons.IH [OF _ this] show ?thesis using Cons.prems(1) k(1) by simp
  qed
qed simp

lemma escape_in_quote: "value_flags q e l s v = Some (q', e', l', s') \<Longrightarrow> (e \<longrightarrow> q) \<Longrightarrow> e' \<longrightarrow> q'"
  by (induction q e l s v rule: value_flags.induct) (auto split: if_splits)

section \<open>The check decides\<close>

definition check_front :: "runes \<Rightarrow> runes" where
  "check_front name = [QUOTE] @ lit ''a'' @ [QUOTE] @ lit '' = ('' @ valueCheckPath @ [LBRACE] @ name @ lit '' = ''"

lemma check_data_fields:
  "Keys (check_data name v tgm) = [lit ''a'']" "content (check_data name v tgm) (lit ''a'') = [\<lparr>pf_path = valueCheckPath, pf_vars = [(name, v)]\<rparr>]"
  "line_break (check_data name v tgm) = [NL]" "max_x (check_data name v tgm) = 1" "max_y (check_data name v tgm) = 1" "max_z (check_data name v tgm) = 1"
  "grid_key (check_data name v tgm) (1, 1, 1) = lit ''a''" "is_tgm (check_data name v tgm) = tgm"
  by (simp_all add: check_data_def Keys_def content_def grid_key_def)

lemma check_DM_text: "Saved_text (check_data name v False) = check_front name @ v @ check_trail"
  by (simp add: Saved_text_def WriteDM_def check_data_fields toDMStr_def dm_level_def check_front_def check_trail_def itoa_1 upto.simps)
    (simp add: lit_def)

lemma front_steps:
  assumes "name_ok name"
  shows "\<exists>b. ps_dict b = [] \<and> ps_tgm b = False \<and> dsteps parse_start (check_front name) (inside b [] valueCheckPath [] name [] True False False False False)"
proof -
  let ?b = "parse_start\<lparr>definition_line := line_no parse_start, ps_key_length := 1, curr_key := lit ''a''\<rparr>"
  have k: "key_ok 1 (lit ''a'')" "path_ok valueCheckPath" by code_simp+
  have 1: "dsteps parse_start ([QUOTE] @ lit ''a'' @ [QUOTE] @ lit '' = ('') (inside ?b [] [] [] [] [] False False False False False)"
    using key_text [OF k(1), of parse_start] start_between by (simp add: parse_start_def)
  obtain s where 2: "dsteps (inside ?b [] [] [] [] [] False False False False False) valueCheckPath (inside ?b [] [] [] [] valueCheckPath False False False False s)"
    using path_pending [OF k(2)] by blast
  have 3: "dsteps (inside ?b [] valueCheckPath [] [] [] True False False False False) name (inside ?b [] valueCheckPath [] [] ([] @ name) True False False False False)"
    using assms by (intro name_steps) (simp_all add: name_ok_def)
  note steps = dsteps_trans [OF 1 dsteps_trans [OF 2 dsteps_trans [OF open_vars_step dsteps_trans [OF 3 equals_step]]]]
  then have "dsteps parse_start (check_front name) (inside ?b [] valueCheckPath [] name [] True False False False False)"
    by (simp add: check_front_def)
  moreover have "ps_dict ?b = []" "ps_tgm ?b = False" by (simp_all add: parse_start_def)
  ultimately show ?thesis by blast
qed

text \<open>An accepted value is one that the first loop has stored.\<close>

lemma accepted_stored:
  assumes "checkVariableValue name v tgm = None"
  shows "\<exists>st2 r. dict_loop parse_start (Saved_text (check_data name v tgm)) = Inr (st2, r) \<and> \<not> in_data st2 \<and>
    (\<exists>p. map_of (ps_dict st2) (lit ''a'') = Some [p] \<and> map_of (pf_vars p) name = Some v)"
proof -
  let ?t = "Saved_text (check_data name v tgm)"
  obtain d where d: "parse (lit ''value check'') ?t = Inr d" using assms by (cases "parse (lit ''value check'') ?t") (simp_all add: checkVariableValue_def)
  have c: "length (content d (lit ''a'')) = 1" "map_of (pf_vars (content d (lit ''a'') ! 0)) name = Some v"
    using assms by (auto simp: checkVariableValue_def d Let_def split: if_splits)
  obtain st2 r where l: "dict_loop parse_start ?t = Inr (st2, r)" using d by (cases "dict_loop parse_start ?t") (auto simp: parse_def)
  have "\<not> in_data st2 \<and> dictionary d = ps_dict st2"
    using d l by (auto simp: parse_def split: if_splits) (cases "grid_loop (ps_key_length st2) (grid_start st2) r"; auto)+
  moreover obtain p where p: "content d (lit ''a'') = [p]" using c(1) by (auto simp: length_Suc_conv)
  then have "map_of (dictionary d) (lit ''a'') = Some [p]" by (auto simp: content_def split: option.splits)
  ultimately show ?thesis using l c(2) p by auto
qed

lemma map_of_stored:
  assumes "map_of (ps_dict st) k = Some [p]" "map_of (pf_vars p) name = Some v"
  shows "v \<in> stored st"
  using map_of_SomeD [OF assms(1)] map_of_SomeD [OF assms(2)] unfolding stored_def kept_def by force

lemma no_flags_rejected:
  assumes "name_ok name" "value_flags False False False False v = None"
  shows "checkVariableValue name v False \<noteq> None"
proof
  assume acc: "checkVariableValue name v False = None"
  then obtain st2 r p where a: "dict_loop parse_start (check_front name @ v @ check_trail) = Inr (st2, r)" "\<not> in_data st2"
      "map_of (ps_dict st2) (lit ''a'') = Some [p]" "map_of (pf_vars p) name = Some v"
    using accepted_stored [OF acc, unfolded check_DM_text] by blast
  have v: "v \<in> stored st2" by (rule map_of_stored [OF a(3,4)])
  obtain b where b: "ps_dict b = []" "dsteps parse_start (check_front name) (inside b [] valueCheckPath [] name [] True False False False False)"
    using front_steps [OF assms(1)] by blast
  have n: "name \<noteq> []" using assms(1) by (simp add: name_ok_def)
  have "dict_loop (inside b [] valueCheckPath [] name [] True False False False False) (v @ check_trail) = Inr (st2, r)"
    using a(1) b(2) by (simp add: dsteps_def)
  from bad_value [OF assms(2) n b(1) this]
  obtain c k where c: "k < count_list v c" "(\<exists>st1. at_most c k st1 \<and> dict_loop st1 check_trail = Inr (st2, r)) \<or> at_most c k st2" by auto
  have "at_most c k st2 \<or> (\<forall>w\<in>stored st2. count_list w c \<le> k)"
  proof (cases "at_most c k st2")
    case False
    then obtain st1 where st1: "at_most c k st1" "dict_loop st1 check_trail = Inr (st2, r)" using c(2) by blast
    obtain stop st' where s: "dict_step st1 RBRACE = Inr (stop, st')" using st1(2) by (auto simp: check_trail_def lit_def split: sum.splits)
    have "stored st2 \<subseteq> insert (curr_datum st1) (stored st1)"
      using trail_stored [OF st1(2) a(2) s] dict_step_ok [OF s] unfolding step_ok_def by blast
    then show ?thesis using st1(1) unfolding at_most_def by blast
  qed simp
  then show False using v c(1) unfolding at_most_def by fastforce
qed

lemma open_quote_rejected:
  assumes "name_ok name" "value_flags False False False False v = Some (True, e, l, s)"
  shows "checkVariableValue name v False \<noteq> None"
proof
  assume acc: "checkVariableValue name v False = None"
  then obtain st2 r p where a: "dict_loop parse_start (check_front name @ v @ check_trail) = Inr (st2, r)" "\<not> in_data st2"
      "map_of (ps_dict st2) (lit ''a'') = Some [p]" "map_of (pf_vars p) name = Some v"
    using accepted_stored [OF acc, unfolded check_DM_text] by blast
  obtain b where b: "ps_dict b = []" "dsteps parse_start (check_front name) (inside b [] valueCheckPath [] name [] True False False False False)"
    using front_steps [OF assms(1)] by blast
  have n: "name \<noteq> []" using assms(1) by (simp add: name_ok_def)
  have l: "dict_loop (inside b [] valueCheckPath [] name ([] @ v) True True e l s) check_trail = Inr (st2, r)"
    using a(1) b(2) value_flags_steps [OF assms(2) n, of b "[]" valueCheckPath "[]" "[]"] by (simp add: dsteps_def)
  from trail_stored [OF l a(2) quoted_step] have "stored st2 \<subseteq> {}"
    by (simp add: stored_def kept_def) (simp add: inside_def b(1))
  then show False using map_of_stored [OF a(3,4)] by blast
qed

lemma check_TGM_text: "Saved_text (check_data name v True) = tgm_header @ [NL] @ toTGMStr (lit ''a'') [\<lparr>pf_path = valueCheckPath, pf_vars = [(name, v)]\<rparr>] [NL] @
    [NL, NL] @ lit ''('' @ drop 1 (tgm_column (check_data name v True) 1 1)"
  by (simp add: Saved_text_def WriteTGM_def check_data_fields upto.simps tgm_column_def) (simp add: lit_def)

lemma open_list_rejected:
  assumes "name_ok name" "value_flags False False False False v = Some (False, False, True, s)"
  shows "checkVariableValue name v True \<noteq> None"
proof
  assume acc: "checkVariableValue name v True = None"
  then obtain st2 r p where a: "dict_loop parse_start (Saved_text (check_data name v True)) = Inr (st2, r)"
      "map_of (ps_dict st2) (lit ''a'') = Some [p]" "map_of (pf_vars p) name = Some v"
    using accepted_stored [OF acc] by blast
  let ?st = "between (nls [NL] 1 (parse_start\<lparr>ps_tgm := True\<rparr>))"
  let ?b = "(nls [NL] 1 (parse_start\<lparr>ps_tgm := True\<rparr>))\<lparr>definition_line := 2, ps_key_length := 1, curr_key := lit ''a''\<rparr>"
  have k: "key_ok 1 (lit ''a'')" "path_ok valueCheckPath" by code_simp+
  have n: "name \<noteq> []" using assms(1) by (simp add: name_ok_def)
  have 0: "dsteps parse_start (tgm_header @ [NL]) ?st" by (rule tgm_header_steps) simp
  have 1: "dsteps ?st ([QUOTE] @ lit ''a'' @ [QUOTE] @ lit '' = ('') (inside ?b [] [] [] [] [] False False False False False)"
    using key_text [OF k(1), of "nls [NL] 1 (parse_start\<lparr>ps_tgm := True\<rparr>)"] by (simp add: parse_start_def nls_def)
  let ?b1 = "nls [NL] 1 ?b" and ?b2 = "nls [NL] 1 (nls [NL] 1 ?b)" and ?b3 = "nls [NL] 1 (nls [NL] 1 (nls [NL] 1 ?b))"
  have 2: "dsteps (inside ?b [] [] [] [] [] False False False False False) [NL] (inside ?b1 [] [] [] [] [] False False False False False)"
    by (rule line_break_inside) simp
  obtain s1 where 3: "dsteps (inside ?b1 [] [] [] [] [] False False False False False) valueCheckPath (inside ?b1 [] [] [] [] valueCheckPath False False False False s1)"
    using path_pending [OF k(2)] by blast
  have 4: "dsteps (inside ?b1 [] valueCheckPath [] [] [] True False False False False) [NL] (inside ?b2 [] valueCheckPath [] [] [] True False False False False)"
    by (rule line_break_inside) simp
  have 5: "dsteps (inside ?b2 [] valueCheckPath [] [] [] True False False False False) [TAB] (inside ?b2 [] valueCheckPath [] [] [] True False False False False)"
    by (rule blank_step_skipped) simp
  have 6: "dsteps (inside ?b2 [] valueCheckPath [] [] [] True False False False False) name (inside ?b2 [] valueCheckPath [] [] name True False False False False)"
    using name_steps [of False name ?b2 "[]" valueCheckPath "[]" "[]" "[]" False] assms(1) by (simp add: name_ok_def)
  have 7: "dsteps (inside ?b2 [] valueCheckPath [] name [] True False False False False) v (inside ?b2 [] valueCheckPath [] name ([] @ v) True False False True s)"
    by (rule value_flags_steps [OF assms(2) n])
  have 8: "dsteps (inside ?b2 [] valueCheckPath [] name ([] @ v) True False False True s) [NL] (inside ?b3 [] valueCheckPath [] name ([] @ v) True False False True False)"
    by (rule line_break_inside) simp
  have 9: "dsteps (inside ?b3 [] valueCheckPath [] name ([] @ v) True False False True False) [TAB] (inside ?b3 [] valueCheckPath [] name (([] @ v) @ [TAB]) True False False True False)"
    by (rule dsteps_one, rule blank_in_value) simp_all
  let ?p = "\<lparr>pf_path = valueCheckPath, pf_vars = [(name, v @ [TAB])]\<rparr>"
  define st where "st = close_definition (inside ?b3 [] valueCheckPath [(name, v @ [TAB])] [] [] False False False True False)"
  have 10: "dsteps (inside ?b3 [] valueCheckPath (put name (([] @ v) @ [TAB]) []) [] [] False False False True False) [RPAREN] st"
    by (rule dsteps_one) (simp add: st_def step_defs inside_def)
  have st: "ps_dict st = [(lit ''a'', [?p])]" "in_data st = False" "in_key st = False" "after_data st" "in_comment_line st = False" "comment_trigger st = False" "in_quote st = False"
    by (simp_all add: st_def close_definition_def flush_prefab_def flushCurrPrefab_def inside_def set_entry_def Let_def parse_start_def nls_def)
  have "dsteps parse_start (tgm_header @ [NL] @ toTGMStr (lit ''a'') [\<lparr>pf_path = valueCheckPath, pf_vars = [(name, v)]\<rparr>] [NL]) st"
    using dsteps_trans [OF 0 dsteps_trans [OF 1 dsteps_trans [OF 2 dsteps_trans [OF 3 dsteps_trans [OF open_vars_step dsteps_trans [OF 4
      dsteps_trans [OF 5 dsteps_trans [OF 6 dsteps_trans [OF equals_step dsteps_trans [OF 7 dsteps_trans [OF 8 dsteps_trans [OF 9
      dsteps_trans [OF brace_step [OF n] 10]]]]]]]]]]]]]
    by (simp add: toTGMStr_def)
  then have "dict_loop parse_start (Saved_text (check_data name v True)) = dict_loop st ([NL, NL] @ lit ''('' @ drop 1 (tgm_column (check_data name v True) 1 1))"
    unfolding check_TGM_text by (simp add: dsteps_def)
  also have "\<exists>st' r'. \<dots> = Inr (st', r') \<and> ps_dict st' = ps_dict st"
    using st by (simp add: lit_def dict_step_def line_end_def)
  finally have "ps_dict st2 = ps_dict st" using a(1) by auto
  then have "p = ?p" using a(2) st(1) by simp
  then show False using a(3) by simp
qed

text \<open>C29: the check of a variable is exact: for a name that the format can carry, it accepts precisely the
  values that survive in every map file, in either format and beside any other variables, instances and
  keys. No value that would damage a map passes, and no good one is refused.\<close>

theorem CheckVariableValue_exact:
  assumes "name_ok name"
  shows "CheckVariableValue name v = None \<longleftrightarrow> value_ok v"
proof
  assume "value_ok v"
  then show "CheckVariableValue name v = None" using good_value_passes [OF assms] by (simp add: CheckVariableValue_def)
next
  assume c: "CheckVariableValue name v = None"
  then have pass: "checkVariableValue name v True = None" "checkVariableValue name v False = None"
    by (auto simp: CheckVariableValue_def split: option.splits)
  obtain q e l s where f: "value_flags False False False False v = Some (q, e, l, s)"
    using no_flags_rejected [OF assms] pass(2) by (metis not_Some_eq prod_cases4)
  have "\<not> q" using open_quote_rejected [OF assms] pass(2) f by metis
  then have "\<not> e" using escape_in_quote [OF f] by simp
  then have "\<not> l" using open_list_rejected [OF assms] pass(1) f \<open>\<not> q\<close> by metis
  then show "value_ok v" using f \<open>\<not> q\<close> \<open>\<not> e\<close> unfolding value_ok_def value_scan_flags by auto
qed

theorem CheckVariableValue_exact_witness:
  "CheckVariableValue (lit ''name'') (lit ''list(1, 2)'') = None \<and> CheckVariableValue (lit ''name'') (lit ''list(1'') \<noteq> None"
proof -
  have "name_ok (lit ''name'')" "value_ok (lit ''list(1, 2)'')" "\<not> value_ok (lit ''list(1'')" by code_simp+
  then show ?thesis using CheckVariableValue_exact by simp
qed

end
