(* ===== verification/Command_History.thy ===== *)
theory Command_History
  imports Prelude
begin

text \<open>
  The undo history of the application (app/command: command.go, storage.go). Every open map has a stack
  of commands; a stack is a heap object, because a \<^verbatim>\<open>Target\<close> keeps a pointer to it while the storage may
  drop it or file it under another identity.

  The closures of a command act on the state of the application, the type variable \<open>'s\<close>. A synchronous
  closure runs at once. An asynchronous one starts an operation whose completion is a later step: the
  operations that wait for their completion are kept in the order of their start, with what their
  callback has captured. The storage is owned by the UI thread, so operations do not interleave. A call
  of a nil function and an index out of range are the error \<open>panic\<close>.
\<close>

section \<open>Commands\<close>

datatype panic = NilFunction | IndexOutOfRange

record 's command =
  cmd_id :: u64
  cmd_name :: string
  undo_fn :: "('s \<Rightarrow> 's) option"
  redo_fn :: "('s \<Rightarrow> 's) option"
  undo_async :: "('s \<Rightarrow> 's) option"
  redo_async :: "('s \<Rightarrow> 's) option"

definition reversed :: "'s command \<Rightarrow> 's command" where
  "reversed c = \<lparr>cmd_id = cmd_id c, cmd_name = cmd_name c, undo_fn = redo_fn c, redo_fn = undo_fn c,
     undo_async = redo_async c, redo_async = undo_async c\<rparr>"

definition Run :: "'s command \<Rightarrow> 's \<Rightarrow> panic + 's command \<times> 's" where
  "Run c w = (case undo_fn c of None \<Rightarrow> Inl NilFunction | Some f \<Rightarrow> Inr (reversed c, f w))"

section \<open>Stacks\<close>

record 's command_stack =
  stack_id :: string
  balance :: int
  undo_list :: "'s command list"
  redo_list :: "'s command list"
  busy :: bool
  queued :: "'s command list"
  balance_id :: u64

definition new_stack :: "string \<Rightarrow> 's command_stack" where
  "new_stack i = \<lparr>stack_id = i, balance = 0, undo_list = [], redo_list = [], busy = False, queued = [], balance_id = 0\<rparr>"

definition push :: "'s command \<Rightarrow> 's command_stack \<Rightarrow> 's command_stack" where
  "push c s =
     (if busy s then s\<lparr>queued := queued s @ [c]\<rparr>
      else s\<lparr>undo_list := undo_list s @ [c], redo_list := [], balance := balance s + 1\<rparr>)"

definition flushQueued :: "'s command_stack \<Rightarrow> 's command_stack" where
  "flushQueued s = (foldl (\<lambda>s c. push c s) s (queued s))\<lparr>queued := []\<rparr>"

definition clear_stack :: "'s command_stack \<Rightarrow> 's command_stack" where
  "clear_stack s = s\<lparr>undo_list := [], redo_list := [], queued := []\<rparr>"

definition appliedCommandId :: "'s command_stack \<Rightarrow> u64" where
  "appliedCommandId s = (if length (undo_list s) > 0 then cmd_id (last (undo_list s)) else 0)"

text \<open>The synchronous \<^verbatim>\<open>undo\<close> and \<^verbatim>\<open>redo\<close> of a stack, as \<^verbatim>\<open>Balance\<close> calls them.\<close>

definition undo_stack :: "'s command_stack \<Rightarrow> 's \<Rightarrow> panic + 's command_stack \<times> 's" where
  "undo_stack s w =
     (if length (undo_list s) = 0 then Inl IndexOutOfRange
      else sum_bind (Run (last (undo_list s)) w) (\<lambda>(r, w').
        Inr (s\<lparr>undo_list := butlast (undo_list s), redo_list := redo_list s @ [r], balance := balance s - 1\<rparr>, w')))"

definition redo_stack :: "'s command_stack \<Rightarrow> 's \<Rightarrow> panic + 's command_stack \<times> 's" where
  "redo_stack s w =
     (if length (redo_list s) = 0 then Inl IndexOutOfRange
      else sum_bind (Run (last (redo_list s)) w) (\<lambda>(r, w').
        Inr (s\<lparr>redo_list := butlast (redo_list s), undo_list := undo_list s @ [r], balance := balance s + 1\<rparr>, w')))"

section \<open>The storage\<close>

text \<open>What the callback of a started operation has captured, and whether it has run.\<close>

record 's flight =
  fl_id :: string
  fl_stack :: nat
  fl_command :: "'s command"
  fl_redo :: bool
  fl_finished :: bool
  fl_callback :: bool

record 's storage =
  current_id :: string
  command_stacks :: "(string, nat) fmap"
  stack_heap :: "nat \<Rightarrow> 's command_stack"
  next_stack :: nat
  command_counter :: u64
  flights :: "'s flight list"
  completions :: "(nat \<times> bool) list"
  world :: 's

definition NullSpaceStackId :: string where
  "NullSpaceStackId = ''__NULL_SPACE__''"

definition set_stack :: "nat \<Rightarrow> 's command_stack \<Rightarrow> 's storage \<Rightarrow> 's storage" where
  "set_stack a s st = st\<lparr>stack_heap := (stack_heap st)(a := s)\<rparr>"

definition add_stack :: "string \<Rightarrow> 's storage \<Rightarrow> 's storage" where
  "add_stack i st = st\<lparr>stack_heap := (stack_heap st)(next_stack st := new_stack i),
     command_stacks := fmupd i (next_stack st) (command_stacks st), next_stack := next_stack st + 1\<rparr>"

definition Make :: "string \<Rightarrow> ('s \<Rightarrow> 's) option \<Rightarrow> ('s \<Rightarrow> 's) option \<Rightarrow> 's storage \<Rightarrow> 's command \<times> 's storage" where
  "Make name undo redo st =
     (let n = command_counter st + 1 in
      (\<lparr>cmd_id = n, cmd_name = name, undo_fn = undo, redo_fn = redo, undo_async = None, redo_async = None\<rparr>,
       st\<lparr>command_counter := n\<rparr>))"

definition MakeAsync :: "string \<Rightarrow> ('s \<Rightarrow> 's) option \<Rightarrow> ('s \<Rightarrow> 's) option \<Rightarrow> 's storage \<Rightarrow> 's command \<times> 's storage" where
  "MakeAsync name undo redo st =
     (let n = command_counter st + 1 in
      (\<lparr>cmd_id = n, cmd_name = name, undo_fn = None, redo_fn = None, undo_async = undo, redo_async = redo\<rparr>,
       st\<lparr>command_counter := n\<rparr>))"

definition SetStack :: "string \<Rightarrow> 's storage \<Rightarrow> 's storage" where
  "SetStack i st =
     (if current_id st = i then st
      else let st = st\<lparr>current_id := i\<rparr> in
        if fmlookup (command_stacks st) i = None then add_stack i st else st)"

definition NewStorage :: "u64 \<Rightarrow> 's \<Rightarrow> 's storage" where
  "NewStorage counter w = SetStack NullSpaceStackId
     \<lparr>current_id = [], command_stacks = fmempty, stack_heap = (\<lambda>_. new_stack []), next_stack = 0, command_counter = counter,
      flights = [], completions = [], world = w\<rparr>"

definition Free :: "'s storage \<Rightarrow> 's storage" where
  "Free st = SetStack NullSpaceStackId
     (st\<lparr>stack_heap := (\<lambda>a. if a |\<in>| fmran (command_stacks st) then clear_stack (stack_heap st a) else stack_heap st a),
         current_id := [], command_stacks := fmempty\<rparr>)"

definition DisposeStack :: "string \<Rightarrow> 's storage \<Rightarrow> 's storage" where
  "DisposeStack i st =
     (if i = NullSpaceStackId then st
      else
        (let st1 = (case fmlookup (command_stacks st) i of
                      None \<Rightarrow> st | Some a \<Rightarrow> set_stack a (clear_stack (stack_heap st a)) st);
             st2 = st1\<lparr>command_stacks := fmdrop i (command_stacks st1)\<rparr>
         in if current_id st2 = i then SetStack NullSpaceStackId st2 else st2))"

definition Push :: "'s command \<Rightarrow> 's storage \<Rightarrow> 's storage" where
  "Push c st =
     (if current_id st = NullSpaceStackId then st
      else case fmlookup (command_stacks st) (current_id st) of
          None \<Rightarrow> st
        | Some a \<Rightarrow> set_stack a (push c (stack_heap st a)) st)"

section \<open>Targets\<close>

type_synonym target = "nat option"

definition Bind :: "string \<Rightarrow> 's storage \<Rightarrow> target \<times> 's storage" where
  "Bind i st =
     (if i = [] \<or> i = NullSpaceStackId then (None, st)
      else
        (let st1 = (if fmlookup (command_stacks st) i = None then add_stack i st else st)
         in (fmlookup (command_stacks st1) i, st1)))"

definition CanRebindStack :: "string \<Rightarrow> string \<Rightarrow> 's storage \<Rightarrow> bool" where
  "CanRebindStack fromID toID st =
     (if fromID = [] \<or> toID = [] \<or> fromID = NullSpaceStackId \<or> toID = NullSpaceStackId then False
      else case fmlookup (command_stacks st) fromID of
          None \<Rightarrow> False
        | Some a \<Rightarrow> if busy (stack_heap st a) then False else fromID = toID \<or> fmlookup (command_stacks st) toID = None)"

definition RebindStack :: "string \<Rightarrow> string \<Rightarrow> 's storage \<Rightarrow> bool \<times> 's storage" where
  "RebindStack fromID toID st =
     (if \<not> CanRebindStack fromID toID st then (False, st)
      else if fromID = toID then (True, st)
      else case fmlookup (command_stacks st) fromID of
          None \<Rightarrow> (True, st)
        | Some a \<Rightarrow>
            (let st1 = set_stack a ((stack_heap st a)\<lparr>stack_id := toID\<rparr>)
                         (st\<lparr>command_stacks := fmupd toID a (fmdrop fromID (command_stacks st))\<rparr>)
             in (True, if current_id st1 = fromID then st1\<lparr>current_id := toID\<rparr> else st1)))"

definition target_valid :: "target \<Rightarrow> 's storage \<Rightarrow> bool" where
  "target_valid t st = (case t of None \<Rightarrow> False
     | Some a \<Rightarrow> fmlookup (command_stacks st) (stack_id (stack_heap st a)) = Some a)"

definition target_push :: "target \<Rightarrow> 's command \<Rightarrow> 's storage \<Rightarrow> bool \<times> 's storage" where
  "target_push t c st =
     (if \<not> target_valid t st then (False, st)
      else case t of None \<Rightarrow> (False, st) | Some a \<Rightarrow> (True, set_stack a (push c (stack_heap st a)) st))"

section \<open>Undo and redo\<close>

text \<open>The callback of a history operation; \<open>failed\<close> is \<^verbatim>\<open>err != nil\<close>.\<close>

definition move_command :: "bool \<Rightarrow> 's command \<Rightarrow> 's command_stack \<Rightarrow> 's command_stack" where
  "move_command redo c s =
     (if redo then
        (if length (redo_list s) > 0 \<and> cmd_id (last (redo_list s)) = cmd_id c
         then s\<lparr>redo_list := butlast (redo_list s), undo_list := undo_list s @ [reversed c], balance := balance s + 1\<rparr> else s)
      else
        (if length (undo_list s) > 0 \<and> cmd_id (last (undo_list s)) = cmd_id c
         then s\<lparr>undo_list := butlast (undo_list s), redo_list := redo_list s @ [reversed c], balance := balance s - 1\<rparr> else s))"

definition finish :: "nat \<Rightarrow> bool \<Rightarrow> 's storage \<Rightarrow> 's storage" where
  "finish n failed st =
     (let f = flights st ! n in
      if fl_finished f then st
      else
        (let st1 = st\<lparr>flights := (flights st)[n := f\<lparr>fl_finished := True\<rparr>]\<rparr>;
             a = fl_stack f;
             live = (fmlookup (command_stacks st1) (fl_id f) = Some a);
             s1 = (if \<not> failed \<and> live then move_command (fl_redo f) (fl_command f) (stack_heap st1 a) else stack_heap st1 a);
             s2 = s1\<lparr>busy := False\<rparr>;
             s3 = (if live then flushQueued s2 else s2);
             st2 = set_stack a s3 st1
         in if fl_callback f then st2\<lparr>completions := completions st2 @ [(n, failed)]\<rparr> else st2))"

definition start_history :: "bool \<Rightarrow> string \<Rightarrow> bool \<Rightarrow> 's storage \<Rightarrow> panic + bool \<times> 's storage" where
  "start_history redo i callback st =
     (case fmlookup (command_stacks st) i of
        None \<Rightarrow> Inr (False, st)
      | Some a \<Rightarrow>
          (let s = stack_heap st a; commands = (if redo then redo_list s else undo_list s) in
           if length commands = 0 \<or> busy s then Inr (False, st)
           else
             (let c = last commands;
                  st1 = set_stack a (s\<lparr>busy := True\<rparr>) st;
                  st2 = st1\<lparr>flights := flights st1 @ [\<lparr>fl_id = i, fl_stack = a, fl_command = c, fl_redo = redo,
                          fl_finished = False, fl_callback = callback\<rparr>]\<rparr>
              in case undo_async c of
                   None \<Rightarrow>
                     (case undo_fn c of
                        None \<Rightarrow> Inl NilFunction
                      | Some f \<Rightarrow> Inr (True, finish (length (flights st1)) False (st2\<lparr>world := f (world st2)\<rparr>)))
                 | Some f \<Rightarrow> Inr (True, st2\<lparr>world := f (world st2)\<rparr>))))"

definition UndoAsyncV :: "string \<Rightarrow> bool \<Rightarrow> 's storage \<Rightarrow> panic + bool \<times> 's storage" where
  "UndoAsyncV = start_history False"

definition RedoAsyncV :: "string \<Rightarrow> bool \<Rightarrow> 's storage \<Rightarrow> panic + bool \<times> 's storage" where
  "RedoAsyncV = start_history True"

definition HasUndoV :: "string \<Rightarrow> 's storage \<Rightarrow> bool" where
  "HasUndoV i st = (case fmlookup (command_stacks st) i of None \<Rightarrow> False
     | Some a \<Rightarrow> \<not> busy (stack_heap st a) \<and> length (undo_list (stack_heap st a)) > 0)"

definition HasRedoV :: "string \<Rightarrow> 's storage \<Rightarrow> bool" where
  "HasRedoV i st = (case fmlookup (command_stacks st) i of None \<Rightarrow> False
     | Some a \<Rightarrow> \<not> busy (stack_heap st a) \<and> length (redo_list (stack_heap st a)) > 0)"

definition UndoAsync :: "bool \<Rightarrow> 's storage \<Rightarrow> panic + bool \<times> 's storage" where
  "UndoAsync callback st = UndoAsyncV (current_id st) callback st"

definition RedoAsync :: "bool \<Rightarrow> 's storage \<Rightarrow> panic + bool \<times> 's storage" where
  "RedoAsync callback st = RedoAsyncV (current_id st) callback st"

definition Undo :: "'s storage \<Rightarrow> panic + bool \<times> 's storage" where
  "Undo st = UndoAsyncV (current_id st) False st"

definition Redo :: "'s storage \<Rightarrow> panic + bool \<times> 's storage" where
  "Redo st = RedoAsyncV (current_id st) False st"

definition HasUndo :: "'s storage \<Rightarrow> bool" where
  "HasUndo st = HasUndoV (current_id st) st"

definition HasRedo :: "'s storage \<Rightarrow> bool" where
  "HasRedo st = HasRedoV (current_id st) st"

section \<open>The saved point\<close>

definition IsModified :: "string \<Rightarrow> 's storage \<Rightarrow> bool" where
  "IsModified i st = (case fmlookup (command_stacks st) i of None \<Rightarrow> False
     | Some a \<Rightarrow> let s = stack_heap st a in busy s \<or> balance s \<noteq> 0 \<or> appliedCommandId s \<noteq> balance_id s)"

definition ForceBalance :: "string \<Rightarrow> 's storage \<Rightarrow> 's storage" where
  "ForceBalance i st =
     (if i = NullSpaceStackId then st
      else case fmlookup (command_stacks st) i of
          None \<Rightarrow> st
        | Some a \<Rightarrow> let s = stack_heap st a in set_stack a (s\<lparr>balance := 0, balance_id := appliedCommandId s\<rparr>) st)"

text \<open>The loop of \<^verbatim>\<open>Balance\<close>: each turn brings the balance one closer to zero.\<close>

function balance_loop :: "'s command_stack \<Rightarrow> 's \<Rightarrow> panic + 's command_stack \<times> 's" where
  "balance_loop s w =
     (if balance s = 0 then Inr (s, w)
      else if balance s > 0 then (case undo_stack s w of Inl e \<Rightarrow> Inl e | Inr (s', w') \<Rightarrow> balance_loop s' w')
      else (case redo_stack s w of Inl e \<Rightarrow> Inl e | Inr (s', w') \<Rightarrow> balance_loop s' w'))"
  by pat_completeness auto

definition is_async :: "'s command \<Rightarrow> bool" where
  "is_async c \<longleftrightarrow> undo_async c \<noteq> None \<or> redo_async c \<noteq> None"

termination balance_loop
  by (relation "measure (\<lambda>(s, w). nat \<bar>balance s\<bar>)")
    (auto simp: undo_stack_def redo_stack_def sum_bind_Inr_iff split: if_splits)

declare balance_loop.simps [simp del]

definition Balance :: "string \<Rightarrow> 's storage \<Rightarrow> panic + 's storage" where
  "Balance i st =
     (if i = NullSpaceStackId then Inr st
      else case fmlookup (command_stacks st) i of
          None \<Rightarrow> Inr st
        | Some a \<Rightarrow>
            (let s = stack_heap st a in
             if \<exists>c\<in>set (undo_list s @ redo_list s). is_async c then Inr st
             else (case balance_loop s (world st) of
                     Inl e \<Rightarrow> Inl e
                   | Inr (s', w') \<Rightarrow> Inr ((set_stack a s' st)\<lparr>world := w'\<rparr>))))"

end
