(* ===== verification/History_Inv.thy ===== *)
theory History_Inv
  imports Command_History
begin

text \<open>
  The invariant of the undo history. A ghost value next to each stack keeps the identities of the
  commands that were applied when the stack was last marked as saved.
\<close>

section \<open>The timeline of a stack\<close>

definition ids :: "'s command list \<Rightarrow> u64 list" where
  "ids cs = map cmd_id cs"

definition applied :: "'s command_stack \<Rightarrow> u64 list" where
  "applied s = ids (undo_list s)"

text \<open>Applied commands, then the ones that can be redone in the order of their redoing.\<close>

definition timeline :: "'s command_stack \<Rightarrow> u64 list" where
  "timeline s = ids (undo_list s @ rev (redo_list s))"

definition saved_rel :: "u64 list \<Rightarrow> 's command_stack \<Rightarrow> bool" where
  "saved_rel u s \<longleftrightarrow> balance s = int (length (applied s)) - int (length u) \<and>
     balance_id s = (if u = [] then 0 else last u) \<and>
     (take (length u) (timeline s) = u \<or> u \<noteq> [] \<and> last u \<notin> set (timeline s) \<union> set (ids (queued s)))"

definition stack_ok :: "u64 \<Rightarrow> u64 list \<Rightarrow> 's command_stack \<Rightarrow> bool" where
  "stack_ok n u s \<longleftrightarrow> distinct (timeline s @ ids (queued s)) \<and>
     (\<forall>k \<in> set (timeline s) \<union> set (ids (queued s)) \<union> set u. k \<noteq> 0 \<and> k \<le> n) \<and> saved_rel u s"

lemma ids_simps [simp]: "ids [] = []" "ids (c # cs) = cmd_id c # ids cs" "ids (xs @ ys) = ids xs @ ids ys" "length (ids cs) = length cs"
  "ids (rev cs) = rev (ids cs)" "ids cs = [] \<longleftrightarrow> cs = []"
  by (simp_all add: ids_def rev_map)

lemma reversed_id [simp]: "cmd_id (reversed c) = cmd_id c"
  by (simp add: reversed_def)

lemma new_stack_ok: "stack_ok n [] (new_stack i)"
  by (simp add: stack_ok_def saved_rel_def timeline_def applied_def new_stack_def)

text \<open>Operations that keep the timeline move the balance with the number of applied commands.\<close>

lemma stack_ok_same_timeline:
  assumes "stack_ok n u s" "timeline s' = timeline s" "ids (queued s') = ids (queued s)" "balance_id s' = balance_id s"
    "balance s' - int (length (undo_list s')) = balance s - int (length (undo_list s))" "n \<le> n'"
  shows "stack_ok n' u s'"
proof -
  have "balance s' = int (length (applied s')) - int (length u)" if "saved_rel u s"
    using that assms(5) by (simp add: saved_rel_def applied_def)
  moreover have "\<forall>k \<in> set (timeline s) \<union> set (ids (queued s)) \<union> set u. k \<noteq> 0 \<and> k \<le> n'"
    using assms(1,6) order_trans unfolding stack_ok_def by blast
  ultimately show ?thesis using assms(1) unfolding stack_ok_def saved_rel_def assms(2-4) by blast
qed

text \<open>New commands go on top and cut what could be redone.\<close>

lemma saved_cut:
  assumes "take (length u) (as @ rs) = u \<or> u \<noteq> [] \<and> last u \<notin> set (as @ rs) \<union> set qs" "distinct (as @ rs @ qs)"
    and "\<forall>k\<in>set cs. k \<notin> set (as @ rs) \<and> (k \<in> set qs \<or> k \<notin> set u)" "set qs' \<subseteq> set qs"
  shows "take (length u) (as @ cs) = u \<or> u \<noteq> [] \<and> last u \<notin> set (as @ cs) \<union> set qs'"
proof (cases "u \<noteq> [] \<and> last u \<notin> set (as @ rs) \<union> set qs")
  case True
  then have "last u \<notin> set cs" using assms(3) last_in_set [of u] by blast
  then show ?thesis using True assms(4) by auto
next
  case False
  then have u: "take (length u) (as @ rs) = u" using assms(1) by blast
  show ?thesis
  proof (cases "length u \<le> length as")
    case True
    then show ?thesis using u by simp
  next
    case long: False
    let ?p = "take (length u - length as) rs"
    have e: "u = as @ ?p" using u long by simp
    have ne: "?p \<noteq> []" using e long by (metis append_Nil2 order_refl)
    then have "last u = last ?p" by (subst e) simp
    then have "last u \<in> set rs" using last_in_set [OF ne] by (metis in_set_takeD)
    then show ?thesis using assms(2-4) ne e by auto
  qed
qed

lemma stack_ok_extend:
  assumes "stack_ok n u s" "undo_list s' = undo_list s @ cs" "redo_list s' = []" "balance_id s' = balance_id s"
    "balance s' = balance s + int (length cs)" "distinct (ids cs @ ids (queued s'))" "set (ids (queued s')) \<subseteq> set (ids (queued s))" "n \<le> n'"
    and new: "\<forall>k\<in>set (ids cs). k \<noteq> 0 \<and> k \<le> n' \<and> k \<notin> set (timeline s) \<and> (k \<in> set (ids (queued s)) \<or> n < k)"
  shows "stack_ok n' u s'"
proof -
  have t': "timeline s' = ids (undo_list s) @ ids cs" using assms(2,3) by (simp add: timeline_def)
  have t: "timeline s = ids (undo_list s) @ ids (rev (redo_list s))" by (simp add: timeline_def)
  have ok: "distinct (timeline s @ ids (queued s))" "\<forall>k \<in> set (timeline s) \<union> set (ids (queued s)) \<union> set u. k \<noteq> 0 \<and> k \<le> n" "saved_rel u s"
    using assms(1) by (simp_all add: stack_ok_def)
  have d: "distinct (timeline s' @ ids (queued s'))"
  proof -
    have "set (ids cs) \<inter> set (timeline s) = {}" using new by blast
    then show ?thesis using ok(1) assms(6,7) unfolding t' t by auto
  qed
  have r: "\<forall>k \<in> set (timeline s') \<union> set (ids (queued s')) \<union> set u. k \<noteq> 0 \<and> k \<le> n'"
  proof
    fix k assume "k \<in> set (timeline s') \<union> set (ids (queued s')) \<union> set u"
    then have "k \<in> set (ids cs) \<or> k \<in> set (timeline s) \<union> set (ids (queued s)) \<union> set u" using assms(7) unfolding t' t by auto
    then show "k \<noteq> 0 \<and> k \<le> n'"
    proof
      assume "k \<in> set (ids cs)"
      then show ?thesis using new by blast
    next
      assume "k \<in> set (timeline s) \<union> set (ids (queued s)) \<union> set u"
      then have "k \<noteq> 0" "k \<le> n" using ok(2) by blast+
      then show ?thesis using assms(8) by simp
    qed
  qed
  have "\<forall>k\<in>set (ids cs). k \<notin> set (ids (undo_list s) @ ids (rev (redo_list s))) \<and> (k \<in> set (ids (queued s)) \<or> k \<notin> set u)"
  proof
    fix k assume k: "k \<in> set (ids cs)"
    have k': "k \<notin> set (timeline s)" "k \<in> set (ids (queued s)) \<or> n < k" using new k by simp_all
    have "k \<notin> set u" if "n < k" using ok(2) that leD by blast
    then show "k \<notin> set (ids (undo_list s) @ ids (rev (redo_list s))) \<and> (k \<in> set (ids (queued s)) \<or> k \<notin> set u)"
      using k' unfolding t by blast
  qed
  moreover have "take (length u) (ids (undo_list s) @ ids (rev (redo_list s))) = u \<or>
      u \<noteq> [] \<and> last u \<notin> set (ids (undo_list s) @ ids (rev (redo_list s))) \<union> set (ids (queued s))"
    using ok(3) unfolding saved_rel_def t by blast
  moreover have "distinct (ids (undo_list s) @ ids (rev (redo_list s)) @ ids (queued s))" using ok(1) unfolding t by simp
  ultimately have "take (length u) (timeline s') = u \<or> u \<noteq> [] \<and> last u \<notin> set (timeline s') \<union> set (ids (queued s'))"
    unfolding t' using assms(7) saved_cut by blast
  moreover have "balance s' = int (length (applied s')) - int (length u)" "balance_id s' = (if u = [] then 0 else last u)"
    using ok(3) assms(2,4,5) by (auto simp: saved_rel_def applied_def)
  ultimately show ?thesis using d r by (simp add: stack_ok_def saved_rel_def)
qed

lemma push_ok:
  assumes "stack_ok n u s" "cmd_id c = n + 1" "n \<noteq> - 1"
  shows "stack_ok (n + 1) u (push c s)"
proof -
  have n: "n \<le> n + 1" "n < n + 1" "n + 1 \<noteq> 0"
  proof -
    have "1 + n \<noteq> 0" using assms(3) by (metis add.commute add_eq_0_iff2 minus_equation_iff)
    then have "unat (n + 1) = Suc (unat n)" "n + 1 \<noteq> 0" using unatSuc [of n] by (simp_all add: add.commute)
    then show "n \<le> n + 1" "n < n + 1" "n + 1 \<noteq> 0" by (simp_all add: word_le_nat_alt word_less_nat_alt)
  qed
  have fresh: "n + 1 \<notin> set (timeline s) \<union> set (ids (queued s)) \<union> set u"
  proof
    assume "n + 1 \<in> set (timeline s) \<union> set (ids (queued s)) \<union> set u"
    then have "n + 1 \<le> n" using assms(1) unfolding stack_ok_def by blast
    then show False using n(2) by simp
  qed
  show ?thesis
  proof (cases "busy s")
    case True
    have "timeline (push c s) = timeline s" "ids (queued (push c s)) = ids (queued s) @ [n + 1]" using True assms(2) by (simp_all add: push_def timeline_def)
    moreover have "balance (push c s) = balance s" "balance_id (push c s) = balance_id s" "applied (push c s) = applied s"
      using True by (simp_all add: push_def applied_def)
    moreover have "\<forall>k \<in> set (timeline s) \<union> set (ids (queued s) @ [n + 1]) \<union> set u. k \<noteq> 0 \<and> k \<le> n + 1"
      using assms(1) n(1,3) order_trans [OF _ n(1)] unfolding stack_ok_def by auto
    moreover have "u \<noteq> [] \<Longrightarrow> last u \<noteq> n + 1" proof
      assume "u \<noteq> []" "last u = n + 1"
      then have "n + 1 \<in> set u" using last_in_set by fastforce
      then show False using fresh by blast
    qed
    ultimately show ?thesis using assms(1) fresh unfolding stack_ok_def saved_rel_def by auto
  next
    case False
    have q: "set (ids (queued s)) \<inter> {n + 1} = {}" using fresh by blast
    show ?thesis
      by (rule stack_ok_extend [OF assms(1), where cs = "[c]"]) (use False fresh n assms(1,2) in \<open>auto simp: push_def stack_ok_def\<close>)
  qed
qed

lemma flush_eq:
  assumes "\<not> busy s"
  shows "flushQueued s = s\<lparr>undo_list := undo_list s @ queued s, redo_list := (if queued s = [] then redo_list s else []),
    balance := balance s + int (length (queued s)), queued := []\<rparr>"
proof -
  have "foldl (\<lambda>s c. push c s) s cs = s\<lparr>undo_list := undo_list s @ cs, redo_list := (if cs = [] then redo_list s else []),
      balance := balance s + int (length cs)\<rparr>" if "\<not> busy s" for cs and s :: "'a command_stack"
    using that by (induction cs arbitrary: s) (auto simp: push_def)
  then show ?thesis using assms by (simp add: flushQueued_def)
qed

lemma flush_ok:
  assumes "stack_ok n u s" "\<not> busy s"
  shows "stack_ok n u (flushQueued s)"
proof (cases "queued s = []")
  case True
  then show ?thesis using assms by (simp add: flush_eq stack_ok_def timeline_def saved_rel_def applied_def)
next
  case False
  then show ?thesis unfolding flush_eq [OF assms(2)]
    by (intro stack_ok_extend [OF assms(1), where cs = "queued s"]) (use assms(1) in \<open>auto simp: stack_ok_def\<close>)
qed

lemma move_timeline:
  "timeline (move_command r c s) = timeline s" "queued (move_command r c s) = queued s" "balance_id (move_command r c s) = balance_id s"
  "balance (move_command r c s) - int (length (undo_list (move_command r c s))) = balance s - int (length (undo_list s))"
  "busy (move_command r c s) = busy s" "stack_id (move_command r c s) = stack_id s"
proof -
  have "ids xs = ids (butlast xs) @ [cmd_id (last xs)]" if "xs \<noteq> []" for xs :: "'a command list"
    using that by (metis append_butlast_last_id ids_simps(1-3))
  then show "timeline (move_command r c s) = timeline s" by (auto simp: move_command_def timeline_def)
qed (auto simp: move_command_def of_nat_diff Suc_le_eq)

lemma busy_update_ok: "stack_ok n u (s\<lparr>busy := b\<rparr>) \<longleftrightarrow> stack_ok n u s"
  by (simp add: stack_ok_def saved_rel_def timeline_def applied_def)

lemma id_update_ok: "stack_ok n u (s\<lparr>stack_id := i\<rparr>) \<longleftrightarrow> stack_ok n u s"
  by (simp add: stack_ok_def saved_rel_def timeline_def applied_def)

lemma move_ok: "stack_ok n u s \<Longrightarrow> stack_ok n u (move_command r c s)"
  by (rule stack_ok_same_timeline [OF _ _ _ _ _ order_refl]) (simp_all add: move_timeline)

lemma saved_ok:
  assumes "stack_ok n u s"
  shows "stack_ok n (applied s) (s\<lparr>balance := 0, balance_id := appliedCommandId s\<rparr>)"
proof -
  have "cmd_id (last xs) = last (ids xs)" if "xs \<noteq> []" for xs :: "'a command list"
    using that by (simp add: ids_def last_map)
  then show ?thesis
    using assms by (auto simp: stack_ok_def saved_rel_def timeline_def applied_def appliedCommandId_def)
qed

text \<open>The flag \<^verbatim>\<open>IsModified\<close> reads: it is clear exactly when the applied commands are the saved ones.\<close>

lemma modified_iff:
  assumes "stack_ok n u s"
  shows "balance s \<noteq> 0 \<or> appliedCommandId s \<noteq> balance_id s \<longleftrightarrow> applied s \<noteq> u"
proof -
  have ok: "distinct (timeline s @ ids (queued s))" "\<forall>k \<in> set (timeline s) \<union> set (ids (queued s)) \<union> set u. k \<noteq> 0 \<and> k \<le> n" "saved_rel u s"
    using assms by (simp_all add: stack_ok_def)
  have top: "appliedCommandId s = (if applied s = [] then 0 else last (applied s))"
    by (simp add: appliedCommandId_def applied_def ids_def last_map)
  have t: "timeline s = applied s @ ids (rev (redo_list s))" by (simp add: timeline_def applied_def)
  show ?thesis
  proof (cases "applied s = u")
    case True
    then show ?thesis using ok(3) top by (simp add: saved_rel_def)
  next
    case False
    have "balance s = 0 \<Longrightarrow> appliedCommandId s = balance_id s \<Longrightarrow> applied s = u"
    proof -
      assume b: "balance s = 0" "appliedCommandId s = balance_id s"
      then have len: "length (applied s) = length u" using ok(3) by (simp add: saved_rel_def)
      show "applied s = u"
      proof (cases "u = []")
        case True
        then show ?thesis using len by simp
      next
        case False
        then have ne: "applied s \<noteq> []" using len by auto
        then have "last u = last (applied s)" using False b(2) ok(3) top by (simp add: saved_rel_def)
        then have "last u \<in> set (timeline s)" using ne unfolding t by simp
        then have "take (length u) (timeline s) = u" using ok(3) by (auto simp: saved_rel_def)
        then show ?thesis using len unfolding t by simp
      qed
    qed
    then show ?thesis using False by blast
  qed
qed

end
