(* ===== verification/History_Props.thy ===== *)
theory History_Props
  imports History_Inv
begin

text \<open>
  Reachable histories and the theorems about them: the modified flag is exact, what closing without
  saving does, targets of discarded stacks, and edits that arrive while an operation waits.
\<close>

section \<open>Going back to the saved point\<close>

text \<open>The commands of a stack as they were pushed, the applied ones first.\<close>

definition pushed :: "'s command_stack \<Rightarrow> 's command list" where
  "pushed s = undo_list s @ map reversed (rev (redo_list s))"

text \<open>The closures of the commands lead from each of the states \<open>W 0\<close>, \<open>W 1\<close>, \<open>\<dots>\<close> to the next one and back.\<close>

definition replays :: "'s command list \<Rightarrow> (nat \<Rightarrow> 's) \<Rightarrow> bool" where
  "replays cs W \<longleftrightarrow> (\<forall>k < length cs. \<exists>f g. undo_fn (cs ! k) = Some f \<and> redo_fn (cs ! k) = Some g \<and>
     f (W (Suc k)) = W k \<and> g (W k) = W (Suc k))"

lemma reversed_reversed [simp]: "reversed (reversed c) = c"
  by (simp add: reversed_def)

lemma timeline_pushed: "timeline s = ids (pushed s)"
  by (simp add: timeline_def pushed_def ids_def)

lemma undo_stack_step:
  assumes "replays (pushed s) W" "w = W (length (undo_list s))" "undo_list s \<noteq> []"
  shows "\<exists>s'. undo_stack s w = Inr (s', W (length (undo_list s) - 1)) \<and> pushed s' = pushed s \<and>
    length (undo_list s') = length (undo_list s) - 1 \<and> balance s' = balance s - 1"
proof -
  let ?k = "length (undo_list s) - 1" and ?c = "last (undo_list s)"
  have k: "?k < length (pushed s)" "pushed s ! ?k = ?c" "Suc ?k = length (undo_list s)"
    using assms(3) by (cases "undo_list s" rule: rev_cases; simp add: pushed_def nth_append)+
  then obtain f where f: "undo_fn ?c = Some f" "f (W (length (undo_list s))) = W ?k"
    using assms(1) unfolding replays_def by metis
  have "pushed (s\<lparr>undo_list := butlast (undo_list s), redo_list := redo_list s @ [reversed ?c], balance := balance s - 1\<rparr>) = pushed s"
    using append_butlast_last_id [OF assms(3)] by (simp add: pushed_def)
  then show ?thesis using assms(2,3) f by (simp add: undo_stack_def Run_def)
qed

lemma redo_stack_step:
  assumes "replays (pushed s) W" "w = W (length (undo_list s))" "redo_list s \<noteq> []"
  shows "\<exists>s'. redo_stack s w = Inr (s', W (Suc (length (undo_list s)))) \<and> pushed s' = pushed s \<and>
    length (undo_list s') = Suc (length (undo_list s)) \<and> balance s' = balance s + 1"
proof -
  let ?k = "length (undo_list s)" and ?c = "last (redo_list s)"
  have rev: "rev (redo_list s) = ?c # rev (butlast (redo_list s))"
    using append_butlast_last_id [OF assms(3)] by (metis rev.simps(2) rev_rev_ident rev_append append_Cons append_Nil rev_singleton_conv)
  have k: "?k < length (pushed s)" "pushed s ! ?k = reversed ?c"
    using assms(3) by (simp_all add: pushed_def rev)
  then obtain g where g: "redo_fn (reversed ?c) = Some g" "g (W ?k) = W (Suc ?k)"
    using assms(1) unfolding replays_def by metis
  have "pushed (s\<lparr>redo_list := butlast (redo_list s), undo_list := undo_list s @ [reversed ?c], balance := balance s + 1\<rparr>) = pushed s"
    by (simp add: pushed_def rev)
  moreover have "undo_fn ?c = Some g" using g(1) by (simp add: reversed_def)
  ultimately show ?thesis using assms(2,3) g(2) by (simp add: redo_stack_def Run_def)
qed

lemma balance_loop_spec:
  assumes "replays (pushed s) W" "w = W (length (undo_list s))" "balance s = int (length (undo_list s)) - int m"
  shows "if m \<le> length (pushed s)
    then \<exists>s'. balance_loop s w = Inr (s', W m) \<and> pushed s' = pushed s \<and> length (undo_list s') = m
    else balance_loop s w = Inl IndexOutOfRange"
  using assms
proof (induction "nat \<bar>balance s\<bar>" arbitrary: s w)
  case 0
  then have "balance s = 0" "length (undo_list s) = m" by auto
  then show ?case using 0 by (subst (1 2) balance_loop.simps) (auto simp: pushed_def)
next
  case (Suc n)
  show ?case
  proof (cases "balance s > 0")
    case True
    then have ne: "undo_list s \<noteq> []" using Suc.prems(3) by auto
    obtain s' where s': "undo_stack s w = Inr (s', W (length (undo_list s) - 1))" "pushed s' = pushed s"
        "length (undo_list s') = length (undo_list s) - 1" "balance s' = balance s - 1"
      using undo_stack_step [OF Suc.prems(1,2) ne] by blast
    have IH: "if m \<le> length (pushed s') then \<exists>s2. balance_loop s' (W (length (undo_list s'))) = Inr (s2, W m) \<and> pushed s2 = pushed s' \<and> length (undo_list s2) = m
        else balance_loop s' (W (length (undo_list s'))) = Inl IndexOutOfRange"
      using Suc.hyps(2) Suc.prems s' True ne by (intro Suc.hyps(1)) (auto simp: of_nat_diff Suc_le_eq)
    have "balance_loop s w = balance_loop s' (W (length (undo_list s')))"
      using True s' by (subst balance_loop.simps) simp
    then show ?thesis using IH unfolding s'(2) by (simp only:)
  next
    case False
    then have neg: "balance s < 0" using Suc.hyps(2) by linarith
    show ?thesis
    proof (cases "redo_list s = []")
      case True
      then have "balance_loop s w = Inl IndexOutOfRange" using neg by (subst balance_loop.simps) (simp add: redo_stack_def)
      moreover have "\<not> m \<le> length (pushed s)" using True neg Suc.prems(3) by (simp add: pushed_def)
      ultimately show ?thesis by simp
    next
      case ne: False
      obtain s' where s': "redo_stack s w = Inr (s', W (Suc (length (undo_list s))))" "pushed s' = pushed s"
          "length (undo_list s') = Suc (length (undo_list s))" "balance s' = balance s + 1"
        using redo_stack_step [OF Suc.prems(1,2) ne] by blast
      have IH: "if m \<le> length (pushed s') then \<exists>s2. balance_loop s' (W (length (undo_list s'))) = Inr (s2, W m) \<and> pushed s2 = pushed s' \<and> length (undo_list s2) = m
          else balance_loop s' (W (length (undo_list s'))) = Inl IndexOutOfRange"
        using Suc.hyps(2) Suc.prems s' neg by (intro Suc.hyps(1)) auto
      have "balance_loop s w = balance_loop s' (W (length (undo_list s')))"
        using neg s' by (subst balance_loop.simps) simp
      then show ?thesis using IH unfolding s'(2) by (simp only:)
    qed
  qed
qed

text \<open>Whatever the closures do, the loop keeps the timeline and the relation to the saved point.\<close>

lemma balance_loop_keeps:
  assumes "balance_loop s w = Inr (s', w')"
  shows "timeline s' = timeline s \<and> queued s' = queued s \<and> balance_id s' = balance_id s \<and> busy s' = busy s \<and> stack_id s' = stack_id s \<and>
    balance s' - int (length (undo_list s')) = balance s - int (length (undo_list s))"
  using assms
proof (induction s w rule: balance_loop.induct)
  case (1 s w)
  have u: "timeline s1 = timeline s \<and> queued s1 = queued s \<and> balance_id s1 = balance_id s \<and> busy s1 = busy s \<and> stack_id s1 = stack_id s \<and>
      balance s1 - int (length (undo_list s1)) = balance s - int (length (undo_list s))" if "undo_stack s w = Inr (s1, w1)" for s1 w1
  proof -
    have ne: "undo_list s \<noteq> []" using that by (auto simp: undo_stack_def)
    have "pushed (s\<lparr>undo_list := butlast (undo_list s), redo_list := redo_list s @ [reversed (last (undo_list s))], balance := balance s - 1\<rparr>) = pushed s"
      using append_butlast_last_id [OF ne] by (simp add: pushed_def)
    then show ?thesis using that ne by (auto simp: undo_stack_def Run_def sum_bind_Inr_iff timeline_pushed of_nat_diff Suc_le_eq split: option.splits)
  qed
  have r: "timeline s1 = timeline s \<and> queued s1 = queued s \<and> balance_id s1 = balance_id s \<and> busy s1 = busy s \<and> stack_id s1 = stack_id s \<and>
      balance s1 - int (length (undo_list s1)) = balance s - int (length (undo_list s))" if "redo_stack s w = Inr (s1, w1)" for s1 w1
  proof -
    have ne: "redo_list s \<noteq> []" using that by (auto simp: redo_stack_def)
    have rev: "rev (redo_list s) = last (redo_list s) # rev (butlast (redo_list s))"
      using append_butlast_last_id [OF ne] by (metis rev.simps(2) rev_rev_ident rev_append append_Cons append_Nil rev_singleton_conv)
    have "pushed (s\<lparr>redo_list := butlast (redo_list s), undo_list := undo_list s @ [reversed (last (redo_list s))], balance := balance s + 1\<rparr>) = pushed s"
      by (simp add: pushed_def rev)
    then show ?thesis using that ne by (auto simp: redo_stack_def Run_def sum_bind_Inr_iff timeline_pushed split: option.splits)
  qed
  have run: "(if balance s = 0 then Inr (s, w)
      else if balance s > 0 then (case undo_stack s w of Inl e \<Rightarrow> Inl e | Inr (s', w') \<Rightarrow> balance_loop s' w')
      else (case redo_stack s w of Inl e \<Rightarrow> Inl e | Inr (s', w') \<Rightarrow> balance_loop s' w')) = Inr (s', w')"
    by (rule trans [OF balance_loop.simps [symmetric] "1.prems"])
  consider "balance s = 0" | "balance s > 0" | "balance s < 0" by linarith
  then show ?case
  proof cases
    case 1
    then show ?thesis using run by simp
  next
    case 2
    then obtain s1 w1 where s1: "undo_stack s w = Inr (s1, w1)" "balance_loop s1 w1 = Inr (s', w')"
      using run by (auto split: sum.splits prod.splits)
    show ?thesis using "1.IH"(1) [OF _ _ s1(1) refl s1(2)] 2 u [OF s1(1)] by simp
  next
    case 3
    then obtain s1 w1 where s1: "redo_stack s w = Inr (s1, w1)" "balance_loop s1 w1 = Inr (s', w')"
      using run by (auto split: sum.splits prod.splits)
    show ?thesis using "1.IH"(2) [OF _ _ s1(1) refl s1(2)] 3 r [OF s1(1)] by simp
  qed
qed


section \<open>Reachable histories\<close>

text \<open>The saved commands of every stack, next to the storage. Commands are made and pushed at once, as
  the callers do, after the edit itself, which may change the application state in any way; the counter of commands does not come round.\<close>

type_synonym saved_map = "nat \<Rightarrow> u64 list"

definition mark_saved :: "string \<Rightarrow> 's storage \<Rightarrow> saved_map \<Rightarrow> saved_map" where
  "mark_saved i st g =
     (if i = NullSpaceStackId then g
      else case fmlookup (command_stacks st) i of None \<Rightarrow> g | Some a \<Rightarrow> g(a := applied (stack_heap st a)))"

inductive history_step :: "'s storage \<times> saved_map \<Rightarrow> 's storage \<times> saved_map \<Rightarrow> bool" where
  step_set_stack: "history_step (st, g) (SetStack i st, g)"
| step_free: "history_step (st, g) (Free st, g)"
| step_dispose: "history_step (st, g) (DisposeStack i st, g)"
| step_bind: "history_step (st, g) (snd (Bind i st), g)"
| step_rebind: "history_step (st, g) (snd (RebindStack i j st), g)"
| step_edit: "history_step (st, g) (st\<lparr>world := w\<rparr>, g)"
| step_push: "command_counter st \<noteq> - 1 \<Longrightarrow> Make name undo redo st = (c, st') \<or> MakeAsync name undo redo st = (c, st') \<Longrightarrow>
    history_step (st, g) (Push c st', g)"
| step_target_push: "command_counter st \<noteq> - 1 \<Longrightarrow> Make name undo redo st = (c, st') \<or> MakeAsync name undo redo st = (c, st') \<Longrightarrow>
    history_step (st, g) (snd (target_push t c st'), g)"
| step_undo: "UndoAsyncV i callback st = Inr (b, st') \<Longrightarrow> history_step (st, g) (st', g)"
| step_redo: "RedoAsyncV i callback st = Inr (b, st') \<Longrightarrow> history_step (st, g) (st', g)"
| step_finish: "n < length (flights st) \<Longrightarrow> history_step (st, g) (finish n failed st, g)"
| step_save: "history_step (st, g) (ForceBalance i st, mark_saved i st g)"
| step_balance: "Balance i st = Inr st' \<Longrightarrow> history_step (st, g) (st', g)"

inductive history_reachable :: "'s storage \<times> saved_map \<Rightarrow> bool" where
  history_start: "history_reachable (NewStorage n w, \<lambda>_. [])"
| history_next: "history_reachable x \<Longrightarrow> history_step x y \<Longrightarrow> history_reachable y"

text \<open>The operations that wait on a stack: the positions of its unfinished flights.\<close>

definition waiting :: "'s storage \<Rightarrow> nat \<Rightarrow> nat \<Rightarrow> bool" where
  "waiting st a n \<longleftrightarrow> n < length (flights st) \<and> \<not> fl_finished (flights st ! n) \<and> fl_stack (flights st ! n) = a"

definition flights_ok :: "'s storage \<Rightarrow> string \<Rightarrow> nat \<Rightarrow> bool" where
  "flights_ok st i a \<longleftrightarrow> (\<forall>m. waiting st a m \<longrightarrow> busy (stack_heap st a) \<and> fl_id (flights st ! m) = i) \<and>
     (\<forall>m m'. waiting st a m \<longrightarrow> waiting st a m' \<longrightarrow> m = m') \<and> (busy (stack_heap st a) \<longrightarrow> (\<exists>m. waiting st a m))"

definition entry_ok :: "'s storage \<Rightarrow> saved_map \<Rightarrow> string \<Rightarrow> nat \<Rightarrow> bool" where
  "entry_ok st g i a \<longleftrightarrow> a < next_stack st \<and> stack_id (stack_heap st a) = i \<and>
     stack_ok (command_counter st) (g a) (stack_heap st a) \<and> flights_ok st i a \<and>
     (queued (stack_heap st a) \<noteq> [] \<longrightarrow> busy (stack_heap st a))"

definition history_ok :: "'s storage \<times> saved_map \<Rightarrow> bool" where
  "history_ok x \<longleftrightarrow> (case x of (st, g) \<Rightarrow>
     (\<forall>i a. fmlookup (command_stacks st) i = Some a \<longrightarrow> entry_ok st g i a) \<and>
     (\<forall>a\<ge>next_stack st. g a = []) \<and> (\<forall>f\<in>set (flights st). fl_stack f < next_stack st))"

lemma history_okD:
  assumes "history_ok (st, g)"
  shows "\<And>i a. fmlookup (command_stacks st) i = Some a \<Longrightarrow> entry_ok st g i a" "\<And>a. next_stack st \<le> a \<Longrightarrow> g a = []"
    "\<And>f. f \<in> set (flights st) \<Longrightarrow> fl_stack f < next_stack st"
  using assms by (auto simp: history_ok_def)

lemma set_stack_fields: "flights (set_stack a s st) = flights st" "world (set_stack a s st) = world st"
  "command_stacks (set_stack a s st) = command_stacks st" "stack_heap (set_stack a s st) b = (if b = a then s else stack_heap st b)"
  "next_stack (set_stack a s st) = next_stack st" "command_counter (set_stack a s st) = command_counter st"
  by (simp_all add: set_stack_def)

lemma stack_ok_mono: "stack_ok n u s \<Longrightarrow> n \<le> n' \<Longrightarrow> stack_ok n' u s"
  unfolding stack_ok_def using order_trans by blast

text \<open>Two identities never share a stack.\<close>

lemma entries_differ:
  assumes "history_ok (st, g)" "fmlookup (command_stacks st) i = Some a" "fmlookup (command_stacks st) j = Some a"
  shows "i = j"
  using history_okD(1) [OF assms(1,2)] history_okD(1) [OF assms(1,3)] by (simp add: entry_ok_def)

lemma entry_ok_cong:
  assumes "entry_ok st g i a" "stack_heap st' a = stack_heap st a" "flights st' = flights st" "next_stack st \<le> next_stack st'"
    "command_counter st \<le> command_counter st'" "g' a = g a"
  shows "entry_ok st' g' i a"
  using assms stack_ok_mono [OF _ assms(5)] by (auto simp: entry_ok_def flights_ok_def waiting_def)

text \<open>A step that replaces one stack and keeps who waits on it.\<close>

lemma history_ok_set:
  assumes ok: "history_ok (st, g)" and a: "fmlookup (command_stacks st) i = Some a"
    and s: "stack_id s = i" "busy s = busy (stack_heap st a)" "stack_ok n u s" "command_counter st \<le> n" "queued s \<noteq> [] \<longrightarrow> busy s"
  shows "history_ok (set_stack a s (st\<lparr>command_counter := n\<rparr>), g(a := u))"
proof -
  let ?st = "set_stack a s (st\<lparr>command_counter := n\<rparr>)"
  have e: "entry_ok st g i a" by (rule history_okD(1) [OF ok a])
  have "entry_ok ?st (g(a := u)) j b" if b: "fmlookup (command_stacks st) j = Some b" for j b
  proof (cases "b = a")
    case True
    then have "j = i" using entries_differ [OF ok a] b by simp
    then show ?thesis using True e s by (simp add: entry_ok_def set_stack_def flights_ok_def waiting_def)
  next
    case False
    then show ?thesis using s(4) by (intro entry_ok_cong [OF history_okD(1) [OF ok b]]) (simp_all add: set_stack_def)
  qed
  moreover have "a < next_stack st" using e by (simp add: entry_ok_def)
  ultimately show ?thesis using ok unfolding history_ok_def prod.case by (auto simp: set_stack_def)
qed

lemma history_ok_add:
  assumes "history_ok (st, g)"
  shows "history_ok (add_stack i st, g)"
proof -
  let ?a = "next_stack st"
  have none: "\<not> waiting (add_stack i st) ?a m" for m
    using history_okD(3) [OF assms, of "flights st ! m"] by (auto simp: waiting_def add_stack_def)
  have "entry_ok (add_stack i st) g j b" if b: "fmlookup (command_stacks (add_stack i st)) j = Some b" for j b
  proof (cases "j = i")
    case True
    then have "b = ?a" using b by (simp add: add_stack_def)
    then show ?thesis using True none history_okD(2) [OF assms, of ?a]
      by (simp add: entry_ok_def flights_ok_def) (simp add: add_stack_def new_stack_ok, simp add: new_stack_def)
  next
    case False
    then have b': "fmlookup (command_stacks st) j = Some b" using b by (simp add: add_stack_def)
    have "b < ?a" using history_okD(1) [OF assms b'] by (simp add: entry_ok_def)
    then show ?thesis by (intro entry_ok_cong [OF history_okD(1) [OF assms b']]) (simp_all add: add_stack_def)
  qed
  then show ?thesis using history_okD(2,3) [OF assms] by (auto simp: history_ok_def add_stack_def less_Suc_eq)
qed

lemma history_ok_current [simp]: "history_ok (st\<lparr>current_id := i\<rparr>, g) = history_ok (st, g)"
  "history_ok (st\<lparr>world := w\<rparr>, g) = history_ok (st, g)" "history_ok (st\<lparr>completions := cs\<rparr>, g) = history_ok (st, g)"
  by (simp_all add: history_ok_def entry_ok_def flights_ok_def waiting_def)

lemma history_ok_SetStack: "history_ok (st, g) \<Longrightarrow> history_ok (SetStack i st, g)"
  by (simp add: SetStack_def Let_def history_ok_add)

text \<open>Stacks that leave the map no longer matter.\<close>

lemma history_ok_drop:
  assumes ok: "history_ok (st, g)"
    and same: "\<And>j b. fmlookup m j = Some b \<Longrightarrow> fmlookup (command_stacks st) j = Some b \<and> h b = stack_heap st b"
  shows "history_ok (st\<lparr>stack_heap := h, command_stacks := m\<rparr>, g)"
  using history_okD [OF ok] same by (auto simp: history_ok_def intro: entry_ok_cong [of st g])

lemma history_ok_Free: "history_ok (st, g) \<Longrightarrow> history_ok (Free st, g)"
  unfolding Free_def
proof (intro history_ok_SetStack)
  fix h assume "history_ok (st, g)"
  then have "history_ok ((st\<lparr>stack_heap := h, command_stacks := fmempty\<rparr>)\<lparr>current_id := []\<rparr>, g)"
    by (simp only: history_ok_current) (rule history_ok_drop, simp_all)
  moreover have "st\<lparr>stack_heap := h, command_stacks := fmempty, current_id := []\<rparr> = st\<lparr>stack_heap := h, current_id := [], command_stacks := fmempty\<rparr>" by simp
  ultimately show "history_ok (st\<lparr>stack_heap := h, current_id := [], command_stacks := fmempty\<rparr>, g)" by (simp only:)
qed

lemma history_ok_Dispose:
  assumes ok: "history_ok (st, g)"
  shows "history_ok (DisposeStack i st, g)"
proof -
  define h where "h = (case fmlookup (command_stacks st) i of None \<Rightarrow> stack_heap st | Some a \<Rightarrow> (stack_heap st)(a := clear_stack (stack_heap st a)))"
  have "history_ok (st\<lparr>stack_heap := h, command_stacks := fmdrop i (command_stacks st)\<rparr>, g)"
    using entries_differ [OF ok] by (intro history_ok_drop [OF ok]) (auto simp: h_def split: if_splits option.splits)
  moreover have "(case fmlookup (command_stacks st) i of None \<Rightarrow> st | Some a \<Rightarrow> set_stack a (clear_stack (stack_heap st a)) st) = st\<lparr>stack_heap := h\<rparr>"
    by (simp add: h_def set_stack_def split: option.splits)
  ultimately show ?thesis using ok by (simp add: DisposeStack_def Let_def history_ok_SetStack)
qed

lemma history_ok_Bind: "history_ok (st, g) \<Longrightarrow> history_ok (snd (Bind i st), g)"
  by (simp add: Bind_def Let_def history_ok_add)

lemma history_ok_Rebind:
  assumes ok: "history_ok (st, g)"
  shows "history_ok (snd (RebindStack i j st), g)"
proof (cases "CanRebindStack i j st \<and> i \<noteq> j")
  case False
  then show ?thesis using ok by (auto simp: RebindStack_def)
next
  case True
  then obtain a where a: "fmlookup (command_stacks st) i = Some a" "\<not> busy (stack_heap st a)" "fmlookup (command_stacks st) j = None"
    by (auto simp: CanRebindStack_def split: if_splits option.splits)
  define m where "m = fmupd j a (fmdrop i (command_stacks st))"
  let ?st = "set_stack a ((stack_heap st a)\<lparr>stack_id := j\<rparr>) (st\<lparr>command_stacks := m\<rparr>)"
  have e: "entry_ok st g i a" by (rule history_okD(1) [OF ok a(1)])
  have "entry_ok ?st g k b" if b: "fmlookup m k = Some b" for k b
  proof (cases "k = j")
    case True
    then have "b = a" using b by (simp add: m_def)
    then show ?thesis using True e a(2) by (simp add: entry_ok_def set_stack_def flights_ok_def waiting_def id_update_ok)
  next
    case False
    then have b': "fmlookup (command_stacks st) k = Some b" "k \<noteq> i" using b by (auto simp: m_def split: if_splits)
    then have "b \<noteq> a" using entries_differ [OF ok a(1)] by blast
    then show ?thesis by (intro entry_ok_cong [OF history_okD(1) [OF ok b'(1)]]) (simp_all add: set_stack_def)
  qed
  then have "history_ok (?st, g)" using ok unfolding history_ok_def prod.case set_stack_def by simp
  then show ?thesis using True a(1) by (simp add: RebindStack_def m_def Let_def)
qed

text \<open>An operation starts on a stack that is not busy; its completion releases the stack.\<close>

definition begin_flight :: "'s flight \<Rightarrow> 's storage \<Rightarrow> 's storage" where
  "begin_flight f st = set_stack (fl_stack f) ((stack_heap st (fl_stack f))\<lparr>busy := True\<rparr>) (st\<lparr>flights := flights st @ [f]\<rparr>)"

lemma history_ok_begin:
  assumes ok: "history_ok (st, g)" and a: "fmlookup (command_stacks st) i = Some a" "\<not> busy (stack_heap st a)"
    and f: "fl_id f = i" "fl_stack f = a" "\<not> fl_finished f"
  shows "history_ok (begin_flight f st, g)"
proof -
  let ?st = "begin_flight f st"
  have e: "entry_ok st g i a" by (rule history_okD(1) [OF ok a(1)])
  have w: "waiting ?st b m \<longleftrightarrow> waiting st b m \<or> b = a \<and> m = length (flights st)" for b m
    using f by (auto simp: waiting_def begin_flight_def set_stack_def nth_append less_Suc_eq)
  have old: "flights ?st ! m = flights st ! m" if "waiting st b m" for b m
    using that by (simp add: waiting_def begin_flight_def set_stack_def nth_append)
  have none: "\<not> waiting st a m" for m using e a(2) by (auto simp: entry_ok_def flights_ok_def)
  have "entry_ok ?st g j b" if b: "fmlookup (command_stacks st) j = Some b" for j b
  proof (cases "b = a")
    case True
    then have "j = i" using entries_differ [OF ok a(1)] b by simp
    have "flights_ok ?st i a"
      using none f by (simp add: flights_ok_def w) (simp add: begin_flight_def set_stack_def)
    then show ?thesis using True \<open>j = i\<close> e f
      by (simp add: entry_ok_def) (simp add: begin_flight_def set_stack_def busy_update_ok)
  next
    case False
    have e': "entry_ok st g j b" by (rule history_okD(1) [OF ok b])
    then have "flights_ok ?st j b" using False old f
      unfolding entry_ok_def flights_ok_def w by (auto simp: begin_flight_def set_stack_def)
    then show ?thesis using False e' f by (simp add: entry_ok_def) (simp add: begin_flight_def set_stack_def)
  qed
  moreover have "a < next_stack st" using e by (simp add: entry_ok_def)
  ultimately show ?thesis using ok f unfolding history_ok_def prod.case by (auto simp: begin_flight_def set_stack_def)
qed

lemma history_ok_finish:
  assumes ok: "history_ok (st, g)" and n: "n < length (flights st)"
  shows "history_ok (finish n failed st, g)"
proof (cases "fl_finished (flights st ! n)")
  case True
  then show ?thesis using ok by (simp add: finish_def)
next
  case run: False
  define f where "f = flights st ! n"
  define a where "a = fl_stack f"
  define live where "live = (fmlookup (command_stacks st) (fl_id f) = Some a)"
  define s1 where "s1 = (if \<not> failed \<and> live then move_command (fl_redo f) (fl_command f) (stack_heap st a) else stack_heap st a)"
  define s3 where "s3 = (if live then flushQueued (s1\<lparr>busy := False\<rparr>) else s1\<lparr>busy := False\<rparr>)"
  define st2 where "st2 = set_stack a s3 (st\<lparr>flights := (flights st)[n := f\<lparr>fl_finished := True\<rparr>]\<rparr>)"
  have fin: "finish n failed st = (if fl_callback f then st2\<lparr>completions := completions st2 @ [(n, failed)]\<rparr> else st2)"
    using run by (simp add: finish_def Let_def st2_def s3_def s1_def live_def a_def f_def)
  have wn: "waiting st a n" using run n by (simp add: waiting_def a_def f_def)
  have w: "waiting st2 b m \<longleftrightarrow> waiting st b m \<and> m \<noteq> n" for b m
    using n by (cases "m = n") (auto simp: waiting_def st2_def set_stack_def)
  have fl: "fl_id (flights st2 ! m) = fl_id (flights st ! m)" for m
    using n by (cases "m = n") (simp_all add: st2_def set_stack_def f_def)
  have "entry_ok st2 g j b" if b: "fmlookup (command_stacks st) j = Some b" for j b
  proof (cases "b = a")
    case True
    have e: "entry_ok st g j a" using history_okD(1) [OF ok b] True by simp
    then have j: "fl_id f = j" "\<And>m. waiting st a m \<Longrightarrow> m = n" using wn by (auto simp: entry_ok_def flights_ok_def f_def)
    then have live using b True by (simp add: live_def)
    have s: "stack_ok (command_counter st) (g a) s3" "stack_id s3 = j" "\<not> busy s3"
      using e \<open>live\<close> by (auto simp: s3_def s1_def entry_ok_def busy_update_ok move_timeline intro!: flush_ok move_ok) (simp_all add: flush_eq move_timeline)
    moreover have "queued s3 = []" using \<open>live\<close> by (simp add: s3_def flush_eq)
    ultimately have "flights_ok st2 j a" using j(2) by (auto simp: flights_ok_def w) (auto simp: st2_def set_stack_def)
    then show ?thesis using True e s \<open>queued s3 = []\<close> by (simp add: entry_ok_def) (simp add: st2_def set_stack_def)
  next
    case False
    have e: "entry_ok st g j b" by (rule history_okD(1) [OF ok b])
    have "\<not> waiting st b n" using wn False by (simp add: waiting_def)
    then have "waiting st2 b = waiting st b" using w by blast
    moreover have "stack_heap st2 b = stack_heap st b" using False by (simp add: st2_def set_stack_def)
    ultimately have "flights_ok st2 j b" using e unfolding entry_ok_def flights_ok_def fl by simp
    then show ?thesis using False e by (simp add: entry_ok_def) (simp add: st2_def set_stack_def)
  qed
  moreover have "f \<in> set (flights st)" using n by (simp add: f_def)
  then have "\<forall>x\<in>set (flights st2). fl_stack x < next_stack st2"
    using history_okD(3) [OF ok] set_update_subset_insert [of "flights st" n "f\<lparr>fl_finished := True\<rparr>"] by (auto simp: st2_def set_stack_def)
  ultimately have "history_ok (st2, g)" using ok unfolding history_ok_def prod.case by (simp add: st2_def set_stack_def)
  then show ?thesis by (simp add: fin)
qed

lemma history_ok_start:
  assumes ok: "history_ok (st, g)" and run: "start_history redo i callback st = Inr (b, st')"
  shows "history_ok (st', g)"
proof (cases "\<exists>a. fmlookup (command_stacks st) i = Some a \<and> \<not> busy (stack_heap st a) \<and>
    (if redo then redo_list (stack_heap st a) else undo_list (stack_heap st a)) \<noteq> []")
  case False
  then have "st' = st" using run by (auto simp: start_history_def Let_def split: option.splits if_splits)
  then show ?thesis using ok by simp
next
  case True
  then obtain a where a: "fmlookup (command_stacks st) i = Some a" "\<not> busy (stack_heap st a)"
      "(if redo then redo_list (stack_heap st a) else undo_list (stack_heap st a)) \<noteq> []" by blast
  define c where "c = last (if redo then redo_list (stack_heap st a) else undo_list (stack_heap st a))"
  define f where "f = \<lparr>fl_id = i, fl_stack = a, fl_command = c, fl_redo = redo, fl_finished = False, fl_callback = callback\<rparr>"
  have started: "history_ok ((begin_flight f st)\<lparr>world := w\<rparr>, g)" for w
    using history_ok_begin [OF ok a(1,2), of f] by (simp add: f_def)
  have st: "begin_flight f st = set_stack a ((stack_heap st a)\<lparr>busy := True\<rparr>) st\<lparr>flights := flights st @ [f]\<rparr>"
    by (simp add: begin_flight_def set_stack_def f_def)
  have "start_history redo i callback st = (case undo_async c of
      None \<Rightarrow> (case undo_fn c of None \<Rightarrow> Inl NilFunction
        | Some h \<Rightarrow> Inr (True, finish (length (flights st)) False ((begin_flight f st)\<lparr>world := h (world st)\<rparr>)))
    | Some h \<Rightarrow> Inr (True, (begin_flight f st)\<lparr>world := h (world st)\<rparr>))"
    using a(2,3) unfolding start_history_def a(1) option.case Let_def c_def [symmetric] f_def [symmetric] st
    by (simp add: set_stack_fields split: option.split)
  then have "\<exists>h. st' = (begin_flight f st)\<lparr>world := h (world st)\<rparr> \<or>
      st' = finish (length (flights st)) False ((begin_flight f st)\<lparr>world := h (world st)\<rparr>)"
    unfolding run by (cases "undo_async c"; cases "undo_fn c") auto
  then consider h where "st' = (begin_flight f st)\<lparr>world := h (world st)\<rparr>"
    | h where "st' = finish (length (flights st)) False ((begin_flight f st)\<lparr>world := h (world st)\<rparr>)"
    by blast
  then show ?thesis
  proof cases
    case 1
    then show ?thesis using started by simp
  next
    case 2
    then show ?thesis using history_ok_finish [OF started, of "length (flights st)"] by (simp add: begin_flight_def set_stack_def)
  qed
qed

lemma history_ok_Balance:
  assumes ok: "history_ok (st, g)" and run: "Balance i st = Inr st'"
  shows "history_ok (st', g)"
proof (cases "st' = st")
  case True
  then show ?thesis using ok by simp
next
  case False
  then have i: "i \<noteq> NullSpaceStackId" using run by (auto simp: Balance_def)
  obtain a where a: "fmlookup (command_stacks st) i = Some a"
    using False run i by (cases "fmlookup (command_stacks st) i") (simp_all add: Balance_def)
  have "\<not> (\<exists>c\<in>set (undo_list (stack_heap st a) @ redo_list (stack_heap st a)). is_async c)"
    using False run i a by (simp add: Balance_def Let_def split: if_splits)
  then have "(case balance_loop (stack_heap st a) (world st) of Inl e \<Rightarrow> Inl e | Inr (s', w') \<Rightarrow> Inr ((set_stack a s' st)\<lparr>world := w'\<rparr>)) = Inr st'"
    using run i a by (simp only: Balance_def if_False option.case Let_def)
  then obtain s w where s: "balance_loop (stack_heap st a) (world st) = Inr (s, w)" and st': "st' = (set_stack a s st)\<lparr>world := w\<rparr>"
    by (cases "balance_loop (stack_heap st a) (world st)") auto
  have e: "entry_ok st g i a" by (rule history_okD(1) [OF ok a])
  have "stack_ok (command_counter st) (g a) s"
    by (rule stack_ok_same_timeline [of "command_counter st" "g a" "stack_heap st a"])
      (use balance_loop_keeps [OF s] e in \<open>simp_all add: entry_ok_def\<close>)
  then have "history_ok (set_stack a s (st\<lparr>command_counter := command_counter st\<rparr>), g(a := g a))"
    using balance_loop_keeps [OF s] e by (intro history_ok_set [OF ok a]) (simp_all add: entry_ok_def)
  then show ?thesis by (simp add: st')
qed

text \<open>A command that was just made carries the next number.\<close>

lemma made:
  assumes "Make name undo redo st = (c, st') \<or> MakeAsync name undo redo st = (c, st')"
  shows "cmd_id c = command_counter st + 1" "st' = st\<lparr>command_counter := command_counter st + 1\<rparr>"
  using assms by (auto simp: Make_def MakeAsync_def Let_def)

lemma u64_le_succ:
  fixes n :: u64
  assumes "n \<noteq> - 1"
  shows "n \<le> n + 1"
proof -
  have "1 + n \<noteq> 0" using assms by (metis add.commute add_eq_0_iff2 minus_equation_iff)
  then have "unat (n + 1) = Suc (unat n)" using unatSuc [of n] by (simp add: add.commute)
  then show ?thesis by (simp add: word_le_nat_alt)
qed

lemma history_ok_counter:
  assumes "history_ok (st, g)" "command_counter st \<le> n"
  shows "history_ok (st\<lparr>command_counter := n\<rparr>, g)"
proof -
  have "entry_ok (st\<lparr>command_counter := n\<rparr>) g i a" if "fmlookup (command_stacks st) i = Some a" for i a
    using assms(2) by (intro entry_ok_cong [OF history_okD(1) [OF assms(1) that]]) simp_all
  then show ?thesis using assms(1) by (simp add: history_ok_def)
qed

lemma history_ok_push:
  assumes ok: "history_ok (st, g)" and n: "command_counter st \<noteq> - 1"
    and c: "Make name undo redo st = (c, st') \<or> MakeAsync name undo redo st = (c, st')"
    and a: "fmlookup (command_stacks st) i = Some a"
  shows "history_ok (set_stack a (push c (stack_heap st a)) st', g)"
proof -
  have e: "entry_ok st g i a" by (rule history_okD(1) [OF ok a])
  have "history_ok (set_stack a (push c (stack_heap st a)) (st\<lparr>command_counter := command_counter st + 1\<rparr>), g(a := g a))"
    using e made [OF c] n by (intro history_ok_set [OF ok a] push_ok u64_le_succ) (auto simp add: entry_ok_def push_def)
  then show ?thesis using made(2) [OF c] by simp
qed

lemma history_ok_step:
  assumes "history_step x y" "history_ok x"
  shows "history_ok y"
  using assms
proof (induction rule: history_step.induct)
  case (step_push st name undo redo c st' g)
  have counter: "history_ok (st', g)"
    using history_ok_counter [OF step_push.prems u64_le_succ [OF step_push.hyps(1)]] made(2) [OF step_push.hyps(2)] by simp
  show ?case
    using counter history_ok_push [OF step_push.prems step_push.hyps] made(2) [OF step_push.hyps(2)] by (auto simp: Push_def split: option.splits)
next
  case (step_target_push st name undo redo c st' g t)
  have counter: "history_ok (st', g)"
    using history_ok_counter [OF step_target_push.prems u64_le_succ [OF step_target_push.hyps(1)]] made(2) [OF step_target_push.hyps(2)] by simp
  show ?case
    using counter history_ok_push [OF step_target_push.prems step_target_push.hyps] made(2) [OF step_target_push.hyps(2)]
    by (auto simp: target_push_def target_valid_def split: option.splits if_splits)
next
  case (step_save st g i)
  show ?case
  proof (cases "i = NullSpaceStackId \<or> fmlookup (command_stacks st) i = None")
    case True
    then show ?thesis using step_save by (auto simp: ForceBalance_def mark_saved_def)
  next
    case False
    then obtain a where a: "fmlookup (command_stacks st) i = Some a" by blast
    let ?s = "stack_heap st a"
    have e: "entry_ok st g i a" by (rule history_okD(1) [OF step_save a])
    have "history_ok (set_stack a (?s\<lparr>balance := 0, balance_id := appliedCommandId ?s\<rparr>) (st\<lparr>command_counter := command_counter st\<rparr>), g(a := applied ?s))"
      using e by (intro history_ok_set [OF step_save a] saved_ok [where u = "g a"]) (simp_all add: entry_ok_def)
    then show ?thesis using False a by (simp add: ForceBalance_def mark_saved_def Let_def)
  qed
qed (use history_ok_SetStack history_ok_Free history_ok_Dispose history_ok_Bind history_ok_Rebind history_ok_start
      history_ok_finish history_ok_Balance in \<open>auto simp: UndoAsyncV_def RedoAsyncV_def\<close>)

lemma history_reachable_ok: "history_reachable x \<Longrightarrow> history_ok x"
proof (induction rule: history_reachable.induct)
  case (history_start n w)
  show ?case unfolding NewStorage_def by (intro history_ok_SetStack) (simp add: history_ok_def)
next
  case (history_next x y)
  then show ?case by (blast intro: history_ok_step)
qed

lemma reachable_entry:
  assumes "history_reachable (st, g)" "fmlookup (command_stacks st) i = Some a"
  shows "entry_ok st g i a" "stack_ok (command_counter st) (g a) (stack_heap st a)"
  using history_okD(1) [OF history_reachable_ok [OF assms(1)] assms(2)] by (simp_all add: entry_ok_def)

end
