(* ===== verification/Undo_Props.thy ===== *)
theory Undo_Props
  imports History_Props
begin

text \<open>
  What the undo history promises its callers: the modified flag is exact, what closing without saving
  does, targets of discarded stacks, edits that arrive while an operation waits, undo and redo.
\<close>

section \<open>The modified flag\<close>

text \<open>C7: in every history the application can reach, a map counts as modified exactly when an operation
  waits on its stack or the applied commands are not the ones that were applied when it was saved.\<close>

theorem IsModified_exact:
  assumes "history_reachable (st, g)" "fmlookup (command_stacks st) i = Some a"
  shows "IsModified i st \<longleftrightarrow> busy (stack_heap st a) \<or> applied (stack_heap st a) \<noteq> g a"
  using modified_iff [OF reachable_entry(2) [OF assms]] assms(2) by (auto simp: IsModified_def Let_def)

section \<open>Closing without saving\<close>

lemma Balance_runs:
  assumes reach: "history_reachable (st, g)" and a: "fmlookup (command_stacks st) i = Some a" "i \<noteq> NullSpaceStackId"
    and sync: "\<forall>c\<in>set (pushed (stack_heap st a)). \<not> is_async c"
    and W: "replays (pushed (stack_heap st a)) W" "world st = W (length (undo_list (stack_heap st a)))"
  shows "if length (g a) \<le> length (timeline (stack_heap st a))
    then \<exists>st'. Balance i st = Inr st' \<and> world st' = W (length (g a)) \<and>
      applied (stack_heap st' a) = take (length (g a)) (timeline (stack_heap st a))
    else Balance i st = Inl IndexOutOfRange"
proof -
  let ?s = "stack_heap st a"
  have rel: "balance ?s = int (length (undo_list ?s)) - int (length (g a))"
    using reachable_entry(2) [OF reach a(1)] by (simp add: stack_ok_def saved_rel_def applied_def)
  have "\<forall>c\<in>set (undo_list ?s @ redo_list ?s). \<not> is_async c"
  proof -
    have "is_async (reversed c) = is_async c" for c :: "'a command" by (auto simp: is_async_def reversed_def)
    then show ?thesis using sync by (auto simp: pushed_def)
  qed
  then have run: "Balance i st = (case balance_loop ?s (world st) of Inl e \<Rightarrow> Inl e | Inr (s', w') \<Rightarrow> Inr ((set_stack a s' st)\<lparr>world := w'\<rparr>))"
    using a by (simp add: Balance_def Let_def)
  have len: "length (timeline s) = length (pushed s)" for s :: "'a command_stack" by (simp add: timeline_pushed)
  show ?thesis
  proof (cases "length (g a) \<le> length (timeline ?s)")
    case True
    then obtain s' where s': "balance_loop ?s (world st) = Inr (s', W (length (g a)))" "pushed s' = pushed ?s" "length (undo_list s') = length (g a)"
      using balance_loop_spec [OF W rel] len by (metis (no_types))
    have "applied s' = take (length (undo_list s')) (timeline s')" by (simp add: applied_def timeline_def)
    then have "applied s' = take (length (g a)) (timeline ?s)" using s'(2,3) by (simp add: timeline_pushed)
    then show ?thesis using True run s'(1) by (simp add: set_stack_def)
  next
    case False
    then show ?thesis using balance_loop_spec [OF W rel] len run by simp
  qed
qed

text \<open>C8: what closing a map without saving does to its stack of synchronous commands. It undoes or redoes
  up to the number of commands that were applied when the map was saved, and the application is in the
  state that number of commands leads to; when fewer commands than that remain, because a new command
  has cut the saved ones from the list of commands to redo, it reads past the empty list and panics.\<close>

theorem Balance_outcome:
  assumes "history_reachable (st, g)" "fmlookup (command_stacks st) i = Some a" "i \<noteq> NullSpaceStackId"
    and "\<forall>c\<in>set (pushed (stack_heap st a)). \<not> is_async c"
    and "replays (pushed (stack_heap st a)) W" "world st = W (length (undo_list (stack_heap st a)))"
  shows "if length (g a) \<le> length (timeline (stack_heap st a))
    then \<exists>st'. Balance i st = Inr st' \<and> world st' = W (length (g a)) \<and>
      applied (stack_heap st' a) = take (length (g a)) (timeline (stack_heap st a))
    else Balance i st = Inl IndexOutOfRange"
  by (rule Balance_runs [OF assms])

section \<open>Undo, then redo\<close>

lemma start_sync:
  fixes st :: "'s storage"
  assumes a: "fmlookup (command_stacks st) i = Some a" and s: "s = stack_heap st a" "\<not> busy s" "queued s = []"
    and c: "(if redo then redo_list s else undo_list s) \<noteq> []" "c = last (if redo then redo_list s else undo_list s)"
      "undo_async c = None" "undo_fn c = Some f"
  shows "\<exists>st1. start_history redo i callback st = Inr (True, st1) \<and> stack_heap st1 a = move_command redo c s \<and>
    world st1 = f (world st) \<and> command_stacks st1 = command_stacks st"
proof -
  define fl where "fl = \<lparr>fl_id = i, fl_stack = a, fl_command = c, fl_redo = redo, fl_finished = False, fl_callback = callback\<rparr>"
  define st2 where "st2 = (set_stack a (s\<lparr>busy := True\<rparr>) st)\<lparr>flights := flights st @ [fl], world := f (world st)\<rparr>"
  have "start_history redo i callback st = Inr (True, finish (length (flights st)) False st2)"
    using s(2) c unfolding start_history_def a option.case Let_def s(1) [symmetric] c(2) [symmetric] fl_def [symmetric]
    by (simp add: set_stack_fields st2_def)
  moreover have st2: "flights st2 ! length (flights st) = fl" "fmlookup (command_stacks st2) i = Some a"
      "stack_heap st2 a = s\<lparr>busy := True\<rparr>" "world st2 = f (world st)" "command_stacks st2 = command_stacks st"
    using a by (simp_all add: st2_def set_stack_fields)
  moreover have "flushQueued ((move_command redo c (s\<lparr>busy := True\<rparr>))\<lparr>busy := False\<rparr>) = move_command redo c s"
    using s by (simp add: flush_eq move_timeline) (simp add: move_command_def)
  ultimately show ?thesis
    by (auto simp: finish_def Let_def fl_def set_stack_fields)
qed

text \<open>C34: in every reachable history, undoing the last command and redoing it at once gives back the
  application state, the stack and its balance, when the redo closure restores what the undo closure has
  changed.\<close>

theorem Undo_Redo_roundtrip:
  fixes st :: "'s storage"
  assumes reach: "history_reachable (st, g)" and a: "fmlookup (command_stacks st) i = Some a" and has: "HasUndoV i st"
    and c: "c = last (undo_list (stack_heap st a))" "undo_async c = None" "redo_async c = None"
    and f: "undo_fn c = Some f" "redo_fn c = Some h" "h (f (world st)) = world st"
  shows "\<exists>st1 st2. UndoAsyncV i callback st = Inr (True, st1) \<and> RedoAsyncV i callback st1 = Inr (True, st2) \<and>
    world st2 = world st \<and> stack_heap st2 a = stack_heap st a"
proof -
  let ?s = "stack_heap st a" and ?s1 = "move_command False c (stack_heap st a)"
  have s: "\<not> busy ?s" "queued ?s = []" "undo_list ?s \<noteq> []"
    using has a reachable_entry(1) [OF reach a] by (auto simp: HasUndoV_def entry_ok_def)
  obtain st1 where st1: "start_history False i callback st = Inr (True, st1)" "stack_heap st1 a = ?s1"
      "world st1 = f (world st)" "command_stacks st1 = command_stacks st"
    using start_sync [OF a refl s(1,2), where redo = False and c = c and f = f and callback = callback] s(3) c(1,2) f(1) by auto
  have s1: "redo_list ?s1 = redo_list ?s @ [reversed c]" "undo_list ?s1 = butlast (undo_list ?s)" "\<not> busy ?s1" "queued ?s1 = []"
    using s c(1) by (simp_all add: move_command_def)
  have "\<exists>st2. start_history True i callback st1 = Inr (True, st2) \<and> stack_heap st2 a = move_command True (reversed c) ?s1 \<and>
    world st2 = h (world st1) \<and> command_stacks st2 = command_stacks st1"
    by (rule start_sync) (use st1 a s1 c f in \<open>simp_all add: reversed_def\<close>)
  then obtain st2 where st2: "start_history True i callback st1 = Inr (True, st2)"
      "stack_heap st2 a = move_command True (reversed c) ?s1" "world st2 = h (world st1)"
    by blast
  have "move_command True (reversed c) ?s1 = ?s"
    using s c(1) append_butlast_last_id [OF s(3)] by (simp add: move_command_def)
  then show ?thesis using st1 st2 f(3) by (simp add: UndoAsyncV_def RedoAsyncV_def)
qed

section \<open>Discarded stacks\<close>

definition dead :: "nat \<Rightarrow> 's storage \<Rightarrow> bool" where
  "dead a st \<longleftrightarrow> a < next_stack st \<and> (\<forall>i. fmlookup (command_stacks st) i \<noteq> Some a)"

lemma dead_add: "dead a st \<Longrightarrow> dead a (add_stack i st)"
  by (auto simp: dead_def add_stack_def)

lemma dead_SetStack: "dead a st \<Longrightarrow> dead a (SetStack i st)"
  using dead_add [of a "st\<lparr>current_id := i\<rparr>" i] by (auto simp: SetStack_def Let_def dead_def)

lemma DisposeStack_cases:
  assumes "i \<noteq> NullSpaceStackId"
  obtains h st2 where "st2 = st\<lparr>stack_heap := h, command_stacks := fmdrop i (command_stacks st)\<rparr>"
    "DisposeStack i st = st2 \<or> DisposeStack i st = SetStack NullSpaceStackId st2"
proof (cases "fmlookup (command_stacks st) i")
  case None
  show ?thesis by (rule that [OF refl, of "stack_heap st"]) (use None assms in \<open>simp add: DisposeStack_def Let_def\<close>)
next
  case (Some a)
  show ?thesis by (rule that [OF refl, of "(stack_heap st)(a := clear_stack (stack_heap st a))"])
      (use Some assms in \<open>simp add: DisposeStack_def Let_def set_stack_def\<close>)
qed

lemma dead_DisposeStack:
  assumes "dead a st"
  shows "dead a (DisposeStack i st)"
proof (cases "i = NullSpaceStackId")
  case True
  then show ?thesis using assms by (simp add: DisposeStack_def)
next
  case False
  then obtain h st2 where st2: "st2 = st\<lparr>stack_heap := h, command_stacks := fmdrop i (command_stacks st)\<rparr>"
    "DisposeStack i st = st2 \<or> DisposeStack i st = SetStack NullSpaceStackId st2" by (rule DisposeStack_cases)
  have "dead a st2" using assms by (simp add: st2(1) dead_def)
  then show ?thesis using st2(2) dead_SetStack by auto
qed

lemma dead_same: "command_stacks st' = command_stacks st \<Longrightarrow> next_stack st' = next_stack st \<Longrightarrow> dead a st' = dead a st"
  by (simp add: dead_def)

lemma finish_stacks: "command_stacks (finish n b st) = command_stacks st" "next_stack (finish n b st) = next_stack st"
  by (simp_all add: finish_def Let_def set_stack_fields)

lemma start_stacks:
  assumes "start_history redo i callback st = Inr (b, st')"
  shows "command_stacks st' = command_stacks st \<and> next_stack st' = next_stack st"
proof (cases "fmlookup (command_stacks st) i")
  case None
  then show ?thesis using assms by (simp add: start_history_def)
next
  case (Some a)
  then show ?thesis using assms unfolding start_history_def Some option.case Let_def
    by (auto simp: finish_stacks set_stack_fields split: if_splits option.splits)
qed

lemma dead_step:
  assumes "history_step x y" "dead a (fst x)"
  shows "dead a (fst y)"
  using assms
proof (induction rule: history_step.induct)
  case (step_edit st g w)
  then show ?case by (simp add: dead_def)
next
  case (step_free st g)
  then show ?case by (auto simp: Free_def dead_def intro!: dead_SetStack [unfolded dead_def])
next
  case (step_bind st g i)
  then show ?case by (simp add: Bind_def Let_def dead_add)
next
  case (step_rebind st g i j)
  then show ?case
    by (auto simp: RebindStack_def Let_def dead_def set_stack_fields split: option.splits)
next
  case (step_push st name undo redo c st' g)
  then show ?case using made(2) [OF step_push.hyps(2)] by (auto simp: Push_def dead_def set_stack_fields split: option.splits)
next
  case (step_target_push st name undo redo c st' g t)
  then show ?case using made(2) [OF step_target_push.hyps(2)]
    by (auto simp: target_push_def dead_def set_stack_fields split: option.splits)
next
  case (step_undo i callback st b st' g)
  then show ?case using start_stacks [of False i callback st b st'] by (simp add: UndoAsyncV_def dead_def)
next
  case (step_redo i callback st b st' g)
  then show ?case using start_stacks [of True i callback st b st'] by (simp add: RedoAsyncV_def dead_def)
next
  case (step_save st g i)
  then show ?case by (simp add: ForceBalance_def Let_def dead_def set_stack_fields split: option.split)
next
  case (step_balance i st st' g)
  have "command_stacks st' = command_stacks st \<and> next_stack st' = next_stack st"
    using step_balance.hyps unfolding Balance_def Let_def by (auto simp: set_stack_fields split: if_splits option.splits sum.splits)
  then show ?case using step_balance by (simp add: dead_def)
qed (auto simp: dead_same [OF finish_stacks] intro: dead_SetStack dead_DisposeStack)

lemma dead_steps: "history_step\<^sup>*\<^sup>* x y \<Longrightarrow> dead a (fst x) \<Longrightarrow> dead a (fst y)"
  by (induction rule: rtranclp_induct) (auto intro: dead_step)

lemma disposed_dead:
  assumes "history_reachable (st, g)" "fmlookup (command_stacks st) i = Some a" "i \<noteq> NullSpaceStackId"
  shows "dead a (DisposeStack i st)"
proof -
  obtain h st2 where st2: "st2 = st\<lparr>stack_heap := h, command_stacks := fmdrop i (command_stacks st)\<rparr>"
    "DisposeStack i st = st2 \<or> DisposeStack i st = SetStack NullSpaceStackId st2" by (rule DisposeStack_cases [OF assms(3)])
  have "dead a st2"
    using entries_differ [OF history_reachable_ok [OF assms(1)] assms(2)] reachable_entry(1) [OF assms(1,2)]
    by (auto simp: st2(1) dead_def entry_ok_def)
  then show ?thesis using st2(2) dead_SetStack by auto
qed

text \<open>C35: a target of a disposed stack never takes a command again, whatever the application does
  afterwards, also when the same identity gets a new stack: a push through it is refused and changes
  nothing.\<close>

theorem disposed_target_refuses:
  assumes "history_reachable (st, g)" "Bind i st = (Some a, st1)" "history_step\<^sup>*\<^sup>* (DisposeStack i st1, g) (st2, g2)"
  shows "target_push (Some a) c st2 = (False, st2)"
proof -
  have i: "i \<noteq> NullSpaceStackId" "fmlookup (command_stacks st1) i = Some a" and "history_step (st, g) (st1, g)"
    using assms(2) step_bind [of st g i] by (auto simp: Bind_def Let_def split: if_splits)
  then have "dead a (DisposeStack i st1)" using disposed_dead history_next assms(1) by blast
  then have "dead a st2" using dead_steps [OF assms(3)] by simp
  then show ?thesis by (simp add: target_push_def target_valid_def dead_def)
qed

section \<open>Edits that arrive while an operation waits\<close>

text \<open>C9: no edit is lost while an undo or redo waits for its completion. A stack that is busy has an operation
  that can still complete; meanwhile a pushed command joins the queue; and the completion, failed or not,
  releases the stack with the queued commands applied on top of it in the order they came.\<close>

theorem queued_edits_land:
  assumes reach: "history_reachable (st, g)" and a: "fmlookup (command_stacks st) i = Some a" and busy: "busy (stack_heap st a)"
  shows "\<exists>n. waiting st a n \<and> (\<forall>c failed.
    queued (push c (stack_heap st a)) = queued (stack_heap st a) @ [c] \<and>
    (let s' = stack_heap (finish n failed st) a in
      \<not> busy s' \<and> queued s' = [] \<and> (\<exists>s. s = (if failed then stack_heap st a
          else move_command (fl_redo (flights st ! n)) (fl_command (flights st ! n)) (stack_heap st a)) \<and>
        undo_list s' = undo_list s @ queued (stack_heap st a) \<and>
        redo_list s' = (if queued (stack_heap st a) = [] then redo_list s else []))))"
proof -
  have e: "flights_ok st i a" using reachable_entry(1) [OF reach a] by (simp add: entry_ok_def)
  then obtain n where n: "waiting st a n" "fl_id (flights st ! n) = i" using busy by (auto simp: flights_ok_def)
  show ?thesis
    using n a busy by (intro exI [of _ n]) (auto simp: waiting_def finish_def Let_def set_stack_fields flush_eq move_timeline push_def)
qed


section \<open>A history where closing without saving panics\<close>

text \<open>A counter as the application state; the commands count up. The map is saved with two commands applied,
  both are undone, and a new command cuts them off.\<close>

definition count_up :: "u64 \<Rightarrow> nat command" where
  "count_up n = \<lparr>cmd_id = n, cmd_name = ''count'', undo_fn = Some (\<lambda>w. w - 1), redo_fn = Some Suc, undo_async = None, redo_async = None\<rparr>"

lemma count_up_fields [simp]: "cmd_id (count_up n) = n" "undo_fn (count_up n) = Some (\<lambda>w. w - 1)" "redo_fn (count_up n) = Some Suc"
  "undo_async (count_up n) = None" "redo_async (count_up n) = None"
  by (simp_all add: count_up_def)

definition count_down :: "u64 \<Rightarrow> nat command" where
  "count_down n = reversed (count_up n)"

definition map_stack :: "int \<Rightarrow> nat command list \<Rightarrow> nat command list \<Rightarrow> u64 \<Rightarrow> nat command_stack" where
  "map_stack b us rs saved = \<lparr>stack_id = ''m'', balance = b, undo_list = us, redo_list = rs, busy = False, queued = [], balance_id = saved\<rparr>"

definition counting :: "nat command_stack \<Rightarrow> u64 \<Rightarrow> nat flight list \<Rightarrow> nat \<Rightarrow> nat storage" where
  "counting s n fs w = \<lparr>current_id = ''m'', command_stacks = fmupd ''m'' 1 (fmupd NullSpaceStackId 0 fmempty),
     stack_heap = (\<lambda>a. if a = 1 then s else if a = 0 then new_stack NullSpaceStackId else new_stack []), next_stack = 2, command_counter = n,
     flights = fs, completions = [], world = w\<rparr>"

definition landed :: "u64 \<Rightarrow> nat flight" where
  "landed n = \<lparr>fl_id = ''m'', fl_stack = 1, fl_command = count_up n, fl_redo = False, fl_finished = True, fl_callback = False\<rparr>"

lemma counting_start: "history_reachable (counting (map_stack 0 [] [] 0) 0 [] 0, \<lambda>_. [])"
proof -
  have "SetStack ''m'' (NewStorage 0 0) = counting (map_stack 0 [] [] 0) 0 [] 0"
    by (auto simp: SetStack_def NewStorage_def add_stack_def NullSpaceStackId_def counting_def map_stack_def new_stack_def)
  moreover have "history_step (NewStorage 0 (0::nat), \<lambda>_. []) (SetStack ''m'' (NewStorage 0 0), \<lambda>_. [])" by (rule step_set_stack)
  ultimately show ?thesis using history_next [OF history_start] by metis
qed

lemma counting_push:
  assumes "history_reachable (counting (map_stack b us rs v) n fs w, g)" "n \<noteq> - 1"
  shows "history_reachable (counting (map_stack (b + 1) (us @ [count_up (n + 1)]) [] v) (n + 1) fs (Suc w), g)"
proof -
  let ?st = "counting (map_stack b us rs v) n fs (Suc w)"
  have "(counting (map_stack b us rs v) n fs w)\<lparr>world := Suc w\<rparr> = ?st" by (simp add: counting_def)
  then have st: "history_reachable (?st, g)" using history_next [OF assms(1) step_edit, of "Suc w"] by simp
  have "Make ''count'' (Some (\<lambda>w. w - 1)) (Some Suc) ?st = (count_up (n + 1), ?st\<lparr>command_counter := n + 1\<rparr>)"
    by (simp add: Make_def counting_def count_up_def Let_def)
  then have "history_step (?st, g) (Push (count_up (n + 1)) (?st\<lparr>command_counter := n + 1\<rparr>), g)"
    using assms(2) by (intro step_push) (auto simp: counting_def)
  moreover have "Push (count_up (n + 1)) (?st\<lparr>command_counter := n + 1\<rparr>) = counting (map_stack (b + 1) (us @ [count_up (n + 1)]) [] v) (n + 1) fs (Suc w)"
    by (auto simp: Push_def counting_def map_stack_def push_def set_stack_def NullSpaceStackId_def)
  ultimately show ?thesis using history_next [OF st] by simp
qed

lemma counting_undo:
  assumes "history_reachable (counting (map_stack b (us @ [count_up k]) rs v) n fs w, g)"
  shows "history_reachable (counting (map_stack (b - 1) us (rs @ [count_down k]) v) n (fs @ [landed k]) (w - 1), g)"
proof -
  let ?st = "counting (map_stack b (us @ [count_up k]) rs v) n fs w"
  have "UndoAsyncV ''m'' False ?st = Inr (True, counting (map_stack (b - 1) us (rs @ [count_down k]) v) n (fs @ [landed k]) (w - 1))"
    by (auto simp: UndoAsyncV_def start_history_def counting_def map_stack_def set_stack_def NullSpaceStackId_def finish_def Let_def
      move_command_def flushQueued_def landed_def count_down_def fun_upd_def)
  then show ?thesis using history_next [OF assms step_undo] by blast
qed

lemma counting_save:
  assumes "history_reachable (counting (map_stack b us rs v) n fs w, g)"
  shows "history_reachable (counting (map_stack 0 us rs (if us = [] then 0 else cmd_id (last us))) n fs w, g(1 := ids us))"
proof -
  let ?st = "counting (map_stack b us rs v) n fs w"
  have "ForceBalance ''m'' ?st = counting (map_stack 0 us rs (if us = [] then 0 else cmd_id (last us))) n fs w"
    "mark_saved ''m'' ?st g = g(1 := ids us)"
    by (auto simp: ForceBalance_def mark_saved_def applied_def appliedCommandId_def counting_def map_stack_def set_stack_def NullSpaceStackId_def)
  then show ?thesis using history_next [OF assms step_save, of "''m''"] by simp
qed

text \<open>Two commands are applied when the map is saved; then they are undone, and a third one cuts them off.\<close>

lemma counting_saved: "history_reachable (counting (map_stack 0 [count_up 1, count_up 2] [] 2) 2 [] 2, (\<lambda>_. [])(1 := [1, 2]))"
  using counting_save [OF counting_push [OF counting_push [OF counting_start]]] by (simp add: numeral_2_eq_2)

lemma counting_undone: "history_reachable (counting (map_stack (- 1) [count_up 1] [count_down 2] 2) 2 [landed 2] 1, (\<lambda>_. [])(1 := [1, 2]))"
  using counting_undo [of 0 "[count_up 1]" 2 "[]" 2 2 "[]" 2] counting_saved by simp

lemma counting_cut:
  "history_reachable (counting (map_stack (- 1) [count_up 3] [] 2) 3 [landed 2, landed 1] 1, (\<lambda>_. [])(1 := [1, 2]))"
  using counting_push [OF counting_undo [of "- 1" "[]" 1 "[count_down 2]" 2 2 "[landed 2]" 1]] counting_undone by simp

lemma counting_lookup [simp]: "fmlookup (command_stacks (counting s n fs w)) ''m'' = Some 1" "stack_heap (counting s n fs w) 1 = s"
  "stack_heap (counting s n fs w) (Suc 0) = s" "world (counting s n fs w) = w" "flights (counting s n fs w) = fs"
  by (simp_all add: counting_def)

lemma map_stack_fields [simp]: "undo_list (map_stack b us rs v) = us" "redo_list (map_stack b us rs v) = rs" "balance (map_stack b us rs v) = b"
  "busy (map_stack b us rs v) = False" "queued (map_stack b us rs v) = []" "balance_id (map_stack b us rs v) = v"
  by (simp_all add: map_stack_def)

text \<open>C39: closing a map without saving can panic. There is a history the application can reach, with three
  synchronous commands whose closures undo and redo each other, in which \<^verbatim>\<open>Balance\<close> indexes the empty list
  of commands to redo.\<close>

theorem Balance_can_panic:
  "\<exists>(st :: nat storage) g. history_reachable (st, g) \<and> IsModified ''m'' st \<and> Balance ''m'' st = Inl IndexOutOfRange"
proof -
  let ?st = "counting (map_stack (- 1) [count_up 3] [] 2) 3 [landed 2, landed 1] 1"
  have "IsModified ''m'' ?st" by (simp add: IsModified_def)
  moreover have "Balance ''m'' ?st = Inl IndexOutOfRange"
    by (subst Balance_def) (simp add: NullSpaceStackId_def is_async_def balance_loop.simps redo_stack_def)
  ultimately show ?thesis using counting_cut by blast
qed

section \<open>Witnesses\<close>

theorem IsModified_exact_witness:
  "IsModified ''m'' (counting (map_stack (- 1) [count_up 1] [count_down 2] 2) 2 [landed 2] 1) \<and>
   \<not> IsModified ''m'' (counting (map_stack 0 [count_up 1, count_up 2] [] 2) 2 [] 2)"
  using IsModified_exact [OF counting_undone, of "''m''" 1] IsModified_exact [OF counting_saved, of "''m''" 1] by (simp_all add: applied_def)

theorem Balance_outcome_witness:
  "\<exists>st'. Balance ''m'' (counting (map_stack (- 1) [count_up 1] [count_down 2] 2) 2 [landed 2] 1) = Inr st' \<and> world st' = 2 \<and>
    applied (stack_heap st' 1) = [1, 2]"
  using Balance_outcome [OF counting_undone, of "''m''" 1 "\<lambda>k. k"]
  by (simp add: NullSpaceStackId_def pushed_def replays_def timeline_def is_async_def count_down_def less_Suc_eq numeral_2_eq_2)

theorem Undo_Redo_roundtrip_witness:
  "\<exists>st1 st2. UndoAsyncV ''m'' True (counting (map_stack 0 [count_up 1, count_up 2] [] 2) 2 [] 2) = Inr (True, st1) \<and>
    RedoAsyncV ''m'' True st1 = Inr (True, st2) \<and> world st2 = 2 \<and>
    stack_heap st2 1 = map_stack 0 [count_up 1, count_up 2] [] 2"
  using Undo_Redo_roundtrip [OF counting_saved, of "''m''" 1 "count_up 2" "\<lambda>w. w - 1" Suc True] by (simp add: HasUndoV_def)

text \<open>The map closes and opens again.\<close>

theorem disposed_target_refuses_witness:
  "let st = counting (map_stack 0 [count_up 1, count_up 2] [] 2) 2 [] 2; st2 = SetStack ''m'' (DisposeStack ''m'' st) in
   fmlookup (command_stacks st2) ''m'' \<noteq> None \<and> target_push (Some 1) (count_up 3) st2 = (False, st2)"
proof -
  let ?st = "counting (map_stack 0 [count_up 1, count_up 2] [] 2) 2 [] 2"
  have b: "Bind ''m'' ?st = (Some 1, ?st)" by (simp add: Bind_def NullSpaceStackId_def)
  have "target_push (Some 1) (count_up 3) (SetStack ''m'' (DisposeStack ''m'' ?st)) = (False, SetStack ''m'' (DisposeStack ''m'' ?st))"
    by (rule disposed_target_refuses [OF counting_saved b]) (blast intro: step_set_stack)
  moreover have "fmlookup (command_stacks (SetStack ''m'' (DisposeStack ''m'' ?st))) ''m'' \<noteq> None"
    by (simp add: SetStack_def DisposeStack_def Let_def set_stack_def add_stack_def counting_def NullSpaceStackId_def)
  ultimately show ?thesis by (simp add: Let_def)
qed

text \<open>An asynchronous command whose undo waits, and an edit in the meantime.\<close>

definition remote :: "u64 \<Rightarrow> nat command" where
  "remote n = \<lparr>cmd_id = n, cmd_name = ''remote'', undo_fn = None, redo_fn = None, undo_async = Some id, redo_async = Some id\<rparr>"

definition waiting_undo :: "nat storage" where
  "waiting_undo = counting ((map_stack 1 [remote 1] [] 0)\<lparr>busy := True\<rparr>) 1
     [\<lparr>fl_id = ''m'', fl_stack = 1, fl_command = remote 1, fl_redo = False, fl_finished = False, fl_callback = False\<rparr>] 0"

lemma waiting_undo_reachable: "history_reachable (waiting_undo, \<lambda>_. [])"
proof -
  let ?st = "counting (map_stack 0 [] [] 0) 0 [] 0"
  have "MakeAsync ''remote'' (Some id) (Some id) ?st = (remote 1, ?st\<lparr>command_counter := 1\<rparr>)"
    by (simp add: MakeAsync_def counting_def remote_def Let_def)
  then have "history_step (?st, \<lambda>_. []) (Push (remote 1) (?st\<lparr>command_counter := 1\<rparr>), \<lambda>_. [])"
    by (intro step_push) (auto simp: counting_def)
  moreover have "Push (remote 1) (?st\<lparr>command_counter := 1\<rparr>) = counting (map_stack 1 [remote 1] [] 0) 1 [] 0"
    by (auto simp: Push_def counting_def map_stack_def push_def set_stack_def NullSpaceStackId_def)
  ultimately have "history_reachable (counting (map_stack 1 [remote 1] [] 0) 1 [] 0, \<lambda>_. [])" using history_next [OF counting_start] by simp
  moreover have "UndoAsyncV ''m'' False (counting (map_stack 1 [remote 1] [] 0) 1 [] 0) = Inr (True, waiting_undo)"
    by (simp add: UndoAsyncV_def start_history_def waiting_undo_def Let_def set_stack_def remote_def) (auto simp: counting_def)
  ultimately show ?thesis using history_next step_undo by blast
qed

theorem queued_edits_land_witness:
  "\<exists>n. waiting waiting_undo 1 n \<and> \<not> busy (stack_heap (finish n False waiting_undo) 1)"
  using queued_edits_land [OF waiting_undo_reachable, of "''m''" 1] by (auto simp: waiting_undo_def Let_def)

end
