(* ===== verification/Client_Projection.thy ===== *)
theory Client_Projection
  imports Document
begin

text \<open>
  The reconciliation of a collaboration client (client/reconcile.go, client/projection_index.go, the
  overlay of client/indexed_executor.go and \<^verbatim>\<open>effectiveProjectionOverlay\<close> of
  client/presentation.go): a verified acknowledged snapshot, the operations submitted and not yet
  answered, and the visible map they give together. The code computes that map in four ways, by
  replaying whole snapshots, with an incremental index, as a sparse overlay and for a set of
  coordinates; each is a definition of its own here.

  Deep copies are kept where the code makes them. A Go map whose order is never observed is a
  \<open>\<rightharpoonup>\<close>; the zero coordinate is the tombstone the overlay stores.
\<close>

section \<open>Errors\<close>

datatype change_error =
    DuplicateChange coord
  | ChangeOutside coord
  | DuplicateOrOutside coord
  | ChangePrecondition coord
  | ChangeID id_error
  | ChangeReusesID stable_id
  | ChangeTakesID stable_id
  | ChangedMapInvalid model_error

text \<open>A message is what the server wrote, the fixed text of an unconfirmed delivery, or the text of an
  error.\<close>

datatype client_error =
    BadModel model_error
  | IncompatibleOperation
  | BaseAhead
  | BaseUnverified
  | SpeculativeFailure change_error
  | UnexpectedRevision revision revision
  | IncompatibleAcceptance
  | AcceptedFailure change_error
  | MapHashMismatch revision
  | RejectionMismatch
  | NotPending operation_id
  | OperationNotRetained operation_id
  | ForeignOperation actor_id
  | InverseOfInverse
  | LaterEdit coord
  | ConflictNotRetained operation_id
  | ConflictRebuilding
  | RebuildWhilePending
  | RebuildUnneeded
  | ClientCanceled
  | HashUnavailable
  | ExecutorTerminated
  | AdmissionFull
  | AdmissionInterrupted
  | NotSuspended
  | NilTransport
  | EmptySession
  | ReplaceWhilePending
  | IncompatibleReplacement
  | ReplacementPrecedes revision revision
  | ReplacementConflicts revision
  | FingerprintFailed
  | Refused string message
  | ExternalError string
and message = ServerMessage string | DeliveryEnded | ErrorMessage client_error

section \<open>Data\<close>

record projection =
  acknowledged :: snapshot
  pending_ops :: "operation list"
  acknowledged_hash :: string

record conflict =
  cf_operation :: operation_id
  cf_draft :: operation
  cf_code :: string
  cf_message :: message
  cf_revision :: revision
  cf_map_hash :: string
  cf_values :: "tile list"

record rejection =
  rj_operation :: operation_id
  rj_code :: string
  rj_message :: string
  rj_revision :: revision
  rj_map_hash :: string
  rj_values :: "tile list"

definition sum_text :: "'e + string \<Rightarrow> string" where
  "sum_text r = (case r of Inl _ \<Rightarrow> [] | Inr text \<Rightarrow> text)"

definition NewProjection :: "digest_fun \<Rightarrow> nat \<Rightarrow> snapshot \<Rightarrow> projection" where
  "NewProjection H procs s =
     (let clone = CloneSnapshot s in
      \<lparr>acknowledged = clone, pending_ops = [], acknowledged_hash = sum_text (Snapshot_Hash H procs clone)\<rparr>)"

definition newProjection :: "digest_fun \<Rightarrow> nat \<Rightarrow> snapshot \<Rightarrow> string \<Rightarrow> projection" where
  "newProjection H procs s verified =
     (let clone = CloneSnapshot s in
      \<lparr>acknowledged = clone, pending_ops = [],
       acknowledged_hash = (if verified = [] then sum_text (Snapshot_Hash H procs clone) else verified)\<rparr>)"

definition lift_model :: "model_error + 'a \<Rightarrow> client_error + 'a" where
  "lift_model r = (case r of Inl e \<Rightarrow> Inl (BadModel e) | Inr v \<Rightarrow> Inr v)"

definition acknowledgedMapHash :: "digest_fun \<Rightarrow> nat \<Rightarrow> projection \<Rightarrow> client_error + string" where
  "acknowledgedMapHash H procs p = lift_model (Snapshot_Hash H procs (acknowledged p))"

definition verifiedMapHash :: "digest_fun \<Rightarrow> nat \<Rightarrow> projection \<Rightarrow> client_error + string" where
  "verifiedMapHash H procs p =
     (if acknowledged_hash p = [] then lift_model (Snapshot_Hash H procs (acknowledged p))
      else Inr (acknowledged_hash p))"

definition cloneProjection :: "projection \<Rightarrow> projection" where
  "cloneProjection p =
     \<lparr>acknowledged = CloneSnapshot (acknowledged p), pending_ops = map CloneOperation (pending_ops p),
      acknowledged_hash = acknowledged_hash p\<rparr>"

section \<open>The check every projection makes\<close>

text \<open>
  The loops that validate a batch before it is shown: no coordinate twice, each inside the map, each
  tile as the operation expects; then no identity twice, none that belongs to a tile the batch does
  not change. The copies of these loops differ in the errors they report and in which tests they
  make; both are arguments.
\<close>

record 'e scan_errors =
  on_duplicate :: "coord \<Rightarrow> 'e"
  on_outside :: "coord \<Rightarrow> 'e"
  on_precondition :: "coord \<Rightarrow> 'e"
  on_id :: "id_error \<Rightarrow> 'e"
  on_reused :: "stable_id \<Rightarrow> 'e"
  on_owned :: "stable_id \<Rightarrow> 'e"

fun scan_coords ::
  "'e scan_errors \<Rightarrow> (coord \<Rightarrow> bool) \<Rightarrow> (coord \<Rightarrow> tile_state) \<Rightarrow> tile_change list \<Rightarrow> coord set \<Rightarrow> 'e + coord set" where
  "scan_coords e inside state [] affected = Inr affected"
| "scan_coords e inside state (ch # chs) affected =
     sum_bind (guard (ch_coord ch \<in> affected) (on_duplicate e (ch_coord ch))) (\<lambda>_.
     sum_bind (guard (\<not> inside (ch_coord ch)) (on_outside e (ch_coord ch))) (\<lambda>_.
     sum_bind (guard (\<not> TileState_Equal (state (ch_coord ch)) (before ch)) (on_precondition e (ch_coord ch))) (\<lambda>_.
     scan_coords e inside state chs (insert (ch_coord ch) affected))))"

fun scan_prefabs ::
  "'e scan_errors \<Rightarrow> (stable_id \<Rightarrow> id_error option) \<Rightarrow> (stable_id \<Rightarrow> coord option) \<Rightarrow> coord set \<Rightarrow>
     prefab_state list \<Rightarrow> stable_id set \<Rightarrow> 'e + stable_id set" where
  "scan_prefabs e validate owner affected [] ids = Inr ids"
| "scan_prefabs e validate owner affected (p # ps) ids =
     sum_bind (check (validate (prefab_id p)) (on_id e)) (\<lambda>_.
     sum_bind (guard (prefab_id p \<in> ids) (on_reused e (prefab_id p))) (\<lambda>_.
     sum_bind (guard (case owner (prefab_id p) of Some c \<Rightarrow> c \<notin> affected | None \<Rightarrow> False)
       (on_owned e (prefab_id p))) (\<lambda>_.
     scan_prefabs e validate owner affected ps (insert (prefab_id p) ids))))"

fun scan_ids ::
  "'e scan_errors \<Rightarrow> (stable_id \<Rightarrow> id_error option) \<Rightarrow> (stable_id \<Rightarrow> coord option) \<Rightarrow> coord set \<Rightarrow>
     tile_change list \<Rightarrow> stable_id set \<Rightarrow> 'e + unit" where
  "scan_ids e validate owner affected [] ids = Inr ()"
| "scan_ids e validate owner affected (ch # chs) ids =
     sum_bind (scan_prefabs e validate owner affected (prefab_list (after ch)) ids)
       (\<lambda>ids'. scan_ids e validate owner affected chs ids')"

definition scan ::
  "'e scan_errors \<Rightarrow> (coord \<Rightarrow> bool) \<Rightarrow> (coord \<Rightarrow> tile_state) \<Rightarrow> (stable_id \<Rightarrow> id_error option) \<Rightarrow>
     (stable_id \<Rightarrow> coord option) \<Rightarrow> tile_change list \<Rightarrow> 'e + unit" where
  "scan e inside state validate owner chs =
     sum_bind (scan_coords e inside state chs {}) (\<lambda>affected. scan_ids e validate owner affected chs {})"

text \<open>A loop that gives up without an error.\<close>

definition silent :: "unit scan_errors" where
  "silent = \<lparr>on_duplicate = (\<lambda>_. ()), on_outside = (\<lambda>_. ()), on_precondition = (\<lambda>_. ()), on_id = (\<lambda>_. ()),
     on_reused = (\<lambda>_. ()), on_owned = (\<lambda>_. ())\<rparr>"

section \<open>Replaying whole snapshots\<close>

fun copy_changes :: "snapshot \<Rightarrow> (coord \<rightharpoonup> nat) \<Rightarrow> coord set \<Rightarrow> tile_change list \<Rightarrow> change_error + snapshot" where
  "copy_changes s indexes seen [] = Inr s"
| "copy_changes s indexes seen (ch # chs) =
     (let c = ch_coord ch;
          current = (case indexes c of Some i \<Rightarrow> tile_st (tiles s ! i) | None \<Rightarrow> empty_tile) in
      sum_bind (guard (c \<in> seen) (DuplicateChange c)) (\<lambda>_.
      sum_bind (guard (\<not> Contains s c) (ChangeOutside c)) (\<lambda>_.
      sum_bind (guard (\<not> TileState_Equal current (before ch)) (ChangePrecondition c)) (\<lambda>_.
      case indexes c of
        Some i \<Rightarrow> copy_changes (s\<lparr>tiles := set_tile i (CloneTileState (after ch)) (tiles s)\<rparr>) indexes (insert c seen) chs
      | None \<Rightarrow> copy_changes (s\<lparr>tiles := tiles s @ [\<lparr>tile_coord = c, tile_st = CloneTileState (after ch)\<rparr>]\<rparr>)
            (indexes(c \<mapsto> length (tiles s))) (insert c seen) chs))))"

definition applyOperationToCopy :: "snapshot \<Rightarrow> operation \<Rightarrow> change_error + snapshot" where
  "applyOperationToCopy s op = copy_changes s (index_from (tiles s) 0 Map.empty) {} (changes op)"

definition applyOperationUnchecked :: "snapshot \<Rightarrow> operation \<Rightarrow> change_error + snapshot" where
  "applyOperationUnchecked s op = applyOperationToCopy (CloneSnapshot s) op"

definition applyOperation :: "digest_fun \<Rightarrow> nat \<Rightarrow> snapshot \<Rightarrow> operation \<Rightarrow> change_error + snapshot" where
  "applyOperation H procs s op =
     sum_bind (applyOperationUnchecked s op) (\<lambda>result.
     case Snapshot_Hash H procs result of Inl e \<Rightarrow> Inl (ChangedMapInvalid e) | Inr _ \<Rightarrow> Inr result)"

definition applyAcceptedSnapshotCopy ::
  "digest_fun \<Rightarrow> nat \<Rightarrow> snapshot \<Rightarrow> accepted_operation \<Rightarrow> client_error + snapshot \<times> string" where
  "applyAcceptedSnapshotCopy H procs s acc =
     sum_bind (guard (op_document (acc_op acc) \<noteq> snap_document s \<or> op_environment (acc_op acc) \<noteq> environment_hash s)
       IncompatibleAcceptance) (\<lambda>_.
     case applyOperationToCopy s (acc_op acc) of
       Inl e \<Rightarrow> Inl (AcceptedFailure e)
     | Inr next \<Rightarrow>
         let next' = next\<lparr>snap_revision := acc_revision acc\<rparr> in
         sum_bind (lift_model (Snapshot_Hash H procs next')) (\<lambda>hash. Inr (next', hash)))"

section \<open>The incremental index\<close>

record projection_index =
  px_snapshot :: snapshot
  px_tiles :: "coord \<rightharpoonup> nat"
  px_owners :: "stable_id \<rightharpoonup> coord"

definition px_state :: "projection_index \<Rightarrow> coord \<Rightarrow> tile_state" where
  "px_state px c = (case px_tiles px c of Some i \<Rightarrow> tile_st (tiles (px_snapshot px) ! i) | None \<Rightarrow> empty_tile)"

definition px_release :: "projection_index \<Rightarrow> tile_change list \<Rightarrow> (stable_id \<rightharpoonup> coord)" where
  "px_release px chs =
     foldl (\<lambda>m ch. case px_tiles px (ch_coord ch) of
         Some i \<Rightarrow> release_ids (tile_st (tiles (px_snapshot px) ! i)) m
       | None \<Rightarrow> m) (px_owners px) chs"

fun px_install :: "tile_change list \<Rightarrow> projection_index \<Rightarrow> projection_index" where
  "px_install [] px = px"
| "px_install (ch # chs) px =
     (let s = px_snapshot px;
          state = CloneTileState (after ch);
          px1 = (case px_tiles px (ch_coord ch) of
              Some i \<Rightarrow> px\<lparr>px_snapshot := s\<lparr>tiles := set_tile i state (tiles s)\<rparr>\<rparr>
            | None \<Rightarrow> px\<lparr>px_tiles := (px_tiles px)(ch_coord ch \<mapsto> length (tiles s)),
                px_snapshot := s\<lparr>tiles := tiles s @ [\<lparr>tile_coord = ch_coord ch, tile_st = state\<rparr>]\<rparr>\<rparr>)
      in px_install chs (px1\<lparr>px_owners := own_ids (ch_coord ch) state (px_owners px1)\<rparr>))"

definition px_apply :: "operation \<Rightarrow> projection_index \<Rightarrow> projection_index" where
  "px_apply op px =
     (case scan silent (Contains (px_snapshot px)) (px_state px) StableID_Validate (px_owners px) (changes op) of
        Inl _ \<Rightarrow> px
      | Inr _ \<Rightarrow> px_install (changes op) (px\<lparr>px_owners := px_release px (changes op)\<rparr>))"

definition new_projection_index :: "snapshot \<Rightarrow> projection_index" where
  "new_projection_index s =
     \<lparr>px_snapshot = s, px_tiles = index_from (tiles s) 0 Map.empty,
      px_owners = foldl (\<lambda>m t. own_ids (tile_coord t) (tile_st t) m) Map.empty (tiles s)\<rparr>"

definition visibleProjection :: "digest_fun \<Rightarrow> nat \<Rightarrow> snapshot \<Rightarrow> operation list \<Rightarrow> snapshot" where
  "visibleProjection H procs s ops =
     (let visible = CloneSnapshot s in
      if ops = [] then visible
      else case Snapshot_Validate visible of
          Some _ \<Rightarrow> foldl (\<lambda>v op. case applyOperation H procs v op of Inl _ \<Rightarrow> v | Inr next \<Rightarrow> next) visible ops
        | None \<Rightarrow> px_snapshot (foldl (\<lambda>px op. px_apply op px) (new_projection_index visible) ops))"

definition Visible :: "digest_fun \<Rightarrow> nat \<Rightarrow> projection \<Rightarrow> snapshot" where
  "Visible H procs p =
     (visibleProjection H procs (acknowledged p) (pending_ops p))\<lparr>snap_revision := snap_revision (acknowledged p)\<rparr>"

section \<open>The view of a set of coordinates\<close>

record effective_owner =
  eo_coord :: coord
  eo_present :: bool

definition zero_coord :: coord where
  "zero_coord = Coord 0 0 0"

definition state_at :: "(coord \<rightharpoonup> tile_state) \<Rightarrow> coord \<Rightarrow> tile_state" where
  "state_at states c = (case states c of Some st \<Rightarrow> st | None \<Rightarrow> empty_tile)"

definition eff_start ::
  "(coord \<rightharpoonup> tile_state) \<Rightarrow> coord set \<Rightarrow> (coord \<rightharpoonup> tile_state) \<Rightarrow> (coord \<rightharpoonup> tile_state)" where
  "eff_start authority coords overrides c =
     (if c \<notin> coords then None
      else case overrides c of
          Some st \<Rightarrow> Some (CloneTileState st)
        | None \<Rightarrow> (case authority c of Some st \<Rightarrow> Some (CloneTileState st) | None \<Rightarrow> Some empty_tile))"

definition eff_owner ::
  "(stable_id \<rightharpoonup> coord) \<Rightarrow> (stable_id \<rightharpoonup> effective_owner) \<Rightarrow> stable_id \<Rightarrow> coord option" where
  "eff_owner authority overrides i =
     (case overrides i of
        Some e \<Rightarrow> if eo_present e then Some (eo_coord e) else None
      | None \<Rightarrow> authority i)"

definition set_owners ::
  "coord \<Rightarrow> bool \<Rightarrow> tile_state \<Rightarrow> (stable_id \<rightharpoonup> effective_owner) \<Rightarrow> (stable_id \<rightharpoonup> effective_owner)" where
  "set_owners c present st m =
     foldl (\<lambda>m p. m(prefab_id p \<mapsto> \<lparr>eo_coord = c, eo_present = present\<rparr>)) m (prefab_list st)"

definition eff_install ::
  "tile_change list \<Rightarrow> (coord \<rightharpoonup> tile_state) \<times> (stable_id \<rightharpoonup> effective_owner) \<Rightarrow>
     (coord \<rightharpoonup> tile_state) \<times> (stable_id \<rightharpoonup> effective_owner)" where
  "eff_install chs v =
     (let released = foldl (\<lambda>m ch. set_owners (ch_coord ch) False (state_at (fst v) (ch_coord ch)) m) (snd v) chs in
      foldl (\<lambda>v ch. let state = CloneTileState (after ch) in
          ((fst v)(ch_coord ch \<mapsto> state), set_owners (ch_coord ch) True state (snd v)))
        (fst v, released) chs)"

definition eff_step ::
  "(stable_id \<rightharpoonup> coord) \<Rightarrow> operation \<Rightarrow> (coord \<rightharpoonup> tile_state) \<times> (stable_id \<rightharpoonup> effective_owner) \<Rightarrow>
     (coord \<rightharpoonup> tile_state) \<times> (stable_id \<rightharpoonup> effective_owner)" where
  "eff_step owners op v =
     (case scan silent (\<lambda>_. True) (state_at (fst v)) (\<lambda>_. None) (eff_owner owners (snd v)) (changes op) of
        Inl _ \<Rightarrow> v
      | Inr _ \<Rightarrow> eff_install (changes op) v)"

definition op_coords :: "operation list \<Rightarrow> coord set" where
  "op_coords ops = set (concat (map (\<lambda>op. map ch_coord (changes op)) ops))"

definition effectiveProjectionOverlay ::
  "projection \<Rightarrow> (coord \<rightharpoonup> tile_state) \<Rightarrow> (stable_id \<rightharpoonup> coord) \<Rightarrow> coord set \<Rightarrow>
     (coord \<rightharpoonup> tile_state) \<Rightarrow> (stable_id \<rightharpoonup> effective_owner) \<Rightarrow>
     (coord \<rightharpoonup> tile_state) \<times> (stable_id \<rightharpoonup> effective_owner)" where
  "effectiveProjectionOverlay p authority owners coords state_overrides owner_overrides =
     foldl (\<lambda>v op. eff_step owners op v)
       (eff_start authority (coords \<union> op_coords (pending_ops p)) state_overrides, owner_overrides) (pending_ops p)"

definition effectiveProjectionStates ::
  "projection \<Rightarrow> (coord \<rightharpoonup> tile_state) \<Rightarrow> (stable_id \<rightharpoonup> coord) \<Rightarrow> coord set \<Rightarrow>
     (coord \<rightharpoonup> tile_state) \<Rightarrow> (stable_id \<rightharpoonup> effective_owner) \<Rightarrow> (coord \<rightharpoonup> tile_state)" where
  "effectiveProjectionStates p authority owners coords state_overrides owner_overrides =
     fst (effectiveProjectionOverlay p authority owners coords state_overrides owner_overrides)"

section \<open>Submitting, accepting, rejecting\<close>

definition submit_errors :: "client_error scan_errors" where
  "submit_errors = \<lparr>on_duplicate = SpeculativeFailure \<circ> DuplicateChange, on_outside = SpeculativeFailure \<circ> ChangeOutside,
     on_precondition = SpeculativeFailure \<circ> ChangePrecondition, on_id = SpeculativeFailure \<circ> ChangeID,
     on_reused = SpeculativeFailure \<circ> ChangeReusesID, on_owned = SpeculativeFailure \<circ> ChangeTakesID\<rparr>"

definition incompatible :: "projection \<Rightarrow> operation \<Rightarrow> bool" where
  "incompatible p op \<longleftrightarrow> op_protocol op \<noteq> ProtocolVersion \<or> op_document op \<noteq> snap_document (acknowledged p) \<or>
     op_environment op \<noteq> environment_hash (acknowledged p)"

text \<open>The private submission of the executor. What the code writes to the effective view after its
  checks is not returned.\<close>

definition submitWithVerifiedOverlay ::
  "operation \<Rightarrow> client_error + string \<Rightarrow> (coord \<rightharpoonup> tile_state) \<Rightarrow> (stable_id \<rightharpoonup> coord) \<Rightarrow> projection \<Rightarrow>
     client_error + projection" where
  "submitWithVerifiedOverlay op verified authority owners p =
     sum_bind verified (\<lambda>hash.
     sum_bind (guard (incompatible p op) IncompatibleOperation) (\<lambda>_.
     sum_bind (guard (base_revision op > snap_revision (acknowledged p)) BaseAhead) (\<lambda>_.
     sum_bind (check (ValidateSHA256 ''acknowledged map hash'' hash) BadModel) (\<lambda>_.
     let v = effectiveProjectionOverlay p authority owners (op_coords [op]) Map.empty Map.empty in
     sum_bind (scan submit_errors (Contains (acknowledged p)) (state_at (fst v)) StableID_Validate
         (eff_owner owners (snd v)) (changes op)) (\<lambda>_.
     Inr (p\<lparr>pending_ops := pending_ops p @ [CloneOperation op]\<rparr>))))))"

definition submitWithHash ::
  "digest_fun \<Rightarrow> nat \<Rightarrow> operation \<Rightarrow> client_error + string \<Rightarrow> projection \<Rightarrow> client_error + projection" where
  "submitWithHash H procs op acknowledged_text p =
     sum_bind acknowledged_text (\<lambda>hash.
     sum_bind (guard (incompatible p op) IncompatibleOperation) (\<lambda>_.
     sum_bind (guard (base_revision op \<noteq> snap_revision (acknowledged p) \<or> base_map_hash op \<noteq> hash) BaseUnverified) (\<lambda>_.
     case applyOperation H procs (Visible H procs p) op of
       Inl e \<Rightarrow> Inl (SpeculativeFailure e)
     | Inr _ \<Rightarrow>
         let result = cloneProjection p in
         Inr (result\<lparr>pending_ops := pending_ops result @ [CloneOperation op]\<rparr>))))"

definition Submit :: "digest_fun \<Rightarrow> nat \<Rightarrow> operation \<Rightarrow> projection \<Rightarrow> client_error + projection" where
  "Submit H procs op p = submitWithHash H procs op (acknowledgedMapHash H procs p) p"

definition drop_operation :: "operation_id \<Rightarrow> operation list \<Rightarrow> operation list" where
  "drop_operation i ops = filter (\<lambda>op. op_id op \<noteq> i) ops"

definition acceptWithVerifiedCurrent ::
  "digest_fun \<Rightarrow> nat \<Rightarrow> accepted_operation \<Rightarrow> string \<Rightarrow> projection \<Rightarrow> client_error + projection" where
  "acceptWithVerifiedCurrent H procs acc hash p =
     sum_bind (guard (acc_revision acc \<noteq> snap_revision (acknowledged p) + 1)
       (UnexpectedRevision (acc_revision acc) (snap_revision (acknowledged p) + 1))) (\<lambda>_.
     sum_bind (check (ValidateSHA256 ''authoritative map hash'' hash) BadModel) (\<lambda>_.
     sum_bind (applyAcceptedSnapshotCopy H procs (acknowledged p) acc) (\<lambda>(next, actual).
     sum_bind (guard (actual \<noteq> hash) (MapHashMismatch (acc_revision acc))) (\<lambda>_.
     Inr \<lparr>acknowledged = next, pending_ops = drop_operation (op_id (acc_op acc)) (pending_ops p),
          acknowledged_hash = actual\<rparr>))))"

definition Accept :: "digest_fun \<Rightarrow> nat \<Rightarrow> accepted_operation \<Rightarrow> string \<Rightarrow> projection \<Rightarrow> client_error + projection" where
  "Accept H procs acc hash p =
     sum_bind (acknowledgedMapHash H procs p) (\<lambda>_.
     acceptWithVerifiedCurrent H procs acc hash (cloneProjection p))"

definition cloneTiles :: "tile list \<Rightarrow> tile list" where
  "cloneTiles ts = map (\<lambda>t. \<lparr>tile_coord = tile_coord t, tile_st = CloneTileState (tile_st t)\<rparr>) ts"

text \<open>The draft of a rejection is the last pending operation of that identity.\<close>

definition rejectWithHashMode ::
  "rejection \<Rightarrow> client_error + string \<Rightarrow> bool \<Rightarrow> projection \<Rightarrow> client_error + projection \<times> conflict" where
  "rejectWithHashMode r acknowledged_text clone p =
     sum_bind acknowledged_text (\<lambda>hash.
     sum_bind (guard (rj_revision r \<noteq> snap_revision (acknowledged p) \<or> rj_map_hash r \<noteq> hash) RejectionMismatch) (\<lambda>_.
     let found = filter (\<lambda>op. op_id op = rj_operation r) (pending_ops p) in
     sum_bind (guard (found = []) (NotPending (rj_operation r))) (\<lambda>_.
     Inr (\<lparr>acknowledged = (if clone then CloneSnapshot (acknowledged p) else acknowledged p),
           pending_ops = map CloneOperation (drop_operation (rj_operation r) (pending_ops p)),
           acknowledged_hash = hash\<rparr>,
          \<lparr>cf_operation = rj_operation r, cf_draft = CloneOperation (last found), cf_code = rj_code r,
           cf_message = ServerMessage (rj_message r), cf_revision = rj_revision r, cf_map_hash = rj_map_hash r,
           cf_values = cloneTiles (rj_values r)\<rparr>))))"

definition Reject :: "digest_fun \<Rightarrow> nat \<Rightarrow> rejection \<Rightarrow> projection \<Rightarrow> client_error + projection \<times> conflict" where
  "Reject H procs r p = rejectWithHashMode r (acknowledgedMapHash H procs p) True p"

end
