(* ===== verification/Client_State.thy ===== *)
theory Client_State
  imports Client_Projection Replay_Size
begin

text \<open>
  The state a network executor keeps (client/executor.go, client/presentation.go,
  client/projection_updates.go): the projection with its indexes, the retained history and drafts,
  the admission of local edits, and what is published to the editor. A channel of capacity one is an
  option; \<open>answers\<close> lists what was sent on the result channels. Which goroutine waits, and the
  callbacks of \<^verbatim>\<open>ExecuteAsync\<close>, are not part of the state.
\<close>

section \<open>Captures and updates\<close>

record projection_capture =
  pc_tile_indexes :: "(coord \<rightharpoonup> nat) option"
  pc_visible_tiles :: "coord \<rightharpoonup> tile_state"
  pc_visible_coords :: "coord list"
  pc_projection :: projection
  pc_map_hash :: string
  pc_has_pending :: bool

record projection_update =
  up_capture :: projection_capture
  up_coords :: "coord list"
  up_full :: bool

record published =
  pb_capture :: projection_capture
  pb_conflicts :: "conflict list"

record presentation_update =
  pr_sequence :: u64
  pr_document :: document_id
  pr_environment :: string
  pr_revision :: revision
  pr_map_hash :: string
  pr_authoritative :: "tile list"
  pr_display :: "tile list"
  pr_replacement :: "snapshot option"

definition HasPending :: "projection_capture \<Rightarrow> bool" where
  "HasPending cap \<longleftrightarrow> pc_has_pending cap \<or> pending_ops (pc_projection cap) \<noteq> []"

definition BaseRevision :: "projection_capture \<Rightarrow> revision" where
  "BaseRevision cap = snap_revision (acknowledged (pc_projection cap))"

definition AcceptedSnapshot :: "projection_capture \<Rightarrow> snapshot" where
  "AcceptedSnapshot cap = CloneSnapshot (acknowledged (pc_projection cap))"

definition capture_index :: "projection_capture \<Rightarrow> coord \<Rightarrow> nat option" where
  "capture_index cap c = (case pc_tile_indexes cap of None \<Rightarrow> None | Some m \<Rightarrow> m c)"

definition AcceptedTile :: "projection_capture \<Rightarrow> coord \<Rightarrow> tile_state option" where
  "AcceptedTile cap c =
     (case capture_index cap c of
        None \<Rightarrow> None
      | Some i \<Rightarrow> Some (CloneTileState (tile_st (tiles (acknowledged (pc_projection cap)) ! i))))"

definition VisibleSnapshot :: "digest_fun \<Rightarrow> nat \<Rightarrow> projection_capture \<Rightarrow> snapshot" where
  "VisibleSnapshot H procs cap =
     (case pc_tile_indexes cap of
        None \<Rightarrow> Visible H procs (pc_projection cap)
      | Some indexes \<Rightarrow>
          foldl (\<lambda>v c. let state = CloneTileState (state_at (pc_visible_tiles cap) c) in
              case indexes c of
                Some i \<Rightarrow> v\<lparr>tiles := set_tile i state (tiles v)\<rparr>
              | None \<Rightarrow> v\<lparr>tiles := tiles v @ [\<lparr>tile_coord = c, tile_st = state\<rparr>]\<rparr>)
            (AcceptedSnapshot cap) (pc_visible_coords cap))"

definition VisibleTile :: "projection_capture \<Rightarrow> coord \<Rightarrow> tile_state option" where
  "VisibleTile cap c =
     (case pc_visible_tiles cap c of Some st \<Rightarrow> Some (CloneTileState st) | None \<Rightarrow> AcceptedTile cap c)"

definition OperationBase :: "projection_capture \<Rightarrow> client_error + document_id \<times> revision \<times> string \<times> string" where
  "OperationBase cap =
     (let s = acknowledged (pc_projection cap) in
      if pc_map_hash cap = [] then Inl HashUnavailable
      else Inr (snap_document s, snap_revision s, environment_hash s, pc_map_hash cap))"

definition Coalesce :: "projection_update \<Rightarrow> projection_update \<Rightarrow> projection_update" where
  "Coalesce newer older =
     (if up_full newer \<or> up_full older then newer\<lparr>up_full := True, up_coords := []\<rparr>
      else newer\<lparr>up_coords := sorted_list_of_set (set (up_coords newer) \<union> set (up_coords older))\<rparr>)"

section \<open>Sizes of operations\<close>

definition estimateCaptureAdd :: "u64 \<Rightarrow> u64 \<Rightarrow> u64" where
  "estimateCaptureAdd a b = (if b > - 1 - a then - 1 else a + b)"

function jsonUnsignedBytes :: "u64 \<Rightarrow> u64" where
  "jsonUnsignedBytes n = (if n < 10 then 1 else 1 + jsonUnsignedBytes (n div 10))"
  by pat_completeness auto
termination
proof (relation "measure unat")
  fix n :: u64
  assume "\<not> n < 10"
  then have "unat n div 10 < unat n" by (simp add: word_less_nat_alt)
  then show "(n div 10, n) \<in> measure unat" by (simp add: unat_div)
qed simp

declare jsonUnsignedBytes.simps [simp del]

definition jsonSignedBytes :: "int \<Rightarrow> u64" where
  "jsonSignedBytes i = (if i < 0 then 1 + jsonUnsignedBytes (of_int (- (i + 1)) + 1) else jsonUnsignedBytes (of_int i))"

function json_escapes :: "nat list \<Rightarrow> u64 \<Rightarrow> u64" where
  "json_escapes [] total_size = total_size"
| "json_escapes (b # bs) total_size =
     (if b < 128 then
        json_escapes bs
          (if b = 34 \<or> b = 92 \<or> b = 8 \<or> b = 12 \<or> b = 10 \<or> b = 13 \<or> b = 9 then estimateCaptureAdd total_size 1
           else if b = 60 \<or> b = 62 \<or> b = 38 then estimateCaptureAdd total_size 5
           else if b < 32 then estimateCaptureAdd total_size 5 else total_size)
      else case decode_rune (b # bs) of (r, n) \<Rightarrow>
        json_escapes (drop (n - 1) bs)
          (if r = 65533 \<and> n = 1 then estimateCaptureAdd total_size 5
           else if r = 8232 \<or> r = 8233 then estimateCaptureAdd total_size 3 else total_size))"
  by pat_completeness auto
termination
  by (relation "measure (\<lambda>(bs, _). length bs)") auto

definition jsonStringBytes :: "string \<Rightarrow> u64" where
  "jsonStringBytes s = json_escapes (string_codes s) (of_nat (length s) + 2)"

definition prefab_bytes :: "u64 \<Rightarrow> prefab_state \<Rightarrow> u64" where
  "prefab_bytes n p =
     (let n1 = estimateCaptureAdd n (of_nat (length ''{Xstable_idX:,XpathX:,XvarsX:}''));
          n2 = estimateCaptureAdd n1 (jsonStringBytes (prefab_id p));
          n3 = estimateCaptureAdd n2 (jsonStringBytes (prefab_path p)) in
      case prefab_vars p of
        None \<Rightarrow> estimateCaptureAdd n3 4
      | Some m \<Rightarrow>
          let n4 = estimateCaptureAdd n3 2;
              n5 = (if map_len m > 0 then estimateCaptureAdd n4 (of_nat (map_len m - 1)) else n4) in
          foldl (\<lambda>n (name, v). estimateCaptureAdd (estimateCaptureAdd (estimateCaptureAdd n 1) (jsonStringBytes name))
              (jsonStringBytes v)) n5 (map_entries m))"

fun prefabs_bytes :: "bool \<Rightarrow> u64 \<Rightarrow> prefab_state list \<Rightarrow> u64" where
  "prefabs_bytes first n [] = n"
| "prefabs_bytes first n (p # ps) =
     prefabs_bytes False (prefab_bytes (if first then n else estimateCaptureAdd n 1) p) ps"

definition tileStateJSONBytes :: "tile_state \<Rightarrow> u64" where
  "tileStateJSONBytes st =
     (let n = of_nat (length ''{XprefabsX:}'') in
      case prefabs st of None \<Rightarrow> n + 4 | Some ps \<Rightarrow> prefabs_bytes True (n + 2) ps)"

definition change_bytes :: "u64 \<Rightarrow> tile_change \<Rightarrow> u64" where
  "change_bytes n ch =
     (let n1 = estimateCaptureAdd n (of_nat (length ''{XcoordX:,XbeforeX:,XafterX:}'' + length ''{XxX:,XyX:,XzX:}''));
          n2 = foldl (\<lambda>n i. estimateCaptureAdd n (jsonSignedBytes i)) n1 [cX (ch_coord ch), cY (ch_coord ch), cZ (ch_coord ch)] in
      estimateCaptureAdd (estimateCaptureAdd n2 (tileStateJSONBytes (before ch))) (tileStateJSONBytes (after ch)))"

fun changes_bytes :: "bool \<Rightarrow> u64 \<Rightarrow> tile_change list \<Rightarrow> u64" where
  "changes_bytes first n [] = n"
| "changes_bytes first n (ch # chs) =
     changes_bytes False (change_bytes (if first then n else estimateCaptureAdd n 1) ch) chs"

text \<open>The JSON text between the values, with an \<^verbatim>\<open>X\<close> for each quotation mark. Operations
  with no change list and with an empty one are not told apart; the smaller size is taken.\<close>

definition operation_frame :: string where
  "operation_frame = ''{Xprotocol_versionX:,Xdocument_idX:,Xactor_idX:,Xoperation_idX:,Xbase_revisionX:,Xenvironment_hashX:,Xbase_map_hashX:,XkindX:,XchangesX:}''"

definition operationAdmissionBytes :: "operation \<Rightarrow> u64" where
  "operationAdmissionBytes op =
     (let n0 = of_nat (length operation_frame);
          n1 = estimateCaptureAdd n0 (jsonUnsignedBytes (ucast (op_protocol op)));
          n2 = estimateCaptureAdd n1 (jsonUnsignedBytes (base_revision op));
          n3 = foldl (\<lambda>n s. estimateCaptureAdd n (jsonStringBytes s)) n2
                 [op_document op, op_actor op, op_id op, op_environment op, base_map_hash op, kind_text (op_kind op)];
          n4 = (case inverse_of op of None \<Rightarrow> n3
                | Some i \<Rightarrow> estimateCaptureAdd (estimateCaptureAdd n3 (of_nat (length '',Xinverse_ofX:''))) (jsonStringBytes i)) in
      changes_bytes True (estimateCaptureAdd n4 2) (changes op))"

section \<open>The executor\<close>

definition maxLocalAdmissionCount :: nat where "maxLocalAdmissionCount = 64"
definition maxLocalAdmissionBytes :: u64 where "maxLocalAdmissionBytes = 268435456"

record publication =
  pu_sequence :: u64
  pu_ready :: bool
  pu_authoritative :: "coord \<rightharpoonup> tile_state"
  pu_display :: "coord \<rightharpoonup> tile_state"
  pu_replacement :: "snapshot option"
  local_admissions :: nat
  local_bytes :: u64
  queued_admission :: "(u64, operation) fmap"
  admission_error :: "client_error option"
  interrupted_before :: u64
  pending_admission :: "(operation_id, u64) fmap"
  pending_bytes :: u64
  next_dispatch :: u64
  dispatch_turn :: u64

definition newPublicationState :: publication where
  "newPublicationState =
     \<lparr>pu_sequence = 0, pu_ready = False, pu_authoritative = Map.empty, pu_display = Map.empty, pu_replacement = None,
      local_admissions = 0, local_bytes = 0, queued_admission = fmempty, admission_error = None,
      interrupted_before = 0, pending_admission = fmempty, pending_bytes = 0, next_dispatch = 0, dispatch_turn = 0\<rparr>"

record network =
  nw_actor :: actor_id
  nw_projection :: projection
  nw_tile_indexes :: "coord \<rightharpoonup> nat"
  nw_hasher :: "hasher option"
  nw_visible_tiles :: "coord \<rightharpoonup> tile_state"
  nw_visible_coords :: "coord list"
  nw_changes :: "projection_update option"
  published_delta :: projection_capture
  conflict_rebuilds :: "operation_id set"
  nw_waiters :: "operation_id list"
  nw_answers :: "(operation_id \<times> (client_error + accepted_operation)) list"
  nw_accepted :: "operation_id \<rightharpoonup> accepted_operation"
  nw_hashes :: "operation_id \<rightharpoonup> string"
  nw_receipts :: "operation_id \<rightharpoonup> bytes"
  verified_history :: "(revision, string) fmap"
  nw_conflicts :: "conflict list"
  conflicts_dirty :: bool
  nw_updates :: "projection option"
  legacy_updates :: bool
  nw_terminal :: "client_error option"
  nw_suspended :: "client_error option"
  nw_publication :: publication
  nw_published :: "published option"
  authority_tiles :: "coord \<rightharpoonup> tile_state"
  authority_owners :: "stable_id \<rightharpoonup> coord"

end
