(* ===== verification/Client_Executor.thy ===== *)
theory Client_Executor
  imports Client_State
begin

text \<open>
  The operations of the network executor (client/indexed_executor.go, client/executor.go,
  client/presentation.go, client/projection_updates.go). Each section that holds the executor's mutex
  is one function on its state; what runs between two such sections (the transport, the wait for an
  answer, the callbacks) is not modelled, and decoding a server message is its argument.
\<close>

section \<open>Indexes of the acknowledged map\<close>

definition buildAuthorityIndex :: "snapshot \<Rightarrow> (coord \<rightharpoonup> tile_state) \<times> (stable_id \<rightharpoonup> coord)" where
  "buildAuthorityIndex s =
     (foldl (\<lambda>m t. m(tile_coord t \<mapsto> tile_st t)) Map.empty (tiles s),
      foldl (\<lambda>m t. own_ids (tile_coord t) (tile_st t) m) Map.empty (tiles s))"

definition indexAcknowledgedLocked :: "string \<Rightarrow> network \<Rightarrow> network" where
  "indexAcknowledgedLocked hash nw =
     (let p = nw_projection nw; index = buildAuthorityIndex (acknowledged p) in
      nw\<lparr>nw_projection := p\<lparr>acknowledged_hash := hash\<rparr>, nw_hasher := None,
         nw_tile_indexes := index_from (tiles (acknowledged p)) 0 Map.empty,
         authority_tiles := fst index, authority_owners := snd index\<rparr>)"

definition acknowledgedTileLocked :: "network \<Rightarrow> coord \<Rightarrow> tile_state" where
  "acknowledgedTileLocked nw c =
     (case nw_tile_indexes nw c of
        Some i \<Rightarrow> tile_st (tiles (acknowledged (nw_projection nw)) ! i)
      | None \<Rightarrow> empty_tile)"

section \<open>The sparse overlay\<close>

record projection_overlay =
  ov_tiles :: "coord \<rightharpoonup> tile_state"
  ov_owners :: "stable_id \<rightharpoonup> coord"
  ov_coords :: "coord list"

definition empty_overlay :: projection_overlay where
  "empty_overlay = \<lparr>ov_tiles = Map.empty, ov_owners = Map.empty, ov_coords = []\<rparr>"

definition overlay_tile :: "network \<Rightarrow> projection_overlay \<Rightarrow> coord \<Rightarrow> tile_state" where
  "overlay_tile nw ov c = (case ov_tiles ov c of Some st \<Rightarrow> st | None \<Rightarrow> acknowledgedTileLocked nw c)"

definition coord_of :: "coord option \<Rightarrow> coord" where
  "coord_of r = (case r of Some c \<Rightarrow> c | None \<Rightarrow> zero_coord)"

definition overlay_owner :: "network \<Rightarrow> projection_overlay \<Rightarrow> stable_id \<Rightarrow> coord option" where
  "overlay_owner nw ov i =
     (let owner = (case ov_owners ov i of Some c \<Rightarrow> c | None \<Rightarrow> coord_of (authority_owners nw i)) in
      if owner \<noteq> zero_coord then Some owner else None)"

definition overlay_errors :: "change_error scan_errors" where
  "overlay_errors = \<lparr>on_duplicate = DuplicateOrOutside, on_outside = DuplicateOrOutside,
     on_precondition = ChangePrecondition, on_id = ChangeID, on_reused = ChangeReusesID, on_owned = ChangeTakesID\<rparr>"

definition overlay_install :: "network \<Rightarrow> tile_change list \<Rightarrow> projection_overlay \<Rightarrow> projection_overlay" where
  "overlay_install nw chs ov =
     (let released = ov\<lparr>ov_owners := foldl (\<lambda>m ch. own_ids zero_coord (overlay_tile nw ov (ch_coord ch)) m)
          (ov_owners ov) chs\<rparr> in
      foldl (\<lambda>ov ch. ov\<lparr>ov_coords := (if ov_tiles ov (ch_coord ch) = None then ov_coords ov @ [ch_coord ch] else ov_coords ov),
          ov_tiles := (ov_tiles ov)(ch_coord ch \<mapsto> after ch),
          ov_owners := own_ids (ch_coord ch) (after ch) (ov_owners ov)\<rparr>) released chs)"

definition overlay_apply :: "network \<Rightarrow> operation \<Rightarrow> projection_overlay \<Rightarrow> change_error + projection_overlay" where
  "overlay_apply nw op ov =
     sum_bind (scan overlay_errors (Contains (acknowledged (nw_projection nw))) (overlay_tile nw ov) StableID_Validate
       (overlay_owner nw ov) (changes op)) (\<lambda>_.
     Inr (overlay_install nw (changes op) ov))"

definition rebuildVisibleLocked :: "network \<Rightarrow> network" where
  "rebuildVisibleLocked nw =
     (let ov = foldl (\<lambda>ov op. case overlay_apply nw op ov of Inl _ \<Rightarrow> ov | Inr ov' \<Rightarrow> ov') empty_overlay
          (pending_ops (nw_projection nw)) in
      nw\<lparr>nw_visible_tiles := ov_tiles ov, nw_visible_coords := ov_coords ov\<rparr>)"

section \<open>Submitting\<close>

definition submitProjectionLocked :: "digest_fun \<Rightarrow> nat \<Rightarrow> operation \<Rightarrow> network \<Rightarrow> client_error + network" where
  "submitProjectionLocked H procs op nw =
     (let p = nw_projection nw;
          verified = verifiedMapHash H procs p;
          base = (if base_revision op = snap_revision (acknowledged p) then sum_text verified
                  else case fmlookup (verified_history nw) (base_revision op) of Some h \<Rightarrow> h | None \<Rightarrow> []) in
      sum_bind (guard (base_revision op > snap_revision (acknowledged p) \<or> base \<noteq> base_map_hash op) BaseUnverified) (\<lambda>_.
      sum_bind (submitWithVerifiedOverlay op verified (authority_tiles nw) (authority_owners nw) p) (\<lambda>p'.
      Inr (rebuildVisibleLocked (nw\<lparr>nw_projection := p'\<rparr>)))))"

section \<open>Accepting\<close>

fun accept_tiles :: "tile_change list \<Rightarrow> (coord \<rightharpoonup> nat) \<Rightarrow> tile list \<Rightarrow> (coord \<rightharpoonup> nat) \<times> tile list" where
  "accept_tiles [] indexes ts = (indexes, ts)"
| "accept_tiles (ch # chs) indexes ts =
     (let state = CloneTileState (after ch) in
      case indexes (ch_coord ch) of
        Some i \<Rightarrow> accept_tiles chs indexes (set_tile i state ts)
      | None \<Rightarrow> accept_tiles chs (indexes(ch_coord ch \<mapsto> length ts))
                  (ts @ [\<lparr>tile_coord = ch_coord ch, tile_st = state\<rparr>]))"

definition applyAuthorityChanges :: "tile_change list \<Rightarrow> network \<Rightarrow> network" where
  "applyAuthorityChanges chs nw =
     (let released = nw\<lparr>authority_owners := foldl (\<lambda>m ch. case authority_tiles nw (ch_coord ch) of
            Some st \<Rightarrow> release_ids st m | None \<Rightarrow> m) (authority_owners nw) chs\<rparr> in
      foldl (\<lambda>nw ch. let state = acknowledgedTileLocked nw (ch_coord ch) in
          nw\<lparr>authority_tiles := (authority_tiles nw)(ch_coord ch \<mapsto> state),
             authority_owners := own_ids (ch_coord ch) state (authority_owners nw)\<rparr>) released chs)"

definition acceptProjectionLocked ::
  "digest_fun \<Rightarrow> nat \<Rightarrow> accepted_operation \<Rightarrow> string \<Rightarrow> network \<Rightarrow> client_error + network" where
  "acceptProjectionLocked H procs acc hash nw =
     (let base = acknowledged (nw_projection nw); chs = changes (acc_op acc) in
      sum_bind (guard (acc_revision acc \<noteq> snap_revision base + 1)
        (UnexpectedRevision (acc_revision acc) (snap_revision base + 1))) (\<lambda>_.
      sum_bind (check (ValidateSHA256 ''authoritative map hash'' hash) BadModel) (\<lambda>_.
      sum_bind (guard (op_document (acc_op acc) \<noteq> snap_document base \<or> op_environment (acc_op acc) \<noteq> environment_hash base)
        IncompatibleAcceptance) (\<lambda>_.
      case overlay_apply nw (acc_op acc) empty_overlay of
        Inl e \<Rightarrow> Inl (AcceptedFailure e)
      | Inr _ \<Rightarrow>
          (case accept_tiles chs (nw_tile_indexes nw) (tiles base) of (indexes, ts) \<Rightarrow>
          let next = base\<lparr>tiles := ts, snap_revision := acc_revision acc\<rparr>;
              hasher = (if Hasher_Digest (nw_hasher nw) \<noteq> acknowledged_hash (nw_projection nw) then None else nw_hasher nw) in
          sum_bind (lift_model (Hasher_Update H procs hasher next indexes (map ch_coord chs))) (\<lambda>(nextHasher, actual).
          sum_bind (guard (actual \<noteq> hash) (MapHashMismatch (acc_revision acc))) (\<lambda>_.
          Inr (rebuildVisibleLocked (applyAuthorityChanges chs
            (nw\<lparr>nw_projection := \<lparr>acknowledged = next,
                  pending_ops = drop_operation (op_id (acc_op acc)) (pending_ops (nw_projection nw)),
                  acknowledged_hash = hash\<rparr>,
                nw_tile_indexes := indexes, nw_hasher := Some nextHasher\<rparr>))))))))))"

definition rejectProjectionLocked ::
  "digest_fun \<Rightarrow> nat \<Rightarrow> rejection \<Rightarrow> network \<Rightarrow> client_error + conflict \<times> network" where
  "rejectProjectionLocked H procs r nw =
     sum_bind (rejectWithHashMode r (verifiedMapHash H procs (nw_projection nw)) False (nw_projection nw)) (\<lambda>(p, conflict).
     Inr (conflict, rebuildVisibleLocked (nw\<lparr>nw_projection := p\<rparr>)))"

section \<open>Publication\<close>

definition captureProjectionLocked :: "network \<Rightarrow> projection_capture" where
  "captureProjectionLocked nw =
     \<lparr>pc_tile_indexes = Some (nw_tile_indexes nw), pc_visible_tiles = nw_visible_tiles nw,
      pc_visible_coords = nw_visible_coords nw, pc_projection = nw_projection nw,
      pc_map_hash = acknowledged_hash (nw_projection nw), pc_has_pending = False\<rparr>"

definition publishCaptureLocked :: "network \<Rightarrow> network" where
  "publishCaptureLocked nw =
     (let pu = nw_publication nw;
          prior = (case nw_published nw of Some pb \<Rightarrow> pb_conflicts pb | None \<Rightarrow> []) in
      nw\<lparr>conflicts_dirty := False,
         nw_published := Some
           \<lparr>pb_capture = (captureProjectionLocked nw)\<lparr>pc_has_pending := pending_ops (nw_projection nw) \<noteq> [] \<or>
               local_admissions pu \<noteq> 0 \<or> map_len (pending_admission pu) \<noteq> 0\<rparr>,
            pb_conflicts = (if conflicts_dirty nw then nw_conflicts nw else prior)\<rparr>\<rparr>)"

definition publishAdmissionMetadataLocked :: "network \<Rightarrow> network" where
  "publishAdmissionMetadataLocked nw =
     (case nw_published nw of
        None \<Rightarrow> nw
      | Some pb \<Rightarrow> nw\<lparr>nw_published := Some (pb\<lparr>pb_capture := (pb_capture pb)\<lparr>pc_has_pending := True\<rparr>\<rparr>)\<rparr>)"

definition publishChangesLocked :: "tile_change list \<Rightarrow> network \<Rightarrow> network" where
  "publishChangesLocked chs nw =
     (let current = captureProjectionLocked nw; prior = published_delta nw;
          full = (BaseRevision current \<noteq> BaseRevision prior \<and> chs = []);
          update = (if full then \<lparr>up_capture = current, up_coords = [], up_full = True\<rparr>
            else Coalesce \<lparr>up_capture = current, up_coords = map ch_coord chs @ pc_visible_coords current, up_full = False\<rparr>
                   \<lparr>up_capture = prior, up_coords = pc_visible_coords prior, up_full = False\<rparr>) in
      nw\<lparr>published_delta := current,
         nw_changes := Some (case nw_changes nw of Some older \<Rightarrow> Coalesce update older | None \<Rightarrow> update)\<rparr>)"

definition publishLegacyLocked :: "network \<Rightarrow> network" where
  "publishLegacyLocked nw =
     (if legacy_updates nw then nw\<lparr>nw_updates := Some (cloneProjection (nw_projection nw))\<rparr> else nw)"

definition authorityTileState :: "network \<Rightarrow> coord \<Rightarrow> tile_state" where
  "authorityTileState nw c = (case authority_tiles nw c of Some st \<Rightarrow> CloneTileState st | None \<Rightarrow> empty_tile)"

text \<open>The owners as they were before a batch of authoritative changes.\<close>

definition before_owners :: "tile_change list \<Rightarrow> (stable_id \<rightharpoonup> effective_owner)" where
  "before_owners chs =
     (let ids = foldl (\<lambda>m ch. own_ids (ch_coord ch) (before ch) m) Map.empty chs;
          present = foldl (\<lambda>m ch. set_owners (ch_coord ch) True (before ch) m) Map.empty chs in
      foldl (\<lambda>m ch. foldl (\<lambda>m p. m(prefab_id p \<mapsto> (case ids (prefab_id p) of
            Some c \<Rightarrow> \<lparr>eo_coord = c, eo_present = True\<rparr>
          | None \<Rightarrow> \<lparr>eo_coord = zero_coord, eo_present = False\<rparr>))) m (prefab_list (after ch))) present chs)"

definition beginPublicationLocked ::
  "projection \<Rightarrow> projection \<Rightarrow> tile_change list \<Rightarrow> coord list \<Rightarrow> bool \<Rightarrow> network \<Rightarrow> network" where
  "beginPublicationLocked previous next chs explicit force nw =
     (let coords = ch_coord ` set chs \<union> set explicit \<union> op_coords (pending_ops previous) \<union> op_coords (pending_ops next);
          before_states = effectiveProjectionStates previous (authority_tiles nw) (authority_owners nw) coords
            (foldl (\<lambda>m ch. m(ch_coord ch \<mapsto> CloneTileState (before ch))) Map.empty chs) (before_owners chs);
          after_states = effectiveProjectionStates next (authority_tiles nw) (authority_owners nw) coords Map.empty Map.empty;
          authoritative = (\<lambda>c. if c \<in> ch_coord ` set chs then Some (authorityTileState nw c) else None);
          display = (\<lambda>c. if c \<in> coords \<and> (force \<or> \<not> TileState_Equal (state_at before_states c) (state_at after_states c))
            then Some (CloneTileState (state_at after_states c)) else None);
          pu = nw_publication nw;
          nw1 = publishCaptureLocked (nw\<lparr>nw_publication := pu\<lparr>pu_sequence := pu_sequence pu + 1, pu_ready := True,
            pu_authoritative := pu_authoritative pu ++ authoritative, pu_display := pu_display pu ++ display,
            pu_replacement := (case pu_replacement pu of None \<Rightarrow> None | Some _ \<Rightarrow> Some (CloneSnapshot (acknowledged next)))\<rparr>\<rparr>)
      in publishLegacyLocked (publishChangesLocked chs nw1))"

definition beginMetadataPublicationLocked :: "network \<Rightarrow> network" where
  "beginMetadataPublicationLocked nw =
     (let pu = nw_publication nw in
      publishCaptureLocked (nw\<lparr>nw_publication := pu\<lparr>pu_sequence := pu_sequence pu + 1, pu_ready := True\<rparr>\<rparr>))"

definition beginReplacementPublicationLocked :: "snapshot \<Rightarrow> network \<Rightarrow> network" where
  "beginReplacementPublicationLocked s nw =
     (let pu = nw_publication nw in
      publishLegacyLocked (publishChangesLocked [] (publishCaptureLocked
        (nw\<lparr>nw_publication := pu\<lparr>pu_sequence := pu_sequence pu + 1, pu_ready := True,
            pu_authoritative := Map.empty, pu_display := Map.empty, pu_replacement := Some (CloneSnapshot s)\<rparr>\<rparr>))))"

text \<open>The tiles of a finite table in the order of their coordinates.\<close>

definition takeTiles :: "(coord \<rightharpoonup> tile_state) \<Rightarrow> tile list" where
  "takeTiles source =
     map (\<lambda>c. \<lparr>tile_coord = c, tile_st = CloneTileState (state_at source c)\<rparr>) (sorted_list_of_set (dom source))"

definition TakePresentationUpdate :: "network \<Rightarrow> presentation_update option \<times> network" where
  "TakePresentationUpdate nw =
     (let pu = nw_publication nw in
      if local_admissions pu \<noteq> 0 \<or> \<not> pu_ready pu then (None, nw)
      else case nw_published nw of
          None \<Rightarrow> (None, nw)
        | Some pb \<Rightarrow>
            let s = acknowledged (pc_projection (pb_capture pb)) in
            (Some \<lparr>pr_sequence = pu_sequence pu, pr_document = snap_document s, pr_environment = environment_hash s,
                   pr_revision = snap_revision s, pr_map_hash = pc_map_hash (pb_capture pb),
                   pr_authoritative = takeTiles (pu_authoritative pu), pr_display = takeTiles (pu_display pu),
                   pr_replacement = map_option CloneSnapshot (pu_replacement pu)\<rparr>,
             nw\<lparr>nw_publication := pu\<lparr>pu_authoritative := Map.empty, pu_display := Map.empty, pu_replacement := None,
                pu_ready := False\<rparr>\<rparr>))"

definition HasPresentationUpdate :: "network \<Rightarrow> bool" where
  "HasPresentationUpdate nw \<longleftrightarrow> local_admissions (nw_publication nw) \<noteq> 0 \<or> pu_ready (nw_publication nw)"

definition ProjectionUpdates :: "network \<Rightarrow> network" where
  "ProjectionUpdates nw =
     (if legacy_updates nw then nw else publishLegacyLocked (nw\<lparr>legacy_updates := True\<rparr>))"

section \<open>Drafts\<close>

definition cloneConflict :: "conflict \<Rightarrow> conflict" where
  "cloneConflict cf = cf\<lparr>cf_draft := CloneOperation (cf_draft cf), cf_values := cloneTiles (cf_values cf)\<rparr>"

fun conflict_from :: "nat \<Rightarrow> operation_id \<Rightarrow> conflict list \<Rightarrow> nat option" where
  "conflict_from n i [] = None"
| "conflict_from n i (cf # cfs) = (if cf_operation cf = i then Some n else conflict_from (Suc n) i cfs)"

definition conflictLocked :: "network \<Rightarrow> operation_id \<Rightarrow> nat option" where
  "conflictLocked nw i = conflict_from 0 i (nw_conflicts nw)"

definition retainConflictLocked :: "conflict \<Rightarrow> network \<Rightarrow> network" where
  "retainConflictLocked cf nw =
     (if conflictLocked nw (cf_operation cf) \<noteq> None then nw
      else nw\<lparr>nw_conflicts := nw_conflicts nw @ [cloneConflict cf], conflicts_dirty := True\<rparr>)"

definition delete_conflict :: "nat \<Rightarrow> network \<Rightarrow> network" where
  "delete_conflict n nw =
     nw\<lparr>nw_conflicts := take n (nw_conflicts nw) @ drop (Suc n) (nw_conflicts nw), conflicts_dirty := True\<rparr>"

definition conflictDeliveryUnconfirmed :: string where
  "conflictDeliveryUnconfirmed = ''delivery_unconfirmed''"

definition submission_failed :: string where
  "submission_failed = ''submission_failed''"

definition retainUnsentLocked :: "digest_fun \<Rightarrow> nat \<Rightarrow> operation \<Rightarrow> client_error \<Rightarrow> network \<Rightarrow> network" where
  "retainUnsentLocked H procs op cause nw =
     (let s = acknowledged (nw_projection nw) in
      if nw_accepted nw (op_id op) \<noteq> None \<or> nw_receipts nw (op_id op) \<noteq> None then nw
      else if op_protocol op \<noteq> protocol_version s \<or> op_document op \<noteq> snap_document s \<or>
          op_environment op \<noteq> environment_hash s \<or> OperationID_Validate (op_id op) \<noteq> None then nw
      else case verifiedMapHash H procs (nw_projection nw) of
          Inl _ \<Rightarrow> nw
        | Inr hash \<Rightarrow> retainConflictLocked
            \<lparr>cf_operation = op_id op, cf_draft = op, cf_code = submission_failed, cf_message = ErrorMessage cause,
             cf_revision = snap_revision s, cf_map_hash = hash, cf_values = []\<rparr> nw)"

definition CaptureProjection :: "ctx \<Rightarrow> network \<Rightarrow> client_error + projection_capture" where
  "CaptureProjection c nw =
     (if ctx_poll c = None then Inl ClientCanceled
      else case nw_published nw of None \<Rightarrow> Inl ExecutorTerminated | Some pb \<Rightarrow> Inr (pb_capture pb))"

definition Conflicts :: "network \<Rightarrow> conflict list" where
  "Conflicts nw = (case nw_published nw of None \<Rightarrow> [] | Some pb \<Rightarrow> map cloneConflict (pb_conflicts pb))"

definition client_poll :: "ctx \<Rightarrow> client_error + ctx" where
  "client_poll c = (case ctx_poll c of None \<Rightarrow> Inl ClientCanceled | Some c' \<Rightarrow> Inr c')"

definition RefreshConflict :: "ctx \<Rightarrow> operation_id \<Rightarrow> network \<Rightarrow> client_error + projection_capture" where
  "RefreshConflict c i nw =
     sum_bind (client_poll c) (\<lambda>c'.
     sum_bind (guard (conflictLocked nw i = None) (ConflictNotRetained i)) (\<lambda>_. CaptureProjection c' nw))"

definition DiscardConflict ::
  "ctx \<Rightarrow> operation_id \<Rightarrow> network \<Rightarrow> client_error + projection_capture \<times> network" where
  "DiscardConflict c i nw =
     sum_bind (client_poll c) (\<lambda>c'.
     sum_bind (guard (i \<in> conflict_rebuilds nw) ConflictRebuilding) (\<lambda>_.
     case conflictLocked nw i of
       None \<Rightarrow> Inl (ConflictNotRetained i)
     | Some n \<Rightarrow> sum_bind (CaptureProjection c' nw) (\<lambda>capture.
         Inr (capture, beginMetadataPublicationLocked (delete_conflict n nw)))))"

definition DismissConflict :: "operation_id \<Rightarrow> network \<Rightarrow> bool \<times> network" where
  "DismissConflict i nw =
     (case conflictLocked nw i of
        None \<Rightarrow> (False, nw)
      | Some n \<Rightarrow> (True, beginMetadataPublicationLocked (delete_conflict n nw)))"

text \<open>Claiming a draft for a rebuild and releasing it.\<close>

definition claim_rebuild :: "operation_id \<Rightarrow> network \<Rightarrow> client_error option \<times> network" where
  "claim_rebuild i nw =
     (if i \<in> conflict_rebuilds nw then (Some ConflictRebuilding, nw)
      else (None, nw\<lparr>conflict_rebuilds := insert i (conflict_rebuilds nw)\<rparr>))"

definition release_rebuild :: "operation_id \<Rightarrow> network \<Rightarrow> network" where
  "release_rebuild i nw = nw\<lparr>conflict_rebuilds := conflict_rebuilds nw - {i}\<rparr>"

end
