(* ===== verification/Client_Steps.thy ===== *)
theory Client_Steps
  imports Client_Executor
begin

text \<open>
  The life of an executor (client/executor.go and the admission of client/presentation.go): creation,
  the admission and submission of local edits, the messages of the server, interruption, resumption
  and the replacement of the acknowledged map.
\<close>

section \<open>Creation\<close>

definition NewNetworkExecutor :: "digest_fun \<Rightarrow> nat \<Rightarrow> bool \<Rightarrow> snapshot \<Rightarrow> actor_id \<Rightarrow> string \<Rightarrow> client_error + network" where
  "NewNetworkExecutor H procs nil_transport s actor session =
     sum_bind (guard nil_transport NilTransport) (\<lambda>_.
     sum_bind (lift_model (NewCanonicalHasher H procs s)) (\<lambda>hasher.
     let snapshotHash = Hasher_Digest (Some hasher) in
     sum_bind (check (ActorID_Validate actor) (\<lambda>e. BadModel (IdError e))) (\<lambda>_.
     sum_bind (guard (session = []) EmptySession) (\<lambda>_.
     let p = newProjection H procs s snapshotHash;
         blank = \<lparr>pc_tile_indexes = None, pc_visible_tiles = Map.empty, pc_visible_coords = [], pc_projection = p,
           pc_map_hash = [], pc_has_pending = False\<rparr>;
         nw = \<lparr>nw_actor = actor, nw_projection = p, nw_tile_indexes = Map.empty, nw_hasher = None,
           nw_visible_tiles = Map.empty, nw_visible_coords = [], nw_changes = None, published_delta = blank,
           conflict_rebuilds = {}, nw_waiters = [], nw_answers = [], nw_accepted = Map.empty, nw_hashes = Map.empty,
           nw_receipts = Map.empty, verified_history = fmupd (snap_revision s) snapshotHash fmempty,
           nw_conflicts = [], conflicts_dirty = False, nw_updates = None, legacy_updates = False, nw_terminal = None,
           nw_suspended = None, nw_publication = newPublicationState, nw_published = None,
           authority_tiles = Map.empty, authority_owners = Map.empty\<rparr>;
         nw1 = publishCaptureLocked ((indexAcknowledgedLocked snapshotHash nw)\<lparr>nw_hasher := Some hasher\<rparr>);
         delta = captureProjectionLocked nw1
     in Inr (nw1\<lparr>published_delta := delta,
          nw_changes := Some \<lparr>up_capture = delta, up_coords = [], up_full = True\<rparr>\<rparr>)))))"

section \<open>Admission\<close>

definition prepareOperation :: "operation_id \<Rightarrow> operation \<Rightarrow> network \<Rightarrow> operation" where
  "prepareOperation fresh op nw =
     (let op1 = (CloneOperation op)\<lparr>op_actor := nw_actor nw\<rparr> in
      if op_id op1 = [] then op1\<lparr>op_id := fresh\<rparr> else op1)"

definition reserveAdmission :: "operation \<Rightarrow> network \<Rightarrow> (client_error + u64 \<times> u64) \<times> network" where
  "reserveAdmission op nw =
     (let bytes = operationAdmissionBytes op; pu = nw_publication nw in
      case admission_error pu of
        Some e \<Rightarrow> (Inl e, nw)
      | None \<Rightarrow>
          if local_admissions pu + map_len (pending_admission pu) \<ge> maxLocalAdmissionCount \<or>
             bytes > maxLocalAdmissionBytes - (local_bytes pu + pending_bytes pu)
          then (Inl AdmissionFull, nw)
          else let ticket = next_dispatch pu in
            (Inr (ticket, bytes), publishAdmissionMetadataLocked (nw\<lparr>nw_publication :=
               pu\<lparr>next_dispatch := ticket + 1, local_admissions := local_admissions pu + 1,
                  local_bytes := local_bytes pu + bytes,
                  queued_admission := fmupd ticket op (queued_admission pu)\<rparr>\<rparr>)))"

definition subtract_bytes :: "u64 \<Rightarrow> u64 \<Rightarrow> u64" where
  "subtract_bytes bytes held = (if bytes \<le> held then held - bytes else 0)"

definition releasePendingAdmission :: "operation_id \<Rightarrow> network \<Rightarrow> network" where
  "releasePendingAdmission i nw =
     (let pu = nw_publication nw in
      case fmlookup (pending_admission pu) i of
        None \<Rightarrow> nw
      | Some bytes \<Rightarrow> nw\<lparr>nw_publication := pu\<lparr>pending_admission := fmdrop i (pending_admission pu),
          pending_bytes := subtract_bytes bytes (pending_bytes pu)\<rparr>\<rparr>)"

definition finishAdmission :: "operation_id \<Rightarrow> u64 \<Rightarrow> u64 \<Rightarrow> bool \<Rightarrow> network \<Rightarrow> network" where
  "finishAdmission i ticket bytes sent nw =
     (let pu = nw_publication nw;
          pu1 = pu\<lparr>queued_admission := fmdrop ticket (queued_admission pu),
            local_admissions := local_admissions pu - 1,
            local_bytes := subtract_bytes bytes (local_bytes pu)\<rparr>;
          pu2 = (if sent \<and> i \<in> set (nw_waiters nw)
            then pu1\<lparr>pending_admission := fmupd i bytes (pending_admission pu1), pending_bytes := pending_bytes pu1 + bytes\<rparr>
            else pu1);
          pu3 = (if ticket = dispatch_turn pu2 then pu2\<lparr>dispatch_turn := dispatch_turn pu2 + 1\<rparr> else pu2)
      in publishCaptureLocked (nw\<lparr>nw_publication := pu3\<rparr>))"

definition refuseAdmission :: "digest_fun \<Rightarrow> nat \<Rightarrow> operation \<Rightarrow> client_error \<Rightarrow> network \<Rightarrow> network" where
  "refuseAdmission H procs op cause nw =
     (let nw1 = retainUnsentLocked H procs op cause nw in
      beginPublicationLocked (nw_projection nw1) (nw_projection nw1) [] (map ch_coord (changes op)) True nw1)"

text \<open>The locked part of \<^verbatim>\<open>refuseAdmitted\<close>; \<^verbatim>\<open>finishAdmission\<close> follows as a section of its own.\<close>

definition refuseAdmitted :: "digest_fun \<Rightarrow> nat \<Rightarrow> operation \<Rightarrow> client_error \<Rightarrow> u64 \<Rightarrow> network \<Rightarrow> network" where
  "refuseAdmitted H procs op cause ticket nw =
     (let nw1 = (if ticket < interrupted_before (nw_publication nw) then nw
                 else retainUnsentLocked H procs op cause nw) in
      beginPublicationLocked (nw_projection nw1) (nw_projection nw1) [] (map ch_coord (changes op)) True nw1)"

text \<open>The locked part of \<^verbatim>\<open>executeAdmitted\<close>. A failed submission is retained here and then refused.\<close>

definition executeAdmitted :: "digest_fun \<Rightarrow> nat \<Rightarrow> ctx \<Rightarrow> operation \<Rightarrow> u64 \<Rightarrow> network \<Rightarrow> client_error option \<times> network" where
  "executeAdmitted H procs c op ticket nw =
     (if ctx_poll c = None then (Some ClientCanceled, nw)
      else case nw_terminal nw of
        Some e \<Rightarrow> (Some e, nw)
      | None \<Rightarrow>
     (case nw_suspended nw of
        Some e \<Rightarrow> (Some e, nw)
      | None \<Rightarrow>
          if ticket < interrupted_before (nw_publication nw) then (Some AdmissionInterrupted, nw)
          else case submitProjectionLocked H procs op nw of
              Inl e \<Rightarrow> (Some e, retainUnsentLocked H procs op e nw)
            | Inr nw1 \<Rightarrow> (None, beginPublicationLocked (nw_projection nw) (nw_projection nw1) [] [] False
                (nw1\<lparr>nw_waiters := List.insert (op_id op) (nw_waiters nw1)\<rparr>))))"

section \<open>Answers\<close>

text \<open>Removing the waiter of an operation, with its admission.\<close>

definition drop_waiter :: "operation_id \<Rightarrow> network \<Rightarrow> network" where
  "drop_waiter i nw =
     (if i \<in> set (nw_waiters nw)
      then releasePendingAdmission i (nw\<lparr>nw_waiters := remove1 i (nw_waiters nw)\<rparr>) else nw)"

definition failPending :: "digest_fun \<Rightarrow> nat \<Rightarrow> operation_id \<Rightarrow> client_error \<Rightarrow> network \<Rightarrow> network" where
  "failPending H procs i cause nw =
     (if i \<notin> set (nw_waiters nw) then nw
      else let nw1 = drop_waiter i nw;
             previous = nw_projection nw1;
             nw2 = foldl (\<lambda>nw op. if op_id op \<noteq> i then nw else retainUnsentLocked H procs op cause nw) nw1
               (pending_ops previous);
             nw3 = rebuildVisibleLocked (nw2\<lparr>nw_projection := \<lparr>acknowledged = acknowledged previous,
               pending_ops = map CloneOperation (drop_operation i (pending_ops previous)),
               acknowledged_hash = acknowledged_hash previous\<rparr>\<rparr>);
             nw4 = beginPublicationLocked previous (nw_projection nw3) [] [] False nw3
           in nw4\<lparr>nw_answers := nw_answers nw4 @ [(i, Inl cause)]\<rparr>)"

section \<open>Interruption\<close>

definition interrupt_admission :: "client_error \<Rightarrow> network \<Rightarrow> operation list \<times> network" where
  "interrupt_admission cause nw =
     (let pu = nw_publication nw in
      (map snd (map_entries (queued_admission pu)),
       nw\<lparr>nw_publication := pu\<lparr>admission_error := Some cause, interrupted_before := next_dispatch pu,
          queued_admission := fmempty\<rparr>\<rparr>))"

definition retain_unconfirmed :: "string \<Rightarrow> operation \<Rightarrow> network \<Rightarrow> network" where
  "retain_unconfirmed hash op nw =
     retainConflictLocked \<lparr>cf_operation = op_id op, cf_draft = op, cf_code = conflictDeliveryUnconfirmed,
       cf_message = DeliveryEnded, cf_revision = snap_revision (acknowledged (nw_projection nw)),
       cf_map_hash = hash, cf_values = []\<rparr> nw"

definition clearPendingLocked :: "digest_fun \<Rightarrow> nat \<Rightarrow> client_error \<Rightarrow> network \<Rightarrow> network" where
  "clearPendingLocked H procs cause nw =
     (case interrupt_admission cause nw of (queued, nw1) \<Rightarrow>
      let nw2 = (case verifiedMapHash H procs (nw_projection nw1) of
            Inl _ \<Rightarrow> nw1
          | Inr hash \<Rightarrow> foldl (\<lambda>nw op. retain_unconfirmed hash op nw) nw1 (pending_ops (nw_projection nw1)));
          nw3 = foldl (\<lambda>nw op. retainUnsentLocked H procs op cause nw) nw2 queued;
          waiting = nw_waiters nw3;
          nw4 = foldl (\<lambda>nw i. drop_waiter i nw) nw3 waiting;
          previous = nw_projection nw4;
          nw5 = rebuildVisibleLocked (nw4\<lparr>nw_projection := \<lparr>acknowledged = acknowledged previous, pending_ops = [],
            acknowledged_hash = acknowledged_hash previous\<rparr>\<rparr>);
          nw6 = beginPublicationLocked previous (nw_projection nw5) [] [] False nw5
      in nw6\<lparr>nw_answers := nw_answers nw6 @ map (\<lambda>i. (i, Inl cause)) waiting\<rparr>)"

definition suspendLocked :: "digest_fun \<Rightarrow> nat \<Rightarrow> client_error \<Rightarrow> network \<Rightarrow> network" where
  "suspendLocked H procs cause nw =
     (if nw_terminal nw \<noteq> None \<or> nw_suspended nw \<noteq> None then nw
      else clearPendingLocked H procs cause (nw\<lparr>nw_suspended := Some cause\<rparr>))"

definition failAllLocked :: "digest_fun \<Rightarrow> nat \<Rightarrow> client_error \<Rightarrow> network \<Rightarrow> network" where
  "failAllLocked H procs cause nw =
     (if nw_terminal nw \<noteq> None then nw
      else clearPendingLocked H procs cause (nw\<lparr>nw_terminal := Some cause\<rparr>))"

definition Resume :: "bool \<Rightarrow> network \<Rightarrow> client_error option \<times> network" where
  "Resume nil_transport nw =
     (if nil_transport then (Some NilTransport, nw)
      else case nw_terminal nw of
          Some e \<Rightarrow> (Some e, nw)
        | None \<Rightarrow>
            if nw_suspended nw = None then (Some NotSuspended, nw)
            else (None, nw\<lparr>nw_suspended := None,
                nw_publication := (nw_publication nw)\<lparr>admission_error := None\<rparr>\<rparr>))"

definition ReplaceAcknowledgedSnapshot ::
  "digest_fun \<Rightarrow> nat \<Rightarrow> ctx \<Rightarrow> snapshot \<Rightarrow> network \<Rightarrow> client_error + network" where
  "ReplaceAcknowledgedSnapshot H procs c s nw =
     sum_bind (client_poll c) (\<lambda>_.
     sum_bind (lift_model (NewCanonicalHasher H procs s)) (\<lambda>hasher.
     let hash = Hasher_Digest (Some hasher); current = acknowledged (nw_projection nw) in
     sum_bind (check (nw_terminal nw) (\<lambda>e. e)) (\<lambda>_.
     sum_bind (guard (nw_waiters nw \<noteq> [] \<or> pending_ops (nw_projection nw) \<noteq> []) ReplaceWhilePending) (\<lambda>_.
     sum_bind (guard (snap_document s \<noteq> snap_document current \<or> environment_hash s \<noteq> environment_hash current)
       IncompatibleReplacement) (\<lambda>_.
     sum_bind (guard (snap_revision s < snap_revision current)
       (ReplacementPrecedes (snap_revision s) (snap_revision current))) (\<lambda>_.
     if snap_revision s = snap_revision current
     then sum_bind (verifiedMapHash H procs (nw_projection nw)) (\<lambda>currentHash.
       sum_bind (guard (hash \<noteq> currentHash) (ReplacementConflicts (snap_revision current))) (\<lambda>_. Inr nw))
     else Inr (beginReplacementPublicationLocked s
       ((rebuildVisibleLocked ((indexAcknowledgedLocked hash (nw\<lparr>nw_projection := newProjection H procs s hash\<rparr>))
          \<lparr>nw_hasher := Some hasher\<rparr>))\<lparr>verified_history := fmupd (snap_revision s) hash fmempty\<rparr>))))))))"

section \<open>Messages of the server\<close>

datatype server_message =
    OperationAccepted accepted_operation string
  | OperationRejected rejection
  | OtherMessage

definition json_payload :: "stamp_fun \<Rightarrow> accepted_operation \<Rightarrow> string \<Rightarrow> nat list option" where
  "json_payload stamp acc hash =
     (case json_accepted stamp acc of
        None \<Rightarrow> None
      | Some text \<Rightarrow> Some (json_object [(''operation'', text), (''map_hash'', json_string hash)] @ [10]))"

definition fingerprint :: "digest_fun \<Rightarrow> stamp_fun \<Rightarrow> accepted_operation \<Rightarrow> string \<Rightarrow> bytes option" where
  "fingerprint H stamp acc hash = map_option (\<lambda>text. H (map of_nat text)) (json_payload stamp acc hash)"

definition retained_history :: nat where "retained_history = 256"

definition record_history :: "revision \<Rightarrow> string \<Rightarrow> (revision, string) fmap \<Rightarrow> (revision, string) fmap" where
  "record_history r hash history =
     (let added = fmupd r hash history in
      if map_len added > retained_history
      then fmdrop (foldl (\<lambda>oldest (r', _). if r' < oldest then r' else oldest) r (map_entries added)) added
      else added)"

definition own_forward :: "network \<Rightarrow> operation \<Rightarrow> bool" where
  "own_forward nw op \<longleftrightarrow> op_actor op = nw_actor nw \<and> op_kind op \<noteq> InverseKind"

definition resolve_conflict :: "operation \<Rightarrow> network \<Rightarrow> network" where
  "resolve_conflict op nw =
     (case conflictLocked nw (op_id op) of
        None \<Rightarrow> nw
      | Some n \<Rightarrow>
          let cf = nw_conflicts nw ! n in
          if cf_code cf = conflictDeliveryUnconfirmed \<and> SameOperation (cf_draft cf) op then delete_conflict n nw else nw)"

text \<open>After the receipts have been looked at.\<close>

definition receive_accepted ::
  "digest_fun \<Rightarrow> nat \<Rightarrow> accepted_operation \<Rightarrow> string \<Rightarrow> bytes option \<Rightarrow> network \<Rightarrow> client_error option \<times> network" where
  "receive_accepted H procs acc hash receipt nw =
     (let i = op_id (acc_op acc) in
      if nw_accepted nw i = Some acc \<and> hash = (case nw_hashes nw i of Some h \<Rightarrow> h | None \<Rightarrow> []) then (None, nw)
      else case acceptProjectionLocked H procs acc hash nw of
          Inl e \<Rightarrow> (Some e, suspendLocked H procs e nw)
        | Inr nw1 \<Rightarrow>
            let nw2 = nw1\<lparr>verified_history := record_history (acc_revision acc) hash (verified_history nw1)\<rparr>;
                nw3 = (case receipt of
                    None \<Rightarrow> nw2\<lparr>nw_accepted := (nw_accepted nw2)(i \<mapsto> CloneAcceptedOperation acc),
                              nw_hashes := (nw_hashes nw2)(i \<mapsto> hash)\<rparr>
                  | Some r \<Rightarrow> nw2\<lparr>nw_receipts := (nw_receipts nw2)(i \<mapsto> r)\<rparr>);
                nw4 = resolve_conflict (acc_op acc) nw3;
                waiting = (i \<in> set (nw_waiters nw4));
                nw5 = beginPublicationLocked (nw_projection nw) (nw_projection nw1) (changes (acc_op acc)) [] False
                  (drop_waiter i nw4)
            in (None, if waiting then nw5\<lparr>nw_answers := nw_answers nw5 @ [(i, Inr (CloneAcceptedOperation acc))]\<rparr> else nw5))"

definition receive_rejected ::
  "digest_fun \<Rightarrow> nat \<Rightarrow> rejection \<Rightarrow> network \<Rightarrow> client_error option \<times> network" where
  "receive_rejected H procs r nw =
     (case rejectProjectionLocked H procs r nw of
        Inl e \<Rightarrow> (Some e, suspendLocked H procs e nw)
      | Inr (conflict, nw1) \<Rightarrow>
          let i = rj_operation r;
              nw2 = retainConflictLocked conflict nw1;
              waiting = (i \<in> set (nw_waiters nw2));
              nw3 = beginPublicationLocked (nw_projection nw) (nw_projection nw1) []
                (map ch_coord (changes (cf_draft conflict))) False (drop_waiter i nw2)
          in (None, if waiting then nw3\<lparr>nw_answers := nw_answers nw3 @ [(i, Inl (Refused (cf_code conflict) (cf_message conflict)))]\<rparr>
                    else nw3))"

definition Receive ::
  "digest_fun \<Rightarrow> nat \<Rightarrow> stamp_fun \<Rightarrow> client_error + server_message \<Rightarrow> network \<Rightarrow> client_error option \<times> network" where
  "Receive H procs stamp decoded nw =
     (case decoded of
        Inl e \<Rightarrow> (Some e, failAllLocked H procs e nw)
      | Inr msg \<Rightarrow>
          (case nw_terminal nw of
             Some e \<Rightarrow> (Some e, nw)
           | None \<Rightarrow>
               (case msg of
                  OperationAccepted acc hash \<Rightarrow>
                    if own_forward nw (acc_op acc) then receive_accepted H procs acc hash None nw
                    else (case fingerprint H stamp acc hash of
                        None \<Rightarrow> (Some FingerprintFailed, nw)
                      | Some r \<Rightarrow>
                          if nw_receipts nw (op_id (acc_op acc)) = Some r then (None, nw)
                          else receive_accepted H procs acc hash (Some r) nw)
                | OperationRejected r \<Rightarrow> receive_rejected H procs r nw
                | OtherMessage \<Rightarrow> (None, nw))))"

section \<open>Undo and recovery of drafts\<close>

fun undo_client :: "ctx \<Rightarrow> (coord \<rightharpoonup> tile_state) \<Rightarrow> tile_change list \<Rightarrow> client_error + tile_change list" where
  "undo_client c authority [] = Inr []"
| "undo_client c authority (ch # chs) =
     sum_bind (client_poll c) (\<lambda>c'.
     sum_bind (guard (\<not> TileState_Equal (state_at authority (ch_coord ch)) (after ch)) (LaterEdit (ch_coord ch))) (\<lambda>_.
     sum_bind (undo_client c' authority chs) (\<lambda>rest.
     Inr (\<lparr>ch_coord = ch_coord ch, before = CloneTileState (after ch), after = CloneTileState (before ch)\<rparr> # rest))))"

definition Client_BuildInverse ::
  "digest_fun \<Rightarrow> nat \<Rightarrow> ctx \<Rightarrow> operation_id \<Rightarrow> operation_id \<Rightarrow> network \<Rightarrow> client_error + operation" where
  "Client_BuildInverse H procs c target fresh nw =
     sum_bind (client_poll c) (\<lambda>c'.
     case nw_accepted nw target of
       None \<Rightarrow> Inl (OperationNotRetained target)
     | Some acc \<Rightarrow>
         sum_bind (guard (op_actor (acc_op acc) \<noteq> nw_actor nw) (ForeignOperation (op_actor (acc_op acc)))) (\<lambda>_.
         sum_bind (guard (op_kind (acc_op acc) = InverseKind) InverseOfInverse) (\<lambda>_.
         sum_bind (verifiedMapHash H procs (nw_projection nw)) (\<lambda>hash.
         let s = acknowledged (nw_projection nw) in
         sum_bind (undo_client c' (authority_tiles nw) (changes (acc_op acc))) (\<lambda>chs.
         Inr \<lparr>op_protocol = ProtocolVersion, op_document = snap_document s, op_actor = nw_actor nw, op_id = fresh,
              base_revision = snap_revision s, op_environment = environment_hash s, base_map_hash = hash,
              op_kind = InverseKind, changes = chs, inverse_of = Some target\<rparr>)))))"

fun rebuild_changes :: "ctx \<Rightarrow> (coord \<rightharpoonup> tile_state) \<Rightarrow> tile_change list \<Rightarrow> client_error + tile_change list" where
  "rebuild_changes c authority [] = Inr []"
| "rebuild_changes c authority (ch # chs) =
     sum_bind (client_poll c) (\<lambda>c'.
     let current = state_at authority (ch_coord ch) in
     sum_bind (rebuild_changes c' authority chs) (\<lambda>rest.
     Inr (if TileState_Equal current (after ch) then rest
          else \<lparr>ch_coord = ch_coord ch, before = CloneTileState current, after = CloneTileState (after ch)\<rparr> # rest)))"

definition BuildConflictRebuild ::
  "digest_fun \<Rightarrow> nat \<Rightarrow> ctx \<Rightarrow> operation_id \<Rightarrow> operation_id \<Rightarrow> network \<Rightarrow> client_error + operation" where
  "BuildConflictRebuild H procs c i fresh nw =
     sum_bind (client_poll c) (\<lambda>c'.
     case conflictLocked nw i of
       None \<Rightarrow> Inl (ConflictNotRetained i)
     | Some n \<Rightarrow>
         sum_bind (guard (pending_ops (nw_projection nw) \<noteq> []) RebuildWhilePending) (\<lambda>_.
         sum_bind (verifiedMapHash H procs (nw_projection nw)) (\<lambda>hash.
         let s = acknowledged (nw_projection nw) in
         sum_bind (rebuild_changes c' (authority_tiles nw) (changes (cf_draft (nw_conflicts nw ! n)))) (\<lambda>chs.
         sum_bind (guard (chs = []) RebuildUnneeded) (\<lambda>_.
         Inr \<lparr>op_protocol = ProtocolVersion, op_document = snap_document s, op_actor = nw_actor nw, op_id = fresh,
              base_revision = snap_revision s, op_environment = environment_hash s, base_map_hash = hash,
              op_kind = TileChangeKind, changes = chs, inverse_of = None\<rparr>)))))"

end
