(* ===== verification/Client_Tables.thy ===== *)
theory Client_Tables
  imports Client_Projection Document_Twins
begin

text \<open>
  The specification of speculation and its first two implementations. An operation is shown when it
  fits the table of tiles built so far, and then overrides it; otherwise it is skipped as a whole.
  Replaying whole snapshots, each validated and hashed, and the incremental index give the same
  snapshot, which has that table.
\<close>

section \<open>Specification\<close>

definition spec_step :: "(coord \<Rightarrow> bool) \<Rightarrow> (coord \<rightharpoonup> tile_state) \<Rightarrow> operation \<Rightarrow> (coord \<rightharpoonup> tile_state)" where
  "spec_step inside tb op = (if table_fits inside tb (changes op) then tb ++ change_table (changes op) else tb)"

definition spec_tables :: "(coord \<Rightarrow> bool) \<Rightarrow> (coord \<rightharpoonup> tile_state) \<Rightarrow> operation list \<Rightarrow> (coord \<rightharpoonup> tile_state)" where
  "spec_tables inside tb ops = foldl (spec_step inside) tb ops"

lemma spec_tables_simps [simp]:
  "spec_tables inside tb [] = tb"
  "spec_tables inside tb (op # ops) = spec_tables inside (spec_step inside tb op) ops"
  by (simp_all add: spec_tables_def)

lemma spec_tables_append:
  "spec_tables inside tb (ops @ ops') = spec_tables inside (spec_tables inside tb ops) ops'"
  by (simp add: spec_tables_def)

lemma table_view_override: "table_view (tb ++ change_table chs) = apply_view chs (table_view tb)"
  by (auto simp: fun_eq_iff table_view_def apply_view_def map_add_def split: option.splits)

lemma spec_step_cong:
  assumes "table_view tb = table_view tb'"
  shows "table_view (spec_step inside tb op) = table_view (spec_step inside tb' op)"
proof -
  have "table_fits inside tb (changes op) \<longleftrightarrow> table_fits inside tb' (changes op)"
    by (simp only: table_fits_view assms)
  then show ?thesis by (simp add: spec_step_def table_view_override assms)
qed

lemma spec_tables_cong:
  "table_view tb = table_view tb' \<Longrightarrow> table_view (spec_tables inside tb ops) = table_view (spec_tables inside tb' ops)"
proof (induction ops arbitrary: tb tb')
  case (Cons op ops)
  show ?case unfolding spec_tables_simps by (rule Cons.IH [OF spec_step_cong [OF Cons.prems]])
qed simp

lemma spec_step_ids_ok: "ids_ok tb \<Longrightarrow> ids_ok (spec_step inside tb op)"
  by (simp add: spec_step_def table_ids_ok)

lemma spec_tables_ids_ok: "ids_ok tb \<Longrightarrow> ids_ok (spec_tables inside tb ops)"
  by (induction ops arbitrary: tb) (simp_all add: spec_step_ids_ok)

text \<open>Coordinates no operation names keep their tile.\<close>

lemma spec_step_other: "c \<notin> ch_coord ` set (changes op) \<Longrightarrow> spec_step inside tb op c = tb c"
  using dom_change_table [of "changes op"] by (auto simp: spec_step_def map_add_def domIff split: option.splits)

lemma spec_tables_other: "c \<notin> op_coords ops \<Longrightarrow> spec_tables inside tb ops c = tb c"
  by (induction ops arbitrary: tb) (simp_all add: op_coords_def spec_step_other)

section \<open>The shared check\<close>

lemma scan_coords_iff:
  "scan_coords e inside state chs affected = Inr a \<longleftrightarrow>
     a = affected \<union> ch_coord ` set chs \<and> distinct (map ch_coord chs) \<and> affected \<inter> ch_coord ` set chs = {} \<and>
     (\<forall>ch\<in>set chs. inside (ch_coord ch) \<and> tile_view (state (ch_coord ch)) = tile_view (before ch))"
  by (induction chs arbitrary: affected) (auto simp: sum_bind_Inr_iff TileState_Equal_view)

lemma scan_prefabs_iff:
  "scan_prefabs e validate owner affected ps ids = Inr ids' \<longleftrightarrow>
     ids' = ids \<union> prefab_id ` set ps \<and> distinct (map prefab_id ps) \<and> ids \<inter> prefab_id ` set ps = {} \<and>
     (\<forall>i\<in>prefab_id ` set ps. validate i = None \<and> (\<forall>c. owner i = Some c \<longrightarrow> c \<in> affected))"
  by (induction ps arbitrary: ids) (auto simp: sum_bind_Inr_iff split: option.splits)

lemma scan_tile_iff:
  "scan_prefabs e validate owner affected (prefab_list st) ids = Inr ids' \<longleftrightarrow>
     ids' = ids \<union> set (tile_ids st) \<and> distinct (tile_ids st) \<and>
     (\<forall>i\<in>set (tile_ids st). i \<notin> ids \<and> validate i = None \<and> (\<forall>c. owner i = Some c \<longrightarrow> c \<in> affected))"
  unfolding scan_prefabs_iff tile_ids_def by auto

lemma scan_ids_iff:
  "scan_ids e validate owner affected chs ids = Inr u \<longleftrightarrow>
     distinct (concat (map (\<lambda>ch. tile_ids (after ch)) chs)) \<and>
     (\<forall>ch\<in>set chs. \<forall>i\<in>set (tile_ids (after ch)). i \<notin> ids \<and> validate i = None \<and> (\<forall>c. owner i = Some c \<longrightarrow> c \<in> affected))"
proof (induction chs arbitrary: ids)
  case (Cons ch chs)
  have "scan_ids e validate owner affected (ch # chs) ids = Inr u \<longleftrightarrow>
    (\<exists>ids'. scan_prefabs e validate owner affected (prefab_list (after ch)) ids = Inr ids' \<and>
       scan_ids e validate owner affected chs ids' = Inr u)"
    by (simp add: sum_bind_Inr_iff)
  then show ?case unfolding scan_tile_iff Cons.IH by auto
qed auto

lemma scan_iff:
  "scan e inside state validate owner chs = Inr u \<longleftrightarrow>
     distinct (map ch_coord chs) \<and>
     (\<forall>ch\<in>set chs. inside (ch_coord ch) \<and> tile_view (state (ch_coord ch)) = tile_view (before ch)) \<and>
     distinct (concat (map (\<lambda>ch. tile_ids (after ch)) chs)) \<and>
     (\<forall>ch\<in>set chs. \<forall>i\<in>set (tile_ids (after ch)). validate i = None \<and>
        (\<forall>c. owner i = Some c \<longrightarrow> c \<in> ch_coord ` set chs))"
  unfolding scan_def sum_bind_Inr_iff scan_coords_iff scan_ids_iff by auto

text \<open>With the tiles and the owners of a table, the check is that the batch fits.\<close>

lemma scan_fits:
  assumes "\<And>ch. ch \<in> set chs \<Longrightarrow> tile_view (state (ch_coord ch)) = table_view tb (ch_coord ch)"
    and "owners_ok tb owner"
  shows "scan e inside state StableID_Validate owner chs = Inr u \<longleftrightarrow> table_fits inside tb chs"
  unfolding scan_iff table_fits_def using assms by (auto simp: owners_ok_def)

text \<open>Tests that are already known to hold may be left out.\<close>

definition op_valid :: "(coord \<Rightarrow> bool) \<Rightarrow> operation \<Rightarrow> bool" where
  "op_valid inside op \<longleftrightarrow> (\<forall>ch\<in>set (changes op). inside (ch_coord ch) \<and>
     (\<forall>i\<in>set (tile_ids (after ch)). StableID_Validate i = None))"

lemma scan_fits_valid:
  assumes "\<And>ch. ch \<in> set (changes op) \<Longrightarrow> tile_view (state (ch_coord ch)) = table_view tb (ch_coord ch)"
    and "owners_ok tb owner" "op_valid inside op"
  shows "scan e (\<lambda>_. True) state (\<lambda>_. None) owner (changes op) = Inr u \<longleftrightarrow> table_fits inside tb (changes op)"
  unfolding scan_iff table_fits_def using assms by (auto simp: owners_ok_def op_valid_def)

lemma fits_valid: "table_fits inside tb (changes op) \<Longrightarrow> op_valid inside op"
  by (auto simp: table_fits_def op_valid_def)

lemma sum_Inl_iff: "(\<exists>e. r = Inl e) \<longleftrightarrow> r \<noteq> Inr ()"
  by (cases r) auto

section \<open>Owners\<close>

lemma new_owners_apply:
  assumes "distinct (concat (map (\<lambda>ch. tile_ids (after ch)) chs))"
  shows "new_owners chs m i = Some c \<longleftrightarrow>
    (\<exists>ch\<in>set chs. ch_coord ch = c \<and> i \<in> set (tile_ids (after ch))) \<or>
    (\<forall>ch\<in>set chs. i \<notin> set (tile_ids (after ch)) \<and> i \<notin> set (tile_ids (before ch))) \<and> m i = Some c"
  unfolding new_owners_def own_fold [OF assms] release_fold by auto

lemma owners_okI:
  assumes "ids_ok tb" "owners_ok tb m" "table_fits inside tb chs"
    and "\<And>i c. m' i = Some c \<longleftrightarrow>
      (\<exists>ch\<in>set chs. ch_coord ch = c \<and> i \<in> set (tile_ids (after ch))) \<or>
      (\<forall>ch\<in>set chs. i \<notin> set (tile_ids (after ch)) \<and> i \<notin> set (tile_ids (before ch))) \<and> m i = Some c"
  shows "owners_ok (tb ++ change_table chs) m'"
proof -
  have "m' i = new_owners chs m i" for i
    using assms(4) new_owners_apply [OF table_fitsD(2) [OF assms(3)], of m i] by (metis option.exhaust)
  then have "m' = new_owners chs m" by (simp add: fun_eq_iff)
  then show ?thesis using table_owners_ok [OF assms(1-3)] by simp
qed

lemma view_ids: "tile_view st = tile_view st' \<Longrightarrow> set (tile_ids st) = set (tile_ids st')"
  by (simp add: tile_ids_view)

section \<open>Replaying whole snapshots\<close>

section \<open>Writing one tile\<close>

definition put_tile :: "(coord \<rightharpoonup> nat) \<Rightarrow> coord \<Rightarrow> tile_state \<Rightarrow> tile list \<Rightarrow> tile list" where
  "put_tile m c st ts = (case m c of Some i \<Rightarrow> set_tile i st ts | None \<Rightarrow> ts @ [\<lparr>tile_coord = c, tile_st = st\<rparr>])"

definition put_index :: "(coord \<rightharpoonup> nat) \<Rightarrow> coord \<Rightarrow> nat \<Rightarrow> (coord \<rightharpoonup> nat)" where
  "put_index m c n = (if m c = None then m(c \<mapsto> n) else m)"

definition table_of :: "tile list \<Rightarrow> (coord \<rightharpoonup> nat) \<Rightarrow> (coord \<rightharpoonup> tile_state) \<Rightarrow> bool" where
  "table_of ts m tb \<longleftrightarrow> indexes_ok ts m \<and> distinct (map tile_coord ts) \<and> tile_table ts = tb"

lemma write_tiles_put: "write_tiles m (ch # chs) ts = write_tiles m chs (put_tile m (ch_coord ch) (after ch) ts)"
  by (simp add: put_tile_def)

lemma put_index_other: "c' \<noteq> c \<Longrightarrow> put_index m c n c' = m c'"
  by (simp add: put_index_def)

lemma put_table:
  assumes "table_of ts m tb"
  shows "table_of (put_tile m c st ts) (put_index m c (length ts)) (tb(c \<mapsto> st))"
proof -
  let ?ch = "\<lparr>ch_coord = c, before = empty_tile, after = st\<rparr>"
  have "fits m [?ch] ts" using assms by (intro fits_indexes) (simp_all add: table_of_def)
  note step = fits_step [OF this]
  have "indexes_ok (write_tiles m [?ch] ts) (grow_indexes [?ch] (length ts) m)"
    using assms by (intro grow_indexes_ok) (simp_all add: table_of_def)
  moreover have "distinct (map tile_coord (write_tiles m [?ch] ts))"
    using write_tiles_spec [OF \<open>fits m [?ch] ts\<close>] by blast
  ultimately show ?thesis
    using step(2) assms by (simp add: table_of_def put_tile_def put_index_def del: fun_upd_apply split: option.splits)
qed

lemma write_table:
  assumes "table_of ts m tb" "distinct (map ch_coord chs)"
  shows "table_of (write_tiles m chs ts) (grow_indexes chs (length ts) m) (tb ++ change_table chs)"
proof -
  have t: "indexes_ok ts m" "distinct (map tile_coord ts)" "tile_table ts = tb" using assms(1) by (simp_all add: table_of_def)
  show ?thesis
    using write_tiles_spec [OF fits_indexes [OF t(1,2) assms(2)]] grow_indexes_ok [OF t(1) assms(2)]
    unfolding table_of_def t(3) by blast
qed

lemma table_state:
  assumes "table_of ts m tb"
  shows "(case m c of Some i \<Rightarrow> tile_st (ts ! i) | None \<Rightarrow> empty_tile) = state_at tb c"
proof (cases "m c")
  case None
  then have "tb c = None"
    using assms cons_coords [of ts m c] dom_tile_table [of ts] by (auto simp: table_of_def domIff)
  then show ?thesis using None by (simp add: state_at_def)
next
  case (Some i)
  then have "i < length ts" "tile_coord (ts ! i) = c" using assms by (auto simp: table_of_def indexes_ok_def)
  then have "tb c = Some (tile_st (ts ! i))" using assms tile_table_nth [of ts i] by (auto simp: table_of_def)
  then show ?thesis using Some by (simp add: state_at_def)
qed

lemma view_state_at [simp]: "tile_view (state_at tb c) = table_view tb c"
  by (simp add: state_at_def table_view_def split: option.splits)

lemma table_of_start: "distinct (map tile_coord ts) \<Longrightarrow> table_of ts (index_from ts 0 Map.empty) (tile_table ts)"
  using indexes_snoc [of "[]" Map.empty ts] by (simp add: table_of_def indexes_ok_def)

section \<open>Replaying whole snapshots\<close>

lemma copy_changes_iff:
  assumes "table_of (tiles s) m tb"
  shows "copy_changes s m seen chs = Inr s' \<longleftrightarrow>
    distinct (map ch_coord chs) \<and> seen \<inter> ch_coord ` set chs = {} \<and>
    (\<forall>ch\<in>set chs. Contains s (ch_coord ch) \<and> table_view tb (ch_coord ch) = tile_view (before ch)) \<and>
    s' = s\<lparr>tiles := write_tiles m chs (tiles s)\<rparr>"
  using assms
proof (induction chs arbitrary: s m tb seen)
  case Nil
  then show ?case by auto
next
  case (Cons ch chs)
  let ?c = "ch_coord ch"
  define s1 where "s1 = s\<lparr>tiles := put_tile m ?c (after ch) (tiles s)\<rparr>"
  define m1 where "m1 = put_index m ?c (length (tiles s))"
  have t1: "table_of (tiles s1) m1 (tb(?c \<mapsto> after ch))"
    using put_table [OF Cons.prems] by (simp add: s1_def m1_def del: fun_upd_apply)
  have inside: "Contains s1 = Contains s" by (simp add: s1_def Contains_def fun_eq_iff)
  have step: "copy_changes s m seen (ch # chs) = Inr s' \<longleftrightarrow>
      ?c \<notin> seen \<and> Contains s ?c \<and> table_view tb ?c = tile_view (before ch) \<and>
      copy_changes s1 m1 (insert ?c seen) chs = Inr s'"
    unfolding copy_changes.simps Let_def table_state [OF Cons.prems] s1_def m1_def put_tile_def put_index_def
    by (cases "m ?c") (auto simp: sum_bind_Inr_iff TileState_Equal_view simp del: fun_upd_apply)
  have rest: "write_tiles m1 chs (tiles s1) = write_tiles m (ch # chs) (tiles s)" if "?c \<notin> ch_coord ` set chs"
    unfolding write_tiles_put s1_def m1_def using that
    by (simp, intro write_tiles_cong put_index_other) (auto simp: image_iff)
  have other: "table_view (tb(?c \<mapsto> after ch)) c = table_view tb c" if "c \<noteq> ?c" for c
    using that by (simp add: table_view_def)
  have upd: "s1\<lparr>tiles := ts\<rparr> = s\<lparr>tiles := ts\<rparr>" for ts by (simp add: s1_def)
  show ?case
  proof (cases "?c \<in> ch_coord ` set chs")
    case False
    then have "table_view (tb(?c \<mapsto> after ch)) (ch_coord ch') = table_view tb (ch_coord ch')" if "ch' \<in> set chs" for ch'
      using that by (intro other) (metis image_eqI)
    then have views: "(\<forall>ch'\<in>set chs. Contains s (ch_coord ch') \<and> table_view (tb(?c \<mapsto> after ch)) (ch_coord ch') = tile_view (before ch')) \<longleftrightarrow>
        (\<forall>ch'\<in>set chs. Contains s (ch_coord ch') \<and> table_view tb (ch_coord ch') = tile_view (before ch'))"
      by (simp cong: ball_cong del: fun_upd_apply)
    show ?thesis unfolding step Cons.IH [OF t1] inside views rest [OF False] upd using False by auto
  next
    case True
    then show ?thesis unfolding step Cons.IH [OF t1] inside by auto
  qed
qed

lemma applyOperationToCopy_iff:
  assumes "distinct (map tile_coord (tiles s))"
  shows "applyOperationToCopy s op = Inr s' \<longleftrightarrow>
    distinct (map ch_coord (changes op)) \<and>
    (\<forall>ch\<in>set (changes op). Contains s (ch_coord ch) \<and> table_view (tile_table (tiles s)) (ch_coord ch) = tile_view (before ch)) \<and>
    s' = s\<lparr>tiles := write_tiles (index_from (tiles s) 0 Map.empty) (changes op) (tiles s)\<rparr>"
  unfolding applyOperationToCopy_def copy_changes_iff [OF table_of_start [OF assms]] by simp

lemma ids_okD:
  "ids_ok tb \<Longrightarrow> tb c = Some st \<Longrightarrow> distinct (tile_ids st) \<and> (\<forall>i\<in>set (tile_ids st). StableID_Validate i = None)"
  "ids_ok tb \<Longrightarrow> tb c = Some st \<Longrightarrow> tb c' = Some st' \<Longrightarrow> c \<noteq> c' \<Longrightarrow> set (tile_ids st) \<inter> set (tile_ids st') = {}"
  unfolding ids_ok_def by blast+

text \<open>The full validation of the result accepts exactly what the incremental identity check accepts.\<close>

lemma ids_ok_fits:
  assumes "ids_ok tb" "distinct (map ch_coord chs)"
    and "\<forall>ch\<in>set chs. inside (ch_coord ch) \<and> table_view tb (ch_coord ch) = tile_view (before ch)"
  shows "ids_ok (tb ++ change_table chs) \<longleftrightarrow> table_fits inside tb chs"
proof
  assume ok: "ids_ok (tb ++ change_table chs)"
  note new = override_Some_iff [OF assms(2), of tb]
  have at: "(tb ++ change_table chs) (ch_coord ch) = Some (after ch)" if "ch \<in> set chs" for ch
    using that unfolding new by blast
  have one: "distinct (tile_ids (after ch)) \<and> (\<forall>i\<in>set (tile_ids (after ch)). StableID_Validate i = None)"
    if "ch \<in> set chs" for ch
    by (rule ids_okD(1) [OF ok at [OF that]])
  have two: "set (tile_ids (after ch)) \<inter> set (tile_ids (after ch')) = {}"
    if "ch \<in> set chs" "ch' \<in> set chs" "ch \<noteq> ch'" for ch ch'
  proof -
    have "ch_coord ch \<noteq> ch_coord ch'" using that assms(2) by (metis distinct_map inj_onD)
    then show ?thesis by (rule ids_okD(2) [OF ok at [OF that(1)] at [OF that(2)]])
  qed
  have "distinct chs" using assms(2) by (rule distinct_map [THEN iffD1, THEN conjunct1])
  then have "distinct (concat (map (\<lambda>ch. tile_ids (after ch)) chs))"
    using one two
  proof (induction chs)
    case (Cons ch chs)
    then show ?case by (simp, blast)
  qed simp
  moreover have "c \<in> ch_coord ` set chs"
    if "ch \<in> set chs" "i \<in> set (tile_ids (after ch))" "tb c = Some st" "i \<in> set (tile_ids st)" for ch i c st
  proof (rule ccontr)
    assume c: "c \<notin> ch_coord ` set chs"
    then have "(tb ++ change_table chs) c = Some st" unfolding new using that(3) by blast
    moreover have "c \<noteq> ch_coord ch" using c that(1) by blast
    ultimately have "set (tile_ids st) \<inter> set (tile_ids (after ch)) = {}" by (rule ids_okD(2) [OF ok _ at [OF that(1)]])
    then show False using that(2,4) by blast
  qed
  ultimately show "table_fits inside tb chs"
    unfolding table_fits_def using assms(2,3) one by blast
qed (rule table_ids_ok [OF assms(1)])

lemma written_ok:
  assumes "snapshot_ok s" "table_of (tiles s) m (tile_table (tiles s))" "table_fits (Contains s) (tile_table (tiles s)) chs"
  defines "s' \<equiv> s\<lparr>tiles := write_tiles m chs (tiles s)\<rparr>"
  shows "snapshot_ok s'" "tile_table (tiles s') = tile_table (tiles s) ++ change_table chs" "Contains s' = Contains s"
    "snap_revision s' = snap_revision s"
proof -
  note t = write_table [OF assms(2) table_fitsD(1) [OF assms(3)]]
  show table: "tile_table (tiles s') = tile_table (tiles s) ++ change_table chs"
    using t by (simp add: s'_def table_of_def)
  show inside: "Contains s' = Contains s" by (simp add: s'_def Contains_def fun_eq_iff)
  have "ids_ok (tile_table (tiles s) ++ change_table chs)"
    using table_ids_ok [OF _ assms(3)] assms(1) by (simp add: snapshot_ok_table)
  moreover have "\<forall>c\<in>dom (tile_table (tiles s) ++ change_table chs). Contains s c"
    using assms(1) table_fitsD(3) [OF assms(3)] by (auto simp: snapshot_ok_table dom_change_table)
  moreover have "header_ok s'" using assms(1) by (simp add: s'_def snapshot_ok_def header_ok_def dims_ok_def)
  moreover have "distinct (map tile_coord (tiles s'))" using t by (simp add: s'_def table_of_def)
  ultimately show "snapshot_ok s'" unfolding snapshot_ok_table table inside by blast
qed (simp add: s'_def)

lemma Snapshot_Hash_iff: "(\<exists>h. Snapshot_Hash H procs s = Inr h) \<longleftrightarrow> snapshot_ok s"
  by (simp add: Snapshot_Hash_def Snapshot_Validate_iff [symmetric] split: option.splits)

lemma applyOperation_iff:
  assumes "snapshot_ok s" "table_of (tiles s) m (tile_table (tiles s))"
  shows "applyOperation H procs s op = Inr s' \<longleftrightarrow>
    table_fits (Contains s) (tile_table (tiles s)) (changes op) \<and>
    s' = s\<lparr>tiles := write_tiles m (changes op) (tiles s)\<rparr>"
proof -
  let ?tb = "tile_table (tiles s)" and ?chs = "changes op"
  have d: "distinct (map tile_coord (tiles s))" using assms(1) by (simp add: snapshot_ok_def)
  have m: "index_from (tiles s) 0 Map.empty = m"
    using table_of_start [OF d] assms(2) indexes_unique by (auto simp: table_of_def)
  have "applyOperation H procs s op = Inr s' \<longleftrightarrow> applyOperationToCopy s op = Inr s' \<and> snapshot_ok s'"
  proof (cases "applyOperationToCopy s op")
    case (Inr r)
    show ?thesis
      using Inr Snapshot_Hash_iff [of H procs r]
      by (cases "Snapshot_Hash H procs r") (auto simp: applyOperation_def applyOperationUnchecked_def)
  qed (simp add: applyOperation_def applyOperationUnchecked_def)
  also have "\<dots> \<longleftrightarrow> table_fits (Contains s) ?tb ?chs \<and> s' = s\<lparr>tiles := write_tiles m ?chs (tiles s)\<rparr>"
  proof
    assume r: "applyOperationToCopy s op = Inr s' \<and> snapshot_ok s'"
    then have c: "distinct (map ch_coord ?chs)"
        "\<forall>ch\<in>set ?chs. Contains s (ch_coord ch) \<and> table_view ?tb (ch_coord ch) = tile_view (before ch)"
      and s': "s' = s\<lparr>tiles := write_tiles m ?chs (tiles s)\<rparr>"
      unfolding applyOperationToCopy_iff [OF d] m by blast+
    have "tile_table (tiles s') = ?tb ++ change_table ?chs"
      using write_table [OF assms(2) c(1)] by (simp add: s' table_of_def)
    then have "ids_ok (?tb ++ change_table ?chs)" using r by (simp add: snapshot_ok_table)
    then show "table_fits (Contains s) ?tb ?chs \<and> s' = s\<lparr>tiles := write_tiles m ?chs (tiles s)\<rparr>"
      using ids_ok_fits [OF _ c] assms(1) s' by (simp add: snapshot_ok_table)
  next
    assume r: "table_fits (Contains s) ?tb ?chs \<and> s' = s\<lparr>tiles := write_tiles m ?chs (tiles s)\<rparr>"
    then have fits: "table_fits (Contains s) ?tb ?chs" by blast
    show "applyOperationToCopy s op = Inr s' \<and> snapshot_ok s'"
      unfolding applyOperationToCopy_iff [OF d] m
      using written_ok(1) [OF assms fits] r table_fitsD(1,3,4) [OF fits] by blast
  qed
  finally show ?thesis .
qed

section \<open>The incremental index\<close>

definition px_ok :: "(coord \<rightharpoonup> tile_state) \<Rightarrow> projection_index \<Rightarrow> bool" where
  "px_ok tb px \<longleftrightarrow> table_of (tiles (px_snapshot px)) (px_tiles px) tb \<and> owners_ok tb (px_owners px)"

lemma px_install_eq:
  "distinct (map ch_coord chs) \<Longrightarrow> px_install chs px =
     px\<lparr>px_snapshot := (px_snapshot px)\<lparr>tiles := write_tiles (px_tiles px) chs (tiles (px_snapshot px))\<rparr>,
        px_tiles := grow_indexes chs (length (tiles (px_snapshot px))) (px_tiles px),
        px_owners := foldl (\<lambda>m ch. own_ids (ch_coord ch) (after ch) m) (px_owners px) chs\<rparr>"
proof (induction chs arbitrary: px)
  case (Cons ch chs)
  let ?s = "px_snapshot px" and ?m = "px_tiles px" and ?c = "ch_coord ch"
  define px1 where "px1 = px\<lparr>px_snapshot := ?s\<lparr>tiles := put_tile ?m ?c (after ch) (tiles ?s)\<rparr>,
    px_tiles := put_index ?m ?c (length (tiles ?s)), px_owners := own_ids ?c (after ch) (px_owners px)\<rparr>"
  have step: "px_install (ch # chs) px = px_install chs px1"
    unfolding px1_def
    by (cases px, cases "?m ?c") (simp_all add: put_tile_def put_index_def Let_def del: fun_upd_apply)
  have w: "write_tiles (px_tiles px1) chs (tiles (px_snapshot px1)) = write_tiles ?m (ch # chs) (tiles ?s)"
    unfolding write_tiles_put px1_def using other_coords [OF Cons.prems]
    by (simp, intro write_tiles_cong put_index_other) blast
  have g: "grow_indexes chs (length (tiles (px_snapshot px1))) (px_tiles px1) = grow_indexes (ch # chs) (length (tiles ?s)) ?m"
    by (simp add: px1_def put_tile_def put_index_def del: fun_upd_apply split: option.splits)
  have "distinct (map ch_coord chs)" using Cons.prems by simp
  then show ?case
    unfolding step Cons.IH [OF \<open>distinct (map ch_coord chs)\<close>] w g
    by (simp add: px1_def del: write_tiles.simps grow_indexes.simps)
qed simp

lemma px_release_eq:
  assumes "table_of (tiles (px_snapshot px)) (px_tiles px) tb"
    and "\<forall>ch\<in>set chs. table_view tb (ch_coord ch) = tile_view (before ch)"
  shows "px_release px chs = foldl (\<lambda>m ch. release_ids (before ch) m) (px_owners px) chs"
proof -
  have one: "(case px_tiles px (ch_coord ch) of Some i \<Rightarrow> release_ids (tile_st (tiles (px_snapshot px) ! i)) m | None \<Rightarrow> m) =
      release_ids (before ch) m" if "ch \<in> set chs" for ch m
  proof -
    have v: "tile_view (state_at tb (ch_coord ch)) = tile_view (before ch)" using assms(2) that by simp
    note st = table_state [OF assms(1), of "ch_coord ch"]
    show ?thesis
    proof (cases "px_tiles px (ch_coord ch)")
      case None
      then have "state_at tb (ch_coord ch) = empty_tile" using st by simp
      then have "tile_view (before ch) = []" using v by (simp del: view_state_at)
      then show ?thesis using None by (simp add: fun_eq_iff release_ids_apply tile_ids_view)
    next
      case (Some i)
      then show ?thesis using view_ids [OF v] st by (simp add: fun_eq_iff release_ids_apply del: view_state_at)
    qed
  qed
  have "foldl (\<lambda>m ch. case px_tiles px (ch_coord ch) of
      Some i \<Rightarrow> release_ids (tile_st (tiles (px_snapshot px) ! i)) m | None \<Rightarrow> m) m xs =
      foldl (\<lambda>m ch. release_ids (before ch) m) m xs" if "set xs \<subseteq> set chs" for xs m
    using that by (induction xs arbitrary: m) (simp_all add: one)
  then show ?thesis by (simp add: px_release_def)
qed

lemma px_state_table: "px_ok tb px \<Longrightarrow> px_state px c = state_at tb c"
  unfolding px_state_def px_ok_def by (blast intro: table_state)

lemma px_apply_spec:
  assumes "px_ok tb px" "ids_ok tb"
  defines "inside \<equiv> Contains (px_snapshot px)"
  shows "px_ok (spec_step inside tb op) (px_apply op px) \<and>
    px_snapshot (px_apply op px) =
      (if table_fits inside tb (changes op)
       then (px_snapshot px)\<lparr>tiles := write_tiles (px_tiles px) (changes op) (tiles (px_snapshot px))\<rparr>
       else px_snapshot px)"
proof -
  have fits: "scan silent inside (px_state px) StableID_Validate (px_owners px) (changes op) = Inr () \<longleftrightarrow>
      table_fits inside tb (changes op)"
    using assms(1) by (intro scan_fits) (simp_all add: px_state_table [OF assms(1)] px_ok_def)
  show ?thesis
  proof (cases "table_fits inside tb (changes op)")
    case False
    then have "px_apply op px = px"
      using fits by (cases "scan silent inside (px_state px) StableID_Validate (px_owners px) (changes op)")
        (simp_all add: px_apply_def inside_def)
    then show ?thesis using False assms(1) by (simp add: spec_step_def)
  next
    case True
    note f = table_fitsD [OF True]
    have t: "table_of (tiles (px_snapshot px)) (px_tiles px) tb" using assms(1) by (simp add: px_ok_def)
    have "px_apply op px = px_install (changes op) (px\<lparr>px_owners := px_release px (changes op)\<rparr>)"
      using fits True by (simp add: px_apply_def inside_def)
    then have eq: "px_apply op px =
        px\<lparr>px_snapshot := (px_snapshot px)\<lparr>tiles := write_tiles (px_tiles px) (changes op) (tiles (px_snapshot px))\<rparr>,
           px_tiles := grow_indexes (changes op) (length (tiles (px_snapshot px))) (px_tiles px),
           px_owners := new_owners (changes op) (px_owners px)\<rparr>"
      using f(4) px_release_eq [OF t, of "changes op"] by (simp add: px_install_eq [OF f(1)] new_owners_def)
    have "owners_ok (tb ++ change_table (changes op)) (new_owners (changes op) (px_owners px))"
      using table_owners_ok [OF assms(2) _ True] assms(1) by (simp add: px_ok_def)
    then show ?thesis
      using write_table [OF t f(1)] True by (simp add: px_ok_def spec_step_def eq)
  qed
qed

lemma px_start: "snapshot_ok s \<Longrightarrow> px_ok (tile_table (tiles s)) (new_projection_index s)"
  unfolding px_ok_def new_projection_index_def
  by (simp add: snapshot_ok_def snapshot_ids_def comp_def table_of_start owners_fold_ok)

text \<open>The index shows what replaying whole snapshots shows, tile by tile and in the same order.\<close>

lemma px_fold:
  assumes "px_ok (tile_table (tiles (px_snapshot px))) px" "snapshot_ok (px_snapshot px)"
  shows "px_snapshot (foldl (\<lambda>px op. px_apply op px) px ops) =
      foldl (\<lambda>v op. case applyOperation H procs v op of Inl _ \<Rightarrow> v | Inr next \<Rightarrow> next) (px_snapshot px) ops \<and>
    tile_table (tiles (px_snapshot (foldl (\<lambda>px op. px_apply op px) px ops))) =
      spec_tables (Contains (px_snapshot px)) (tile_table (tiles (px_snapshot px))) ops \<and>
    snapshot_ok (px_snapshot (foldl (\<lambda>px op. px_apply op px) px ops))"
  using assms
proof (induction ops arbitrary: px)
  case (Cons op ops)
  let ?s = "px_snapshot px" and ?px = "px_apply op px"
  let ?tb = "tile_table (tiles ?s)"
  have t: "table_of (tiles ?s) (px_tiles px) ?tb" using Cons.prems(1) by (simp add: px_ok_def)
  have "ids_ok ?tb" using Cons.prems(2) by (simp add: snapshot_ok_table)
  note step = px_apply_spec [OF Cons.prems(1) this, of op]
  note full = applyOperation_iff [OF Cons.prems(2) t, of H procs op]
  have tb: "tile_table (tiles (px_snapshot ?px)) = spec_step (Contains ?s) ?tb op"
    using conjunct1 [OF step] by (simp only: px_ok_def table_of_def)
  have ok: "snapshot_ok (px_snapshot ?px) \<and> Contains (px_snapshot ?px) = Contains ?s"
    using step written_ok(1,3) [OF Cons.prems(2) t, of "changes op"] Cons.prems(2) by simp
  have same: "px_snapshot ?px = (case applyOperation H procs ?s op of Inl _ \<Rightarrow> ?s | Inr next \<Rightarrow> next)"
  proof (cases "table_fits (Contains ?s) ?tb (changes op)")
    case True
    then show ?thesis using step full by (metis sum.case(2))
  next
    case False
    then have "\<nexists>s'. applyOperation H procs ?s op = Inr s'" using full by blast
    then obtain e where "applyOperation H procs ?s op = Inl e" by (cases "applyOperation H procs ?s op") blast+
    then show ?thesis using step False by simp
  qed
  have "px_ok (tile_table (tiles (px_snapshot ?px))) ?px" using conjunct1 [OF step] by (simp only: tb)
  note ih = Cons.IH [OF this conjunct1 [OF ok], unfolded tb conjunct2 [OF ok], unfolded same]
  show ?case unfolding foldl.simps(2) spec_tables_simps by (rule ih)
qed simp

lemma visibleProjection_replay:
  assumes "snapshot_ok s"
  shows "visibleProjection H procs s ops =
      foldl (\<lambda>v op. case applyOperation H procs v op of Inl _ \<Rightarrow> v | Inr next \<Rightarrow> next) s ops"
    and "tile_table (tiles (visibleProjection H procs s ops)) = spec_tables (Contains s) (tile_table (tiles s)) ops"
    and "snapshot_ok (visibleProjection H procs s ops)"
proof -
  have start: "px_snapshot (new_projection_index s) = s" by (simp add: new_projection_index_def)
  have v: "visibleProjection H procs s ops = px_snapshot (foldl (\<lambda>px op. px_apply op px) (new_projection_index s) ops)"
    using assms start by (simp add: visibleProjection_def Let_def Snapshot_Validate_iff [THEN iffD2])
  note f = px_fold [of "new_projection_index s" ops H procs, unfolded start, OF px_start [OF assms] assms]
  show "visibleProjection H procs s ops =
      foldl (\<lambda>v op. case applyOperation H procs v op of Inl _ \<Rightarrow> v | Inr next \<Rightarrow> next) s ops"
    "tile_table (tiles (visibleProjection H procs s ops)) = spec_tables (Contains s) (tile_table (tiles s)) ops"
    "snapshot_ok (visibleProjection H procs s ops)"
    unfolding v using f by blast+
qed

end
