(* ===== verification/Client_Views.thy ===== *)
theory Client_Views
  imports Client_Steps Client_Tables
begin

text \<open>
  The sparse implementations of speculation agree with the specification: the overlay the executor
  keeps of its pending operations, the view of a set of coordinates that submission and publication
  use, and what a capture reads from them.
\<close>

section \<open>The indexes of the acknowledged map\<close>

abbreviation client_map :: "network \<Rightarrow> snapshot" where
  "client_map nw \<equiv> acknowledged (nw_projection nw)"

abbreviation client_table :: "network \<Rightarrow> coord \<rightharpoonup> tile_state" where
  "client_table nw \<equiv> tile_table (tiles (client_map nw))"

definition indexed :: "network \<Rightarrow> bool" where
  "indexed nw \<longleftrightarrow> snapshot_ok (client_map nw) \<and>
     table_of (tiles (client_map nw)) (nw_tile_indexes nw) (client_table nw) \<and>
     authority_tiles nw = client_table nw \<and> owners_ok (client_table nw) (authority_owners nw)"

lemma indexedD:
  assumes "indexed nw"
  shows "snapshot_ok (client_map nw)" "table_of (tiles (client_map nw)) (nw_tile_indexes nw) (client_table nw)"
    "authority_tiles nw = client_table nw" "owners_ok (client_table nw) (authority_owners nw)" "ids_ok (client_table nw)"
  using assms by (simp_all add: indexed_def snapshot_ok_table)

lemma inside_not_zero: "Contains s c \<Longrightarrow> c \<noteq> zero_coord"
  by (auto simp: Contains_def zero_coord_def)

lemma table_inside: "snapshot_ok s \<Longrightarrow> tile_table (tiles s) c = Some st \<Longrightarrow> Contains s c"
  by (auto simp: snapshot_ok_table)

lemma acknowledged_state: "indexed nw \<Longrightarrow> acknowledgedTileLocked nw c = state_at (client_table nw) c"
  unfolding acknowledgedTileLocked_def by (rule table_state) (rule indexedD)

section \<open>The overlay\<close>

definition ov_ok :: "network \<Rightarrow> (coord \<rightharpoonup> tile_state) \<Rightarrow> projection_overlay \<Rightarrow> bool" where
  "ov_ok nw tb ov \<longleftrightarrow> tb = client_table nw ++ ov_tiles ov \<and> owners_ok tb (overlay_owner nw ov) \<and>
     set (ov_coords ov) = dom (ov_tiles ov) \<and> distinct (ov_coords ov)"

lemma ov_okD:
  assumes "ov_ok nw tb ov"
  shows "tb = client_table nw ++ ov_tiles ov" "owners_ok tb (overlay_owner nw ov)"
    "set (ov_coords ov) = dom (ov_tiles ov)" "distinct (ov_coords ov)"
  using assms unfolding ov_ok_def by blast+

lemma overlay_tile_table:
  assumes "indexed nw" "ov_ok nw tb ov"
  shows "overlay_tile nw ov c = state_at tb c"
proof -
  have "tb = client_table nw ++ ov_tiles ov" using assms(2) by (simp add: ov_ok_def)
  then show ?thesis
    by (cases "ov_tiles ov c") (simp_all add: overlay_tile_def acknowledged_state [OF assms(1)] state_at_def map_add_def)
qed

lemma ov_ok_start:
  assumes "indexed nw"
  shows "ov_ok nw (client_table nw) empty_overlay"
proof -
  have "overlay_owner nw empty_overlay i = authority_owners nw i" for i
  proof (cases "authority_owners nw i")
    case (Some c)
    then obtain st where "client_table nw c = Some st" using indexedD(4) [OF assms] by (auto simp: owners_ok_def)
    then have "c \<noteq> zero_coord" using table_inside [OF indexedD(1) [OF assms]] inside_not_zero by blast
    then show ?thesis using Some by (simp add: overlay_owner_def empty_overlay_def coord_of_def)
  qed (simp add: overlay_owner_def empty_overlay_def coord_of_def)
  then have "overlay_owner nw empty_overlay = authority_owners nw" by (simp add: fun_eq_iff)
  then show ?thesis using indexedD(4) [OF assms] by (simp add: ov_ok_def) (simp add: empty_overlay_def)
qed

definition release_zero :: "network \<Rightarrow> projection_overlay \<Rightarrow> tile_change list \<Rightarrow> (stable_id \<rightharpoonup> coord)" where
  "release_zero nw ov chs =
     foldl (\<lambda>m ch. own_ids zero_coord (overlay_tile nw ov (ch_coord ch)) m) (ov_owners ov) chs"

lemma release_zero_apply:
  "release_zero nw ov chs i =
     (if \<exists>ch\<in>set chs. i \<in> set (tile_ids (overlay_tile nw ov (ch_coord ch))) then Some zero_coord else ov_owners ov i)"
proof -
  have "foldl (\<lambda>m ch. own_ids zero_coord (overlay_tile nw ov (ch_coord ch)) m) m chs i =
      (if \<exists>ch\<in>set chs. i \<in> set (tile_ids (overlay_tile nw ov (ch_coord ch))) then Some zero_coord else m i)" for m
    by (induction chs arbitrary: m) (auto simp: own_ids_apply)
  then show ?thesis by (simp add: release_zero_def)
qed

lemma overlay_install_eq:
  assumes "distinct (map ch_coord chs)"
  shows "overlay_install nw chs ov =
    \<lparr>ov_tiles = ov_tiles ov ++ change_table chs,
     ov_owners = foldl (\<lambda>m ch. own_ids (ch_coord ch) (after ch) m) (release_zero nw ov chs) chs,
     ov_coords = ov_coords ov @ filter (\<lambda>c. ov_tiles ov c = None) (map ch_coord chs)\<rparr>"
proof -
  have "foldl (\<lambda>ov ch. ov\<lparr>ov_coords := (if ov_tiles ov (ch_coord ch) = None then ov_coords ov @ [ch_coord ch] else ov_coords ov),
          ov_tiles := (ov_tiles ov)(ch_coord ch \<mapsto> after ch),
          ov_owners := own_ids (ch_coord ch) (after ch) (ov_owners ov)\<rparr>) ov chs =
    \<lparr>ov_tiles = ov_tiles ov ++ change_table chs,
     ov_owners = foldl (\<lambda>m ch. own_ids (ch_coord ch) (after ch) m) (ov_owners ov) chs,
     ov_coords = ov_coords ov @ filter (\<lambda>c. ov_tiles ov c = None) (map ch_coord chs)\<rparr>" for ov :: projection_overlay
    using assms
  proof (induction chs arbitrary: ov)
    case Nil
    then show ?case by (simp add: change_table_def)
  next
    case (Cons ch chs)
    have "ch_coord ch \<notin> dom (change_table chs)" using Cons.prems by (simp add: dom_change_table)
    then have t: "(ov_tiles ov)(ch_coord ch \<mapsto> after ch) ++ change_table chs = ov_tiles ov ++ change_table (ch # chs)"
      by (auto simp: change_table_def map_add_def fun_eq_iff split: option.splits)
    have f: "filter (\<lambda>c. ((ov_tiles ov)(ch_coord ch \<mapsto> after ch)) c = None) (map ch_coord chs) =
        filter (\<lambda>c. ov_tiles ov c = None) (map ch_coord chs)"
      using Cons.prems by (intro filter_cong refl) (auto simp: image_iff)
    have "distinct (map ch_coord chs)" using Cons.prems by simp
    then show ?case
      unfolding foldl.simps(2) Cons.IH [OF \<open>distinct (map ch_coord chs)\<close>]
      by (simp add: t f del: fun_upd_apply)
  qed
  then show ?thesis by (simp add: overlay_install_def release_zero_def Let_def)
qed

lemma overlay_apply_spec:
  assumes "indexed nw" "ov_ok nw tb ov" "ids_ok tb"
  defines "inside \<equiv> Contains (client_map nw)"
  shows "table_fits inside tb (changes op) \<Longrightarrow>
      overlay_apply nw op ov = Inr (overlay_install nw (changes op) ov) \<and>
      ov_ok nw (tb ++ change_table (changes op)) (overlay_install nw (changes op) ov)"
    and "\<not> table_fits inside tb (changes op) \<Longrightarrow> \<exists>e. overlay_apply nw op ov = Inl e"
proof -
  let ?chs = "changes op"
  let ?scan = "scan overlay_errors inside (overlay_tile nw ov) StableID_Validate (overlay_owner nw ov) ?chs"
  have fits: "?scan = Inr () \<longleftrightarrow> table_fits inside tb ?chs"
    by (rule scan_fits [OF _ ov_okD(2) [OF assms(2)]]) (simp only: overlay_tile_table [OF assms(1,2)] view_state_at)
  show "\<exists>e. overlay_apply nw op ov = Inl e" if "\<not> table_fits inside tb ?chs"
    using that fits by (cases ?scan) (auto simp: overlay_apply_def inside_def)
  assume t: "table_fits inside tb ?chs"
  note f = table_fitsD [OF t]
  have eq: "overlay_apply nw op ov = Inr (overlay_install nw ?chs ov)"
    using fits t by (simp add: overlay_apply_def inside_def)
  note ins = overlay_install_eq [OF f(1), of nw ov]
  have nz: "ch_coord ch \<noteq> zero_coord" if "ch \<in> set ?chs" for ch
    using f(3) [OF that] inside_not_zero by (simp add: inside_def)
  have held: "set (tile_ids (overlay_tile nw ov (ch_coord ch))) = set (tile_ids (before ch))" if "ch \<in> set ?chs" for ch
    using f(4) [OF that] by (intro view_ids) (simp add: overlay_tile_table [OF assms(1,2)])
  have own: "overlay_owner nw (overlay_install nw ?chs ov) i = Some c \<longleftrightarrow>
      (\<exists>ch\<in>set ?chs. ch_coord ch = c \<and> i \<in> set (tile_ids (after ch))) \<or>
      (\<forall>ch\<in>set ?chs. i \<notin> set (tile_ids (after ch)) \<and> i \<notin> set (tile_ids (before ch))) \<and> overlay_owner nw ov i = Some c" for i c
  proof (cases "\<exists>ch\<in>set ?chs. i \<in> set (tile_ids (after ch))")
    case True
    then obtain ch where ch: "ch \<in> set ?chs" "i \<in> set (tile_ids (after ch))" by blast
    then have "ov_owners (overlay_install nw ?chs ov) i = Some (ch_coord ch)"
      unfolding ins using own_fold [OF f(2), of ch_coord "release_zero nw ov ?chs" i] by auto
    then have o: "overlay_owner nw (overlay_install nw ?chs ov) i = Some (ch_coord ch)"
      using nz [OF ch(1)] by (simp add: overlay_owner_def)
    have "ch' = ch" if "ch' \<in> set ?chs" "i \<in> set (tile_ids (after ch'))" for ch'
      using distinct_concat_disjoint [OF f(2) that(1) ch(1)] that(2) ch(2) by blast
    then show ?thesis unfolding o option.inject using ch by blast
  next
    case False
    have "ov_owners (overlay_install nw ?chs ov) i = Some c' \<longleftrightarrow> release_zero nw ov ?chs i = Some c'" for c'
      unfolding ins using own_fold [OF f(2), of ch_coord "release_zero nw ov ?chs" i] False by auto
    then have r: "ov_owners (overlay_install nw ?chs ov) i = release_zero nw ov ?chs i" by (metis option.exhaust)
    show ?thesis
    proof (cases "\<exists>ch\<in>set ?chs. i \<in> set (tile_ids (before ch))")
      case True
      then have "release_zero nw ov ?chs i = Some zero_coord" using held by (simp add: release_zero_apply)
      then have "overlay_owner nw (overlay_install nw ?chs ov) i = None" using r by (simp add: overlay_owner_def)
      then show ?thesis using True False by simp
    next
      case other: False
      then have "release_zero nw ov ?chs i = ov_owners ov i" using held by (simp add: release_zero_apply)
      then have "overlay_owner nw (overlay_install nw ?chs ov) i = overlay_owner nw ov i" using r by (simp add: overlay_owner_def)
      then show ?thesis using other False by simp
    qed
  qed
  have "owners_ok (tb ++ change_table ?chs) (overlay_owner nw (overlay_install nw ?chs ov))"
    by (rule owners_okI [OF assms(3) ov_okD(2) [OF assms(2)] t own])
  moreover have "set (ov_coords (overlay_install nw ?chs ov)) = dom (ov_tiles (overlay_install nw ?chs ov))"
    using assms(2) unfolding ins by (auto simp: ov_ok_def dom_change_table)
  moreover have "distinct (ov_coords (overlay_install nw ?chs ov))"
    using assms(2) f(1) unfolding ins by (auto simp: ov_ok_def)
  ultimately show "overlay_apply nw op ov = Inr (overlay_install nw ?chs ov) \<and>
      ov_ok nw (tb ++ change_table ?chs) (overlay_install nw ?chs ov)"
    using assms(2) eq by (simp add: ov_ok_def) (simp add: ins)
qed

definition overlay_of :: "network \<Rightarrow> operation list \<Rightarrow> projection_overlay" where
  "overlay_of nw ops = foldl (\<lambda>ov op. case overlay_apply nw op ov of Inl _ \<Rightarrow> ov | Inr ov' \<Rightarrow> ov') empty_overlay ops"

lemma overlay_of_ok:
  assumes "indexed nw"
  shows "ov_ok nw (spec_tables (Contains (client_map nw)) (client_table nw) ops) (overlay_of nw ops)"
proof -
  have "ov_ok nw (spec_tables (Contains (client_map nw)) tb ops)
      (foldl (\<lambda>ov op. case overlay_apply nw op ov of Inl _ \<Rightarrow> ov | Inr ov' \<Rightarrow> ov') ov ops)"
    if "ov_ok nw tb ov" "ids_ok tb" for tb ov
    using that
  proof (induction ops arbitrary: tb ov)
    case (Cons op ops)
    let ?next = "case overlay_apply nw op ov of Inl _ \<Rightarrow> ov | Inr ov' \<Rightarrow> ov'"
    have "ov_ok nw (spec_step (Contains (client_map nw)) tb op) ?next"
      using overlay_apply_spec [OF assms Cons.prems, of op] Cons.prems(1)
      by (cases "table_fits (Contains (client_map nw)) tb (changes op)") (auto simp: spec_step_def)
    then show ?case
      unfolding foldl.simps(2) spec_tables_simps by (rule Cons.IH) (rule spec_step_ids_ok [OF Cons.prems(2)])
  qed simp
  then show ?thesis
    unfolding overlay_of_def using ov_ok_start [OF assms] indexedD(5) [OF assms] by blast
qed

lemma rebuildVisibleLocked_eq:
  "rebuildVisibleLocked nw = nw\<lparr>nw_visible_tiles := ov_tiles (overlay_of nw (pending_ops (nw_projection nw))),
     nw_visible_coords := ov_coords (overlay_of nw (pending_ops (nw_projection nw)))\<rparr>"
  by (simp add: rebuildVisibleLocked_def overlay_of_def Let_def)

section \<open>The view of a set of coordinates\<close>

lemma set_owners_apply:
  "set_owners c pr st m i = (if i \<in> set (tile_ids st) then Some \<lparr>eo_coord = c, eo_present = pr\<rparr> else m i)"
proof -
  have "foldl (\<lambda>m p. m(prefab_id p \<mapsto> \<lparr>eo_coord = c, eo_present = pr\<rparr>)) m ps i =
      (if i \<in> prefab_id ` set ps then Some \<lparr>eo_coord = c, eo_present = pr\<rparr> else m i)" for ps :: "prefab_state list"
    by (induction ps arbitrary: m) auto
  then show ?thesis by (simp add: set_owners_def tile_ids_def)
qed

lemma set_owners_fold:
  assumes "distinct (concat (map (\<lambda>x. tile_ids (g x)) xs))"
  shows "foldl (\<lambda>m x. set_owners (f x) pr (g x) m) m xs i = Some e \<longleftrightarrow>
    (\<exists>x\<in>set xs. e = \<lparr>eo_coord = f x, eo_present = pr\<rparr> \<and> i \<in> set (tile_ids (g x))) \<or>
    (\<forall>x\<in>set xs. i \<notin> set (tile_ids (g x))) \<and> m i = Some e"
  using assms by (induction xs arbitrary: m) (auto simp: set_owners_apply)

lemma set_owners_other:
  "\<forall>x\<in>set xs. i \<notin> set (tile_ids (g x)) \<Longrightarrow> foldl (\<lambda>m x. set_owners (f x) pr (g x) m) m xs i = m i"
  by (induction xs arbitrary: m) (simp_all add: set_owners_apply)

lemma set_owners_absent:
  "\<exists>x\<in>set xs. i \<in> set (tile_ids (g x)) \<Longrightarrow>
     \<exists>c. foldl (\<lambda>m x. set_owners (f x) False (g x) m) m xs i = Some \<lparr>eo_coord = c, eo_present = False\<rparr>"
proof (induction xs arbitrary: m)
  case (Cons x xs)
  show ?case
  proof (cases "\<exists>y\<in>set xs. i \<in> set (tile_ids (g y))")
    case True
    then show ?thesis using Cons.IH by simp
  next
    case False
    then have "i \<in> set (tile_ids (g x))" using Cons.prems by simp
    have "foldl (\<lambda>m x. set_owners (f x) False (g x) m) m (x # xs) i = set_owners (f x) False (g x) m i"
      unfolding foldl.simps(2) by (rule set_owners_other) (use False in blast)
    also have "\<dots> = Some \<lparr>eo_coord = f x, eo_present = False\<rparr>"
      using \<open>i \<in> set (tile_ids (g x))\<close> by (simp add: set_owners_apply)
    finally show ?thesis by blast
  qed
qed simp

lemma eff_install_eq:
  assumes "distinct (map ch_coord chs)"
  shows "eff_install chs v = (fst v ++ change_table chs,
    foldl (\<lambda>m ch. set_owners (ch_coord ch) True (after ch) m)
      (foldl (\<lambda>m ch. set_owners (ch_coord ch) False (state_at (fst v) (ch_coord ch)) m) (snd v) chs) chs)"
proof -
  have "foldl (\<lambda>v ch. let state = CloneTileState (after ch) in
          ((fst v)(ch_coord ch \<mapsto> state), set_owners (ch_coord ch) True state (snd v))) w chs =
      (fst w ++ change_table chs, foldl (\<lambda>m ch. set_owners (ch_coord ch) True (after ch) m) (snd w) chs)"
    for w :: "(coord \<rightharpoonup> tile_state) \<times> (stable_id \<rightharpoonup> effective_owner)"
    using assms
  proof (induction chs arbitrary: w)
    case Nil
    then show ?case by (simp add: change_table_def)
  next
    case (Cons ch chs)
    have "ch_coord ch \<notin> dom (change_table chs)" using Cons.prems by (simp add: dom_change_table)
    then have t: "(fst w)(ch_coord ch \<mapsto> after ch) ++ change_table chs = fst w ++ change_table (ch # chs)"
      by (auto simp: change_table_def map_add_def fun_eq_iff split: option.splits)
    have "distinct (map ch_coord chs)" using Cons.prems by simp
    then show ?case
      unfolding foldl.simps(2) Cons.IH [OF \<open>distinct (map ch_coord chs)\<close>]
      by (simp add: t Let_def del: fun_upd_apply)
  qed
  then show ?thesis by (simp add: eff_install_def Let_def)
qed

definition eff_ok ::
  "coord set \<Rightarrow> (stable_id \<rightharpoonup> coord) \<Rightarrow> (coord \<rightharpoonup> tile_state) \<Rightarrow>
     (coord \<rightharpoonup> tile_state) \<times> (stable_id \<rightharpoonup> effective_owner) \<Rightarrow> bool" where
  "eff_ok C owners tb v \<longleftrightarrow> (\<forall>c. fst v c = (if c \<in> C then Some (state_at tb c) else None)) \<and>
     owners_ok tb (eff_owner owners (snd v))"

lemma eff_okD:
  assumes "eff_ok C owners tb v"
  shows "c \<in> C \<Longrightarrow> state_at (fst v) c = state_at tb c" "owners_ok tb (eff_owner owners (snd v))"
  using assms by (simp_all add: eff_ok_def state_at_def)

lemma state_override:
  "state_at (tb ++ change_table chs) c = (case change_table chs c of Some st \<Rightarrow> st | None \<Rightarrow> state_at tb c)"
  by (simp add: state_at_def map_add_def split: option.splits)

lemma eff_step_ok:
  assumes "eff_ok C owners tb v" "ids_ok tb" "op_valid inside op" "op_coords [op] \<subseteq> C"
  shows "eff_ok C owners (spec_step inside tb op) (eff_step owners op v)"
proof -
  let ?chs = "changes op"
  let ?scan = "scan silent (\<lambda>_. True) (state_at (fst v)) (\<lambda>_. None) (eff_owner owners (snd v)) ?chs"
  have inC: "ch_coord ch \<in> C" if "ch \<in> set ?chs" for ch using assms(4) that by (auto simp: op_coords_def)
  have st: "state_at (fst v) (ch_coord ch) = state_at tb (ch_coord ch)" if "ch \<in> set ?chs" for ch
    by (rule eff_okD(1) [OF assms(1) inC [OF that]])
  have fits: "?scan = Inr () \<longleftrightarrow> table_fits inside tb ?chs"
    by (rule scan_fits_valid [OF _ eff_okD(2) [OF assms(1)] assms(3)]) (simp only: st view_state_at)
  show ?thesis
  proof (cases "table_fits inside tb ?chs")
    case False
    then have "eff_step owners op v = v" using fits by (cases ?scan) (simp_all add: eff_step_def)
    then show ?thesis using assms(1) False by (simp add: spec_step_def)
  next
    case True
    note f = table_fitsD [OF True]
    have eq: "eff_step owners op v = eff_install ?chs v" using fits True by (simp add: eff_step_def)
    note ins = eff_install_eq [OF f(1), of v]
    have held: "set (tile_ids (state_at (fst v) (ch_coord ch))) = set (tile_ids (before ch))" if "ch \<in> set ?chs" for ch
      using f(4) [OF that] by (intro view_ids) (simp add: st [OF that])
    have own: "eff_owner owners (snd (eff_install ?chs v)) i = Some c \<longleftrightarrow>
      (\<exists>ch\<in>set ?chs. ch_coord ch = c \<and> i \<in> set (tile_ids (after ch))) \<or>
      (\<forall>ch\<in>set ?chs. i \<notin> set (tile_ids (after ch)) \<and> i \<notin> set (tile_ids (before ch))) \<and>
        eff_owner owners (snd v) i = Some c" for i c
    proof (cases "\<exists>ch\<in>set ?chs. i \<in> set (tile_ids (after ch))")
      case True
      then obtain ch where ch: "ch \<in> set ?chs" "i \<in> set (tile_ids (after ch))" by blast
      then have "snd (eff_install ?chs v) i = Some \<lparr>eo_coord = ch_coord ch, eo_present = True\<rparr>"
        unfolding ins snd_conv set_owners_fold [OF f(2)] by blast
      then have o: "eff_owner owners (snd (eff_install ?chs v)) i = Some (ch_coord ch)" by (simp add: eff_owner_def)
      have "ch' = ch" if "ch' \<in> set ?chs" "i \<in> set (tile_ids (after ch'))" for ch'
        using distinct_concat_disjoint [OF f(2) that(1) ch(1)] that(2) ch(2) by blast
      then show ?thesis unfolding o option.inject using ch by blast
    next
      case False
      then have new: "snd (eff_install ?chs v) i =
          foldl (\<lambda>m ch. set_owners (ch_coord ch) False (state_at (fst v) (ch_coord ch)) m) (snd v) ?chs i"
        unfolding ins snd_conv by (intro set_owners_other) blast
      show ?thesis
      proof (cases "\<exists>ch\<in>set ?chs. i \<in> set (tile_ids (before ch))")
        case True
        then obtain c' where "snd (eff_install ?chs v) i = Some \<lparr>eo_coord = c', eo_present = False\<rparr>"
          unfolding new using set_owners_absent [of ?chs i "\<lambda>ch. state_at (fst v) (ch_coord ch)" ch_coord "snd v"] held by blast
        then have "eff_owner owners (snd (eff_install ?chs v)) i = None" by (simp add: eff_owner_def)
        then show ?thesis using True False by simp
      next
        case other: False
        then have "snd (eff_install ?chs v) i = snd v i"
          unfolding new using held by (intro set_owners_other) blast
        then have "eff_owner owners (snd (eff_install ?chs v)) i = eff_owner owners (snd v) i" by (simp add: eff_owner_def)
        then show ?thesis using other False by simp
      qed
    qed
    have "owners_ok (tb ++ change_table ?chs) (eff_owner owners (snd (eff_install ?chs v)))"
      by (rule owners_okI [OF assms(2) eff_okD(2) [OF assms(1)] True own])
    moreover have "fst (eff_install ?chs v) c = (if c \<in> C then Some (state_at (tb ++ change_table ?chs) c) else None)" for c
    proof -
      have "c \<in> C" if "change_table ?chs c = Some x" for x
        using that dom_change_table [of ?chs] inC by (force simp: dom_def)
      then show ?thesis
        using assms(1) unfolding ins fst_conv state_override by (auto simp: eff_ok_def map_add_def split: option.splits)
    qed
    ultimately show ?thesis using True by (simp add: eff_ok_def eq spec_step_def)
  qed
qed

lemma eff_fold_ok:
  assumes "eff_ok C owners tb v" "ids_ok tb" "\<forall>op\<in>set ops. op_valid inside op" "op_coords ops \<subseteq> C"
  shows "eff_ok C owners (spec_tables inside tb ops) (foldl (\<lambda>v op. eff_step owners op v) v ops)"
  using assms
proof (induction ops arbitrary: tb v)
  case (Cons op ops)
  have "op_coords [op] \<subseteq> C" "op_coords ops \<subseteq> C" using Cons.prems(4) by (simp_all add: op_coords_def)
  then show ?case
    unfolding foldl.simps(2) spec_tables_simps using Cons.prems
    by (intro Cons.IH eff_step_ok spec_step_ids_ok) simp_all
qed simp

lemma effective_overlay_ok:
  assumes "tb = authority ++ overrides" "owners_ok tb (eff_owner owners owner_overrides)" "ids_ok tb"
    and "\<forall>op\<in>set (pending_ops p). op_valid inside op"
  shows "eff_ok (coords \<union> op_coords (pending_ops p)) owners (spec_tables inside tb (pending_ops p))
    (effectiveProjectionOverlay p authority owners coords overrides owner_overrides)"
  unfolding effectiveProjectionOverlay_def
proof (rule eff_fold_ok [OF _ assms(3,4)])
  show "eff_ok (coords \<union> op_coords (pending_ops p)) owners tb
      (eff_start authority (coords \<union> op_coords (pending_ops p)) overrides, owner_overrides)"
    using assms(2) by (auto simp: eff_ok_def eff_start_def assms(1) state_at_def map_add_def split: option.splits)
qed simp

lemma eff_owner_none [simp]: "eff_owner owners Map.empty = owners"
  by (simp add: fun_eq_iff eff_owner_def)

lemma effective_overlay_plain:
  assumes "owners_ok tb owners" "ids_ok tb" "\<forall>op\<in>set (pending_ops p). op_valid inside op"
  shows "eff_ok (coords \<union> op_coords (pending_ops p)) owners (spec_tables inside tb (pending_ops p))
    (effectiveProjectionOverlay p tb owners coords Map.empty Map.empty)"
  using assms by (intro effective_overlay_ok) simp_all

section \<open>The owners before a batch\<close>

lemma before_distinct:
  assumes "ids_ok tb" "table_fits inside tb chs"
  shows "distinct (concat (map (\<lambda>ch. tile_ids (before ch)) chs))"
proof -
  note f = table_fitsD [OF assms(2)]
  have one: "distinct (tile_ids (before ch))" if "ch \<in> set chs" for ch
  proof (cases "tb (ch_coord ch)")
    case (Some st)
    then have "tile_ids (before ch) = tile_ids st" using f(4) [OF that] by (simp add: table_view_def tile_ids_view)
    then show ?thesis using ids_okD(1) [OF assms(1) Some] by simp
  next
    case None
    then show ?thesis using f(4) [OF that] by (simp add: table_view_def tile_ids_view)
  qed
  have two: "set (tile_ids (before ch)) \<inter> set (tile_ids (before ch')) = {}"
    if "ch \<in> set chs" "ch' \<in> set chs" "ch_coord ch \<noteq> ch_coord ch'" for ch ch'
    using table_before_ids [OF assms(2) that(1)] table_before_ids [OF assms(2) that(2)]
      ids_okD(2) [OF assms(1) _ _ that(3)] by blast
  have "distinct (map ch_coord xs) \<Longrightarrow> set xs \<subseteq> set chs \<Longrightarrow> distinct (concat (map (\<lambda>ch. tile_ids (before ch)) xs))" for xs
  proof (induction xs)
    case (Cons x xs)
    have "ch_coord x \<noteq> ch_coord y" if "y \<in> set xs" for y using Cons.prems(1) imageI [OF that, of ch_coord] by auto
    then show ?case using Cons one [of x] two [of x] by (auto simp: subset_iff)
  qed simp
  then show ?thesis using f(1) by blast
qed

lemma before_owners_ok:
  assumes "ids_ok tb" "table_fits inside tb chs" "owners_ok (tb ++ change_table chs) owners"
  shows "owners_ok tb (eff_owner owners (before_owners chs))"
  unfolding owners_ok_def
proof (intro allI)
  fix i c
  note f = table_fitsD [OF assms(2)] and d = before_distinct [OF assms(1,2)]
  define ids where "ids = foldl (\<lambda>m ch. own_ids (ch_coord ch) (before ch) m) Map.empty chs"
  define present where "present = foldl (\<lambda>m ch. set_owners (ch_coord ch) True (before ch) m) Map.empty chs"
  define old where "old j = (case ids j of Some c \<Rightarrow> \<lparr>eo_coord = c, eo_present = True\<rparr>
      | None \<Rightarrow> \<lparr>eo_coord = zero_coord, eo_present = False\<rparr>)" for j
  have fold: "foldl (\<lambda>m ch. foldl (\<lambda>m p. m(prefab_id p \<mapsto> old (prefab_id p))) m (prefab_list (after ch))) m xs j =
      (if \<exists>ch\<in>set xs. j \<in> set (tile_ids (after ch)) then Some (old j) else m j)" for m xs j
  proof -
    have inner: "foldl (\<lambda>m p. m(prefab_id p \<mapsto> old (prefab_id p))) n ps j =
        (if j \<in> prefab_id ` set ps then Some (old j) else n j)" for n ps
      by (induction ps arbitrary: n) auto
    show ?thesis by (induction xs arbitrary: m) (auto simp: tile_ids_def inner)
  qed
  have b: "before_owners chs i = (if \<exists>ch\<in>set chs. i \<in> set (tile_ids (after ch)) then Some (old i) else present i)"
    unfolding before_owners_def Let_def fold [unfolded old_def ids_def] present_def old_def ids_def by simp
  have held: "(\<exists>st. tb (ch_coord ch) = Some st \<and> i \<in> set (tile_ids st)) \<longleftrightarrow> i \<in> set (tile_ids (before ch))"
    if "ch \<in> set chs" for ch using table_before_ids [OF assms(2) that] by blast
  show "eff_owner owners (before_owners chs) i = Some c \<longleftrightarrow> (\<exists>st. tb c = Some st \<and> i \<in> set (tile_ids st))"
  proof (cases "\<exists>ch\<in>set chs. i \<in> set (tile_ids (before ch))")
    case True
    then obtain ch where ch: "ch \<in> set chs" "i \<in> set (tile_ids (before ch))" by blast
    have "ids i = Some (ch_coord ch)" unfolding ids_def own_fold [OF d] using ch by blast
    moreover have "present i = Some \<lparr>eo_coord = ch_coord ch, eo_present = True\<rparr>"
      unfolding present_def set_owners_fold [OF d] using ch by blast
    ultimately have o: "eff_owner owners (before_owners chs) i = Some (ch_coord ch)"
      using b by (simp add: eff_owner_def old_def split: if_splits)
    obtain st where st: "tb (ch_coord ch) = Some st" "i \<in> set (tile_ids st)" using held [OF ch(1)] ch(2) by blast
    have "c = ch_coord ch" if "tb c = Some st'" "i \<in> set (tile_ids st')" for st'
      using ids_okD(2) [OF assms(1) that(1) st(1)] that(2) st(2) by blast
    then show ?thesis unfolding o option.inject using st by blast
  next
    case False
    then have none: "ids i = None" "present i = None"
      using own_fold [OF d, of ch_coord Map.empty i] set_owners_other [of chs i before ch_coord True Map.empty]
      by (auto simp: ids_def present_def)
    show ?thesis
    proof (cases "\<exists>ch\<in>set chs. i \<in> set (tile_ids (after ch))")
      case True
      then obtain ch where ch: "ch \<in> set chs" "i \<in> set (tile_ids (after ch))" by blast
      have "eff_owner owners (before_owners chs) i = None" using b True none by (simp add: eff_owner_def old_def)
      moreover have False if st: "tb c = Some st" "i \<in> set (tile_ids st)" for st
      proof -
        obtain ch' where "ch' \<in> set chs" "c = ch_coord ch'" using f(6) [OF ch st] by blast
        then show False using held [of ch'] st False by blast
      qed
      ultimately show ?thesis by auto
    next
      case other: False
      then have "eff_owner owners (before_owners chs) i = owners i" using b none by (simp add: eff_owner_def)
      moreover have "owners i = Some c \<longleftrightarrow> (\<exists>st. (tb ++ change_table chs) c = Some st \<and> i \<in> set (tile_ids st))"
        using assms(3) by (simp add: owners_ok_def)
      moreover have "(\<exists>st. (tb ++ change_table chs) c = Some st \<and> i \<in> set (tile_ids st)) \<longleftrightarrow>
          (\<exists>st. tb c = Some st \<and> i \<in> set (tile_ids st))"
        unfolding override_Some_iff [OF f(1)] using other False held by blast
      ultimately show ?thesis by simp
    qed
  qed
qed

end
