(* ===== verification/Client_Inv.thy ===== *)
theory Client_Inv
  imports Client_Views Engine_Props
begin

text \<open>
  The invariant of a network executor and its preservation by every step: the acknowledged map is
  valid and its indexes, its hash and its hasher are those of the map; what is visible is the overlay
  of the pending operations.
\<close>

section \<open>Steps\<close>

text \<open>Giving up the draft of a conflict.\<close>

inductive client_drop :: "operation_id \<Rightarrow> network \<Rightarrow> network \<Rightarrow> bool" for i :: operation_id where
  drop_discard: "DiscardConflict c i nw = Inr (capture, nw') \<Longrightarrow> client_drop i nw nw'"
| drop_dismiss: "client_drop i nw (snd (DismissConflict i nw))"

text \<open>The steps of an executor, other than an acceptance by the server, a replacement of the
  acknowledged map and an update that the editor takes. Every section that holds the mutex is one step.\<close>

inductive client_local :: "digest_fun \<Rightarrow> nat \<Rightarrow> stamp_fun \<Rightarrow> network \<Rightarrow> network \<Rightarrow> bool"
  for H :: digest_fun and procs :: nat and stamp :: stamp_fun where
  local_reserve: "client_local H procs stamp nw (snd (reserveAdmission op nw))"
| local_refuse: "client_local H procs stamp nw (refuseAdmission H procs op cause nw)"
| local_execute: "client_local H procs stamp nw (snd (executeAdmitted H procs c op ticket nw))"
| local_refuse_admitted: "client_local H procs stamp nw (refuseAdmitted H procs op cause ticket nw)"
| local_finish: "client_local H procs stamp nw (finishAdmission i ticket bytes was_sent nw)"
| local_fail: "client_local H procs stamp nw (failPending H procs i cause nw)"
| local_suspend: "client_local H procs stamp nw (suspendLocked H procs cause nw)"
| local_terminate: "client_local H procs stamp nw (failAllLocked H procs cause nw)"
| local_resume: "client_local H procs stamp nw (snd (Resume nil_transport nw))"
| local_receive: "(\<And>acc hash. decoded \<noteq> Inr (OperationAccepted acc hash)) \<Longrightarrow>
    client_local H procs stamp nw (snd (Receive H procs stamp decoded nw))"
| local_drop: "client_drop i nw nw' \<Longrightarrow> client_local H procs stamp nw nw'"
| local_claim: "client_local H procs stamp nw (snd (claim_rebuild i nw))"
| local_release: "client_local H procs stamp nw (release_rebuild i nw)"
| local_updates: "client_local H procs stamp nw (ProjectionUpdates nw)"
| local_consume: "client_local H procs stamp nw (nw\<lparr>nw_changes := ch, nw_updates := up\<rparr>)"

section \<open>What a step reads of the projection\<close>

definition ccore :: "network \<Rightarrow> projection \<times> (coord \<rightharpoonup> nat) \<times> hasher option \<times> (coord \<rightharpoonup> tile_state) \<times> coord list \<times>
    (coord \<rightharpoonup> tile_state) \<times> (stable_id \<rightharpoonup> coord)" where
  "ccore nw = (nw_projection nw, nw_tile_indexes nw, nw_hasher nw, nw_visible_tiles nw, nw_visible_coords nw,
     authority_tiles nw, authority_owners nw)"

lemma ccoreD:
  assumes "ccore nw = ccore nw'"
  shows "nw_projection nw = nw_projection nw'" "nw_tile_indexes nw = nw_tile_indexes nw'" "nw_hasher nw = nw_hasher nw'"
    "nw_visible_tiles nw = nw_visible_tiles nw'" "nw_visible_coords nw = nw_visible_coords nw'"
    "authority_tiles nw = authority_tiles nw'" "authority_owners nw = authority_owners nw'"
  using assms by (simp_all add: ccore_def)

lemma acknowledged_cong:
  assumes "client_map nw = client_map nw'" "nw_tile_indexes nw = nw_tile_indexes nw'"
  shows "acknowledgedTileLocked nw = acknowledgedTileLocked nw'"
  by (rule ext) (simp only: acknowledgedTileLocked_def assms)

lemma overlay_of_cong:
  assumes "client_map nw = client_map nw'" "nw_tile_indexes nw = nw_tile_indexes nw'"
    "authority_owners nw = authority_owners nw'"
  shows "overlay_of nw = overlay_of nw'"
proof -
  have t: "overlay_tile nw = overlay_tile nw'"
    by (rule ext, rule ext) (simp only: overlay_tile_def acknowledged_cong [OF assms(1,2)])
  have o: "overlay_owner nw = overlay_owner nw'"
    by (rule ext, rule ext) (simp only: overlay_owner_def assms(3))
  have "overlay_apply nw = overlay_apply nw'"
    by (rule ext, rule ext) (simp only: overlay_apply_def overlay_install_def assms(1) t o)
  then show ?thesis by (simp only: overlay_of_def [abs_def])
qed

definition client_ok :: "digest_fun \<Rightarrow> nat \<Rightarrow> network \<Rightarrow> bool" where
  "client_ok H procs nw \<longleftrightarrow> indexed nw \<and>
     acknowledged_hash (nw_projection nw) = h_digest (newCanonicalHasher H procs (client_map nw)) \<and>
     nw_hasher nw = Some (newCanonicalHasher H procs (client_map nw)) \<and>
     (\<forall>op\<in>set (pending_ops (nw_projection nw)). op_valid (Contains (client_map nw)) op) \<and>
     nw_visible_tiles nw = ov_tiles (overlay_of nw (pending_ops (nw_projection nw))) \<and>
     nw_visible_coords nw = ov_coords (overlay_of nw (pending_ops (nw_projection nw)))"

lemma client_okD:
  assumes "client_ok H procs nw"
  shows "indexed nw" "acknowledged_hash (nw_projection nw) = h_digest (newCanonicalHasher H procs (client_map nw))"
    "nw_hasher nw = Some (newCanonicalHasher H procs (client_map nw))"
    "\<forall>op\<in>set (pending_ops (nw_projection nw)). op_valid (Contains (client_map nw)) op"
    "nw_visible_tiles nw = ov_tiles (overlay_of nw (pending_ops (nw_projection nw)))"
    "nw_visible_coords nw = ov_coords (overlay_of nw (pending_ops (nw_projection nw)))"
  using assms by (simp_all add: client_ok_def)

lemma indexed_cong:
  assumes "acknowledged (nw_projection nw) = acknowledged (nw_projection nw')" "nw_tile_indexes nw = nw_tile_indexes nw'"
    "authority_tiles nw = authority_tiles nw'" "authority_owners nw = authority_owners nw'"
  shows "indexed nw = indexed nw'"
  using assms by (simp add: indexed_def)

lemma client_ok_cong:
  assumes "ccore nw = ccore nw'"
  shows "client_ok H procs nw = client_ok H procs nw'"
proof -
  note c = ccoreD [OF assms]
  have "indexed nw = indexed nw'" by (rule indexed_cong) (simp_all only: c)
  moreover have "overlay_of nw = overlay_of nw'" by (rule overlay_of_cong) (simp_all only: c)
  ultimately show ?thesis by (simp only: client_ok_def c)
qed

lemma client_ok_rebuild:
  assumes "indexed nw" "acknowledged_hash (nw_projection nw) = h_digest (newCanonicalHasher H procs (client_map nw))"
    "nw_hasher nw = Some (newCanonicalHasher H procs (client_map nw))"
    "\<forall>op\<in>set (pending_ops (nw_projection nw)). op_valid (Contains (client_map nw)) op"
  shows "client_ok H procs (rebuildVisibleLocked nw)"
proof -
  have "indexed (rebuildVisibleLocked nw) = indexed nw"
    by (rule indexed_cong) (simp_all add: rebuildVisibleLocked_eq)
  moreover have "overlay_of (rebuildVisibleLocked nw) = overlay_of nw"
    by (rule overlay_of_cong) (simp_all add: rebuildVisibleLocked_eq)
  ultimately show ?thesis using assms by (simp add: client_ok_def) (simp add: rebuildVisibleLocked_eq)
qed

lemma rebuild_sel [simp]:
  "nw_projection (rebuildVisibleLocked nw) = nw_projection nw" "nw_publication (rebuildVisibleLocked nw) = nw_publication nw"
  "nw_conflicts (rebuildVisibleLocked nw) = nw_conflicts nw" "nw_accepted (rebuildVisibleLocked nw) = nw_accepted nw"
  "nw_receipts (rebuildVisibleLocked nw) = nw_receipts nw" "nw_waiters (rebuildVisibleLocked nw) = nw_waiters nw"
  "nw_terminal (rebuildVisibleLocked nw) = nw_terminal nw" "authority_tiles (rebuildVisibleLocked nw) = authority_tiles nw"
  "authority_owners (rebuildVisibleLocked nw) = authority_owners nw" "nw_tile_indexes (rebuildVisibleLocked nw) = nw_tile_indexes nw"
  "nw_hasher (rebuildVisibleLocked nw) = nw_hasher nw"
  by (simp_all add: rebuildVisibleLocked_eq)

lemma verified_hash: "client_ok H procs nw \<Longrightarrow> verifiedMapHash H procs (nw_projection nw) = Inr (acknowledged_hash (nw_projection nw))"
  using client_okD(1,2) [of H procs nw]
  by (simp add: verifiedMapHash_def lift_model_def Snapshot_Hash_full indexedD(1))

definition client_spec :: "network \<Rightarrow> coord \<rightharpoonup> tile_state" where
  "client_spec nw = spec_tables (Contains (client_map nw)) (client_table nw) (pending_ops (nw_projection nw))"

section \<open>Submitting\<close>

lemma submit_ok:
  assumes "client_ok H procs nw" "submitProjectionLocked H procs op nw = Inr nw'"
  shows "table_fits (Contains (client_map nw)) (client_spec nw) (changes op)"
    and "nw' = rebuildVisibleLocked (nw\<lparr>nw_projection := (nw_projection nw)\<lparr>pending_ops := pending_ops (nw_projection nw) @ [op]\<rparr>\<rparr>)"
    and "client_ok H procs nw'"
proof -
  let ?p = "nw_projection nw" and ?inside = "Contains (client_map nw)"
  note ok = client_okD [OF assms(1)] and ix = indexedD [OF client_okD(1) [OF assms(1)]]
  obtain p' where p': "submitWithVerifiedOverlay op (verifiedMapHash H procs ?p) (authority_tiles nw) (authority_owners nw) ?p = Inr p'"
      and nw': "nw' = rebuildVisibleLocked (nw\<lparr>nw_projection := p'\<rparr>)"
    using assms(2) by (auto simp: submitProjectionLocked_def Let_def sum_bind_Inr_iff)
  define C where "C = op_coords [op] \<union> op_coords (pending_ops ?p)"
  define v where "v = effectiveProjectionOverlay ?p (authority_tiles nw) (authority_owners nw) (op_coords [op]) Map.empty Map.empty"
  have v: "eff_ok C (authority_owners nw) (client_spec nw) v"
    unfolding v_def C_def ix(3) client_spec_def by (rule effective_overlay_plain [OF ix(4,5) ok(4)])
  have scan: "scan submit_errors ?inside (state_at (fst v)) StableID_Validate (eff_owner (authority_owners nw) (snd v)) (changes op) = Inr ()"
      and eq: "p' = ?p\<lparr>pending_ops := pending_ops ?p @ [op]\<rparr>"
    using p' unfolding submitWithVerifiedOverlay_def Let_def sum_bind_Inr_iff v_def by auto
  have "tile_view (state_at (fst v) (ch_coord ch)) = table_view (client_spec nw) (ch_coord ch)" if "ch \<in> set (changes op)" for ch
  proof -
    have "ch_coord ch \<in> C" using that by (auto simp: C_def op_coords_def)
    then show ?thesis unfolding eff_okD(1) [OF v \<open>ch_coord ch \<in> C\<close>] by simp
  qed
  then show fits: "table_fits ?inside (client_spec nw) (changes op)"
    using scan scan_fits [OF _ eff_okD(2) [OF v]] by blast
  show nw'2: "nw' = rebuildVisibleLocked (nw\<lparr>nw_projection := ?p\<lparr>pending_ops := pending_ops ?p @ [op]\<rparr>\<rparr>)"
    using nw' eq by simp
  show "client_ok H procs nw'"
    unfolding nw'2
  proof (rule client_ok_rebuild)
    show "indexed (nw\<lparr>nw_projection := ?p\<lparr>pending_ops := pending_ops ?p @ [op]\<rparr>\<rparr>)"
      using ok(1) indexed_cong [of "nw\<lparr>nw_projection := ?p\<lparr>pending_ops := pending_ops ?p @ [op]\<rparr>\<rparr>" nw] by simp
  qed (use ok fits_valid [OF fits] in simp_all)
qed

lemma submitted_spec:
  assumes "client_ok H procs nw" "submitProjectionLocked H procs op nw = Inr nw'"
  shows "client_spec nw' = client_spec nw ++ change_table (changes op)"
  using submit_ok(1,2) [OF assms] by (simp add: client_spec_def spec_tables_append spec_step_def)

section \<open>Accepting\<close>

lemma accept_tiles_eq:
  "distinct (map ch_coord chs) \<Longrightarrow> accept_tiles chs m ts = (grow_indexes chs (length ts) m, write_tiles m chs ts)"
proof (induction chs arbitrary: m ts)
  case (Cons ch chs)
  have other: "ch_coord ch' \<noteq> ch_coord ch" if "ch' \<in> set chs" for ch' by (rule other_coords [OF Cons.prems that])
  show ?case
  proof (cases "m (ch_coord ch)")
    case None
    let ?ts = "ts @ [\<lparr>tile_coord = ch_coord ch, tile_st = after ch\<rparr>]"
    have "write_tiles (m(ch_coord ch \<mapsto> length ts)) chs ?ts = write_tiles m chs ?ts"
      using other by (intro write_tiles_cong) simp
    then show ?thesis using None Cons by (simp del: fun_upd_apply)
  next
    case (Some i)
    then show ?thesis using Cons by simp
  qed
qed simp

lemma authority_changes_eq:
  assumes "\<forall>ch\<in>set chs. acknowledgedTileLocked nw (ch_coord ch) = after ch"
  shows "applyAuthorityChanges chs nw = nw\<lparr>
    authority_tiles := authority_tiles nw ++ change_table (rev chs),
    authority_owners := foldl (\<lambda>m ch. own_ids (ch_coord ch) (after ch) m)
      (foldl (\<lambda>m ch. case authority_tiles nw (ch_coord ch) of Some st \<Rightarrow> release_ids st m | None \<Rightarrow> m) (authority_owners nw) chs) chs\<rparr>"
proof -
  have "foldl (\<lambda>nw ch. let state = acknowledgedTileLocked nw (ch_coord ch) in
          nw\<lparr>authority_tiles := (authority_tiles nw)(ch_coord ch \<mapsto> state),
             authority_owners := own_ids (ch_coord ch) state (authority_owners nw)\<rparr>) w xs =
      w\<lparr>authority_tiles := authority_tiles w ++ change_table (rev xs),
        authority_owners := foldl (\<lambda>m ch. own_ids (ch_coord ch) (after ch) m) (authority_owners w) xs\<rparr>"
    if "\<forall>ch\<in>set xs. acknowledgedTileLocked w (ch_coord ch) = after ch" for w xs
    using that
  proof (induction xs arbitrary: w)
    case Nil
    then show ?case by (simp add: change_table_def)
  next
    case (Cons ch xs)
    let ?w = "w\<lparr>authority_tiles := (authority_tiles w)(ch_coord ch \<mapsto> after ch),
        authority_owners := own_ids (ch_coord ch) (after ch) (authority_owners w)\<rparr>"
    have a: "acknowledgedTileLocked ?w = acknowledgedTileLocked w" by (rule acknowledged_cong) simp_all
    have t: "(authority_tiles w)(ch_coord ch \<mapsto> after ch) ++ change_table (rev xs) = authority_tiles w ++ change_table (rev (ch # xs))"
      by (simp add: change_table_def map_add_def fun_eq_iff split: option.splits)
    have ih: "foldl (\<lambda>nw ch. let state = acknowledgedTileLocked nw (ch_coord ch) in
          nw\<lparr>authority_tiles := (authority_tiles nw)(ch_coord ch \<mapsto> state),
             authority_owners := own_ids (ch_coord ch) state (authority_owners nw)\<rparr>) ?w xs =
      ?w\<lparr>authority_tiles := authority_tiles ?w ++ change_table (rev xs),
        authority_owners := foldl (\<lambda>m ch. own_ids (ch_coord ch) (after ch) m) (authority_owners ?w) xs\<rparr>"
      by (rule Cons.IH) (use Cons.prems a in simp)
    have now: "acknowledgedTileLocked w (ch_coord ch) = after ch" using Cons.prems by simp
    show ?case unfolding foldl.simps(2) now Let_def using ih by (simp add: t Let_def del: fun_upd_apply)
  qed
  note fold = this
  let ?r = "nw\<lparr>authority_owners := foldl (\<lambda>m ch. case authority_tiles nw (ch_coord ch) of Some st \<Rightarrow> release_ids st m | None \<Rightarrow> m)
      (authority_owners nw) chs\<rparr>"
  have "acknowledgedTileLocked ?r = acknowledgedTileLocked nw" by (rule acknowledged_cong) simp_all
  then show ?thesis unfolding applyAuthorityChanges_def Let_def using fold [of chs ?r] assms by (simp add: Let_def)
qed

lemma release_table:
  assumes "\<forall>ch\<in>set xs. table_view tb (ch_coord ch) = tile_view (before ch)"
  shows "foldl (\<lambda>m ch. case tb (ch_coord ch) of Some st \<Rightarrow> release_ids st m | None \<Rightarrow> m) m xs =
    foldl (\<lambda>m ch. release_ids (before ch) m) m xs"
  using assms
proof (induction xs arbitrary: m)
  case (Cons ch xs)
  have v: "table_view tb (ch_coord ch) = tile_view (before ch)" using Cons.prems by simp
  have "(case tb (ch_coord ch) of Some st \<Rightarrow> release_ids st m | None \<Rightarrow> m) = release_ids (before ch) m"
    using v by (cases "tb (ch_coord ch)") (simp_all add: fun_eq_iff release_ids_apply table_view_def tile_ids_view)
  then show ?case using Cons by simp
qed simp

definition next_map :: "accepted_operation \<Rightarrow> network \<Rightarrow> snapshot" where
  "next_map acc nw = rewritten (client_map nw) (nw_tile_indexes nw) (changes (acc_op acc)) (acc_revision acc)"

definition accepted_state :: "digest_fun \<Rightarrow> nat \<Rightarrow> accepted_operation \<Rightarrow> string \<Rightarrow> network \<Rightarrow> network" where
  "accepted_state H procs acc hash nw =
     nw\<lparr>nw_projection := \<lparr>acknowledged = next_map acc nw,
          pending_ops = drop_operation (op_id (acc_op acc)) (pending_ops (nw_projection nw)), acknowledged_hash = hash\<rparr>,
        nw_tile_indexes := grow_indexes (changes (acc_op acc)) (length (tiles (client_map nw))) (nw_tile_indexes nw),
        nw_hasher := Some (newCanonicalHasher H procs (next_map acc nw)),
        authority_tiles := client_table nw ++ change_table (changes (acc_op acc)),
        authority_owners := new_owners (changes (acc_op acc)) (authority_owners nw)\<rparr>"

lemma next_map_ok:
  assumes "indexed nw" "table_fits (Contains (client_map nw)) (client_table nw) (changes (acc_op acc))"
  shows "snapshot_ok (next_map acc nw)" "tile_table (tiles (next_map acc nw)) = client_table nw ++ change_table (changes (acc_op acc))"
    "Contains (next_map acc nw) = Contains (client_map nw)"
    "table_of (tiles (next_map acc nw)) (grow_indexes (changes (acc_op acc)) (length (tiles (client_map nw))) (nw_tile_indexes nw))
       (client_table nw ++ change_table (changes (acc_op acc)))"
    "agrees_outside (map ch_coord (changes (acc_op acc))) (client_map nw) (next_map acc nw)"
proof -
  let ?s = "client_map nw" and ?chs = "changes (acc_op acc)"
  note ix = indexedD [OF assms(1)] and f = table_fitsD [OF assms(2)]
  note w = written_ok [OF ix(1,2) assms(2)]
  have n: "next_map acc nw = (?s\<lparr>tiles := write_tiles (nw_tile_indexes nw) ?chs (tiles ?s)\<rparr>)\<lparr>snap_revision := acc_revision acc\<rparr>"
    by (simp add: next_map_def rewritten_def)
  have t: "tiles (next_map acc nw) = write_tiles (nw_tile_indexes nw) ?chs (tiles ?s)" by (simp add: n)
  show "Contains (next_map acc nw) = Contains ?s" by (simp add: next_map_def)
  show "tile_table (tiles (next_map acc nw)) = client_table nw ++ change_table ?chs" using w(2) by (simp add: n)
  have "snapshot_ok (s\<lparr>snap_revision := r\<rparr>) = snapshot_ok s" for s r
    by (simp add: snapshot_ok_def header_ok_def dims_ok_def Contains_def snapshot_ids_def)
  then show ok: "snapshot_ok (next_map acc nw)" using w(1) by (simp add: n)
  show "table_of (tiles (next_map acc nw)) (grow_indexes ?chs (length (tiles ?s)) (nw_tile_indexes nw)) (client_table nw ++ change_table ?chs)"
    unfolding t by (rule write_table [OF ix(2) f(1)])
  show "agrees_outside (map ch_coord ?chs) ?s (next_map acc nw)"
    unfolding agrees_outside_def list_all_iff list_ex_iff
  proof (intro ballI)
    fix u assume u: "u \<in> set (tiles ?s)"
    have d: "distinct (map tile_coord (tiles ?s))" "distinct (map tile_coord (tiles (next_map acc nw)))"
      using ix(1) ok by (simp_all add: snapshot_ok_def)
    show "tile_coord u \<in> set (map ch_coord ?chs) \<or> (\<exists>u'\<in>set (tiles (next_map acc nw)).
        tile_coord u' = tile_coord u \<and> tile_view (tile_st u') = tile_view (tile_st u))"
    proof (cases "tile_coord u \<in> ch_coord ` set ?chs")
      case False
      have "client_table nw (tile_coord u) = Some (tile_st u)" using u d(1) by (auto simp: tile_table_Some_iff)
      then have "tile_table (tiles (next_map acc nw)) (tile_coord u) = Some (tile_st u)"
        using False override_Some_iff [OF f(1), of "client_table nw"] w(2) by (simp add: n)
      then show ?thesis using d(2) by (auto simp: tile_table_Some_iff)
    qed simp
  qed
qed

lemma accept_iff:
  assumes "client_ok H procs nw"
  shows "acceptProjectionLocked H procs acc hash nw = Inr nw' \<longleftrightarrow>
    acc_revision acc = snap_revision (client_map nw) + 1 \<and> ValidateSHA256 ''authoritative map hash'' hash = None \<and>
    op_document (acc_op acc) = snap_document (client_map nw) \<and> op_environment (acc_op acc) = environment_hash (client_map nw) \<and>
    table_fits (Contains (client_map nw)) (client_table nw) (changes (acc_op acc)) \<and>
    hash = h_digest (newCanonicalHasher H procs (next_map acc nw)) \<and>
    nw' = rebuildVisibleLocked (accepted_state H procs acc hash nw)"
proof -
  let ?s = "client_map nw" and ?chs = "changes (acc_op acc)"
  note ok = client_okD [OF assms] and ix = indexedD [OF client_okD(1) [OF assms]]
  note ov = overlay_apply_spec [OF ok(1) ov_ok_start [OF ok(1)] ix(5), of "acc_op acc"]
  show ?thesis
  proof (cases "table_fits (Contains ?s) (client_table nw) ?chs")
    case False
    then obtain e where "overlay_apply nw (acc_op acc) empty_overlay = Inl e" using ov(2) by blast
    then show ?thesis using False by (auto simp: acceptProjectionLocked_def Let_def sum_bind_Inr_iff)
  next
    case True
    note f = table_fitsD [OF True] and n = next_map_ok [OF ok(1) True]
    let ?idx = "grow_indexes ?chs (length (tiles ?s)) (nw_tile_indexes nw)"
    let ?next = "?s\<lparr>tiles := write_tiles (nw_tile_indexes nw) ?chs (tiles ?s), snap_revision := acc_revision acc\<rparr>"
    have nm: "?next = next_map acc nw" by (simp add: next_map_def rewritten_def)
    obtain ov' where ov': "overlay_apply nw (acc_op acc) empty_overlay = Inr ov'" using ov(1) [OF True] by blast
    have "distinct_tiles ?s" "distinct_tiles (next_map acc nw)" using ix(1) n(1) by (simp_all add: distinct_tiles_def snapshot_ok_def)
    then have full: "Hasher_Update_some H procs (newCanonicalHasher H procs ?s) (next_map acc nw) ?idx (map ch_coord ?chs) =
        newCanonicalHasher H procs (next_map acc nw)"
      using n(5) by (intro Hasher_Update_full)
    have up: "Hasher_Update H procs (if Hasher_Digest (nw_hasher nw) \<noteq> acknowledged_hash (nw_projection nw) then None else nw_hasher nw)
        (next_map acc nw) ?idx (map ch_coord ?chs) =
        Inr (newCanonicalHasher H procs (next_map acc nw), h_digest (newCanonicalHasher H procs (next_map acc nw)))"
      using ok(2,3) by (simp add: Hasher_Digest_def Hasher_Update_def full Let_def)
    define nw1 where "nw1 = nw\<lparr>nw_projection := \<lparr>acknowledged = next_map acc nw,
        pending_ops = drop_operation (op_id (acc_op acc)) (pending_ops (nw_projection nw)), acknowledged_hash = hash\<rparr>,
        nw_tile_indexes := ?idx, nw_hasher := Some (newCanonicalHasher H procs (next_map acc nw))\<rparr>"
    have m1: "client_map nw1 = next_map acc nw" "nw_tile_indexes nw1 = ?idx" by (simp_all add: nw1_def)
    have ack: "acknowledgedTileLocked nw1 (ch_coord ch) = after ch" if "ch \<in> set ?chs" for ch
    proof -
      have "(client_table nw ++ change_table ?chs) (ch_coord ch) = Some (after ch)"
        unfolding override_Some_iff [OF f(1)] using that by blast
      then show ?thesis
        unfolding acknowledgedTileLocked_def m1 using table_state [OF n(4), of "ch_coord ch"] by (simp add: state_at_def)
    qed
    have "distinct (map ch_coord (rev ?chs))" using f(1) by (simp add: rev_map [symmetric])
    then have "change_table (rev ?chs) c = Some st \<longleftrightarrow> change_table ?chs c = Some st" for c st
      using f(1) by (simp add: change_table_Some_iff)
    then have rev: "change_table (rev ?chs) = change_table ?chs" by (metis ext not_None_eq)
    have "applyAuthorityChanges ?chs nw1 = accepted_state H procs acc hash nw"
      using authority_changes_eq [of ?chs nw1] ack release_table [of ?chs "client_table nw"] f(4)
      by (simp add: nw1_def accepted_state_def ix(3) rev new_owners_def)
    then show ?thesis
      using True ov' up accept_tiles_eq [OF f(1), of "nw_tile_indexes nw" "tiles ?s"] unfolding nw1_def
      by (auto simp: acceptProjectionLocked_def Let_def sum_bind_Inr_iff nm lift_model_def)
  qed
qed

lemma accepted_state_ok:
  assumes "client_ok H procs nw" "table_fits (Contains (client_map nw)) (client_table nw) (changes (acc_op acc))"
    "hash = h_digest (newCanonicalHasher H procs (next_map acc nw))"
  shows "client_ok H procs (rebuildVisibleLocked (accepted_state H procs acc hash nw))"
proof (rule client_ok_rebuild)
  note ok = client_okD [OF assms(1)] and ix = indexedD [OF client_okD(1) [OF assms(1)]]
  note n = next_map_ok [OF ok(1) assms(2)]
  show "indexed (accepted_state H procs acc hash nw)"
    using n(1,2,4) table_owners_ok [OF ix(5,4) assms(2)] by (simp add: indexed_def accepted_state_def)
  show "\<forall>op\<in>set (pending_ops (nw_projection (accepted_state H procs acc hash nw))).
      op_valid (Contains (client_map (accepted_state H procs acc hash nw))) op"
    using ok(4) n(3) by (simp add: accepted_state_def drop_operation_def)
qed (use assms(3) in \<open>simp_all add: accepted_state_def\<close>)

section \<open>Steps that leave the projection alone\<close>

definition drafts :: "network \<Rightarrow> conflict list \<times> (operation_id \<rightharpoonup> accepted_operation) \<times> (operation_id \<rightharpoonup> bytes)" where
  "drafts nw = (nw_conflicts nw, nw_accepted nw, nw_receipts nw)"

lemma publish_sel [simp]:
  "ccore (publishCaptureLocked nw) = ccore nw" "drafts (publishCaptureLocked nw) = drafts nw"
  "nw_publication (publishCaptureLocked nw) = nw_publication nw"
  "ccore (publishChangesLocked chs nw) = ccore nw" "drafts (publishChangesLocked chs nw) = drafts nw"
  "nw_publication (publishChangesLocked chs nw) = nw_publication nw"
  "ccore (publishLegacyLocked nw) = ccore nw" "drafts (publishLegacyLocked nw) = drafts nw"
  "nw_publication (publishLegacyLocked nw) = nw_publication nw"
  "ccore (publishAdmissionMetadataLocked nw) = ccore nw" "drafts (publishAdmissionMetadataLocked nw) = drafts nw"
  "nw_publication (publishAdmissionMetadataLocked nw) = nw_publication nw"
  by (simp_all add: publishCaptureLocked_def publishChangesLocked_def publishLegacyLocked_def
      publishAdmissionMetadataLocked_def Let_def ccore_def drafts_def split: option.splits)

lemma field_updates [simp]:
  "ccore (nw\<lparr>nw_publication := pu\<rparr>) = ccore nw" "drafts (nw\<lparr>nw_publication := pu\<rparr>) = drafts nw"
  "ccore (nw\<lparr>nw_answers := a\<rparr>) = ccore nw" "drafts (nw\<lparr>nw_answers := a\<rparr>) = drafts nw"
  "ccore (nw\<lparr>nw_waiters := w\<rparr>) = ccore nw" "drafts (nw\<lparr>nw_waiters := w\<rparr>) = drafts nw"
  "ccore (nw\<lparr>nw_terminal := t\<rparr>) = ccore nw" "drafts (nw\<lparr>nw_terminal := t\<rparr>) = drafts nw"
  "ccore (nw\<lparr>nw_suspended := t\<rparr>) = ccore nw" "drafts (nw\<lparr>nw_suspended := t\<rparr>) = drafts nw"
  "ccore (nw\<lparr>verified_history := h\<rparr>) = ccore nw" "drafts (nw\<lparr>verified_history := h\<rparr>) = drafts nw"
  "ccore (nw\<lparr>nw_conflicts := cs, conflicts_dirty := b\<rparr>) = ccore nw"
  "ccore (nw\<lparr>nw_accepted := acs, nw_hashes := hs\<rparr>) = ccore nw" "ccore (nw\<lparr>nw_receipts := rs\<rparr>) = ccore nw"
  "ccore (nw\<lparr>conflict_rebuilds := cr\<rparr>) = ccore nw" "drafts (nw\<lparr>conflict_rebuilds := cr\<rparr>) = drafts nw"
  "ccore (nw\<lparr>legacy_updates := l\<rparr>) = ccore nw" "drafts (nw\<lparr>legacy_updates := l\<rparr>) = drafts nw"
  "ccore (nw\<lparr>nw_changes := ch, nw_updates := up\<rparr>) = ccore nw" "drafts (nw\<lparr>nw_changes := ch, nw_updates := up\<rparr>) = drafts nw"
  by (simp_all add: ccore_def drafts_def)

lemma begin_sel [simp]:
  "ccore (beginPublicationLocked previous nxt chs explicit force nw) = ccore nw"
  "drafts (beginPublicationLocked previous nxt chs explicit force nw) = drafts nw"
  "ccore (beginMetadataPublicationLocked nw) = ccore nw" "drafts (beginMetadataPublicationLocked nw) = drafts nw"
  "ccore (beginReplacementPublicationLocked s nw) = ccore nw" "drafts (beginReplacementPublicationLocked s nw) = drafts nw"
  by (simp_all add: beginPublicationLocked_def beginMetadataPublicationLocked_def beginReplacementPublicationLocked_def Let_def)

lemma admission_sel [simp]:
  "ccore (releasePendingAdmission i nw) = ccore nw" "drafts (releasePendingAdmission i nw) = drafts nw"
  "ccore (drop_waiter i nw) = ccore nw" "drafts (drop_waiter i nw) = drafts nw"
  "ccore (finishAdmission i ticket bytes sent nw) = ccore nw" "drafts (finishAdmission i ticket bytes sent nw) = drafts nw"
  "ccore (snd (reserveAdmission op nw)) = ccore nw" "drafts (snd (reserveAdmission op nw)) = drafts nw"
proof -
  show r: "ccore (releasePendingAdmission i nw) = ccore nw" "drafts (releasePendingAdmission i nw) = drafts nw" for nw
    by (simp_all add: releasePendingAdmission_def Let_def split: option.splits)
  show "ccore (drop_waiter i nw) = ccore nw" "drafts (drop_waiter i nw) = drafts nw"
    by (simp_all add: drop_waiter_def r)
  show "ccore (finishAdmission i ticket bytes sent nw) = ccore nw" "drafts (finishAdmission i ticket bytes sent nw) = drafts nw"
    by (simp_all add: finishAdmission_def Let_def)
  show "ccore (snd (reserveAdmission op nw)) = ccore nw" "drafts (snd (reserveAdmission op nw)) = drafts nw"
    by (simp_all add: reserveAdmission_def Let_def split: option.splits)
qed

lemma retain_sel [simp]:
  "ccore (retainConflictLocked cf nw) = ccore nw" "ccore (retainUnsentLocked H procs op cause nw) = ccore nw"
  "ccore (retain_unconfirmed hash op nw) = ccore nw" "ccore (delete_conflict n nw) = ccore nw"
  "ccore (resolve_conflict op nw) = ccore nw"
  "nw_publication (retainConflictLocked cf nw) = nw_publication nw"
  "nw_publication (retainUnsentLocked H procs op cause nw) = nw_publication nw"
  "nw_publication (retain_unconfirmed hash op nw) = nw_publication nw"
  "nw_publication (delete_conflict n nw) = nw_publication nw" "nw_publication (resolve_conflict op nw) = nw_publication nw"
proof -
  show r: "ccore (retainConflictLocked cf nw) = ccore nw" "nw_publication (retainConflictLocked cf nw) = nw_publication nw" for cf nw
    by (simp_all add: retainConflictLocked_def)
  show "ccore (retainUnsentLocked H procs op cause nw) = ccore nw"
    "nw_publication (retainUnsentLocked H procs op cause nw) = nw_publication nw"
    by (simp_all add: retainUnsentLocked_def Let_def r split: sum.splits)
  show "ccore (retain_unconfirmed hash op nw) = ccore nw" "nw_publication (retain_unconfirmed hash op nw) = nw_publication nw"
    by (simp_all add: retain_unconfirmed_def r)
  show d: "ccore (delete_conflict n nw) = ccore nw" "nw_publication (delete_conflict n nw) = nw_publication nw" for n
    by (simp_all add: delete_conflict_def)
  show "ccore (resolve_conflict op nw) = ccore nw" "nw_publication (resolve_conflict op nw) = nw_publication nw"
    by (simp_all add: resolve_conflict_def Let_def d split: option.splits)
qed

lemma fold_sel:
  "(\<And>x nw. ccore (f nw x) = ccore nw) \<Longrightarrow> ccore (foldl f nw xs) = ccore nw"
  "(\<And>x nw. nw_publication (f nw x) = nw_publication nw) \<Longrightarrow> nw_publication (foldl f nw xs) = nw_publication nw"
  "(\<And>x nw. drafts (f nw x) = drafts nw) \<Longrightarrow> drafts (foldl f nw xs) = drafts nw"
  by (induction xs arbitrary: nw) simp_all

end
