(* ===== verification/Client_Display.thy ===== *)
theory Client_Display
  imports Client_Inv
begin

text \<open>
  What the editor is sent. An editor that starts from the joined map and installs every presentation
  update shows, after each of them, the acknowledged map overridden by the pending operations that
  fit it; the publication computes only the tiles whose visible state changed, and this is enough.
\<close>

section \<open>Views of tables\<close>

lemma owners_ok_view: "table_view tb = table_view tb' \<Longrightarrow> owners_ok tb m = owners_ok tb' m"
  unfolding owners_ok_def table_view_ids by simp

lemma ids_ok_view_iff:
  "ids_ok tb \<longleftrightarrow> (\<forall>c. distinct (map fst (table_view tb c)) \<and> (\<forall>i\<in>fst ` set (table_view tb c). StableID_Validate i = None)) \<and>
     (\<forall>c c'. c \<noteq> c' \<longrightarrow> fst ` set (table_view tb c) \<inter> fst ` set (table_view tb c') = {})"
proof
  assume ok: "ids_ok tb"
  have one: "distinct (map fst (table_view tb c)) \<and> (\<forall>i\<in>fst ` set (table_view tb c). StableID_Validate i = None)" for c
    using ids_okD(1) [OF ok, of c] by (cases "tb c") (simp_all add: table_view_def tile_ids_view)
  have two: "fst ` set (table_view tb c) \<inter> fst ` set (table_view tb c') = {}" if "c \<noteq> c'" for c c'
    using ids_okD(2) [OF ok _ _ that] by (cases "tb c"; cases "tb c'") (simp_all add: table_view_def tile_ids_view)
  show "(\<forall>c. distinct (map fst (table_view tb c)) \<and> (\<forall>i\<in>fst ` set (table_view tb c). StableID_Validate i = None)) \<and>
     (\<forall>c c'. c \<noteq> c' \<longrightarrow> fst ` set (table_view tb c) \<inter> fst ` set (table_view tb c') = {})"
    using one two by blast
next
  assume r: "(\<forall>c. distinct (map fst (table_view tb c)) \<and> (\<forall>i\<in>fst ` set (table_view tb c). StableID_Validate i = None)) \<and>
     (\<forall>c c'. c \<noteq> c' \<longrightarrow> fst ` set (table_view tb c) \<inter> fst ` set (table_view tb c') = {})"
  have v: "table_view tb c = tile_view st" if "tb c = Some st" for c st using that by (simp add: table_view_def)
  have one: "distinct (tile_ids st) \<and> (\<forall>i\<in>set (tile_ids st). StableID_Validate i = None)" if "tb c = Some st" for c st
    using r v [OF that] by (simp add: tile_ids_view) metis
  have two: "set (tile_ids st) \<inter> set (tile_ids st') = {}" if "tb c = Some st" "tb c' = Some st'" "c \<noteq> c'" for c c' st st'
    using r v [OF that(1)] v [OF that(2)] that(3) by (simp add: tile_ids_view) metis
  show "ids_ok tb" unfolding ids_ok_def using one two by blast
qed

lemma ids_ok_view: "table_view tb = table_view tb' \<Longrightarrow> ids_ok tb = ids_ok tb'"
  unfolding ids_ok_view_iff by simp

text \<open>A coordinate that no operation changes keeps its view, also when it is named by one.\<close>

definition real_change :: "tile_change \<Rightarrow> bool" where
  "real_change ch \<longleftrightarrow> tile_view (before ch) \<noteq> tile_view (after ch)"

lemma spec_step_unreal:
  assumes "\<forall>ch\<in>set (changes op). ch_coord ch = c \<longrightarrow> \<not> real_change ch"
  shows "table_view (spec_step inside tb op) c = table_view tb c"
proof (cases "table_fits inside tb (changes op)")
  case True
  note f = table_fitsD [OF True]
  show ?thesis
  proof (cases "change_table (changes op) c")
    case (Some st)
    then obtain ch where ch: "ch \<in> set (changes op)" "ch_coord ch = c" "after ch = st"
      using change_table_Some_iff [OF f(1)] by blast
    then have "tile_view (before ch) = tile_view st" using assms by (auto simp: real_change_def)
    then show ?thesis
      using f(4) [OF ch(1)] ch(2) True Some by (simp add: spec_step_def table_view_override apply_view_def)
  qed (simp add: spec_step_def table_view_override apply_view_def)
qed (simp add: spec_step_def)

lemma spec_tables_unreal:
  "\<forall>op\<in>set ops. \<forall>ch\<in>set (changes op). ch_coord ch = c \<longrightarrow> \<not> real_change ch \<Longrightarrow>
     table_view (spec_tables inside tb ops) c = table_view tb c"
  by (induction ops arbitrary: tb) (simp_all add: spec_step_unreal)

section \<open>Publication\<close>

record editor_view =
  ed_authority :: "coord \<Rightarrow> tile_view"
  ed_display :: "coord \<Rightarrow> tile_view"

definition sent :: "(coord \<rightharpoonup> tile_state) \<Rightarrow> (coord \<Rightarrow> tile_view) \<Rightarrow> coord \<Rightarrow> tile_view" where
  "sent tb m c = (case tb c of Some st \<Rightarrow> tile_view st | None \<Rightarrow> m c)"

definition base_view :: "publication \<Rightarrow> (coord \<Rightarrow> tile_view) \<Rightarrow> coord \<Rightarrow> tile_view" where
  "base_view pu m = (case pu_replacement pu of Some s \<Rightarrow> map_view s | None \<Rightarrow> m)"

text \<open>\<open>display_ok nw E\<close>: with what is waiting to be taken, the editor \<open>E\<close> is up to date.\<close>

definition display_ok :: "network \<Rightarrow> editor_view \<Rightarrow> bool" where
  "display_ok nw E \<longleftrightarrow>
     (let pu = nw_publication nw in
      finite (dom (pu_display pu)) \<and> finite (dom (pu_authoritative pu)) \<and>
      sent (pu_display pu) (base_view pu (ed_display E)) = table_view (client_spec nw) \<and>
      sent (pu_authoritative pu) (base_view pu (ed_authority E)) = map_view (client_map nw) \<and>
      (\<forall>s. pu_replacement pu = Some s \<longrightarrow> s = client_map nw \<and>
         (\<forall>op\<in>set (pending_ops (nw_projection nw)). \<forall>ch\<in>set (changes op). real_change ch \<longrightarrow>
            ch_coord ch \<in> dom (pu_display pu))) \<and>
      (\<not> pu_ready pu \<longrightarrow> pu_display pu = Map.empty \<and> pu_authoritative pu = Map.empty \<and> pu_replacement pu = None))"

lemma before_table:
  "(\<exists>ch\<in>set xs. ch_coord ch = c \<and> foldl (\<lambda>m ch. m(ch_coord ch \<mapsto> before ch)) m xs c = Some (before ch)) \<or>
   c \<notin> ch_coord ` set xs \<and> foldl (\<lambda>m ch. m(ch_coord ch \<mapsto> before ch)) m xs c = m c"
proof (induction xs rule: rev_induct)
  case (snoc ch xs)
  then show ?case by (cases "ch_coord ch = c") auto
qed simp

lemma begin_views:
  assumes "indexed nw" "ids_ok tb0" "table_fits (Contains (client_map nw)) tb0 chs"
    "client_table nw = tb0 ++ change_table chs"
    "\<forall>op\<in>set (pending_ops previous). op_valid (Contains (client_map nw)) op" "c \<in> coords"
  shows "tile_view (state_at (effectiveProjectionStates previous (authority_tiles nw) (authority_owners nw) coords
      (foldl (\<lambda>m ch. m(ch_coord ch \<mapsto> before ch)) Map.empty chs) (before_owners chs)) c) =
    table_view (spec_tables (Contains (client_map nw)) tb0 (pending_ops previous)) c"
proof -
  let ?m = "foldl (\<lambda>m ch. m(ch_coord ch \<mapsto> before ch)) Map.empty chs" and ?inside = "Contains (client_map nw)"
  note ix = indexedD [OF assms(1)] and f = table_fitsD [OF assms(3)]
  define tb where "tb = client_table nw ++ ?m"
  have view: "table_view tb = table_view tb0"
  proof (rule ext)
    fix c'
    show "table_view tb c' = table_view tb0 c'"
    proof (cases "c' \<in> ch_coord ` set chs")
      case True
      then obtain ch where "ch \<in> set chs" "ch_coord ch = c'" "?m c' = Some (before ch)"
        using before_table [of chs c' Map.empty] by blast
      then show ?thesis using f(4) [of ch] by (simp add: tb_def table_view_def map_add_def)
    next
      case False
      then have "?m c' = None" using before_table [of chs c' Map.empty] by auto
      moreover have "change_table chs c' = None" using False dom_change_table [of chs] by (metis domIff)
      ultimately show ?thesis by (simp add: tb_def assms(4) table_view_def map_add_def)
    qed
  qed
  have "owners_ok (tb0 ++ change_table chs) (authority_owners nw)" using ix(4) assms(4) by simp
  then have "owners_ok tb (eff_owner (authority_owners nw) (before_owners chs))"
    using before_owners_ok [OF assms(2,3)] owners_ok_view [OF view] by blast
  moreover have "ids_ok tb" using assms(2) ids_ok_view [OF view] by blast
  moreover have "tb = authority_tiles nw ++ ?m" by (simp add: tb_def ix(3))
  ultimately have "eff_ok (coords \<union> op_coords (pending_ops previous)) (authority_owners nw)
      (spec_tables ?inside tb (pending_ops previous))
      (effectiveProjectionOverlay previous (authority_tiles nw) (authority_owners nw) coords ?m (before_owners chs))"
    using assms(5) by (intro effective_overlay_ok)
  then have "state_at (effectiveProjectionStates previous (authority_tiles nw) (authority_owners nw) coords ?m (before_owners chs)) c =
      state_at (spec_tables ?inside tb (pending_ops previous)) c"
    unfolding effectiveProjectionStates_def by (rule eff_okD(1)) (use assms(6) in blast)
  then show ?thesis using spec_tables_cong [OF view] by simp
qed

lemma after_views:
  assumes "indexed nw" "\<forall>op\<in>set (pending_ops (nw_projection nw)). op_valid (Contains (client_map nw)) op" "c \<in> coords"
  shows "tile_view (state_at (effectiveProjectionStates (nw_projection nw) (authority_tiles nw) (authority_owners nw) coords
      Map.empty Map.empty) c) = table_view (client_spec nw) c"
proof -
  note ix = indexedD [OF assms(1)]
  have "state_at (effectiveProjectionStates (nw_projection nw) (authority_tiles nw) (authority_owners nw) coords
      Map.empty Map.empty) c = state_at (client_spec nw) c"
    unfolding effectiveProjectionStates_def client_spec_def ix(3)
    by (rule eff_okD(1) [OF effective_overlay_plain [OF ix(4,5) assms(2)]]) (use assms(3) in blast)
  then show ?thesis by simp
qed

lemma begin_publication:
  fixes previous nxt :: projection
  defines "coords chs explicit \<equiv> ch_coord ` set chs \<union> set explicit \<union> op_coords (pending_ops previous) \<union> op_coords (pending_ops nxt)"
  shows "nw_publication (beginPublicationLocked previous nxt chs explicit force nw) =
    (let pu = nw_publication nw;
         C = coords chs explicit;
         before_states = effectiveProjectionStates previous (authority_tiles nw) (authority_owners nw) C
            (foldl (\<lambda>m ch. m(ch_coord ch \<mapsto> before ch)) Map.empty chs) (before_owners chs);
         after_states = effectiveProjectionStates nxt (authority_tiles nw) (authority_owners nw) C Map.empty Map.empty in
     pu\<lparr>pu_sequence := pu_sequence pu + 1, pu_ready := True,
        pu_authoritative := pu_authoritative pu ++ (\<lambda>c. if c \<in> ch_coord ` set chs then Some (state_at (authority_tiles nw) c) else None),
        pu_display := pu_display pu ++ (\<lambda>c. if c \<in> C \<and> (force \<or> \<not> TileState_Equal (state_at before_states c) (state_at after_states c))
            then Some (state_at after_states c) else None),
        pu_replacement := (case pu_replacement pu of None \<Rightarrow> None | Some _ \<Rightarrow> Some (acknowledged nxt))\<rparr>)"
proof -
  have a: "authorityTileState nw c = state_at (authority_tiles nw) c" for c
    by (simp add: authorityTileState_def state_at_def split: option.split)
  show ?thesis
    unfolding beginPublicationLocked_def Let_def CloneSnapshot_id CloneTileState_id a coords_def by simp
qed

lemma finite_if_dom: "finite C \<Longrightarrow> finite (dom (\<lambda>c. if c \<in> C \<and> P c then Some (g c) else None))"
  by (rule finite_subset [of _ C]) (auto split: if_splits)

lemma finite_op_coords [simp]: "finite (op_coords ops)"
  by (simp add: op_coords_def)

lemma op_coords_in: "op \<in> set ops \<Longrightarrow> ch \<in> set (changes op) \<Longrightarrow> ch_coord ch \<in> op_coords ops"
  by (auto simp: op_coords_def)

text \<open>A publication brings the waiting updates up to date with a new projection, after authoritative
  changes \<open>chs\<close> of a map \<open>tb0\<close> and a change of the pending operations.\<close>

lemma begin_display:
  fixes nw :: network
  defines "inside \<equiv> Contains (client_map nw)" and "pu \<equiv> nw_publication nw"
  assumes ix: "indexed nw" and tb0: "ids_ok tb0" "table_fits inside tb0 chs" "client_table nw = tb0 ++ change_table chs"
    and valid: "\<forall>op\<in>set (pending_ops previous). op_valid inside op"
      "\<forall>op\<in>set (pending_ops (nw_projection nw)). op_valid inside op"
    and fin: "finite (dom (pu_display pu))" "finite (dom (pu_authoritative pu))"
    and shown: "sent (pu_display pu) (base_view pu (ed_display E)) = table_view (spec_tables inside tb0 (pending_ops previous))"
    and auth: "sent (pu_authoritative pu) (base_view pu (ed_authority E)) = table_view tb0"
    and repl: "\<And>s. pu_replacement pu = Some s \<Longrightarrow> tile_table (tiles s) = tb0 \<and>
      (\<forall>op\<in>set (pending_ops (nw_projection nw)). \<forall>ch\<in>set (changes op). real_change ch \<longrightarrow>
        ch_coord ch \<in> dom (pu_display pu) \<or>
        table_view (spec_tables inside tb0 (pending_ops previous)) (ch_coord ch) \<noteq> table_view (client_spec nw) (ch_coord ch))"
  shows "display_ok (beginPublicationLocked previous (nw_projection nw) chs explicit force nw) E"
proof -
  let ?p = "nw_projection nw" and ?nw = "beginPublicationLocked previous (nw_projection nw) chs explicit force nw"
  define C where "C = ch_coord ` set chs \<union> set explicit \<union> op_coords (pending_ops previous) \<union> op_coords (pending_ops ?p)"
  define B where "B = effectiveProjectionStates previous (authority_tiles nw) (authority_owners nw) C
            (foldl (\<lambda>m ch. m(ch_coord ch \<mapsto> before ch)) Map.empty chs) (before_owners chs)"
  define A where "A = effectiveProjectionStates ?p (authority_tiles nw) (authority_owners nw) C Map.empty Map.empty"
  define old where "old = spec_tables inside tb0 (pending_ops previous)"
  define D where "D = (\<lambda>c. if c \<in> C \<and> (force \<or> \<not> TileState_Equal (state_at B c) (state_at A c)) then Some (state_at A c) else None)"
  define F where "F = (\<lambda>c. if c \<in> ch_coord ` set chs then Some (state_at (authority_tiles nw) c) else None)"
  have pu': "nw_publication ?nw = pu\<lparr>pu_sequence := pu_sequence pu + 1, pu_ready := True,
      pu_authoritative := pu_authoritative pu ++ F, pu_display := pu_display pu ++ D,
      pu_replacement := (case pu_replacement pu of None \<Rightarrow> None | Some _ \<Rightarrow> Some (client_map nw))\<rparr>"
    unfolding begin_publication Let_def F_def D_def A_def B_def C_def pu_def by simp
  have b: "tile_view (state_at B c) = table_view old c" if "c \<in> C" for c
    unfolding B_def old_def inside_def
    by (rule begin_views [OF ix tb0(1) tb0(2) [unfolded inside_def] tb0(3) valid(1) [unfolded inside_def] that])
  have a: "tile_view (state_at A c) = table_view (client_spec nw) c" if "c \<in> C" for c
    unfolding A_def by (rule after_views [OF ix valid(2) [unfolded inside_def] that])
  have same: "table_view (client_spec nw) c = table_view old c" if "D c = None" for c
  proof (cases "c \<in> C")
    case True
    then have "TileState_Equal (state_at B c) (state_at A c)" using that by (simp add: D_def split: if_splits)
    then show ?thesis using a [OF True] b [OF True] by (simp add: TileState_Equal_view)
  next
    case False
    have "client_table nw c = tb0 c"
      using False dom_change_table [of chs] unfolding tb0(3) C_def by (auto simp: map_add_def domIff split: option.split)
    then show ?thesis
      using False spec_tables_other [of c "pending_ops previous" inside tb0]
        spec_tables_other [of c "pending_ops ?p" inside "client_table nw"]
      by (simp add: old_def client_spec_def inside_def [symmetric] C_def table_view_def)
  qed
  have D_Some: "tile_view st = table_view (client_spec nw) c" if "D c = Some st" for c st
    using that a by (auto simp: D_def split: if_splits)
  have keeps: "ch_coord ch \<in> dom (pu_display pu ++ D)"
    if s: "pu_replacement pu = Some s" and op: "op \<in> set (pending_ops ?p)" and ch: "ch \<in> set (changes op)" and r: "real_change ch"
    for s op ch
  proof -
    have "ch_coord ch \<in> dom (pu_display pu) \<or> table_view old (ch_coord ch) \<noteq> table_view (client_spec nw) (ch_coord ch)"
      using repl [OF s] op ch r unfolding old_def by blast
    then show ?thesis using same [of "ch_coord ch"] by (cases "D (ch_coord ch)") auto
  qed
  have view: "sent (pu_display pu ++ D) (base_view (nw_publication ?nw) (ed_display E)) c = table_view (client_spec nw) c" for c
  proof (cases "D c")
    case (Some st)
    then show ?thesis using D_Some by (simp add: sent_def map_add_def)
  next
    case None
    then have old: "table_view (client_spec nw) c = sent (pu_display pu) (base_view pu (ed_display E)) c"
      using same shown by (simp add: old_def)
    show ?thesis
    proof (cases "pu_display pu c")
      case (Some st)
      then show ?thesis using None old by (simp add: sent_def map_add_def)
    next
      case none: None
      show ?thesis
      proof (cases "pu_replacement pu")
        case (Some s)
        have "\<not> real_change ch" if "op \<in> set (pending_ops ?p)" "ch \<in> set (changes op)" "ch_coord ch = c" for op ch
          using keeps [OF Some that(1,2)] that(3) none None by (auto simp: dom_def map_add_def)
        then have "table_view (client_spec nw) c = table_view (client_table nw) c"
          unfolding client_spec_def by (intro spec_tables_unreal) blast
        then show ?thesis using none None Some by (simp add: sent_def map_add_def pu' base_view_def map_view_table)
      next
        case r: None
        then show ?thesis using none None old by (simp add: sent_def map_add_def pu' base_view_def)
      qed
    qed
  qed
  have auths: "sent (pu_authoritative pu ++ F) (base_view (nw_publication ?nw) (ed_authority E)) c = map_view (client_map nw) c" for c
  proof (cases "c \<in> ch_coord ` set chs")
    case True
    then show ?thesis by (simp add: sent_def map_add_def F_def indexedD(3) [OF ix] map_view_table)
  next
    case False
    then have F: "F c = None" by (simp add: F_def)
    have "client_table nw c = tb0 c"
      using False dom_change_table [of chs] unfolding tb0(3) by (auto simp: map_add_def domIff split: option.split)
    then have v: "map_view (client_map nw) c = table_view tb0 c" by (simp add: map_view_table table_view_def)
    show ?thesis
      using fun_cong [OF auth, of c] F v
      by (cases "pu_replacement pu"; cases "pu_authoritative pu c") (simp_all add: sent_def map_add_def pu' base_view_def)
  qed
  have "finite C" by (simp add: C_def)
  then have finD: "finite (dom D)" unfolding D_def by (rule finite_if_dom)
  have finF: "finite (dom F)" unfolding F_def by (rule finite_subset [of _ "ch_coord ` set chs"]) (auto split: if_splits)
  have "ccore ?nw = ccore nw" by simp
  then have proj: "nw_projection ?nw = nw_projection nw" "client_spec ?nw = client_spec nw"
    by (simp_all add: ccore_def client_spec_def)
  have sel: "pu_display (nw_publication ?nw) = pu_display pu ++ D" "pu_authoritative (nw_publication ?nw) = pu_authoritative pu ++ F"
    "pu_ready (nw_publication ?nw)" by (simp_all add: pu')
  have rep: "s = client_map nw \<and> (\<forall>op\<in>set (pending_ops ?p). \<forall>ch\<in>set (changes op). real_change ch \<longrightarrow>
      ch_coord ch \<in> dom (pu_display pu ++ D))" if r: "pu_replacement (nw_publication ?nw) = Some s" for s
  proof -
    obtain s' where s': "pu_replacement pu = Some s'" "s = client_map nw" using r by (auto simp: pu' split: option.splits)
    show ?thesis using s'(2) keeps [OF s'(1)] by simp
  qed
  show ?thesis
    unfolding display_ok_def Let_def sel(1,2) proj
  proof (intro conjI allI impI)
    show "finite (dom (pu_display pu ++ D))" "finite (dom (pu_authoritative pu ++ F))" using fin finD finF by simp_all
    show "sent (pu_display pu ++ D) (base_view (nw_publication ?nw) (ed_display E)) = table_view (client_spec nw)"
      by (rule ext, rule view)
    show "sent (pu_authoritative pu ++ F) (base_view (nw_publication ?nw) (ed_authority E)) = map_view (client_map nw)"
      by (rule ext, rule auths)
  qed (use sel(3) rep in \<open>simp_all\<close>)
qed

section \<open>The invariant\<close>

definition pview :: "publication \<Rightarrow> bool \<times> (coord \<rightharpoonup> tile_state) \<times> (coord \<rightharpoonup> tile_state) \<times> snapshot option" where
  "pview pu = (pu_ready pu, pu_authoritative pu, pu_display pu, pu_replacement pu)"

definition published_ok :: "network \<Rightarrow> bool" where
  "published_ok nw \<longleftrightarrow> (\<exists>pb b. nw_published nw = Some pb \<and> pb_capture pb = (captureProjectionLocked nw)\<lparr>pc_has_pending := b\<rparr>)"

definition client_inv :: "digest_fun \<Rightarrow> nat \<Rightarrow> editor_view \<Rightarrow> network \<Rightarrow> bool" where
  "client_inv H procs E nw \<longleftrightarrow> client_ok H procs nw \<and> display_ok nw E \<and> published_ok nw"

lemma client_spec_cong: "ccore nw = ccore nw' \<Longrightarrow> client_spec nw = client_spec nw'"
  by (simp add: client_spec_def ccore_def)

lemma display_ok_cong:
  assumes "ccore nw = ccore nw'" "pview (nw_publication nw) = pview (nw_publication nw')"
  shows "display_ok nw E = display_ok nw' E"
proof -
  have "pu_ready (nw_publication nw) = pu_ready (nw_publication nw')"
    "pu_authoritative (nw_publication nw) = pu_authoritative (nw_publication nw')"
    "pu_display (nw_publication nw) = pu_display (nw_publication nw')"
    "pu_replacement (nw_publication nw) = pu_replacement (nw_publication nw')"
    using assms(2) by (simp_all add: pview_def)
  then show ?thesis
    by (simp only: display_ok_def Let_def base_view_def client_spec_cong [OF assms(1)] ccoreD(1) [OF assms(1)])
qed

lemma capture_cong: "ccore nw = ccore nw' \<Longrightarrow> captureProjectionLocked nw = captureProjectionLocked nw'"
  by (simp add: captureProjectionLocked_def ccore_def)

lemma published_ok_cong: "ccore nw = ccore nw' \<Longrightarrow> nw_published nw = nw_published nw' \<Longrightarrow> published_ok nw = published_ok nw'"
  unfolding published_ok_def by (simp add: capture_cong [of nw nw'])

lemma client_inv_cong:
  assumes "ccore nw = ccore nw'" "pview (nw_publication nw) = pview (nw_publication nw')" "nw_published nw = nw_published nw'"
  shows "client_inv H procs E nw = client_inv H procs E nw'"
  unfolding client_inv_def
  using client_ok_cong [OF assms(1)] display_ok_cong [OF assms(1,2)] published_ok_cong [OF assms(1,3)] by simp

lemma published_sel [simp]:
  "nw_published (publishChangesLocked chs nw) = nw_published nw" "nw_published (publishLegacyLocked nw) = nw_published nw"
  "nw_published (retainConflictLocked cf nw) = nw_published nw" "nw_published (delete_conflict n nw) = nw_published nw"
  "nw_published (releasePendingAdmission i nw) = nw_published nw"
  by (simp_all add: publishChangesLocked_def publishLegacyLocked_def retainConflictLocked_def delete_conflict_def
      releasePendingAdmission_def Let_def split: option.splits)

lemma published_sel' [simp]:
  "nw_published (retainUnsentLocked H procs op cause nw) = nw_published nw"
  "nw_published (retain_unconfirmed hash op nw) = nw_published nw"
  "nw_published (resolve_conflict op nw) = nw_published nw" "nw_published (drop_waiter i nw) = nw_published nw"
  by (simp_all add: retainUnsentLocked_def retain_unconfirmed_def resolve_conflict_def drop_waiter_def Let_def
      split: sum.splits option.splits)

lemma pview_sel [simp]:
  "pview (nw_publication (releasePendingAdmission i nw)) = pview (nw_publication nw)"
  "pview (nw_publication (drop_waiter i nw)) = pview (nw_publication nw)"
proof -
  show r: "pview (nw_publication (releasePendingAdmission i nw)) = pview (nw_publication nw)" for nw
    by (simp add: releasePendingAdmission_def Let_def pview_def split: option.splits)
  show "pview (nw_publication (drop_waiter i nw)) = pview (nw_publication nw)"
    by (simp add: drop_waiter_def r)
qed

lemma published_capture: "published_ok (publishCaptureLocked nw)"
proof -
  have "captureProjectionLocked (publishCaptureLocked nw) = captureProjectionLocked nw" by (rule capture_cong) simp
  then show ?thesis unfolding published_ok_def by (simp add: publishCaptureLocked_def Let_def) (rule exI, rule refl)
qed

lemma published_later: "published_ok nw \<Longrightarrow> published_ok (publishLegacyLocked (publishChangesLocked chs nw))"
  using published_ok_cong [of "publishLegacyLocked (publishChangesLocked chs nw)" nw] by simp

lemma published_begin [simp]:
  "published_ok (beginPublicationLocked previous nxt chs explicit force nw)"
  "published_ok (beginReplacementPublicationLocked s nw)" "published_ok (beginMetadataPublicationLocked nw)"
  by (simp_all add: beginPublicationLocked_def beginReplacementPublicationLocked_def beginMetadataPublicationLocked_def
      Let_def published_later published_capture)

lemma display_okD:
  assumes "display_ok nw E"
  shows "finite (dom (pu_display (nw_publication nw)))" "finite (dom (pu_authoritative (nw_publication nw)))"
    "sent (pu_display (nw_publication nw)) (base_view (nw_publication nw) (ed_display E)) = table_view (client_spec nw)"
    "sent (pu_authoritative (nw_publication nw)) (base_view (nw_publication nw) (ed_authority E)) = map_view (client_map nw)"
    "pu_replacement (nw_publication nw) = Some s \<Longrightarrow> s = client_map nw \<and>
         (\<forall>op\<in>set (pending_ops (nw_projection nw)). \<forall>ch\<in>set (changes op). real_change ch \<longrightarrow>
            ch_coord ch \<in> dom (pu_display (nw_publication nw)))"
    "\<not> pu_ready (nw_publication nw) \<Longrightarrow> pu_display (nw_publication nw) = Map.empty \<and>
       pu_authoritative (nw_publication nw) = Map.empty \<and> pu_replacement (nw_publication nw) = None"
  using assms unfolding display_ok_def Let_def by blast+

text \<open>Every change of the projection is published with its previous value.\<close>

lemma begin_inv:
  assumes inv: "client_inv H procs E nw" and ok: "client_ok H procs nw'"
    and pu: "pview (nw_publication nw') = pview (nw_publication nw)"
    and map: "Contains (client_map nw') = Contains (client_map nw)" "table_fits (Contains (client_map nw)) (client_table nw) chs"
      "client_table nw' = client_table nw ++ change_table chs"
    and ops: "\<And>op. op \<in> set (pending_ops (nw_projection nw')) \<Longrightarrow> op \<in> set (pending_ops (nw_projection nw)) \<or>
      (\<forall>ch\<in>set (changes op). real_change ch \<longrightarrow>
         table_view (client_spec nw) (ch_coord ch) \<noteq> table_view (client_spec nw') (ch_coord ch))"
  shows "client_inv H procs E (beginPublicationLocked (nw_projection nw) (nw_projection nw') chs explicit force nw')"
proof -
  note cok = client_okD [OF inv [unfolded client_inv_def, THEN conjunct1]] and cok' = client_okD [OF ok]
  have dis: "display_ok nw E" using inv by (simp add: client_inv_def)
  note d = display_okD [OF dis]
  have sel: "pu_display (nw_publication nw') = pu_display (nw_publication nw)"
    "pu_authoritative (nw_publication nw') = pu_authoritative (nw_publication nw)"
    "pu_replacement (nw_publication nw') = pu_replacement (nw_publication nw)"
    "base_view (nw_publication nw') = base_view (nw_publication nw)"
    using pu by (simp_all add: pview_def base_view_def [abs_def])
  have spec: "client_spec nw = spec_tables (Contains (client_map nw')) (client_table nw) (pending_ops (nw_projection nw))"
    by (simp add: client_spec_def map(1))
  have "display_ok (beginPublicationLocked (nw_projection nw) (nw_projection nw') chs explicit force nw') E"
  proof (rule begin_display [OF cok'(1) indexedD(5) [OF cok(1)] _ map(3)])
    show "table_fits (Contains (client_map nw')) (client_table nw) chs" using map(1,2) by simp
    show "\<forall>op\<in>set (pending_ops (nw_projection nw)). op_valid (Contains (client_map nw')) op" using cok(4) map(1) by simp
    show "\<forall>op\<in>set (pending_ops (nw_projection nw')). op_valid (Contains (client_map nw')) op" by (rule cok'(4))
    show "finite (dom (pu_display (nw_publication nw')))" "finite (dom (pu_authoritative (nw_publication nw')))"
      using d(1,2) by (simp_all add: sel)
    show "sent (pu_display (nw_publication nw')) (base_view (nw_publication nw') (ed_display E)) =
        table_view (spec_tables (Contains (client_map nw')) (client_table nw) (pending_ops (nw_projection nw)))"
      unfolding sel spec [symmetric] by (rule d(3))
    show "sent (pu_authoritative (nw_publication nw')) (base_view (nw_publication nw') (ed_authority E)) = table_view (client_table nw)"
      unfolding sel by (simp only: d(4) map_view_table)
  next
    fix s
    assume s: "pu_replacement (nw_publication nw') = Some s"
    show "tile_table (tiles s) = client_table nw \<and>
      (\<forall>op\<in>set (pending_ops (nw_projection nw')). \<forall>ch\<in>set (changes op). real_change ch \<longrightarrow>
        ch_coord ch \<in> dom (pu_display (nw_publication nw')) \<or>
        table_view (spec_tables (Contains (client_map nw')) (client_table nw) (pending_ops (nw_projection nw))) (ch_coord ch) \<noteq>
          table_view (client_spec nw') (ch_coord ch))"
      unfolding sel spec [symmetric] using d(5) [OF s [unfolded sel]] ops by blast
  qed
  moreover have "client_ok H procs (beginPublicationLocked (nw_projection nw) (nw_projection nw') chs explicit force nw')"
    using ok client_ok_cong [of "beginPublicationLocked (nw_projection nw) (nw_projection nw') chs explicit force nw'" nw'] by simp
  ultimately show ?thesis by (simp add: client_inv_def)
qed

lemma begin_inv_pending:
  assumes "client_inv H procs E nw" "client_ok H procs nw'" "pview (nw_publication nw') = pview (nw_publication nw)"
    and "client_map nw' = client_map nw"
    and "\<And>op. op \<in> set (pending_ops (nw_projection nw')) \<Longrightarrow> op \<in> set (pending_ops (nw_projection nw)) \<or>
      (\<forall>ch\<in>set (changes op). real_change ch \<longrightarrow>
         table_view (client_spec nw) (ch_coord ch) \<noteq> table_view (client_spec nw') (ch_coord ch))"
  shows "client_inv H procs E (beginPublicationLocked (nw_projection nw) (nw_projection nw') [] explicit force nw')"
  by (rule begin_inv [OF assms(1-3) _ _ _ assms(5)]) (simp_all add: assms(4) table_fits_def change_table_def)

lemma begin_metadata_inv:
  assumes "client_inv H procs E nw"
  shows "client_inv H procs E (beginMetadataPublicationLocked nw)"
proof -
  have pu: "nw_publication (beginMetadataPublicationLocked nw) =
      (nw_publication nw)\<lparr>pu_sequence := pu_sequence (nw_publication nw) + 1, pu_ready := True\<rparr>"
    by (simp add: beginMetadataPublicationLocked_def Let_def)
  have core: "ccore (beginMetadataPublicationLocked nw) = ccore nw" by simp
  have "display_ok nw E" using assms by (simp add: client_inv_def)
  then have "display_ok (beginMetadataPublicationLocked nw) E"
    unfolding display_ok_def Let_def base_view_def client_spec_cong [OF core] ccoreD(1) [OF core] pu by simp
  then show ?thesis
    using assms client_ok_cong [OF core] by (simp add: client_inv_def)
qed

end
