(* ===== verification/Client_Keeps.thy ===== *)
theory Client_Keeps
  imports Client_Display
begin

text \<open>
  Every step of an executor keeps its invariant: the indexes, the hash and the overlay are those of the
  projection, the published capture is current, and the updates that wait bring the editor up to date.
\<close>

section \<open>Metadata\<close>

lemma published_meta: "published_ok nw \<Longrightarrow> published_ok (publishAdmissionMetadataLocked nw)"
proof -
  assume ok: "published_ok nw"
  have "captureProjectionLocked (publishAdmissionMetadataLocked nw) = captureProjectionLocked nw" by (rule capture_cong) simp
  then show ?thesis
    using ok unfolding published_ok_def by (auto simp: publishAdmissionMetadataLocked_def)
qed

lemma inv_meta: "client_inv H procs E nw \<Longrightarrow> client_inv H procs E (publishAdmissionMetadataLocked nw)"
  unfolding client_inv_def
  using client_ok_cong [of "publishAdmissionMetadataLocked nw" nw] display_ok_cong [of "publishAdmissionMetadataLocked nw" nw]
    published_meta [of nw] by simp

lemma inv_capture: "client_inv H procs E nw \<Longrightarrow> client_inv H procs E (publishCaptureLocked nw)"
  unfolding client_inv_def
  using client_ok_cong [of "publishCaptureLocked nw" nw] display_ok_cong [of "publishCaptureLocked nw" nw]
    published_capture [of nw] by simp

lemma inv_publication:
  "client_inv H procs E nw \<Longrightarrow> pview pu = pview (nw_publication nw) \<Longrightarrow> client_inv H procs E (nw\<lparr>nw_publication := pu\<rparr>)"
  using client_inv_cong [of "nw\<lparr>nw_publication := pu\<rparr>" nw H procs E] by simp

lemma reserve_inv: "client_inv H procs E nw \<Longrightarrow> client_inv H procs E (snd (reserveAdmission op nw))"
  by (auto simp: reserveAdmission_def Let_def pview_def split: option.split intro!: inv_meta inv_publication)

lemma finish_inv: "client_inv H procs E nw \<Longrightarrow> client_inv H procs E (finishAdmission i ticket bytes was_sent nw)"
  unfolding finishAdmission_def Let_def by (intro inv_capture inv_publication) (simp_all add: pview_def)

lemma resume_inv: "client_inv H procs E nw \<Longrightarrow> client_inv H procs E (snd (Resume nil_transport nw))"
proof -
  assume inv: "client_inv H procs E nw"
  have "client_inv H procs E (nw\<lparr>nw_suspended := s, nw_publication := (nw_publication nw)\<lparr>admission_error := e\<rparr>\<rparr>)" for s e
    using inv client_inv_cong [of "nw\<lparr>nw_suspended := s, nw_publication := (nw_publication nw)\<lparr>admission_error := e\<rparr>\<rparr>" nw H procs E]
    by (simp add: pview_def ccore_def)
  then show ?thesis using inv by (simp add: Resume_def split: option.split)
qed

lemma inv_fields [simp]:
  "client_inv H procs E (nw\<lparr>nw_answers := a\<rparr>) = client_inv H procs E nw"
  "client_inv H procs E (nw\<lparr>conflict_rebuilds := r\<rparr>) = client_inv H procs E nw"
  "client_inv H procs E (nw\<lparr>nw_changes := ch, nw_updates := up\<rparr>) = client_inv H procs E nw"
  "client_inv H procs E (nw\<lparr>legacy_updates := b\<rparr>) = client_inv H procs E nw"
  "client_inv H procs E (nw\<lparr>nw_suspended := e\<rparr>) = client_inv H procs E nw"
  "client_inv H procs E (nw\<lparr>nw_terminal := e\<rparr>) = client_inv H procs E nw"
  "client_inv H procs E (publishLegacyLocked nw) = client_inv H procs E nw"
  "client_inv H procs E (retainUnsentLocked H' procs' op cause nw) = client_inv H procs E nw"
  "client_inv H procs E (delete_conflict n nw) = client_inv H procs E nw"
  "client_inv H procs E (drop_waiter i nw) = client_inv H procs E nw"
  by (rule client_inv_cong; simp)+

section \<open>Refusing and discarding drafts\<close>

lemma begin_same_inv:
  "client_inv H procs E nw \<Longrightarrow>
     client_inv H procs E (beginPublicationLocked (nw_projection nw) (nw_projection nw) [] explicit force nw)"
  by (rule begin_inv_pending) (simp_all add: client_inv_def)

lemma refuse_inv: "client_inv H procs E nw \<Longrightarrow> client_inv H procs E (refuseAdmission H procs op cause nw)"
  unfolding refuseAdmission_def Let_def by (rule begin_same_inv) simp

lemma refuse_admitted_inv: "client_inv H procs E nw \<Longrightarrow> client_inv H procs E (refuseAdmitted H procs op cause ticket nw)"
  unfolding refuseAdmitted_def Let_def by (rule begin_same_inv) simp

lemma drop_spec:
  assumes "client_drop i nw nw'"
  shows "nw' = nw \<or> (\<exists>n. conflictLocked nw i = Some n \<and> nw' = beginMetadataPublicationLocked (delete_conflict n nw))"
  using assms
  by (auto simp: DiscardConflict_def DismissConflict_def sum_bind_Inr_iff elim!: client_drop.cases split: option.splits)

lemma drop_inv: "client_inv H procs E nw \<Longrightarrow> client_drop i nw nw' \<Longrightarrow> client_inv H procs E nw'"
  using drop_spec [of i nw nw'] by (auto intro: begin_metadata_inv)

section \<open>Submitting\<close>

lemma fits_real:
  assumes "table_fits inside tb chs" "ch \<in> set chs" "real_change ch"
  shows "table_view tb (ch_coord ch) \<noteq> table_view (tb ++ change_table chs) (ch_coord ch)"
proof -
  note f = table_fitsD [OF assms(1)]
  have "(tb ++ change_table chs) (ch_coord ch) = Some (after ch)"
    unfolding override_Some_iff [OF f(1)] using assms(2) by blast
  then show ?thesis using f(4) [OF assms(2)] assms(3) by (simp add: real_change_def table_view_def)
qed

lemma execute_inv:
  assumes "client_inv H procs E nw"
  shows "client_inv H procs E (snd (executeAdmitted H procs c op ticket nw))"
proof -
  have ok: "client_ok H procs nw" using assms by (simp add: client_inv_def)
  have "client_inv H procs E (beginPublicationLocked (nw_projection nw) (nw_projection nw1) [] [] False
      (nw1\<lparr>nw_waiters := w\<rparr>))" if sub: "submitProjectionLocked H procs op nw = Inr nw1" for nw1 w
  proof -
    note s = submit_ok [OF ok sub] and spec = submitted_spec [OF ok sub]
    have "client_inv H procs E (beginPublicationLocked (nw_projection nw) (nw_projection (nw1\<lparr>nw_waiters := w\<rparr>)) [] [] False
        (nw1\<lparr>nw_waiters := w\<rparr>))"
    proof (rule begin_inv_pending [OF assms])
      show "client_ok H procs (nw1\<lparr>nw_waiters := w\<rparr>)"
        using s(3) client_ok_cong [of "nw1\<lparr>nw_waiters := w\<rparr>" nw1] by simp
      show "pview (nw_publication (nw1\<lparr>nw_waiters := w\<rparr>)) = pview (nw_publication nw)" by (simp add: s(2))
      show "client_map (nw1\<lparr>nw_waiters := w\<rparr>) = client_map nw" by (simp add: s(2))
    next
      fix x
      assume "x \<in> set (pending_ops (nw_projection (nw1\<lparr>nw_waiters := w\<rparr>)))"
      then consider "x \<in> set (pending_ops (nw_projection nw))" | "x = op" by (auto simp: s(2))
      then show "x \<in> set (pending_ops (nw_projection nw)) \<or> (\<forall>ch\<in>set (changes x). real_change ch \<longrightarrow>
         table_view (client_spec nw) (ch_coord ch) \<noteq> table_view (client_spec (nw1\<lparr>nw_waiters := w\<rparr>)) (ch_coord ch))"
      proof cases
        case 2
        have "client_spec (nw1\<lparr>nw_waiters := w\<rparr>) = client_spec nw ++ change_table (changes op)"
          using spec client_spec_cong [of "nw1\<lparr>nw_waiters := w\<rparr>" nw1] by simp
        then show ?thesis using fits_real [OF s(1)] 2 by simp
      qed simp
    qed
    then show ?thesis by simp
  qed
  then show ?thesis using assms by (simp add: executeAdmitted_def split: option.split sum.split)
qed

section \<open>Giving up pending operations\<close>

lemma clone_operations [simp]: "map CloneOperation ops = ops"
  by (simp add: map_idI)

lemma begin_fewer_inv:
  assumes inv: "client_inv H procs E nw" and proj: "nw_projection nw1 = nw_projection nw"
    and core: "ccore nw1 = ccore nw" "pview (nw_publication nw1) = pview (nw_publication nw)"
    and ops: "set ops \<subseteq> set (pending_ops (nw_projection nw))"
  defines "nw2 \<equiv> rebuildVisibleLocked (nw1\<lparr>nw_projection := \<lparr>acknowledged = client_map nw, pending_ops = ops,
      acknowledged_hash = acknowledged_hash (nw_projection nw)\<rparr>\<rparr>)"
  shows "client_inv H procs E (beginPublicationLocked (nw_projection nw) (nw_projection nw2) [] explicit force nw2)"
proof (rule begin_inv_pending [OF inv])
  let ?n = "nw1\<lparr>nw_projection := \<lparr>acknowledged = client_map nw, pending_ops = ops,
      acknowledged_hash = acknowledged_hash (nw_projection nw)\<rparr>\<rparr>"
  have ok: "client_ok H procs nw" using inv by (simp add: client_inv_def)
  note c = ccoreD [OF core(1)]
  show "client_ok H procs nw2"
    unfolding nw2_def
  proof (rule client_ok_rebuild)
    show "indexed ?n" using client_okD(1) [OF ok] indexed_cong [of ?n nw] by (simp add: c)
  qed (use client_okD(2-4) [OF ok] ops c in auto)
qed (use core(2) ops in \<open>auto simp: nw2_def\<close>)

lemma fail_inv:
  assumes "client_inv H procs E nw"
  shows "client_inv H procs E (failPending H procs i cause nw)"
proof -
  let ?f = "\<lambda>nw op. if op_id op \<noteq> i then nw else retainUnsentLocked H procs op cause nw"
  let ?n = "foldl ?f (drop_waiter i nw) (pending_ops (nw_projection nw))"
  have proj: "nw_projection (drop_waiter i nw) = nw_projection nw" using ccoreD(1) [of "drop_waiter i nw" nw] by simp
  have core: "ccore ?n = ccore nw" using fold_sel(1) [of ?f] by simp
  have pu: "pview (nw_publication ?n) = pview (nw_publication nw)" using fold_sel(2) [of ?f] by simp
  have "client_inv H procs E (beginPublicationLocked (nw_projection nw)
      (nw_projection (rebuildVisibleLocked (?n\<lparr>nw_projection := \<lparr>acknowledged = client_map nw,
        pending_ops = drop_operation i (pending_ops (nw_projection nw)), acknowledged_hash = acknowledged_hash (nw_projection nw)\<rparr>\<rparr>)))
      [] [] False (rebuildVisibleLocked (?n\<lparr>nw_projection := \<lparr>acknowledged = client_map nw,
        pending_ops = drop_operation i (pending_ops (nw_projection nw)), acknowledged_hash = acknowledged_hash (nw_projection nw)\<rparr>\<rparr>)))"
    by (rule begin_fewer_inv [OF assms ccoreD(1) [OF core] core pu]) (auto simp: drop_operation_def)
  then show ?thesis using assms by (simp add: failPending_def Let_def proj)
qed

lemma clear_inv:
  assumes "client_inv H procs E nw"
  shows "client_inv H procs E (clearPendingLocked H procs cause nw)"
proof -
  define q where "q = fst (interrupt_admission cause nw)"
  define n1 where "n1 = snd (interrupt_admission cause nw)"
  define n2 where "n2 = (case verifiedMapHash H procs (nw_projection n1) of Inl _ \<Rightarrow> n1
    | Inr hash \<Rightarrow> foldl (\<lambda>nw op. retain_unconfirmed hash op nw) n1 (pending_ops (nw_projection n1)))"
  define n3 where "n3 = foldl (\<lambda>nw op. retainUnsentLocked H procs op cause nw) n2 q"
  define n4 where "n4 = foldl (\<lambda>nw i. drop_waiter i nw) n3 (nw_waiters n3)"
  have "ccore n1 = ccore nw \<and> pview (nw_publication n1) = pview (nw_publication nw)"
    by (simp add: n1_def interrupt_admission_def Let_def pview_def)
  then have "ccore n2 = ccore nw \<and> pview (nw_publication n2) = pview (nw_publication nw)"
    by (simp add: n2_def fold_sel split: sum.split)
  then have "ccore n3 = ccore nw \<and> pview (nw_publication n3) = pview (nw_publication nw)"
    by (simp add: n3_def fold_sel)
  moreover have "ccore (foldl (\<lambda>nw i. drop_waiter i nw) n is) = ccore n \<and>
      pview (nw_publication (foldl (\<lambda>nw i. drop_waiter i nw) n is)) = pview (nw_publication n)" for n "is"
    by (induction "is" arbitrary: n) simp_all
  ultimately have n4: "ccore n4 = ccore nw" "pview (nw_publication n4) = pview (nw_publication nw)"
    by (simp_all add: n4_def)
  have eq: "\<exists>a. clearPendingLocked H procs cause nw = (\<lambda>n5. (beginPublicationLocked (nw_projection nw) (nw_projection n5) [] [] False n5)
      \<lparr>nw_answers := a\<rparr>) (rebuildVisibleLocked (n4\<lparr>nw_projection := \<lparr>acknowledged = client_map nw, pending_ops = [],
        acknowledged_hash = acknowledged_hash (nw_projection nw)\<rparr>\<rparr>))"
    unfolding clearPendingLocked_def n4_def n3_def n2_def n1_def q_def
    using ccoreD(1) [OF n4(1)] unfolding n4_def n3_def n2_def n1_def q_def
    by (simp add: Let_def case_prod_beta del: rebuild_sel) blast
  show ?thesis
    using eq begin_fewer_inv [OF assms ccoreD(1) [OF n4(1)] n4, of "[]"] by auto
qed

lemma suspend_inv: "client_inv H procs E nw \<Longrightarrow> client_inv H procs E (suspendLocked H procs cause nw)"
  by (simp add: suspendLocked_def clear_inv)

lemma terminate_inv: "client_inv H procs E nw \<Longrightarrow> client_inv H procs E (failAllLocked H procs cause nw)"
  by (simp add: failAllLocked_def clear_inv)

section \<open>Messages of the server\<close>

lemma reject_inv:
  assumes inv: "client_inv H procs E nw"
  shows "client_inv H procs E (snd (receive_rejected H procs r nw))"
proof (cases "rejectProjectionLocked H procs r nw")
  case (Inl e)
  then show ?thesis using suspend_inv [OF inv] by (simp add: receive_rejected_def)
next
  case (Inr x)
  have ok: "client_ok H procs nw" using inv by (simp add: client_inv_def)
  obtain cf nw1 where x: "x = (cf, nw1)" by (cases x)
  have nw1: "nw1 = rebuildVisibleLocked (nw\<lparr>nw_projection := \<lparr>acknowledged = client_map nw,
      pending_ops = drop_operation (rj_operation r) (pending_ops (nw_projection nw)),
      acknowledged_hash = acknowledged_hash (nw_projection nw)\<rparr>\<rparr>)"
    using Inr x verified_hash [OF ok]
    by (auto simp: rejectProjectionLocked_def rejectWithHashMode_def Let_def sum_bind_Inr_iff)
  let ?n = "drop_waiter (rj_operation r) (retainConflictLocked cf nw1)"
  have core: "ccore ?n = ccore nw1" "pview (nw_publication ?n) = pview (nw_publication nw)" by (simp_all add: nw1)
  have "client_inv H procs E (beginPublicationLocked (nw_projection nw) (nw_projection ?n) []
      (map ch_coord (changes (cf_draft cf))) False ?n)"
  proof (rule begin_inv_pending [OF inv])
    have "client_ok H procs nw1"
      unfolding nw1
    proof (rule client_ok_rebuild)
      let ?m = "nw\<lparr>nw_projection := \<lparr>acknowledged = client_map nw,
        pending_ops = drop_operation (rj_operation r) (pending_ops (nw_projection nw)),
        acknowledged_hash = acknowledged_hash (nw_projection nw)\<rparr>\<rparr>"
      show "indexed ?m" using client_okD(1) [OF ok] indexed_cong [of ?m nw] by simp
    qed (use client_okD(2-4) [OF ok] in \<open>auto simp: drop_operation_def\<close>)
    then show "client_ok H procs ?n" using client_ok_cong [OF core(1)] by simp
    show "client_map ?n = client_map nw" using ccoreD(1) [OF core(1)] by (simp add: nw1)
  qed (use core(2) ccoreD(1) [OF core(1)] in \<open>auto simp: nw1 drop_operation_def\<close>)
  then show ?thesis using Inr x ccoreD(1) [OF core(1)] by (simp add: receive_rejected_def Let_def)
qed

lemma receive_local_inv:
  assumes "client_inv H procs E nw" "\<And>acc hash. decoded \<noteq> Inr (OperationAccepted acc hash)"
  shows "client_inv H procs E (snd (Receive H procs stamp decoded nw))"
  using assms by (auto simp: Receive_def terminate_inv reject_inv split: sum.split server_message.split option.split)

theorem client_local_inv: "client_local H procs stamp nw nw' \<Longrightarrow> client_inv H procs E nw \<Longrightarrow> client_inv H procs E nw'"
proof (induction rule: client_local.cases)
  case (local_claim nw i)
  then show ?case by (simp add: claim_rebuild_def)
next
  case (local_release nw i)
  then show ?case by (simp add: release_rebuild_def)
next
  case (local_updates nw)
  then show ?case by (simp add: ProjectionUpdates_def)
qed (simp_all add: reserve_inv refuse_inv execute_inv refuse_admitted_inv finish_inv fail_inv suspend_inv terminate_inv resume_inv
  receive_local_inv drop_inv)

section \<open>Acceptances\<close>

lemma accept_inv:
  assumes inv: "client_inv H procs E nw"
  shows "client_inv H procs E (snd (receive_accepted H procs acc hash receipt nw))"
proof (cases "acceptProjectionLocked H procs acc hash nw")
  case (Inl e)
  then show ?thesis using suspend_inv [OF inv] inv by (simp add: receive_accepted_def Let_def)
next
  case (Inr nw1)
  have ok: "client_ok H procs nw" using inv by (simp add: client_inv_def)
  have fits: "table_fits (Contains (client_map nw)) (client_table nw) (changes (acc_op acc))"
    and hash: "hash = h_digest (newCanonicalHasher H procs (next_map acc nw))"
    and nw1: "nw1 = rebuildVisibleLocked (accepted_state H procs acc hash nw)"
    using Inr accept_iff [OF ok] by blast+
  note n = next_map_ok [OF client_okD(1) [OF ok] fits]
  have map1: "client_map nw1 = next_map acc nw" by (simp add: nw1 accepted_state_def)
  have step: "client_inv H procs E (beginPublicationLocked (nw_projection nw) (nw_projection n) (changes (acc_op acc)) [] False n)"
    if core: "ccore n = ccore nw1" "pview (nw_publication n) = pview (nw_publication nw)" for n
  proof (rule begin_inv [OF inv])
    note c = ccoreD [OF core(1)]
    show "client_ok H procs n"
      using accepted_state_ok [OF ok fits hash] client_ok_cong [OF core(1)] by (simp add: nw1)
    show "Contains (client_map n) = Contains (client_map nw)" "client_table n = client_table nw ++ change_table (changes (acc_op acc))"
      using n(2,3) by (simp_all add: c map1)
    show "op \<in> set (pending_ops (nw_projection nw)) \<or> (\<forall>ch\<in>set (changes op). real_change ch \<longrightarrow>
         table_view (client_spec nw) (ch_coord ch) \<noteq> table_view (client_spec n) (ch_coord ch))"
      if "op \<in> set (pending_ops (nw_projection n))" for op
      using that by (simp add: c(1) nw1 accepted_state_def drop_operation_def)
  qed (use core(2) fits in simp_all)
  define n4 where "n4 = resolve_conflict (acc_op acc) (case receipt of
      None \<Rightarrow> (nw1\<lparr>verified_history := record_history (acc_revision acc) hash (verified_history nw1)\<rparr>)
        \<lparr>nw_accepted := (nw_accepted nw1)(op_id (acc_op acc) \<mapsto> acc), nw_hashes := (nw_hashes nw1)(op_id (acc_op acc) \<mapsto> hash)\<rparr>
    | Some r \<Rightarrow> (nw1\<lparr>verified_history := record_history (acc_revision acc) hash (verified_history nw1)\<rparr>)
        \<lparr>nw_receipts := (nw_receipts nw1)(op_id (acc_op acc) \<mapsto> r)\<rparr>)"
  let ?n = "drop_waiter (op_id (acc_op acc)) n4"
  have core: "ccore ?n = ccore nw1" "pview (nw_publication ?n) = pview (nw_publication nw)"
    by (simp_all add: n4_def nw1 accepted_state_def split: option.split)
  let ?seen = "nw_accepted nw (op_id (acc_op acc)) = Some acc \<and>
      hash = (case nw_hashes nw (op_id (acc_op acc)) of Some h \<Rightarrow> h | None \<Rightarrow> [])"
  show ?thesis
  proof (cases ?seen)
    case True
    then show ?thesis unfolding receive_accepted_def Let_def if_P [OF True] using inv by simp
  next
    case False
    have proj: "nw_projection nw1 = nw_projection ?n" using ccoreD(1) [OF core(1)] by simp
    have "\<exists>a. snd (receive_accepted H procs acc hash receipt nw) =
        (beginPublicationLocked (nw_projection nw) (nw_projection nw1) (changes (acc_op acc)) [] False ?n)\<lparr>nw_answers := a\<rparr> \<or>
      snd (receive_accepted H procs acc hash receipt nw) =
        beginPublicationLocked (nw_projection nw) (nw_projection nw1) (changes (acc_op acc)) [] False ?n"
      unfolding receive_accepted_def Let_def if_not_P [OF False] Inr n4_def
      by (cases receipt) (simp_all only: sum.case option.case CloneAcceptedOperation_id network.select_convs snd_conv, auto)
    then show ?thesis using step [OF core] unfolding proj by auto
  qed
qed

theorem receive_inv: "client_inv H procs E nw \<Longrightarrow> client_inv H procs E (snd (Receive H procs stamp decoded nw))"
  by (auto simp: Receive_def terminate_inv reject_inv accept_inv split: sum.split server_message.split option.split)

section \<open>Joining and replacing\<close>

lemma indexed_start:
  assumes "snapshot_ok (client_map nw)"
  shows "indexed (indexAcknowledgedLocked hash nw)"
proof -
  have d: "distinct (map tile_coord (tiles (client_map nw)))"
    and i: "distinct (concat (map (\<lambda>t. tile_ids (tile_st t)) (tiles (client_map nw))))"
    using assms by (simp_all add: snapshot_ok_def snapshot_ids_def comp_def)
  have a: "foldl (\<lambda>m t. m(tile_coord t \<mapsto> tile_st t)) m ts = m ++ tile_table ts"
    if "distinct (map tile_coord ts)" for m ts
    using that
  proof (induction ts arbitrary: m)
    case (Cons t ts)
    have n: "tile_table ts (tile_coord t) = None" using Cons.prems by (force simp: tile_table_def map_of_eq_None_iff)
    have "m(tile_coord t \<mapsto> tile_st t) ++ tile_table ts = m ++ tile_table (t # ts)"
      using n by (auto simp: fun_eq_iff map_add_def tile_table_def split: option.split)
    then show ?case using Cons by (simp del: fun_upd_apply)
  qed (simp add: tile_table_def)
  show ?thesis
    using assms table_of_start [OF d] owners_fold_ok [OF d i] a [OF d, of Map.empty]
    by (simp add: indexed_def indexAcknowledgedLocked_def buildAuthorityIndex_def Let_def)
qed

lemma started_ok:
  assumes "snapshot_ok (client_map nw)" "pending_ops (nw_projection nw) = []"
    "hash = h_digest (newCanonicalHasher H procs (client_map nw))"
    "n1 = (indexAcknowledgedLocked hash nw)\<lparr>nw_hasher := Some (newCanonicalHasher H procs (client_map nw))\<rparr>"
  shows "client_ok H procs (rebuildVisibleLocked n1)"
proof (rule client_ok_rebuild)
  have sel: "nw_projection n1 = (nw_projection nw)\<lparr>acknowledged_hash := hash\<rparr>"
    by (simp add: assms(4) indexAcknowledgedLocked_def Let_def)
  show "indexed n1" using indexed_start [OF assms(1)] indexed_cong [of n1 "indexAcknowledgedLocked hash nw"] by (simp add: assms(4))
  show "acknowledged_hash (nw_projection n1) = h_digest (newCanonicalHasher H procs (client_map n1))" by (simp add: sel assms(3))
  show "nw_hasher n1 = Some (newCanonicalHasher H procs (client_map n1))" by (simp add: sel) (simp add: assms(4))
  show "\<forall>op\<in>set (pending_ops (nw_projection n1)). op_valid (Contains (client_map n1)) op" by (simp add: sel assms(2))
qed

lemma rebuild_none: "pending_ops (nw_projection nw) = [] \<Longrightarrow> nw_visible_tiles nw = Map.empty \<Longrightarrow> nw_visible_coords nw = [] \<Longrightarrow>
  rebuildVisibleLocked nw = nw"
  by (simp add: rebuildVisibleLocked_def empty_overlay_def)

lemma new_inv:
  assumes "NewNetworkExecutor H procs nil_transport s actor session = Inr nw"
  shows "client_inv H procs \<lparr>ed_authority = map_view s, ed_display = map_view s\<rparr> nw" "client_map nw = s" "snapshot_ok s"
proof -
  define hash where "hash = h_digest (newCanonicalHasher H procs s)"
  have ok: "Snapshot_Validate s = None" using assms
    by (auto simp: NewNetworkExecutor_def sum_bind_Inr_iff lift_model_def NewCanonicalHasher_def split: option.splits)
  then show s: "snapshot_ok s" by (simp add: Snapshot_Validate_iff)
  define n0 where "n0 = \<lparr>nw_actor = actor, nw_projection = newProjection H procs s hash, nw_tile_indexes = Map.empty, nw_hasher = None,
           nw_visible_tiles = Map.empty, nw_visible_coords = [], nw_changes = None,
           published_delta = \<lparr>pc_tile_indexes = None, pc_visible_tiles = Map.empty, pc_visible_coords = [],
             pc_projection = newProjection H procs s hash, pc_map_hash = [], pc_has_pending = False\<rparr>,
           conflict_rebuilds = {}, nw_waiters = [], nw_answers = [], nw_accepted = Map.empty, nw_hashes = Map.empty,
           nw_receipts = Map.empty, verified_history = fmupd (snap_revision s) hash fmempty,
           nw_conflicts = [], conflicts_dirty = False, nw_updates = None, legacy_updates = False, nw_terminal = None,
           nw_suspended = None, nw_publication = newPublicationState, nw_published = None,
           authority_tiles = Map.empty, authority_owners = Map.empty\<rparr>"
  define n1 where "n1 = (indexAcknowledgedLocked hash n0)\<lparr>nw_hasher := Some (newCanonicalHasher H procs s)\<rparr>"
  have proj: "nw_projection n1 = \<lparr>acknowledged = s, pending_ops = [], acknowledged_hash = hash\<rparr>"
    by (simp add: n1_def n0_def indexAcknowledgedLocked_def newProjection_def Let_def)
  have "client_ok H procs (rebuildVisibleLocked n1)"
    by (rule started_ok [of n0 _ H procs]) (simp_all add: n0_def newProjection_def s hash_def n1_def Let_def)
  moreover have "rebuildVisibleLocked n1 = n1"
    by (rule rebuild_none) (simp add: proj, simp_all add: n1_def n0_def indexAcknowledgedLocked_def Let_def)
  ultimately have "client_ok H procs n1" by simp
  moreover have "\<exists>pd ch. nw = (publishCaptureLocked n1)\<lparr>published_delta := pd, nw_changes := ch\<rparr>"
    using assms ok unfolding NewNetworkExecutor_def n1_def n0_def hash_def
    by (auto simp: sum_bind_Inr_iff lift_model_def NewCanonicalHasher_def Hasher_Digest_def Let_def)
  then obtain pd ch where nw: "nw = (publishCaptureLocked n1)\<lparr>published_delta := pd, nw_changes := ch\<rparr>" by blast
  have core: "ccore nw = ccore n1" unfolding nw using publish_sel(1) [of n1] by (simp add: ccore_def)
  have pub: "published_ok nw"
    using published_capture [of n1] published_ok_cong [of nw "publishCaptureLocked n1"] core by (simp add: nw)
  have pu: "nw_publication nw = newPublicationState" by (simp add: nw n1_def n0_def indexAcknowledgedLocked_def Let_def)
  have cs: "client_spec nw = client_table nw" "client_map nw = s"
    using ccoreD(1) [OF core] by (simp_all add: client_spec_def proj)
  then show "client_map nw = s" by simp
  have "display_ok nw \<lparr>ed_authority = map_view s, ed_display = map_view s\<rparr>"
    unfolding display_ok_def Let_def pu cs by (simp add: newPublicationState_def sent_def base_view_def map_view_table [symmetric] fun_eq_iff)
  then show "client_inv H procs \<lparr>ed_authority = map_view s, ed_display = map_view s\<rparr> nw"
    using \<open>client_ok H procs n1\<close> pub client_ok_cong [OF core] by (simp add: client_inv_def)
qed

end
