(* ===== verification/Client_Editor.thy ===== *)
theory Client_Editor
  imports Client_Keeps
begin

text \<open>
  An executor with its editor: what the editor shows after it has installed an update, and that the
  captures, the visible snapshot and the tile-by-tile view of an executor agree.
\<close>

section \<open>The editor\<close>

text \<open>An editor installs an update as app/ui/cpwsarea/wsmap/pmap/editor/collaboration_publication.go
  does: a replacement with its authoritative tiles is the new base of both views; otherwise the
  authoritative tiles and the tiles to display replace those the editor has.\<close>

definition overlay_tiles :: "tile list \<Rightarrow> (coord \<Rightarrow> tile_view) \<Rightarrow> coord \<Rightarrow> tile_view" where
  "overlay_tiles ts = sent (tile_table ts)"

definition show_update :: "presentation_update \<Rightarrow> editor_view \<Rightarrow> editor_view" where
  "show_update u E =
     (case pr_replacement u of
        Some s \<Rightarrow>
          let authority = overlay_tiles (pr_authoritative u) (map_view s) in
          \<lparr>ed_authority = authority, ed_display = overlay_tiles (pr_display u) authority\<rparr>
      | None \<Rightarrow> \<lparr>ed_authority = overlay_tiles (pr_authoritative u) (ed_authority E),
                 ed_display = overlay_tiles (pr_display u) (ed_display E)\<rparr>)"

inductive client_run :: "digest_fun \<Rightarrow> nat \<Rightarrow> stamp_fun \<Rightarrow> network \<Rightarrow> editor_view \<Rightarrow> bool"
  for H :: digest_fun and procs :: nat and stamp :: stamp_fun where
  run_join: "NewNetworkExecutor H procs nil_transport s actor session = Inr nw \<Longrightarrow>
    client_run H procs stamp nw \<lparr>ed_authority = map_view s, ed_display = map_view s\<rparr>"
| run_local: "client_run H procs stamp nw E \<Longrightarrow> client_local H procs stamp nw nw' \<Longrightarrow> client_run H procs stamp nw' E"
| run_receive: "client_run H procs stamp nw E \<Longrightarrow> client_run H procs stamp (snd (Receive H procs stamp decoded nw)) E"
| run_replace: "client_run H procs stamp nw E \<Longrightarrow> ReplaceAcknowledgedSnapshot H procs c s nw = Inr nw' \<Longrightarrow> client_run H procs stamp nw' E"
| run_take: "client_run H procs stamp nw E \<Longrightarrow> TakePresentationUpdate nw = (Some u, nw') \<Longrightarrow> client_run H procs stamp nw' (show_update u E)"

section \<open>Taking an update\<close>

lemma sent_empty [simp]: "sent (\<lambda>x. None) m = m"
  by (simp add: sent_def fun_eq_iff)

lemma tile_table_take:
  assumes "finite (dom m)"
  shows "tile_table (takeTiles m) = m"
proof -
  have t: "map tile_coord (takeTiles m) = sorted_list_of_set (dom m)"
    by (simp add: takeTiles_def comp_def)
  then have d: "distinct (map tile_coord (takeTiles m))" by simp
  have "tile_table (takeTiles m) c = Some st \<longleftrightarrow> m c = Some st" for c st
    unfolding tile_table_Some_iff [OF d] using assms by (auto simp: takeTiles_def state_at_def image_iff domIff)
  then show ?thesis by (metis ext not_None_eq)
qed

lemma take_inv:
  assumes inv: "client_inv H procs E nw" and take: "TakePresentationUpdate nw = (Some u, nw')"
  shows "show_update u E = \<lparr>ed_authority = map_view (client_map nw), ed_display = table_view (client_spec nw)\<rparr>"
    and "client_inv H procs (show_update u E) nw'" and "ccore nw' = ccore nw" and "drafts nw' = drafts nw"
    and "nw_terminal nw' = nw_terminal nw"
proof -
  have ok: "client_ok H procs nw" and dis: "display_ok nw E" and pub: "published_ok nw"
    using inv by (simp_all add: client_inv_def)
  note d = display_okD [OF dis]
  let ?pu = "nw_publication nw"
  have u: "pr_authoritative u = takeTiles (pu_authoritative ?pu)" "pr_display u = takeTiles (pu_display ?pu)"
      "pr_replacement u = pu_replacement ?pu"
    and nw': "nw' = nw\<lparr>nw_publication := ?pu\<lparr>pu_authoritative := Map.empty, pu_display := Map.empty, pu_replacement := None,
      pu_ready := False\<rparr>\<rparr>"
    using take by (auto simp: TakePresentationUpdate_def Let_def option.map_id0 map_option_case split: if_splits option.splits)
  show E: "show_update u E = \<lparr>ed_authority = map_view (client_map nw), ed_display = table_view (client_spec nw)\<rparr>"
  proof (cases "pu_replacement ?pu")
    case None
    then show ?thesis using d(3,4) by (simp add: show_update_def u overlay_tiles_def tile_table_take d(1,2) base_view_def)
  next
    case (Some s)
    have s: "s = client_map nw" using d(5) [OF Some] by blast
    have a: "sent (pu_authoritative ?pu) (map_view s) = map_view (client_map nw)"
      using d(4) Some by (simp add: base_view_def)
    have b: "sent (pu_display ?pu) (map_view s) = table_view (client_spec nw)"
      using d(3) Some by (simp add: base_view_def)
    show ?thesis
      using a b s by (simp add: show_update_def u Some overlay_tiles_def tile_table_take d(1,2) Let_def)
  qed
  show core: "ccore nw' = ccore nw" "drafts nw' = drafts nw" "nw_terminal nw' = nw_terminal nw" by (simp_all add: nw')
  have "display_ok nw' (show_update u E)"
    unfolding display_ok_def Let_def client_spec_cong [OF core(1)] ccoreD(1) [OF core(1)] E
    by (simp add: nw' base_view_def)
  then show "client_inv H procs (show_update u E) nw'"
    using ok pub client_ok_cong [OF core(1)] published_ok_cong [OF core(1)] by (simp add: client_inv_def nw')
qed

section \<open>Replacing the acknowledged map\<close>

lemma replace_spec:
  assumes inv: "client_inv H procs E nw" and rep: "ReplaceAcknowledgedSnapshot H procs c s nw = Inr nw'"
  shows "client_inv H procs E nw'"
    and "nw' = nw \<and> snap_revision s = snap_revision (client_map nw) \<or> client_map nw' = s \<and> pending_ops (nw_projection nw') = [] \<and> drafts nw' = drafts nw"
    and "snap_revision s \<ge> snap_revision (client_map nw)" "pending_ops (nw_projection nw) = []"
    "nw_terminal nw' = nw_terminal nw"
proof -
  let ?hash = "h_digest (newCanonicalHasher H procs s)"
  define n0 where "n0 = nw\<lparr>nw_projection := newProjection H procs s ?hash\<rparr>"
  define n1 where "n1 = (indexAcknowledgedLocked ?hash n0)\<lparr>nw_hasher := Some (newCanonicalHasher H procs s)\<rparr>"
  define n2 where "n2 = (rebuildVisibleLocked n1)\<lparr>verified_history := fmupd (snap_revision s) ?hash fmempty\<rparr>"
  have valid: "Snapshot_Validate s = None" and pend: "pending_ops (nw_projection nw) = []"
    and rev: "snap_revision s \<ge> snap_revision (client_map nw)"
    and cases: "nw' = nw \<and> snap_revision s = snap_revision (client_map nw) \<or>
      nw' = beginReplacementPublicationLocked s n2"
    using rep
    by (auto simp: ReplaceAcknowledgedSnapshot_def sum_bind_Inr_iff lift_model_def NewCanonicalHasher_def Hasher_Digest_def Let_def
        n2_def n1_def n0_def split: option.splits if_splits)
  have s: "snapshot_ok s" using valid by (simp add: Snapshot_Validate_iff)
  have n0: "client_map n0 = s" "pending_ops (nw_projection n0) = []" by (simp_all add: n0_def newProjection_def Let_def)
  have "client_ok H procs (rebuildVisibleLocked n1)"
    by (rule started_ok [of n0 ?hash]) (use s in \<open>simp_all add: n0 n1_def\<close>)
  moreover have core2: "ccore n2 = ccore (rebuildVisibleLocked n1)" by (simp add: n2_def)
  ultimately have ok2: "client_ok H procs n2" using client_ok_cong by blast
  have proj: "client_map n2 = s" "pending_ops (nw_projection n2) = []"
    by (simp_all add: n2_def n1_def n0 indexAcknowledgedLocked_def Let_def)
  let ?n3 = "beginReplacementPublicationLocked s n2"
  have core3: "ccore ?n3 = ccore n2" by simp
  have pu: "pview (nw_publication ?n3) = (True, Map.empty, Map.empty, Some s)"
    by (simp add: beginReplacementPublicationLocked_def Let_def pview_def)
  have sel: "pu_ready (nw_publication ?n3)" "pu_authoritative (nw_publication ?n3) = Map.empty"
    "pu_display (nw_publication ?n3) = Map.empty" "pu_replacement (nw_publication ?n3) = Some s"
    using pu by (simp_all add: pview_def)
  have "client_spec n2 = client_table n2" by (simp add: client_spec_def proj)
  then have "display_ok ?n3 E"
    unfolding display_ok_def Let_def client_spec_cong [OF core3] ccoreD(1) [OF core3]
    by (simp add: sel base_view_def proj map_view_table)
  then have "client_inv H procs E ?n3" using ok2 client_ok_cong [OF core3] by (simp add: client_inv_def)
  then show "client_inv H procs E nw'" using cases inv by auto
  have ended: "nw_terminal ?n3 = nw_terminal nw"
    by (simp add: beginReplacementPublicationLocked_def publishCaptureLocked_def publishChangesLocked_def publishLegacyLocked_def Let_def
        n2_def n1_def n0_def indexAcknowledgedLocked_def rebuildVisibleLocked_eq)
  have "drafts ?n3 = drafts nw"
    by (simp add: n2_def n1_def n0_def indexAcknowledgedLocked_def rebuildVisibleLocked_eq Let_def drafts_def [of "_\<lparr>nw_hasher := _\<rparr>"])
      (simp add: drafts_def)
  then show "nw' = nw \<and> snap_revision s = snap_revision (client_map nw) \<or> client_map nw' = s \<and> pending_ops (nw_projection nw') = [] \<and> drafts nw' = drafts nw"
    using cases ccoreD(1) [OF core3] proj by auto
  show "snap_revision s \<ge> snap_revision (client_map nw)" "pending_ops (nw_projection nw) = []" by (fact rev, fact pend)
  show "nw_terminal nw' = nw_terminal nw" using cases ended by auto
qed

theorem client_run_inv: "client_run H procs stamp nw E \<Longrightarrow> client_inv H procs E nw"
proof (induction rule: client_run.induct)
  case (run_join nil_transport s actor session nw)
  then show ?case by (rule new_inv)
next
  case (run_local nw E nw')
  then show ?case by (blast intro: client_local_inv)
next
  case (run_receive nw E decoded)
  then show ?case by (blast intro: receive_inv)
next
  case (run_replace nw E c s nw')
  then show ?case by (blast intro: replace_spec(1))
next
  case (run_take nw E u nw')
  then show ?case by (blast intro: take_inv(2))
qed

section \<open>The views of a projection\<close>

lemma visible_spec:
  assumes "client_ok H procs nw"
  shows "tile_table (tiles (Visible H procs (nw_projection nw))) = client_spec nw"
    "map_view (Visible H procs (nw_projection nw)) = table_view (client_spec nw)"
  using visibleProjection_replay(2) [OF indexedD(1) [OF client_okD(1) [OF assms]], of H procs "pending_ops (nw_projection nw)"]
  by (simp_all add: Visible_def client_spec_def map_view_table)

definition shown_changes :: "projection_capture \<Rightarrow> tile_change list" where
  "shown_changes cap = map (\<lambda>c. \<lparr>ch_coord = c, before = empty_tile, after = state_at (pc_visible_tiles cap) c\<rparr>) (pc_visible_coords cap)"

lemma visible_snapshot_eq:
  assumes "pc_tile_indexes cap = Some m"
  shows "VisibleSnapshot H procs cap = (acknowledged (pc_projection cap))\<lparr>tiles :=
    write_tiles m (shown_changes cap) (tiles (acknowledged (pc_projection cap)))\<rparr>"
proof -
  have "foldl (\<lambda>v c. let state = CloneTileState (state_at (pc_visible_tiles cap) c) in
              case m c of
                Some i \<Rightarrow> v\<lparr>tiles := set_tile i state (tiles v)\<rparr>
              | None \<Rightarrow> v\<lparr>tiles := tiles v @ [\<lparr>tile_coord = c, tile_st = state\<rparr>]\<rparr>) s cs =
      s\<lparr>tiles := write_tiles m (map (\<lambda>c. \<lparr>ch_coord = c, before = empty_tile, after = state_at (pc_visible_tiles cap) c\<rparr>) cs) (tiles s)\<rparr>"
    for s cs
    by (induction cs arbitrary: s) (simp_all add: Let_def split: option.split)
  then show ?thesis by (simp add: VisibleSnapshot_def assms shown_changes_def AcceptedSnapshot_def)
qed

lemma capture_views:
  assumes "client_ok H procs nw" "cap = (captureProjectionLocked nw)\<lparr>pc_has_pending := b\<rparr>"
  shows "tile_table (tiles (VisibleSnapshot H procs cap)) = client_spec nw" "VisibleTile cap = client_spec nw"
proof -
  note ok = client_okD [OF assms(1)] and ix = indexedD [OF client_okD(1) [OF assms(1)]]
  define ov where "ov = overlay_of nw (pending_ops (nw_projection nw))"
  have ov: "ov_ok nw (client_spec nw) ov" unfolding client_spec_def ov_def by (rule overlay_of_ok [OF ok(1)])
  have t: "indexes_ok (tiles (client_map nw)) (nw_tile_indexes nw)" "distinct (map tile_coord (tiles (client_map nw)))"
    using ix(2) by (simp_all add: table_of_def)
  have cap: "pc_visible_tiles cap = ov_tiles ov" "pc_visible_coords cap = ov_coords ov" "pc_projection cap = nw_projection nw"
    "pc_tile_indexes cap = Some (nw_tile_indexes nw)"
    using ok(5,6) by (simp_all add: assms(2) captureProjectionLocked_def ov_def)
  have coords: "map ch_coord (shown_changes cap) = ov_coords ov" by (simp add: shown_changes_def cap comp_def)
  have d: "distinct (map ch_coord (shown_changes cap))" using ov_okD(4) [OF ov] by (simp add: coords)
  have "change_table (shown_changes cap) c = ov_tiles ov c" for c
  proof (cases "ov_tiles ov c")
    case None
    then have "c \<notin> ch_coord ` set (shown_changes cap)"
      using ov_okD(3) [OF ov] coords by (metis domIff set_map)
    then show ?thesis using None dom_change_table [of "shown_changes cap"] by (metis domIff)
  next
    case (Some st)
    then have "c \<in> set (ov_coords ov)" using ov_okD(3) [OF ov] by blast
    then have "change_table (shown_changes cap) c = Some st"
      unfolding change_table_Some_iff [OF d] using Some by (auto simp: shown_changes_def cap state_at_def)
    then show ?thesis using Some by simp
  qed
  then have table: "change_table (shown_changes cap) = ov_tiles ov" by (simp add: fun_eq_iff)
  have "fits (nw_tile_indexes nw) (shown_changes cap) (tiles (client_map nw))"
    using fits_indexes t d by blast
  then show "tile_table (tiles (VisibleSnapshot H procs cap)) = client_spec nw"
    using write_tiles_spec ov_okD(1) [OF ov] by (simp add: visible_snapshot_eq [OF cap(4)] cap table)
  have "AcceptedTile cap c = client_table nw c" for c
  proof (cases "nw_tile_indexes nw c")
    case (Some i)
    then have "i < length (tiles (client_map nw))" "tile_coord (tiles (client_map nw) ! i) = c"
      using t(1) by (auto simp: indexes_ok_def)
    then show ?thesis
      using Some t(2) tile_table_nth [of "tiles (client_map nw)" i] by (auto simp: AcceptedTile_def capture_index_def cap)
  next
    case None
    then have "client_table nw c = None"
      using t(1) cons_coords [of "tiles (client_map nw)" "nw_tile_indexes nw" c] dom_tile_table [of "tiles (client_map nw)"]
      by (auto simp: domIff)
    then show ?thesis using None by (simp add: AcceptedTile_def capture_index_def cap)
  qed
  then show "VisibleTile cap = client_spec nw"
    using ov_okD(1) [OF ov] by (simp add: VisibleTile_def cap fun_eq_iff map_add_def split: option.split)
qed

section \<open>Properties\<close>

definition replay_pending :: "digest_fun \<Rightarrow> nat \<Rightarrow> projection \<Rightarrow> snapshot" where
  "replay_pending H procs p =
     foldl (\<lambda>v op. case applyOperation H procs v op of Inl _ \<Rightarrow> v | Inr v' \<Rightarrow> v') (acknowledged p) (pending_ops p)"

text \<open>Every view of an executor shows the same map: the snapshot that a capture makes from the
  sparse overlay, the capture looked up tile by tile, the visible snapshot of the projection, which
  applies the pending operations to an indexed copy, and the acknowledged map to which the pending
  operations that still apply are applied one by one.\<close>

theorem views_agree:
  assumes "client_run H procs stamp nw E" "CaptureProjection c nw = Inr cap"
  shows "tile_table (tiles (VisibleSnapshot H procs cap)) = tile_table (tiles (replay_pending H procs (nw_projection nw))) \<and>
    VisibleTile cap = tile_table (tiles (replay_pending H procs (nw_projection nw))) \<and>
    Visible H procs (pc_projection cap) =
      (replay_pending H procs (nw_projection nw))\<lparr>snap_revision := snap_revision (acknowledged (nw_projection nw))\<rparr>"
proof -
  let ?replayed = "replay_pending H procs (nw_projection nw)"
  have inv: "client_inv H procs E nw" by (rule client_run_inv [OF assms(1)])
  then have ok: "client_ok H procs nw" by (simp add: client_inv_def)
  obtain pb b where "nw_published nw = Some pb" "pb_capture pb = (captureProjectionLocked nw)\<lparr>pc_has_pending := b\<rparr>"
    using inv by (auto simp: client_inv_def published_ok_def)
  then have cap: "cap = (captureProjectionLocked nw)\<lparr>pc_has_pending := b\<rparr>"
    using assms(2) by (simp add: CaptureProjection_def split: if_splits)
  have "visibleProjection H procs (client_map nw) (pending_ops (nw_projection nw)) = ?replayed"
    unfolding replay_pending_def by (rule visibleProjection_replay(1) [OF indexedD(1) [OF client_okD(1) [OF ok]]])
  then have v: "Visible H procs (nw_projection nw) = ?replayed\<lparr>snap_revision := snap_revision (client_map nw)\<rparr>"
    by (simp add: Visible_def)
  then show ?thesis
    using capture_views [OF ok cap] visible_spec(1) [OF ok] by (simp add: cap captureProjectionLocked_def)
qed

text \<open>C38: an editor that joined with an executor's first map and has installed every presentation
  update since shows, whenever no local edit is being admitted, the acknowledged map as its authority
  and the acknowledged map with the pending operations applied as its display: the update it takes
  next brings it there, and if there is none it is there already.\<close>

theorem editor_shows_projection:
  assumes "client_run H procs stamp nw E" "local_admissions (nw_publication nw) = 0"
  shows "(case fst (TakePresentationUpdate nw) of Some u \<Rightarrow> show_update u E | None \<Rightarrow> E) =
    \<lparr>ed_authority = map_view (acknowledged (nw_projection nw)), ed_display = map_view (Visible H procs (nw_projection nw))\<rparr>"
proof -
  have inv: "client_inv H procs E nw" by (rule client_run_inv [OF assms(1)])
  then have ok: "client_ok H procs nw" and d: "display_ok nw E" and pub: "published_ok nw" by (simp_all add: client_inv_def)
  show ?thesis
  proof (cases "TakePresentationUpdate nw")
    case (Pair r nw')
    show ?thesis
    proof (cases r)
      case (Some u)
      then show ?thesis using take_inv(1) [OF inv] Pair visible_spec(2) [OF ok] by simp
    next
      case None
      then have "\<not> pu_ready (nw_publication nw)"
        using Pair assms(2) pub by (auto simp: TakePresentationUpdate_def Let_def published_ok_def split: if_splits)
      then show ?thesis
        using display_okD(3,4,6) [OF d] None Pair visible_spec(2) [OF ok]
        by (cases E) (simp add: base_view_def)
    qed
  qed
qed

end
