(* ===== verification/Client_Drafts.thy ===== *)
theory Client_Drafts
  imports Client_Editor
begin

text \<open>
  No edit is lost: a pending operation stays pending, is accepted, or is kept as the draft of a
  conflict until the user discards it.
\<close>

section \<open>What holds an operation\<close>

definition held :: "network \<Rightarrow> operation_id \<Rightarrow> bool" where
  "held nw i \<longleftrightarrow> nw_accepted nw i \<noteq> None \<or> nw_receipts nw i \<noteq> None \<or> i \<in> cf_operation ` set (nw_conflicts nw)"

definition retained :: "network \<Rightarrow> operation_id \<Rightarrow> bool" where
  "retained nw i \<longleftrightarrow> i \<in> op_id ` set (pending_ops (nw_projection nw)) \<or> held nw i"

definition pending_header :: "network \<Rightarrow> bool" where
  "pending_header nw \<longleftrightarrow> (\<forall>op\<in>set (pending_ops (nw_projection nw)). op_protocol op = ProtocolVersion \<and>
     op_document op = snap_document (client_map nw) \<and> op_environment op = environment_hash (client_map nw))"

lemma held_cong: "drafts nw = drafts nw' \<Longrightarrow> held nw i = held nw' i"
  by (simp add: held_def drafts_def)

lemma conflict_from_None: "conflict_from n i cfs = None \<longleftrightarrow> i \<notin> cf_operation ` set cfs"
  by (induction cfs arbitrary: n) auto

lemma conflict_from_Some: "conflict_from n i cfs = Some m \<Longrightarrow> n \<le> m \<and> m - n < length cfs \<and> cf_operation (cfs ! (m - n)) = i"
proof (induction cfs arbitrary: n)
  case (Cons cf cfs)
  show ?case
  proof (cases "cf_operation cf = i")
    case False
    then have "Suc n \<le> m \<and> m - Suc n < length cfs \<and> cf_operation (cfs ! (m - Suc n)) = i" using Cons by simp
    then show ?thesis by (simp add: Suc_diff_Suc nth_Cons split: nat.split) (metis Suc_diff_le Suc_leD diff_Suc_Suc less_Suc_eq_le not_less_eq nat.inject)
  qed (use Cons.prems in simp)
qed simp

lemma held_retain [intro]:
  "held nw i \<Longrightarrow> held (retainConflictLocked cf nw) i" "held (retainConflictLocked cf nw) (cf_operation cf)"
  by (auto simp: held_def retainConflictLocked_def cloneConflict_def conflictLocked_def conflict_from_None)

lemma held_delete:
  assumes "held nw i" "conflictLocked nw j = Some n" "j \<noteq> i"
  shows "held (delete_conflict n nw) i"
proof -
  let ?cfs = "nw_conflicts nw"
  have n: "n < length ?cfs" "cf_operation (?cfs ! n) = j"
    using conflict_from_Some [of 0 j ?cfs n] assms(2) by (simp_all add: conflictLocked_def)
  have "set ?cfs = insert (?cfs ! n) (set (take n ?cfs @ drop (Suc n) ?cfs))"
    using id_take_nth_drop [OF n(1)] by (metis list.set(2) set_append Un_insert_right)
  then have "i \<in> cf_operation ` set ?cfs \<Longrightarrow> i \<in> cf_operation ` set (take n ?cfs @ drop (Suc n) ?cfs)"
    using n(2) assms(3) by (metis image_insert insertE)
  then show ?thesis using assms(1) unfolding held_def delete_conflict_def by auto
qed

lemma held_unsent: "held nw i \<Longrightarrow> held (retainUnsentLocked H procs op cause nw) i"
  by (auto simp: retainUnsentLocked_def Let_def split: sum.split)

lemma unsent_held:
  assumes "client_ok H procs nw" "pending_header nw" "op \<in> set (pending_ops (nw_projection nw))" "OperationID_Validate (op_id op) = None"
    and "ccore nw' = ccore nw"
  shows "held (retainUnsentLocked H procs op cause nw') (op_id op)"
proof -
  have "protocol_version (client_map nw) = ProtocolVersion"
    using indexedD(1) [OF client_okD(1) [OF assms(1)]] by (simp add: snapshot_ok_def header_ok_def)
  moreover have "client_ok H procs nw'" using assms(1) client_ok_cong [OF assms(5)] by simp
  note verified_hash [OF this]
  moreover note ccoreD(1) [OF assms(5)]
  moreover have "held (retainConflictLocked cf n) (op_id op)" if "cf_operation cf = op_id op" for cf n
    using held_retain(2) [of cf n] that by simp
  ultimately show ?thesis
    using assms(2-4) by (auto simp: retainUnsentLocked_def Let_def pending_header_def) (simp_all add: held_def)
qed

lemma held_fold:
  assumes "\<And>x nw. held nw i \<Longrightarrow> held (f nw x) i"
  shows "held nw i \<Longrightarrow> held (foldl f nw xs) i"
  by (induction xs arbitrary: nw) (simp_all add: assms)

lemma held_fold_at:
  assumes "\<And>x nw. held nw i \<Longrightarrow> held (f nw x) i" "\<And>x nw. ccore (f nw x) = ccore nw"
    "x \<in> set xs" "\<And>n. ccore n = ccore nw \<Longrightarrow> held (f n x) i"
  shows "held (foldl f nw xs) i"
  using assms(3,4)
proof (induction xs arbitrary: nw)
  case (Cons y ys)
  show ?case
  proof (cases "x = y")
    case True
    then show ?thesis using Cons.prems(2) [of nw] held_fold [of i f, OF assms(1)] by simp
  next
    case False
    then show ?thesis using Cons assms(2) by simp
  qed
qed simp

lemma held_simps [simp]:
  "held (drop_waiter j nw) i = held nw i"
  "held (beginPublicationLocked previous nxt chs explicit force nw) i = held nw i"
  "held (beginMetadataPublicationLocked nw) i = held nw i"
  by (rule held_cong; simp)+

lemma held_fields [simp]:
  "held (nw\<lparr>nw_answers := a\<rparr>) i = held nw i" "held (nw\<lparr>nw_projection := p\<rparr>) i = held nw i"
  "held (nw\<lparr>nw_waiters := w\<rparr>) i = held nw i" "held (rebuildVisibleLocked nw) i = held nw i"
  "held (nw\<lparr>nw_terminal := e\<rparr>) i = held nw i" "held (nw\<lparr>nw_suspended := e\<rparr>) i = held nw i"
  by (simp_all add: held_def)

lemma retained_cong: "ccore nw = ccore nw' \<Longrightarrow> drafts nw = drafts nw' \<Longrightarrow> retained nw i = retained nw' i"
  using held_cong [of nw nw' i] ccoreD(1) [of nw nw'] by (simp add: retained_def)

section \<open>Steps\<close>

lemma clear_holds:
  assumes ok: "client_ok H procs nw" and i: "retained nw i"
  shows "held (clearPendingLocked H procs cause nw) i"
proof -
  define n1 where "n1 = snd (interrupt_admission cause nw)"
  define n2 where "n2 = (case verifiedMapHash H procs (nw_projection n1) of Inl _ \<Rightarrow> n1
    | Inr hash \<Rightarrow> foldl (\<lambda>nw op. retain_unconfirmed hash op nw) n1 (pending_ops (nw_projection n1)))"
  have n1: "nw_projection n1 = nw_projection nw" "held n1 i = held nw i" "ccore n1 = ccore nw"
    by (simp_all add: n1_def interrupt_admission_def Let_def held_def)
  have n2: "held n2 i"
  proof -
    have v: "verifiedMapHash H procs (nw_projection n1) = Inr (acknowledged_hash (nw_projection nw))"
      using verified_hash [OF ok] n1(1) by simp
    have keep: "held nw i \<Longrightarrow> held (retain_unconfirmed h op nw) i" for nw h op
      by (auto simp: retain_unconfirmed_def)
    have new: "held (retain_unconfirmed h op nw) (op_id op)" for nw h op
      using held_retain(2) [of "\<lparr>cf_operation = op_id op, cf_draft = op, cf_code = conflictDeliveryUnconfirmed,
        cf_message = DeliveryEnded, cf_revision = snap_revision (acknowledged (nw_projection nw)), cf_map_hash = h, cf_values = []\<rparr>" nw]
      by (simp add: retain_unconfirmed_def)
    show ?thesis
    proof (cases "held nw i")
      case True
      then have "held n1 i" using n1(2) by simp
      then show ?thesis unfolding n2_def v sum.case by (rule held_fold [rotated]) (rule keep)
    next
      case False
      then obtain op where op: "op \<in> set (pending_ops (nw_projection n1))" "op_id op = i"
        using i n1(1) by (auto simp: retained_def)
      show ?thesis
        unfolding n2_def v sum.case
      proof (rule held_fold_at [OF keep _ op(1)])
        show "held (retain_unconfirmed h op n) i" for h n using new [of h op n] op(2) by simp
      qed simp_all
    qed
  qed
  have "held (foldl (\<lambda>nw op. retainUnsentLocked H procs op cause nw) n2 q) i" for q
    by (rule held_fold [OF _ n2]) (rule held_unsent)
  moreover have "held (foldl (\<lambda>nw i. drop_waiter i nw) n is) i" if "held n i" for n "is"
    by (rule held_fold [OF _ that]) simp
  ultimately show ?thesis
    by (simp add: clearPendingLocked_def Let_def case_prod_beta n1_def [symmetric] n2_def [symmetric])
qed

lemma suspend_holds: "client_ok H procs nw \<Longrightarrow> retained nw i \<Longrightarrow> retained (suspendLocked H procs cause nw) i"
proof -
  assume a: "client_ok H procs nw" "retained nw i"
  let ?n = "nw\<lparr>nw_suspended := Some cause\<rparr>"
  have "client_ok H procs ?n" using a(1) client_ok_cong [of ?n nw] by simp
  moreover have "retained ?n i" using a(2) retained_cong [of ?n nw] by simp
  ultimately show ?thesis using clear_holds a(2) by (simp add: suspendLocked_def retained_def)
qed

lemma terminate_holds: "client_ok H procs nw \<Longrightarrow> retained nw i \<Longrightarrow> retained (failAllLocked H procs cause nw) i"
proof -
  assume a: "client_ok H procs nw" "retained nw i"
  let ?n = "nw\<lparr>nw_terminal := Some cause\<rparr>"
  have "client_ok H procs ?n" using a(1) client_ok_cong [of ?n nw] by simp
  moreover have "retained ?n i" using a(2) retained_cong [of ?n nw] by simp
  ultimately show ?thesis using clear_holds a(2) by (simp add: failAllLocked_def retained_def)
qed

lemma begin_projection [simp]:
  "nw_projection (beginPublicationLocked previous nxt chs explicit force nw) = nw_projection nw"
  "nw_projection (beginMetadataPublicationLocked nw) = nw_projection nw"
  "nw_projection (drop_waiter i nw) = nw_projection nw" "nw_projection (retainConflictLocked cf nw) = nw_projection nw"
  "nw_projection (retainUnsentLocked H procs op cause nw) = nw_projection nw" "nw_projection (delete_conflict n nw) = nw_projection nw"
  "nw_projection (resolve_conflict op nw) = nw_projection nw"
  by (rule ccoreD(1); simp)+

lemma fail_holds:
  assumes ok: "client_ok H procs nw" "pending_header nw" and i: "retained nw i" "OperationID_Validate i = None"
  shows "retained (failPending H procs j cause nw) i"
proof (cases "j \<in> set (nw_waiters nw)")
  case True
  let ?f = "\<lambda>nw op. if op_id op \<noteq> j then nw else retainUnsentLocked H procs op cause nw"
  let ?n = "foldl ?f (drop_waiter j nw) (pending_ops (nw_projection nw))"
  have eq: "retained (failPending H procs j cause nw) i \<longleftrightarrow>
      i \<in> op_id ` set (drop_operation j (pending_ops (nw_projection nw))) \<or> held ?n i"
    using True by (simp add: failPending_def Let_def retained_def)
  have keep: "held n i \<Longrightarrow> held (?f n x) i" for n x by (simp add: held_unsent)
  have core: "ccore (?f n x) = ccore n" for n x by simp
  have "held ?n i" if "held nw i"
    by (rule held_fold [of i ?f, OF keep]) (simp_all add: that)
  moreover have "held ?n i" if op: "op \<in> set (pending_ops (nw_projection nw))" "op_id op = i" "i = j" for op
  proof (rule held_fold_at [of i ?f, OF keep core op(1)])
    show "held (?f n op) i" if "ccore n = ccore (drop_waiter j nw)" for n
      using unsent_held [OF ok op(1), of n] op i(2) that by simp
  qed
  ultimately show ?thesis unfolding eq using i(1) by (force simp: retained_def drop_operation_def)
qed (use i in \<open>simp add: failPending_def\<close>)

lemma execute_holds:
  assumes "client_ok H procs nw" "retained nw i"
  shows "retained (snd (executeAdmitted H procs c op ticket nw)) i"
  using assms submit_ok(2) [OF assms(1), of op]
  by (auto simp: executeAdmitted_def retained_def held_unsent split: option.split sum.split)

lemma reject_holds:
  assumes "client_ok H procs nw" "retained nw i"
  shows "retained (snd (receive_rejected H procs r nw)) i"
proof (cases "rejectProjectionLocked H procs r nw")
  case (Inl e)
  then show ?thesis using suspend_holds assms by (simp add: receive_rejected_def)
next
  case (Inr x)
  obtain cf nw1 where x: "x = (cf, nw1)" by (cases x)
  have nw1: "nw_projection nw1 = \<lparr>acknowledged = client_map nw,
      pending_ops = drop_operation (rj_operation r) (pending_ops (nw_projection nw)),
      acknowledged_hash = acknowledged_hash (nw_projection nw)\<rparr>" "cf_operation cf = rj_operation r" "held nw1 i = held nw i"
    using Inr x verified_hash [OF assms(1)]
    by (auto simp: rejectProjectionLocked_def rejectWithHashMode_def Let_def sum_bind_Inr_iff)
  have "held (retainConflictLocked cf nw1) i" if "held nw i \<or> i = rj_operation r"
    using that held_retain(1) [of nw1 i cf] held_retain(2) [of cf nw1] nw1 by auto
  then show ?thesis
    using assms(2) Inr x nw1(1) by (auto simp: receive_rejected_def Let_def retained_def drop_operation_def)
qed

lemma resolve_holds:
  "held nw i \<Longrightarrow> nw_accepted nw (op_id op) \<noteq> None \<or> nw_receipts nw (op_id op) \<noteq> None \<Longrightarrow> held (resolve_conflict op nw) i"
proof (cases "i = op_id op")
  case True
  assume "nw_accepted nw (op_id op) \<noteq> None \<or> nw_receipts nw (op_id op) \<noteq> None"
  then show ?thesis using True by (auto simp: resolve_conflict_def held_def delete_conflict_def Let_def split: option.split)
next
  case False
  assume "held nw i"
  then show ?thesis using held_delete [of nw i "op_id op"] False by (auto simp: resolve_conflict_def Let_def split: option.split)
qed

lemma accept_holds:
  assumes "client_ok H procs nw" "retained nw i"
  shows "retained (snd (receive_accepted H procs acc hash receipt nw)) i"
proof (cases "acceptProjectionLocked H procs acc hash nw")
  case (Inl e)
  then show ?thesis using suspend_holds assms by (simp add: receive_accepted_def Let_def)
next
  case (Inr nw1)
  have "nw1 = rebuildVisibleLocked (accepted_state H procs acc hash nw)" using Inr accept_iff [OF assms(1)] by blast
  then have proj: "pending_ops (nw_projection nw1) = drop_operation (op_id (acc_op acc)) (pending_ops (nw_projection nw))"
    and h1: "held nw1 i = held nw i" by (simp_all add: accepted_state_def held_def)
  define n3 where "n3 = (case receipt of
      None \<Rightarrow> (nw1\<lparr>verified_history := record_history (acc_revision acc) hash (verified_history nw1)\<rparr>)
        \<lparr>nw_accepted := (nw_accepted nw1)(op_id (acc_op acc) \<mapsto> acc), nw_hashes := (nw_hashes nw1)(op_id (acc_op acc) \<mapsto> hash)\<rparr>
    | Some r \<Rightarrow> (nw1\<lparr>verified_history := record_history (acc_revision acc) hash (verified_history nw1)\<rparr>)
        \<lparr>nw_receipts := (nw_receipts nw1)(op_id (acc_op acc) \<mapsto> r)\<rparr>)"
  have n3: "nw_accepted n3 (op_id (acc_op acc)) \<noteq> None \<or> nw_receipts n3 (op_id (acc_op acc)) \<noteq> None"
    "held nw1 i \<or> i = op_id (acc_op acc) \<Longrightarrow> held n3 i" "nw_projection n3 = nw_projection nw1"
    by (auto simp: n3_def held_def split: option.split)
  have "retained (resolve_conflict (acc_op acc) n3) i"
  proof (cases "held nw i \<or> i = op_id (acc_op acc)")
    case True
    then show ?thesis using resolve_holds n3(1,2) h1 by (simp add: retained_def)
  next
    case False
    then show ?thesis using assms(2) n3(3) proj by (auto simp: retained_def drop_operation_def)
  qed
  moreover have "retained (snd (receive_accepted H procs acc hash receipt nw)) i = retained (resolve_conflict (acc_op acc) n3) i"
    if "\<not> (nw_accepted nw (op_id (acc_op acc)) = Some acc \<and>
      hash = (case nw_hashes nw (op_id (acc_op acc)) of Some h \<Rightarrow> h | None \<Rightarrow> []))"
    unfolding receive_accepted_def Let_def if_not_P [OF that] Inr n3_def by (cases receipt) (simp_all add: retained_def)
  moreover have "snd (receive_accepted H procs acc hash receipt nw) = nw"
    if "nw_accepted nw (op_id (acc_op acc)) = Some acc \<and>
      hash = (case nw_hashes nw (op_id (acc_op acc)) of Some h \<Rightarrow> h | None \<Rightarrow> [])"
    unfolding receive_accepted_def Let_def if_P [OF that] by simp
  ultimately show ?thesis using assms(2) by metis
qed

lemma receive_holds:
  "client_ok H procs nw \<Longrightarrow> retained nw i \<Longrightarrow> retained (snd (Receive H procs stamp decoded nw)) i"
  by (auto simp: Receive_def terminate_holds reject_holds accept_holds split: sum.split server_message.split option.split)

section \<open>What a step does to the projection\<close>

definition logs :: "network \<Rightarrow> (operation_id \<rightharpoonup> accepted_operation) \<times> (operation_id \<rightharpoonup> bytes)" where
  "logs nw = (nw_accepted nw, nw_receipts nw)"

definition narrows :: "network \<Rightarrow> network \<Rightarrow> bool" where
  "narrows nw nw' \<longleftrightarrow> client_map nw' = client_map nw \<and> logs nw' = logs nw \<and>
     (\<forall>op\<in>set (pending_ops (nw_projection nw')). op \<in> set (pending_ops (nw_projection nw)) \<or> \<not> incompatible (nw_projection nw) op)"

lemma logs_drafts: "drafts nw = drafts nw' \<Longrightarrow> logs nw = logs nw'"
  by (simp add: drafts_def logs_def)

lemma logs_sel [simp]:
  "logs (retainConflictLocked cf nw) = logs nw" "logs (delete_conflict n nw) = logs nw"
  "logs (nw\<lparr>nw_projection := p\<rparr>) = logs nw" "logs (nw\<lparr>nw_waiters := w\<rparr>) = logs nw" "logs (nw\<lparr>nw_answers := a\<rparr>) = logs nw"
  "logs (nw\<lparr>nw_publication := pu\<rparr>) = logs nw" "logs (nw\<lparr>nw_terminal := e\<rparr>) = logs nw" "logs (nw\<lparr>nw_suspended := e\<rparr>) = logs nw"
  "logs (rebuildVisibleLocked nw) = logs nw"
  by (simp_all add: logs_def retainConflictLocked_def delete_conflict_def)

lemma logs_sel' [simp]:
  "logs (retainUnsentLocked H procs op cause nw) = logs nw" "logs (retain_unconfirmed hash op nw) = logs nw"
  "logs (drop_waiter i nw) = logs nw" "logs (beginPublicationLocked previous nxt chs explicit force nw) = logs nw"
  "logs (beginMetadataPublicationLocked nw) = logs nw" "logs (beginReplacementPublicationLocked s nw) = logs nw"
  by (simp add: retainUnsentLocked_def Let_def split: sum.split, simp add: retain_unconfirmed_def) (rule logs_drafts; simp)+

lemma logs_fold: "(\<And>x nw. logs (f nw x) = logs nw) \<Longrightarrow> logs (foldl f nw xs) = logs nw"
  by (induction xs arbitrary: nw) simp_all

lemma narrowsI:
  "nw_projection nw' = nw_projection nw \<Longrightarrow> logs nw' = logs nw \<Longrightarrow> narrows nw nw'"
  by (simp add: narrows_def)

lemma narrows_fewer:
  assumes "nw_projection nw' = \<lparr>acknowledged = client_map nw, pending_ops = ops, acknowledged_hash = h\<rparr>"
    "set ops \<subseteq> set (pending_ops (nw_projection nw))" "logs nw' = logs nw"
  shows "narrows nw nw'"
  using assms by (auto simp: narrows_def)

lemma clear_narrows: "narrows nw (clearPendingLocked H procs cause nw)"
proof (rule narrows_fewer [where ops = "[]"])
  define n1 where "n1 = snd (interrupt_admission cause nw)"
  define n2 where "n2 = (case verifiedMapHash H procs (nw_projection n1) of Inl _ \<Rightarrow> n1
    | Inr hash \<Rightarrow> foldl (\<lambda>nw op. retain_unconfirmed hash op nw) n1 (pending_ops (nw_projection n1)))"
  define n3 where "n3 = foldl (\<lambda>nw op. retainUnsentLocked H procs op cause nw) n2 (fst (interrupt_admission cause nw))"
  define n4 where "n4 = foldl (\<lambda>nw i. drop_waiter i nw) n3 (nw_waiters n3)"
  have n1: "ccore n1 = ccore nw" "logs n1 = logs nw" by (simp_all add: n1_def interrupt_admission_def Let_def)
  have n2: "ccore n2 = ccore nw" "logs n2 = logs nw"
    using n1 by (simp_all add: n2_def fold_sel logs_fold split: sum.split)
  have n3: "ccore n3 = ccore nw" "logs n3 = logs nw" using n2 by (simp_all add: n3_def fold_sel logs_fold)
  have n4: "ccore n4 = ccore nw" "logs n4 = logs nw" using n3 by (simp_all add: n4_def fold_sel logs_fold)
  note c = ccoreD(1) [OF n4(1)]
  show "nw_projection (clearPendingLocked H procs cause nw) =
      \<lparr>acknowledged = client_map nw, pending_ops = [], acknowledged_hash = acknowledged_hash (nw_projection nw)\<rparr>"
    "logs (clearPendingLocked H procs cause nw) = logs nw"
    using c n4(2) unfolding clearPendingLocked_def n4_def n3_def n2_def n1_def by (simp_all add: Let_def case_prod_beta)
qed simp

lemma narrows_cong: "narrows nw1 nw' \<Longrightarrow> nw_projection nw1 = nw_projection nw \<Longrightarrow> logs nw1 = logs nw \<Longrightarrow> narrows nw nw'"
  by (simp add: narrows_def)

lemma suspend_narrows: "narrows nw (suspendLocked H procs cause nw)"
  using narrows_cong [OF clear_narrows [of "nw\<lparr>nw_suspended := Some cause\<rparr>"]] by (simp add: suspendLocked_def narrowsI)

lemma terminate_narrows: "narrows nw (failAllLocked H procs cause nw)"
  using narrows_cong [OF clear_narrows [of "nw\<lparr>nw_terminal := Some cause\<rparr>"]] by (simp add: failAllLocked_def narrowsI)

lemma fail_narrows: "narrows nw (failPending H procs i cause nw)"
proof -
  let ?f = "\<lambda>nw op. if op_id op \<noteq> i then nw else retainUnsentLocked H procs op cause nw"
  have "logs (foldl ?f n ops) = logs n" for n ops by (rule logs_fold) simp
  then show ?thesis
    by (cases "i \<in> set (nw_waiters nw)")
      (auto simp: failPending_def Let_def drop_operation_def narrowsI intro!: narrows_fewer)
qed

lemma execute_narrows:
  assumes "client_ok H procs nw"
  shows "narrows nw (snd (executeAdmitted H procs c op ticket nw))"
proof -
  have "narrows nw (beginPublicationLocked (nw_projection nw) (nw_projection nw1) [] [] False (nw1\<lparr>nw_waiters := w\<rparr>))"
    if "submitProjectionLocked H procs op nw = Inr nw1" for nw1 w
  proof -
    have "\<not> incompatible (nw_projection nw) op"
      using that by (auto simp: submitProjectionLocked_def submitWithVerifiedOverlay_def Let_def sum_bind_Inr_iff)
    moreover have "logs nw1 = logs nw" by (simp add: submit_ok(2) [OF assms that])
    ultimately show ?thesis using submit_ok(2) [OF assms that] by (simp add: narrows_def)
  qed
  then show ?thesis by (simp add: executeAdmitted_def narrowsI split: option.split sum.split)
qed

lemma reject_narrows:
  assumes "client_ok H procs nw"
  shows "narrows nw (snd (receive_rejected H procs r nw))"
proof (cases "rejectProjectionLocked H procs r nw")
  case (Inl e)
  then show ?thesis using suspend_narrows by (simp add: receive_rejected_def)
next
  case (Inr x)
  obtain cf nw1 where x: "x = (cf, nw1)" by (cases x)
  have "nw_projection nw1 = \<lparr>acknowledged = client_map nw,
      pending_ops = drop_operation (rj_operation r) (pending_ops (nw_projection nw)),
      acknowledged_hash = acknowledged_hash (nw_projection nw)\<rparr>" "logs nw1 = logs nw"
    using Inr x verified_hash [OF assms]
    by (auto simp: rejectProjectionLocked_def rejectWithHashMode_def Let_def sum_bind_Inr_iff)
  then show ?thesis using Inr x
    by (auto simp: receive_rejected_def Let_def drop_operation_def intro!: narrows_fewer)
qed

lemma same_narrows: "ccore nw' = ccore nw \<Longrightarrow> logs nw' = logs nw \<Longrightarrow> narrows nw nw'"
  using ccoreD(1) narrowsI by blast

lemma logs_admission [simp]:
  "logs (snd (reserveAdmission op nw)) = logs nw" "logs (finishAdmission i ticket bytes was_sent nw) = logs nw"
  by (rule logs_drafts; simp)+

lemma resume_sel [simp]:
  "logs (snd (Resume nil_transport nw)) = logs nw" "ccore (snd (Resume nil_transport nw)) = ccore nw"
  by (simp_all add: Resume_def logs_def ccore_def split: option.split)

lemma rebuilds_sel [simp]:
  "logs (snd (claim_rebuild i nw)) = logs nw" "ccore (snd (claim_rebuild i nw)) = ccore nw"
  "logs (release_rebuild i nw) = logs nw" "ccore (release_rebuild i nw) = ccore nw"
  by (simp_all add: claim_rebuild_def release_rebuild_def logs_def ccore_def)

lemma updates_sel [simp]:
  "logs (ProjectionUpdates nw) = logs nw" "ccore (ProjectionUpdates nw) = ccore nw"
  "logs (nw\<lparr>nw_changes := ch, nw_updates := up\<rparr>) = logs nw"
  by (simp_all add: ProjectionUpdates_def publishLegacyLocked_def logs_def ccore_def)

theorem local_narrows: "client_local H procs stamp nw nw' \<Longrightarrow> client_ok H procs nw \<Longrightarrow> narrows nw nw'"
proof (induction rule: client_local.cases)
  case (local_refuse nw op cause)
  then show ?case by (simp add: refuseAdmission_def Let_def same_narrows)
next
  case (local_refuse_admitted nw op cause ticket)
  then show ?case by (simp add: refuseAdmitted_def Let_def same_narrows)
next
  case (local_receive decoded nw)
  then show ?case
    by (auto simp: Receive_def terminate_narrows reject_narrows same_narrows split: sum.split server_message.split option.split)
next
  case (local_drop i nw nw')
  then show ?case using drop_spec [of i nw nw'] by (auto intro!: same_narrows)
qed (simp_all add: same_narrows execute_narrows fail_narrows suspend_narrows terminate_narrows)

lemma narrows_header: "narrows nw nw' \<Longrightarrow> pending_header nw \<Longrightarrow> pending_header nw'"
  by (auto simp: narrows_def pending_header_def incompatible_def)

theorem local_holds:
  "client_local H procs stamp nw nw' \<Longrightarrow> client_ok H procs nw \<Longrightarrow> pending_header nw \<Longrightarrow> retained nw i \<Longrightarrow>
     OperationID_Validate i = None \<Longrightarrow> \<not> client_drop i nw nw' \<Longrightarrow> retained nw' i"
proof (induction rule: client_local.cases)
  case (local_reserve nw op)
  then show ?case using retained_cong [of "snd (reserveAdmission op nw)" nw i] by simp
next
  case (local_finish nw j ticket bytes was_sent)
  then show ?case using retained_cong [of "finishAdmission j ticket bytes was_sent nw" nw i] by simp
next
  case (local_refuse nw op cause)
  then show ?case by (auto simp: refuseAdmission_def Let_def retained_def held_unsent)
next
  case (local_refuse_admitted nw op cause ticket)
  then show ?case by (auto simp: refuseAdmitted_def Let_def retained_def held_unsent)
next
  case (local_resume nw nil_transport)
  then show ?case by (auto simp: Resume_def retained_def held_def split: option.split)
next
  case (local_drop j nw nw')
  show ?case
  proof (cases "j = i")
    case False
    then show ?thesis
      using drop_spec [OF local_drop(3)] held_delete [of nw i j] local_drop by (auto simp: retained_def)
  qed (use local_drop in simp)
next
  case (local_claim nw j)
  then show ?case by (auto simp: claim_rebuild_def retained_def held_def)
next
  case (local_release nw j)
  then show ?case by (auto simp: release_rebuild_def retained_def held_def)
next
  case (local_updates nw)
  then show ?case by (auto simp: ProjectionUpdates_def publishLegacyLocked_def retained_def held_def)
next
  case (local_consume nw ch up)
  then show ?case by (auto simp: retained_def held_def)
qed (simp_all add: execute_holds fail_holds suspend_holds terminate_holds receive_holds)

section \<open>Property\<close>

inductive client_step :: "digest_fun \<Rightarrow> nat \<Rightarrow> stamp_fun \<Rightarrow> network \<Rightarrow> network \<Rightarrow> bool"
  for H :: digest_fun and procs :: nat and stamp :: stamp_fun where
  step_own: "client_local H procs stamp nw nw' \<Longrightarrow> client_step H procs stamp nw nw'"
| step_receive: "client_step H procs stamp nw (snd (Receive H procs stamp decoded nw))"
| step_replace: "ReplaceAcknowledgedSnapshot H procs c s nw = Inr nw' \<Longrightarrow> client_step H procs stamp nw nw'"
| step_take: "client_step H procs stamp nw (snd (TakePresentationUpdate nw))"

lemma accepted_header:
  assumes "client_ok H procs nw" "pending_header nw"
  shows "pending_header (snd (receive_accepted H procs acc hash receipt nw))"
proof (cases "acceptProjectionLocked H procs acc hash nw")
  case (Inl e)
  then show ?thesis
    using narrows_header [OF suspend_narrows assms(2)] assms(2) by (simp add: receive_accepted_def Let_def)
next
  case (Inr nw1)
  have "nw1 = rebuildVisibleLocked (accepted_state H procs acc hash nw)" using Inr accept_iff [OF assms(1)] by blast
  then have "pending_header nw1"
    using assms(2) by (simp add: pending_header_def accepted_state_def drop_operation_def next_map_def rewritten_def)
  then have p: "pending_header n" if "nw_projection n = nw_projection nw1" for n using that by (simp add: pending_header_def)
  show ?thesis
    using p assms(2) Inr unfolding receive_accepted_def Let_def by (simp split: option.split)
qed

theorem client_run_header: "client_run H procs stamp nw E \<Longrightarrow> pending_header nw"
proof (induction rule: client_run.induct)
  case (run_join nil_transport s actor session nw)
  then show ?case
    by (auto simp: NewNetworkExecutor_def sum_bind_Inr_iff Let_def pending_header_def newProjection_def
        publishCaptureLocked_def indexAcknowledgedLocked_def)
next
  case (run_local nw E nw')
  have "client_ok H procs nw" using client_run_inv [OF run_local(1)] by (simp add: client_inv_def)
  then show ?case using narrows_header [OF local_narrows [OF run_local(2)]] run_local(3) by blast
next
  case (run_receive nw E decoded)
  have "client_ok H procs nw" using client_run_inv [OF run_receive(1)] by (simp add: client_inv_def)
  then show ?case
    using run_receive(2) narrows_header [OF terminate_narrows] narrows_header [OF reject_narrows] accepted_header
    by (auto simp: Receive_def split: sum.split server_message.split option.split)
next
  case (run_replace nw E c s nw')
  then show ?case
    using replace_spec(2) [OF client_run_inv [OF run_replace(1)] run_replace(2)] by (auto simp: pending_header_def)
next
  case (run_take nw E u nw')
  then show ?case
    using ccoreD(1) [OF take_inv(3) [OF client_run_inv [OF run_take(1)] run_take(2)]] by (simp add: pending_header_def)
qed


end
