(* ===== verification/Client_Converge.thy ===== *)
theory Client_Converge
  imports Client_Drafts
begin

text \<open>
  One shared document of the server and one executor that joined it: the server accepts operations of
  all its clients, the acceptances travel in order, and meanwhile the executor takes any steps of its
  own. Whatever happens in between, delivering what is under way brings the executor to the map of the
  server.
\<close>

section \<open>What the server sends\<close>

definition delivers :: "digest_fun \<Rightarrow> nat \<Rightarrow> snapshot \<Rightarrow> accepted_operation \<times> string \<Rightarrow> snapshot \<Rightarrow> bool" where
  "delivers H procs s m s' \<longleftrightarrow> (case m of (acc, hash) \<Rightarrow>
     acc_revision acc = snap_revision s + 1 \<and> ValidateSHA256 ''authoritative map hash'' hash = None \<and>
     op_document (acc_op acc) = snap_document s \<and> op_environment (acc_op acc) = environment_hash s \<and>
     table_fits (Contains s) (tile_table (tiles s)) (changes (acc_op acc)) \<and>
     s' = rewritten s (index_from (tiles s) 0 Map.empty) (changes (acc_op acc)) (acc_revision acc) \<and>
     hash = h_digest (newCanonicalHasher H procs s'))"

fun leads :: "digest_fun \<Rightarrow> nat \<Rightarrow> snapshot \<Rightarrow> (accepted_operation \<times> string) list \<Rightarrow> snapshot \<Rightarrow> bool" where
  "leads H procs s [] s' \<longleftrightarrow> s = s'"
| "leads H procs s (m # ms) s' \<longleftrightarrow> (\<exists>t. delivers H procs s m t \<and> leads H procs t ms s')"

lemma leads_snoc: "leads H procs s ms t \<Longrightarrow> delivers H procs t m s' \<Longrightarrow> leads H procs s (ms @ [m]) s'"
  by (induction ms arbitrary: s) auto

lemma index_unique: "table_of ts m tb \<Longrightarrow> index_from ts 0 Map.empty = m"
  using table_of_start [of ts] indexes_unique by (auto simp: table_of_def)

lemma apply_delivers:
  assumes "reachable H procs d" "digest32 H" "ApplyContext H procs c op at d = (Inr acc, d')" "fmlookup (accepted d) (op_id op) = None"
  shows "delivers H procs (doc_snapshot d) (acc, map_hash d') (doc_snapshot d')" "accepted d' = fmupd (op_id op) acc (accepted d)"
    "op_id (acc_op acc) = op_id op"
proof -
  have ok: "doc_ok H procs d" using reachable_ok [OF assms(1)] by blast
  note new = apply_new [OF ok assms(3,4)]
  note okd = doc_okD [OF ok]
  obtain sh si where d': "d' = applied H procs (sort_changes (changes op)) op at (hashed_doc H procs d) sh si" using new(6) by blast
  have "distinct (map tile_coord (tiles (doc_snapshot d)))" using okd(1) by (simp add: snapshot_ok_def)
  then have idx: "index_from (tiles (doc_snapshot d)) 0 Map.empty = tile_indexes d"
    using okd(2) index_unique [of "tiles (doc_snapshot d)" "tile_indexes d" "tile_table (tiles (doc_snapshot d))"] by (simp add: table_of_def)
  have s: "doc_snapshot d' = rewritten (doc_snapshot d) (tile_indexes d) (sort_changes (changes op)) (snap_revision (doc_snapshot d) + 1)"
    by (simp add: d')
  have mh: "map_hash d' = h_digest (newCanonicalHasher H procs (doc_snapshot d'))" by (simp add: d' applied_def Let_def)
  have acc: "acc_op acc = op\<lparr>changes := sort_changes (changes op)\<rparr>" "acc_revision acc = snap_revision (doc_snapshot d) + 1"
    by (simp_all add: new(5))
  have "op_environment op = environment_hash (doc_snapshot d)" using header_iff [THEN iffD1, OF new(3)] by simp
  then show "delivers H procs (doc_snapshot d) (acc, map_hash d') (doc_snapshot d')"
    using new(2) idx changes_ok_fits [THEN iffD1, OF new(1)] digest_valid [OF assms(2)]
    by (simp add: delivers_def acc s mh)
  show "accepted d' = fmupd (op_id op) acc (accepted d)" "op_id (acc_op acc) = op_id op"
    by (simp_all add: d' new(5))
qed

section \<open>Sessions\<close>

text \<open>The state of a session: the document of the server, the acceptances under way to the executor with
  the map hash that travels with each, the executor, and its editor.\<close>

inductive session :: "digest_fun \<Rightarrow> nat \<Rightarrow> stamp_fun \<Rightarrow> document \<Rightarrow> (accepted_operation \<times> string) list \<Rightarrow> network \<Rightarrow> editor_view \<Rightarrow> bool"
  for H :: digest_fun and procs :: nat and stamp :: stamp_fun where
  session_join: "reachable H procs d \<Longrightarrow> NewNetworkExecutor H procs nil_transport (doc_snapshot d) actor name = Inr nw \<Longrightarrow>
    session H procs stamp d [] nw \<lparr>ed_authority = map_view (doc_snapshot d), ed_display = map_view (doc_snapshot d)\<rparr>"
| session_accept: "session H procs stamp d q nw E \<Longrightarrow> ApplyContext H procs c op at d = (Inr acc, d') \<Longrightarrow>
    fmlookup (accepted d) (op_id op) = None \<Longrightarrow> json_accepted stamp acc \<noteq> None \<Longrightarrow>
    session H procs stamp d' (q @ [(acc, map_hash d')]) nw E"
| session_server: "session H procs stamp d q nw E \<Longrightarrow> doc_step H procs d d' \<Longrightarrow> doc_snapshot d' = doc_snapshot d \<Longrightarrow>
    accepted d' = accepted d \<Longrightarrow> session H procs stamp d' q nw E"
| session_local: "session H procs stamp d q nw E \<Longrightarrow> client_local H procs stamp nw nw' \<Longrightarrow> session H procs stamp d q nw' E"
| session_deliver: "session H procs stamp d ((acc, hash) # q) nw E \<Longrightarrow> nw_terminal nw = None \<Longrightarrow>
    session H procs stamp d q (snd (Receive H procs stamp (Inr (OperationAccepted acc hash)) nw)) E"
| session_replace: "session H procs stamp d q nw E \<Longrightarrow> snap_revision (doc_snapshot d) \<noteq> snap_revision (client_map nw) \<Longrightarrow>
    ReplaceAcknowledgedSnapshot H procs c (doc_snapshot d) nw = Inr nw' \<Longrightarrow> session H procs stamp d [] nw' E"
| session_take: "session H procs stamp d q nw E \<Longrightarrow> TakePresentationUpdate nw = (Some u, nw') \<Longrightarrow>
    session H procs stamp d q nw' (show_update u E)"

text \<open>An executor sees each acceptance once.\<close>

definition fresh_queue :: "stamp_fun \<Rightarrow> document \<Rightarrow> (accepted_operation \<times> string) list \<Rightarrow> network \<Rightarrow> bool" where
  "fresh_queue stamp d q nw \<longleftrightarrow>
     (let ids = map (\<lambda>m. op_id (acc_op (fst m))) q; seen = dom (nw_accepted nw) \<union> dom (nw_receipts nw) in
      distinct ids \<and> set ids \<inter> seen = {} \<and> set ids \<union> seen \<subseteq> fset (fmdom (accepted d)) \<and>
      (\<forall>m\<in>set q. json_accepted stamp (fst m) \<noteq> None))"

definition joined_ok :: "digest_fun \<Rightarrow> nat \<Rightarrow> stamp_fun \<Rightarrow> document \<Rightarrow> (accepted_operation \<times> string) list \<Rightarrow> network \<Rightarrow> editor_view \<Rightarrow> bool" where
  "joined_ok H procs stamp d q nw E \<longleftrightarrow> reachable H procs d \<and> client_inv H procs E nw \<and>
     leads H procs (client_map nw) q (doc_snapshot d) \<and> fresh_queue stamp d q nw"

lemma fresh_logs: "logs nw' = logs nw \<Longrightarrow> fresh_queue stamp d q nw' = fresh_queue stamp d q nw"
  by (simp add: fresh_queue_def logs_def)

lemma publish_terminal [simp]:
  "nw_terminal (publishCaptureLocked nw) = nw_terminal nw" "nw_terminal (publishChangesLocked chs nw) = nw_terminal nw"
  "nw_terminal (publishLegacyLocked nw) = nw_terminal nw"
  by (simp_all only: publishCaptureLocked_def publishChangesLocked_def publishLegacyLocked_def Let_def) (simp_all split: if_split)

lemma step_terminal [simp]:
  "nw_terminal (beginPublicationLocked p p' chs cs force nw) = nw_terminal nw"
  "nw_terminal (drop_waiter i nw) = nw_terminal nw" "nw_terminal (resolve_conflict op nw) = nw_terminal nw"
  unfolding beginPublicationLocked_def drop_waiter_def releasePendingAdmission_def resolve_conflict_def delete_conflict_def Let_def
  by (simp_all split: option.split)

lemma receive_accepted_logs:
  assumes "\<not> (nw_accepted nw (op_id (acc_op acc)) = Some acc \<and>
      hash = (case nw_hashes nw (op_id (acc_op acc)) of Some h \<Rightarrow> h | None \<Rightarrow> []))"
    "acceptProjectionLocked H procs acc hash nw = Inr nw1"
  shows "fst (receive_accepted H procs acc hash receipt nw) = None"
    "nw_projection (snd (receive_accepted H procs acc hash receipt nw)) = nw_projection nw1"
    "logs (snd (receive_accepted H procs acc hash receipt nw)) = (case receipt of
        None \<Rightarrow> ((nw_accepted nw1)(op_id (acc_op acc) \<mapsto> acc), nw_receipts nw1)
      | Some r \<Rightarrow> (nw_accepted nw1, (nw_receipts nw1)(op_id (acc_op acc) \<mapsto> r)))"
    "nw_terminal (snd (receive_accepted H procs acc hash receipt nw)) = nw_terminal nw1"
proof -
  have logs: "logs (resolve_conflict op n) = logs n" for op n
    by (simp add: resolve_conflict_def Let_def split: option.split)
  note eq = receive_accepted_def [of H procs acc hash receipt nw, unfolded Let_def if_not_P [OF assms(1)] assms(2) sum.case]
  show "fst (receive_accepted H procs acc hash receipt nw) = None"
    "nw_projection (snd (receive_accepted H procs acc hash receipt nw)) = nw_projection nw1"
    unfolding eq by (simp_all split: option.split)
  show "logs (snd (receive_accepted H procs acc hash receipt nw)) = (case receipt of
        None \<Rightarrow> ((nw_accepted nw1)(op_id (acc_op acc) \<mapsto> acc), nw_receipts nw1)
      | Some r \<Rightarrow> (nw_accepted nw1, (nw_receipts nw1)(op_id (acc_op acc) \<mapsto> r)))"
    unfolding eq by (cases receipt) (simp_all add: logs, simp_all add: logs_def)
  show "nw_terminal (snd (receive_accepted H procs acc hash receipt nw)) = nw_terminal nw1"
    unfolding eq by (simp split: option.split)
qed

text \<open>Delivering the next acceptance.\<close>

lemma deliver_step:
  assumes ok: "joined_ok H procs stamp d ((acc, hash) # q) nw E" and live: "nw_terminal nw = None"
  defines "r \<equiv> Receive H procs stamp (Inr (OperationAccepted acc hash)) nw"
  shows "fst r = None" "joined_ok H procs stamp d q (snd r) E" "nw_terminal (snd r) = None"
    "acknowledged_hash (nw_projection (snd r)) = hash"
    "op_id (acc_op acc) \<in> dom (nw_accepted (snd r)) \<union> dom (nw_receipts (snd r))"
proof -
  have inv: "client_inv H procs E nw" and fresh: "fresh_queue stamp d ((acc, hash) # q) nw" and reach: "reachable H procs d"
    using ok by (simp_all add: joined_ok_def)
  have cok: "client_ok H procs nw" using inv by (simp add: client_inv_def)
  note ix = indexedD [OF client_okD(1) [OF cok]]
  obtain t where t: "delivers H procs (client_map nw) (acc, hash) t" "leads H procs t q (doc_snapshot d)"
    using ok by (auto simp: joined_ok_def)
  have t_eq: "t = next_map acc nw" using t(1) index_unique [OF ix(2)] by (simp add: delivers_def next_map_def)
  define nw1 where "nw1 = rebuildVisibleLocked (accepted_state H procs acc hash nw)"
  have acc1: "acceptProjectionLocked H procs acc hash nw = Inr nw1"
    unfolding accept_iff [OF cok] nw1_def using t(1) [unfolded delivers_def prod.case] t_eq by metis
  have n1: "client_map nw1 = t" "nw_accepted nw1 = nw_accepted nw" "nw_receipts nw1 = nw_receipts nw" "nw_terminal nw1 = None"
    "acknowledged_hash (nw_projection nw1) = hash"
    using live by (simp_all add: nw1_def accepted_state_def t_eq)
  let ?i = "op_id (acc_op acc)"
  have new: "nw_accepted nw ?i = None" "nw_receipts nw ?i = None" and json: "json_accepted stamp acc \<noteq> None"
    using fresh by (auto simp: fresh_queue_def Let_def)
  have seen: "\<not> (nw_accepted nw ?i = Some acc \<and> hash = (case nw_hashes nw ?i of Some h \<Rightarrow> h | None \<Rightarrow> []))" using new(1) by simp
  obtain receipt where r: "r = receive_accepted H procs acc hash receipt nw"
    using live json new(2) by (cases "own_forward nw (acc_op acc)") (auto simp: r_def Receive_def fingerprint_def json_payload_def)
  note l = receive_accepted_logs [OF seen acc1, of receipt, folded r]
  show "fst r = None" "nw_terminal (snd r) = None" "acknowledged_hash (nw_projection (snd r)) = hash" using l n1 by simp_all
  have dom: "dom (nw_accepted (snd r)) \<union> dom (nw_receipts (snd r)) = insert ?i (dom (nw_accepted nw) \<union> dom (nw_receipts nw))"
    using l(3) n1(2,3) by (cases receipt) (auto simp: logs_def)
  show "?i \<in> dom (nw_accepted (snd r)) \<union> dom (nw_receipts (snd r))" unfolding dom by blast
  have "fresh_queue stamp d q (snd r)"
    using fresh unfolding fresh_queue_def Let_def dom by auto
  moreover have "client_inv H procs E (snd r)" unfolding r_def by (rule receive_inv [OF inv])
  ultimately show "joined_ok H procs stamp d q (snd r) E" using reach t(2) l(2) n1(1) by (simp add: joined_ok_def)
qed

theorem session_inv: "session H procs stamp d q nw E \<Longrightarrow> digest32 H \<Longrightarrow> joined_ok H procs stamp d q nw E"
proof (induction rule: session.induct)
  case (session_join d nil_transport actor name nw)
  have "nw_accepted nw = Map.empty \<and> nw_receipts nw = Map.empty"
    using session_join(2) by (auto simp: NewNetworkExecutor_def sum_bind_Inr_iff Let_def publishCaptureLocked_def indexAcknowledgedLocked_def)
  then show ?case using new_inv [OF session_join(2)] session_join(1) by (simp add: joined_ok_def fresh_queue_def)
next
  case (session_accept d q nw E c op at acc d')
  have ok: "joined_ok H procs stamp d q nw E" by (rule session_accept.IH [OF session_accept.prems])
  then have r: "reachable H procs d" by (simp add: joined_ok_def)
  note a = apply_delivers [OF r session_accept.prems session_accept.hyps(2,3)]
  have "reachable H procs d'" using reach_step [OF r step_apply [of H procs d c op at]] session_accept.hyps(2) by simp
  moreover have "leads H procs (client_map nw) (q @ [(acc, map_hash d')]) (doc_snapshot d')"
    using ok a(1) by (intro leads_snoc) (simp_all add: joined_ok_def)
  moreover have "fresh_queue stamp d' (q @ [(acc, map_hash d')]) nw"
    using ok session_accept.hyps(3,4) fmdom_notI [OF session_accept.hyps(3)] unfolding joined_ok_def fresh_queue_def Let_def a(2)
    by (auto simp: a(3))
  ultimately show ?case using ok by (simp add: joined_ok_def)
next
  case (session_server d q nw E d')
  then show ?case by (auto simp: joined_ok_def fresh_queue_def Let_def intro: reach_step)
next
  case (session_local d q nw E nw')
  have ok: "joined_ok H procs stamp d q nw E" by (rule session_local.IH [OF session_local.prems])
  then have inv: "client_inv H procs E nw" by (simp add: joined_ok_def)
  then have n: "narrows nw nw'" using local_narrows [OF session_local.hyps(2)] by (simp add: client_inv_def)
  then show ?case
    using ok client_local_inv [OF session_local.hyps(2) inv] fresh_logs [of nw' nw stamp d q] by (simp add: joined_ok_def narrows_def)
next
  case (session_deliver d acc hash q nw E)
  then show ?case by (blast intro: deliver_step(2))
next
  case (session_replace d q nw E c nw')
  have ok: "joined_ok H procs stamp d q nw E" by (rule session_replace.IH [OF session_replace.prems])
  then have inv: "client_inv H procs E nw" by (simp add: joined_ok_def)
  note rep = replace_spec [OF inv session_replace.hyps(3)]
  have "client_map nw' = doc_snapshot d" "drafts nw' = drafts nw" using rep(2) session_replace.hyps(2) by auto
  then show ?case using ok rep(1) by (auto simp: joined_ok_def fresh_queue_def Let_def drafts_def)
next
  case (session_take d q nw E u nw')
  have ok: "joined_ok H procs stamp d q nw E" by (rule session_take.IH [OF session_take.prems])
  then have inv: "client_inv H procs E nw" by (simp add: joined_ok_def)
  note take = take_inv [OF inv session_take.hyps(2)]
  show ?case
    using ok take(2) ccoreD(1) [OF take(3)] fresh_logs [OF logs_drafts [OF take(4)], of stamp d q] by (simp add: joined_ok_def)
qed

section \<open>Properties\<close>

fun deliver :: "digest_fun \<Rightarrow> nat \<Rightarrow> stamp_fun \<Rightarrow> (accepted_operation \<times> string) list \<Rightarrow> network \<Rightarrow> client_error option \<times> network" where
  "deliver H procs stamp [] nw = (None, nw)"
| "deliver H procs stamp ((acc, hash) # q) nw =
     (case Receive H procs stamp (Inr (OperationAccepted acc hash)) nw of
        (Some e, nw') \<Rightarrow> (Some e, nw')
      | (None, nw') \<Rightarrow> deliver H procs stamp q nw')"

lemma deliver_all:
  assumes "joined_ok H procs stamp d q nw E" "nw_terminal nw = None"
  shows "\<exists>nw'. deliver H procs stamp q nw = (None, nw') \<and> joined_ok H procs stamp d [] nw' E \<and> nw_terminal nw' = None"
  using assms
proof (induction q arbitrary: nw)
  case (Cons m q)
  obtain acc hash where m: "m = (acc, hash)" by (cases m)
  note s = deliver_step [OF Cons.prems(1) [unfolded m] Cons.prems(2)]
  show ?case using Cons.IH [OF s(2,3)] s(1) by (cases "Receive H procs stamp (Inr (OperationAccepted acc hash)) nw") (simp add: m)
qed simp

text \<open>C37: clients converge. However the server's acceptances, an executor's own steps and its recoveries
  interleave, an executor that still runs installs every acceptance under way without an error, and
  then holds exactly the server's map at the server's revision, under its hash.\<close>

theorem clients_converge:
  assumes "session H procs stamp d q nw E" "digest32 H" "nw_terminal nw = None"
  shows "\<exists>nw'. deliver H procs stamp q nw = (None, nw') \<and> acknowledged (nw_projection nw') = doc_snapshot d \<and>
    Snapshot_Hash H procs (doc_snapshot d) = Inr (acknowledged_hash (nw_projection nw'))"
proof -
  obtain nw' where nw': "deliver H procs stamp q nw = (None, nw')" "joined_ok H procs stamp d [] nw' E"
    using deliver_all [OF session_inv [OF assms(1,2)] assms(3)] by blast
  then have ok: "client_ok H procs nw'" and m: "client_map nw' = doc_snapshot d"
    by (simp_all add: joined_ok_def client_inv_def)
  show ?thesis
    using nw'(1) m client_okD(2) [OF ok] Snapshot_Hash_full [OF indexedD(1) [OF client_okD(1) [OF ok]]] by auto
qed

section \<open>A sample session\<close>

text \<open>An executor joins on the sample document, and the server accepts the sample edit.\<close>

definition sample_stamp :: stamp_fun where
  "sample_stamp at = Some ''now''"

definition sample_client :: network where
  "sample_client = projr (NewNetworkExecutor sample_digest 2 False sample_snapshot (sample_id CHR ''2'') ''session'')"

abbreviation sample_view :: editor_view where
  "sample_view \<equiv> \<lparr>ed_authority = map_view sample_snapshot, ed_display = map_view sample_snapshot\<rparr>"

abbreviation sample_answer :: accepted_operation where
  "sample_answer \<equiv> projr (fst (Apply sample_digest 2 sample_edit 5 sample_doc))"

abbreviation sample_head :: document where
  "sample_head \<equiv> snd (Apply sample_digest 2 sample_edit 5 sample_doc)"

lemma sample_client_new:
  "NewNetworkExecutor sample_digest 2 False sample_snapshot (sample_id CHR ''2'') ''session'' = Inr sample_client"
  "nw_terminal sample_client = None" "local_admissions (nw_publication sample_client) = 0"
proof -
  have "ActorID_Validate (sample_id CHR ''2'') = None" using sample_id_valid by (simp add: ActorID_Validate_def)
  then obtain nw where "NewNetworkExecutor sample_digest 2 False sample_snapshot (sample_id CHR ''2'') ''session'' = Inr nw"
    using sample_snapshot_valid(1) by (auto simp: NewNetworkExecutor_def NewCanonicalHasher_def lift_model_def Let_def guard_def)
  then show new: "NewNetworkExecutor sample_digest 2 False sample_snapshot (sample_id CHR ''2'') ''session'' = Inr sample_client"
    by (simp add: sample_client_def)
  have "nw_terminal nw = None \<and> local_admissions (nw_publication nw) = 0"
    if "NewNetworkExecutor H procs nil_transport s actor name = Inr nw" for H procs nil_transport s actor name nw
    using that by (auto simp: NewNetworkExecutor_def sum_bind_Inr_iff Let_def publishCaptureLocked_def indexAcknowledgedLocked_def
        newPublicationState_def)
  from this [OF new] show "nw_terminal sample_client = None" "local_admissions (nw_publication sample_client) = 0" by simp_all
qed

lemma sample_session: "session sample_digest 2 sample_stamp sample_head [(sample_answer, map_hash sample_head)] sample_client sample_view"
proof -
  have joined: "session sample_digest 2 sample_stamp sample_doc [] sample_client sample_view"
    using session_join [OF sample_doc_facts(1), unfolded sample_doc_facts(2), OF sample_client_new(1)] .
  have json: "json_accepted sample_stamp sample_answer \<noteq> None" by (simp add: json_accepted_def sample_stamp_def Let_def)
  have "fmlookup (accepted sample_doc) (op_id sample_edit) = None" by (simp add: sample_doc_facts)
  from session_accept [OF joined sample_edit_applied [unfolded Apply_def] this json [unfolded Apply_def]] show ?thesis
    unfolding Apply_def append_Nil .
qed

theorem clients_converge_witness:
  "\<exists>nw'. deliver sample_digest 2 sample_stamp [(sample_answer, map_hash sample_head)] sample_client = (None, nw') \<and>
     acknowledged (nw_projection nw') = doc_snapshot sample_head"
  using clients_converge [OF sample_session sample_digest32 sample_client_new(2)] by blast

theorem editor_shows_projection_witness:
  "(case fst (TakePresentationUpdate sample_client) of Some u \<Rightarrow> show_update u sample_view | None \<Rightarrow> sample_view) =
     \<lparr>ed_authority = map_view (acknowledged (nw_projection sample_client)),
      ed_display = map_view (Visible sample_digest 2 (nw_projection sample_client))\<rparr>"
  by (rule editor_shows_projection [OF run_join [OF sample_client_new(1)] sample_client_new(3)])

text \<open>The connection ends after the answer has arrived.\<close>

lemma foldl_keeps: "(\<And>x s. f (g s x) = f s) \<Longrightarrow> f (foldl g s xs) = f s"
  by (induction xs arbitrary: s) simp_all

lemma clear_terminal: "nw_terminal (clearPendingLocked H procs cause nw) = nw_terminal nw"
proof -
  have retain: "nw_terminal (retainConflictLocked cf n) = nw_terminal n" for cf n by (simp add: retainConflictLocked_def)
  have unsent: "nw_terminal (retainUnsentLocked H procs op cause n) = nw_terminal n" for op n
    by (simp add: retainUnsentLocked_def Let_def retain split: sum.split)
  have unconfirmed: "nw_terminal (retain_unconfirmed h op n) = nw_terminal n" for h op n by (simp add: retain_unconfirmed_def retain)
  note folds = foldl_keeps [of nw_terminal "\<lambda>n i. drop_waiter i n"] foldl_keeps [of nw_terminal "\<lambda>n op. retainUnsentLocked H procs op cause n"]
    foldl_keeps [of nw_terminal "\<lambda>n op. retain_unconfirmed h op n" for h]
  show ?thesis
    by (simp add: clearPendingLocked_def interrupt_admission_def Let_def rebuildVisibleLocked_def folds unsent unconfirmed
        split: sum.split)
qed

lemma drop_terminal: "client_drop i nw nw' \<Longrightarrow> nw_terminal nw' = nw_terminal nw"
  by (induction rule: client_drop.induct)
    (auto simp: DiscardConflict_def DismissConflict_def sum_bind_Inr_iff beginMetadataPublicationLocked_def delete_conflict_def Let_def
      split: option.splits)


end
