(* ===== verification/Spec2Isabelle.thy ===== *)
theory Spec2Isabelle
  imports Paged_Replay Save_Roundtrip Parse_Types Value_Check Undo_Props Client_Converge
begin

text \<open>
  AphelionDMM is a map editor for BYOND maps (Go). Its core logic, which this library models, has two
  halves. The first is the editor proper: a map file is parsed into a dictionary of keys and a grid
  (dmapi/dmmap/dmmdata), edited through commands with an undo history (app/command), and saved with a
  fresh assignment of keys and a validation of the written text (dmapi/dmmsave, aphelion/mapsave). The
  second is shared editing (aphelion/collab): clients submit operations to an engine that owns the
  document (engine), a session store keeps every accepted operation and a snapshot (store), a client
  that joins is sent the operations it misses (server/paged_replay.go), and a reconciler on each client
  shows its own pending operations on top of the acknowledged map (client).

  Paths below are relative to src/internal/. A \<^verbatim>\<open>struct\<close> is a \<^verbatim>\<open>record\<close> with the same fields, an error
  is the left of a sum, a Go map is a partial function or an \<open>fmap\<close>, revisions and sizes are 64-bit words,
  and Go's \<^verbatim>\<open>int\<close> is \<open>int\<close> with its wrap-around written out where an input can reach it (\<^const>\<open>wrap64\<close>).
  A mutex-protected method is one function on the protected state. What the code draws from outside is an
  argument: SHA-256 (a \<^typ>\<open>digest_fun\<close>), the number of processors, a context with the poll at which it is
  cancelled, the clock and random bytes, the order in which Go visits a map and the index that
  \<^verbatim>\<open>rand.Intn\<close> picks (\<open>intn\<close>), the text of a time (\<open>stamp\<close>), the parsed environment, the prompt of a save,
  and a decoded server message.

  \<^bold>\<open>Collaboration model and engine.\<close>
    \<^item> \<open>Ids\<close>: model/ids.go, generation and validation of version-7 UUIDs.
    \<^item> \<open>State\<close>: model/state.go, operation.go, operation_identity.go, limits.go, clone.go. Snapshots, tiles,
      operations, their comparison, copies and validation.
    \<^item> \<open>Canonical_Hash\<close>, \<open>Hash_Update\<close>, \<open>Hash_Binding\<close>: model/hash.go, canonical_hasher.go. The buffered encoder,
      the tile, row and map digests, the parallel full hash and the incremental one; that the two agree
      and that the hash binds the map.
    \<^item> \<open>Document\<close>: engine/document.go, errors.go, local.go, metadata.go, inverse.go; \<open>Capture\<close>:
      snapshot_capture.go, scoped_tile_capture.go. Every operation on a document, as a step relation
      \<open>doc_step\<close> with \<open>reachable\<close>.
    \<^item> \<open>Document_Inv\<close>, \<open>Document_Correct\<close>, \<open>Document_Local\<close>, \<open>Document_History\<close>: the representation
      invariant (valid snapshot, exact indexes and owners, no stale hash, consistent history) and its
      preservation. \<open>Tile_Store\<close>: the locale of what a table of tiles promises to its editors, interpreted
      on the wire path and on the owner path. \<open>Engine_Props\<close>: the properties.
    \<^item> \<open>Document_Replay\<close>, \<open>Document_Twins\<close>: runs of accepted operations, and documents whose snapshots hold
      the same map in different lists.

  \<^bold>\<open>Store and replay.\<close>
    \<^item> \<open>Recovery\<close>: engine/recovery.go; \<open>Checkpoint\<close>: model/checkpoint.go; \<open>Memory_Store\<close>: store/store.go,
      memory.go, memory_recovery.go. \<open>Recovery_Correct\<close>, \<open>Store_Inv\<close>, \<open>Store_Props\<close>: behind each session
      stands one history of accepted operations, every table is a view of it, and the store refines an
      abstract log (\<open>log_step\<close>). The steps of a store allow any call with any arguments, with two conditions
      that the code does not check: an appended operation does not claim revision 0, which only a wrap past
      \<open>2\<^sup>64 - 1\<close> could accept, and a published snapshot is \<open>publishable\<close>: it carries its document's environment
      hash (\<open>save_ignores_environment\<close> shows a session lost without it) and its map hash is not shared by
      another map of the log (which \<open>publishable_no_collision\<close> derives when the digest is injective on the
      bytes hashed).
    \<^item> \<open>Replay_Pages\<close>, \<open>Replay_Size\<close>, \<open>Replay_Correct\<close>: store/replay_pages.go and the JSON sizes it counts.
      \<open>Paged_Replay\<close>: server/paged_replay.go over the locale of a page loader, interpreted on the store while
      others write. The loop has fuel; C27 gives the bound after which it has ended.

  \<^bold>\<open>Collaboration client.\<close>
    \<^item> \<open>Client_Projection\<close>: client/reconcile.go, projection_index.go and the effective view of
      presentation.go. \<open>Client_State\<close>: the state of an executor and client/admission_size.go.
      \<open>Client_Executor\<close>, \<open>Client_Steps\<close>: client/indexed_executor.go, executor.go, presentation.go and
      projection_updates.go, each section under the executor's mutex one function.
    \<^item> \<open>Client_Tables\<close>, \<open>Client_Views\<close>: the specification of speculation (an operation that fits the table is
      shown, another is skipped whole) and the four implementations of it. \<open>Client_Inv\<close>, \<open>Client_Display\<close>,
      \<open>Client_Keeps\<close>: the invariant and its preservation by every step. \<open>Client_Editor\<close>: what an editor that
      takes the updates shows. \<open>Client_Drafts\<close>: no edit is lost. \<open>Client_Converge\<close>: executors reach the map of
      the server's document.

  \<^bold>\<open>Map files.\<close>
    \<^item> \<open>Dmm_Data\<close>, \<open>Dmm_Parse\<close>: dmmdata.go, key.go, save_dm.go, save_tgm.go, parse.go, rune by rune.
      \<open>Dmm_Chunks\<close>, \<open>Dmm_Grid_Chunks\<close>, \<open>Dmm_Roundtrip\<close>: what survives a save. \<open>Parse_Types\<close>: what every parsed
      map has. \<open>Value_Check\<close>: value_check.go. Memory is unbounded in the model: a file that
      claims \<open>2\<^sup>63 - 1\<close> columns or levels is filled in by the parser, which the program does not survive.
    \<^item> \<open>Map_Keys\<close>: dmmsave/keygen/keygen.go, aphelion/mapsave/keylength.go. \<open>Prefab_Identity\<close>, \<open>Prefab_Index\<close>:
      aphelion/prefabidentity/content.go, dmmdata/prefabs.go. \<open>Map_Save\<close>: dmmsave/save_process.go, dmmsave.go,
      validation.go, config.go, aphelion/mapsave, dmmdata/save_atomic.go. \<open>Save_Inv\<close>, \<open>Save_Keys\<close>, \<open>Save_Props\<close>,
      \<open>Save_Digest\<close>, \<open>Save_Roundtrip\<close>: the assignment of keys and the whole save. The assignment starts over
      with a longer key at most twice, so \<^const>\<open>save_fuel\<close> is enough (proved, not assumed). The properties of the
      assignment are about files with BYOND's keys: one to three letters (\<open>initial_ok\<close>); the code does
      not manage others (\<open>long_keys_get_one_letter\<close>).

  \<^bold>\<open>Undo.\<close>
    \<^item> \<open>Command_History\<close>: app/command/command.go, storage.go. Commands act on an arbitrary application
      state through closures; undo and redo start, wait and finish as separate steps. \<open>History_Inv\<close>,
      \<open>History_Props\<close>, \<open>Undo_Props\<close>: a ghost list of the saved commands makes the modified flag exact.

  \<^bold>\<open>Basis.\<close> \<open>Prelude\<close> (sums as results, contexts, generic lemmas), \<open>Utf8\<close>, \<open>Samples\<close> (the values the witnesses
  run on).

  \<^bold>\<open>Not modelled.\<close> The wire envelopes and their JSON decoding, websocket transport, reconnection and previews
  of conflicts; the HTTP server; the SQL stores and the cache of verified heads they use; the staging
  file with its atomic replacement, the projection of some levels of a map (mapsave/projection.go) and
  the list of unsaveable variables that explains a failed save; the memory estimate of an inverse; the
  bulk format of replay rows; lint, mapping aids and repath; the environment parser (third party);
  lighting and rendering; the user interface, preferences, self update, telemetry, authentication and the
  command line programs. Goroutines appear only as the interleaving of the steps above.
\<close>

end
